(* ===== verification/Prelude.thy ===== *)
theory Prelude
  imports Main "HOL-Library.Word"
begin

unbundle bit_operations_syntax

text \<open>
  Shared vocabulary of the development: the machine integers and pointers of the C code, the
  outcomes a C function can have, and the generic lemmas on outcomes, arrays (lists) and
  words that every component theory uses.

  A C function that may stop the machine is a HOL function into an \<open>outcome\<close>: it returns a
  value, calls \<open>panic\<close> with a message, or does something the C standard leaves undefined
  (a null dereference, an access outside an array, a division by zero). A loop that may not
  end takes fuel, and \<open>NoFuel\<close> says that it has not come to an end with what it was given.
\<close>

section \<open>Machine integers and pointers\<close>

type_synonym u8 = "8 word"
type_synonym u16 = "16 word"
type_synonym u32 = "32 word"
type_synonym i32 = "32 word"
type_synonym u64 = "64 word"
type_synonym addr32 = "32 word"
type_synonym addr64 = "64 word"

text \<open>The C conditions on an \<open>int\<close> read the word as two's complement.\<close>

abbreviation slt :: "i32 \<Rightarrow> i32 \<Rightarrow> bool" where
  "slt a b \<equiv> sint a < sint b"

section \<open>Outcomes of C functions\<close>

datatype 'a outcome =
    Ret 'a
  | Panic string
  | Undef string
  | NoFuel

fun obind :: "'a outcome \<Rightarrow> ('a \<Rightarrow> 'b outcome) \<Rightarrow> 'b outcome" where
  "obind (Ret x) f = f x"
| "obind (Panic m) f = Panic m"
| "obind (Undef m) f = Undef m"
| "obind NoFuel f = NoFuel"

fun returns :: "'a outcome \<Rightarrow> bool" where
  "returns (Ret x) = True"
| "returns (Panic m) = False"
| "returns (Undef m) = False"
| "returns NoFuel = False"

named_theorems outcome_simps \<open>equations that run a computation in the outcome type\<close>

lemma obind_eq_Ret [outcome_simps]:
  "obind m f = Ret y \<longleftrightarrow> (\<exists>x. m = Ret x \<and> f x = Ret y)"
  by (cases m) auto

lemma obind_assoc: "obind (obind m f) g = obind m (\<lambda>x. obind (f x) g)"
  by (cases m) auto

lemma obind_Ret_right [simp]: "obind m Ret = m"
  by (cases m) auto

lemma obind_if: "obind (if b then m else n) f = (if b then obind m f else obind n f)"
  by simp

lemma returns_iff: "returns m \<longleftrightarrow> (\<exists>x. m = Ret x)"
  by (cases m) auto

lemma obind_cong [fundef_cong]:
  "m = m' \<Longrightarrow> (\<And>x. m' = Ret x \<Longrightarrow> f x = g x) \<Longrightarrow> obind m f = obind m' g"
  by (cases m') auto

lemma option_eqI: "(\<And>v. x = Some v \<longleftrightarrow> y = Some v) \<Longrightarrow> x = y"
  by (metis option.exhaust)

section \<open>Scanning an array for the first match\<close>

text \<open>
  The loop \<open>for (i = 0; i < N; i++) if (P(a[i])) goto found;\<close>: the index of the first
  element that satisfies the condition.
\<close>

fun scan :: "('a \<Rightarrow> bool) \<Rightarrow> 'a list \<Rightarrow> nat option" where
  "scan P [] = None"
| "scan P (x # xs) = (if P x then Some 0 else map_option Suc (scan P xs))"

lemma scan_None: "scan P xs = None \<longleftrightarrow> (\<forall>x \<in> set xs. \<not> P x)"
  by (induction xs) auto

lemma scan_Some:
  "scan P xs = Some k \<longleftrightarrow> k < length xs \<and> P (xs ! k) \<and> (\<forall>j < k. \<not> P (xs ! j))"
proof (induction xs arbitrary: k)
  case Nil
  then show ?case by simp
next
  case (Cons x xs)
  then show ?case by (cases k) (auto simp: less_Suc_eq_0_disj)
qed

lemma scan_map: "scan Q (map f xs) = scan (\<lambda>x. Q (f x)) xs"
  by (induction xs) auto

lemma scan_SomeD:
  assumes "scan P xs = Some k"
  shows "k < length xs" and "P (xs ! k)" and "j < k \<Longrightarrow> \<not> P (xs ! j)"
  using assms by (auto simp: scan_Some)

section \<open>Updating one element of an array\<close>

definition upd_nth :: "nat \<Rightarrow> ('a \<Rightarrow> 'a) \<Rightarrow> 'a list \<Rightarrow> 'a list" where
  "upd_nth i f xs = xs[i := f (xs ! i)]"

lemma length_upd_nth [simp]: "length (upd_nth i f xs) = length xs"
  by (simp add: upd_nth_def)

lemma nth_upd_nth [simp]:
  "j < length xs \<Longrightarrow> upd_nth i f xs ! j = (if i = j then f (xs ! j) else xs ! j)"
  by (simp add: upd_nth_def nth_list_update)

lemma upd_nth_upd_nth [simp]:
  "i < length xs \<Longrightarrow> upd_nth i g (upd_nth i f xs) = upd_nth i (g \<circ> f) xs"
  by (simp add: upd_nth_def)

lemma map_upd_nth:
  "(\<And>x. h (f x) = h x) \<Longrightarrow> map h (upd_nth i f xs) = map h xs"
  by (cases "i < length xs") (simp_all add: upd_nth_def map_update list_update_beyond
      list_update_same_conv)

lemma map_upd_nth_set:
  "(\<And>x. h (f x) = y) \<Longrightarrow> map h (upd_nth i f xs) = (map h xs)[i := y]"
  by (simp add: upd_nth_def map_update)

section \<open>Words\<close>

lemma unat_add_no_overflow:
  "unat (a::'a::len word) + unat b < 2 ^ LENGTH('a) \<Longrightarrow> unat (a + b) = unat a + unat b"
  by (simp add: unat_word_ariths)

lemma unat_u32_less: "unat (x::u32) < 4294967296"
  using unsigned_less [of x] by simp

lemma unat_plus_one: "(x::u32) + 1 \<noteq> 0 \<Longrightarrow> unat (x + 1) = unat x + 1"
  using unatSuc [of x] by (simp add: add.commute)

lemma word_plus_one_nonzero: "(x::u32) \<noteq> 0xFFFFFFFF \<Longrightarrow> x + 1 \<noteq> 0"
proof
  assume ne: "x \<noteq> 0xFFFFFFFF" and "x + 1 = 0"
  then have "x = - 1" by (simp only: eq_neg_iff_add_eq_0)
  also have "- 1 = (0xFFFFFFFF :: u32)" by simp
  finally show False using ne by contradiction
qed

lemma sint_eq_unat_if_small:
  assumes "unat (a::i32) < 2 ^ 31"
  shows "sint a = int (unat a)"
proof -
  have "int (unat a) < int (2 ^ 31)"
    using assms by (simp only: of_nat_less_iff)
  then have "uint a < 2 ^ 31"
    by simp
  moreover have "- (2 ^ 31) \<le> uint a"
    by (rule order_trans [OF _ uint_ge_0]) simp
  ultimately have "signed_take_bit 31 (uint a) = uint a"
    by (rule signed_take_bit_int_eq_self [rotated])
  then show ?thesis
    by (simp add: sint_uint)
qed

lemma sint_nonneg:
  assumes "0 \<le> sint (a :: i32)"
  shows "unat a < 2 ^ 31"
proof -
  have "sint a < 0" if "bit (uint a) 31"
    using that signed_take_bit_negative_iff [of 31 "uint a"] by (simp add: sint_uint)
  then have "\<not> bit (uint a) 31" using assms by linarith
  then have "even (uint a div 2 ^ 31)" by (simp add: bit_iff_odd)
  moreover have "uint a < 2 ^ 32" using unsigned_less [of a] by simp
  then have "uint a div 2 ^ 31 < 2" by simp
  moreover have "0 \<le> uint a div 2 ^ 31" by (simp add: pos_imp_zdiv_nonneg_iff)
  moreover have "q = 0" if "even q" "0 \<le> q" "q < 2" for q :: int using that by presburger
  ultimately have "uint a div 2 ^ 31 = 0" by blast
  then have "uint a < 2 ^ 31" by (simp add: div_eq_0_iff)
  then have "int (unat a) < int (2 ^ 31)" by simp
  then show ?thesis by (simp only: of_nat_less_iff)
qed

text \<open>
  The addition of two \<open>int\<close>: where the sum is no \<open>int\<close> the C standard leaves it undefined.
\<close>

definition sadd :: "i32 \<Rightarrow> i32 \<Rightarrow> i32 outcome" where
  "sadd a b =
     (if - (2 ^ 31) \<le> sint a + sint b \<and> sint a + sint b < 2 ^ 31 then Ret (a + b)
      else Undef ''signed overflow'')"

lemma sadd_nonneg:
  assumes "unat a < 2 ^ 31" and "unat b < 2 ^ 31"
  shows "sadd a b = (if unat a + unat b < 2 ^ 31 then Ret (a + b) else Undef ''signed overflow'')"
proof -
  have sum: "sint a + sint b = int (unat a + unat b)"
    by (simp only: sint_eq_unat_if_small [OF assms(1)] sint_eq_unat_if_small [OF assms(2)] of_nat_add)
  have "(2::int) ^ 31 = int (2 ^ 31)" by simp
  then have lt: "int (unat a + unat b) < 2 ^ 31 \<longleftrightarrow> unat a + unat b < 2 ^ 31"
    by (simp only: of_nat_less_iff)
  have ge: "- (2 ^ 31) \<le> int (unat a + unat b)"
    by (rule order_trans [OF _ of_nat_0_le_iff]) simp
  show ?thesis unfolding sadd_def sum by (simp only: lt ge simp_thms)
qed

lemma sadd_pred:
  assumes "a \<noteq> 0" and "unat a < 2 ^ 31"
  shows "sadd a (- 1) = Ret (a - 1)"
proof -
  have "unat a \<noteq> 0" using assms(1) by (simp add: unat_eq_zero)
  then have pos: "0 < int (unat a)" by (simp only: of_nat_0_less_iff)
  have "int (unat a) < int (2 ^ 31)" using assms(2) by (simp only: of_nat_less_iff)
  with pos show ?thesis
    by (simp only: sadd_def sint_eq_unat_if_small [OF assms(2)]) simp
qed

lemma scast_pos:
  assumes "slt 0 k"
  shows "(scast k :: u64) \<noteq> 0"
proof
  assume z: "(scast k :: u64) = 0"
  have b: "0 < sint k" "sint k < 2 ^ 64" using assms sint_lt [of k] by simp_all
  have "uint (word_of_int (sint k) :: u64) = take_bit 64 (sint k)"
    by (simp only: uint_word_of_int_eq) simp
  also have "\<dots> = sint k" using b by (simp only: take_bit_int_eq_self)
  finally show False using z b(1) unfolding scast_eq by simp
qed

end
