(* ===== verification/Lottery_Rand.thy ===== *)
theory Lottery_Rand
  imports Prelude
begin

text \<open>
  The pseudo-random generator of the lottery scheduler (Lab2 \<open>rand.c\<close>): a linear
  congruential generator over one static word, \<open>seed\<close>. The state is the seed; each
  operation takes it and returns the new one. \<open>A * seed + C\<close> is unsigned 32-bit
  arithmetic, so it wraps; the source then masks with \<open>M = 0xFFFFFFFF\<close>.
\<close>

section \<open>The generator\<close>

definition rand_A :: u32 where "rand_A = 1664525"
definition rand_C :: u32 where "rand_C = 1013904223"
definition rand_M :: u32 where "rand_M = 0xFFFFFFFF"

definition rand_init :: "u32 \<Rightarrow> u32" where
  "rand_init seed = 1"

definition next_rand :: "u32 \<Rightarrow> u32 \<times> u32" where
  "next_rand seed = (let seed' = (rand_A * seed + rand_C) AND rand_M in (seed', seed'))"

text \<open>
  \<open>random_at_most max\<close> returns the number and the new seed. With \<open>max = 0\<close> it returns 0
  and draws nothing; with \<open>max = 0xFFFFFFFF\<close> the divisor \<open>max + 1\<close> wraps to 0, and an
  unsigned remainder by 0 is undefined.
\<close>

definition random_at_most :: "u32 \<Rightarrow> u32 \<Rightarrow> (u32 \<times> u32) outcome" where
  "random_at_most mx seed =
     (if mx = 0 then Ret (0, seed)
      else let (r, seed') = next_rand seed in
           if mx + 1 = 0 then Undef ''random_at_most: remainder by zero''
           else Ret (r mod (mx + 1), seed'))"

section \<open>The generator's step is a permutation of the 32-bit words\<close>

lemma rand_M_mask: "x AND rand_M = x"
proof -
  have minus_one: "rand_M = - 1" by (simp add: rand_M_def)
  show ?thesis unfolding minus_one by (rule and.right_neutral)
qed

lemma next_rand_eq: "next_rand seed = (rand_A * seed + rand_C, rand_A * seed + rand_C)"
  by (simp add: next_rand_def rand_M_mask Let_def)

text \<open>The multiplier is odd, so it has an inverse modulo \<open>2 ^ 32\<close>.\<close>

definition rand_A_inv :: u32 where "rand_A_inv = 4276115653"

lemma rand_A_inverse: "rand_A_inv * rand_A = 1"
  by (simp add: rand_A_inv_def rand_A_def)

definition prev_seed :: "u32 \<Rightarrow> u32" where
  "prev_seed r = rand_A_inv * (r - rand_C)"

lemma next_rand_prev_seed: "next_rand (prev_seed r) = (r, r)"
proof -
  have "rand_A * prev_seed r = (rand_A_inv * rand_A) * (r - rand_C)"
    by (simp only: prev_seed_def ac_simps)
  then show ?thesis by (simp add: next_rand_eq rand_A_inverse)
qed

lemma prev_seed_next_rand: "prev_seed (snd (next_rand seed)) = seed"
proof -
  have "prev_seed (snd (next_rand seed)) = (rand_A_inv * rand_A) * seed"
    by (simp add: prev_seed_def next_rand_eq mult.assoc)
  then show ?thesis by (simp add: rand_A_inverse)
qed

text \<open>
  The generator's step permutes the 32-bit words: no two seeds have the same successor
  and every word is the successor of a seed, so no value is ever unreachable for the lottery.
\<close>

theorem next_rand_bij: "bij (\<lambda>seed. snd (next_rand seed))"
  by (rule bij_betw_byWitness [where f' = prev_seed])
    (auto simp: prev_seed_next_rand next_rand_prev_seed)

section \<open>The bounded draw\<close>

lemma mod_plus_one_le:
  assumes nz: "(x::u32) + 1 \<noteq> 0"
  shows "r mod (x + 1) \<le> x"
proof -
  have "unat (r mod (x + 1)) = unat r mod (unat x + 1)"
    by (simp only: unat_mod unat_plus_one [OF nz])
  also have "\<dots> < unat x + 1" by simp
  finally show ?thesis by (simp add: word_le_nat_alt)
qed

lemma mod_plus_one_self:
  assumes "(v::u32) \<le> x" and nz: "x + 1 \<noteq> 0"
  shows "v mod (x + 1) = v"
proof -
  have "unat v < unat (x + 1)"
    using assms(1) by (simp add: unat_plus_one [OF nz] word_le_nat_alt less_Suc_eq_le)
  then show ?thesis by (simp add: word_less_nat_alt [symmetric] mod_word_less)
qed

lemma random_at_most_range:
  assumes "mx \<noteq> 0xFFFFFFFF"
  shows "\<exists>r seed'. random_at_most mx seed = Ret (r, seed') \<and> r \<le> mx"
  using word_plus_one_nonzero [OF assms]
  by (simp add: random_at_most_def next_rand_eq mod_plus_one_le)

lemma random_at_most_onto:
  assumes "v \<le> mx" and "mx \<noteq> 0xFFFFFFFF"
  shows "\<exists>seed seed'. random_at_most mx seed = Ret (v, seed')"
proof (cases "mx = 0")
  case True
  with assms(1) show ?thesis by (simp add: random_at_most_def)
next
  case False
  have nz: "mx + 1 \<noteq> 0" using assms(2) by (rule word_plus_one_nonzero)
  have "random_at_most mx (prev_seed v) = Ret (v, v)"
    using False nz
    by (simp add: random_at_most_def next_rand_prev_seed mod_plus_one_self [OF assms(1) nz])
  then show ?thesis by blast
qed

end
