(* ===== verification/Lottery_Proc.thy ===== *)
theory Lottery_Proc
  imports Lottery_Rand
begin

text \<open>
  The process layer of the lottery-scheduling kernel: Lab2 \<open>proc.h\<close> (records and states),
  \<open>param.h\<close> (sizes), \<open>pstat.h\<close> and \<open>proc.c\<close> (every function).

  A \<open>struct proc *\<close> is an index into the process table, the null pointer is \<open>None\<close>. The
  trap frames and saved contexts that \<open>allocproc\<close> lays out on a kernel stack are reached
  through typed heaps indexed by the 32-bit address the code computes.

  Code that is not in the repository is a field of the record \<open>ext\<close>, which every operation
  takes: the constants of \<open>mmu.h\<close>, the interrupt flag and lock primitives
  (\<open>x86.h\<close>, \<open>lapic.c\<close>, \<open>spinlock.c\<close>, acting on \<open>'c mach\<close>, the CPUs and lock
  words), and the allocator, page-table, file and log routines (acting on the opaque
  \<open>'w\<close>). A context switch is an argument \<open>sw\<close>: whatever the other threads do until this
  one is switched back in.
\<close>

section \<open>Constants of param.h\<close>

definition NPROC :: nat where "NPROC = 64"
definition KSTACKSIZE :: u32 where "KSTACKSIZE = 4096"
definition NCPU :: nat where "NCPU = 8"
definition NOFILE :: nat where "NOFILE = 16"
definition ROOTDEV :: u32 where "ROOTDEV = 1"

section \<open>Data of proc.h and pstat.h\<close>

record kcontext =
  ctx_edi :: u32
  ctx_esi :: u32
  ctx_ebx :: u32
  ctx_ebp :: u32
  ctx_eip :: u32

text \<open>\<open>sizeof(struct context)\<close>: five 32-bit words.\<close>

definition sizeof_context :: u32 where "sizeof_context = 20"

text \<open>
  The trap frame of \<open>x86.h\<close>: the registers the code of this repository names, and the rest
  of the frame, which it only copies as a whole or clears.
\<close>

record trapframe =
  tf_eax :: u32
  tf_esp :: u32
  tf_eip :: u32
  tf_eflags :: u32
  tf_cs :: u32
  tf_ds :: u32
  tf_es :: u32
  tf_ss :: u32
  tf_rest :: "u32 list"

datatype procstate = UNUSED | EMBRYO | SLEEPING | RUNNABLE | RUNNING | ZOMBIE

text \<open>
  A sleep channel is a \<open>void *\<close> that is only compared: the address of a process, of the
  tick counter, or any other kernel address.
\<close>

datatype chan = ChanNull | ChanProc nat | ChanTicks | ChanAddr addr32

fun proc_chan :: "nat option \<Rightarrow> chan" where
  "proc_chan None = ChanNull"
| "proc_chan (Some i) = ChanProc i"

record proc =
  p_sz :: u32
  p_pgdir :: addr32
  p_kstack :: addr32
  p_state :: procstate
  p_pid :: i32
  p_parent :: "nat option"
  p_tf :: addr32
  p_context :: addr32
  p_chan :: chan
  p_killed :: i32
  p_ofile :: "addr32 list"
  p_cwd :: addr32
  p_name :: string
  p_tickets :: i32
  p_ticks :: i32

text \<open>The process table is static, so every slot starts as zero bytes.\<close>

definition zero_proc :: proc where
  "zero_proc =
     \<lparr>p_sz = 0, p_pgdir = 0, p_kstack = 0, p_state = UNUSED, p_pid = 0, p_parent = None,
      p_tf = 0, p_context = 0, p_chan = ChanNull, p_killed = 0, p_ofile = replicate NOFILE 0,
      p_cwd = 0, p_name = [], p_tickets = 0, p_ticks = 0\<rparr>"

record cpu =
  c_apicid :: u8
  c_scheduler :: addr32
  c_ncli :: i32
  c_intena :: i32
  c_proc :: "nat option"

record pstat =
  ps_inuse :: "i32 list"
  ps_tickets :: "i32 list"
  ps_pid :: "i32 list"
  ps_ticks :: "i32 list"

section \<open>Kernel state and the routines it calls\<close>

datatype lock = PtableLock | TicksLock | OtherLock addr32

text \<open>The CPUs (\<open>cpus\<close> and \<open>ncpu\<close> of \<open>mp.c\<close>) and the hardware and lock words.\<close>

record 'c mach =
  cpus :: "cpu list"
  ncpu :: i32
  hw :: 'c

record ('c, 'w) kst =
  ptable :: "proc list"
  initproc :: "nat option"
  nextpid :: i32
  forkret_first :: bool
  seed :: u32
  ticks :: u32
  tfs :: "addr32 \<Rightarrow> trapframe"
  ctxs :: "addr32 \<Rightarrow> kcontext"
  stack_words :: "addr32 \<Rightarrow> u32"
  mach :: "'c mach"
  world :: 'w

record ('c, 'w) ext =
  PGSIZE :: u32
  SEG_UCODE :: u32
  SEG_UDATA :: u32
  DPL_USER :: u32
  FL_IF :: u32
  sizeof_trapframe :: u32
  forkret_addr :: addr32
  trapret_addr :: addr32
  initcode_start :: addr32
  initcode_size :: i32
  readeflags :: "'c \<Rightarrow> u32"
  lapicid :: "'c \<Rightarrow> i32"
  sti :: "'c mach \<Rightarrow> 'c mach"
  pushcli :: "'c mach \<Rightarrow> 'c mach outcome"
  popcli :: "'c mach \<Rightarrow> 'c mach outcome"
  initlock :: "lock \<Rightarrow> 'c mach \<Rightarrow> 'c mach"
  acquire :: "lock \<Rightarrow> 'c mach \<Rightarrow> 'c mach outcome"
  release :: "lock \<Rightarrow> 'c mach \<Rightarrow> 'c mach outcome"
  holding :: "lock \<Rightarrow> 'c mach \<Rightarrow> bool"
  kalloc :: "'w \<Rightarrow> (addr32 \<times> 'w) outcome"
  kfree :: "addr32 \<Rightarrow> 'w \<Rightarrow> 'w outcome"
  setupkvm :: "'w \<Rightarrow> (addr32 \<times> 'w) outcome"
  inituvm :: "addr32 \<Rightarrow> addr32 \<Rightarrow> i32 \<Rightarrow> 'w \<Rightarrow> 'w outcome"
  allocuvm :: "addr32 \<Rightarrow> u32 \<Rightarrow> u32 \<Rightarrow> 'w \<Rightarrow> (u32 \<times> 'w) outcome"
  deallocuvm :: "addr32 \<Rightarrow> u32 \<Rightarrow> u32 \<Rightarrow> 'w \<Rightarrow> (u32 \<times> 'w) outcome"
  copyuvm :: "addr32 \<Rightarrow> u32 \<Rightarrow> 'w \<Rightarrow> (addr32 \<times> 'w) outcome"
  freevm :: "addr32 \<Rightarrow> 'w \<Rightarrow> 'w outcome"
  switchuvm :: "proc \<Rightarrow> 'w \<Rightarrow> 'w outcome"
  switchkvm :: "'w \<Rightarrow> 'w outcome"
  filedup :: "addr32 \<Rightarrow> 'w \<Rightarrow> (addr32 \<times> 'w) outcome"
  fileclose :: "addr32 \<Rightarrow> 'w \<Rightarrow> 'w outcome"
  idup :: "addr32 \<Rightarrow> 'w \<Rightarrow> (addr32 \<times> 'w) outcome"
  iput :: "addr32 \<Rightarrow> 'w \<Rightarrow> 'w outcome"
  namei :: "string \<Rightarrow> 'w \<Rightarrow> (addr32 \<times> 'w) outcome"
  begin_op :: "'w \<Rightarrow> 'w outcome"
  end_op :: "'w \<Rightarrow> 'w outcome"
  iinit :: "u32 \<Rightarrow> 'w \<Rightarrow> 'w outcome"
  initlog :: "u32 \<Rightarrow> 'w \<Rightarrow> 'w outcome"
  safestrcpy :: "string \<Rightarrow> nat \<Rightarrow> string"
  getcallerpcs :: "u32 \<Rightarrow> 'w \<Rightarrow> u32 list"

text \<open>Calling a routine on its part of the state.\<close>

definition on_mach :: "('c mach \<Rightarrow> 'c mach outcome) \<Rightarrow> ('c, 'w) kst \<Rightarrow> ('c, 'w) kst outcome" where
  "on_mach f s = obind (f (mach s)) (\<lambda>m. Ret (s\<lparr>mach := m\<rparr>))"

definition on_world :: "('w \<Rightarrow> 'w outcome) \<Rightarrow> ('c, 'w) kst \<Rightarrow> ('c, 'w) kst outcome" where
  "on_world f s = obind (f (world s)) (\<lambda>w. Ret (s\<lparr>world := w\<rparr>))"

definition call_world ::
    "('w \<Rightarrow> ('a \<times> 'w) outcome) \<Rightarrow> ('c, 'w) kst \<Rightarrow> ('a \<times> ('c, 'w) kst) outcome" where
  "call_world f s = obind (f (world s)) (\<lambda>(x, w). Ret (x, s\<lparr>world := w\<rparr>))"

definition upd_proc :: "nat \<Rightarrow> (proc \<Rightarrow> proc) \<Rightarrow> ('c, 'w) kst \<Rightarrow> ('c, 'w) kst" where
  "upd_proc i f s = s\<lparr>ptable := upd_nth i f (ptable s)\<rparr>"

abbreviation proc_at :: "('c, 'w) kst \<Rightarrow> nat \<Rightarrow> proc" where
  "proc_at s i \<equiv> ptable s ! i"

definition upd_cpu :: "nat \<Rightarrow> (cpu \<Rightarrow> cpu) \<Rightarrow> ('c, 'w) kst \<Rightarrow> ('c, 'w) kst" where
  "upd_cpu c f s = s\<lparr>mach := (mach s)\<lparr>cpus := upd_nth c f (cpus (mach s))\<rparr>\<rparr>"

definition upd_tf :: "addr32 \<Rightarrow> (trapframe \<Rightarrow> trapframe) \<Rightarrow> ('c, 'w) kst \<Rightarrow> ('c, 'w) kst" where
  "upd_tf a f s = s\<lparr>tfs := (tfs s)(a := f (tfs s a))\<rparr>"

section \<open>CPUs and the current process\<close>

definition pinit :: "('c, 'w) ext \<Rightarrow> ('c, 'w) kst \<Rightarrow> ('c, 'w) kst" where
  "pinit E s = s\<lparr>mach := initlock E PtableLock (mach s)\<rparr>"

definition this_cpu :: "('c, 'w) ext \<Rightarrow> 'c mach \<Rightarrow> nat option" where
  "this_cpu E m =
     scan (\<lambda>c. ucast (c_apicid c) = lapicid E (hw m)) (take (nat (sint (ncpu m))) (cpus m))"

definition mycpu :: "('c, 'w) ext \<Rightarrow> 'c mach \<Rightarrow> nat outcome" where
  "mycpu E m =
     (if readeflags E (hw m) AND FL_IF E \<noteq> 0
      then Panic ''mycpu called with interrupts enabled''
      else case this_cpu E m of
             Some c \<Rightarrow> Ret c
           | None \<Rightarrow> Panic ''unknown apicid'')"

definition cpuid :: "('c, 'w) ext \<Rightarrow> 'c mach \<Rightarrow> i32 outcome" where
  "cpuid E m = obind (mycpu E m) (\<lambda>c. Ret (of_nat c))"

definition myproc :: "('c, 'w) ext \<Rightarrow> ('c, 'w) kst \<Rightarrow> (nat option \<times> ('c, 'w) kst) outcome" where
  "myproc E s =
     obind (on_mach (pushcli E) s) (\<lambda>s.
     obind (mycpu E (mach s)) (\<lambda>c.
     let p = c_proc (cpus (mach s) ! c) in
     obind (on_mach (popcli E) s) (\<lambda>s.
     Ret (p, s))))"

text \<open>\<open>curproc\<close>: the current process where the code dereferences it without a check.\<close>

definition curproc :: "('c, 'w) ext \<Rightarrow> ('c, 'w) kst \<Rightarrow> (nat \<times> ('c, 'w) kst) outcome" where
  "curproc E s =
     obind (myproc E s) (\<lambda>(p, s).
     case p of None \<Rightarrow> Undef ''null process'' | Some i \<Rightarrow> Ret (i, s))"

section \<open>Allocating a process\<close>

definition claim_slot :: "nat \<Rightarrow> ('c, 'w) kst \<Rightarrow> ('c, 'w) kst" where
  "claim_slot i s =
     upd_proc i (\<lambda>p. p\<lparr>p_state := EMBRYO, p_pid := nextpid s, p_tickets := 5, p_ticks := 0\<rparr>)
       (s\<lparr>nextpid := nextpid s + 1\<rparr>)"

definition setup_kstack :: "('c, 'w) ext \<Rightarrow> nat \<Rightarrow> addr32 \<Rightarrow> ('c, 'w) kst \<Rightarrow> ('c, 'w) kst" where
  "setup_kstack E i k s =
     (let sp_tf = k + KSTACKSIZE - sizeof_trapframe E;
          sp_ret = sp_tf - 4;
          sp_ctx = sp_ret - sizeof_context
      in upd_proc i (\<lambda>p. p\<lparr>p_tf := sp_tf, p_context := sp_ctx\<rparr>)
           (s\<lparr>stack_words := (stack_words s)(sp_ret := trapret_addr E),
              ctxs := (ctxs s)(sp_ctx :=
                \<lparr>ctx_edi = 0, ctx_esi = 0, ctx_ebx = 0, ctx_ebp = 0, ctx_eip = forkret_addr E\<rparr>)\<rparr>))"

definition allocproc :: "('c, 'w) ext \<Rightarrow> ('c, 'w) kst \<Rightarrow> (nat option \<times> ('c, 'w) kst) outcome" where
  "allocproc E s =
     obind (on_mach (acquire E PtableLock) s) (\<lambda>s.
     case scan (\<lambda>p. p_state p = UNUSED) (ptable s) of
       None \<Rightarrow> obind (on_mach (release E PtableLock) s) (\<lambda>s. Ret (None, s))
     | Some i \<Rightarrow>
         obind (on_mach (release E PtableLock) (claim_slot i s)) (\<lambda>s.
         obind (call_world (kalloc E) s) (\<lambda>(k, s).
         let s = upd_proc i (\<lambda>p. p\<lparr>p_kstack := k\<rparr>) s in
         if k = 0 then Ret (None, upd_proc i (\<lambda>p. p\<lparr>p_state := UNUSED\<rparr>) s)
         else Ret (Some i, setup_kstack E i k s))))"

definition zero_trapframe :: "trapframe \<Rightarrow> trapframe" where
  "zero_trapframe t =
     \<lparr>tf_eax = 0, tf_esp = 0, tf_eip = 0, tf_eflags = 0, tf_cs = 0, tf_ds = 0, tf_es = 0,
      tf_ss = 0, tf_rest = map (\<lambda>_. 0) (tf_rest t)\<rparr>"

definition userinit :: "('c, 'w) ext \<Rightarrow> ('c, 'w) kst \<Rightarrow> ('c, 'w) kst outcome" where
  "userinit E s =
     obind (allocproc E s) (\<lambda>(p, s).
     let s = s\<lparr>initproc := p\<rparr> in
     case p of
       None \<Rightarrow> Undef ''userinit: null process''
     | Some i \<Rightarrow>
         obind (call_world (setupkvm E) s) (\<lambda>(pg, s).
         let s = upd_proc i (\<lambda>p. p\<lparr>p_pgdir := pg\<rparr>) s in
         if pg = 0 then Panic ''userinit: out of memory?''
         else
           obind (on_world (inituvm E pg (initcode_start E) (initcode_size E)) s) (\<lambda>s.
           let s = upd_proc i (\<lambda>p. p\<lparr>p_sz := PGSIZE E\<rparr>) s;
               ucode = (push_bit 3 (SEG_UCODE E)) OR DPL_USER E;
               udata = (push_bit 3 (SEG_UDATA E)) OR DPL_USER E;
               s = upd_tf (p_tf (proc_at s i))
                     (\<lambda>t. (zero_trapframe t)\<lparr>tf_cs := ucode, tf_ds := udata, tf_es := udata,
                            tf_ss := udata, tf_eflags := FL_IF E, tf_esp := PGSIZE E,
                            tf_eip := 0\<rparr>) s;
               s = upd_proc i (\<lambda>p. p\<lparr>p_name := safestrcpy E ''initcode'' 16\<rparr>) s
           in obind (call_world (namei E ''/'') s) (\<lambda>(ip, s).
              let s = upd_proc i (\<lambda>p. p\<lparr>p_cwd := ip\<rparr>) s in
              obind (on_mach (acquire E PtableLock) s) (\<lambda>s.
              on_mach (release E PtableLock)
                (upd_proc i (\<lambda>p. p\<lparr>p_state := RUNNABLE\<rparr>) s))))))"

section \<open>Memory of a process\<close>

definition growproc :: "('c, 'w) ext \<Rightarrow> i32 \<Rightarrow> ('c, 'w) kst \<Rightarrow> (i32 \<times> ('c, 'w) kst) outcome" where
  "growproc E n s =
     obind (curproc E s) (\<lambda>(c, s).
     let sz = p_sz (proc_at s c);
         finish = (\<lambda>sz s.
           let s = upd_proc c (\<lambda>p. p\<lparr>p_sz := sz\<rparr>) s in
           obind (on_world (switchuvm E (proc_at s c)) s) (\<lambda>s. Ret (0, s)))
     in if slt 0 n then
          obind (call_world (allocuvm E (p_pgdir (proc_at s c)) sz (sz + n)) s) (\<lambda>(sz', s).
          if sz' = 0 then Ret (- 1, s) else finish sz' s)
        else if slt n 0 then
          obind (call_world (deallocuvm E (p_pgdir (proc_at s c)) sz (sz + n)) s) (\<lambda>(sz', s).
          if sz' = 0 then Ret (- 1, s) else finish sz' s)
        else finish sz s)"

section \<open>Creating a process\<close>

text \<open>The loop over the file descriptors: the parent's open files are duplicated.\<close>

fun dup_files ::
    "('c, 'w) ext \<Rightarrow> nat \<Rightarrow> nat \<Rightarrow> nat list \<Rightarrow> ('c, 'w) kst \<Rightarrow> ('c, 'w) kst outcome" where
  "dup_files E c n [] s = Ret s"
| "dup_files E c n (i # is) s =
     (if p_ofile (proc_at s c) ! i \<noteq> 0 then
        obind (call_world (filedup E (p_ofile (proc_at s c) ! i)) s) (\<lambda>(f, s).
        dup_files E c n is (upd_proc n (\<lambda>p. p\<lparr>p_ofile := (p_ofile p)[i := f]\<rparr>) s))
      else dup_files E c n is s)"

definition fork :: "('c, 'w) ext \<Rightarrow> ('c, 'w) kst \<Rightarrow> (i32 \<times> ('c, 'w) kst) outcome" where
  "fork E s =
     obind (curproc E s) (\<lambda>(c, s).
     obind (allocproc E s) (\<lambda>(np, s).
     case np of
       None \<Rightarrow> Ret (- 1, s)
     | Some n \<Rightarrow>
         obind (call_world (copyuvm E (p_pgdir (proc_at s c)) (p_sz (proc_at s c))) s) (\<lambda>(pg, s).
         let s = upd_proc n (\<lambda>p. p\<lparr>p_pgdir := pg\<rparr>) s in
         if pg = 0 then
           obind (on_world (kfree E (p_kstack (proc_at s n))) s) (\<lambda>s.
           Ret (- 1, upd_proc n (\<lambda>p. p\<lparr>p_kstack := 0, p_state := UNUSED\<rparr>) s))
         else
           let s = upd_proc n (\<lambda>p. p\<lparr>p_sz := p_sz (proc_at s c), p_parent := Some c\<rparr>) s;
               s = upd_tf (p_tf (proc_at s n)) (\<lambda>_. (tfs s (p_tf (proc_at s c)))) s;
               s = upd_tf (p_tf (proc_at s n)) (\<lambda>t. t\<lparr>tf_eax := 0\<rparr>) s
           in obind (dup_files E c n [0..<NOFILE] s) (\<lambda>s.
              obind (call_world (idup E (p_cwd (proc_at s c))) s) (\<lambda>(ip, s).
              let s = upd_proc n (\<lambda>p. p\<lparr>p_cwd := ip\<rparr>) s;
                  s = upd_proc n (\<lambda>p. p\<lparr>p_name := safestrcpy E (p_name (proc_at s c)) 16\<rparr>) s;
                  s = upd_proc n (\<lambda>p. p\<lparr>p_tickets := p_tickets (proc_at s c)\<rparr>) s;
                  pid = p_pid (proc_at s n)
              in obind (on_mach (acquire E PtableLock) s) (\<lambda>s.
                 obind (on_mach (release E PtableLock)
                          (upd_proc n (\<lambda>p. p\<lparr>p_state := RUNNABLE\<rparr>) s)) (\<lambda>s.
                 Ret (pid, s))))))))"

section \<open>Waking sleepers\<close>

definition wakeup1 :: "chan \<Rightarrow> ('c, 'w) kst \<Rightarrow> ('c, 'w) kst" where
  "wakeup1 ch s =
     s\<lparr>ptable := map (\<lambda>p. if p_state p = SLEEPING \<and> p_chan p = ch
                          then p\<lparr>p_state := RUNNABLE\<rparr> else p) (ptable s)\<rparr>"

definition wakeup :: "('c, 'w) ext \<Rightarrow> chan \<Rightarrow> ('c, 'w) kst \<Rightarrow> ('c, 'w) kst outcome" where
  "wakeup E ch s =
     obind (on_mach (acquire E PtableLock) s) (\<lambda>s.
     on_mach (release E PtableLock) (wakeup1 ch s))"

section \<open>Entering the scheduler\<close>

text \<open>
  \<open>sched\<close> checks its four preconditions, saves \<open>intena\<close>, switches away (\<open>sw\<close>) and
  restores \<open>intena\<close> when this thread runs again.
\<close>

definition sched_check :: "('c, 'w) ext \<Rightarrow> ('c, 'w) kst \<Rightarrow> (i32 \<times> ('c, 'w) kst) outcome" where
  "sched_check E s =
     obind (myproc E s) (\<lambda>(p, s).
     if \<not> holding E PtableLock (mach s) then Panic ''sched ptable.lock''
     else
       obind (mycpu E (mach s)) (\<lambda>c.
       if c_ncli (cpus (mach s) ! c) \<noteq> 1 then Panic ''sched locks''
       else case p of
         None \<Rightarrow> Undef ''null process''
       | Some i \<Rightarrow>
           if p_state (proc_at s i) = RUNNING then Panic ''sched running''
           else if readeflags E (hw (mach s)) AND FL_IF E \<noteq> 0 then Panic ''sched interruptible''
           else Ret (c_intena (cpus (mach s) ! c), s)))"

definition sched ::
    "('c, 'w) ext \<Rightarrow> (('c, 'w) kst \<Rightarrow> ('c, 'w) kst outcome) \<Rightarrow> ('c, 'w) kst
       \<Rightarrow> ('c, 'w) kst outcome" where
  "sched E sw s =
     obind (sched_check E s) (\<lambda>(intena, s).
     obind (sw s) (\<lambda>s.
     obind (mycpu E (mach s)) (\<lambda>c.
     Ret (upd_cpu c (\<lambda>k. k\<lparr>c_intena := intena\<rparr>) s))))"

definition yield ::
    "('c, 'w) ext \<Rightarrow> (('c, 'w) kst \<Rightarrow> ('c, 'w) kst outcome) \<Rightarrow> ('c, 'w) kst
       \<Rightarrow> ('c, 'w) kst outcome" where
  "yield E sw s =
     obind (on_mach (acquire E PtableLock) s) (\<lambda>s.
     obind (curproc E s) (\<lambda>(c, s).
     obind (sched E sw (upd_proc c (\<lambda>p. p\<lparr>p_state := RUNNABLE\<rparr>) s)) (\<lambda>s.
     on_mach (release E PtableLock) s)))"

definition forkret :: "('c, 'w) ext \<Rightarrow> ('c, 'w) kst \<Rightarrow> ('c, 'w) kst outcome" where
  "forkret E s =
     obind (on_mach (release E PtableLock) s) (\<lambda>s.
     if forkret_first s then
       let s = s\<lparr>forkret_first := False\<rparr> in
       obind (on_world (iinit E ROOTDEV) s) (\<lambda>s. on_world (initlog E ROOTDEV) s)
     else Ret s)"

section \<open>Sleeping\<close>

text \<open>The lock argument is a pointer: \<open>None\<close> is the null pointer the code checks for.\<close>

definition sleep ::
    "('c, 'w) ext \<Rightarrow> (('c, 'w) kst \<Rightarrow> ('c, 'w) kst outcome) \<Rightarrow> chan \<Rightarrow> lock option
       \<Rightarrow> ('c, 'w) kst \<Rightarrow> ('c, 'w) kst outcome" where
  "sleep E sw ch lk s =
     obind (myproc E s) (\<lambda>(p, s).
     case p of None \<Rightarrow> Panic ''sleep'' | Some i \<Rightarrow>
     case lk of None \<Rightarrow> Panic ''sleep without lk'' | Some l \<Rightarrow>
     obind (if l \<noteq> PtableLock then
              obind (on_mach (acquire E PtableLock) s) (\<lambda>s. on_mach (release E l) s)
            else Ret s) (\<lambda>s.
     let s = upd_proc i (\<lambda>p. p\<lparr>p_chan := ch, p_state := SLEEPING\<rparr>) s in
     obind (sched E sw s) (\<lambda>s.
     let s = upd_proc i (\<lambda>p. p\<lparr>p_chan := ChanNull\<rparr>) s in
     if l \<noteq> PtableLock then
       obind (on_mach (release E PtableLock) s) (\<lambda>s. on_mach (acquire E l) s)
     else Ret s)))"

section \<open>Exiting and waiting\<close>

fun close_files :: "('c, 'w) ext \<Rightarrow> nat \<Rightarrow> nat list \<Rightarrow> ('c, 'w) kst \<Rightarrow> ('c, 'w) kst outcome" where
  "close_files E c [] s = Ret s"
| "close_files E c (fd # fds) s =
     (if p_ofile (proc_at s c) ! fd \<noteq> 0 then
        obind (on_world (fileclose E (p_ofile (proc_at s c) ! fd)) s) (\<lambda>s.
        close_files E c fds (upd_proc c (\<lambda>p. p\<lparr>p_ofile := (p_ofile p)[fd := 0]\<rparr>) s))
      else close_files E c fds s)"

text \<open>The loop of \<open>exit\<close> that passes abandoned children to init.\<close>

fun abandon_children :: "nat \<Rightarrow> nat list \<Rightarrow> ('c, 'w) kst \<Rightarrow> ('c, 'w) kst" where
  "abandon_children c [] s = s"
| "abandon_children c (i # is) s =
     (if p_parent (proc_at s i) = Some c then
        let s = upd_proc i (\<lambda>p. p\<lparr>p_parent := initproc s\<rparr>) s;
            s = (if p_state (proc_at s i) = ZOMBIE then wakeup1 (proc_chan (initproc s)) s else s)
        in abandon_children c is s
      else abandon_children c is s)"

text \<open>What \<open>exit\<close> does under \<open>ptable.lock\<close> before it enters the scheduler.\<close>

definition exit_section :: "nat \<Rightarrow> ('c, 'w) kst \<Rightarrow> ('c, 'w) kst" where
  "exit_section c s =
     (let s = wakeup1 (proc_chan (p_parent (proc_at s c))) s;
          s = abandon_children c [0..<length (ptable s)] s
      in upd_proc c (\<lambda>p. p\<lparr>p_state := ZOMBIE\<rparr>) s)"

definition exit ::
    "('c, 'w) ext \<Rightarrow> (('c, 'w) kst \<Rightarrow> ('c, 'w) kst outcome) \<Rightarrow> ('c, 'w) kst
       \<Rightarrow> ('c, 'w) kst outcome" where
  "exit E sw s =
     obind (myproc E s) (\<lambda>(p, s).
     if p = initproc s then Panic ''init exiting''
     else case p of None \<Rightarrow> Undef ''null process'' | Some c \<Rightarrow>
       obind (close_files E c [0..<NOFILE] s) (\<lambda>s.
       obind (on_world (begin_op E) s) (\<lambda>s.
       obind (on_world (iput E (p_cwd (proc_at s c))) s) (\<lambda>s.
       obind (on_world (end_op E) s) (\<lambda>s.
       let s = upd_proc c (\<lambda>p. p\<lparr>p_cwd := 0\<rparr>) s in
       obind (on_mach (acquire E PtableLock) s) (\<lambda>s.
       obind (sched E sw (exit_section c s)) (\<lambda>s.
       Panic ''zombie exit'')))))))"

text \<open>One scan of \<open>wait\<close>: whether there are children, and the first zombie among them.\<close>

fun wait_scan :: "nat \<Rightarrow> nat \<Rightarrow> bool \<Rightarrow> proc list \<Rightarrow> bool \<times> nat option" where
  "wait_scan c i havekids [] = (havekids, None)"
| "wait_scan c i havekids (p # ps) =
     (if p_parent p \<noteq> Some c then wait_scan c (Suc i) havekids ps
      else if p_state p = ZOMBIE then (True, Some i)
      else wait_scan c (Suc i) True ps)"

definition reap_slot :: "nat \<Rightarrow> ('c, 'w) kst \<Rightarrow> ('c, 'w) kst" where
  "reap_slot i s =
     upd_proc i (\<lambda>p. p\<lparr>p_pid := 0, p_parent := None, p_name := [], p_killed := 0,
                       p_state := UNUSED\<rparr>) s"

definition wait_reap ::
    "('c, 'w) ext \<Rightarrow> nat \<Rightarrow> ('c, 'w) kst \<Rightarrow> (i32 \<times> ('c, 'w) kst) outcome" where
  "wait_reap E i s =
     (let pid = p_pid (proc_at s i) in
      obind (on_world (kfree E (p_kstack (proc_at s i))) s) (\<lambda>s.
      let s = upd_proc i (\<lambda>p. p\<lparr>p_kstack := 0\<rparr>) s in
      obind (on_world (freevm E (p_pgdir (proc_at s i))) s) (\<lambda>s.
      obind (on_mach (release E PtableLock) (reap_slot i s)) (\<lambda>s.
      Ret (pid, s)))))"

text \<open>
  The endless loop of \<open>wait\<close>, one unit of fuel per scan: \<open>None\<close> means the process is
  still waiting after that many scans.
\<close>

fun wait_loop ::
    "nat \<Rightarrow> ('c, 'w) ext \<Rightarrow> (('c, 'w) kst \<Rightarrow> ('c, 'w) kst outcome) \<Rightarrow> nat \<Rightarrow> ('c, 'w) kst
       \<Rightarrow> (i32 \<times> ('c, 'w) kst) outcome option" where
  "wait_loop 0 E sw c s = None"
| "wait_loop (Suc fuel) E sw c s =
     (case wait_scan c 0 False (ptable s) of
        (_, Some i) \<Rightarrow> Some (wait_reap E i s)
      | (havekids, None) \<Rightarrow>
          if \<not> havekids \<or> p_killed (proc_at s c) \<noteq> 0 then
            Some (obind (on_mach (release E PtableLock) s) (\<lambda>s. Ret (- 1, s)))
          else
            case sleep E sw (ChanProc c) (Some PtableLock) s of
              Ret s' \<Rightarrow> wait_loop fuel E sw c s'
            | Panic m \<Rightarrow> Some (Panic m)
            | Undef m \<Rightarrow> Some (Undef m)
            | NoFuel \<Rightarrow> None)"

definition wait ::
    "nat \<Rightarrow> ('c, 'w) ext \<Rightarrow> (('c, 'w) kst \<Rightarrow> ('c, 'w) kst outcome) \<Rightarrow> ('c, 'w) kst
       \<Rightarrow> (i32 \<times> ('c, 'w) kst) outcome option" where
  "wait fuel E sw s =
     (case obind (curproc E s) (\<lambda>(c, s).
           obind (on_mach (acquire E PtableLock) s) (\<lambda>s. Ret (c, s))) of
        Ret (c, s') \<Rightarrow> wait_loop fuel E sw c s'
      | Panic m \<Rightarrow> Some (Panic m)
      | Undef m \<Rightarrow> Some (Undef m)
      | NoFuel \<Rightarrow> None)"

section \<open>The lottery scheduler\<close>

text \<open>Counting the tickets of the runnable processes, in an \<open>int\<close>.\<close>

fun count_tickets :: "i32 \<Rightarrow> proc list \<Rightarrow> i32 outcome" where
  "count_tickets tot [] = Ret tot"
| "count_tickets tot (p # ps) =
     (if p_state p = RUNNABLE
      then obind (sadd tot (p_tickets p)) (\<lambda>tot. count_tickets tot ps)
      else count_tickets tot ps)"

text \<open>
  The loop that looks for the winner: it stops at the first runnable process where the
  running sum exceeds the winning ticket (a signed comparison).
\<close>

fun find_winner :: "nat \<Rightarrow> i32 \<Rightarrow> i32 \<Rightarrow> proc list \<Rightarrow> nat option outcome" where
  "find_winner i counter winner [] = Ret None"
| "find_winner i counter winner (p # ps) =
     (if p_state p \<noteq> RUNNABLE then find_winner (Suc i) counter winner ps
      else obind (sadd counter (p_tickets p)) (\<lambda>counter'.
           if slt winner counter' then Ret (Some i)
           else find_winner (Suc i) counter' winner ps))"

text \<open>
  The draw of one round: \<open>None\<close> when the code goes round the loop again, \<open>Some i\<close> when
  process \<open>i\<close> is chosen; the seed moves when a number is drawn.
\<close>

definition lottery :: "u32 \<Rightarrow> proc list \<Rightarrow> (nat option \<times> u32) outcome" where
  "lottery sd ps =
     obind (count_tickets 0 ps) (\<lambda>tot.
     if tot = 0 then Ret (None, sd)
     else
       obind (sadd tot (- 1)) (\<lambda>mx.
       obind (random_at_most mx sd) (\<lambda>(winner, sd').
       obind (find_winner 0 0 winner ps) (\<lambda>win. Ret (win, sd')))))"

text \<open>Making the winner the running process of CPU \<open>c\<close>.\<close>

definition dispatch :: "nat \<Rightarrow> nat \<Rightarrow> ('c, 'w) kst \<Rightarrow> ('c, 'w) kst" where
  "dispatch c i s =
     upd_cpu c (\<lambda>k. k\<lparr>c_proc := Some i\<rparr>) (upd_proc i (\<lambda>p. p\<lparr>p_ticks := p_ticks p + 1\<rparr>) s)"

text \<open>
  One turn of the scheduler's loop on CPU \<open>c\<close>. \<open>sw\<close> is the switch into the chosen
  process and back. The result says which process ran.
\<close>

definition scheduler_round ::
    "('c, 'w) ext \<Rightarrow> (('c, 'w) kst \<Rightarrow> ('c, 'w) kst outcome) \<Rightarrow> nat \<Rightarrow> ('c, 'w) kst
       \<Rightarrow> (nat option \<times> ('c, 'w) kst) outcome" where
  "scheduler_round E sw c s =
     (let s = s\<lparr>mach := sti E (mach s)\<rparr> in
      obind (on_mach (acquire E PtableLock) s) (\<lambda>s.
      obind (lottery (seed s) (ptable s)) (\<lambda>(win, sd).
      let s = s\<lparr>seed := sd\<rparr> in
      case win of
        None \<Rightarrow> obind (on_mach (release E PtableLock) s) (\<lambda>s. Ret (None, s))
      | Some i \<Rightarrow>
          let s = dispatch c i s in
          obind (on_world (switchuvm E (proc_at s i)) s) (\<lambda>s.
          let s = upd_proc i (\<lambda>p. p\<lparr>p_state := RUNNING\<rparr>) s in
          obind (sw s) (\<lambda>s.
          obind (on_world (switchkvm E) s) (\<lambda>s.
          let s = upd_cpu c (\<lambda>k. k\<lparr>c_proc := None\<rparr>) s in
          obind (on_mach (release E PtableLock) s) (\<lambda>s.
          Ret (Some i, s))))))))"

fun scheduler_loop ::
    "nat \<Rightarrow> ('c, 'w) ext \<Rightarrow> (('c, 'w) kst \<Rightarrow> ('c, 'w) kst outcome) \<Rightarrow> nat \<Rightarrow> ('c, 'w) kst
       \<Rightarrow> (nat option list \<times> ('c, 'w) kst) outcome" where
  "scheduler_loop 0 E sw c s = Ret ([], s)"
| "scheduler_loop (Suc n) E sw c s =
     obind (scheduler_round E sw c s) (\<lambda>(r, s).
     obind (scheduler_loop n E sw c s) (\<lambda>(rs, s). Ret (r # rs, s)))"

text \<open>The scheduler, which never returns, seen after its first \<open>n\<close> rounds.\<close>

definition scheduler ::
    "nat \<Rightarrow> ('c, 'w) ext \<Rightarrow> (('c, 'w) kst \<Rightarrow> ('c, 'w) kst outcome) \<Rightarrow> ('c, 'w) kst
       \<Rightarrow> (nat option list \<times> ('c, 'w) kst) outcome" where
  "scheduler n E sw s =
     obind (mycpu E (mach s)) (\<lambda>c.
     let s = upd_cpu c (\<lambda>k. k\<lparr>c_proc := None\<rparr>) s;
         s = s\<lparr>seed := rand_init (seed s)\<rparr>
     in scheduler_loop n E sw c s)"

section \<open>Killing, listing, tickets\<close>

text \<open>What \<open>kill\<close> does to the process it finds.\<close>

definition kill_slot :: "nat \<Rightarrow> ('c, 'w) kst \<Rightarrow> ('c, 'w) kst" where
  "kill_slot i s =
     (let s = upd_proc i (\<lambda>p. p\<lparr>p_killed := 1\<rparr>) s
      in if p_state (proc_at s i) = SLEEPING
         then upd_proc i (\<lambda>p. p\<lparr>p_state := RUNNABLE\<rparr>) s else s)"

definition kill :: "('c, 'w) ext \<Rightarrow> i32 \<Rightarrow> ('c, 'w) kst \<Rightarrow> (i32 \<times> ('c, 'w) kst) outcome" where
  "kill E pid s =
     obind (on_mach (acquire E PtableLock) s) (\<lambda>s.
     case scan (\<lambda>p. p_pid p = pid) (ptable s) of
       Some i \<Rightarrow> obind (on_mach (release E PtableLock) (kill_slot i s)) (\<lambda>s. Ret (0, s))
     | None \<Rightarrow> obind (on_mach (release E PtableLock) s) (\<lambda>s. Ret (- 1, s)))"

fun state_name :: "procstate \<Rightarrow> string" where
  "state_name UNUSED = ''unused''"
| "state_name EMBRYO = ''embryo''"
| "state_name SLEEPING = ''sleep ''"
| "state_name RUNNABLE = ''runble''"
| "state_name RUNNING = ''run   ''"
| "state_name ZOMBIE = ''zombie''"

text \<open>One line per used slot: pid, state, name, and for a sleeper up to ten return addresses.\<close>

definition procdump ::
    "('c, 'w) ext \<Rightarrow> ('c, 'w) kst \<Rightarrow> (i32 \<times> string \<times> string \<times> u32 list) list" where
  "procdump E s =
     map (\<lambda>p. (p_pid p, state_name (p_state p), p_name p,
                if p_state p = SLEEPING
                then takeWhile (\<lambda>pc. pc \<noteq> 0)
                       (take 10 (getcallerpcs E (ctx_ebp (ctxs s (p_context p)) + 8) (world s)))
                else []))
       (filter (\<lambda>p. p_state p \<noteq> UNUSED) (ptable s))"

definition settickets :: "('c, 'w) ext \<Rightarrow> i32 \<Rightarrow> ('c, 'w) kst \<Rightarrow> (i32 \<times> ('c, 'w) kst) outcome" where
  "settickets E number s =
     (if slt number 1 then Ret (- 1, s)
      else
        obind (curproc E s) (\<lambda>(c, s).
        obind (on_mach (acquire E PtableLock) s) (\<lambda>s.
        obind (on_mach (release E PtableLock)
                 (upd_proc c (\<lambda>p. p\<lparr>p_tickets := number\<rparr>) s)) (\<lambda>s.
        Ret (0, s)))))"

text \<open>The two loops of \<open>getpinfo\<close>: clear the four arrays, then fill them slot by slot.\<close>

fun clear_pstat :: "nat list \<Rightarrow> pstat \<Rightarrow> pstat" where
  "clear_pstat [] ps = ps"
| "clear_pstat (i # is) ps =
     clear_pstat is
       (ps\<lparr>ps_inuse := (ps_inuse ps)[i := 0], ps_tickets := (ps_tickets ps)[i := 0],
           ps_pid := (ps_pid ps)[i := 0], ps_ticks := (ps_ticks ps)[i := 0]\<rparr>)"

fun fill_pstat :: "nat \<Rightarrow> proc list \<Rightarrow> pstat \<Rightarrow> pstat" where
  "fill_pstat i [] ps = ps"
| "fill_pstat i (p # procs) ps =
     fill_pstat (Suc i) procs
       (ps\<lparr>ps_inuse := (ps_inuse ps)[i := (if p_state p \<noteq> UNUSED then 1 else 0)],
           ps_tickets := (ps_tickets ps)[i := p_tickets p],
           ps_pid := (ps_pid ps)[i := p_pid p],
           ps_ticks := (ps_ticks ps)[i := p_ticks p]\<rparr>)"

text \<open>The argument is a pointer: \<open>None\<close> is null, \<open>Some ps\<close> the structure it points to.\<close>

definition getpinfo ::
    "('c, 'w) ext \<Rightarrow> pstat option \<Rightarrow> ('c, 'w) kst
       \<Rightarrow> (i32 \<times> pstat option \<times> ('c, 'w) kst) outcome" where
  "getpinfo E ps s =
     (case ps of
        None \<Rightarrow> Ret (- 1, None, s)
      | Some ps \<Rightarrow>
          obind (on_mach (acquire E PtableLock) s) (\<lambda>s.
          let ps = fill_pstat 0 (ptable s) (clear_pstat [0..<NPROC] ps) in
          obind (on_mach (release E PtableLock) s) (\<lambda>s.
          Ret (0, Some ps, s))))"

end
