(* ===== verification/Lottery_Locks.thy ===== *)
theory Lottery_Locks
  imports Lottery_Proc
begin

text \<open>
  The contract between the process layer and the lock and interrupt primitives it calls
  (\<open>pushcli\<close>, \<open>popcli\<close>, \<open>acquire\<close>, \<open>release\<close>, \<open>holding\<close>, \<open>sti\<close>, which are not
  part of the repository), as the locale \<open>spinlock_laws\<close>, and what the routines of
  \<open>proc.c\<close> that only combine those primitives do under it.

  \<open>lock_view E m c n H P\<close> is what a thread can rely on about the machine: it runs on CPU
  \<open>c\<close>, whose \<open>pushcli\<close> nesting depth is \<open>n\<close>, it holds exactly the locks in \<open>H\<close>, the
  CPUs run the processes \<open>P\<close>, and interrupts are off whenever the depth is positive.
\<close>

definition irq_off :: "('c, 'w) ext \<Rightarrow> 'c mach \<Rightarrow> bool" where
  "irq_off E m \<longleftrightarrow> readeflags E (hw m) AND FL_IF E = 0"

text \<open>The nesting depth is an \<open>int\<close>; the laws hold up to its largest value.\<close>

definition max_depth :: nat where "max_depth = 2 ^ 31 - 1"

definition lock_view ::
    "('c, 'w) ext \<Rightarrow> 'c mach \<Rightarrow> nat \<Rightarrow> nat \<Rightarrow> lock set \<Rightarrow> nat option list \<Rightarrow> bool" where
  "lock_view E m c n H P \<longleftrightarrow>
     this_cpu E m = Some c \<and> c_ncli (cpus m ! c) = of_nat n \<and> n \<le> max_depth \<and>
     {l. holding E l m} = H \<and> map c_proc (cpus m) = P \<and> (0 < n \<longrightarrow> irq_off E m)"

definition put_cpu :: "nat \<Rightarrow> (cpu \<Rightarrow> cpu) \<Rightarrow> 'c mach \<Rightarrow> 'c mach" where
  "put_cpu k f m = m\<lparr>cpus := upd_nth k f (cpus m)\<rparr>"

locale spinlock_laws =
  fixes E :: "('c, 'w) ext"
  assumes pushcli_law:
      "lock_view E m c n H P \<Longrightarrow> n < max_depth \<Longrightarrow>
         \<exists>m'. pushcli E m = Ret m' \<and> lock_view E m' c (Suc n) H P"
    and popcli_law:
      "lock_view E m c (Suc n) H P \<Longrightarrow>
         \<exists>m'. popcli E m = Ret m' \<and> lock_view E m' c n H P"
    and acquire_law:
      "lock_view E m c n H P \<Longrightarrow> l \<notin> H \<Longrightarrow> n < max_depth \<Longrightarrow>
         \<exists>m'. acquire E l m = Ret m' \<and> lock_view E m' c (Suc n) (insert l H) P"
    and release_law:
      "lock_view E m c (Suc n) H P \<Longrightarrow> l \<in> H \<Longrightarrow>
         \<exists>m'. release E l m = Ret m' \<and> lock_view E m' c n (H - {l}) P"
    and sti_law:
      "lock_view E m c 0 {} P \<Longrightarrow> lock_view E (sti E m) c 0 {} P"
    and holding_proc_law:
      "holding E l (put_cpu k (\<lambda>u. u\<lparr>c_proc := x\<rparr>) m) = holding E l m"
    and holding_intena_law:
      "holding E l (put_cpu k (\<lambda>u. u\<lparr>c_intena := v\<rparr>) m) = holding E l m"
begin

lemma this_cpu_less: "this_cpu E m = Some c \<Longrightarrow> c < length (cpus m)"
  by (auto simp: this_cpu_def dest: scan_SomeD)

lemma view_cpu: "lock_view E m c n H P \<Longrightarrow> c < length P \<and> c_proc (cpus m ! c) = P ! c"
  using this_cpu_less [of m c] by (auto simp: lock_view_def)

lemma on_mach_acquire:
  assumes "lock_view E (mach s) c n H P" and "l \<notin> H" and "n < max_depth"
  shows "\<exists>m. on_mach (acquire E l) s = Ret (s\<lparr>mach := m\<rparr>) \<and> lock_view E m c (Suc n) (insert l H) P"
  using acquire_law [OF assms] by (auto simp: on_mach_def)

lemma on_mach_release:
  assumes "lock_view E (mach s) c (Suc n) H P" and "l \<in> H"
  shows "\<exists>m. on_mach (release E l) s = Ret (s\<lparr>mach := m\<rparr>) \<and> lock_view E m c n (H - {l}) P"
  using release_law [OF assms] by (auto simp: on_mach_def)

lemma mycpu_view:
  assumes "lock_view E m c (Suc n) H P"
  shows "mycpu E m = Ret c"
  using assms by (simp add: lock_view_def mycpu_def irq_off_def)

lemma myproc_view:
  assumes v: "lock_view E (mach s) c n H P" and n: "n < max_depth"
  shows "\<exists>m. myproc E s = Ret (P ! c, s\<lparr>mach := m\<rparr>) \<and> lock_view E m c n H P"
proof -
  from pushcli_law [OF v n] obtain m1
    where m1: "pushcli E (mach s) = Ret m1" "lock_view E m1 c (Suc n) H P" by blast
  from popcli_law [OF m1(2)] obtain m2
    where m2: "popcli E m1 = Ret m2" "lock_view E m2 c n H P" by blast
  show ?thesis
    using m1(1) m2 mycpu_view [OF m1(2)] view_cpu [OF m1(2)]
    by (auto simp: myproc_def on_mach_def Let_def)
qed

lemma curproc_view:
  assumes "lock_view E (mach s) c n H P" and "n < max_depth" and "P ! c = Some i"
  shows "\<exists>m. curproc E s = Ret (i, s\<lparr>mach := m\<rparr>) \<and> lock_view E m c n H P"
  using myproc_view [OF assms(1,2)] assms(3) by (auto simp: curproc_def)

lemma this_cpu_alt:
  "this_cpu E m =
     scan (\<lambda>a. ucast a = lapicid E (hw m)) (take (nat (sint (ncpu m))) (map c_apicid (cpus m)))"
  by (simp add: this_cpu_def take_map scan_map)

lemma this_cpu_put:
  assumes "\<And>u. c_apicid (f u) = c_apicid u"
  shows "this_cpu E (put_cpu k f m) = this_cpu E m"
  using assms by (simp add: this_cpu_alt put_cpu_def map_upd_nth)

lemma view_put_proc:
  assumes "lock_view E m c n H P"
  shows "lock_view E (put_cpu k (\<lambda>u. u\<lparr>c_proc := x\<rparr>) m) c n H (P[k := x])"
proof -
  have "this_cpu E (put_cpu k (\<lambda>u. u\<lparr>c_proc := x\<rparr>) m) = Some c"
    using assms by (simp add: this_cpu_put lock_view_def)
  moreover have "c < length (cpus m)"
    using assms this_cpu_less by (simp add: lock_view_def)
  ultimately show ?thesis
    using assms
    by (simp add: lock_view_def holding_proc_law irq_off_def)
       (auto simp: put_cpu_def map_upd_nth_set)
qed

lemma view_put_intena:
  assumes "lock_view E m c n H P"
  shows "lock_view E (put_cpu k (\<lambda>u. u\<lparr>c_intena := v\<rparr>) m) c n H P"
proof -
  have "this_cpu E (put_cpu k (\<lambda>u. u\<lparr>c_intena := v\<rparr>) m) = Some c"
    using assms by (simp add: this_cpu_put lock_view_def)
  moreover have "c < length (cpus m)"
    using assms this_cpu_less by (simp add: lock_view_def)
  ultimately show ?thesis
    using assms
    by (simp add: lock_view_def holding_intena_law irq_off_def)
       (simp add: put_cpu_def map_upd_nth)
qed

end

end
