(* ===== verification/Lottery_Ops.thy ===== *)
theory Lottery_Ops
  imports Lottery_Locks
begin

text \<open>
  What each routine of the lottery kernel's \<open>proc.c\<close> does when it runs to its end, under
  the lock contract \<open>spinlock_laws\<close>: the new process table, the value returned, and that the
  locks held and the nesting depth are those it started with. For the routines that enter
  the scheduler, the state handed to the context switch.
\<close>

section \<open>The order of the locks\<close>

text \<open>
  A stricter machine, for the order in which \<open>sleep\<close> handles its two locks: it stops when another lock is given up
  while the table lock is not held (a wakeup could be missed from there on), and when another lock is taken while the
  table lock is held (which is the inner lock everywhere).
\<close>

definition ordered_locks :: "('c, 'w) ext \<Rightarrow> ('c, 'w) ext" where
  "ordered_locks E =
     E\<lparr>release := (\<lambda>l m. if l \<noteq> PtableLock \<and> \<not> holding E PtableLock m then Panic ''lost wakeup''
                         else release E l m),
       acquire := (\<lambda>l m. if l \<noteq> PtableLock \<and> holding E PtableLock m then Panic ''lock order''
                         else acquire E l m)\<rparr>"

lemma ordered_locks_fields [simp]:
  "readeflags (ordered_locks E) = readeflags E" "FL_IF (ordered_locks E) = FL_IF E"
  "lapicid (ordered_locks E) = lapicid E" "pushcli (ordered_locks E) = pushcli E"
  "popcli (ordered_locks E) = popcli E" "holding (ordered_locks E) = holding E"
  by (simp_all add: ordered_locks_def)

lemma ordered_locks_same [simp]:
  shows "mycpu (ordered_locks E) m = mycpu E m" and "myproc (ordered_locks E) s = myproc E s"
    and "sched (ordered_locks E) sw s = sched E sw s"
proof -
  have cpu: "mycpu (ordered_locks E) m = mycpu E m" for m by (simp add: mycpu_def this_cpu_def)
  then show "mycpu (ordered_locks E) m = mycpu E m" .
  have proc: "myproc (ordered_locks E) s = myproc E s" for s by (simp add: myproc_def cpu)
  then show "myproc (ordered_locks E) s = myproc E s" .
  show "sched (ordered_locks E) sw s = sched E sw s"
    unfolding sched_def sched_check_def cpu proc ordered_locks_fields by (rule refl)
qed

section \<open>Updates of the kernel state\<close>

lemma upd_proc_simps [simp]:
  "ptable (upd_proc i f s) = upd_nth i f (ptable s)"
  "mach (upd_proc i f s) = mach s"
  "world (upd_proc i f s) = world s"
  "nextpid (upd_proc i f s) = nextpid s"
  "initproc (upd_proc i f s) = initproc s"
  "seed (upd_proc i f s) = seed s"
  "tfs (upd_proc i f s) = tfs s"
  "ctxs (upd_proc i f s) = ctxs s"
  by (simp_all add: upd_proc_def)

lemma wakeup1_simps [simp]:
  "mach (wakeup1 ch s) = mach s"
  "world (wakeup1 ch s) = world s"
  "nextpid (wakeup1 ch s) = nextpid s"
  "initproc (wakeup1 ch s) = initproc s"
  "length (ptable (wakeup1 ch s)) = length (ptable s)"
  by (simp_all add: wakeup1_def)

lemma upd_proc_mach: "upd_proc i f (s\<lparr>mach := m\<rparr>) = (upd_proc i f s)\<lparr>mach := m\<rparr>"
  by (simp add: upd_proc_def)

lemma wakeup1_mach: "wakeup1 ch (s\<lparr>mach := m\<rparr>) = (wakeup1 ch s)\<lparr>mach := m\<rparr>"
  by (simp add: wakeup1_def)

lemma kill_slot_mach: "kill_slot i (s\<lparr>mach := m\<rparr>) = (kill_slot i s)\<lparr>mach := m\<rparr>"
  by (simp add: kill_slot_def upd_proc_def Let_def)

lemma kill_slot_eq:
  "i < length (ptable s) \<Longrightarrow>
     kill_slot i s =
       upd_proc i (\<lambda>p. p\<lparr>p_killed := 1,
         p_state := (if p_state p = SLEEPING then RUNNABLE else p_state p)\<rparr>) s"
  by (simp add: kill_slot_def upd_proc_def upd_nth_def Let_def)

text \<open>The depth bound holds at the depth a system call runs at.\<close>

lemma max_depth_small [simp]: "0 < max_depth" "Suc 0 < max_depth" "Suc (Suc 0) < max_depth"
  by (simp_all add: max_depth_def)

section \<open>Routines that hold the table lock from start to end\<close>

context spinlock_laws
begin

text \<open>
  A critical section around a transformation \<open>f\<close> that leaves the machine alone: the lock is
  taken, and released from the transformed state with the view from before.
\<close>

lemma critical_section:
  assumes v: "lock_view E (mach s) c n H P" and n: "n < max_depth" and l: "l \<notin> H"
    and f: "\<And>m. mach (f (s\<lparr>mach := m\<rparr>)) = m"
  shows "\<exists>m1 m2. on_mach (acquire E l) s = Ret (s\<lparr>mach := m1\<rparr>) \<and>
           lock_view E m1 c (Suc n) (insert l H) P \<and>
           on_mach (release E l) (f (s\<lparr>mach := m1\<rparr>)) = Ret ((f (s\<lparr>mach := m1\<rparr>))\<lparr>mach := m2\<rparr>) \<and>
           lock_view E m2 c n H P"
proof -
  from on_mach_acquire [OF v l n] obtain m1
    where m1: "on_mach (acquire E l) s = Ret (s\<lparr>mach := m1\<rparr>)"
      "lock_view E m1 c (Suc n) (insert l H) P" by blast
  have "lock_view E (mach (f (s\<lparr>mach := m1\<rparr>))) c (Suc n) (insert l H) P"
    using m1(2) f by simp
  from on_mach_release [OF this, of l] l m1 show ?thesis by auto
qed

lemma wakeup_run:
  assumes v: "lock_view E (mach s) c n H P" and n: "n < max_depth" and l: "PtableLock \<notin> H"
  shows "\<exists>m. wakeup E ch s = Ret ((wakeup1 ch s)\<lparr>mach := m\<rparr>) \<and> lock_view E m c n H P"
  using critical_section [OF v n l, of "wakeup1 ch"]
  by (auto simp: wakeup_def wakeup1_mach)

lemma kill_run:
  assumes v: "lock_view E (mach s) c n H P" and n: "n < max_depth" and l: "PtableLock \<notin> H"
  shows "\<exists>m. kill E pid s =
     (case scan (\<lambda>p. p_pid p = pid) (ptable s) of
        None \<Rightarrow> Ret (- 1, s\<lparr>mach := m\<rparr>)
      | Some i \<Rightarrow> Ret (0, (kill_slot i s)\<lparr>mach := m\<rparr>)) \<and>
     lock_view E m c n H P"
proof (cases "scan (\<lambda>p. p_pid p = pid) (ptable s)")
  case None
  with critical_section [OF v n l, of id] show ?thesis by (auto simp: kill_def)
next
  case (Some i)
  with critical_section [OF v n l, of "kill_slot i"] show ?thesis
    by (auto simp: kill_def kill_slot_mach)
qed

lemma settickets_run:
  assumes v: "lock_view E (mach s) c n H P" and n: "n < max_depth" and l: "PtableLock \<notin> H"
    and i: "P ! c = Some i" and t: "\<not> slt number 1"
  shows "\<exists>m. settickets E number s =
               Ret (0, (upd_proc i (\<lambda>p. p\<lparr>p_tickets := number\<rparr>) s)\<lparr>mach := m\<rparr>) \<and>
             lock_view E m c n H P"
proof -
  from curproc_view [OF v n i] obtain m0
    where m0: "curproc E s = Ret (i, s\<lparr>mach := m0\<rparr>)" and v0: "lock_view E m0 c n H P" by blast
  from v0 have "lock_view E (mach (s\<lparr>mach := m0\<rparr>)) c n H P" by simp
  from critical_section [OF this n l, of "upd_proc i (\<lambda>p. p\<lparr>p_tickets := number\<rparr>)"] t m0
  show ?thesis by (auto simp: settickets_def upd_proc_mach)
qed

lemma getpinfo_run:
  assumes v: "lock_view E (mach s) c n H P" and n: "n < max_depth" and l: "PtableLock \<notin> H"
  shows "\<exists>m. getpinfo E (Some ps) s =
               Ret (0, Some (fill_pstat 0 (ptable s) (clear_pstat [0..<NPROC] ps)), s\<lparr>mach := m\<rparr>) \<and>
             lock_view E m c n H P"
  using critical_section [OF v n l, of id] by (auto simp: getpinfo_def Let_def)

end

section \<open>Allocating and forking\<close>

text \<open>The table after \<open>allocproc\<close> has found slot \<open>i\<close> and the kernel stack \<open>k\<close>.\<close>

definition alloc_state :: "('c, 'w) ext \<Rightarrow> nat \<Rightarrow> addr32 \<Rightarrow> ('c, 'w) kst \<Rightarrow> ('c, 'w) kst" where
  "alloc_state E i k s = setup_kstack E i k (upd_proc i (\<lambda>p. p\<lparr>p_kstack := k\<rparr>) (claim_slot i s))"

lemma claim_slot_simps [simp]:
  "mach (claim_slot i s) = mach s"
  "world (claim_slot i s) = world s"
  "initproc (claim_slot i s) = initproc s"
  "nextpid (claim_slot i s) = nextpid s + 1"
  "tfs (claim_slot i s) = tfs s"
  "ptable (claim_slot i s) =
     upd_nth i (\<lambda>p. p\<lparr>p_state := EMBRYO, p_pid := nextpid s, p_tickets := 5, p_ticks := 0\<rparr>)
       (ptable s)"
  by (simp_all add: claim_slot_def)

lemma claim_slot_mach: "claim_slot i (s\<lparr>mach := m\<rparr>) = (claim_slot i s)\<lparr>mach := m\<rparr>"
  by (simp add: claim_slot_def upd_proc_def)

lemma setup_kstack_simps [simp]:
  "mach (setup_kstack E i k s) = mach s"
  "world (setup_kstack E i k s) = world s"
  "initproc (setup_kstack E i k s) = initproc s"
  "nextpid (setup_kstack E i k s) = nextpid s"
  "tfs (setup_kstack E i k s) = tfs s"
  by (simp_all add: setup_kstack_def Let_def)

lemma ptable_setup_kstack:
  "ptable (setup_kstack E i k s) =
     upd_nth i (\<lambda>p. p\<lparr>p_tf := k + KSTACKSIZE - sizeof_trapframe E,
                       p_context := k + KSTACKSIZE - sizeof_trapframe E - 4 - sizeof_context\<rparr>)
       (ptable s)"
  by (simp add: setup_kstack_def Let_def)

lemma alloc_state_simps [simp]:
  "mach (alloc_state E i k s) = mach s"
  "world (alloc_state E i k s) = world s"
  "initproc (alloc_state E i k s) = initproc s"
  "nextpid (alloc_state E i k s) = nextpid s + 1"
  "tfs (alloc_state E i k s) = tfs s"
  "length (ptable (alloc_state E i k s)) = length (ptable s)"
  by (simp_all add: alloc_state_def ptable_setup_kstack)

lemma nth_alloc_state:
  "j < length (ptable s) \<Longrightarrow>
     proc_at (alloc_state E i k s) j =
       (if i = j then (proc_at s j)\<lparr>p_state := EMBRYO, p_pid := nextpid s, p_tickets := 5,
            p_ticks := 0, p_kstack := k, p_tf := k + KSTACKSIZE - sizeof_trapframe E,
            p_context := k + KSTACKSIZE - sizeof_trapframe E - 4 - sizeof_context\<rparr>
        else proc_at s j)"
  by (simp add: alloc_state_def ptable_setup_kstack)

context spinlock_laws
begin

lemma allocproc_full_run:
  assumes v: "lock_view E (mach s) c n H P" and n: "n < max_depth" and l: "PtableLock \<notin> H"
    and "scan (\<lambda>p. p_state p = UNUSED) (ptable s) = None"
  shows "\<exists>m. allocproc E s = Ret (None, s\<lparr>mach := m\<rparr>) \<and> lock_view E m c n H P"
  using critical_section [OF v n l, of id] assms(4) by (auto simp: allocproc_def)

lemma allocproc_nomem_run:
  assumes v: "lock_view E (mach s) c n H P" and n: "n < max_depth" and l: "PtableLock \<notin> H"
    and "scan (\<lambda>p. p_state p = UNUSED) (ptable s) = Some i" and "kalloc E (world s) = Ret (0, w)"
  shows "\<exists>m. allocproc E s =
               Ret (None, upd_proc i (\<lambda>p. p\<lparr>p_state := UNUSED\<rparr>)
                            (upd_proc i (\<lambda>p. p\<lparr>p_kstack := 0\<rparr>)
                              (claim_slot i s\<lparr>mach := m, world := w\<rparr>))) \<and>
             lock_view E m c n H P"
  using critical_section [OF v n l, of "claim_slot i"] assms(4,5)
  by (auto simp: allocproc_def claim_slot_mach call_world_def)

lemma allocproc_run:
  assumes v: "lock_view E (mach s) c n H P" and n: "n < max_depth" and l: "PtableLock \<notin> H"
    and "scan (\<lambda>p. p_state p = UNUSED) (ptable s) = Some i"
    and "kalloc E (world s) = Ret (k, w)" and "k \<noteq> 0"
  shows "\<exists>m. allocproc E s = Ret (Some i, alloc_state E i k (s\<lparr>mach := m, world := w\<rparr>)) \<and>
             lock_view E m c n H P"
proof -
  have cs: "(claim_slot i s)\<lparr>mach := m, world := w\<rparr> = claim_slot i (s\<lparr>mach := m, world := w\<rparr>)" for m
    by (simp add: claim_slot_def upd_proc_def)
  show ?thesis
    using critical_section [OF v n l, of "claim_slot i"] assms(4-6)
    by (auto simp: allocproc_def claim_slot_mach call_world_def alloc_state_def Let_def cs)
qed

end

text \<open>
  The rest of the kernel as \<open>fork\<close> and \<open>exit\<close> use it: the file and log routines they call
  come back.
\<close>

locale kernel_env = spinlock_laws +
  assumes filedup_returns: "\<exists>f' w'. filedup E f w = Ret (f', w')"
    and idup_returns: "\<exists>i' w'. idup E ip w = Ret (i', w')"
    and fileclose_returns: "\<exists>w'. fileclose E f w = Ret w'"
    and iput_returns: "\<exists>w'. iput E ip w = Ret w'"
    and begin_op_returns: "\<exists>w'. begin_op E w = Ret w'"
    and end_op_returns: "\<exists>w'. end_op E w = Ret w'"
begin

lemma dup_files_run:
  assumes "n < length (ptable s)" and "c \<noteq> n"
  shows "\<exists>os w. dup_files E c n is s = Ret ((upd_proc n (\<lambda>p. p\<lparr>p_ofile := os\<rparr>) s)\<lparr>world := w\<rparr>)"
  using assms
proof (induction "is" arbitrary: s)
  case Nil
  have "upd_proc n (\<lambda>p. p\<lparr>p_ofile := p_ofile (proc_at s n)\<rparr>) s = s"
    by (simp add: upd_proc_def upd_nth_def)
  then have "dup_files E c n [] s =
      Ret ((upd_proc n (\<lambda>p. p\<lparr>p_ofile := p_ofile (proc_at s n)\<rparr>) s)\<lparr>world := world s\<rparr>)"
    by simp
  then show ?case by blast
next
  case (Cons i "is")
  show ?case
  proof (cases "p_ofile (proc_at s c) ! i = 0")
    case True
    with Cons show ?thesis by simp
  next
    case False
    from filedup_returns obtain f w1
      where fd: "filedup E (p_ofile (proc_at s c) ! i) (world s) = Ret (f, w1)" by blast
    let ?s1 = "upd_proc n (\<lambda>p. p\<lparr>p_ofile := (p_ofile p)[i := f]\<rparr>) (s\<lparr>world := w1\<rparr>)"
    from Cons.IH [of ?s1] Cons.prems obtain os w
      where "dup_files E c n is ?s1 = Ret ((upd_proc n (\<lambda>p. p\<lparr>p_ofile := os\<rparr>) ?s1)\<lparr>world := w\<rparr>)"
      by auto
    moreover have "(upd_proc n (\<lambda>p. p\<lparr>p_ofile := os\<rparr>) ?s1)\<lparr>world := w\<rparr> =
        (upd_proc n (\<lambda>p. p\<lparr>p_ofile := os\<rparr>) s)\<lparr>world := w\<rparr>"
      using Cons.prems by (simp add: upd_proc_def upd_nth_def)
    ultimately show ?thesis
      using False fd by (auto simp: call_world_def)
  qed
qed

end

text \<open>The child that \<open>fork\<close> makes in slot \<open>j\<close> of \<open>t\<close> for the parent in slot \<open>i\<close> of \<open>s\<close>.\<close>

definition forked_child ::
    "('c, 'w) ext \<Rightarrow> nat \<Rightarrow> nat \<Rightarrow> addr32 \<Rightarrow> addr32 \<Rightarrow> ('c, 'w) kst \<Rightarrow> ('c, 'w) kst \<Rightarrow> bool" where
  "forked_child E i j k pg s t \<longleftrightarrow>
     p_state (proc_at t j) = RUNNABLE \<and>
     p_pid (proc_at t j) = nextpid s \<and>
     p_parent (proc_at t j) = Some i \<and>
     p_tickets (proc_at t j) = p_tickets (proc_at s i) \<and>
     p_ticks (proc_at t j) = 0 \<and>
     p_sz (proc_at t j) = p_sz (proc_at s i) \<and>
     p_pgdir (proc_at t j) = pg \<and>
     p_kstack (proc_at t j) = k \<and>
     p_name (proc_at t j) = safestrcpy E (p_name (proc_at s i)) 16 \<and>
     p_chan (proc_at t j) = p_chan (proc_at s j) \<and>
     p_killed (proc_at t j) = p_killed (proc_at s j) \<and>
     tfs t (p_tf (proc_at t j)) = (tfs s (p_tf (proc_at s i)))\<lparr>tf_eax := 0\<rparr>"

context kernel_env
begin

lemma fork_run:
  assumes v: "lock_view E (mach s) c n H P" and n: "n < max_depth" and l: "PtableLock \<notin> H"
    and cur: "P ! c = Some i" and i: "i < length (ptable s)"
    and used: "p_state (proc_at s i) \<noteq> UNUSED"
    and slot: "scan (\<lambda>p. p_state p = UNUSED) (ptable s) = Some j"
    and ka: "kalloc E (world s) = Ret (k, w1)" "k \<noteq> 0"
    and cp: "copyuvm E (p_pgdir (proc_at s i)) (p_sz (proc_at s i)) w1 = Ret (pg, w2)" "pg \<noteq> 0"
  shows "\<exists>t. fork E s = Ret (nextpid s, t) \<and> lock_view E (mach t) c n H P \<and>
           forked_child E i j k pg s t \<and>
           length (ptable t) = length (ptable s) \<and>
           (\<forall>q. q < length (ptable s) \<longrightarrow> q \<noteq> j \<longrightarrow> proc_at t q = proc_at s q) \<and>
           nextpid t = nextpid s + 1 \<and> initproc t = initproc s"
proof -
  from slot have j: "j < length (ptable s)" and "p_state (proc_at s j) = UNUSED"
    by (auto dest: scan_SomeD)
  with used have ij: "i \<noteq> j" by auto
  from curproc_view [OF v n cur] obtain m0
    where m0: "curproc E s = Ret (i, s\<lparr>mach := m0\<rparr>)" and "lock_view E m0 c n H P" by blast
  then have "lock_view E (mach (s\<lparr>mach := m0\<rparr>)) c n H P" by simp
  from allocproc_run [OF this n l, of j k w1] slot ka obtain m1
    where al: "allocproc E (s\<lparr>mach := m0\<rparr>) = Ret (Some j, alloc_state E j k (s\<lparr>mach := m1, world := w1\<rparr>))"
      and v1: "lock_view E m1 c n H P" by auto
  let ?a = "alloc_state E j k (s\<lparr>mach := m1, world := w1\<rparr>)"
  have ai: "proc_at ?a i = proc_at s i"
    using i ij by (simp add: nth_alloc_state)
  let ?b = "upd_proc j (\<lambda>p. p\<lparr>p_sz := p_sz (proc_at s i), p_parent := Some i\<rparr>)
              (upd_proc j (\<lambda>p. p\<lparr>p_pgdir := pg\<rparr>) (?a\<lparr>world := w2\<rparr>))"
  let ?d = "upd_tf (p_tf (proc_at ?b j)) (\<lambda>t. t\<lparr>tf_eax := 0\<rparr>)
              (upd_tf (p_tf (proc_at ?b j)) (\<lambda>_. tfs ?b (p_tf (proc_at ?b i))) ?b)"
  have "j < length (ptable ?d)" using j by (simp add: upd_tf_def)
  from dup_files_run [OF this ij, of "[0..<NOFILE]"] obtain os w3
    where df: "dup_files E i j [0..<NOFILE] ?d =
                 Ret ((upd_proc j (\<lambda>p. p\<lparr>p_ofile := os\<rparr>) ?d)\<lparr>world := w3\<rparr>)" by blast
  from idup_returns obtain ip w4 where id: "idup E (p_cwd (proc_at s i)) w3 = Ret (ip, w4)" by blast
  let ?e = "upd_proc j (\<lambda>p. p\<lparr>p_tickets := p_tickets (proc_at s i)\<rparr>)
              (upd_proc j (\<lambda>p. p\<lparr>p_name := safestrcpy E (p_name (proc_at s i)) 16\<rparr>)
                (upd_proc j (\<lambda>p. p\<lparr>p_cwd := ip\<rparr>)
                  ((upd_proc j (\<lambda>p. p\<lparr>p_ofile := os\<rparr>) ?d)\<lparr>world := w4\<rparr>)))"
  have "lock_view E (mach ?e) c n H P" using v1 by (simp add: upd_tf_def)
  from critical_section [OF this n l, of "upd_proc j (\<lambda>p. p\<lparr>p_state := RUNNABLE\<rparr>)"] obtain m3 m4
    where m3: "on_mach (acquire E PtableLock) ?e = Ret (?e\<lparr>mach := m3\<rparr>)"
      and m4: "on_mach (release E PtableLock) (upd_proc j (\<lambda>p. p\<lparr>p_state := RUNNABLE\<rparr>) (?e\<lparr>mach := m3\<rparr>)) =
                 Ret ((upd_proc j (\<lambda>p. p\<lparr>p_state := RUNNABLE\<rparr>) (?e\<lparr>mach := m3\<rparr>))\<lparr>mach := m4\<rparr>)"
      and v4: "lock_view E m4 c n H P" by auto
  let ?t = "(upd_proc j (\<lambda>p. p\<lparr>p_state := RUNNABLE\<rparr>) (?e\<lparr>mach := m3\<rparr>))\<lparr>mach := m4\<rparr>"
  have "fork E s = Ret (nextpid s, ?t)"
    using i j ij cp ai df id m3 m4
    by (simp add: fork_def m0 al call_world_def Let_def nth_alloc_state upd_tf_def)
  moreover have "forked_child E i j k pg s ?t"
    using i j ij by (simp add: forked_child_def nth_alloc_state upd_tf_def)
  ultimately show ?thesis
    using i j ij v4 by (intro exI [of _ ?t]) (simp add: nth_alloc_state upd_tf_def)
qed

end

section \<open>Giving up the CPU\<close>

text \<open>The state in which a thread hands over to the scheduler: only the table lock is held.\<close>

abbreviation at_switch :: "('c, 'w) ext \<Rightarrow> 'c mach \<Rightarrow> nat \<Rightarrow> nat option list \<Rightarrow> bool" where
  "at_switch E m c P \<equiv> lock_view E m c (Suc 0) {PtableLock} P"

lemma upd_cpu_put: "upd_cpu k f s = s\<lparr>mach := put_cpu k f (mach s)\<rparr>"
  by (simp add: upd_cpu_def put_cpu_def)

context spinlock_laws
begin

lemma sched_check_run:
  assumes v: "at_switch E (mach s) c P" and i: "P ! c = Some i"
    and st: "p_state (proc_at s i) \<noteq> RUNNING"
  shows "\<exists>m v. sched_check E s = Ret (v, s\<lparr>mach := m\<rparr>) \<and> at_switch E m c P"
proof -
  from myproc_view [OF v] obtain m
    where m: "myproc E s = Ret (P ! c, s\<lparr>mach := m\<rparr>)" and vm: "at_switch E m c P" by auto
  have "holding E PtableLock m" and "c_ncli (cpus m ! c) = 1" and "irq_off E m"
    using vm by (auto simp: lock_view_def)
  with m vm i st mycpu_view [OF vm] show ?thesis
    by (auto simp: sched_check_def irq_off_def)
qed

text \<open>
  \<open>sched\<close> switches away from that state, and when the thread is resumed on some CPU with the
  table lock held, only restores \<open>intena\<close>.
\<close>

lemma sched_run:
  assumes "at_switch E (mach s) c P" and "P ! c = Some i" and "p_state (proc_at s i) \<noteq> RUNNING"
  shows "\<exists>m. at_switch E m c P \<and>
     (\<forall>sw t c' P'. sw (s\<lparr>mach := m\<rparr>) = Ret t \<longrightarrow> at_switch E (mach t) c' P' \<longrightarrow>
        (\<exists>m'. sched E sw s = Ret (t\<lparr>mach := m'\<rparr>) \<and> at_switch E m' c' P'))"
proof -
  from sched_check_run [OF assms] obtain m v
    where m: "sched_check E s = Ret (v, s\<lparr>mach := m\<rparr>)" "at_switch E m c P" by blast
  have "\<exists>m'. sched E sw s = Ret (t\<lparr>mach := m'\<rparr>) \<and> at_switch E m' c' P'"
    if "sw (s\<lparr>mach := m\<rparr>) = Ret t" and v': "at_switch E (mach t) c' P'" for sw t c' P'
    using that(1) m(1) mycpu_view [OF v'] view_put_intena [OF v', of c' v]
    by (auto simp: sched_def upd_cpu_put)
  with m(2) show ?thesis by blast
qed

lemma yield_run:
  assumes v: "lock_view E (mach s) c 0 {} P" and i: "P ! c = Some i" "i < length (ptable s)"
  shows "\<exists>m. at_switch E m c P \<and>
     (\<forall>sw t c' P'. sw ((upd_proc i (\<lambda>p. p\<lparr>p_state := RUNNABLE\<rparr>) s)\<lparr>mach := m\<rparr>) = Ret t \<longrightarrow>
        at_switch E (mach t) c' P' \<longrightarrow>
        (\<exists>m'. yield E sw s = Ret (t\<lparr>mach := m'\<rparr>) \<and> lock_view E m' c' 0 {} P'))"
proof -
  from on_mach_acquire [OF v] obtain m1
    where m1: "on_mach (acquire E PtableLock) s = Ret (s\<lparr>mach := m1\<rparr>)" "at_switch E m1 c P"
    by auto
  have "at_switch E (mach (s\<lparr>mach := m1\<rparr>)) c P" using m1(2) by simp
  from curproc_view [OF this _ i(1)] obtain m2
    where m2: "curproc E (s\<lparr>mach := m1\<rparr>) = Ret (i, s\<lparr>mach := m2\<rparr>)" "at_switch E m2 c P"
    by auto
  let ?s2 = "(upd_proc i (\<lambda>p. p\<lparr>p_state := RUNNABLE\<rparr>) s)\<lparr>mach := m2\<rparr>"
  have "at_switch E (mach ?s2) c P" using m2(2) by simp
  from sched_run [OF this i(1)] i(2) obtain m where m: "at_switch E m c P"
    and run: "\<And>sw t c' P'. sw (?s2\<lparr>mach := m\<rparr>) = Ret t \<Longrightarrow> at_switch E (mach t) c' P' \<Longrightarrow>
        \<exists>m'. sched E sw ?s2 = Ret (t\<lparr>mach := m'\<rparr>) \<and> at_switch E m' c' P'" by auto
  have "\<exists>m'. yield E sw s = Ret (t\<lparr>mach := m'\<rparr>) \<and> lock_view E m' c' 0 {} P'"
    if "sw (?s2\<lparr>mach := m\<rparr>) = Ret t" and "at_switch E (mach t) c' P'" for sw t c' P'
  proof -
    from run [of sw t c' P', OF that] obtain m3
      where m3: "sched E sw ?s2 = Ret (t\<lparr>mach := m3\<rparr>)" "at_switch E m3 c' P'" by blast
    from on_mach_release [of "t\<lparr>mach := m3\<rparr>" c' 0 "{PtableLock}" P' PtableLock] m3(2)
    show ?thesis using m1(1) m2(1) m3(1) by (auto simp: yield_def upd_proc_mach)
  qed
  with m show ?thesis by auto
qed

text \<open>The two ways into \<open>sleep\<close>: holding the table lock itself, or another lock.\<close>

lemma sleep_ptable_run:
  assumes v: "at_switch E (mach s) c P" and i: "P ! c = Some i" "i < length (ptable s)"
  shows "\<exists>m. at_switch E m c P \<and>
     (\<forall>sw t c' P'. sw ((upd_proc i (\<lambda>p. p\<lparr>p_chan := ch, p_state := SLEEPING\<rparr>) s)\<lparr>mach := m\<rparr>) = Ret t \<longrightarrow>
        at_switch E (mach t) c' P' \<longrightarrow>
        (\<exists>m'. sleep E sw ch (Some PtableLock) s =
               Ret ((upd_proc i (\<lambda>p. p\<lparr>p_chan := ChanNull\<rparr>) t)\<lparr>mach := m'\<rparr>) \<and>
             at_switch E m' c' P'))"
proof -
  from myproc_view [OF v] i(1) obtain m1
    where m1: "myproc E s = Ret (Some i, s\<lparr>mach := m1\<rparr>)" "at_switch E m1 c P" by auto
  let ?s1 = "(upd_proc i (\<lambda>p. p\<lparr>p_chan := ch, p_state := SLEEPING\<rparr>) s)\<lparr>mach := m1\<rparr>"
  have "at_switch E (mach ?s1) c P" using m1(2) by simp
  from sched_run [OF this i(1)] i(2) obtain m where m: "at_switch E m c P"
    and run: "\<And>sw t c' P'. sw (?s1\<lparr>mach := m\<rparr>) = Ret t \<Longrightarrow> at_switch E (mach t) c' P' \<Longrightarrow>
        \<exists>m'. sched E sw ?s1 = Ret (t\<lparr>mach := m'\<rparr>) \<and> at_switch E m' c' P'" by auto
  have "\<exists>m'. sleep E sw ch (Some PtableLock) s =
             Ret ((upd_proc i (\<lambda>p. p\<lparr>p_chan := ChanNull\<rparr>) t)\<lparr>mach := m'\<rparr>) \<and> at_switch E m' c' P'"
    if "sw (?s1\<lparr>mach := m\<rparr>) = Ret t" and "at_switch E (mach t) c' P'" for sw t c' P'
    using run [of sw t c' P', OF that] m1(1) by (auto simp: sleep_def upd_proc_mach)
  with m show ?thesis by auto
qed

lemma ordered_locks_call:
  "l = PtableLock \<or> holding F PtableLock (mach s) \<Longrightarrow>
     on_mach (release (ordered_locks F) l) s = on_mach (release F l) s"
  "l = PtableLock \<or> \<not> holding F PtableLock (mach s) \<Longrightarrow>
     on_mach (acquire (ordered_locks F) l) s = on_mach (acquire F l) s"
  by (auto simp: ordered_locks_def on_mach_def)

lemma view_holding: "lock_view E m c n H P \<Longrightarrow> holding E l m \<longleftrightarrow> l \<in> H"
  by (auto simp: lock_view_def)

lemma sleep_other_run:
  assumes v: "lock_view E (mach s) c (Suc 0) {l} P" and l: "l \<noteq> PtableLock"
    and i: "P ! c = Some i" "i < length (ptable s)"
  shows "\<exists>m. at_switch E m c P \<and>
     (\<forall>sw t c' P'. sw ((upd_proc i (\<lambda>p. p\<lparr>p_chan := ch, p_state := SLEEPING\<rparr>) s)\<lparr>mach := m\<rparr>) = Ret t \<longrightarrow>
        at_switch E (mach t) c' P' \<longrightarrow>
        (\<exists>m'. sleep E sw ch (Some l) s =
               Ret ((upd_proc i (\<lambda>p. p\<lparr>p_chan := ChanNull\<rparr>) t)\<lparr>mach := m'\<rparr>) \<and>
             sleep (ordered_locks E) sw ch (Some l) s =
               Ret ((upd_proc i (\<lambda>p. p\<lparr>p_chan := ChanNull\<rparr>) t)\<lparr>mach := m'\<rparr>) \<and>
             lock_view E m' c' (Suc 0) {l} P'))"
proof -
  from myproc_view [OF v] i(1) obtain m1
    where m1: "myproc E s = Ret (Some i, s\<lparr>mach := m1\<rparr>)" "lock_view E m1 c (Suc 0) {l} P" by auto
  have "lock_view E (mach (s\<lparr>mach := m1\<rparr>)) c (Suc 0) {l} P" using m1(2) by simp
  from on_mach_acquire [OF this, of PtableLock] l obtain m2
    where m2: "on_mach (acquire E PtableLock) (s\<lparr>mach := m1\<rparr>) = Ret (s\<lparr>mach := m2\<rparr>)"
      "lock_view E m2 c (Suc (Suc 0)) {PtableLock, l} P" by auto
  have "{PtableLock, l} - {l} = {PtableLock}" using l by auto
  with on_mach_release [of "s\<lparr>mach := m2\<rparr>" c "Suc 0" "{PtableLock, l}" P l] m2(2) obtain m3
    where m3: "on_mach (release E l) (s\<lparr>mach := m2\<rparr>) = Ret (s\<lparr>mach := m3\<rparr>)" "at_switch E m3 c P"
    by auto
  let ?s1 = "(upd_proc i (\<lambda>p. p\<lparr>p_chan := ch, p_state := SLEEPING\<rparr>) s)\<lparr>mach := m3\<rparr>"
  have "at_switch E (mach ?s1) c P" using m3(2) by simp
  from sched_run [OF this i(1)] i(2) obtain m where m: "at_switch E m c P"
    and run: "\<And>sw t c' P'. sw (?s1\<lparr>mach := m\<rparr>) = Ret t \<Longrightarrow> at_switch E (mach t) c' P' \<Longrightarrow>
        \<exists>m'. sched E sw ?s1 = Ret (t\<lparr>mach := m'\<rparr>) \<and> at_switch E m' c' P'" by auto
  have "\<exists>m'. sleep E sw ch (Some l) s =
             Ret ((upd_proc i (\<lambda>p. p\<lparr>p_chan := ChanNull\<rparr>) t)\<lparr>mach := m'\<rparr>) \<and>
           sleep (ordered_locks E) sw ch (Some l) s =
             Ret ((upd_proc i (\<lambda>p. p\<lparr>p_chan := ChanNull\<rparr>) t)\<lparr>mach := m'\<rparr>) \<and>
           lock_view E m' c' (Suc 0) {l} P'"
    if "sw (?s1\<lparr>mach := m\<rparr>) = Ret t" and "at_switch E (mach t) c' P'" for sw t c' P'
  proof -
    let ?u = "\<lambda>m. (upd_proc i (\<lambda>p. p\<lparr>p_chan := ChanNull\<rparr>) t)\<lparr>mach := m\<rparr>"
    from run [of sw t c' P', OF that] obtain m4
      where m4: "sched E sw ?s1 = Ret (t\<lparr>mach := m4\<rparr>)" "at_switch E m4 c' P'" by blast
    from on_mach_release [of "?u m4" c' 0 "{PtableLock}" P' PtableLock] m4(2) obtain m5
      where m5: "on_mach (release E PtableLock) (?u m4) = Ret (?u m5)" "lock_view E m5 c' 0 {} P'"
      by auto
    from on_mach_acquire [of "?u m5" c' 0 "{}" P' l] m5(2) obtain m6
      where m6: "on_mach (acquire E l) (?u m5) = Ret (?u m6)" "lock_view E m6 c' (Suc 0) {l} P'"
      by auto
    have run: "sleep E sw ch (Some l) s = Ret (?u m6)"
      using m1(1) m2(1) m3(1) m4(1) m5(1) m6(1) l by (simp add: sleep_def upd_proc_mach)
    have "on_mach (acquire (ordered_locks E) PtableLock) (s\<lparr>mach := m1\<rparr>) = Ret (s\<lparr>mach := m2\<rparr>)"
      "on_mach (release (ordered_locks E) PtableLock) (?u m4) = Ret (?u m5)"
      using m2(1) m5(1) by (simp_all add: ordered_locks_call)
    moreover have "on_mach (release (ordered_locks E) l) (s\<lparr>mach := m2\<rparr>) = Ret (s\<lparr>mach := m3\<rparr>)"
      using m3(1) view_holding [OF m2(2), of PtableLock] by (simp add: ordered_locks_call)
    moreover have "on_mach (acquire (ordered_locks E) l) (?u m5) = Ret (?u m6)"
      using m6(1) view_holding [OF m5(2), of PtableLock] by (simp add: ordered_locks_call)
    ultimately have "sleep (ordered_locks E) sw ch (Some l) s = Ret (?u m6)"
      using m1(1) m4(1) l by (simp add: sleep_def upd_proc_mach)
    with run m6(2) show ?thesis by auto
  qed
  with m show ?thesis by auto
qed

end

section \<open>Exiting\<close>

lemma nth_wakeup1 [simp]:
  "j < length (ptable s) \<Longrightarrow>
     proc_at (wakeup1 ch s) j =
       (proc_at s j)\<lparr>p_state := (if p_state (proc_at s j) = SLEEPING \<and> p_chan (proc_at s j) = ch
                                 then RUNNABLE else p_state (proc_at s j))\<rparr>"
  by (simp add: wakeup1_def)

lemma abandon_children_simps [simp]:
  "mach (abandon_children c is s) = mach s"
  "world (abandon_children c is s) = world s"
  "initproc (abandon_children c is s) = initproc s"
  "nextpid (abandon_children c is s) = nextpid s"
  "length (ptable (abandon_children c is s)) = length (ptable s)"
  by (induction c "is" s rule: abandon_children.induct) (simp_all add: Let_def)

lemma abandon_children_mach:
  "abandon_children c is (s\<lparr>mach := m\<rparr>) = (abandon_children c is s)\<lparr>mach := m\<rparr>"
proof (induction "is" arbitrary: s)
  case Nil
  then show ?case by simp
next
  case (Cons i "is")
  then show ?case
    by (cases "p_state (upd_nth i (\<lambda>p. p\<lparr>p_parent := initproc s\<rparr>) (ptable s) ! i) = ZOMBIE")
       (simp_all add: Let_def upd_proc_mach wakeup1_mach)
qed

text \<open>Whether the loop over the slots \<open>is\<close> meets a zombie child of \<open>c\<close>.\<close>

definition zombie_child :: "nat \<Rightarrow> nat list \<Rightarrow> ('c, 'w) kst \<Rightarrow> bool" where
  "zombie_child c is s \<longleftrightarrow>
     (\<exists>i \<in> set is. p_parent (proc_at s i) = Some c \<and> p_state (proc_at s i) = ZOMBIE)"

lemma nth_abandon_children:
  assumes "distinct is" and "\<forall>i \<in> set is. i < length (ptable s)" and "j < length (ptable s)"
  shows "proc_at (abandon_children c is s) j =
     (proc_at s j)
       \<lparr>p_parent := (if j \<in> set is \<and> p_parent (proc_at s j) = Some c then initproc s
                     else p_parent (proc_at s j)),
        p_state := (if p_state (proc_at s j) = SLEEPING \<and>
                       p_chan (proc_at s j) = proc_chan (initproc s) \<and> zombie_child c is s
                    then RUNNABLE else p_state (proc_at s j))\<rparr>"
  using assms
proof (induction "is" arbitrary: s)
  case Nil
  then show ?case by (simp add: zombie_child_def)
next
  case (Cons i "is")
  let ?s1 = "upd_proc i (\<lambda>p. p\<lparr>p_parent := initproc s\<rparr>) s"
  let ?s2 = "if p_state (proc_at s i) = ZOMBIE then wakeup1 (proc_chan (initproc s)) ?s1 else ?s1"
  show ?case
  proof (cases "p_parent (proc_at s i) = Some c")
    case False
    with Cons have "proc_at (abandon_children c (i # is) s) j =
       (proc_at s j)
         \<lparr>p_parent := (if j \<in> set is \<and> p_parent (proc_at s j) = Some c then initproc s
                       else p_parent (proc_at s j)),
          p_state := (if p_state (proc_at s j) = SLEEPING \<and>
                         p_chan (proc_at s j) = proc_chan (initproc s) \<and> zombie_child c is s
                      then RUNNABLE else p_state (proc_at s j))\<rparr>"
      by simp
    moreover have "zombie_child c (i # is) s = zombie_child c is s"
      using False by (simp add: zombie_child_def)
    ultimately show ?thesis using False by auto
  next
    case True
    have i: "i < length (ptable s)" "i \<notin> set is" using Cons.prems by auto
    have s2: "proc_at ?s2 q = (proc_at s q)
        \<lparr>p_parent := (if q = i then initproc s else p_parent (proc_at s q)),
         p_state := (if p_state (proc_at s i) = ZOMBIE \<and> p_state (proc_at s q) = SLEEPING \<and>
             p_chan (proc_at s q) = proc_chan (initproc s) then RUNNABLE else p_state (proc_at s q))\<rparr>"
      if "q < length (ptable s)" for q
      using that i by auto
    have init2: "initproc ?s2 = initproc s" by simp
    have z: "zombie_child c is ?s2 = zombie_child c is s"
      unfolding zombie_child_def using Cons.prems i by (intro bex_cong) (auto simp: s2)
    have zi: "zombie_child c (i # is) s \<longleftrightarrow> p_state (proc_at s i) = ZOMBIE \<or> zombie_child c is s"
      using True by (auto simp: zombie_child_def)
    have step: "abandon_children c (i # is) s = abandon_children c is ?s2"
      using True i by (simp add: Let_def)
    have "proc_at (abandon_children c is ?s2) j =
       (proc_at ?s2 j)
         \<lparr>p_parent := (if j \<in> set is \<and> p_parent (proc_at ?s2 j) = Some c then initproc ?s2
                       else p_parent (proc_at ?s2 j)),
          p_state := (if p_state (proc_at ?s2 j) = SLEEPING \<and>
                         p_chan (proc_at ?s2 j) = proc_chan (initproc ?s2) \<and> zombie_child c is ?s2
                      then RUNNABLE else p_state (proc_at ?s2 j))\<rparr>"
      using Cons.prems by (intro Cons.IH) auto
    then show ?thesis
      unfolding step zi z init2 s2 [OF Cons.prems(3)]
      using True i by (cases "j = i"; cases "p_state (proc_at s i) = ZOMBIE") auto
  qed
qed

text \<open>The table after the critical section of \<open>exit\<close>.\<close>

lemma exit_section_simps [simp]:
  "mach (exit_section c s) = mach s"
  "world (exit_section c s) = world s"
  "initproc (exit_section c s) = initproc s"
  "nextpid (exit_section c s) = nextpid s"
  "length (ptable (exit_section c s)) = length (ptable s)"
  by (simp_all add: exit_section_def Let_def)

lemma exit_section_mach: "exit_section c (s\<lparr>mach := m\<rparr>) = (exit_section c s)\<lparr>mach := m\<rparr>"
  by (simp add: exit_section_def Let_def wakeup1_mach abandon_children_mach upd_proc_mach)

lemma nth_exit_section:
  assumes "j < length (ptable s)" and c: "c < length (ptable s)"
  shows "proc_at (exit_section c s) j =
     (proc_at s j)
       \<lparr>p_parent := (if p_parent (proc_at s j) = Some c then initproc s
                     else p_parent (proc_at s j)),
        p_state := (if j = c then ZOMBIE
                    else if p_state (proc_at s j) = SLEEPING \<and>
                            (p_chan (proc_at s j) = proc_chan (p_parent (proc_at s c)) \<or>
                             p_chan (proc_at s j) = proc_chan (initproc s) \<and>
                             zombie_child c [0..<length (ptable s)] s)
                    then RUNNABLE else p_state (proc_at s j))\<rparr>"
proof -
  let ?w = "wakeup1 (proc_chan (p_parent (proc_at s c))) s"
  have "zombie_child c [0..<length (ptable s)] ?w = zombie_child c [0..<length (ptable s)] s"
    unfolding zombie_child_def by (intro bex_cong) auto
  with assms show ?thesis
    by (auto simp: exit_section_def Let_def nth_abandon_children)
qed

text \<open>Closing the files: each descriptor of the loop ends up null.\<close>

lemma upd_proc_id: "upd_proc i (\<lambda>p. p\<lparr>p_ofile := p_ofile (proc_at s i)\<rparr>) s = s"
  by (simp add: upd_proc_def upd_nth_def)

context kernel_env
begin

lemma close_files_run:
  assumes "i < length (ptable s)"
    and "\<forall>fd \<in> set fds. fd < length (p_ofile (proc_at s i))"
  shows "\<exists>os w. close_files E i fds s = Ret ((upd_proc i (\<lambda>p. p\<lparr>p_ofile := os\<rparr>) s)\<lparr>world := w\<rparr>) \<and>
           length os = length (p_ofile (proc_at s i)) \<and>
           (\<forall>fd < length os. os ! fd = (if fd \<in> set fds then 0 else p_ofile (proc_at s i) ! fd))"
  using assms
proof (induction fds arbitrary: s)
  case Nil
  have "close_files E i [] s =
      Ret ((upd_proc i (\<lambda>p. p\<lparr>p_ofile := p_ofile (proc_at s i)\<rparr>) s)\<lparr>world := world s\<rparr>)"
    by (simp add: upd_proc_id)
  then show ?case by (intro exI [of _ "p_ofile (proc_at s i)"] exI [of _ "world s"]) simp
next
  case (Cons fd fds)
  show ?case
  proof (cases "p_ofile (proc_at s i) ! fd = 0")
    case True
    with Cons.IH [of s] Cons.prems obtain os w
      where "close_files E i fds s = Ret ((upd_proc i (\<lambda>p. p\<lparr>p_ofile := os\<rparr>) s)\<lparr>world := w\<rparr>)"
        "length os = length (p_ofile (proc_at s i))"
        "\<forall>fd < length os. os ! fd = (if fd \<in> set fds then 0 else p_ofile (proc_at s i) ! fd)"
      by auto
    with True show ?thesis by (intro exI [of _ os] exI [of _ w]) auto
  next
    case False
    from fileclose_returns obtain w1
      where fc: "fileclose E (p_ofile (proc_at s i) ! fd) (world s) = Ret w1" by blast
    let ?s1 = "upd_proc i (\<lambda>p. p\<lparr>p_ofile := (p_ofile p)[fd := 0]\<rparr>) (s\<lparr>world := w1\<rparr>)"
    from Cons.IH [of ?s1] Cons.prems obtain os w
      where os: "close_files E i fds ?s1 = Ret ((upd_proc i (\<lambda>p. p\<lparr>p_ofile := os\<rparr>) ?s1)\<lparr>world := w\<rparr>)"
        "length os = length (p_ofile (proc_at s i))"
        "\<forall>q < length os. os ! q = (if q \<in> set fds then 0 else (p_ofile (proc_at s i))[fd := 0] ! q)"
      by auto
    moreover have "(upd_proc i (\<lambda>p. p\<lparr>p_ofile := os\<rparr>) ?s1)\<lparr>world := w\<rparr> =
        (upd_proc i (\<lambda>p. p\<lparr>p_ofile := os\<rparr>) s)\<lparr>world := w\<rparr>"
      using Cons.prems by (simp add: upd_proc_def upd_nth_def)
    ultimately show ?thesis
      using False fc Cons.prems
      by (intro exI [of _ os] exI [of _ w]) (auto simp: on_world_def nth_list_update)
  qed
qed

lemma close_all_run:
  assumes i: "i < length (ptable s)" and len: "length (p_ofile (proc_at s i)) = NOFILE"
  shows "\<exists>w. close_files E i [0..<NOFILE] s =
           Ret ((upd_proc i (\<lambda>p. p\<lparr>p_ofile := replicate NOFILE 0\<rparr>) s)\<lparr>world := w\<rparr>)"
proof -
  from close_files_run [OF i, of "[0..<NOFILE]"] len obtain os w
    where os: "close_files E i [0..<NOFILE] s = Ret ((upd_proc i (\<lambda>p. p\<lparr>p_ofile := os\<rparr>) s)\<lparr>world := w\<rparr>)"
      "length os = NOFILE" "\<forall>fd < NOFILE. os ! fd = 0" by auto
  then have "os = replicate NOFILE 0" by (auto intro: nth_equalityI)
  with os(1) show ?thesis by auto
qed

text \<open>
  \<open>exit\<close> hands one state to the switch, in which the process is a zombie with its files and
  directory given back, and does not come back from it.
\<close>

lemma exit_run:
  assumes v: "lock_view E (mach s) c 0 {} P" and cur: "P ! c = Some i"
    and i: "i < length (ptable s)" "length (p_ofile (proc_at s i)) = NOFILE"
    and init: "initproc s \<noteq> Some i"
  shows "\<exists>w m. at_switch E m c P \<and>
     (\<forall>sw. exit E sw s =
        obind (sw ((exit_section i
                 (upd_proc i (\<lambda>p. p\<lparr>p_ofile := replicate NOFILE 0, p_cwd := 0\<rparr>)
                   (s\<lparr>world := w\<rparr>)))\<lparr>mach := m\<rparr>)) (\<lambda>t.
        obind (mycpu E (mach t)) (\<lambda>_. Panic ''zombie exit'')))"
proof -
  from myproc_view [OF v] cur obtain m0
    where m0: "myproc E s = Ret (Some i, s\<lparr>mach := m0\<rparr>)" "lock_view E m0 c 0 {} P" by auto
  from close_all_run [of i "s\<lparr>mach := m0\<rparr>"] i obtain w1
    where cl: "close_files E i [0..<NOFILE] (s\<lparr>mach := m0\<rparr>) =
      Ret ((upd_proc i (\<lambda>p. p\<lparr>p_ofile := replicate NOFILE 0\<rparr>) (s\<lparr>mach := m0\<rparr>))\<lparr>world := w1\<rparr>)" by auto
  from begin_op_returns obtain w2 where w2: "begin_op E w1 = Ret w2" by blast
  from iput_returns obtain w3 where w3: "iput E (p_cwd (proc_at s i)) w2 = Ret w3" by blast
  from end_op_returns obtain w where w: "end_op E w3 = Ret w" by blast
  let ?g = "upd_proc i (\<lambda>p. p\<lparr>p_ofile := replicate NOFILE 0, p_cwd := 0\<rparr>) (s\<lparr>world := w\<rparr>)"
  have g: "upd_proc i (\<lambda>p. p\<lparr>p_cwd := 0\<rparr>)
      ((upd_proc i (\<lambda>p. p\<lparr>p_ofile := replicate NOFILE 0\<rparr>) (s\<lparr>mach := m0\<rparr>))\<lparr>world := w\<rparr>) =
      ?g\<lparr>mach := m0\<rparr>"
    using i by (simp add: upd_proc_def comp_def)
  from on_mach_acquire [of "?g\<lparr>mach := m0\<rparr>" c 0 "{}" P PtableLock] m0(2) obtain m1
    where m1: "on_mach (acquire E PtableLock) (?g\<lparr>mach := m0\<rparr>) = Ret (?g\<lparr>mach := m1\<rparr>)"
      "at_switch E m1 c P" by auto
  let ?x = "(exit_section i ?g)\<lparr>mach := m1\<rparr>"
  have "p_state (proc_at ?x i) = ZOMBIE" using i by (simp add: nth_exit_section)
  with sched_check_run [of ?x c P i] m1(2) cur obtain m2 v2
    where m2: "sched_check E ?x = Ret (v2, ?x\<lparr>mach := m2\<rparr>)" "at_switch E m2 c P" by auto
  have "exit E sw s = obind (sw (?x\<lparr>mach := m2\<rparr>)) (\<lambda>t.
          obind (mycpu E (mach t)) (\<lambda>_. Panic ''zombie exit''))" for sw
    using m0(1) cl w2 w3 w m1(1) m2(1) init [symmetric] i g
    by (simp add: exit_def on_world_def sched_def obind_assoc exit_section_mach)
  with m2(2) show ?thesis by (intro exI [of _ w] exI [of _ m2]) simp
qed

end

section \<open>Waiting\<close>

lemma wait_scan_eq:
  "wait_scan c i h ps =
     (h \<or> (\<exists>p \<in> set ps. p_parent p = Some c),
      map_option ((+) i) (scan (\<lambda>p. p_parent p = Some c \<and> p_state p = ZOMBIE) ps))"
  by (induction ps arbitrary: i h) (auto simp: option.map_comp comp_def intro!: option.map_cong0)

text \<open>The table after \<open>wait\<close> has reaped slot \<open>j\<close>.\<close>

definition reaped :: "nat \<Rightarrow> ('c, 'w) kst \<Rightarrow> ('c, 'w) kst" where
  "reaped j s =
     upd_proc j (\<lambda>p. p\<lparr>p_kstack := 0, p_pid := 0, p_parent := None, p_name := [], p_killed := 0,
                       p_state := UNUSED\<rparr>) s"

context spinlock_laws
begin

text \<open>\<open>wait\<close> up to its first scan: the table is unchanged and locked.\<close>

lemma wait_enter:
  assumes v: "lock_view E (mach s) c 0 {} P" and cur: "P ! c = Some i"
  shows "\<exists>m. wait fuel E sw s = wait_loop fuel E sw i (s\<lparr>mach := m\<rparr>) \<and> at_switch E m c P"
proof -
  from curproc_view [OF v _ cur] obtain m0
    where m0: "curproc E s = Ret (i, s\<lparr>mach := m0\<rparr>)" "lock_view E m0 c 0 {} P" by auto
  from on_mach_acquire [of "s\<lparr>mach := m0\<rparr>" c 0 "{}" P PtableLock] m0(2) obtain m1
    where "on_mach (acquire E PtableLock) (s\<lparr>mach := m0\<rparr>) = Ret (s\<lparr>mach := m1\<rparr>)" "at_switch E m1 c P"
    by auto
  with m0(1) show ?thesis by (auto simp: wait_def)
qed

lemma release_ptable:
  assumes "at_switch E (mach s) c P"
  shows "\<exists>m. on_mach (release E PtableLock) s = Ret (s\<lparr>mach := m\<rparr>) \<and> lock_view E m c 0 {} P"
  using on_mach_release [OF assms] by simp

lemma wait_loop_reap:
  assumes v: "at_switch E (mach s) c P"
    and z: "scan (\<lambda>p. p_parent p = Some i \<and> p_state p = ZOMBIE) (ptable s) = Some j"
    and kf: "kfree E (p_kstack (proc_at s j)) (world s) = Ret w1"
    and fv: "freevm E (p_pgdir (proc_at s j)) w1 = Ret w2"
  shows "\<exists>m. wait_loop (Suc fuel) E sw i s =
           Some (Ret (p_pid (proc_at s j), (reaped j s)\<lparr>world := w2, mach := m\<rparr>)) \<and>
         lock_view E m c 0 {} P"
proof -
  have j: "j < length (ptable s)" using z by (auto dest: scan_SomeD)
  let ?r = "(reaped j s)\<lparr>world := w2\<rparr>"
  have r: "reap_slot j ((upd_proc j (\<lambda>p. p\<lparr>p_kstack := 0\<rparr>) (s\<lparr>world := w1\<rparr>))\<lparr>world := w2\<rparr>) = ?r"
    using j by (simp add: reaped_def reap_slot_def upd_proc_def comp_def)
  have "mach ?r = mach s" by (simp add: reaped_def)
  with v have "at_switch E (mach ?r) c P" by simp
  from release_ptable [OF this] obtain m
    where m: "on_mach (release E PtableLock) ?r = Ret (?r\<lparr>mach := m\<rparr>)" "lock_view E m c 0 {} P" by blast
  have "wait_reap E j s = Ret (p_pid (proc_at s j), ?r\<lparr>mach := m\<rparr>)"
    using j kf fv m(1) r by (simp add: wait_reap_def on_world_def Let_def)
  with z m(2) show ?thesis by (auto simp: wait_scan_eq)
qed

lemma wait_loop_fail:
  assumes v: "at_switch E (mach s) c P"
    and z: "scan (\<lambda>p. p_parent p = Some i \<and> p_state p = ZOMBIE) (ptable s) = None"
    and "(\<forall>p \<in> set (ptable s). p_parent p \<noteq> Some i) \<or> p_killed (proc_at s i) \<noteq> 0"
  shows "\<exists>m. wait_loop (Suc fuel) E sw i s = Some (Ret (- 1, s\<lparr>mach := m\<rparr>)) \<and>
         lock_view E m c 0 {} P"
  using release_ptable [OF v] z assms(3) by (auto simp: wait_scan_eq)

text \<open>Otherwise it goes to sleep on its own slot, and scans again when it is woken.\<close>

lemma wait_loop_sleep:
  assumes v: "at_switch E (mach s) c P" and cur: "P ! c = Some i" "i < length (ptable s)"
    and z: "scan (\<lambda>p. p_parent p = Some i \<and> p_state p = ZOMBIE) (ptable s) = None"
    and k: "\<exists>p \<in> set (ptable s). p_parent p = Some i" "p_killed (proc_at s i) = 0"
  shows "\<exists>m. at_switch E m c P \<and>
     (\<forall>sw t c' P'.
        sw ((upd_proc i (\<lambda>p. p\<lparr>p_chan := ChanProc i, p_state := SLEEPING\<rparr>) s)\<lparr>mach := m\<rparr>) = Ret t \<longrightarrow>
        at_switch E (mach t) c' P' \<longrightarrow>
        (\<exists>m'. at_switch E m' c' P' \<and>
          wait_loop (Suc fuel) E sw i s =
          wait_loop fuel E sw i ((upd_proc i (\<lambda>p. p\<lparr>p_chan := ChanNull\<rparr>) t)\<lparr>mach := m'\<rparr>)))"
proof -
  have ws: "wait_scan i 0 False (ptable s) = (True, None)" using z k(1) by (simp add: wait_scan_eq)
  have step: "wait_loop (Suc fuel) E sw i s = wait_loop fuel E sw i u"
    if "sleep E sw (ChanProc i) (Some PtableLock) s = Ret u" for sw u
    using that ws k(2) by simp
  let ?u = "\<lambda>m. (upd_proc i (\<lambda>p. p\<lparr>p_chan := ChanProc i, p_state := SLEEPING\<rparr>) s)\<lparr>mach := m\<rparr>"
  from sleep_ptable_run [OF v cur, of "ChanProc i"] obtain m where m: "at_switch E m c P"
    and run: "\<And>sw t c' P'. sw (?u m) = Ret t \<Longrightarrow> at_switch E (mach t) c' P' \<Longrightarrow>
      \<exists>m'. sleep E sw (ChanProc i) (Some PtableLock) s =
             Ret ((upd_proc i (\<lambda>p. p\<lparr>p_chan := ChanNull\<rparr>) t)\<lparr>mach := m'\<rparr>) \<and> at_switch E m' c' P'"
    by blast
  show ?thesis
  proof (rule exI [of _ m], intro conjI m allI impI)
    fix sw :: "('c, 'w) kst \<Rightarrow> ('c, 'w) kst outcome" and t c' P'
    assume "sw (?u m) = Ret t" and "at_switch E (mach t) c' P'"
    from run [of sw t c' P', OF this] step [of sw]
    show "\<exists>m'. at_switch E m' c' P' \<and> wait_loop (Suc fuel) E sw i s =
        wait_loop fuel E sw i ((upd_proc i (\<lambda>p. p\<lparr>p_chan := ChanNull\<rparr>) t)\<lparr>mach := m'\<rparr>)"
      by blast
  qed
qed

end

section \<open>The snapshot of the table\<close>

text \<open>What \<open>getpinfo\<close> reports of a table: one entry per slot.\<close>

definition pstat_of :: "proc list \<Rightarrow> pstat" where
  "pstat_of ps =
     \<lparr>ps_inuse = map (\<lambda>p. if p_state p \<noteq> UNUSED then 1 else 0) ps,
      ps_tickets = map p_tickets ps, ps_pid = map p_pid ps, ps_ticks = map p_ticks ps\<rparr>"

definition pstat_sized :: "nat \<Rightarrow> pstat \<Rightarrow> bool" where
  "pstat_sized n ps \<longleftrightarrow>
     length (ps_inuse ps) = n \<and> length (ps_tickets ps) = n \<and> length (ps_pid ps) = n \<and>
     length (ps_ticks ps) = n"

lemma pstat_sized_clear: "pstat_sized n ps \<Longrightarrow> pstat_sized n (clear_pstat is ps)"
  by (induction "is" arbitrary: ps) (auto simp: pstat_sized_def)

lemma take_update_append:
  "i < length xs \<Longrightarrow> take (Suc i) (xs[i := v]) = take i xs @ [v]"
  by (simp add: take_Suc_conv_app_nth)

lemma fill_pstat_eq:
  "pstat_sized (i + length ps) q \<Longrightarrow>
     fill_pstat i ps q =
       \<lparr>ps_inuse = take i (ps_inuse q) @ ps_inuse (pstat_of ps),
        ps_tickets = take i (ps_tickets q) @ ps_tickets (pstat_of ps),
        ps_pid = take i (ps_pid q) @ ps_pid (pstat_of ps),
        ps_ticks = take i (ps_ticks q) @ ps_ticks (pstat_of ps)\<rparr>"
proof (induction ps arbitrary: i q)
  case Nil
  then show ?case by (cases q) (simp add: pstat_of_def pstat_sized_def)
next
  case (Cons p ps)
  then show ?case by (simp add: pstat_of_def pstat_sized_def take_update_append)
qed

lemma fill_clear_pstat:
  "pstat_sized (length ps) q \<Longrightarrow> fill_pstat 0 ps (clear_pstat is q) = pstat_of ps"
  using fill_pstat_eq [of 0 ps "clear_pstat is q"] pstat_sized_clear [of _ q "is"]
  by (simp add: pstat_of_def)

end
