(* ===== verification/Lottery_Machine.thy ===== *)
theory Lottery_Machine
  imports Lottery_Ops
begin

text \<open>
  A reference machine for the parameters of the lottery kernel: CPUs with an interrupt flag
  and a local APIC, locks with an owner, and a page allocator that is left open; the concrete runs
  take one with a bounded supply. The lock
  primitives follow the documented protocol of xv6 (\<open>pushcli\<close> nests, \<open>popcli\<close> restores
  the interrupt flag when the outermost level is left, \<open>acquire\<close> spins until the owner has
  let go and refuses a lock this CPU already holds, \<open>release\<close> refuses one it does not hold).

  It interprets \<open>spinlock_laws\<close> and \<open>kernel_env\<close>, so the contracts proved from them hold
  of a machine that exists, and it is the machine of the concrete runs.
\<close>

record ref_hw =
  ifl :: bool
  apic :: i32
  owner :: "lock \<Rightarrow> nat option"

type_synonym ref_mach = "ref_hw mach"
type_synonym ref_kst = "(ref_hw, nat) kst"

definition ref_this :: "ref_mach \<Rightarrow> nat option" where
  "ref_this m =
     scan (\<lambda>k. ucast (c_apicid k) = apic (hw m)) (take (nat (sint (ncpu m))) (cpus m))"

definition ref_set_if :: "bool \<Rightarrow> ref_mach \<Rightarrow> ref_mach" where
  "ref_set_if b m = m\<lparr>hw := (hw m)\<lparr>ifl := b\<rparr>\<rparr>"

definition ref_set_owner :: "lock \<Rightarrow> nat option \<Rightarrow> ref_mach \<Rightarrow> ref_mach" where
  "ref_set_owner l x m = m\<lparr>hw := (hw m)\<lparr>owner := (owner (hw m))(l := x)\<rparr>\<rparr>"

definition ref_pushcli :: "ref_mach \<Rightarrow> ref_mach outcome" where
  "ref_pushcli m =
     (case ref_this m of
        None \<Rightarrow> Panic ''unknown apicid''
      | Some c \<Rightarrow>
          Ret (put_cpu c (\<lambda>k. k\<lparr>c_intena := (if c_ncli k = 0 then (if ifl (hw m) then 1 else 0)
                                             else c_intena k),
                                c_ncli := c_ncli k + 1\<rparr>) (ref_set_if False m)))"

definition ref_popcli :: "ref_mach \<Rightarrow> ref_mach outcome" where
  "ref_popcli m =
     (if ifl (hw m) then Panic ''popcli - interruptible''
      else case ref_this m of
        None \<Rightarrow> Panic ''unknown apicid''
      | Some c \<Rightarrow>
          let m' = put_cpu c (\<lambda>k. k\<lparr>c_ncli := c_ncli k - 1\<rparr>) m;
              k = cpus m ! c
          in if slt (c_ncli k - 1) 0 then Panic ''popcli''
             else if c_ncli k - 1 = 0 \<and> c_intena k \<noteq> 0 then Ret (ref_set_if True m')
             else Ret m')"

definition ref_holding :: "lock \<Rightarrow> ref_mach \<Rightarrow> bool" where
  "ref_holding l m \<longleftrightarrow> owner (hw m) l \<noteq> None \<and> owner (hw m) l = ref_this m"

definition ref_acquire :: "lock \<Rightarrow> ref_mach \<Rightarrow> ref_mach outcome" where
  "ref_acquire l m =
     obind (ref_pushcli m) (\<lambda>m.
     if ref_holding l m then Panic ''acquire'' else Ret (ref_set_owner l (ref_this m) m))"

definition ref_release :: "lock \<Rightarrow> ref_mach \<Rightarrow> ref_mach outcome" where
  "ref_release l m =
     (if \<not> ref_holding l m then Panic ''release''
      else ref_popcli (ref_set_owner l None m))"

text \<open>The world is the number of free pages; page \<open>k\<close> is at address \<open>4096 * k\<close>.\<close>

definition ref_alloc :: "nat \<Rightarrow> (addr32 \<times> nat) outcome" where
  "ref_alloc w = (if w = 0 then Ret (0, 0) else Ret (of_nat w * 4096, w - 1))"

definition ref_ext_of ::
    "('w \<Rightarrow> (addr32 \<times> 'w) outcome) \<Rightarrow> (addr32 \<Rightarrow> 'w \<Rightarrow> 'w outcome) \<Rightarrow> (ref_hw, 'w) ext" where
  "ref_ext_of al fr =
     \<lparr>PGSIZE = 4096, SEG_UCODE = 3, SEG_UDATA = 4, DPL_USER = 3, FL_IF = 0x200,
      sizeof_trapframe = 76, forkret_addr = 0x80104000, trapret_addr = 0x80105000,
      initcode_start = 0x8010b460, initcode_size = 44,
      readeflags = (\<lambda>h. if ifl h then 0x200 else 0), lapicid = apic,
      sti = ref_set_if True, pushcli = ref_pushcli, popcli = ref_popcli,
      initlock = (\<lambda>l. ref_set_owner l None), acquire = ref_acquire, release = ref_release,
      holding = ref_holding,
      kalloc = al, kfree = fr, setupkvm = al,
      inituvm = (\<lambda>_ _ _ w. Ret w), allocuvm = (\<lambda>_ _ n w. Ret (n, w)),
      deallocuvm = (\<lambda>_ _ n w. Ret (n, w)), copyuvm = (\<lambda>_ _. al),
      freevm = fr, switchuvm = (\<lambda>_. Ret), switchkvm = Ret,
      filedup = (\<lambda>f w. Ret (f, w)), fileclose = (\<lambda>_. Ret), idup = (\<lambda>i w. Ret (i, w)),
      iput = (\<lambda>_. Ret), namei = (\<lambda>_ w. Ret (0x80110000, w)), begin_op = Ret, end_op = Ret,
      iinit = (\<lambda>_. Ret), initlog = (\<lambda>_. Ret), safestrcpy = (\<lambda>s n. take (n - 1) s),
      getcallerpcs = (\<lambda>_ _. [])\<rparr>"

lemma ref_ext_of_simps [simp]:
  "FL_IF (ref_ext_of al fr) = 0x200" "readeflags (ref_ext_of al fr) h = (if ifl h then 0x200 else 0)"
  "lapicid (ref_ext_of al fr) = apic" "sti (ref_ext_of al fr) = ref_set_if True" "pushcli (ref_ext_of al fr) = ref_pushcli"
  "popcli (ref_ext_of al fr) = ref_popcli" "acquire (ref_ext_of al fr) = ref_acquire" "release (ref_ext_of al fr) = ref_release"
  "holding (ref_ext_of al fr) = ref_holding" "kalloc (ref_ext_of al fr) = al"
  "kfree (ref_ext_of al fr) = fr" "freevm (ref_ext_of al fr) = fr"
  "copyuvm (ref_ext_of al fr) a b = al"
  "filedup (ref_ext_of al fr) f w = Ret (f, w)" "fileclose (ref_ext_of al fr) f w = Ret w"
  "idup (ref_ext_of al fr) f w = Ret (f, w)" "iput (ref_ext_of al fr) f w = Ret w"
  "begin_op (ref_ext_of al fr) w = Ret w" "end_op (ref_ext_of al fr) w = Ret w"
  "switchuvm (ref_ext_of al fr) q w = Ret w" "switchkvm (ref_ext_of al fr) w = Ret w"
  by (simp_all add: ref_ext_of_def)

lemma this_cpu_of [simp]: "this_cpu (ref_ext_of al fr) = ref_this"
  by (simp add: fun_eq_iff this_cpu_def ref_this_def)

lemma ref_this_less: "ref_this m = Some c \<Longrightarrow> c < length (cpus m)"
  by (auto simp: ref_this_def dest: scan_SomeD)

lemma ref_this_put:
  assumes "\<And>k. c_apicid (f k) = c_apicid k"
  shows "ref_this (put_cpu i f m) = ref_this m"
proof -
  have "ref_this m = scan (\<lambda>a. ucast a = apic (hw m)) (take (nat (sint (ncpu m))) (map c_apicid (cpus m)))" for m
    by (simp add: ref_this_def take_map scan_map)
  with assms show ?thesis by (simp add: put_cpu_def map_upd_nth)
qed

lemma ref_set_simps [simp]:
  "ref_this (ref_set_if b m) = ref_this m"
  "ref_this (ref_set_owner l x m) = ref_this m"
  "cpus (ref_set_if b m) = cpus m"
  "cpus (ref_set_owner l x m) = cpus m"
  "ifl (hw (ref_set_if b m)) = b"
  "ifl (hw (ref_set_owner l x m)) = ifl (hw m)"
  "owner (hw (ref_set_if b m)) = owner (hw m)"
  "owner (hw (ref_set_owner l x m)) = (owner (hw m))(l := x)"
  "hw (put_cpu i f m) = hw m"
  "cpus (put_cpu i f m) = upd_nth i f (cpus m)"
  by (simp_all add: ref_this_def ref_set_if_def ref_set_owner_def put_cpu_def)

lemma lock_view_of:
  "lock_view (ref_ext_of al fr) m c n H P \<longleftrightarrow>
     ref_this m = Some c \<and> c_ncli (cpus m ! c) = of_nat n \<and> n \<le> max_depth \<and>
     H = {l. owner (hw m) l = Some c} \<and> map c_proc (cpus m) = P \<and> (0 < n \<longrightarrow> \<not> ifl (hw m))"
  by (auto simp: lock_view_def ref_holding_def irq_off_def)

lemma ref_push_view:
  assumes "lock_view (ref_ext_of al fr) m c n H P" and "n < max_depth"
  shows "\<exists>m'. ref_pushcli m = Ret m' \<and> lock_view (ref_ext_of al fr) m' c (Suc n) H P \<and>
           owner (hw m') = owner (hw m)"
proof -
  have "c < length (cpus m)" using assms(1) by (auto simp: lock_view_of dest: ref_this_less)
  with assms show ?thesis
    by (auto simp: lock_view_of ref_pushcli_def ref_this_put map_upd_nth add.commute)
qed

lemma sint_depth: "n \<le> max_depth \<Longrightarrow> \<not> slt (of_nat n) 0"
  using sint_eq_unat_if_small [of "of_nat n"]
  by (simp add: max_depth_def unat_of_nat)

lemma ref_pop_view:
  assumes "lock_view (ref_ext_of al fr) m c (Suc n) H P"
  shows "\<exists>m'. ref_popcli m = Ret m' \<and> lock_view (ref_ext_of al fr) m' c n H P"
proof -
  have c: "c < length (cpus m)" using assms(1) by (auto simp: lock_view_of dest: ref_this_less)
  have n: "\<not> slt (of_nat n) 0" "n \<le> max_depth"
    using assms sint_depth [of n] by (auto simp: lock_view_of)
  have z: "(of_nat n :: i32) = 0 \<longleftrightarrow> n = 0"
    using n(2) by (simp add: word_of_nat_eq_0_iff max_depth_def) (auto dest: nat_dvd_not_less)
  show ?thesis
    using assms c n z
    by (auto simp: lock_view_of ref_popcli_def ref_this_put map_upd_nth Let_def)
qed

lemma ref_acquire_view:
  assumes "lock_view (ref_ext_of al fr) m c n H P" and "l \<notin> H" and "n < max_depth"
  shows "\<exists>m'. ref_acquire l m = Ret m' \<and> lock_view (ref_ext_of al fr) m' c (Suc n) (insert l H) P"
proof -
  from ref_push_view [OF assms(1,3)] obtain m1
    where m1: "ref_pushcli m = Ret m1" "lock_view (ref_ext_of al fr) m1 c (Suc n) H P" by blast
  then have "\<not> ref_holding l m1" using assms(2) by (auto simp: lock_view_of ref_holding_def)
  with m1 show ?thesis by (auto simp: ref_acquire_def lock_view_of)
qed

lemma ref_release_view:
  assumes "lock_view (ref_ext_of al fr) m c (Suc n) H P" and "l \<in> H"
  shows "\<exists>m'. ref_release l m = Ret m' \<and> lock_view (ref_ext_of al fr) m' c n (H - {l}) P"
proof -
  have "ref_holding l m" using assms by (auto simp: lock_view_of ref_holding_def)
  moreover have "lock_view (ref_ext_of al fr) (ref_set_owner l None m) c (Suc n) (H - {l}) P"
    using assms by (auto simp: lock_view_of)
  ultimately show ?thesis
    using ref_pop_view by (auto simp: ref_release_def)
qed

interpretation refof: kernel_env "ref_ext_of al fr" for al fr
proof unfold_locales
  show "\<exists>m'. pushcli (ref_ext_of al fr) m = Ret m' \<and> lock_view (ref_ext_of al fr) m' c (Suc n) H P"
    if "lock_view (ref_ext_of al fr) m c n H P" "n < max_depth" for m c n H P
    using ref_push_view [OF that] by auto
  show "\<exists>m'. popcli (ref_ext_of al fr) m = Ret m' \<and> lock_view (ref_ext_of al fr) m' c n H P"
    if "lock_view (ref_ext_of al fr) m c (Suc n) H P" for m c n H P
    using ref_pop_view [OF that] by simp
  show "\<exists>m'. acquire (ref_ext_of al fr) l m = Ret m' \<and> lock_view (ref_ext_of al fr) m' c (Suc n) (insert l H) P"
    if "lock_view (ref_ext_of al fr) m c n H P" "l \<notin> H" "n < max_depth" for m c n H P l
    using ref_acquire_view [OF that] by simp
  show "\<exists>m'. release (ref_ext_of al fr) l m = Ret m' \<and> lock_view (ref_ext_of al fr) m' c n (H - {l}) P"
    if "lock_view (ref_ext_of al fr) m c (Suc n) H P" "l \<in> H" for m c n H P l
    using ref_release_view [OF that] by simp
  show "lock_view (ref_ext_of al fr) (sti (ref_ext_of al fr) m) c 0 {} P"
    if "lock_view (ref_ext_of al fr) m c 0 {} P" for m c P
    using that by (simp add: lock_view_of)
qed (simp_all add: ref_holding_def ref_this_put)

text \<open>With the page supply as its world.\<close>

definition ref_ext :: "(ref_hw, nat) ext" where
  "ref_ext = ref_ext_of ref_alloc (\<lambda>_ w. Ret (w + 1))"

lemmas ref_ext_simps [simp] = ref_ext_of_simps [of ref_alloc "\<lambda>_ w. Ret (w + 1)", folded ref_ext_def]
lemmas this_cpu_ref [simp] = this_cpu_of [of ref_alloc "\<lambda>_ w. Ret (w + 1)", folded ref_ext_def]
lemmas lock_view_ref = lock_view_of [of ref_alloc "\<lambda>_ w. Ret (w + 1)", folded ref_ext_def]

interpretation ref: kernel_env ref_ext
  unfolding ref_ext_def by (rule refof.kernel_env_axioms)

section \<open>A concrete kernel state\<close>

text \<open>
  Two CPUs; CPU 0 runs process 1, a shell whose parent is init (process 0, asleep in
  \<open>wait\<close>); process 2 is a zombie child of the shell, process 3 sleeps on the tick counter.
\<close>

definition demo_proc :: "procstate \<Rightarrow> i32 \<Rightarrow> nat option \<Rightarrow> chan \<Rightarrow> i32 \<Rightarrow> proc" where
  "demo_proc st pid par ch tk =
     zero_proc\<lparr>p_state := st, p_pid := pid, p_parent := par, p_chan := ch, p_tickets := tk\<rparr>"

definition demo_ptable :: "proc list" where
  "demo_ptable =
     [demo_proc SLEEPING 1 None (ChanProc 0) 5, demo_proc RUNNING 2 (Some 0) ChanNull 8,
      demo_proc ZOMBIE 3 (Some 1) ChanNull 8, demo_proc SLEEPING 4 (Some 1) ChanTicks 8]
     @ replicate 60 zero_proc"

definition demo_mach :: ref_mach where
  "demo_mach =
     \<lparr>cpus = [\<lparr>c_apicid = 0, c_scheduler = 0, c_ncli = 0, c_intena = 0, c_proc = Some 1\<rparr>,
              \<lparr>c_apicid = 1, c_scheduler = 0, c_ncli = 0, c_intena = 0, c_proc = None\<rparr>],
      ncpu = 2, hw = \<lparr>ifl = True, apic = 0, owner = (\<lambda>_. None)\<rparr>\<rparr>"

definition demo_kst :: ref_kst where
  "demo_kst =
     \<lparr>ptable = demo_ptable, initproc = Some 0, nextpid = 5, forkret_first = False, seed = 1,
      ticks = 0,
      tfs = (\<lambda>_. \<lparr>tf_eax = 1, tf_esp = 0, tf_eip = 0, tf_eflags = 0, tf_cs = 0, tf_ds = 0,
                  tf_es = 0, tf_ss = 0, tf_rest = []\<rparr>),
      ctxs = (\<lambda>_. \<lparr>ctx_edi = 0, ctx_esi = 0, ctx_ebx = 0, ctx_ebp = 0, ctx_eip = 0\<rparr>),
      stack_words = (\<lambda>_. 0), mach = demo_mach, world = 10\<rparr>"

lemma demo_kst_simps [simp]:
  "ptable demo_kst = demo_ptable" "initproc demo_kst = Some 0" "nextpid demo_kst = 5"
  "mach demo_kst = demo_mach" "world demo_kst = 10"
  by (simp_all add: demo_kst_def)

lemma length_demo_ptable [simp]: "length demo_ptable = 64"
  by (simp add: demo_ptable_def)

lemma demo_procs [simp]:
  "demo_ptable ! 0 = demo_proc SLEEPING 1 None (ChanProc 0) 5"
  "demo_ptable ! 1 = demo_proc RUNNING 2 (Some 0) ChanNull 8"
  "demo_ptable ! Suc 0 = demo_proc RUNNING 2 (Some 0) ChanNull 8"
  "demo_ptable ! 2 = demo_proc ZOMBIE 3 (Some 1) ChanNull 8"
  "demo_ptable ! 3 = demo_proc SLEEPING 4 (Some 1) ChanTicks 8"
  by (simp_all add: demo_ptable_def)

lemma demo_proc_simps [simp]:
  "p_state (demo_proc st pid par ch tk) = st" "p_pid (demo_proc st pid par ch tk) = pid"
  "p_parent (demo_proc st pid par ch tk) = par" "p_chan (demo_proc st pid par ch tk) = ch"
  "p_tickets (demo_proc st pid par ch tk) = tk"
  "length (p_ofile (demo_proc st pid par ch tk)) = NOFILE"
  "p_killed (demo_proc st pid par ch tk) = 0"
  by (simp_all add: demo_proc_def zero_proc_def)

lemma demo_view: "lock_view ref_ext demo_mach 0 0 {} [Some 1, None]"
  by (simp add: lock_view_ref demo_mach_def ref_this_def)

lemma demo_free_slot: "scan (\<lambda>p. p_state p = UNUSED) demo_ptable = Some 4"
  by (simp add: demo_ptable_def numeral_eq_Suc zero_proc_def)

lemma demo_zombie: "scan (\<lambda>p. p_parent p = Some 1 \<and> p_state p = ZOMBIE) demo_ptable = Some 2"
  by (simp add: demo_ptable_def numeral_eq_Suc)

lemma demo_pid: "scan (\<lambda>p. p_pid p = 4) demo_ptable = Some 3"
  by (simp add: demo_ptable_def)

end
