(* ===== verification/Lottery_Sched.thy ===== *)
theory Lottery_Sched
  imports Lottery_Proc
begin

text \<open>
  The lottery itself: what the two loops of \<open>scheduler\<close> (Lab2 \<open>proc.c\<close>) compute.

  The specification is a ticket drum: every process owns as many consecutive tickets as its
  weight, in table order, and the drawn number picks the owner of that ticket. The locale
  \<open>weighted_choice\<close> states this contract for any picking function and derives what a
  client may rely on (the picked index is valid and has positive weight; each index is picked
  by exactly as many numbers as its weight). Its interpretation on \<open>find_winner\<close> is the
  refinement proof of the scheduler's loop.
\<close>

section \<open>The ticket drum\<close>

fun drum_from :: "nat \<Rightarrow> ('a \<Rightarrow> nat) \<Rightarrow> 'a list \<Rightarrow> nat list" where
  "drum_from i wt [] = []"
| "drum_from i wt (x # xs) = replicate (wt x) i @ drum_from (Suc i) wt xs"

abbreviation drum :: "('a \<Rightarrow> nat) \<Rightarrow> 'a list \<Rightarrow> nat list" where
  "drum \<equiv> drum_from 0"

lemma length_drum_from [simp]: "length (drum_from i wt xs) = sum_list (map wt xs)"
  by (induction xs arbitrary: i) auto

lemma set_drum_from:
  "set (drum_from i wt xs) = {i + k |k. k < length xs \<and> 0 < wt (xs ! k)}"
proof (induction xs arbitrary: i)
  case Nil
  then show ?case by simp
next
  case (Cons x xs)
  have "{i + k |k. k < length (x # xs) \<and> 0 < wt ((x # xs) ! k)} =
        {i |u. 0 < wt x} \<union> {Suc i + k |k. k < length xs \<and> 0 < wt (xs ! k)}"
    by (force simp: less_Suc_eq_0_disj)
  with Cons.IH show ?case by (auto simp: set_replicate_conv_if)
qed

lemma count_drum_from:
  "count_list (drum_from i wt xs) j =
     (if i \<le> j \<and> j < i + length xs then wt (xs ! (j - i)) else 0)"
proof (induction xs arbitrary: i j)
  case Nil
  then show ?case by simp
next
  case (Cons x xs)
  have rep: "count_list (replicate n a) b = (if a = b then n else 0)" for n and a b :: nat
    by (induction n) auto
  consider "j < i" | "j = i" | d where "j = Suc (i + d)"
    using less_imp_Suc_add linorder_less_linear by blast
  then show ?case
    by cases (simp_all add: Cons.IH rep)
qed

lemma card_positions: "card {w. w < length xs \<and> xs ! w = a} = count_list xs a"
proof (induction xs rule: rev_induct)
  case Nil
  then show ?case by simp
next
  case (snoc x xs)
  have "{w. w < length (xs @ [x]) \<and> (xs @ [x]) ! w = a} =
        {w. w < length xs \<and> xs ! w = a} \<union> (if x = a then {length xs} else {})"
    by (auto simp: nth_append less_Suc_eq)
  with snoc show ?case by (auto simp: card_insert_if)
qed

locale weighted_choice =
  fixes weight :: "'a \<Rightarrow> nat"
    and safe :: "'a list \<Rightarrow> bool"
    and pick :: "'a list \<Rightarrow> nat \<Rightarrow> nat option outcome"
  assumes pick_drum:
    "safe xs \<Longrightarrow> w < sum_list (map weight xs) \<Longrightarrow> pick xs w = Ret (Some (drum weight xs ! w))"
begin

lemma pick_valid:
  assumes "safe xs" and "w < sum_list (map weight xs)"
  shows "\<exists>i < length xs. pick xs w = Ret (Some i) \<and> 0 < weight (xs ! i)"
proof -
  have "drum weight xs ! w \<in> set (drum weight xs)"
    using assms(2) by (simp add: nth_mem)
  then show ?thesis
    using pick_drum [OF assms] by (auto simp: set_drum_from)
qed

lemma pick_share:
  assumes "safe xs" and "i < length xs"
  shows "card {w. w < sum_list (map weight xs) \<and> pick xs w = Ret (Some i)} = weight (xs ! i)"
proof -
  have "{w. w < sum_list (map weight xs) \<and> pick xs w = Ret (Some i)} =
        {w. w < length (drum weight xs) \<and> drum weight xs ! w = i}"
    using pick_drum [OF assms(1)] by auto
  then show ?thesis
    using assms(2) by (simp only: card_positions count_drum_from) simp
qed

end

section \<open>The scheduler's loops\<close>

text \<open>The weight of a process in the draw: its tickets if it is runnable, else nothing.\<close>

definition lottery_weight :: "proc \<Rightarrow> nat" where
  "lottery_weight p = (if p_state p = RUNNABLE then unat (p_tickets p) else 0)"

abbreviation total_weight :: "proc list \<Rightarrow> nat" where
  "total_weight ps \<equiv> sum_list (map lottery_weight ps)"

text \<open>The \<open>int\<close> sums of the code do not overflow on this table.\<close>

definition no_overflow :: "proc list \<Rightarrow> bool" where
  "no_overflow ps \<longleftrightarrow> total_weight ps < 2 ^ 31"

lemma count_tickets_eq:
  assumes "\<forall>p \<in> set ps. lottery_weight p < 2 ^ 31" and "unat tot < 2 ^ 31"
  shows "count_tickets tot ps =
     (if unat tot + total_weight ps < 2 ^ 31 then Ret (tot + of_nat (total_weight ps))
      else Undef ''signed overflow'')"
  using assms
proof (induction ps arbitrary: tot)
  case Nil
  then show ?case by simp
next
  case (Cons p ps)
  show ?case
  proof (cases "p_state p = RUNNABLE")
    case True
    then have w: "lottery_weight p = unat (p_tickets p)" by (simp add: lottery_weight_def)
    have "unat (p_tickets p) < 2 ^ 31" using Cons.prems(1) w by simp
    note add = sadd_nonneg [OF Cons.prems(2) this]
    show ?thesis
    proof (cases "unat tot + unat (p_tickets p) < 2 ^ 31")
      case small: True
      then have u: "unat (tot + p_tickets p) = unat tot + unat (p_tickets p)"
        by (intro unat_add_no_overflow) simp
      with Cons.IH [of "tot + p_tickets p"] Cons.prems(1) small add True w
      show ?thesis by (simp add: add.assoc)
    next
      case False
      with add True w show ?thesis by simp
    qed
  next
    case False
    then have "lottery_weight p = 0" by (simp add: lottery_weight_def)
    with False Cons show ?thesis by simp
  qed
qed

lemma slt_small:
  "unat a < 2 ^ 31 \<Longrightarrow> unat b < 2 ^ 31 \<Longrightarrow> slt a b \<longleftrightarrow> unat a < unat b"
  by (simp only: sint_eq_unat_if_small of_nat_less_iff)

lemma find_winner_drum:
  assumes "unat counter + total_weight ps < 2 ^ 31"
    and "unat counter \<le> unat winner" and "unat winner < unat counter + total_weight ps"
  shows "find_winner i counter winner ps =
           Ret (Some (drum_from i lottery_weight ps ! (unat winner - unat counter)))"
  using assms
proof (induction ps arbitrary: i counter)
  case Nil
  then show ?case by simp
next
  case (Cons p ps)
  show ?case
  proof (cases "p_state p = RUNNABLE")
    case False
    with Cons show ?thesis by (simp add: lottery_weight_def)
  next
    case True
    let ?c = "counter + p_tickets p"
    have w: "lottery_weight p = unat (p_tickets p)"
      using True by (simp add: lottery_weight_def)
    have u: "unat ?c = unat counter + unat (p_tickets p)"
      using Cons.prems(1) w by (intro unat_add_no_overflow) simp
    have add: "sadd counter (p_tickets p) = Ret ?c"
      using Cons.prems(1) w sadd_nonneg [of counter "p_tickets p"] by simp
    have lt: "slt winner ?c \<longleftrightarrow> unat winner < unat ?c"
      using Cons.prems u w by (intro slt_small) auto
    show ?thesis
    proof (cases "unat winner < unat ?c")
      case True
      then have "unat winner - unat counter < unat (p_tickets p)"
        using u Cons.prems(2) by linarith
      with True \<open>p_state p = RUNNABLE\<close> lt w add show ?thesis
        by (simp add: nth_append)
    next
      case False
      have "find_winner (Suc i) ?c winner ps =
              Ret (Some (drum_from (Suc i) lottery_weight ps ! (unat winner - unat ?c)))"
        using Cons.prems False u w by (intro Cons.IH) auto
      moreover have "\<not> unat winner - unat counter < unat (p_tickets p)"
        using False u by linarith
      ultimately show ?thesis
        using False \<open>p_state p = RUNNABLE\<close> lt u w add by (simp add: nth_append)
    qed
  qed
qed

text \<open>The scheduler's second loop implements the weighted choice.\<close>

interpretation lot: weighted_choice lottery_weight no_overflow
    "\<lambda>ps w. find_winner 0 0 (of_nat w) ps"
proof
  fix ps :: "proc list" and w :: nat
  assume "no_overflow ps" and w: "w < total_weight ps"
  then have t: "total_weight ps < 2 ^ 31" by (simp add: no_overflow_def)
  have "unat (of_nat w :: i32) = w"
    using w t by (simp add: unat_of_nat)
  with find_winner_drum [of 0 ps "of_nat w" 0] t w
  show "find_winner 0 0 (of_nat w) ps = Ret (Some (drum lottery_weight ps ! w))" by simp
qed

section \<open>What the lottery guarantees\<close>

lemma no_overflow_weights:
  assumes "no_overflow ps"
  shows "\<forall>p \<in> set ps. lottery_weight p < 2 ^ 31"
proof
  fix p assume "p \<in> set ps"
  then have "lottery_weight p \<le> total_weight ps" by (intro member_le_sum_list) auto
  also have "\<dots> < 2 ^ 31" using assms unfolding no_overflow_def .
  finally show "lottery_weight p < 2 ^ 31" .
qed

lemma count_tickets_total:
  assumes "no_overflow ps"
  shows "\<exists>t. count_tickets 0 ps = Ret t \<and> unat t = total_weight ps \<and> unat t < 2 ^ 31"
  using count_tickets_eq [OF no_overflow_weights [OF assms], of 0] assms
  by (simp add: no_overflow_def unat_of_nat take_bit_nat_eq_self_iff)

lemma minus_one_not_max: "(x::u32) \<noteq> 0 \<Longrightarrow> x - 1 \<noteq> 0xFFFFFFFF"
proof
  assume nz: "x \<noteq> 0" and "x - 1 = 0xFFFFFFFF"
  then have "x = 0xFFFFFFFF + 1" by (simp only: diff_eq_eq)
  also have "\<dots> = 0" by simp
  finally show False using nz by contradiction
qed

text \<open>The draw on a table with tickets: the number drawn and the process it selects.\<close>

lemma lottery_run:
  assumes safe: "no_overflow ps" and pos: "0 < total_weight ps" and t: "count_tickets 0 ps = Ret t"
    and draw: "random_at_most (t - 1) sd = Ret (w, sd')" and bound: "w \<le> t - 1"
  shows "unat w < total_weight ps"
    and "lottery sd ps = Ret (Some (drum lottery_weight ps ! unat w), sd')"
proof -
  have u: "unat t = total_weight ps" "unat t < 2 ^ 31" using count_tickets_total [OF safe] t by auto
  have nz: "t \<noteq> 0" using u(1) pos by (metis unat_0 less_irrefl)
  have "unat (t - 1) = total_weight ps - 1" using nz pos by (simp add: unat_minus_one u(1))
  with bound pos show w: "unat w < total_weight ps"
    by (simp add: word_le_nat_alt)
  then have "find_winner 0 0 w ps = Ret (Some (drum lottery_weight ps ! unat w))"
    using lot.pick_drum [OF safe w] by simp
  with nz t draw sadd_pred [OF nz u(2)] show "lottery sd ps = Ret (Some (drum lottery_weight ps ! unat w), sd')"
    by (simp add: lottery_def)
qed

lemma lottery_draw:
  assumes "no_overflow ps" and "0 < total_weight ps"
  shows "\<exists>t w sd'. count_tickets 0 ps = Ret t \<and> unat t = total_weight ps \<and>
           random_at_most (t - 1) sd = Ret (w, sd') \<and> w \<le> t - 1"
proof -
  obtain t where t: "count_tickets 0 ps = Ret t" "unat t = total_weight ps"
    using count_tickets_total [OF assms(1)] by blast
  then have "t \<noteq> 0" using assms(2) by (metis unat_0 less_irrefl)
  with t random_at_most_range [OF minus_one_not_max, of t sd] show ?thesis by blast
qed

text \<open>
  (C1) When the ticket sum of the runnable processes fits an \<open>int\<close> and is positive, one round
  of the lottery counts that sum, draws a number below it and selects exactly the process that
  owns this ticket in table order.
\<close>

theorem lottery_draws_ticket_owner:
  assumes "no_overflow ps" and "0 < total_weight ps"
  shows "\<exists>t w sd'. count_tickets 0 ps = Ret t \<and> unat t = total_weight ps \<and>
           random_at_most (t - 1) sd = Ret (w, sd') \<and> unat w < total_weight ps \<and>
           lottery sd ps = Ret (Some (drum lottery_weight ps ! unat w), sd')"
proof -
  from lottery_draw [OF assms, of sd] obtain t w sd' where "count_tickets 0 ps = Ret t"
    "unat t = total_weight ps" "random_at_most (t - 1) sd = Ret (w, sd')" "w \<le> t - 1" by blast
  with lottery_run [OF assms] show ?thesis by blast
qed

text \<open>A table of three processes, of which the second sleeps, for the examples below.\<close>

definition demo_table :: "proc list" where
  "demo_table =
     [zero_proc\<lparr>p_state := RUNNABLE, p_pid := 1, p_tickets := 5\<rparr>,
      zero_proc\<lparr>p_state := SLEEPING, p_pid := 2, p_tickets := 7\<rparr>,
      zero_proc\<lparr>p_state := RUNNABLE, p_pid := 3, p_tickets := 3\<rparr>]"

lemma demo_table_weights:
  "total_weight demo_table = 8" "no_overflow demo_table" "length demo_table = 3"
  by (simp_all add: demo_table_def no_overflow_def lottery_weight_def)

lemma demo_table_2: "p_state (demo_table ! 2) = RUNNABLE" "p_tickets (demo_table ! 2) = 3"
  by (simp_all add: demo_table_def eval_nat_numeral)

theorem lottery_draws_ticket_owner_witness:
  "\<exists>t w sd'. count_tickets 0 demo_table = Ret t \<and> unat t = total_weight demo_table \<and>
     random_at_most (t - 1) 1 = Ret (w, sd') \<and> unat w < total_weight demo_table \<and>
     lottery 1 demo_table = Ret (Some (drum lottery_weight demo_table ! unat w), sd')"
  by (rule lottery_draws_ticket_owner) (simp_all add: demo_table_weights)

text \<open>
  (C2) The draw is proportional: of the numbers below the ticket sum, exactly as many select
  process \<open>i\<close> as it has tickets, if it is runnable, and none otherwise.
\<close>

theorem lottery_proportional:
  assumes "no_overflow ps" and "i < length ps"
  shows "card {w. w < total_weight ps \<and> find_winner 0 0 (of_nat w) ps = Ret (Some i)} =
         (if p_state (ps ! i) = RUNNABLE then unat (p_tickets (ps ! i)) else 0)"
  using lot.pick_share [OF assms] by (simp add: lottery_weight_def)

theorem lottery_proportional_witness:
  "card {w. w < total_weight demo_table \<and> find_winner 0 0 (of_nat w) demo_table = Ret (Some 2)} = 3"
proof -
  have "no_overflow demo_table" and "2 < length demo_table"
    by (simp_all add: demo_table_weights)
  from lottery_proportional [OF this] show ?thesis
    by (simp add: demo_table_2)
qed

lemma total_weight_pos:
  assumes "i < length ps" and "p_state (ps ! i) = RUNNABLE" and "p_tickets (ps ! i) \<noteq> 0"
  shows "0 < total_weight ps"
proof -
  have "0 < lottery_weight (ps ! i)"
    using assms(2,3) by (simp add: lottery_weight_def unat_gt_0)
  moreover have "lottery_weight (ps ! i) \<le> total_weight ps"
    using assms(1) by (simp add: member_le_sum_list)
  ultimately show ?thesis by (rule less_le_trans)
qed

lemma lottery_selects:
  assumes safe: "no_overflow ps" and "i < length ps"
    and "p_state (ps ! i) = RUNNABLE" and "p_tickets (ps ! i) \<noteq> 0"
  shows "\<exists>j sd'. lottery sd ps = Ret (Some j, sd') \<and> j < length ps \<and>
           p_state (ps ! j) = RUNNABLE \<and> p_tickets (ps ! j) \<noteq> 0"
proof -
  have pos: "0 < total_weight ps" using assms(2-4) by (rule total_weight_pos)
  from lottery_draw [OF safe pos, of sd] obtain t w sd' where "count_tickets 0 ps = Ret t"
    "random_at_most (t - 1) sd = Ret (w, sd')" "w \<le> t - 1" by blast
  note run = lottery_run [OF safe pos this]
  obtain j where j: "j < length ps" "drum lottery_weight ps ! unat w = j"
    "0 < lottery_weight (ps ! j)"
    using lot.pick_valid [OF safe run(1)] lot.pick_drum [OF safe run(1)] by auto
  then have "p_state (ps ! j) = RUNNABLE" "p_tickets (ps ! j) \<noteq> 0"
    by (auto simp: lottery_weight_def split: if_splits)
  with j run(2) show ?thesis by blast
qed

text \<open>
  No wasted round: if some process is runnable and holds a ticket, and the ticket sum
  fits an \<open>int\<close>, the round selects a process, and that process is runnable and holds a ticket.
\<close>

theorem lottery_progress:
  assumes safe: "no_overflow ps" and "i < length ps"
    and "p_state (ps ! i) = RUNNABLE" and "p_tickets (ps ! i) \<noteq> 0"
  shows "\<exists>j sd'. lottery sd ps = Ret (Some j, sd') \<and> j < length ps \<and>
           p_state (ps ! j) = RUNNABLE \<and> p_tickets (ps ! j) \<noteq> 0"
  by (rule lottery_selects [OF assms])

theorem lottery_progress_witness:
  "\<exists>j sd'. lottery 7 demo_table = Ret (Some j, sd') \<and> j < length demo_table \<and>
     p_state (demo_table ! j) = RUNNABLE \<and> p_tickets (demo_table ! j) \<noteq> 0"
proof -
  have "no_overflow demo_table" and "2 < length demo_table"
    by (simp_all add: demo_table_weights)
  moreover have "p_state (demo_table ! 2) = RUNNABLE" and "p_tickets (demo_table ! 2) \<noteq> 0"
    by (simp_all add: demo_table_2)
  ultimately show ?thesis by (rule lottery_progress)
qed

text \<open>
  Every runnable ticket holder can win: for each such process there is a state of the
  generator from which the round selects it.
\<close>

theorem lottery_every_holder_can_win:
  assumes safe: "no_overflow ps" and i: "i < length ps"
    and "p_state (ps ! i) = RUNNABLE" and "p_tickets (ps ! i) \<noteq> 0"
  shows "\<exists>sd sd'. lottery sd ps = Ret (Some i, sd')"
proof -
  have pos: "0 < total_weight ps" using assms(2-4) by (rule total_weight_pos)
  have "i \<in> set (drum lottery_weight ps)"
    using i assms(3,4) by (auto simp: set_drum_from lottery_weight_def unat_gt_0)
  then obtain k where k: "k < total_weight ps" "drum lottery_weight ps ! k = i"
    by (metis in_set_conv_nth length_drum_from)
  have u: "unat (of_nat k :: u32) = k"
    using k(1) safe by (simp add: no_overflow_def unat_of_nat)
  obtain t where t: "count_tickets 0 ps = Ret t" "unat t = total_weight ps"
    using count_tickets_total [OF safe] by blast
  have nz: "t \<noteq> 0" using t(2) pos by (metis unat_0 less_irrefl)
  have le: "of_nat k \<le> t - 1"
    using k(1) nz by (simp add: word_le_nat_alt u unat_minus_one t(2))
  from random_at_most_onto [OF le minus_one_not_max [OF nz]] obtain sd sd'
    where "random_at_most (t - 1) sd = Ret (of_nat k, sd')" by blast
  from lottery_run(2) [OF safe pos t(1) this le] k(2) u show ?thesis by auto
qed

theorem lottery_every_holder_can_win_witness:
  "\<exists>sd sd'. lottery sd demo_table = Ret (Some 2, sd')"
proof -
  have "no_overflow demo_table" and "2 < length demo_table"
    by (simp_all add: demo_table_weights)
  moreover have "p_state (demo_table ! 2) = RUNNABLE" and "p_tickets (demo_table ! 2) \<noteq> 0"
    by (simp_all add: demo_table_2)
  ultimately show ?thesis by (rule lottery_every_holder_can_win)
qed

text \<open>
  Without that bound, on tickets that are not negative, the count leaves the \<open>int\<close> range.
\<close>

lemma lottery_overflow:
  assumes "\<forall>p \<in> set ps. lottery_weight p < 2 ^ 31" and "\<not> no_overflow ps"
  shows "lottery sd ps = Undef ''signed overflow''"
  using count_tickets_eq [OF assms(1), of 0] assms(2) by (simp add: lottery_def no_overflow_def)

end
