(* ===== verification/Lottery_Kernel.thy ===== *)
theory Lottery_Kernel
  imports Lottery_Machine Lottery_Sched
begin

text \<open>
  The contracts of the process system calls of the lottery kernel, for every machine that
  satisfies the lock laws: what each routine returns, what it does to the process table on
  each of its branches, and that it leaves the locks and the nesting depth as it found them.
  Each contract is then run on the reference machine.
\<close>

section \<open>Tickets and the table snapshot\<close>

text \<open>\<open>settickets\<close> refuses a number below one without touching the kernel, and otherwise
  sets the caller's ticket count, and only that, and returns 0 with the locks as before.\<close>

theorem settickets_correct:
  assumes "spinlock_laws E" and "lock_view E (mach s) c n H P" and "n < max_depth"
    and "PtableLock \<notin> H" and "P ! c = Some i"
  shows "if sint number < 1 then settickets E number s = Ret (- 1, s)
         else \<exists>m. lock_view E m c n H P \<and>
                settickets E number s =
                  Ret (0, (upd_proc i (\<lambda>p. p\<lparr>p_tickets := number\<rparr>) s)\<lparr>mach := m\<rparr>)"
  using spinlock_laws.settickets_run [OF assms, of number] by (auto simp: settickets_def)

text \<open>\<open>getpinfo\<close> on a null pointer returns -1; otherwise the structure it fills is exactly
  the table at that moment, slot by slot, whatever it held before, and the kernel state does
  not change.\<close>

theorem getpinfo_correct:
  assumes "spinlock_laws E" and "lock_view E (mach s) c n H P" and "n < max_depth"
    and "PtableLock \<notin> H" and "length (ptable s) = NPROC" and "pstat_sized NPROC q"
  shows "getpinfo E None s = Ret (- 1, None, s) \<and>
         (\<exists>m. lock_view E m c n H P \<and>
              getpinfo E (Some q) s = Ret (0, Some (pstat_of (ptable s)), s\<lparr>mach := m\<rparr>))"
  using spinlock_laws.getpinfo_run [OF assms(1-4), of q] fill_clear_pstat [of "ptable s" q] assms(5,6)
  by (auto simp: getpinfo_def)

lemma settickets_weights:
  assumes "i < length (ptable s)" and "p_state (proc_at s i) = RUNNING" and "0 < sint number"
    and t: "ptable t = ptable (upd_proc i (\<lambda>p. p\<lparr>p_tickets := number\<rparr>) s)"
  shows "total_weight (ptable (upd_proc i (\<lambda>p. p\<lparr>p_state := RUNNABLE\<rparr>) t)) =
           unat number + total_weight (ptable s)"
proof -
  let ?p = "(proc_at s i)\<lparr>p_tickets := number, p_state := RUNNABLE\<rparr>"
  have "ptable (upd_proc i (\<lambda>p. p\<lparr>p_state := RUNNABLE\<rparr>) t) = (ptable s)[i := ?p]"
    using assms(1) t by (simp add: upd_proc_def upd_nth_def)
  moreover have "lottery_weight ?p = unat number" "lottery_weight (proc_at s i) = 0"
    using assms(2) by (simp_all add: lottery_weight_def)
  ultimately show ?thesis
    using assms(1) by (simp add: map_update sum_list_update)
qed

text \<open>(C3) \<open>settickets\<close> accepts every positive number of tickets, and the \<open>int\<close> sum of the scheduler pays
  for it. Once the caller is runnable again, the round of the lottery selects a runnable process
  with tickets if the number and the tickets of the other runnable processes add up to an \<open>int\<close>;
  if they do not, the sum overflows, which C leaves undefined.\<close>

theorem settickets_overflows_lottery:
  assumes "spinlock_laws E" and "lock_view E (mach s) c n H P" and "n < max_depth"
    and "PtableLock \<notin> H" and "P ! c = Some i" and "i < length (ptable s)"
    and "p_state (proc_at s i) = RUNNING" and "0 < sint number"
    and "\<forall>p \<in> set (ptable s). 0 \<le> sint (p_tickets p)"
  shows "\<exists>t. settickets E number s = Ret (0, t) \<and>
     (let ps = ptable (upd_proc i (\<lambda>p. p\<lparr>p_state := RUNNABLE\<rparr>) t) in
      if unat number + total_weight (ptable s) < 2 ^ 31
      then \<exists>j sd'. lottery sd ps = Ret (Some j, sd') \<and> j < length ps \<and>
             p_state (ps ! j) = RUNNABLE \<and> p_tickets (ps ! j) \<noteq> 0
      else lottery sd ps = Undef ''signed overflow'')"
proof -
  from settickets_correct [OF assms(1-5), of number] assms(8) obtain m where
    t: "settickets E number s = Ret (0, (upd_proc i (\<lambda>p. p\<lparr>p_tickets := number\<rparr>) s)\<lparr>mach := m\<rparr>)"
    by (auto split: if_splits)
  let ?t = "(upd_proc i (\<lambda>p. p\<lparr>p_tickets := number\<rparr>) s)\<lparr>mach := m\<rparr>"
  let ?ps = "ptable (upd_proc i (\<lambda>p. p\<lparr>p_state := RUNNABLE\<rparr>) ?t)"
  have tot: "total_weight ?ps = unat number + total_weight (ptable s)"
    by (rule settickets_weights [OF assms(6-8)]) simp
  have i: "i < length ?ps" "p_state (?ps ! i) = RUNNABLE" "p_tickets (?ps ! i) \<noteq> 0"
    using assms(6,8) by auto
  have "sint (p_tickets p) \<ge> 0" if "p \<in> set ?ps" for p
    using that assms(6,8,9) set_update_subset_insert [of "ptable s" i]
    by (fastforce simp: upd_proc_def upd_nth_def)
  then have "\<forall>p \<in> set ?ps. lottery_weight p < 2 ^ 31"
    using sint_nonneg by (auto simp: lottery_weight_def)
  with t tot i lottery_overflow [of ?ps sd] lottery_selects [of ?ps i sd] show ?thesis
    by (simp add: no_overflow_def Let_def)
qed

text \<open>The shell asks for as many tickets as it can, beside another runnable process.\<close>

definition demo_busy :: ref_kst where
  "demo_busy = demo_kst\<lparr>ptable := demo_ptable[3 := demo_proc RUNNABLE 4 (Some 1) ChanNull 8]\<rparr>"

lemma demo_busy_simps:
  "mach demo_busy = demo_mach" "length (ptable demo_busy) = 64" "p_state (proc_at demo_busy 1) = RUNNING"
  "total_weight (ptable demo_busy) = 8" "\<forall>p \<in> set (ptable demo_busy). 0 \<le> sint (p_tickets p)"
  by (simp_all add: demo_busy_def demo_ptable_def lottery_weight_def zero_proc_def sum_list_replicate)

theorem settickets_overflows_lottery_witness:
  "\<exists>t. settickets ref_ext 0x7FFFFFFF demo_busy = Ret (0, t) \<and>
     lottery 1 (ptable (upd_proc 1 (\<lambda>p. p\<lparr>p_state := RUNNABLE\<rparr>) t)) = Undef ''signed overflow''"
proof -
  have "lock_view ref_ext (mach demo_busy) 0 0 {} [Some 1, None]"
    using demo_view by (simp add: demo_busy_simps(1))
  from settickets_overflows_lottery [OF ref.spinlock_laws_axioms this, of 1 "0x7FFFFFFF" 1] demo_busy_simps
  show ?thesis by (simp add: Let_def)
qed

section \<open>Killing and waking\<close>

text \<open>\<open>kill\<close> returns -1 and changes nothing when no slot has the pid; otherwise it marks
  the first slot with that pid as killed, makes it runnable if it was asleep, touches no
  other slot, and returns 0.\<close>

theorem kill_correct:
  assumes "spinlock_laws E" and "lock_view E (mach s) c n H P" and "n < max_depth"
    and "PtableLock \<notin> H"
  shows "\<exists>m. lock_view E m c n H P \<and>
     kill E pid s =
       (case scan (\<lambda>p. p_pid p = pid) (ptable s) of
          None \<Rightarrow> Ret (- 1, s\<lparr>mach := m\<rparr>)
        | Some i \<Rightarrow>
            Ret (0, (upd_proc i (\<lambda>p. p\<lparr>p_killed := 1,
                      p_state := (if p_state p = SLEEPING then RUNNABLE else p_state p)\<rparr>) s)
                    \<lparr>mach := m\<rparr>))"
proof -
  from spinlock_laws.kill_run [OF assms, of pid] obtain m
    where m: "lock_view E m c n H P" and k: "kill E pid s =
       (case scan (\<lambda>p. p_pid p = pid) (ptable s) of
          None \<Rightarrow> Ret (- 1, s\<lparr>mach := m\<rparr>) | Some i \<Rightarrow> Ret (0, (kill_slot i s)\<lparr>mach := m\<rparr>))"
    by blast
  show ?thesis
  proof (intro exI conjI)
    show "lock_view E m c n H P" by (rule m)
  qed (use k in \<open>auto simp: kill_slot_eq split: option.splits dest: scan_SomeD\<close>)
qed

theorem kill_correct_witness:
  "\<exists>m. kill ref_ext 4 demo_kst =
     Ret (0, (upd_proc 3 (\<lambda>p. p\<lparr>p_killed := 1,
                p_state := (if p_state p = SLEEPING then RUNNABLE else p_state p)\<rparr>) demo_kst)
             \<lparr>mach := m\<rparr>)"
  using kill_correct [of ref_ext demo_kst 0 0 "{}" "[Some 1, None]" 4]
    ref.spinlock_laws_axioms demo_view demo_pid by auto

text \<open>\<open>wakeup\<close> makes runnable exactly the processes asleep on the channel; every other
  slot and every other field stays as it was.\<close>

theorem wakeup_correct:
  assumes "spinlock_laws E" and "lock_view E (mach s) c n H P" and "n < max_depth"
    and "PtableLock \<notin> H"
  shows "\<exists>t. wakeup E ch s = Ret t \<and> lock_view E (mach t) c n H P \<and>
     t = s\<lparr>ptable := ptable t, mach := mach t\<rparr> \<and> length (ptable t) = length (ptable s) \<and>
     (\<forall>j < length (ptable s). proc_at t j =
        (if p_state (proc_at s j) = SLEEPING \<and> p_chan (proc_at s j) = ch
         then (proc_at s j)\<lparr>p_state := RUNNABLE\<rparr> else proc_at s j))"
  using spinlock_laws.wakeup_run [OF assms, of ch]
  by (auto simp: wakeup1_def)

theorem wakeup_correct_witness:
  "\<exists>t. wakeup ref_ext ChanTicks demo_kst = Ret t \<and> p_state (proc_at t 3) = RUNNABLE \<and>
     p_state (proc_at t 0) = SLEEPING"
  using wakeup_correct [of ref_ext demo_kst 0 0 "{}" "[Some 1, None]" ChanTicks]
    ref.spinlock_laws_axioms demo_view by auto

section \<open>Creating, leaving and waiting for processes\<close>

text \<open>(C5) \<open>fork\<close>, when a slot, a kernel stack and a copy of the address space can be had,
  returns the pid it allocated and leaves in the first free slot a runnable child of the
  caller with the caller's tickets, size and name, no ticks, and a trap frame that differs
  from the caller's only in \<open>eax = 0\<close>; no other slot changes.\<close>

theorem fork_correct:
  assumes "kernel_env E" and "lock_view E (mach s) c n H P" and "n < max_depth"
    and "PtableLock \<notin> H" and "P ! c = Some i" and "i < length (ptable s)"
    and "p_state (proc_at s i) \<noteq> UNUSED"
    and "scan (\<lambda>p. p_state p = UNUSED) (ptable s) = Some j"
    and "kalloc E (world s) = Ret (k, w1)" and "k \<noteq> 0"
    and "copyuvm E (p_pgdir (proc_at s i)) (p_sz (proc_at s i)) w1 = Ret (pg, w2)" and "pg \<noteq> 0"
  shows "\<exists>t. fork E s = Ret (nextpid s, t) \<and> lock_view E (mach t) c n H P \<and>
           forked_child E i j k pg s t \<and> length (ptable t) = length (ptable s) \<and>
           (\<forall>q. q < length (ptable s) \<longrightarrow> q \<noteq> j \<longrightarrow> proc_at t q = proc_at s q) \<and>
           nextpid t = nextpid s + 1 \<and> initproc t = initproc s"
  by (rule kernel_env.fork_run [OF assms])

theorem fork_correct_witness:
  "\<exists>t. fork ref_ext demo_kst = Ret (5, t) \<and> forked_child ref_ext 1 4 40960 36864 demo_kst t \<and>
     proc_at t 1 = proc_at demo_kst 1 \<and> nextpid t = 6"
  using fork_correct [of ref_ext demo_kst 0 0 "{}" "[Some 1, None]" 1 4 40960 9 36864 8]
    ref.kernel_env_axioms demo_view demo_free_slot by (auto simp: ref_alloc_def)

text \<open>(C6) \<open>exit\<close> of a process other than init hands to the scheduler a table in which the
  caller is a zombie with every file closed and no directory, its children belong to init,
  and its parent (and init, when a zombie was passed to it) has been woken; the switch is
  made with only the table lock held, and a return from it is a panic.\<close>

theorem exit_correct:
  assumes "kernel_env E" and "lock_view E (mach s) c 0 {} P" and "P ! c = Some i"
    and "i < length (ptable s)" and "length (p_ofile (proc_at s i)) = NOFILE"
    and "initproc s \<noteq> Some i"
  shows "\<exists>u. at_switch E (mach u) c P \<and>
     (\<forall>sw. exit E sw s = obind (sw u) (\<lambda>t. obind (mycpu E (mach t)) (\<lambda>_. Panic ''zombie exit''))) \<and>
     p_state (proc_at u i) = ZOMBIE \<and> p_ofile (proc_at u i) = replicate NOFILE 0 \<and>
     p_cwd (proc_at u i) = 0 \<and> length (ptable u) = length (ptable s) \<and>
     (\<forall>j. j < length (ptable s) \<longrightarrow> j \<noteq> i \<longrightarrow>
        proc_at u j =
          (proc_at s j)
            \<lparr>p_parent := (if p_parent (proc_at s j) = Some i then initproc s
                          else p_parent (proc_at s j)),
             p_state := (if p_state (proc_at s j) = SLEEPING \<and>
                            (p_chan (proc_at s j) = proc_chan (p_parent (proc_at s i)) \<or>
                             p_chan (proc_at s j) = proc_chan (initproc s) \<and>
                             zombie_child i [0..<length (ptable s)] s)
                         then RUNNABLE else p_state (proc_at s j))\<rparr>)"
proof -
  from kernel_env.exit_run [OF assms] obtain w m where m: "at_switch E m c P"
    and run: "\<And>sw. exit E sw s =
        obind (sw ((exit_section i
                 (upd_proc i (\<lambda>p. p\<lparr>p_ofile := replicate NOFILE 0, p_cwd := 0\<rparr>)
                   (s\<lparr>world := w\<rparr>)))\<lparr>mach := m\<rparr>)) (\<lambda>t.
        obind (mycpu E (mach t)) (\<lambda>_. Panic ''zombie exit''))" by blast
  let ?g = "upd_proc i (\<lambda>p. p\<lparr>p_ofile := replicate NOFILE 0, p_cwd := 0\<rparr>) (s\<lparr>world := w\<rparr>)"
  have z: "zombie_child i [0..<length (ptable s)] ?g = zombie_child i [0..<length (ptable s)] s"
    unfolding zombie_child_def by (intro bex_cong) auto
  show ?thesis
    using m run assms(4) z by (intro exI [of _ "(exit_section i ?g)\<lparr>mach := m\<rparr>"]) (auto simp: nth_exit_section)
qed

theorem exit_correct_witness:
  "\<exists>u. p_state (proc_at u 1) = ZOMBIE \<and> p_parent (proc_at u 2) = Some 0 \<and>
     p_parent (proc_at u 3) = Some 0 \<and> p_state (proc_at u 0) = RUNNABLE \<and>
     p_state (proc_at u 3) = SLEEPING \<and>
     (\<forall>sw. exit ref_ext sw demo_kst =
        obind (sw u) (\<lambda>t. obind (mycpu ref_ext (mach t)) (\<lambda>_. Panic ''zombie exit'')))"
proof -
  from exit_correct [OF ref.kernel_env_axioms, of demo_kst 0 "[Some 1, None]" 1] demo_view
  obtain u where run: "\<And>sw. exit ref_ext sw demo_kst =
        obind (sw u) (\<lambda>t. obind (mycpu ref_ext (mach t)) (\<lambda>_. Panic ''zombie exit''))"
    and z: "p_state (proc_at u 1) = ZOMBIE"
    and oth: "\<And>j. j < 64 \<Longrightarrow> j \<noteq> 1 \<Longrightarrow> proc_at u j = (proc_at demo_kst j)
            \<lparr>p_parent := (if p_parent (proc_at demo_kst j) = Some 1 then Some 0
                          else p_parent (proc_at demo_kst j)),
             p_state := (if p_state (proc_at demo_kst j) = SLEEPING \<and>
                            (p_chan (proc_at demo_kst j) = ChanProc 0 \<or>
                             p_chan (proc_at demo_kst j) = ChanProc 0 \<and>
                             zombie_child 1 [0..<64] demo_kst)
                         then RUNNABLE else p_state (proc_at demo_kst j))\<rparr>"
    by auto
  from oth [of 0] oth [of 2] oth [of 3]
  have "p_parent (proc_at u 2) = Some 0" "p_parent (proc_at u 3) = Some 0"
    "p_state (proc_at u 0) = RUNNABLE" "p_state (proc_at u 3) = SLEEPING"
    by simp_all
  with z run show ?thesis by (intro exI [of _ u]) simp
qed

text \<open>(C7) \<open>wait\<close> with a zombie child returns, within one scan, the pid of the first such child
  and leaves its slot free (no pid, parent, name, stack or kill mark), everything else as it
  was and the locks released.\<close>

theorem wait_reaps:
  assumes "spinlock_laws E" and "lock_view E (mach s) c 0 {} P" and "P ! c = Some i"
    and "scan (\<lambda>p. p_parent p = Some i \<and> p_state p = ZOMBIE) (ptable s) = Some j"
    and "kfree E (p_kstack (proc_at s j)) (world s) = Ret w1"
    and "freevm E (p_pgdir (proc_at s j)) w1 = Ret w2"
  shows "\<exists>m. lock_view E m c 0 {} P \<and>
     wait (Suc fuel) E sw s =
       Some (Ret (p_pid (proc_at s j),
         (upd_proc j (\<lambda>p. p\<lparr>p_kstack := 0, p_pid := 0, p_parent := None, p_name := [],
                            p_killed := 0, p_state := UNUSED\<rparr>) s)\<lparr>world := w2, mach := m\<rparr>))"
proof -
  from spinlock_laws.wait_enter [OF assms(1-3), of "Suc fuel" sw] obtain m0
    where m0: "wait (Suc fuel) E sw s = wait_loop (Suc fuel) E sw i (s\<lparr>mach := m0\<rparr>)" "at_switch E m0 c P"
    by blast
  from spinlock_laws.wait_loop_reap [OF assms(1), of "s\<lparr>mach := m0\<rparr>" c P i j w1 w2 fuel sw]
    m0(2) assms(4-6)
  show ?thesis unfolding m0(1) by (auto simp: reaped_def upd_proc_mach)
qed

theorem wait_reaps_witness:
  "\<exists>t. wait 1 ref_ext Ret demo_kst = Some (Ret (3, t)) \<and> p_state (proc_at t 2) = UNUSED"
  using wait_reaps [of ref_ext demo_kst 0 "[Some 1, None]" 1 2 11 12 0 Ret]
    ref.spinlock_laws_axioms demo_view demo_zombie by auto

text \<open>\<open>wait\<close> without a zombie child returns -1 at once when the caller has no children or
  has been killed, and changes nothing.\<close>

theorem wait_fails:
  assumes "spinlock_laws E" and "lock_view E (mach s) c 0 {} P" and "P ! c = Some i"
    and "\<forall>p \<in> set (ptable s). p_parent p = Some i \<longrightarrow> p_state p \<noteq> ZOMBIE"
    and "(\<forall>p \<in> set (ptable s). p_parent p \<noteq> Some i) \<or> p_killed (proc_at s i) \<noteq> 0"
  shows "\<exists>m. lock_view E m c 0 {} P \<and> wait (Suc fuel) E sw s = Some (Ret (- 1, s\<lparr>mach := m\<rparr>))"
proof -
  have z: "scan (\<lambda>p. p_parent p = Some i \<and> p_state p = ZOMBIE) (ptable s) = None"
    using assms(4) by (auto simp: scan_None)
  from spinlock_laws.wait_enter [OF assms(1-3), of "Suc fuel" sw] obtain m0
    where m0: "wait (Suc fuel) E sw s = wait_loop (Suc fuel) E sw i (s\<lparr>mach := m0\<rparr>)" "at_switch E m0 c P"
    by blast
  from spinlock_laws.wait_loop_fail [OF assms(1), of "s\<lparr>mach := m0\<rparr>" c P i fuel sw] m0(2) z assms(5)
  show ?thesis unfolding m0(1) by auto
qed

theorem wait_fails_witness:
  "\<exists>t. wait 1 ref_ext Ret (demo_kst\<lparr>ptable := replicate 64 zero_proc\<rparr>) = Some (Ret (- 1, t))"
  using wait_fails [of ref_ext "demo_kst\<lparr>ptable := replicate 64 zero_proc\<rparr>" 0 "[Some 1, None]" 1 0 Ret]
    ref.spinlock_laws_axioms demo_view by (auto simp: zero_proc_def)

section \<open>Entering and leaving the scheduler\<close>

text \<open>\<open>yield\<close> of a running process passes every check of \<open>sched\<close>: the switch happens
  with the caller runnable and only the table lock held, and once the caller is switched back
  in, on whatever CPU, it returns with no lock held and nothing else changed.\<close>

theorem yield_correct:
  assumes "spinlock_laws E" and "lock_view E (mach s) c 0 {} P" and "P ! c = Some i"
    and "i < length (ptable s)"
  shows "\<exists>m. at_switch E m c P \<and>
     (\<forall>sw t c' P'. sw ((upd_proc i (\<lambda>p. p\<lparr>p_state := RUNNABLE\<rparr>) s)\<lparr>mach := m\<rparr>) = Ret t \<longrightarrow>
        at_switch E (mach t) c' P' \<longrightarrow>
        (\<exists>m'. yield E sw s = Ret (t\<lparr>mach := m'\<rparr>) \<and> lock_view E m' c' 0 {} P'))"
  by (rule spinlock_laws.yield_run [OF assms])

theorem yield_correct_witness:
  "\<exists>t. yield ref_ext Ret demo_kst = Ret t"
proof -
  let ?u = "\<lambda>m. (upd_proc 1 (\<lambda>p. p\<lparr>p_state := RUNNABLE\<rparr>) demo_kst)\<lparr>mach := m\<rparr>"
  from demo_view have "lock_view ref_ext (mach demo_kst) 0 0 {} [Some 1, None]" by simp
  from yield_correct [OF ref.spinlock_laws_axioms this, of 1] obtain m
    where "at_switch ref_ext m 0 [Some 1, None]"
      and "\<forall>sw t c' P'. sw (?u m) = Ret t \<longrightarrow> at_switch ref_ext (mach t) c' P' \<longrightarrow>
        (\<exists>m'. yield ref_ext sw demo_kst = Ret (t\<lparr>mach := m'\<rparr>) \<and> lock_view ref_ext m' c' 0 {} P')"
    by auto
  from this(2) [rule_format, of Ret "?u m" 0 "[Some 1, None]"] this(1) show ?thesis by auto
qed

text \<open>(C8) \<open>sleep\<close> on a lock other than the table lock switches away with the caller asleep on
  the channel and only the table lock held; when it is resumed, on whatever CPU, it clears the
  channel and holds the caller's lock again, and only that one. It gives up the caller's lock only
  while it holds the table lock, and takes it again only after it has given up the table lock: it
  does the same on the machine \<open>ordered_locks E\<close>, which panics on any other order.\<close>

theorem sleep_correct:
  assumes "spinlock_laws E" and "lock_view E (mach s) c (Suc 0) {l} P" and "l \<noteq> PtableLock"
    and "P ! c = Some i" and "i < length (ptable s)"
  shows "\<exists>m. at_switch E m c P \<and>
     (\<forall>sw t c' P'.
        sw ((upd_proc i (\<lambda>p. p\<lparr>p_chan := ch, p_state := SLEEPING\<rparr>) s)\<lparr>mach := m\<rparr>) = Ret t \<longrightarrow>
        at_switch E (mach t) c' P' \<longrightarrow>
        (\<exists>m'. sleep E sw ch (Some l) s =
               Ret ((upd_proc i (\<lambda>p. p\<lparr>p_chan := ChanNull\<rparr>) t)\<lparr>mach := m'\<rparr>) \<and>
             sleep (ordered_locks E) sw ch (Some l) s =
               Ret ((upd_proc i (\<lambda>p. p\<lparr>p_chan := ChanNull\<rparr>) t)\<lparr>mach := m'\<rparr>) \<and>
             lock_view E m' c' (Suc 0) {l} P'))"
  by (rule spinlock_laws.sleep_other_run [OF assms])

definition demo_tickslock :: ref_kst where
  "demo_tickslock =
     demo_kst\<lparr>mach := demo_mach\<lparr>cpus := upd_nth 0 (\<lambda>k. k\<lparr>c_ncli := 1, c_intena := 1\<rparr>) (cpus demo_mach),
       hw := \<lparr>ifl = False, apic = 0, owner = (\<lambda>_. None)(TicksLock := Some 0)\<rparr>\<rparr>\<rparr>"

lemma demo_tickslock_view:
  "lock_view ref_ext (mach demo_tickslock) 0 (Suc 0) {TicksLock} [Some 1, None]"
  by (auto simp: demo_tickslock_def lock_view_ref demo_mach_def ref_this_def max_depth_def
      upd_nth_def)

theorem sleep_correct_witness:
  "\<exists>t m. sleep ref_ext Ret ChanTicks (Some TicksLock) demo_tickslock = Ret (t\<lparr>mach := m\<rparr>) \<and>
     sleep (ordered_locks ref_ext) Ret ChanTicks (Some TicksLock) demo_tickslock = Ret (t\<lparr>mach := m\<rparr>) \<and>
     lock_view ref_ext m 0 (Suc 0) {TicksLock} [Some 1, None]"
proof -
  let ?u = "\<lambda>m. (upd_proc 1 (\<lambda>p. p\<lparr>p_chan := ChanTicks, p_state := SLEEPING\<rparr>) demo_tickslock)\<lparr>mach := m\<rparr>"
  have "1 < length (ptable demo_tickslock)" by (simp add: demo_tickslock_def)
  from sleep_correct [OF ref.spinlock_laws_axioms demo_tickslock_view _ _ this, of ChanTicks] obtain m
    where "at_switch ref_ext m 0 [Some 1, None]"
      and "\<forall>sw t c' P'. sw (?u m) = Ret t \<longrightarrow> at_switch ref_ext (mach t) c' P' \<longrightarrow>
        (\<exists>m'. sleep ref_ext sw ChanTicks (Some TicksLock) demo_tickslock =
               Ret ((upd_proc 1 (\<lambda>p. p\<lparr>p_chan := ChanNull\<rparr>) t)\<lparr>mach := m'\<rparr>) \<and>
             sleep (ordered_locks ref_ext) sw ChanTicks (Some TicksLock) demo_tickslock =
               Ret ((upd_proc 1 (\<lambda>p. p\<lparr>p_chan := ChanNull\<rparr>) t)\<lparr>mach := m'\<rparr>) \<and>
             lock_view ref_ext m' c' (Suc 0) {TicksLock} P')"
    by auto
  from this(2) [rule_format, of Ret "?u m" 0 "[Some 1, None]"] this(1) show ?thesis by auto
qed

context spinlock_laws
begin

lemma scheduler_round_run:
  assumes v: "lock_view E (mach s) c 0 {} P"
    and lot: "lottery (seed s) (ptable s) = Ret (Some i, sd)" and i: "i < length (ptable s)"
    and sv: "\<exists>w. switchuvm E ((proc_at s i)\<lparr>p_ticks := p_ticks (proc_at s i) + 1\<rparr>) (world s) = Ret w"
  shows "\<exists>m w. at_switch E m c (P[c := Some i]) \<and>
     (\<forall>sw t P' w'.
        sw ((upd_proc i (\<lambda>p. p\<lparr>p_ticks := p_ticks p + 1, p_state := RUNNING\<rparr>) s)
              \<lparr>seed := sd, mach := m, world := w\<rparr>) = Ret t \<longrightarrow>
        at_switch E (mach t) c P' \<longrightarrow> switchkvm E (world t) = Ret w' \<longrightarrow>
        (\<exists>m'. scheduler_round E sw c s = Ret (Some i, t\<lparr>world := w', mach := m'\<rparr>) \<and>
              lock_view E m' c 0 {} (P'[c := None])))"
proof -
  let ?s0 = "s\<lparr>mach := sti E (mach s)\<rparr>"
  have "lock_view E (mach ?s0) c 0 {} P" using sti_law [OF v] by simp
  from on_mach_acquire [OF this, of PtableLock] obtain m1
    where m1: "on_mach (acquire E PtableLock) ?s0 = Ret (s\<lparr>mach := m1\<rparr>)" "at_switch E m1 c P" by auto
  let ?m = "put_cpu c (\<lambda>k. k\<lparr>c_proc := Some i\<rparr>) m1"
  have m: "at_switch E ?m c (P[c := Some i])" by (rule view_put_proc [OF m1(2)])
  let ?d = "dispatch c i (s\<lparr>mach := m1, seed := sd\<rparr>)"
  from sv i obtain w where w: "switchuvm E (proc_at ?d i) (world s) = Ret w"
    by (auto simp: dispatch_def upd_cpu_put)
  let ?u = "(upd_proc i (\<lambda>p. p\<lparr>p_ticks := p_ticks p + 1, p_state := RUNNING\<rparr>) s)
              \<lparr>seed := sd, mach := ?m, world := w\<rparr>"
  have u: "upd_proc i (\<lambda>p. p\<lparr>p_state := RUNNING\<rparr>) (?d\<lparr>world := w\<rparr>) = ?u"
    using i by (simp add: dispatch_def upd_cpu_put upd_proc_def comp_def)
  have wd: "world ?d = world s" by (simp add: dispatch_def upd_cpu_put)
  have "\<exists>m'. scheduler_round E sw c s = Ret (Some i, t\<lparr>world := w', mach := m'\<rparr>) \<and>
          lock_view E m' c 0 {} (P'[c := None])"
    if "sw ?u = Ret t" and "at_switch E (mach t) c P'" and "switchkvm E (world t) = Ret w'"
    for sw t P' w'
  proof -
    let ?t = "upd_cpu c (\<lambda>k. k\<lparr>c_proc := None\<rparr>) (t\<lparr>world := w'\<rparr>)"
    have "at_switch E (mach ?t) c (P'[c := None])"
      using view_put_proc [OF that(2)] by (simp add: upd_cpu_put)
    from release_ptable [OF this] obtain m2
      where m2: "on_mach (release E PtableLock) ?t = Ret (?t\<lparr>mach := m2\<rparr>)"
        "lock_view E m2 c 0 {} (P'[c := None])" by blast
    have "scheduler_round E sw c s = Ret (Some i, ?t\<lparr>mach := m2\<rparr>)"
      using m1(1) lot w u wd that m2(1)
      by (simp add: scheduler_round_def Let_def on_world_def)
    with m2(2) show ?thesis by (auto simp: upd_cpu_put)
  qed
  with m show ?thesis by blast
qed

end

text \<open>(C4) A scheduler round on CPU \<open>c\<close>, when a runnable process holds a ticket and the ticket
  sum fits an \<open>int\<close>, switches into a process that was runnable: it is handed over as RUNNING,
  charged one tick, as the process of this CPU, with only the table lock held, if \<open>switchuvm\<close>
  returns for the runnable processes of the table; when the switch
  comes back the CPU runs nothing and no lock is held.\<close>

theorem scheduler_round_correct:
  assumes "spinlock_laws E" and "lock_view E (mach s) c 0 {} P"
    and "no_overflow (ptable s)" and "q < length (ptable s)"
    and "p_state (proc_at s q) = RUNNABLE" and "p_tickets (proc_at s q) \<noteq> 0"
    and "\<And>i. i < length (ptable s) \<Longrightarrow> p_state (proc_at s i) = RUNNABLE \<Longrightarrow>
          \<exists>w. switchuvm E ((proc_at s i)\<lparr>p_ticks := p_ticks (proc_at s i) + 1\<rparr>) (world s) = Ret w"
  shows "\<exists>i sd m w. i < length (ptable s) \<and> p_state (proc_at s i) = RUNNABLE \<and>
     p_tickets (proc_at s i) \<noteq> 0 \<and> at_switch E m c (P[c := Some i]) \<and>
     (\<forall>sw t P' w'.
        sw ((upd_proc i (\<lambda>p. p\<lparr>p_ticks := p_ticks p + 1, p_state := RUNNING\<rparr>) s)
              \<lparr>seed := sd, mach := m, world := w\<rparr>) = Ret t \<longrightarrow>
        at_switch E (mach t) c P' \<longrightarrow> switchkvm E (world t) = Ret w' \<longrightarrow>
        (\<exists>m'. scheduler_round E sw c s = Ret (Some i, t\<lparr>world := w', mach := m'\<rparr>) \<and>
              lock_view E m' c 0 {} (P'[c := None])))"
proof -
  from lottery_selects [OF assms(3-6), of "seed s"] obtain i sd
    where i: "lottery (seed s) (ptable s) = Ret (Some i, sd)" "i < length (ptable s)"
      "p_state (proc_at s i) = RUNNABLE" "p_tickets (proc_at s i) \<noteq> 0" by blast
  from spinlock_laws.scheduler_round_run [OF assms(1,2) i(1,2) assms(7) [OF i(2,3)]] i(2-4)
  show ?thesis by blast
qed

text \<open>The same machine with CPU 0 idle in its scheduler and the shell runnable.\<close>

definition demo_idle :: ref_kst where
  "demo_idle =
     demo_kst\<lparr>ptable := demo_ptable[1 := demo_proc RUNNABLE 2 (Some 0) ChanNull 8],
       mach := put_cpu 0 (\<lambda>k. k\<lparr>c_proc := None\<rparr>) demo_mach\<rparr>"

lemma demo_idle_view: "lock_view ref_ext (mach demo_idle) 0 0 {} [None, None]"
  by (simp add: lock_view_ref demo_idle_def demo_mach_def put_cpu_def ref_this_def upd_nth_def)

lemma demo_idle_safe: "no_overflow (ptable demo_idle)"
  by (simp add: demo_idle_def demo_ptable_def no_overflow_def lottery_weight_def zero_proc_def
      sum_list_replicate)

theorem scheduler_round_correct_witness:
  "\<exists>i t. scheduler_round ref_ext Ret 0 demo_idle = Ret (Some i, t) \<and>
     p_state (proc_at demo_idle i) = RUNNABLE"
proof -
  have "1 < length (ptable demo_idle)" "p_state (proc_at demo_idle 1) = RUNNABLE"
    "p_tickets (proc_at demo_idle 1) \<noteq> 0"
    by (simp_all add: demo_idle_def)
  from scheduler_round_correct [OF ref.spinlock_laws_axioms demo_idle_view demo_idle_safe this]
  obtain i sd m w where i: "p_state (proc_at demo_idle i) = RUNNABLE"
    and m: "at_switch ref_ext m 0 ([None, None][0 := Some i])"
    and run: "\<forall>sw t P' w'.
        sw ((upd_proc i (\<lambda>p. p\<lparr>p_ticks := p_ticks p + 1, p_state := RUNNING\<rparr>) demo_idle)
              \<lparr>seed := sd, mach := m, world := w\<rparr>) = Ret t \<longrightarrow>
        at_switch ref_ext (mach t) 0 P' \<longrightarrow> switchkvm ref_ext (world t) = Ret w' \<longrightarrow>
        (\<exists>m'. scheduler_round ref_ext sw 0 demo_idle = Ret (Some i, t\<lparr>world := w', mach := m'\<rparr>) \<and>
              lock_view ref_ext m' 0 0 {} (P'[0 := None]))"
    by auto
  let ?u = "(upd_proc i (\<lambda>p. p\<lparr>p_ticks := p_ticks p + 1, p_state := RUNNING\<rparr>) demo_idle)
              \<lparr>seed := sd, mach := m, world := w\<rparr>"
  from run [rule_format, of Ret ?u "[Some i, None]" w] m i show ?thesis by auto
qed

end
