(* ===== verification/Lottery_Wakeup.thy ===== *)
theory Lottery_Wakeup
  imports Lottery_Kernel "HOL-Library.Sublist"
begin

text \<open>
  \<open>sleep\<close> and \<open>wakeup\<close> of the lottery kernel (Lab2 \<open>proc.c\<close>) running against each other on several CPUs.

  The two routines are written as lists of atomic actions, and these lists are proved to be the routines: run on one
  CPU they are \<open>sleep\<close> and \<open>wakeup\<close>. Then any number of processes that wait for a condition the way \<open>sys_sleep\<close>
  (\<open>sysproc.c\<close>) does,

    \<open>acquire(lk); while (condition is false) sleep(ch, lk); release(lk);\<close>

  and any number of threads that change it and call \<open>wakeup\<close>,

    \<open>acquire(lk); change the condition; wakeup(ch); release(lk);\<close>

  run interleaved after every action, with \<open>kill\<close> of any process in between. The condition may be any function of
  the waiting process and of the number of changes made so far. No wakeup is lost: a process that is asleep although
  its condition holds is about to be woken, and the system only comes to rest when every process has left its loop
  or sleeps with its condition false.
\<close>

section \<open>The two routines as programs\<close>

datatype action =
    Take lock
  | Drop lock
  | Doze chan
  | Switch
  | Forget
  | Wake chan

text \<open>What process \<open>i\<close> does on a CPU of its own.\<close>

fun perform :: "('c, 'w) ext \<Rightarrow> (('c, 'w) kst \<Rightarrow> ('c, 'w) kst outcome) \<Rightarrow> nat \<Rightarrow> action \<Rightarrow> ('c, 'w) kst
    \<Rightarrow> ('c, 'w) kst outcome" where
  "perform E sw i (Take l) s = on_mach (acquire E l) s"
| "perform E sw i (Drop l) s = on_mach (release E l) s"
| "perform E sw i (Doze ch) s = Ret (upd_proc i (\<lambda>p. p\<lparr>p_chan := ch, p_state := SLEEPING\<rparr>) s)"
| "perform E sw i Switch s = sched E sw s"
| "perform E sw i Forget s = Ret (upd_proc i (\<lambda>p. p\<lparr>p_chan := ChanNull\<rparr>) s)"
| "perform E sw i (Wake ch) s = Ret (wakeup1 ch s)"

fun performs :: "('c, 'w) ext \<Rightarrow> (('c, 'w) kst \<Rightarrow> ('c, 'w) kst outcome) \<Rightarrow> nat \<Rightarrow> action list \<Rightarrow> ('c, 'w) kst
    \<Rightarrow> ('c, 'w) kst outcome" where
  "performs E sw i [] s = Ret s"
| "performs E sw i (a # as) s = obind (perform E sw i a s) (performs E sw i as)"

definition sleep_code :: "chan \<Rightarrow> lock \<Rightarrow> action list" where
  "sleep_code ch l =
     [Take PtableLock, Drop l, Doze ch, Switch, Forget, Drop PtableLock, Take l]"

definition wakeup_code :: "chan \<Rightarrow> action list" where
  "wakeup_code ch = [Take PtableLock, Wake ch, Drop PtableLock]"

lemma performs_fun:
  "performs E sw i [] = Ret"
  "performs E sw i (a # as) = (\<lambda>s. obind (perform E sw i a s) (performs E sw i as))"
  by (simp_all add: fun_eq_iff)

lemma sleep_code_run:
  assumes "l \<noteq> PtableLock" and "myproc E s = Ret (Some i, s')"
  shows "sleep E sw ch (Some l) s = performs E sw i (sleep_code ch l) s'"
  using assms by (simp add: sleep_def sleep_code_def obind_assoc performs_fun)

lemma wakeup_code_run: "wakeup E ch s = performs E sw i (wakeup_code ch) s"
  by (simp add: wakeup_def wakeup_code_def performs_fun)

section \<open>Sleepers and wakers, interleaved\<close>

text \<open>
  \<open>Check\<close> is the test of the loop, \<open>Raise\<close> the change of the condition, and \<open>Await\<close> the place in \<open>sched\<close> where a
  process is until the scheduler of some CPU picks it.
\<close>

datatype instr = Do action | Check | Raise | Await

definition sleeper_code :: "lock \<Rightarrow> instr list" where
  "sleeper_code l = [Do (Take l), Check, Do (Drop l)]"

definition waker_code :: "chan \<Rightarrow> lock \<Rightarrow> instr list" where
  "waker_code ch l = [Do (Take l), Raise] @ map Do (wakeup_code ch) @ [Do (Drop l)]"

record ('c, 'w) wk =
  wk_kst :: "('c, 'w) kst"
  wk_lock :: "lock \<Rightarrow> nat option"
  wk_code :: "nat \<Rightarrow> instr list"
  wk_raised :: nat

abbreviation at_code :: "nat \<Rightarrow> instr list \<Rightarrow> ('c, 'w) wk \<Rightarrow> ('c, 'w) wk" where
  "at_code t c s \<equiv> s\<lparr>wk_code := (wk_code s)(t := c)\<rparr>"

abbreviation own :: "lock \<Rightarrow> nat option \<Rightarrow> ('c, 'w) wk \<Rightarrow> ('c, 'w) wk" where
  "own k x s \<equiv> s\<lparr>wk_lock := (wk_lock s)(k := x)\<rparr>"

text \<open>
  One step of thread \<open>t\<close>; sleeper \<open>t\<close> is the process in slot \<open>t\<close>. The switch hands the table lock to the scheduler
  of its CPU, which releases it; a scheduler picks a process while it holds that lock, charges it a tick, makes it
  the running process and hands it the lock. Which process it picks is left open here.
\<close>

inductive wk_step :: "(nat \<Rightarrow> nat \<Rightarrow> bool) \<Rightarrow> chan \<Rightarrow> lock \<Rightarrow> nat \<Rightarrow> ('c, 'w) wk \<Rightarrow> ('c, 'w) wk \<Rightarrow> bool"
  for ready ch l t where
  wk_take: "wk_code s t = Do (Take k) # c \<Longrightarrow> wk_lock s k = None \<Longrightarrow>
     wk_step ready ch l t s (at_code t c (own k (Some t) s))"
| wk_drop: "wk_code s t = Do (Drop k) # c \<Longrightarrow>
     wk_step ready ch l t s (at_code t c (own k None s))"
| wk_doze: "wk_code s t = Do (Doze d) # c \<Longrightarrow>
     wk_step ready ch l t s
       (at_code t c (s\<lparr>wk_kst := upd_proc t (\<lambda>p. p\<lparr>p_chan := d, p_state := SLEEPING\<rparr>) (wk_kst s)\<rparr>))"
| wk_switch: "wk_code s t = Do Switch # c \<Longrightarrow>
     wk_step ready ch l t s (at_code t (Await # c) (own PtableLock None s))"
| wk_pick: "wk_code s t = Await # c \<Longrightarrow> wk_lock s PtableLock = None \<Longrightarrow>
     p_state (proc_at (wk_kst s) t) = RUNNABLE \<Longrightarrow>
     wk_step ready ch l t s
       (at_code t c (own PtableLock (Some t)
         (s\<lparr>wk_kst := upd_proc t (\<lambda>p. p\<lparr>p_ticks := p_ticks p + 1, p_state := RUNNING\<rparr>) (wk_kst s)\<rparr>)))"
| wk_forget: "wk_code s t = Do Forget # c \<Longrightarrow>
     wk_step ready ch l t s
       (at_code t c (s\<lparr>wk_kst := upd_proc t (\<lambda>p. p\<lparr>p_chan := ChanNull\<rparr>) (wk_kst s)\<rparr>))"
| wk_wake: "wk_code s t = Do (Wake d) # c \<Longrightarrow>
     wk_step ready ch l t s (at_code t c (s\<lparr>wk_kst := wakeup1 d (wk_kst s)\<rparr>))"
| wk_raise: "wk_code s t = Raise # c \<Longrightarrow>
     wk_step ready ch l t s (at_code t c (s\<lparr>wk_raised := Suc (wk_raised s)\<rparr>))"
| wk_leave: "wk_code s t = Check # c \<Longrightarrow> ready t (wk_raised s) \<Longrightarrow>
     wk_step ready ch l t s (at_code t c s)"
| wk_sleep: "wk_code s t = Check # c \<Longrightarrow> \<not> ready t (wk_raised s) \<Longrightarrow>
     wk_step ready ch l t s (at_code t (map Do (sleep_code ch l) @ Check # c) s)"

definition wk_start :: "nat set \<Rightarrow> nat set \<Rightarrow> chan \<Rightarrow> lock \<Rightarrow> ('c, 'w) kst \<Rightarrow> ('c, 'w) wk" where
  "wk_start S W ch l k0 =
     \<lparr>wk_kst = k0, wk_lock = (\<lambda>_. None),
      wk_code = (\<lambda>t. if t \<in> S then sleeper_code l else if t \<in> W then waker_code ch l else []),
      wk_raised = 0\<rparr>"

text \<open>Runs: steps of the threads, and \<open>kill\<close> of any slot while the table lock is free.\<close>

inductive wk_reach :: "(nat \<Rightarrow> nat \<Rightarrow> bool) \<Rightarrow> chan \<Rightarrow> lock \<Rightarrow> ('c, 'w) wk \<Rightarrow> ('c, 'w) wk \<Rightarrow> bool"
  for ready ch l s0 where
  wk_init: "wk_reach ready ch l s0 s0"
| wk_move: "wk_reach ready ch l s0 s \<Longrightarrow> wk_step ready ch l t s s' \<Longrightarrow> wk_reach ready ch l s0 s'"
| wk_kill: "wk_reach ready ch l s0 s \<Longrightarrow> wk_lock s PtableLock = None \<Longrightarrow> i < length (ptable (wk_kst s)) \<Longrightarrow>
     wk_reach ready ch l s0 (s\<lparr>wk_kst := kill_slot i (wk_kst s)\<rparr>)"

section \<open>The invariant\<close>

text \<open>The program points of a sleeper, from the call of \<open>sleep\<close> on, and of a waker.\<close>

definition in_sleep :: "chan \<Rightarrow> lock \<Rightarrow> instr list" where
  "in_sleep ch l = map Do (sleep_code ch l) @ [Check, Do (Drop l)]"

definition awaiting :: "lock \<Rightarrow> instr list" where
  "awaiting l = [Await, Do Forget, Do (Drop PtableLock), Do (Take l), Check, Do (Drop l)]"

text \<open>The locks a thread holds, read off what it has still to do.\<close>

fun held :: "lock \<Rightarrow> instr list \<Rightarrow> bool" where
  "held k [] = False"
| "held k (Do (Take k') # c) = (k' \<noteq> k \<and> held k c)"
| "held k (Do (Drop k') # c) = (k' = k \<or> held k c)"
| "held k (Do Switch # c) = (k = PtableLock \<or> held k c)"
| "held k (Await # c) = (k \<noteq> PtableLock \<and> held k c)"
| "held k (i # c) = held k c"

definition sleeper_at :: "chan \<Rightarrow> lock \<Rightarrow> instr list \<Rightarrow> bool" where
  "sleeper_at ch l c \<longleftrightarrow> c = awaiting l \<or> suffix c (in_sleep ch l)"

definition waker_at :: "chan \<Rightarrow> lock \<Rightarrow> instr list \<Rightarrow> bool" where
  "waker_at ch l c \<longleftrightarrow> suffix c (waker_code ch l)"

lemmas wk_code_defs = sleeper_at_def waker_at_def in_sleep_def awaiting_def waker_code_def sleeper_code_def
  sleep_code_def wakeup_code_def

text \<open>A waker has changed the condition and has not yet woken the sleepers.\<close>

definition wake_pending :: "nat set \<Rightarrow> chan \<Rightarrow> ('c, 'w) wk \<Rightarrow> bool" where
  "wake_pending W ch s \<longleftrightarrow> (\<exists>w \<in> W. Raise \<notin> set (wk_code s w) \<and> Do (Wake ch) \<in> set (wk_code s w))"

text \<open>The condition of \<open>t\<close> is false, or its wakeup is on its way.\<close>

definition in_time :: "(nat \<Rightarrow> nat \<Rightarrow> bool) \<Rightarrow> nat set \<Rightarrow> chan \<Rightarrow> nat \<Rightarrow> ('c, 'w) wk \<Rightarrow> bool" where
  "in_time ready W ch t s \<longleftrightarrow> \<not> ready t (wk_raised s) \<or> wake_pending W ch s"

definition dozing :: "chan \<Rightarrow> nat \<Rightarrow> ('c, 'w) wk \<Rightarrow> bool" where
  "dozing ch t s \<longleftrightarrow> p_state (proc_at (wk_kst s) t) = SLEEPING \<and> p_chan (proc_at (wk_kst s) t) = ch"

text \<open>What a sleeper can rely on at each point of \<open>sleep\<close>.\<close>

definition sleeper_ok :: "(nat \<Rightarrow> nat \<Rightarrow> bool) \<Rightarrow> nat set \<Rightarrow> chan \<Rightarrow> lock \<Rightarrow> nat \<Rightarrow> ('c, 'w) wk \<Rightarrow> bool" where
  "sleeper_ok ready W ch l t s \<longleftrightarrow>
     (wk_code s t = in_sleep ch l \<or> wk_code s t = drop 1 (in_sleep ch l) \<longrightarrow> \<not> ready t (wk_raised s)) \<and>
     (wk_code s t = drop 2 (in_sleep ch l) \<longrightarrow> in_time ready W ch t s) \<and>
     (wk_code s t = drop 3 (in_sleep ch l) \<longrightarrow> dozing ch t s \<and> in_time ready W ch t s) \<and>
     (wk_code s t = awaiting l \<longrightarrow>
        p_state (proc_at (wk_kst s) t) = RUNNABLE \<or> dozing ch t s \<and> in_time ready W ch t s)"

definition wk_inv :: "(nat \<Rightarrow> nat \<Rightarrow> bool) \<Rightarrow> nat set \<Rightarrow> nat set \<Rightarrow> chan \<Rightarrow> lock \<Rightarrow> ('c, 'w) wk \<Rightarrow> bool" where
  "wk_inv ready S W ch l s \<longleftrightarrow>
     (\<forall>t \<in> S. sleeper_at ch l (wk_code s t) \<and> t < length (ptable (wk_kst s))) \<and>
     (\<forall>t \<in> W. waker_at ch l (wk_code s t)) \<and>
     (\<forall>t. t \<notin> S \<longrightarrow> t \<notin> W \<longrightarrow> wk_code s t = []) \<and>
     (\<forall>k t. wk_lock s k = Some t \<longleftrightarrow> held k (wk_code s t)) \<and>
     (\<forall>t \<in> S. sleeper_ok ready W ch l t s)"

text \<open>How a step moves its thread, and what it does to the locks.\<close>

lemma step_points:
  assumes "wk_step ready ch l t s s'" and "l \<noteq> PtableLock"
  shows "sleeper_at ch l (wk_code s t) \<Longrightarrow> sleeper_at ch l (wk_code s' t)"
    and "waker_at ch l (wk_code s t) \<Longrightarrow> waker_at ch l (wk_code s' t)"
  using assms by (auto elim!: wk_step.cases simp: wk_code_defs suffix_Cons)

lemma point_locks:
  assumes "sleeper_at ch l d \<or> waker_at ch l d" and "l \<noteq> PtableLock"
  shows "d = Do (Take k) # c \<Longrightarrow> held k c" and "d = Do (Drop k) # c \<Longrightarrow> \<not> held k c"
    and "d = Await # c \<Longrightarrow> held PtableLock c"
    and "d = Check # c \<Longrightarrow> held k (map Do (sleep_code ch l) @ Check # c) = held k c"
  using assms by (auto simp: wk_code_defs suffix_Cons)

lemma step_locks:
  assumes "wk_step ready ch l t s s'" and "l \<noteq> PtableLock"
    and "sleeper_at ch l (wk_code s t) \<or> waker_at ch l (wk_code s t)"
  shows "wk_lock s' k = (if held k (wk_code s' t) = held k (wk_code s t) then wk_lock s k
                         else if held k (wk_code s' t) then Some t else None)"
    and "held k (wk_code s' t) \<Longrightarrow> \<not> held k (wk_code s t) \<Longrightarrow> wk_lock s k = None"
  using assms(1) point_locks [OF assms(3,2)]
  by (cases rule: wk_step.cases; auto)+

lemma step_frame:
  assumes "wk_step ready ch l t s s'"
  shows "u \<noteq> t \<Longrightarrow> wk_code s' u = wk_code s u" and "length (ptable (wk_kst s')) = length (ptable (wk_kst s))"
  using assms by (auto elim!: wk_step.cases)

lemma wk_invD:
  assumes "wk_inv ready S W ch l s"
  shows "t \<in> S \<Longrightarrow> sleeper_at ch l (wk_code s t)" and "t \<in> S \<Longrightarrow> t < length (ptable (wk_kst s))"
    and "t \<in> W \<Longrightarrow> waker_at ch l (wk_code s t)" and "t \<notin> S \<Longrightarrow> t \<notin> W \<Longrightarrow> wk_code s t = []"
    and "wk_lock s k = Some t \<longleftrightarrow> held k (wk_code s t)" and "t \<in> S \<Longrightarrow> sleeper_ok ready W ch l t s"
  using assms unfolding wk_inv_def by blast+

lemma step_owners:
  assumes st: "wk_step ready ch l t s s'" and l: "l \<noteq> PtableLock"
    and at: "sleeper_at ch l (wk_code s t) \<or> waker_at ch l (wk_code s t)"
    and own: "\<And>k u. wk_lock s k = Some u \<longleftrightarrow> held k (wk_code s u)"
  shows "wk_lock s' k = Some u \<longleftrightarrow> held k (wk_code s' u)"
proof (cases "u = t")
  case True
  then show ?thesis using step_locks(1) [OF st l at, of k] own [of k t] by auto
next
  case False
  have "wk_lock s k = Some t" if "\<not> held k (wk_code s' t)" "held k (wk_code s t)" using own that by blast
  with False step_locks [OF st l at, of k] own [of k u] step_frame(1) [OF st, of u] False show ?thesis by auto
qed

text \<open>Two threads do not hold the same lock.\<close>

lemma held_once:
  assumes "wk_inv ready S W ch l s" and "held k (wk_code s t)" and "held k (wk_code s u)"
  shows "t = u"
  using wk_invD(5) [OF assms(1)] assms(2,3) by (metis option.inject)

lemma held_points:
  assumes "l \<noteq> PtableLock"
  shows "held l (in_sleep ch l)" and "held l (drop 1 (in_sleep ch l))" and "held PtableLock (drop 1 (in_sleep ch l))"
    and "held PtableLock (drop 2 (in_sleep ch l))" and "held PtableLock (drop 3 (in_sleep ch l))"
  using assms by (simp_all add: in_sleep_def sleep_code_def)

text \<open>Where a sleeper is, by its next instruction.\<close>

lemma sleeper_next:
  assumes "sleeper_at ch l d"
  shows "d = Do (Take k) # c \<Longrightarrow> d = in_sleep ch l \<and> c = drop 1 (in_sleep ch l) \<or> c = [Check, Do (Drop l)]"
    and "d = Do (Drop k) # c \<Longrightarrow>
      d = drop 1 (in_sleep ch l) \<and> c = drop 2 (in_sleep ch l) \<or> c = [Do (Take l), Check, Do (Drop l)] \<or> c = []"
    and "d = Do (Doze e) # c \<Longrightarrow> e = ch \<and> d = drop 2 (in_sleep ch l) \<and> c = drop 3 (in_sleep ch l)"
    and "d = Do Switch # c \<Longrightarrow> d = drop 3 (in_sleep ch l) \<and> Await # c = awaiting l"
    and "d = Await # c \<Longrightarrow> d = awaiting l \<and> c = drop 4 (in_sleep ch l)"
    and "d = Do Forget # c \<Longrightarrow> c = drop 5 (in_sleep ch l)"
    and "d = Check # c \<Longrightarrow> c = [Do (Drop l)]"
    and "d \<noteq> Do (Wake e) # c" and "d \<noteq> Raise # c"
  using assms by (auto simp: wk_code_defs suffix_Cons)

lemma in_sleep_explicit:
  "in_sleep ch l = [Do (Take PtableLock), Do (Drop l), Do (Doze ch), Do Switch, Do Forget, Do (Drop PtableLock),
     Do (Take l), Check, Do (Drop l)]"
  by (simp add: in_sleep_def sleep_code_def)

text \<open>A sleeper's own step keeps what it relies on.\<close>

lemma sleeper_own:
  assumes st: "wk_step ready ch l t s s'" and t: "t \<notin> W" "t < length (ptable (wk_kst s))"
    and at: "sleeper_at ch l (wk_code s t)" and ok: "sleeper_ok ready W ch l t s"
  shows "sleeper_ok ready W ch l t s'"
proof -
  have pend: "wake_pending W ch s' = wake_pending W ch s"
    using step_frame(1) [OF st] t(1) unfolding wake_pending_def by (metis (full_types))
  note sleeper_ok = sleeper_ok_def in_time_def dozing_def in_sleep_explicit awaiting_def
  from st show ?thesis
  proof cases
    case (wk_take k c)
    then show ?thesis using sleeper_next(1) [OF at, of k c] ok pend by (auto simp: sleeper_ok)
  next
    case (wk_drop k c)
    then show ?thesis using sleeper_next(2) [OF at, of k c] ok pend by (auto simp: sleeper_ok)
  next
    case (wk_doze d c)
    then show ?thesis using sleeper_next(3) [OF at, of d c] ok pend t(2) by (auto simp: sleeper_ok)
  next
    case (wk_switch c)
    then show ?thesis using sleeper_next(4) [OF at, of c] ok pend by (auto simp: sleeper_ok)
  next
    case (wk_pick c)
    then show ?thesis using sleeper_next(5) [OF at, of c] by (auto simp: sleeper_ok)
  next
    case (wk_forget c)
    then show ?thesis using sleeper_next(6) [OF at, of c] by (auto simp: sleeper_ok)
  next
    case (wk_leave c)
    then show ?thesis using sleeper_next(7) [OF at, of c] by (auto simp: sleeper_ok)
  next
    case (wk_sleep c)
    then show ?thesis using sleeper_next(7) [OF at, of c] by (auto simp: sleeper_ok sleep_code_def)
  qed (use sleeper_next(8,9) [OF at] in blast)+
qed

text \<open>So do the steps of the others: a waker that changes the condition holds the caller's lock, and one that wakes
  holds the table lock, so neither comes in while a sleeper is on its way to the switch.\<close>

lemma waker_next:
  assumes "waker_at ch l d" and "l \<noteq> PtableLock"
  shows "d = Raise # c \<Longrightarrow> held l d \<and> Raise \<notin> set c \<and> Do (Wake ch) \<in> set c"
    and "d = Do (Wake e) # c \<Longrightarrow> e = ch \<and> held PtableLock d"
    and "d \<noteq> Do (Doze e) # c" and "d \<noteq> Do Switch # c" and "d \<noteq> Await # c" and "d \<noteq> Do Forget # c" and "d \<noteq> Check # c"
  using assms by (auto simp: wk_code_defs suffix_Cons)

lemma sleeper_ok_frame:
  assumes "sleeper_ok ready W ch l t s" and "wk_code s' t = wk_code s t" and "wk_raised s' = wk_raised s"
    and "wake_pending W ch s \<Longrightarrow> wake_pending W ch s'" and "proc_at (wk_kst s') t = proc_at (wk_kst s) t"
  shows "sleeper_ok ready W ch l t s'"
  using assms(1,4) unfolding sleeper_ok_def in_time_def dozing_def assms(2,3,5) by blast

lemma wake_pending_move:
  assumes "wake_pending W ch s" and "wk_code s u = i # c" and "i \<noteq> Do (Wake ch)"
    and "wk_code s' = (wk_code s)(u := c)"
  shows "wake_pending W ch s'"
  using assms unfolding wake_pending_def by force

lemma sleeper_waker_step:
  assumes inv: "wk_inv ready S W ch l s" and l: "l \<noteq> PtableLock" and st: "wk_step ready ch l u s s'"
    and t: "t \<in> S" "t \<noteq> u" and u: "u \<in> W"
  shows "sleeper_ok ready W ch l t s'"
proof -
  note at = waker_next [OF wk_invD(3) [OF inv u] l] and ok = wk_invD(6) [OF inv t(1)]
  note frame = sleeper_ok_frame [OF ok step_frame(1) [OF st, OF t(2)]]
  from st show ?thesis
  proof cases
    case (wk_take k c)
    then show ?thesis using wake_pending_move [of W ch s u _ c s'] by (intro frame) auto
  next
    case (wk_drop k c)
    then show ?thesis using wake_pending_move [of W ch s u _ c s'] by (intro frame) auto
  next
    case (wk_raise c)
    have "\<not> held l (wk_code s t)" using held_once [OF inv, of l u t] at(1) [OF wk_raise(2)] t(2) by blast
    then have "wk_code s t \<noteq> in_sleep ch l" "wk_code s t \<noteq> drop 1 (in_sleep ch l)"
      using held_points(1,2) [OF l] by metis+
    moreover have "wake_pending W ch s'"
      using at(1) [OF wk_raise(2)] u unfolding wake_pending_def wk_raise(1) by auto
    ultimately show ?thesis using ok t(2) by (auto simp: sleeper_ok_def in_time_def dozing_def wk_raise(1))
  next
    case (wk_wake d c)
    have d: "d = ch" using at(2) [OF wk_wake(2)] by blast
    have "\<not> held PtableLock (wk_code s t)"
      using held_once [OF inv, of PtableLock u t] at(2) [OF wk_wake(2)] t(2) by blast
    then have "wk_code s t \<noteq> drop 1 (in_sleep ch l)" "wk_code s t \<noteq> drop 2 (in_sleep ch l)"
      "wk_code s t \<noteq> drop 3 (in_sleep ch l)"
      using held_points(3-5) [OF l] by metis+
    then show ?thesis
      using ok t(2) wk_invD(2) [OF inv t(1)] by (auto simp: sleeper_ok_def dozing_def wk_wake(1) d)
  qed (use at(3-7) in blast)+
qed

lemma sleeper_sleeper_step:
  assumes inv: "wk_inv ready S W ch l s" and st: "wk_step ready ch l u s s'"
    and t: "t \<in> S" "t \<noteq> u" and u: "u \<in> S" "u \<notin> W"
  shows "sleeper_ok ready W ch l t s'"
proof -
  note at = sleeper_next [OF wk_invD(1) [OF inv u(1)]]
  have "wake_pending W ch s' = wake_pending W ch s"
    using step_frame(1) [OF st] u(2) unfolding wake_pending_def by (metis (full_types))
  moreover from st at(8,9) have "wk_raised s' = wk_raised s \<and> proc_at (wk_kst s') t = proc_at (wk_kst s) t"
    using t(2) wk_invD(2) [OF inv t(1)] by cases auto
  ultimately show ?thesis
    using sleeper_ok_frame [OF wk_invD(6) [OF inv t(1)] step_frame(1) [OF st, OF t(2)]] by blast
qed

lemma wk_step_inv:
  assumes inv: "wk_inv ready S W ch l s" and l: "l \<noteq> PtableLock" and disj: "S \<inter> W = {}"
    and st: "wk_step ready ch l u s s'"
  shows "wk_inv ready S W ch l s'"
proof -
  have "wk_code s u \<noteq> []" using st by cases auto
  then have u: "u \<in> S \<and> u \<notin> W \<or> u \<in> W \<and> u \<notin> S" using wk_invD(4) [OF inv] disj by blast
  note frame = step_frame [OF st]
  have "sleeper_at ch l (wk_code s' t) \<and> t < length (ptable (wk_kst s'))" if "t \<in> S" for t
    using that wk_invD(1,2) [OF inv that] step_points(1) [OF st l] frame by metis
  moreover have "waker_at ch l (wk_code s' t)" if "t \<in> W" for t
    using wk_invD(3) [OF inv that] step_points(2) [OF st l] frame(1) by metis
  moreover have "wk_code s' t = []" if "t \<notin> S" "t \<notin> W" for t
    using wk_invD(4) [OF inv that] frame(1) u that by metis
  moreover have "wk_lock s' k = Some t \<longleftrightarrow> held k (wk_code s' t)" for k t
    using step_owners [OF st l _ wk_invD(5) [OF inv]] u wk_invD(1,3) [OF inv] by blast
  moreover have "sleeper_ok ready W ch l t s'" if "t \<in> S" for t
    using that u disj sleeper_own [OF st, of W] sleeper_waker_step [OF inv l st that]
      sleeper_sleeper_step [OF inv st that] wk_invD(1,2,6) [OF inv that] by blast
  ultimately show ?thesis unfolding wk_inv_def by blast
qed

text \<open>\<open>kill\<close> finds the table lock free, so it meets a sleeper only where it may be woken at any time.\<close>

lemma kill_slot_proc:
  assumes "t < length (ptable k)" and "i < length (ptable k)"
  shows "proc_at (kill_slot i k) t = (if t = i then (proc_at k t)\<lparr>p_killed := 1,
     p_state := (if p_state (proc_at k t) = SLEEPING then RUNNABLE else p_state (proc_at k t))\<rparr> else proc_at k t)"
  using assms by (simp add: kill_slot_eq)

lemma wk_kill_inv:
  assumes inv: "wk_inv ready S W ch l s" and l: "l \<noteq> PtableLock" and free: "wk_lock s PtableLock = None"
    and i: "i < length (ptable (wk_kst s))"
  shows "wk_inv ready S W ch l (s\<lparr>wk_kst := kill_slot i (wk_kst s)\<rparr>)"
proof -
  let ?s = "s\<lparr>wk_kst := kill_slot i (wk_kst s)\<rparr>"
  have "sleeper_ok ready W ch l t ?s" if t: "t \<in> S" for t
  proof -
    have "\<not> held PtableLock (wk_code s t)" using wk_invD(5) [OF inv, of PtableLock t] free by simp
    then have "wk_code s t \<noteq> drop 3 (in_sleep ch l)" using held_points(5) [OF l] by metis
    then show ?thesis
      using wk_invD(6) [OF inv t] kill_slot_proc [OF wk_invD(2) [OF inv t] i]
      by (auto simp: sleeper_ok_def in_time_def wake_pending_def dozing_def)
  qed
  moreover have "length (ptable (kill_slot i (wk_kst s))) = length (ptable (wk_kst s))"
    using i by (simp add: kill_slot_eq)
  ultimately show ?thesis using inv by (simp add: wk_inv_def)
qed

lemma wk_start_inv:
  assumes "S \<inter> W = {}" and "\<forall>t \<in> S. t < length (ptable k0)"
  shows "wk_inv ready S W ch l (wk_start S W ch l k0)"
  using assms
  by (auto simp: wk_inv_def wk_start_def sleeper_ok_def wk_code_defs suffix_Cons)

lemma wk_reach_inv:
  assumes "wk_reach ready ch l (wk_start S W ch l k0) s" and "l \<noteq> PtableLock" and "S \<inter> W = {}"
    and "\<forall>t \<in> S. t < length (ptable k0)"
  shows "wk_inv ready S W ch l s"
  using assms(1)
  by (induction rule: wk_reach.induct)
    (use wk_start_inv [OF assms(3,4)] wk_step_inv [OF _ assms(2,3)] wk_kill_inv [OF _ assms(2)] in blast)+

section \<open>No wakeup is lost, and nothing gets stuck\<close>

text \<open>A thread can move unless it waits for a lock that is taken, or to be picked while it is not runnable.\<close>

lemma can_move:
  assumes "wk_code s t = i # c" and "\<And>k. i = Do (Take k) \<Longrightarrow> wk_lock s k = None"
    and "i = Await \<Longrightarrow> wk_lock s PtableLock = None \<and> p_state (proc_at (wk_kst s) t) = RUNNABLE"
  shows "\<exists>s'. wk_step ready ch l t s s'"
proof (cases i)
  case (Do a)
  then show ?thesis using assms by (cases a) (blast intro: wk_step.intros)+
qed (use assms in \<open>blast intro: wk_step.intros\<close>)+

lemma holder_next:
  assumes "sleeper_at ch l d \<or> waker_at ch l d" and "l \<noteq> PtableLock"
  shows "held PtableLock d \<Longrightarrow> \<exists>i c. d = i # c \<and> (\<forall>k. i \<noteq> Do (Take k)) \<and> i \<noteq> Await"
    and "held l d \<Longrightarrow> \<exists>i c. d = i # c \<and> (\<forall>k. i = Do (Take k) \<longrightarrow> k = PtableLock) \<and> i \<noteq> Await"
    and "\<not> held l d \<Longrightarrow> \<not> held PtableLock d \<Longrightarrow> d = [] \<or> d = awaiting l \<or> (\<exists>c. d = Do (Take l) # c)"
  using assms by (auto simp: wk_code_defs suffix_Cons)

lemma wk_rest:
  assumes inv: "wk_inv ready S W ch l s" and l: "l \<noteq> PtableLock"
    and stuck: "\<And>t s'. \<not> wk_step ready ch l t s s'"
  shows "t \<in> W \<Longrightarrow> wk_code s t = []"
    and "t \<in> S \<Longrightarrow> wk_code s t = [] \<or> wk_code s t = awaiting l \<and> dozing ch t s \<and> \<not> ready t (wk_raised s)"
proof -
  have at: "wk_code s t = [] \<or> sleeper_at ch l (wk_code s t) \<or> waker_at ch l (wk_code s t)" for t
    using wk_invD(1,3,4) [OF inv] by blast
  have P: "wk_lock s PtableLock = None"
  proof (rule ccontr)
    assume "wk_lock s PtableLock \<noteq> None"
    then obtain t where "held PtableLock (wk_code s t)" using wk_invD(5) [OF inv] by blast
    with at [of t] holder_next(1) [OF _ l, of ch "wk_code s t"] can_move [of s t] stuck show False by fastforce
  qed
  have L: "wk_lock s l = None"
  proof (rule ccontr)
    assume "wk_lock s l \<noteq> None"
    then obtain t where "held l (wk_code s t)" using wk_invD(5) [OF inv] by blast
    with at [of t] holder_next(2) [OF _ l, of ch "wk_code s t"] can_move [of s t] stuck P show False by fastforce
  qed
  have rest: "wk_code s t = [] \<or> wk_code s t = awaiting l \<and> p_state (proc_at (wk_kst s) t) \<noteq> RUNNABLE" for t
  proof -
    have "\<not> held l (wk_code s t)" "\<not> held PtableLock (wk_code s t)"
      using wk_invD(5) [OF inv] P L by (metis option.distinct(1))+
    with at [of t] holder_next(3) [OF _ l, of ch "wk_code s t"]
    have "wk_code s t = [] \<or> wk_code s t = awaiting l \<or> (\<exists>c. wk_code s t = Do (Take l) # c)" by blast
    then show ?thesis using can_move [of s t] stuck P L unfolding awaiting_def by fastforce
  qed
  have W: "wk_code s t = []" if "t \<in> W" for t
    using rest [of t] waker_next(5) [OF wk_invD(3) [OF inv that] l] unfolding awaiting_def by blast
  then show "t \<in> W \<Longrightarrow> wk_code s t = []" .
  have "\<not> wake_pending W ch s" using W unfolding wake_pending_def by fastforce
  then show "wk_code s t = [] \<or> wk_code s t = awaiting l \<and> dozing ch t s \<and> \<not> ready t (wk_raised s)" if "t \<in> S"
    using rest [of t] wk_invD(6) [OF inv that] unfolding sleeper_ok_def in_time_def by blast
qed

text \<open>(C9) No wakeup is lost between \<open>sleep\<close> and \<open>wakeup\<close>, whatever the interleaving of any number of processes that
  wait in a loop around \<open>sleep\<close> and of threads that change their condition and call \<open>wakeup\<close>, with kills in between.
  A process that has left its CPU inside \<open>sleep\<close> is runnable, or it sleeps on the channel and its condition is false or
  a wakeup is on its way. And the system is not stuck unless all wakers are done and each waiting process is done or
  sleeps with its condition false. The programs that are interleaved are \<open>sleep\<close> and \<open>wakeup\<close>: run on one CPU, they
  are those functions.\<close>

theorem no_lost_wakeup:
  assumes "l \<noteq> PtableLock" and "S \<inter> W = {}" and "\<forall>t \<in> S. t < length (ptable k0)"
    and "wk_reach ready ch l (wk_start S W ch l k0) s"
  shows "(\<forall>E sw i k k'. myproc E k = Ret (Some i, k') \<longrightarrow>
            sleep E sw ch (Some l) k = performs E sw i (sleep_code ch l) k') \<and>
         (\<forall>E sw i k. wakeup E ch k = performs E sw i (wakeup_code ch) k) \<and>
         (\<forall>t \<in> S. wk_code s t = awaiting l \<longrightarrow>
            p_state (proc_at (wk_kst s) t) = RUNNABLE \<or>
            dozing ch t s \<and> (ready t (wk_raised s) \<longrightarrow> wake_pending W ch s)) \<and>
         ((\<forall>t s'. \<not> wk_step ready ch l t s s') \<longrightarrow>
            (\<forall>t \<in> W. wk_code s t = []) \<and>
            (\<forall>t \<in> S. wk_code s t = [] \<or>
               wk_code s t = awaiting l \<and> dozing ch t s \<and> \<not> ready t (wk_raised s)))"
proof -
  have inv: "wk_inv ready S W ch l s" using wk_reach_inv [OF assms(4,1-3)] .
  have "p_state (proc_at (wk_kst s) t) = RUNNABLE \<or>
      dozing ch t s \<and> (ready t (wk_raised s) \<longrightarrow> wake_pending W ch s)"
    if "t \<in> S" "wk_code s t = awaiting l" for t
    using wk_invD(6) [OF inv that(1)] that(2) unfolding sleeper_ok_def in_time_def by blast
  with wk_rest [OF inv assms(1)] sleep_code_run [OF assms(1)] wakeup_code_run show ?thesis by blast
qed

text \<open>The shell waits for the first tick and has gone to sleep; the clock has counted it and is about to wake it.\<close>

definition demo_wk :: "ref_kst \<Rightarrow> nat option \<Rightarrow> nat option \<Rightarrow> instr list \<Rightarrow> instr list \<Rightarrow> nat \<Rightarrow> (ref_hw, nat) wk" where
  "demo_wk k p l c1 c0 n =
     \<lparr>wk_kst = k, wk_lock = (\<lambda>_. None)(PtableLock := p, TicksLock := l),
      wk_code = (\<lambda>t. if t = 1 then c1 else if t = 0 then c0 else []), wk_raised = n\<rparr>"

abbreviation demo_ready :: "nat \<Rightarrow> nat \<Rightarrow> bool" where
  "demo_ready t n \<equiv> 0 < n"

lemma demo_wk_start:
  "wk_start {1} {0} ChanTicks TicksLock demo_kst =
     demo_wk demo_kst None None (sleeper_code TicksLock) (waker_code ChanTicks TicksLock) 0"
  by (auto simp: wk_start_def demo_wk_def fun_eq_iff)

lemma demo_wk_move:
  assumes "wk_reach r ch l s0 (demo_wk k p x c1 c0 n)" and "wk_step r ch l t (demo_wk k p x c1 c0 n) s"
    and "s = demo_wk k' p' x' c1' c0' n'"
  shows "wk_reach r ch l s0 (demo_wk k' p' x' c1' c0' n')"
  using wk_move [OF assms(1,2)] assms(3) by simp

lemmas demo_wk_simps = demo_wk_def fun_eq_iff sleeper_code_def waker_code_def wakeup_code_def in_sleep_explicit
  sleep_code_def awaiting_def

lemma demo_wk_reach:
  fixes k :: ref_kst
  defines "k \<equiv> upd_proc 1 (\<lambda>p. p\<lparr>p_chan := ChanTicks, p_state := SLEEPING\<rparr>) demo_kst"
    and "W \<equiv> waker_code ChanTicks TicksLock" and "Z \<equiv> in_sleep ChanTicks TicksLock"
  shows "wk_reach demo_ready ChanTicks TicksLock (wk_start {1} {0} ChanTicks TicksLock demo_kst)
     (demo_wk k None (Some 0) (awaiting TicksLock) (drop 2 W) 1)"
proof -
  let ?R = "\<lambda>s. wk_reach demo_ready ChanTicks TicksLock (wk_start {1} {0} ChanTicks TicksLock demo_kst) s"
  have "?R (demo_wk demo_kst None None (sleeper_code TicksLock) W 0)"
    unfolding W_def demo_wk_start [symmetric] by (rule wk_init)
  then have "?R (demo_wk demo_kst None (Some 1) (drop 7 Z) W 0)"
    by (rule demo_wk_move [OF _ wk_take [where t = 1 and k = TicksLock and c = "drop 7 Z"]]) (auto simp: demo_wk_simps Z_def)
  then have "?R (demo_wk demo_kst None (Some 1) Z W 0)"
    by (rule demo_wk_move [OF _ wk_sleep [where t = 1 and c = "drop 8 Z"]]) (auto simp: demo_wk_simps Z_def)
  then have "?R (demo_wk demo_kst (Some 1) (Some 1) (drop 1 Z) W 0)"
    by (rule demo_wk_move [OF _ wk_take [where t = 1 and k = PtableLock and c = "drop 1 Z"]]) (auto simp: demo_wk_simps Z_def)
  then have "?R (demo_wk demo_kst (Some 1) None (drop 2 Z) W 0)"
    by (rule demo_wk_move [OF _ wk_drop [where t = 1 and k = TicksLock and c = "drop 2 Z"]]) (auto simp: demo_wk_simps Z_def)
  then have "?R (demo_wk k (Some 1) None (drop 3 Z) W 0)"
    by (rule demo_wk_move [OF _ wk_doze [where t = 1 and d = ChanTicks and c = "drop 3 Z"]]) (auto simp: demo_wk_simps Z_def k_def)
  then have "?R (demo_wk k None None (awaiting TicksLock) W 0)"
    by (rule demo_wk_move [OF _ wk_switch [where t = 1 and c = "drop 4 Z"]]) (auto simp: demo_wk_simps Z_def)
  then have "?R (demo_wk k None (Some 0) (awaiting TicksLock) (drop 1 W) 0)"
    by (rule demo_wk_move [OF _ wk_take [where t = 0 and k = TicksLock and c = "drop 1 W"]]) (auto simp: demo_wk_simps W_def)
  then show ?thesis
    by (rule demo_wk_move [OF _ wk_raise [where t = 0 and c = "drop 2 W"]]) (auto simp: demo_wk_simps W_def)
qed

theorem no_lost_wakeup_witness:
  "\<exists>s. wk_reach demo_ready ChanTicks TicksLock (wk_start {1} {0} ChanTicks TicksLock demo_kst) s \<and>
     dozing ChanTicks 1 s \<and> demo_ready 1 (wk_raised s) \<and> wake_pending {0} ChanTicks s"
proof -
  let ?k = "upd_proc 1 (\<lambda>p. p\<lparr>p_chan := ChanTicks, p_state := SLEEPING\<rparr>) demo_kst"
  let ?s = "demo_wk ?k None (Some 0) (awaiting TicksLock) (drop 2 (waker_code ChanTicks TicksLock)) 1"
  have s: "wk_code ?s 1 = awaiting TicksLock" "wk_raised ?s = 1" "p_state (proc_at (wk_kst ?s) 1) = SLEEPING"
    by (simp_all add: demo_wk_def)
  from no_lost_wakeup [OF _ _ _ demo_wk_reach] s have "dozing ChanTicks 1 ?s \<and> wake_pending {0} ChanTicks ?s"
    by fastforce
  with demo_wk_reach s(2) show ?thesis by (intro exI [of _ ?s]) simp
qed

end
