(* ===== verification/Lottery_Syscall.thy ===== *)
theory Lottery_Syscall
  imports Lottery_Machine
begin

text \<open>
  Lab2 \<open>syscall.c\<close>, \<open>syscall.h\<close> and \<open>sysproc.c\<close>: how a system call gets its arguments from the
  stack of the user process, the table of system calls and their dispatch, and the handlers of
  the process system calls.

  The kernel reads and writes user memory through the page table of the current process. The
  loads and stores of the CPU are parameters (\<open>load8\<close>, \<open>store8\<close>: a byte at a virtual address,
  where a page fault in the kernel is a panic), and so are the handlers of \<open>sysfile.c\<close>, which
  is not in the repository. An \<open>int\<close> in memory is four bytes, the lowest first. What a handler
  prints is part of its result.
\<close>

record ('c, 'w) uext =
  load8 :: "u32 \<Rightarrow> 'w \<Rightarrow> u8 outcome"
  store8 :: "u32 \<Rightarrow> u8 \<Rightarrow> 'w \<Rightarrow> 'w outcome"
  sysfile :: "nat \<Rightarrow> ('c, 'w) kst \<Rightarrow> (i32 \<times> ('c, 'w) kst) outcome"

section \<open>User memory\<close>

fun load_bytes :: "('c, 'w) uext \<Rightarrow> u32 \<Rightarrow> nat \<Rightarrow> 'w \<Rightarrow> u8 list outcome" where
  "load_bytes U a 0 w = Ret []"
| "load_bytes U a (Suc n) w =
     obind (load8 U a w) (\<lambda>b. obind (load_bytes U (a + 1) n w) (\<lambda>bs. Ret (b # bs)))"

fun store_bytes :: "('c, 'w) uext \<Rightarrow> u32 \<Rightarrow> u8 list \<Rightarrow> 'w \<Rightarrow> 'w outcome" where
  "store_bytes U a [] w = Ret w"
| "store_bytes U a (b # bs) w = obind (store8 U a b w) (store_bytes U (a + 1) bs)"

definition int_of_bytes :: "u8 list \<Rightarrow> i32" where
  "int_of_bytes bs = foldr (\<lambda>b x. ucast b OR push_bit 8 x) bs 0"

definition bytes_of_int :: "i32 \<Rightarrow> u8 list" where
  "bytes_of_int x = [ucast x, ucast (drop_bit 8 x), ucast (drop_bit 16 x), ucast (drop_bit 24 x)]"

definition load32 :: "('c, 'w) uext \<Rightarrow> u32 \<Rightarrow> 'w \<Rightarrow> i32 outcome" where
  "load32 U a w = obind (load_bytes U a 4 w) (\<lambda>bs. Ret (int_of_bytes bs))"

fun load_ints :: "('c, 'w) uext \<Rightarrow> u32 \<Rightarrow> nat \<Rightarrow> 'w \<Rightarrow> i32 list outcome" where
  "load_ints U a 0 w = Ret []"
| "load_ints U a (Suc n) w =
     obind (load32 U a w) (\<lambda>x. obind (load_ints U (a + 4) n w) (\<lambda>xs. Ret (x # xs)))"

definition store_ints :: "('c, 'w) uext \<Rightarrow> u32 \<Rightarrow> i32 list \<Rightarrow> 'w \<Rightarrow> 'w outcome" where
  "store_ints U a xs = store_bytes U a (concat (map bytes_of_int xs))"

section \<open>Fetching arguments\<close>

definition fetchint :: "('c, 'w) ext \<Rightarrow> ('c, 'w) uext \<Rightarrow> u32 \<Rightarrow> ('c, 'w) kst
    \<Rightarrow> (i32 option \<times> ('c, 'w) kst) outcome" where
  "fetchint E U addr s =
     obind (curproc E s) (\<lambda>(c, s).
     if p_sz (proc_at s c) \<le> addr \<or> p_sz (proc_at s c) < addr + 4 then Ret (None, s)
     else obind (load32 U addr (world s)) (\<lambda>x. Ret (Some x, s)))"

text \<open>The loop of \<open>fetchstr\<close> from \<open>s\<close> on: the address of the first null byte before \<open>ep\<close>.\<close>

function find_nul :: "('c, 'w) uext \<Rightarrow> u32 \<Rightarrow> u32 \<Rightarrow> 'w \<Rightarrow> u32 option outcome" where
  "find_nul U p ep w =
     (if p < ep then
        obind (load8 U p w) (\<lambda>b.
        if b = 0 then Ret (Some p) else find_nul U (p + 1) ep w)
      else Ret None)"
  by pat_completeness auto

termination
proof (relation "measure (\<lambda>(U, p, ep, w). unat ep - unat p)", goal_cases)
  case (2 U p ep w b)
  then have less: "unat p < unat ep" by (simp add: word_less_nat_alt)
  moreover have "unat ep < 2 ^ 32" using unsigned_less [of ep] by simp
  ultimately have "unat (p + 1) = unat p + 1" using unat_add_no_overflow [of p 1] by simp
  with less show ?case by simp
qed simp

declare find_nul.simps [simp del]

text \<open>The length, or \<open>None\<close> for -1, and what is stored at \<open>*pp\<close>, if anything: the pointer is set before the scan.\<close>

definition fetchstr :: "('c, 'w) ext \<Rightarrow> ('c, 'w) uext \<Rightarrow> u32 \<Rightarrow> ('c, 'w) kst
    \<Rightarrow> (i32 option \<times> u32 option \<times> ('c, 'w) kst) outcome" where
  "fetchstr E U addr s =
     obind (curproc E s) (\<lambda>(c, s).
     if p_sz (proc_at s c) \<le> addr then Ret (None, None, s)
     else
       let pp = Some addr in
       obind (find_nul U addr (p_sz (proc_at s c)) (world s)) (\<lambda>q.
       case q of Some p \<Rightarrow> Ret (Some (p - addr), pp, s) | None \<Rightarrow> Ret (None, pp, s)))"

definition argint :: "('c, 'w) ext \<Rightarrow> ('c, 'w) uext \<Rightarrow> i32 \<Rightarrow> ('c, 'w) kst
    \<Rightarrow> (i32 option \<times> ('c, 'w) kst) outcome" where
  "argint E U n s =
     obind (curproc E s) (\<lambda>(c, s).
     fetchint E U (tf_esp (tfs s (p_tf (proc_at s c))) + 4 + 4 * n) s)"

definition argptr :: "('c, 'w) ext \<Rightarrow> ('c, 'w) uext \<Rightarrow> i32 \<Rightarrow> i32 \<Rightarrow> ('c, 'w) kst
    \<Rightarrow> (u32 option \<times> ('c, 'w) kst) outcome" where
  "argptr E U n len s =
     obind (curproc E s) (\<lambda>(c, s).
     obind (argint E U n s) (\<lambda>(i, s).
     case i of
       None \<Rightarrow> Ret (None, s)
     | Some i \<Rightarrow>
         if slt len 0 \<or> p_sz (proc_at s c) \<le> i \<or> p_sz (proc_at s c) < i + len then Ret (None, s)
         else Ret (Some i, s)))"

definition argstr :: "('c, 'w) ext \<Rightarrow> ('c, 'w) uext \<Rightarrow> i32 \<Rightarrow> ('c, 'w) kst
    \<Rightarrow> (i32 option \<times> u32 option \<times> ('c, 'w) kst) outcome" where
  "argstr E U n s =
     obind (argint E U n s) (\<lambda>(addr, s).
     case addr of None \<Rightarrow> Ret (None, None, s) | Some addr \<Rightarrow> fetchstr E U addr s)"

section \<open>The handlers\<close>

definition sys_fork :: "('c, 'w) ext \<Rightarrow> ('c, 'w) kst \<Rightarrow> (i32 \<times> ('c, 'w) kst) outcome" where
  "sys_fork E s = fork E s"

definition sys_exit :: "('c, 'w) ext \<Rightarrow> (('c, 'w) kst \<Rightarrow> ('c, 'w) kst outcome) \<Rightarrow> ('c, 'w) kst
    \<Rightarrow> (i32 \<times> ('c, 'w) kst) outcome" where
  "sys_exit E sw s = obind (exit E sw s) (\<lambda>s. Ret (0, s))"

text \<open>The loops of \<open>wait\<close> and \<open>sys_sleep\<close> run on fuel.\<close>

definition sys_wait :: "nat \<Rightarrow> ('c, 'w) ext \<Rightarrow> (('c, 'w) kst \<Rightarrow> ('c, 'w) kst outcome) \<Rightarrow> ('c, 'w) kst
    \<Rightarrow> (i32 \<times> ('c, 'w) kst) outcome" where
  "sys_wait fuel E sw s = (case wait fuel E sw s of None \<Rightarrow> NoFuel | Some r \<Rightarrow> r)"

definition sys_kill :: "('c, 'w) ext \<Rightarrow> ('c, 'w) uext \<Rightarrow> ('c, 'w) kst
    \<Rightarrow> (i32 \<times> ('c, 'w) kst) outcome" where
  "sys_kill E U s =
     obind (argint E U 0 s) (\<lambda>(pid, s).
     case pid of None \<Rightarrow> Ret (- 1, s) | Some pid \<Rightarrow> kill E pid s)"

definition sys_getpid :: "('c, 'w) ext \<Rightarrow> ('c, 'w) kst \<Rightarrow> (i32 \<times> ('c, 'w) kst) outcome" where
  "sys_getpid E s = obind (curproc E s) (\<lambda>(c, s). Ret (p_pid (proc_at s c), s))"

definition sys_sbrk :: "('c, 'w) ext \<Rightarrow> ('c, 'w) uext \<Rightarrow> ('c, 'w) kst
    \<Rightarrow> (i32 \<times> ('c, 'w) kst) outcome" where
  "sys_sbrk E U s =
     obind (argint E U 0 s) (\<lambda>(n, s).
     case n of None \<Rightarrow> Ret (- 1, s) | Some n \<Rightarrow>
     obind (curproc E s) (\<lambda>(c, s).
     let addr = p_sz (proc_at s c) in
     obind (growproc E n s) (\<lambda>(r, s).
     if slt r 0 then Ret (- 1, s) else Ret (addr, s))))"

fun sleep_loop :: "nat \<Rightarrow> ('c, 'w) ext \<Rightarrow> (('c, 'w) kst \<Rightarrow> ('c, 'w) kst outcome) \<Rightarrow> u32 \<Rightarrow> u32
    \<Rightarrow> ('c, 'w) kst \<Rightarrow> (i32 \<times> ('c, 'w) kst) outcome" where
  "sleep_loop 0 E sw ticks0 n s = NoFuel"
| "sleep_loop (Suc fuel) E sw ticks0 n s =
     (if ticks s - ticks0 < n then
        obind (curproc E s) (\<lambda>(c, s).
        if p_killed (proc_at s c) \<noteq> 0 then
          obind (on_mach (release E TicksLock) s) (\<lambda>s. Ret (- 1, s))
        else
          obind (sleep E sw ChanTicks (Some TicksLock) s) (sleep_loop fuel E sw ticks0 n))
      else obind (on_mach (release E TicksLock) s) (\<lambda>s. Ret (0, s)))"

definition sys_sleep :: "nat \<Rightarrow> ('c, 'w) ext \<Rightarrow> ('c, 'w) uext \<Rightarrow> (('c, 'w) kst \<Rightarrow> ('c, 'w) kst outcome)
    \<Rightarrow> ('c, 'w) kst \<Rightarrow> (i32 \<times> ('c, 'w) kst) outcome" where
  "sys_sleep fuel E U sw s =
     obind (argint E U 0 s) (\<lambda>(n, s).
     case n of None \<Rightarrow> Ret (- 1, s) | Some n \<Rightarrow>
     obind (on_mach (acquire E TicksLock) s) (\<lambda>s.
     sleep_loop fuel E sw (ticks s) n s))"

definition sys_uptime :: "('c, 'w) ext \<Rightarrow> ('c, 'w) kst \<Rightarrow> (i32 \<times> ('c, 'w) kst) outcome" where
  "sys_uptime E s =
     obind (on_mach (acquire E TicksLock) s) (\<lambda>s.
     let xticks = ticks s in
     obind (on_mach (release E TicksLock) s) (\<lambda>s. Ret (xticks, s)))"

definition sys_settickets :: "('c, 'w) ext \<Rightarrow> ('c, 'w) uext \<Rightarrow> ('c, 'w) kst
    \<Rightarrow> (i32 \<times> ('c, 'w) kst) outcome" where
  "sys_settickets E U s =
     obind (argint E U 0 s) (\<lambda>(tickets, s).
     case tickets of None \<Rightarrow> Ret (- 1, s) | Some tickets \<Rightarrow> settickets E tickets s)"

text \<open>\<open>struct pstat\<close> in memory: its four arrays of \<open>NPROC\<close> ints one after the other.\<close>

definition sizeof_pstat :: i32 where
  "sizeof_pstat = of_nat (16 * NPROC)"

definition load_pstat :: "('c, 'w) uext \<Rightarrow> u32 \<Rightarrow> 'w \<Rightarrow> pstat outcome" where
  "load_pstat U a w =
     obind (load_ints U a (4 * NPROC) w) (\<lambda>xs.
     Ret \<lparr>ps_inuse = take NPROC xs, ps_tickets = take NPROC (drop NPROC xs),
          ps_pid = take NPROC (drop (2 * NPROC) xs), ps_ticks = drop (3 * NPROC) xs\<rparr>)"

definition store_pstat :: "('c, 'w) uext \<Rightarrow> u32 \<Rightarrow> pstat \<Rightarrow> 'w \<Rightarrow> 'w outcome" where
  "store_pstat U a ps = store_ints U a (ps_inuse ps @ ps_tickets ps @ ps_pid ps @ ps_ticks ps)"

definition sys_getpinfo :: "('c, 'w) ext \<Rightarrow> ('c, 'w) uext \<Rightarrow> ('c, 'w) kst
    \<Rightarrow> (i32 \<times> ('c, 'w) kst) outcome" where
  "sys_getpinfo E U s =
     obind (argptr E U 0 sizeof_pstat s) (\<lambda>(ps, s).
     case ps of None \<Rightarrow> Ret (- 1, s) | Some a \<Rightarrow>
     obind (if a = 0 then Ret None
            else obind (load_pstat U a (world s)) (\<lambda>q. Ret (Some q))) (\<lambda>q.
     obind (getpinfo E q s) (\<lambda>(r, q, s).
     case q of None \<Rightarrow> Ret (r, s)
     | Some q \<Rightarrow> obind (on_world (store_pstat U a q) s) (\<lambda>s. Ret (r, s)))))"

section \<open>The table and the dispatch\<close>

definition SYS_fork :: nat where "SYS_fork = 1"
definition SYS_exit :: nat where "SYS_exit = 2"
definition SYS_wait :: nat where "SYS_wait = 3"
definition SYS_pipe :: nat where "SYS_pipe = 4"
definition SYS_read :: nat where "SYS_read = 5"
definition SYS_kill :: nat where "SYS_kill = 6"
definition SYS_exec :: nat where "SYS_exec = 7"
definition SYS_fstat :: nat where "SYS_fstat = 8"
definition SYS_chdir :: nat where "SYS_chdir = 9"
definition SYS_dup :: nat where "SYS_dup = 10"
definition SYS_getpid :: nat where "SYS_getpid = 11"
definition SYS_sbrk :: nat where "SYS_sbrk = 12"
definition SYS_sleep :: nat where "SYS_sleep = 13"
definition SYS_uptime :: nat where "SYS_uptime = 14"
definition SYS_open :: nat where "SYS_open = 15"
definition SYS_write :: nat where "SYS_write = 16"
definition SYS_mknod :: nat where "SYS_mknod = 17"
definition SYS_unlink :: nat where "SYS_unlink = 18"
definition SYS_link :: nat where "SYS_link = 19"
definition SYS_mkdir :: nat where "SYS_mkdir = 20"
definition SYS_close :: nat where "SYS_close = 21"
definition SYS_settickets :: nat where "SYS_settickets = 22"
definition SYS_getpinfo :: nat where "SYS_getpinfo = 23"

lemmas SYS_defs = SYS_fork_def SYS_exit_def SYS_wait_def SYS_pipe_def SYS_read_def SYS_kill_def
  SYS_exec_def SYS_fstat_def SYS_chdir_def SYS_dup_def SYS_getpid_def SYS_sbrk_def SYS_sleep_def
  SYS_uptime_def SYS_open_def SYS_write_def SYS_mknod_def SYS_unlink_def SYS_link_def SYS_mkdir_def
  SYS_close_def SYS_settickets_def SYS_getpinfo_def

definition syscalls :: "nat \<Rightarrow> ('c, 'w) ext \<Rightarrow> ('c, 'w) uext \<Rightarrow> (('c, 'w) kst \<Rightarrow> ('c, 'w) kst outcome)
    \<Rightarrow> (nat \<times> (('c, 'w) kst \<Rightarrow> (i32 \<times> ('c, 'w) kst) outcome)) list" where
  "syscalls fuel E U sw =
     [(SYS_fork, sys_fork E),
      (SYS_exit, sys_exit E sw),
      (SYS_wait, sys_wait fuel E sw),
      (SYS_pipe, sysfile U SYS_pipe),
      (SYS_read, sysfile U SYS_read),
      (SYS_kill, sys_kill E U),
      (SYS_exec, sysfile U SYS_exec),
      (SYS_fstat, sysfile U SYS_fstat),
      (SYS_chdir, sysfile U SYS_chdir),
      (SYS_dup, sysfile U SYS_dup),
      (SYS_getpid, sys_getpid E),
      (SYS_sbrk, sys_sbrk E U),
      (SYS_sleep, sys_sleep fuel E U sw),
      (SYS_uptime, sys_uptime E),
      (SYS_open, sysfile U SYS_open),
      (SYS_write, sysfile U SYS_write),
      (SYS_mknod, sysfile U SYS_mknod),
      (SYS_unlink, sysfile U SYS_unlink),
      (SYS_link, sysfile U SYS_link),
      (SYS_mkdir, sysfile U SYS_mkdir),
      (SYS_close, sysfile U SYS_close),
      (SYS_settickets, sys_settickets E U),
      (SYS_getpinfo, sys_getpinfo E U)]"

text \<open>\<open>NELEM\<close>: one more than the largest index.\<close>

definition nelem_syscalls :: nat where
  "nelem_syscalls = Suc SYS_getpinfo"

text \<open>The state after the call, and the arguments of \<open>cprintf\<close> where it is called.\<close>

definition syscall :: "nat \<Rightarrow> ('c, 'w) ext \<Rightarrow> ('c, 'w) uext \<Rightarrow> (('c, 'w) kst \<Rightarrow> ('c, 'w) kst outcome)
    \<Rightarrow> ('c, 'w) kst \<Rightarrow> ((i32 \<times> string \<times> i32) option \<times> ('c, 'w) kst) outcome" where
  "syscall fuel E U sw s =
     obind (curproc E s) (\<lambda>(c, s).
     let num = tf_eax (tfs s (p_tf (proc_at s c))) in
     case (if slt 0 num \<and> unat num < nelem_syscalls
           then map_of (syscalls fuel E U sw) (unat num) else None) of
       Some f \<Rightarrow>
         obind (f s) (\<lambda>(r, s).
         Ret (None, upd_tf (p_tf (proc_at s c)) (\<lambda>t. t\<lparr>tf_eax := r\<rparr>) s))
     | None \<Rightarrow>
         Ret (Some (p_pid (proc_at s c), p_name (proc_at s c), num),
              upd_tf (p_tf (proc_at s c)) (\<lambda>t. t\<lparr>tf_eax := - 1\<rparr>) s))"

section \<open>Laws of user memory\<close>

lemma int_of_bytes_of_int [simp]: "int_of_bytes (bytes_of_int x) = x"
proof (rule bit_word_eqI)
  fix n :: nat
  assume "n < LENGTH(32)"
  then consider "n < 8" | "8 \<le> n" "n < 16" | "16 \<le> n" "n < 24" | "24 \<le> n" "n < 32" by fastforce
  then show "bit (int_of_bytes (bytes_of_int x)) n \<longleftrightarrow> bit x n"
    by cases (auto simp: int_of_bytes_def bytes_of_int_def bit_or_iff bit_ucast_iff bit_push_bit_iff bit_drop_bit_eq)
qed

text \<open>
  What the kernel relies on when it reads and writes user memory: the accessible addresses are
  those that \<open>ok\<close> says, a load returns the byte last stored, and a store changes one byte.
\<close>

locale user_mem =
  fixes U :: "('c, 'w) uext" and ok :: "'w \<Rightarrow> u32 \<Rightarrow> bool"
  assumes load_law: "ok w a \<Longrightarrow> \<exists>b. load8 U a w = Ret b"
    and store_law: "ok w a \<Longrightarrow>
      \<exists>w'. store8 U a b w = Ret w' \<and> load8 U a w' = Ret b \<and>
           (\<forall>x. x \<noteq> a \<longrightarrow> load8 U x w' = load8 U x w) \<and> ok w' = ok w"
begin

lemma load_bytes_ok:
  assumes "\<And>k. k < n \<Longrightarrow> ok w (a + of_nat k)"
  shows "\<exists>bs. load_bytes U a n w = Ret bs \<and> length bs = n"
  using assms
proof (induction n arbitrary: a)
  case (Suc n)
  have "\<exists>b. load8 U a w = Ret b" using Suc.prems [of 0] load_law by simp
  moreover have "\<exists>bs. load_bytes U (a + 1) n w = Ret bs \<and> length bs = n"
    using Suc.prems [of "Suc _"] by (intro Suc.IH) (simp add: add.assoc)
  ultimately show ?case by auto
qed simp

lemma load32_ok:
  assumes "\<And>k. k < 4 \<Longrightarrow> ok w (a + of_nat k)"
  shows "\<exists>x. load32 U a w = Ret x"
  using load_bytes_ok [of 4 w a] assms by (auto simp: load32_def)

lemma load_ints_ok:
  assumes "\<And>k. k < 4 * n \<Longrightarrow> ok w (a + of_nat k)"
  shows "\<exists>xs. load_ints U a n w = Ret xs \<and> length xs = n"
  using assms
proof (induction n arbitrary: a)
  case (Suc n)
  have "\<exists>x. load32 U a w = Ret x" using Suc.prems by (intro load32_ok) simp
  moreover have "ok w (a + 4 + of_nat k)" if "k < 4 * n" for k
    using Suc.prems [of "4 + k"] that by (simp add: add.assoc)
  then have "\<exists>xs. load_ints U (a + 4) n w = Ret xs \<and> length xs = n" by (intro Suc.IH)
  ultimately show ?case by auto
qed simp

lemma load_bytes_cong:
  assumes "\<And>k. k < n \<Longrightarrow> load8 U (a + of_nat k) w = load8 U (a + of_nat k) w'"
  shows "load_bytes U a n w = load_bytes U a n w'"
  using assms
proof (induction n arbitrary: a)
  case (Suc n)
  have "load8 U a w = load8 U a w'" using Suc.prems [of 0] by simp
  moreover have "load_bytes U (a + 1) n w = load_bytes U (a + 1) n w'"
    using Suc.prems [of "Suc _"] by (intro Suc.IH) (simp add: add.assoc)
  ultimately show ?case by simp
qed simp

lemma store_bytes_ok:
  assumes "\<And>k. k < length bs \<Longrightarrow> ok w (a + of_nat k)" and "length bs < 2 ^ 32"
  shows "\<exists>w'. store_bytes U a bs w = Ret w' \<and> ok w' = ok w \<and> load_bytes U a (length bs) w' = Ret bs \<and>
    (\<forall>x. length bs \<le> unat (x - a) \<longrightarrow> load8 U x w' = load8 U x w)"
  using assms
proof (induction bs arbitrary: a w)
  case (Cons b bs)
  from store_law [of w a b] Cons.prems(1) [of 0] obtain w1 where w1: "store8 U a b w = Ret w1"
    "load8 U a w1 = Ret b" "\<And>x. x \<noteq> a \<Longrightarrow> load8 U x w1 = load8 U x w" "ok w1 = ok w" by auto
  have "ok w1 (a + 1 + of_nat k)" if "k < length bs" for k
    using Cons.prems(1) [of "Suc k"] that w1(4) by (simp add: add.assoc)
  from Cons.IH [OF this] Cons.prems(2) obtain w2 where w2: "store_bytes U (a + 1) bs w1 = Ret w2"
    "ok w2 = ok w1" "load_bytes U (a + 1) (length bs) w2 = Ret bs"
    "\<And>x. length bs \<le> unat (x - (a + 1)) \<Longrightarrow> load8 U x w2 = load8 U x w1" by auto
  have far: "length bs \<le> unat (x - (a + 1)) \<and> x \<noteq> a" if "Suc (length bs) \<le> unat (x - a)" for x
    using that unat_minus_one [of "x - a"] by (cases "x = a") (auto simp: diff_diff_eq [symmetric])
  have "length bs \<le> unat (a - (a + 1))"
    using Cons.prems(2) by (simp add: unsigned_minus_1_eq_mask mask_eq_exp_minus_1)
  then have "load8 U a w2 = Ret b" using w2(4) w1(2) by simp
  then show ?case using w1 w2 far by auto
qed simp

end

lemma length_bytes_of_int [simp]: "length (bytes_of_int x) = 4"
  by (simp add: bytes_of_int_def)

lemma load_bytes_append:
  "load_bytes U a (m + n) w =
     obind (load_bytes U a m w) (\<lambda>bs. obind (load_bytes U (a + of_nat m) n w) (\<lambda>cs. Ret (bs @ cs)))"
proof (induction m arbitrary: a)
  case (Suc m)
  show ?case by (simp add: Suc.IH obind_assoc add.assoc)
qed simp

lemma load_bytes_length: "load_bytes U a n w = Ret bs \<Longrightarrow> length bs = n"
  by (induction n arbitrary: a bs) (auto simp: obind_eq_Ret)

lemma load_ints_bytes:
  "load_bytes U a (4 * length xs) w = Ret (concat (map bytes_of_int xs)) \<Longrightarrow> load_ints U a (length xs) w = Ret xs"
proof (induction xs arbitrary: a)
  case (Cons x xs)
  have "load_bytes U a (4 + 4 * length xs) w = Ret (bytes_of_int x @ concat (map bytes_of_int xs))"
    using Cons.prems by simp
  then obtain bs cs where bs: "load_bytes U a 4 w = Ret bs" "load_bytes U (a + 4) (4 * length xs) w = Ret cs"
    and "bs @ cs = bytes_of_int x @ concat (map bytes_of_int xs)"
    unfolding load_bytes_append by (auto simp: obind_eq_Ret)
  moreover have "length bs = 4" using bs(1) by (rule load_bytes_length)
  ultimately have "load_bytes U a 4 w = Ret (bytes_of_int x)"
    and "load_bytes U (a + 4) (4 * length xs) w = Ret (concat (map bytes_of_int xs))"
    by simp_all
  then show ?case using Cons.IH by (simp add: load32_def)
qed simp

section \<open>Arguments stay inside the process\<close>

definition arg_addr :: "('c, 'w) kst \<Rightarrow> nat \<Rightarrow> i32 \<Rightarrow> u32" where
  "arg_addr s i n = tf_esp (tfs s (p_tf (proc_at s i))) + 4 + 4 * n"

text \<open>
  Process \<open>i\<close> as the kernel sees it in a system call: its memory below \<open>sz\<close> is accessible, and
  \<open>sz\<close> is below the kernel's half of the address space, so address arithmetic does not wrap.
\<close>

definition user_ok :: "('w \<Rightarrow> u32 \<Rightarrow> bool) \<Rightarrow> ('c, 'w) kst \<Rightarrow> nat \<Rightarrow> bool" where
  "user_ok ok s i \<longleftrightarrow> p_sz (proc_at s i) \<le> 0x80000000 \<and> (\<forall>a < p_sz (proc_at s i). ok (world s) a)"

lemma proc_at_mach [simp]: "proc_at (s\<lparr>mach := m\<rparr>) i = proc_at s i"
  by simp

lemma in_bounds:
  assumes "sz \<le> (0x80000000 :: u32)" and "unat n < 2 ^ 31"
  shows "\<not> (sz \<le> a \<or> sz < a + n) \<longleftrightarrow> unat a < unat sz \<and> unat a + unat n \<le> unat sz"
proof -
  have sz: "unat sz \<le> 2 ^ 31" using assms(1) by (simp add: word_le_nat_alt)
  show ?thesis
  proof (cases "unat a < unat sz")
    case True
    then have "unat (a + n) = unat a + unat n" using sz assms(2) by (intro unat_add_no_overflow) simp
    then show ?thesis using True by (auto simp: word_le_nat_alt word_less_nat_alt)
  next
    case False
    then show ?thesis by (auto simp: word_le_nat_alt)
  qed
qed

lemma below:
  assumes "unat a + n \<le> unat (sz :: u32)" and "k < n"
  shows "a + of_nat k < sz"
proof -
  have "unat sz < 2 ^ 32" using unsigned_less [of sz] by simp
  then have "unat (of_nat k :: u32) = k" using assms by (simp add: unat_of_nat)
  then have "unat (a + of_nat k) = unat a + k"
    using assms \<open>unat sz < 2 ^ 32\<close> unat_add_no_overflow [of a "of_nat k"] by simp
  then show ?thesis using assms by (simp add: word_less_nat_alt)
qed

text \<open>
  The words that the kernel should see: the argument, if it lies in the process; the pointer, if
  the block it points to does.
\<close>

definition in_proc :: "('c, 'w) kst \<Rightarrow> nat \<Rightarrow> u32 \<Rightarrow> nat \<Rightarrow> bool" where
  "in_proc s i a n \<longleftrightarrow> unat a < unat (p_sz (proc_at s i)) \<and> unat a + n \<le> unat (p_sz (proc_at s i))"

definition word_at :: "('c, 'w) uext \<Rightarrow> ('c, 'w) kst \<Rightarrow> nat \<Rightarrow> u32 \<Rightarrow> i32 option" where
  "word_at U s i a =
     (if in_proc s i a 4 then case load32 U a (world s) of Ret x \<Rightarrow> Some x | _ \<Rightarrow> None else None)"

definition block_at :: "('c, 'w) kst \<Rightarrow> nat \<Rightarrow> i32 \<Rightarrow> u32 \<Rightarrow> u32 option" where
  "block_at s i len p = (if 0 \<le> sint len \<and> in_proc s i p (unat len) then Some p else None)"

text \<open>A string of length \<open>len\<close> with its null byte, inside the process.\<close>

definition string_at :: "('c, 'w) uext \<Rightarrow> ('c, 'w) kst \<Rightarrow> nat \<Rightarrow> u32 \<Rightarrow> u32 \<Rightarrow> bool" where
  "string_at U s i p len \<longleftrightarrow> in_proc s i p (unat len + 1) \<and> load8 U (p + len) (world s) = Ret 0 \<and>
     (\<forall>k < len. load8 U (p + k) (world s) \<noteq> Ret 0)"

text \<open>A pointer, if it points into the process.\<close>

definition inside :: "('c, 'w) kst \<Rightarrow> nat \<Rightarrow> u32 option \<Rightarrow> u32 option" where
  "inside s i q = (case q of Some p \<Rightarrow> if p < p_sz (proc_at s i) then Some p else None | None \<Rightarrow> None)"

lemma spec_mach [simp]:
  "in_proc (s\<lparr>mach := m\<rparr>) = in_proc s" "word_at U (s\<lparr>mach := m\<rparr>) = word_at U s"
  "block_at (s\<lparr>mach := m\<rparr>) = block_at s" "arg_addr (s\<lparr>mach := m\<rparr>) = arg_addr s"
  "user_ok ok (s\<lparr>mach := m\<rparr>) = user_ok ok s" "string_at U (s\<lparr>mach := m\<rparr>) = string_at U s"
  by (simp_all add: fun_eq_iff in_proc_def word_at_def block_at_def arg_addr_def user_ok_def string_at_def)

locale syscall_env = spinlock_laws E + user_mem U ok
  for E :: "('c, 'w) ext" and U :: "('c, 'w) uext" and ok
begin

lemma in_proc_ok: "user_ok ok s i \<Longrightarrow> in_proc s i a n \<Longrightarrow> k < n \<Longrightarrow> ok (world s) (a + of_nat k)"
  using below [of a n "p_sz (proc_at s i)" k] by (simp add: user_ok_def in_proc_def)

lemma word_at_load:
  "user_ok ok s i \<Longrightarrow> in_proc s i a 4 \<Longrightarrow> \<exists>x. load32 U a (world s) = Ret x \<and> word_at U s i a = Some x"
  using load32_ok [of "world s" a] in_proc_ok [of s i a 4] by (auto simp: word_at_def)

lemma fetchint_run:
  assumes "lock_view E (mach s) c k H P" and "k < max_depth" and "P ! c = Some i" and "user_ok ok s i"
  shows "\<exists>m. lock_view E m c k H P \<and> fetchint E U a s = Ret (word_at U s i a, s\<lparr>mach := m\<rparr>)"
proof -
  from curproc_view [OF assms(1-3)] obtain m where m: "curproc E s = Ret (i, s\<lparr>mach := m\<rparr>)" "lock_view E m c k H P"
    by blast
  have "\<not> (p_sz (proc_at s i) \<le> a \<or> p_sz (proc_at s i) < a + 4) \<longleftrightarrow> in_proc s i a 4"
    using assms(4) in_bounds [of "p_sz (proc_at s i)" 4 a] by (simp add: user_ok_def in_proc_def)
  then show ?thesis using m word_at_load [OF assms(4), of a]
    by (cases "in_proc s i a 4") (auto simp: fetchint_def word_at_def intro!: exI [of _ m])
qed

lemma argint_run:
  assumes "lock_view E (mach s) c k H P" and "k < max_depth" and "P ! c = Some i" and "user_ok ok s i"
  shows "\<exists>m. lock_view E m c k H P \<and> argint E U n s = Ret (word_at U s i (arg_addr s i n), s\<lparr>mach := m\<rparr>)"
proof -
  from curproc_view [OF assms(1-3)] obtain m where m: "curproc E s = Ret (i, s\<lparr>mach := m\<rparr>)" "lock_view E m c k H P"
    by blast
  then show ?thesis
    using fetchint_run [of "s\<lparr>mach := m\<rparr>" c k H P i "arg_addr s i n"] assms(2-4)
    by (simp add: argint_def arg_addr_def)
qed

lemma argptr_run:
  assumes "lock_view E (mach s) c k H P" and "k < max_depth" and "P ! c = Some i" and "user_ok ok s i"
  shows "\<exists>m. lock_view E m c k H P \<and>
    argptr E U n len s = Ret (Option.bind (word_at U s i (arg_addr s i n)) (block_at s i len), s\<lparr>mach := m\<rparr>)"
proof -
  from curproc_view [OF assms(1-3)] obtain m0 where m0: "curproc E s = Ret (i, s\<lparr>mach := m0\<rparr>)" "lock_view E m0 c k H P"
    by blast
  from argint_run [of "s\<lparr>mach := m0\<rparr>" c k H P i n] m0(2) assms(2-4) obtain m where m: "lock_view E m c k H P"
     "argint E U n (s\<lparr>mach := m0\<rparr>) = Ret (word_at U s i (arg_addr s i n), s\<lparr>mach := m\<rparr>)"
    by auto
  have "\<not> (slt len 0 \<or> p_sz (proc_at s i) \<le> p \<or> p_sz (proc_at s i) < p + len) \<longleftrightarrow>
      0 \<le> sint len \<and> in_proc s i p (unat len)" for p
    using in_bounds [of "p_sz (proc_at s i)" len p] sint_nonneg [of len] assms(4)
    by (cases "slt len 0") (auto simp: user_ok_def in_proc_def)
  then show ?thesis using m0(1) m
    by (cases "word_at U s i (arg_addr s i n)") (auto simp: argptr_def block_at_def)
qed

lemma find_nul_run:
  assumes "\<And>a. a < ep \<Longrightarrow> ok w a"
  shows "\<exists>r. find_nul U p ep w = Ret r \<and>
    (case r of
       None \<Rightarrow> \<forall>x. p \<le> x \<and> x < ep \<longrightarrow> load8 U x w \<noteq> Ret 0
     | Some q \<Rightarrow> p \<le> q \<and> q < ep \<and> load8 U q w = Ret 0 \<and> (\<forall>x. p \<le> x \<and> x < q \<longrightarrow> load8 U x w \<noteq> Ret 0))"
proof (induction "unat ep - unat p" arbitrary: p rule: less_induct)
  case less
  show ?case
  proof (cases "p < ep")
    case True
    then obtain b where b: "load8 U p w = Ret b" using load_law assms by blast
    have "unat p < unat ep" using True by (simp add: word_less_nat_alt)
    moreover have "unat ep < 2 ^ 32" using unsigned_less [of ep] by simp
    ultimately have p1: "unat (p + 1) = unat p + 1" using unat_add_no_overflow [of p 1] by simp
    then have le: "p + 1 \<le> x \<longleftrightarrow> p < x" for x by (simp add: word_less_nat_alt word_le_nat_alt Suc_le_eq)
    from p1 have "unat ep - unat (p + 1) < unat ep - unat p" using True by (simp add: word_less_nat_alt)
    from less [OF this] obtain r where r: "find_nul U (p + 1) ep w = Ret r"
      "case r of None \<Rightarrow> \<forall>x. p < x \<and> x < ep \<longrightarrow> load8 U x w \<noteq> Ret 0
       | Some q \<Rightarrow> p < q \<and> q < ep \<and> load8 U q w = Ret 0 \<and> (\<forall>x. p < x \<and> x < q \<longrightarrow> load8 U x w \<noteq> Ret 0)"
      unfolding le by blast
    show ?thesis using b True r
      by (subst find_nul.simps) (auto simp: le_less split: option.splits)
  next
    case False
    then show ?thesis by (subst find_nul.simps) auto
  qed
qed

lemma first_nul:
  assumes "p \<le> q" and "q < p_sz (proc_at s i)" and "load8 U q (world s) = Ret 0"
    and "\<forall>x. p \<le> x \<and> x < q \<longrightarrow> load8 U x (world s) \<noteq> Ret 0"
  shows "string_at U s i p len \<longleftrightarrow> len = q - p"
proof
  assume "len = q - p"
  moreover have "unat p + unat (q - p) = unat q" using assms(1) by (simp add: unat_sub word_le_nat_alt)
  moreover have "p \<le> p + k \<and> p + k < q" if "k < q - p" for k
  proof -
    have "unat p + unat k < unat q" using that \<open>unat p + unat (q - p) = unat q\<close> by (simp add: word_less_nat_alt)
    then have "unat (p + k) = unat p + unat k"
      using unat_u32_less [of q] by (intro unat_add_no_overflow) simp
    then show ?thesis using \<open>unat p + unat k < unat q\<close> by (simp add: word_less_nat_alt word_le_nat_alt)
  qed
  ultimately show "string_at U s i p len"
    using assms by (auto simp: string_at_def in_proc_def word_less_nat_alt word_le_nat_alt)
next
  assume str: "string_at U s i p len"
  then have "unat (p + len) = unat p + unat len"
    using unat_u32_less [of "p_sz (proc_at s i)"] by (intro unat_add_no_overflow) (simp add: string_at_def in_proc_def)
  then have "p \<le> p + len" by (simp add: word_le_nat_alt)
  then have "\<not> p + len < q" using assms(4) str by (auto simp: string_at_def)
  moreover have "\<not> q < p + len"
  proof
    assume "q < p + len"
    then have "unat (q - p) < unat len"
      using assms(1) \<open>unat (p + len) = _\<close> by (simp add: unat_sub word_le_nat_alt word_less_nat_alt)
    then show False using str assms(3) by (auto simp: string_at_def word_less_nat_alt dest!: spec [of _ "q - p"])
  qed
  ultimately show "len = q - p" by auto
qed

lemma argstr_run:
  assumes "lock_view E (mach s) c k H P" and "k < max_depth" and "P ! c = Some i" and "user_ok ok s i"
  shows "\<exists>m r. lock_view E m c k H P \<and>
    argstr E U n s = Ret (r, inside s i (word_at U s i (arg_addr s i n)), s\<lparr>mach := m\<rparr>) \<and>
    (\<forall>len. r = Some len \<longleftrightarrow> (\<exists>p. word_at U s i (arg_addr s i n) = Some p \<and> string_at U s i p len))"
proof -
  let ?sz = "p_sz (proc_at s i)"
  from argint_run [OF assms] obtain m0 where m0: "lock_view E m0 c k H P"
     "argint E U n s = Ret (word_at U s i (arg_addr s i n), s\<lparr>mach := m0\<rparr>)" by blast
  from curproc_view [of "s\<lparr>mach := m0\<rparr>" c k H P i] m0(1) assms(2,3) obtain m
    where m: "curproc E (s\<lparr>mach := m0\<rparr>) = Ret (i, s\<lparr>mach := m\<rparr>)" "lock_view E m c k H P" by auto
  show ?thesis
  proof (cases "word_at U s i (arg_addr s i n)")
    case None
    then show ?thesis using m0 by (auto simp: argstr_def inside_def)
  next
    case (Some p)
    from find_nul_run [of ?sz "world s" p] assms(4) obtain r where r: "find_nul U p ?sz (world s) = Ret r"
      "case r of None \<Rightarrow> \<forall>x. p \<le> x \<and> x < ?sz \<longrightarrow> load8 U x (world s) \<noteq> Ret 0
       | Some q \<Rightarrow> p \<le> q \<and> q < ?sz \<and> load8 U q (world s) = Ret 0 \<and> (\<forall>x. p \<le> x \<and> x < q \<longrightarrow> load8 U x (world s) \<noteq> Ret 0)"
      by (auto simp: user_ok_def)
    have none: "\<not> string_at U s i p len" if "?sz \<le> p \<or> r = None" for len
    proof
      assume str: "string_at U s i p len"
      then have "unat (p + len) = unat p + unat len"
        using unat_u32_less [of ?sz] by (intro unat_add_no_overflow) (simp add: string_at_def in_proc_def)
      then show False
        using that r(2) str by (auto simp: string_at_def in_proc_def word_le_nat_alt word_less_nat_alt dest!: spec [of _ "p + len"])
    qed
    have str: "string_at U s i p len \<longleftrightarrow> r = Some (p + len)" for len
      using none [of len] r(2) first_nul [of p _ s i len] by (cases r) (auto simp: algebra_simps)
    show ?thesis
    proof (cases "?sz \<le> p")
      case True
      then show ?thesis using m0 m Some none by (auto simp: argstr_def fetchstr_def inside_def)
    next
      case False
      then show ?thesis using m0 m Some r(1) str
        by (cases r) (auto simp: argstr_def fetchstr_def inside_def)
    qed
  qed
qed

text \<open>What the dispatcher does around a handler.\<close>

lemma syscall_run:
  assumes "lock_view E (mach s) c k H P" and "k < max_depth" and "P ! c = Some i"
    and num: "tf_eax (tfs s (p_tf (proc_at s i))) = of_nat q" "q < nelem_syscalls"
      "map_of (syscalls fuel E U sw) q = Some f"
  shows "\<exists>m. lock_view E m c k H P \<and> syscall fuel E U sw s =
    obind (f (s\<lparr>mach := m\<rparr>)) (\<lambda>(r, s'). Ret (None, upd_tf (p_tf (proc_at s' i)) (\<lambda>t. t\<lparr>tf_eax := r\<rparr>) s'))"
proof -
  from curproc_view [OF assms(1-3)] obtain m where m: "curproc E s = Ret (i, s\<lparr>mach := m\<rparr>)" "lock_view E m c k H P"
    by blast
  have "0 < q" using num(3) by (cases q) (auto simp: syscalls_def SYS_defs)
  moreover have "unat (of_nat q :: u32) = q" using num(2) by (simp add: unat_of_nat nelem_syscalls_def SYS_defs)
  ultimately have "slt 0 (of_nat q)" "unat (of_nat q :: u32) = q"
    using sint_eq_unat_if_small [of "of_nat q"] num(2) by (simp_all add: nelem_syscalls_def SYS_defs)
  then show ?thesis using m num by (intro exI [of _ m]) (simp add: syscall_def)
qed

text \<open>\<open>settickets\<close> from the trap on.\<close>

lemma sys_settickets_run:
  assumes "lock_view E (mach s) c k H P" and "k < max_depth" and "P ! c = Some i" and "user_ok ok s i"
    and "PtableLock \<notin> H"
  shows "\<exists>m. lock_view E m c k H P \<and> sys_settickets E U s =
    (case word_at U s i (arg_addr s i 0) of
       Some t \<Rightarrow> if 1 \<le> sint t then Ret (0, (upd_proc i (\<lambda>p. p\<lparr>p_tickets := t\<rparr>) s)\<lparr>mach := m\<rparr>)
                else Ret (- 1, s\<lparr>mach := m\<rparr>)
     | None \<Rightarrow> Ret (- 1, s\<lparr>mach := m\<rparr>))"
proof -
  from argint_run [OF assms(1-4)] obtain m0 where m0: "lock_view E m0 c k H P"
     "argint E U 0 s = Ret (word_at U s i (arg_addr s i 0), s\<lparr>mach := m0\<rparr>)" by blast
  have v: "lock_view E (mach (s\<lparr>mach := m0\<rparr>)) c k H P" using m0(1) by simp
  show ?thesis
  proof (cases "word_at U s i (arg_addr s i 0)")
    case (Some t)
    show ?thesis
      using settickets_run [OF v assms(2,5,3), of t] m0 Some
      by (cases "1 \<le> sint t") (auto simp: sys_settickets_def settickets_def upd_proc_mach)
  qed (use m0 in \<open>auto simp: sys_settickets_def\<close>)
qed

text \<open>The structure in user memory.\<close>

lemma load_pstat_ok:
  assumes "\<And>k. k < 16 * NPROC \<Longrightarrow> ok w (a + of_nat k)"
  shows "\<exists>q. load_pstat U a w = Ret q \<and> pstat_sized NPROC q"
proof -
  obtain xs where "load_ints U a (4 * NPROC) w = Ret xs" "length xs = 4 * NPROC"
    using load_ints_ok [of "4 * NPROC" w a] assms by auto
  then show ?thesis by (auto simp: load_pstat_def pstat_sized_def)
qed

lemma store_pstat_ok:
  assumes "\<And>k. k < 16 * NPROC \<Longrightarrow> ok w (a + of_nat k)" and "pstat_sized NPROC q"
  shows "\<exists>w'. store_pstat U a q w = Ret w' \<and> load_pstat U a w' = Ret q \<and>
    (\<forall>x. 16 * NPROC \<le> unat (x - a) \<longrightarrow> load8 U x w' = load8 U x w)"
proof -
  define xs where "xs = ps_inuse q @ ps_tickets q @ ps_pid q @ ps_ticks q"
  have n: "length xs = 4 * NPROC" using assms(2) by (simp add: xs_def pstat_sized_def)
  have len: "length (concat (map bytes_of_int xs)) = 4 * length xs" for xs by (induction xs) auto
  obtain w' where w': "store_bytes U a (concat (map bytes_of_int xs)) w = Ret w'"
    "load_bytes U a (4 * length xs) w' = Ret (concat (map bytes_of_int xs))"
    "\<forall>x. 4 * length xs \<le> unat (x - a) \<longrightarrow> load8 U x w' = load8 U x w"
    using store_bytes_ok [of "concat (map bytes_of_int xs)" w a] assms(1) n
    by (auto simp: len NPROC_def)
  from load_ints_bytes [OF w'(2)] have "load_pstat U a w' = Ret q"
    using assms(2) by (simp add: n load_pstat_def) (simp add: xs_def pstat_sized_def)
  then show ?thesis using w' n by (auto simp: store_pstat_def store_ints_def xs_def [symmetric])
qed

lemma sys_getpinfo_run:
  assumes "lock_view E (mach s) c k H P" and "k < max_depth" and "P ! c = Some i" and "user_ok ok s i"
    and "PtableLock \<notin> H" and "length (ptable s) = NPROC"
  shows "\<exists>m w'. lock_view E m c k H P \<and>
    (case Option.bind (word_at U s i (arg_addr s i 0)) (block_at s i sizeof_pstat) of
       Some a \<Rightarrow>
         if a = 0 then sys_getpinfo E U s = Ret (- 1, s\<lparr>mach := m\<rparr>)
         else sys_getpinfo E U s = Ret (0, s\<lparr>mach := m, world := w'\<rparr>) \<and>
              load_pstat U a w' = Ret (pstat_of (ptable s)) \<and>
              (\<forall>x. 16 * NPROC \<le> unat (x - a) \<longrightarrow> load8 U x w' = load8 U x (world s))
     | None \<Rightarrow> sys_getpinfo E U s = Ret (- 1, s\<lparr>mach := m\<rparr>))"
proof -
  from argptr_run [OF assms(1-4)] obtain m0 where m0: "lock_view E m0 c k H P" "argptr E U 0 sizeof_pstat s =
      Ret (Option.bind (word_at U s i (arg_addr s i 0)) (block_at s i sizeof_pstat), s\<lparr>mach := m0\<rparr>)" by blast
  show ?thesis
  proof (cases "Option.bind (word_at U s i (arg_addr s i 0)) (block_at s i sizeof_pstat)")
    case (Some a)
    then have "in_proc s i a (16 * NPROC)"
      by (auto simp: Option.bind_eq_Some_conv block_at_def sizeof_pstat_def NPROC_def split: if_splits)
    then have acc: "ok (world s) (a + of_nat j)" if "j < 16 * NPROC" for j
      using in_proc_ok [OF assms(4)] that by blast
    from load_pstat_ok [OF acc] obtain q where q: "load_pstat U a (world s) = Ret q" "pstat_sized NPROC q" by blast
    have "pstat_sized NPROC (pstat_of (ptable s))" using assms(6) by (simp add: pstat_of_def pstat_sized_def)
    from store_pstat_ok [OF acc this] obtain w' where w': "store_pstat U a (pstat_of (ptable s)) (world s) = Ret w'"
      "load_pstat U a w' = Ret (pstat_of (ptable s))"
      "\<forall>x. 16 * NPROC \<le> unat (x - a) \<longrightarrow> load8 U x w' = load8 U x (world s)" by blast
    from getpinfo_run [of "s\<lparr>mach := m0\<rparr>" c k H P q] m0(1) assms(2,5) fill_clear_pstat [of "ptable s" q] q(2) assms(6)
    obtain m where "getpinfo E (Some q) (s\<lparr>mach := m0\<rparr>) = Ret (0, Some (pstat_of (ptable s)), s\<lparr>mach := m\<rparr>)"
      "lock_view E m c k H P" by auto
    then show ?thesis using m0 q(1) w' Some
      by (cases "a = 0") (auto simp: sys_getpinfo_def getpinfo_def on_world_def)
  qed (use m0 in \<open>auto simp: sys_getpinfo_def\<close>)
qed

end

section \<open>A reference user memory\<close>

text \<open>
  A world that is the memory of one process: a byte where a page is mapped, a trap elsewhere.
\<close>

definition ref_user :: "(ref_hw, u32 \<rightharpoonup> u8) uext" where
  "ref_user =
     \<lparr>load8 = (\<lambda>a w. case w a of Some b \<Rightarrow> Ret b | None \<Rightarrow> Panic ''trap''),
      store8 = (\<lambda>a b w. case w a of Some _ \<Rightarrow> Ret (w(a \<mapsto> b)) | None \<Rightarrow> Panic ''trap''),
      sysfile = (\<lambda>_ s. Ret (- 1, s))\<rparr>"

definition ref_mapped :: "(u32 \<rightharpoonup> u8) \<Rightarrow> u32 \<Rightarrow> bool" where
  "ref_mapped w a \<longleftrightarrow> w a \<noteq> None"

definition ref_mem_ext :: "(ref_hw, u32 \<rightharpoonup> u8) ext" where
  "ref_mem_ext = ref_ext_of (\<lambda>w. Ret (0, w)) (\<lambda>_. Ret)"

interpretation refu: user_mem ref_user ref_mapped
proof
  fix w :: "u32 \<rightharpoonup> u8" and a b
  assume "ref_mapped w a"
  then show "\<exists>w'. store8 ref_user a b w = Ret w' \<and> load8 ref_user a w' = Ret b \<and>
      (\<forall>x. x \<noteq> a \<longrightarrow> load8 ref_user x w' = load8 ref_user x w) \<and> ref_mapped w' = ref_mapped w"
    by (intro exI [of _ "w(a \<mapsto> b)"]) (auto simp: ref_user_def ref_mapped_def fun_eq_iff)
qed (auto simp: ref_user_def ref_mapped_def)

interpretation refsys: syscall_env ref_mem_ext ref_user ref_mapped
  unfolding ref_mem_ext_def
  by (intro syscall_env.intro refof.spinlock_laws_axioms refu.user_mem_axioms)

text \<open>
  The concrete process 1 of 8192 bytes, with its stack pointer at 4096 and a word \<open>x\<close> as the first
  argument.
\<close>

definition demo_sys :: "i32 \<Rightarrow> u32 \<Rightarrow> (ref_hw, u32 \<rightharpoonup> u8) kst" where
  "demo_sys num x =
     \<lparr>ptable = demo_ptable[1 := demo_proc RUNNING 2 (Some 0) ChanNull 8\<lparr>p_sz := 8192\<rparr>],
      initproc = Some 0, nextpid = 5, forkret_first = False, seed = 1, ticks = 0,
      tfs = (\<lambda>_. \<lparr>tf_eax = num, tf_esp = 4096, tf_eip = 0, tf_eflags = 0, tf_cs = 0, tf_ds = 0,
                  tf_es = 0, tf_ss = 0, tf_rest = []\<rparr>),
      ctxs = (\<lambda>_. \<lparr>ctx_edi = 0, ctx_esi = 0, ctx_ebx = 0, ctx_ebp = 0, ctx_eip = 0\<rparr>),
      stack_words = (\<lambda>_. 0), mach = demo_mach,
      world = (\<lambda>a. if a < 8192 then Some (if 4100 \<le> a \<and> a < 4104 then bytes_of_int x ! unat (a - 4100) else 65)
                   else None)\<rparr>"

lemma demo_sys_simps [simp]:
  "mach (demo_sys num x) = demo_mach" "length (ptable (demo_sys num x)) = 64"
  "p_sz (proc_at (demo_sys num x) (Suc 0)) = 8192" "arg_addr (demo_sys num x) (Suc 0) 0 = 4100"
  "tf_eax (tfs (demo_sys num x) a) = num" "initproc (demo_sys num x) = Some 0"
  by (simp_all add: demo_sys_def arg_addr_def)

lemma demo_sys_view: "lock_view ref_mem_ext demo_mach 0 0 {} [Some 1, None]"
  using demo_view by (simp add: lock_view_of lock_view_ref ref_mem_ext_def)

lemma demo_sys_user: "user_ok ref_mapped (demo_sys num x) (Suc 0)"
  by (simp add: user_ok_def) (simp add: demo_sys_def ref_mapped_def)

lemma demo_sys_word: "word_at ref_user (demo_sys num x) (Suc 0) 4100 = Some x"
proof -
  have four: "4 = Suc (Suc (Suc (Suc 0)))" by simp
  have "load_bytes ref_user 4100 4 (world (demo_sys num x)) = Ret (bytes_of_int x)"
    unfolding four by (simp add: ref_user_def demo_sys_def bytes_of_int_def)
  then show ?thesis by (simp add: word_at_def in_proc_def load32_def)
qed

section \<open>What system calls do\<close>

text \<open>
  (C36) The argument routines of \<open>syscall.c\<close> never fault and never let a pointer outside the process
  through: \<open>argint\<close> gives the word on the user stack exactly when all its four bytes are in the
  process, \<open>argptr\<close> a pointer exactly when the whole block is, and \<open>argstr\<close> a string exactly when
  its null byte is, with its length; the pointer it stores is the argument, when that points into the
  process. Nothing else changes.
\<close>

theorem syscall_args_safe:
  fixes n :: i32
  assumes "spinlock_laws E" and "user_mem U ok" and "lock_view E (mach s) c k H P" and "k < max_depth"
    and "P ! c = Some i" and "user_ok ok s i"
  defines "arg \<equiv> word_at U s i (arg_addr s i n)"
  shows "(arg \<noteq> None \<longleftrightarrow> in_proc s i (arg_addr s i n) 4) \<and>
    (\<exists>m. lock_view E m c k H P \<and> argint E U n s = Ret (arg, s\<lparr>mach := m\<rparr>)) \<and>
    (\<exists>m. lock_view E m c k H P \<and>
         argptr E U n len s =
           Ret (case arg of Some p \<Rightarrow> if 0 \<le> sint len \<and> in_proc s i p (unat len) then Some p else None
                | None \<Rightarrow> None, s\<lparr>mach := m\<rparr>)) \<and>
    (\<exists>m r. lock_view E m c k H P \<and> argstr E U n s = Ret (r, inside s i arg, s\<lparr>mach := m\<rparr>) \<and>
         (\<forall>len. r = Some len \<longleftrightarrow> (\<exists>p. arg = Some p \<and> string_at U s i p len)))"
proof -
  have env: "syscall_env E U ok" using assms(1,2) by (rule syscall_env.intro)
  have "arg \<noteq> None \<longleftrightarrow> in_proc s i (arg_addr s i n) 4"
    using syscall_env.word_at_load [OF env assms(6), of "arg_addr s i n"] by (auto simp: arg_def word_at_def)
  then show ?thesis
    using syscall_env.argint_run [OF env assms(3-6), of n] syscall_env.argptr_run [OF env assms(3-6), of n len]
      syscall_env.argstr_run [OF env assms(3-6), of n]
    by (cases arg) (auto simp: arg_def block_at_def)
qed

theorem syscall_args_safe_witness:
  "(\<exists>m. argint ref_mem_ext ref_user 0 (demo_sys 22 20) = Ret (Some 20, (demo_sys 22 20)\<lparr>mach := m\<rparr>)) \<and>
   (\<exists>m. argptr ref_mem_ext ref_user 0 8192 (demo_sys 22 20) = Ret (None, (demo_sys 22 20)\<lparr>mach := m\<rparr>))"
  using syscall_args_safe [OF refsys.spinlock_laws_axioms refu.user_mem_axioms, of "demo_sys 22 20" 0 0 "{}" "[Some 1, None]" 1 0 8192]
    demo_sys_view demo_sys_user [of 22 20] demo_sys_word [of 22 20]
  by (auto simp: in_proc_def)

text \<open>
  The \<open>settickets\<close> system call end to end, from the trap frame to the process table: the dispatcher
  selects it by its number, the argument comes from the user stack, and the caller's ticket count is
  set to it and 0 returned in \<open>eax\<close>; when the argument is outside the process or below one, -1 is
  returned and nothing else changes.
\<close>

theorem syscall_settickets_correct:
  assumes "spinlock_laws E" and "user_mem U ok" and "lock_view E (mach s) c k H P" and "k < max_depth"
    and "P ! c = Some i" and "user_ok ok s i" and "PtableLock \<notin> H"
    and "i < length (ptable s)" and "tf_eax (tfs s (p_tf (proc_at s i))) = 22"
  shows "\<exists>m. lock_view E m c k H P \<and> syscall fuel E U sw s =
    (let ret = (\<lambda>r s. Ret (None, upd_tf (p_tf (proc_at s i)) (\<lambda>t. t\<lparr>tf_eax := r\<rparr>) (s\<lparr>mach := m\<rparr>)))
     in case word_at U s i (arg_addr s i 0) of
          Some t \<Rightarrow> if 1 \<le> sint t then ret 0 (upd_proc i (\<lambda>p. p\<lparr>p_tickets := t\<rparr>) s) else ret (- 1) s
        | None \<Rightarrow> ret (- 1) s)"
proof -
  have env: "syscall_env E U ok" using assms(1,2) by (rule syscall_env.intro)
  have "map_of (syscalls fuel E U sw) 22 = Some (sys_settickets E U)" by (simp add: syscalls_def SYS_defs)
  with syscall_env.syscall_run [OF env assms(3-5), of 22 fuel sw "sys_settickets E U"] assms(9) obtain m0
    where m0: "lock_view E m0 c k H P" "syscall fuel E U sw s =
      obind (sys_settickets E U (s\<lparr>mach := m0\<rparr>)) (\<lambda>(r, s'). Ret (None, upd_tf (p_tf (proc_at s' i)) (\<lambda>t. t\<lparr>tf_eax := r\<rparr>) s'))"
    by (auto simp: nelem_syscalls_def SYS_defs)
  from syscall_env.sys_settickets_run [OF env, of "s\<lparr>mach := m0\<rparr>" c k H P i] m0(1) assms(4-7) obtain m
    where m: "lock_view E m c k H P" "sys_settickets E U (s\<lparr>mach := m0\<rparr>) =
     (case word_at U s i (arg_addr s i 0) of
       Some t \<Rightarrow> if 1 \<le> sint t then Ret (0, (upd_proc i (\<lambda>p. p\<lparr>p_tickets := t\<rparr>) s)\<lparr>mach := m\<rparr>)
                else Ret (- 1, s\<lparr>mach := m\<rparr>)
     | None \<Rightarrow> Ret (- 1, s\<lparr>mach := m\<rparr>))"
    by (cases "word_at U s i (arg_addr s i 0)") (auto simp: upd_proc_mach split: if_splits)
  show ?thesis using m0(2) m assms(8)
    by (intro exI [of _ m]) (auto simp: Let_def split: option.splits)
qed

theorem syscall_settickets_correct_witness:
  "\<exists>t. syscall 0 ref_mem_ext ref_user Ret (demo_sys 22 20) = Ret (None, t) \<and> p_tickets (proc_at t 1) = 20 \<and>
     tf_eax (tfs t (p_tf (proc_at t 1))) = 0"
proof -
  obtain m where "syscall 0 ref_mem_ext ref_user Ret (demo_sys 22 20) =
    Ret (None, upd_tf (p_tf (proc_at (upd_proc 1 (\<lambda>p. p\<lparr>p_tickets := 20\<rparr>) (demo_sys 22 20)) 1)) (\<lambda>t. t\<lparr>tf_eax := 0\<rparr>)
      ((upd_proc 1 (\<lambda>p. p\<lparr>p_tickets := 20\<rparr>) (demo_sys 22 20))\<lparr>mach := m\<rparr>))"
    using syscall_settickets_correct [OF refsys.spinlock_laws_axioms refu.user_mem_axioms, of "demo_sys 22 20" 0 0 "{}" "[Some 1, None]" 1 0 Ret]
      demo_sys_view demo_sys_user [of 22 20] demo_sys_word [of 22 20] by auto
  then show ?thesis by (simp add: upd_tf_def)
qed

lemma syscall_getpinfo_run:
  assumes "spinlock_laws E" and "user_mem U ok" and "lock_view E (mach s) c k H P" and "k < max_depth"
    and "P ! c = Some i" and "user_ok ok s i" and "PtableLock \<notin> H"
    and "length (ptable s) = NPROC" and "tf_eax (tfs s (p_tf (proc_at s i))) = 23"
  shows "\<exists>m w' r. lock_view E m c k H P \<and>
    syscall fuel E U sw s =
      Ret (None, upd_tf (p_tf (proc_at s i)) (\<lambda>t. t\<lparr>tf_eax := r\<rparr>) (s\<lparr>mach := m, world := w'\<rparr>)) \<and>
    (case word_at U s i (arg_addr s i 0) of
       Some a \<Rightarrow>
         if a \<noteq> 0 \<and> in_proc s i a 1024
         then r = 0 \<and> load_pstat U a w' = Ret (pstat_of (ptable s)) \<and>
              (\<forall>x. 1024 \<le> unat (x - a) \<longrightarrow> load8 U x w' = load8 U x (world s))
         else r = - 1 \<and> w' = world s
     | None \<Rightarrow> r = - 1 \<and> w' = world s)"
proof -
  let ?arg = "word_at U s i (arg_addr s i 0)"
  have env: "syscall_env E U ok" using assms(1,2) by (rule syscall_env.intro)
  have "map_of (syscalls fuel E U sw) 23 = Some (sys_getpinfo E U)" by (simp add: syscalls_def SYS_defs)
  with syscall_env.syscall_run [OF env assms(3-5), of 23 fuel sw "sys_getpinfo E U"] assms(9) obtain m0
    where m0: "lock_view E m0 c k H P" "syscall fuel E U sw s =
      obind (sys_getpinfo E U (s\<lparr>mach := m0\<rparr>)) (\<lambda>(r, s'). Ret (None, upd_tf (p_tf (proc_at s' i)) (\<lambda>t. t\<lparr>tf_eax := r\<rparr>) s'))"
    by (auto simp: nelem_syscalls_def SYS_defs)
  have n: "16 * NPROC = 1024" "sizeof_pstat = 1024" by (simp_all add: NPROC_def sizeof_pstat_def)
  have same: "s\<lparr>mach := m\<rparr> = s\<lparr>mach := m, world := world s\<rparr>" for m by simp
  from syscall_env.sys_getpinfo_run [OF env, of "s\<lparr>mach := m0\<rparr>" c k H P i] m0(1) assms(4-8)
  obtain m w' where m: "lock_view E m c k H P"
    "case ?arg of
       Some a \<Rightarrow>
         if a \<noteq> 0 \<and> in_proc s i a 1024
         then sys_getpinfo E U (s\<lparr>mach := m0\<rparr>) = Ret (0, s\<lparr>mach := m, world := w'\<rparr>) \<and>
              load_pstat U a w' = Ret (pstat_of (ptable s)) \<and>
              (\<forall>x. 1024 \<le> unat (x - a) \<longrightarrow> load8 U x w' = load8 U x (world s))
         else sys_getpinfo E U (s\<lparr>mach := m0\<rparr>) = Ret (- 1, s\<lparr>mach := m\<rparr>)
     | None \<Rightarrow> sys_getpinfo E U (s\<lparr>mach := m0\<rparr>) = Ret (- 1, s\<lparr>mach := m\<rparr>)"
    by (cases ?arg) (auto simp: block_at_def n split: if_splits)
  show ?thesis
  proof (cases "\<exists>a. ?arg = Some a \<and> a \<noteq> 0 \<and> in_proc s i a 1024")
    case True
    then show ?thesis using m m0(2) by (intro exI [of _ m] exI [of _ w'] exI [of _ 0]) auto
  next
    case False
    then have "sys_getpinfo E U (s\<lparr>mach := m0\<rparr>) = Ret (- 1, s\<lparr>mach := m\<rparr>)"
      using m(2) by (auto split: option.splits if_splits)
    then show ?thesis using m(1) m0(2) False same
      by (intro exI [of _ m] exI [of _ "world s"] exI [of _ "- 1"]) (auto split: option.splits)
  qed
qed

text \<open>
  (C37) The \<open>getpinfo\<close> system call end to end: when the structure the caller points to lies in its
  memory and the pointer is not null, the call writes exactly the present process table there, slot
  by slot, touches no byte outside the structure, and returns 0; otherwise it returns -1 and writes
  nothing.
\<close>

theorem syscall_getpinfo_correct:
  assumes "spinlock_laws E" and "user_mem U ok" and "lock_view E (mach s) c k H P" and "k < max_depth"
    and "P ! c = Some i" and "user_ok ok s i" and "PtableLock \<notin> H"
    and "length (ptable s) = NPROC" and "tf_eax (tfs s (p_tf (proc_at s i))) = 23"
  shows "\<exists>m w' r. lock_view E m c k H P \<and>
    syscall fuel E U sw s =
      Ret (None, upd_tf (p_tf (proc_at s i)) (\<lambda>t. t\<lparr>tf_eax := r\<rparr>) (s\<lparr>mach := m, world := w'\<rparr>)) \<and>
    (case word_at U s i (arg_addr s i 0) of
       Some a \<Rightarrow>
         if a \<noteq> 0 \<and> in_proc s i a 1024
         then r = 0 \<and> load_pstat U a w' = Ret (pstat_of (ptable s)) \<and>
              (\<forall>x. 1024 \<le> unat (x - a) \<longrightarrow> load8 U x w' = load8 U x (world s))
         else r = - 1 \<and> w' = world s
     | None \<Rightarrow> r = - 1 \<and> w' = world s)"
  by (rule syscall_getpinfo_run [OF assms])

theorem syscall_getpinfo_correct_witness:
  "\<exists>t. syscall 0 ref_mem_ext ref_user Ret (demo_sys 23 512) = Ret (None, t) \<and>
     load_pstat ref_user 512 (world t) = Ret (pstat_of (ptable (demo_sys 23 512)))"
proof -
  have "in_proc (demo_sys 23 512) 1 512 1024" by (simp add: in_proc_def)
  with syscall_getpinfo_correct [OF refsys.spinlock_laws_axioms refu.user_mem_axioms, of "demo_sys 23 512" 0 0 "{}" "[Some 1, None]" 1 0 Ret]
    demo_sys_view demo_sys_user [of 23 512] demo_sys_word [of 23 512]
  obtain m w' where "syscall 0 ref_mem_ext ref_user Ret (demo_sys 23 512) =
      Ret (None, upd_tf (p_tf (proc_at (demo_sys 23 512) 1)) (\<lambda>t. t\<lparr>tf_eax := 0\<rparr>) ((demo_sys 23 512)\<lparr>mach := m, world := w'\<rparr>))"
    "load_pstat ref_user 512 w' = Ret (pstat_of (ptable (demo_sys 23 512)))"
    by (auto simp: NPROC_def)
  then show ?thesis by (simp add: upd_tf_def)
qed

text \<open>
  A number that is not one of the 23 system calls, zero and negative numbers among them, runs no
  handler: -1 is put into \<open>eax\<close>, the message names the process and the number, and nothing else changes;
  every number from 1 to 23 has a handler.
\<close>

theorem syscall_unknown:
  assumes "spinlock_laws E" and "lock_view E (mach s) c k H P" and "k < max_depth" and "P ! c = Some i"
    and "tf_eax (tfs s (p_tf (proc_at s i))) = num"
  shows "(sint num < 1 \<or> 23 < sint num \<longrightarrow>
      (\<exists>m. lock_view E m c k H P \<and> syscall fuel E U sw s =
        Ret (Some (p_pid (proc_at s i), p_name (proc_at s i), num),
             upd_tf (p_tf (proc_at s i)) (\<lambda>t. t\<lparr>tf_eax := - 1\<rparr>) (s\<lparr>mach := m\<rparr>)))) \<and>
    (1 \<le> sint num \<and> sint num \<le> 23 \<longrightarrow> map_of (syscalls fuel E U sw) (unat num) \<noteq> None)"
proof -
  from spinlock_laws.curproc_view [OF assms(1-4)] obtain m
    where m: "curproc E s = Ret (i, s\<lparr>mach := m\<rparr>)" "lock_view E m c k H P" by blast
  have u: "sint num = int (unat num)" if "0 \<le> sint num"
    using sint_eq_unat_if_small sint_nonneg [OF that] by blast
  have dom: "map_of (syscalls fuel E U sw) q \<noteq> None \<longleftrightarrow> q \<in> {1..23}" for q
  proof -
    have "{1..23} = {1, 2, 3, 4, 5, 6, 7, 8, 9, 10, 11, 12, 13, 14, 15, 16, 17, 18, 19, 20, 21, 22, 23 :: nat}"
      by (simp add: set_eq_iff) presburger
    then show ?thesis by (simp add: map_of_eq_None_iff syscalls_def SYS_defs)
  qed
  have "\<not> (slt 0 num \<and> unat num < nelem_syscalls)" if "sint num < 1 \<or> 23 < sint num"
  proof
    assume *: "slt 0 num \<and> unat num < nelem_syscalls"
    moreover have "int (unat num) < 24" using * by (simp only: nelem_syscalls_def SYS_defs) linarith
    ultimately show False using that u by (simp only: sint_0) linarith
  qed
  then have "\<exists>m. lock_view E m c k H P \<and> syscall fuel E U sw s =
        Ret (Some (p_pid (proc_at s i), p_name (proc_at s i), num),
             upd_tf (p_tf (proc_at s i)) (\<lambda>t. t\<lparr>tf_eax := - 1\<rparr>) (s\<lparr>mach := m\<rparr>))"
    if "sint num < 1 \<or> 23 < sint num"
    using that m assms(5) by (intro exI [of _ m]) (auto simp: syscall_def)
  moreover have "unat num \<in> {1..23}" if "1 \<le> sint num \<and> sint num \<le> 23"
  proof -
    from that u have "1 \<le> int (unat num)" "int (unat num) \<le> 23" by linarith+
    then have "1 \<le> unat num" "unat num \<le> 23" by linarith+
    then show ?thesis by simp
  qed
  ultimately show ?thesis using dom by blast
qed

theorem syscall_unknown_witness:
  "\<exists>t. syscall 0 ref_mem_ext ref_user Ret (demo_sys 24 0) = Ret (Some (2, [], 24), t)"
  using syscall_unknown [OF refsys.spinlock_laws_axioms, of "demo_sys 24 0" 0 0 "{}" "[Some 1, None]" 1 24 0 ref_user Ret]
    demo_sys_view
  by (auto simp: demo_sys_def demo_proc_def zero_proc_def)

end
