(* ===== verification/Lottery_User.thy ===== *)
theory Lottery_User
  imports Lottery_Syscall
begin

text \<open>
  The two user programs of Lab2, \<open>testProcInfo.c\<close> and \<open>testTicket.c\<close>. A program is given what its system calls return and
  gives the lines that it prints; a line is the message with its arguments. \<open>atoi\<close> is not in the repository.
\<close>

datatype user_line =
    InfoFailed
  | InfoBanner
  | InfoColumns
  | InfoRow i32 i32 i32 i32
  | InfoTotal i32
  | TicketUsage
  | TicketSetting i32 i32
  | TicketFailed i32

section \<open>testProcInfo\<close>

fun add_ticks :: "pstat \<Rightarrow> nat list \<Rightarrow> i32 \<Rightarrow> i32" where
  "add_ticks ps [] acc = acc"
| "add_ticks ps (i # is) acc = add_ticks ps is (if ps_inuse ps ! i \<noteq> 0 then acc + ps_ticks ps ! i else acc)"

fun info_rows :: "pstat \<Rightarrow> nat list \<Rightarrow> user_line list" where
  "info_rows ps [] = []"
| "info_rows ps (i # is) =
     (if ps_inuse ps ! i \<noteq> 0
      then InfoRow (ps_pid ps ! i) (ps_inuse ps ! i) (ps_tickets ps ! i) (ps_ticks ps ! i) # info_rows ps is
      else info_rows ps is)"

text \<open>\<open>r\<close> is the result of \<open>getpinfo\<close> and \<open>ps\<close> the structure after it.\<close>

definition testProcInfo :: "i32 \<Rightarrow> pstat \<Rightarrow> user_line list" where
  "testProcInfo r ps =
     (if slt r 0 then [InfoFailed]
      else
        let total_ticks = add_ticks ps [0..<NPROC] 0
        in [InfoBanner, InfoColumns] @ info_rows ps [0..<NPROC] @ [InfoTotal total_ticks])"

section \<open>testTicket\<close>

text \<open>Whether the loop at the end is left within \<open>fuel\<close> rounds.\<close>

fun spin :: "nat \<Rightarrow> i32 \<Rightarrow> bool" where
  "spin 0 i = False"
| "spin (Suc fuel) i = spin fuel (i + 1)"

text \<open>The lines, whether the program exits, and the state after \<open>settickets\<close>; \<open>argc\<close> is the length of \<open>argv\<close>.\<close>

definition testTicket ::
    "nat \<Rightarrow> (string \<Rightarrow> i32) \<Rightarrow> i32 \<Rightarrow> (i32 \<Rightarrow> 's \<Rightarrow> (i32 \<times> 's) outcome) \<Rightarrow> string list \<Rightarrow> 's
       \<Rightarrow> (user_line list \<times> bool \<times> 's) outcome" where
  "testTicket fuel atoi pid set_tickets argv s =
     (if length argv \<noteq> 2 then Ret ([TicketUsage], True, s)
      else
        let tickets = atoi (argv ! 1) in
        obind (set_tickets tickets s) (\<lambda>(r, s).
        if slt r 0 then Ret ([TicketSetting pid tickets, TicketFailed tickets], True, s)
        else Ret ([TicketSetting pid tickets], spin fuel 0, s)))"

section \<open>What they print\<close>

text \<open>The report on a process table: one row for each process, whatever it is doing, and the sum of the ticks.\<close>

definition in_use :: "proc \<Rightarrow> bool" where
  "in_use p \<longleftrightarrow> p_state p \<noteq> UNUSED"

definition info_report :: "proc list \<Rightarrow> user_line list" where
  "info_report ps =
     [InfoBanner, InfoColumns] @ map (\<lambda>p. InfoRow (p_pid p) 1 (p_tickets p) (p_ticks p)) (filter in_use ps) @
     [InfoTotal (sum_list (map p_ticks (filter in_use ps)))]"

lemma add_ticks_of:
  assumes "set is \<subseteq> {..<length ps}"
  shows "add_ticks (pstat_of ps) is acc = acc + sum_list (map p_ticks (filter in_use (map ((!) ps) is)))"
  using assms by (induction "is" arbitrary: acc) (auto simp: pstat_of_def in_use_def)

lemma info_rows_of:
  assumes "set is \<subseteq> {..<length ps}"
  shows "info_rows (pstat_of ps) is = map (\<lambda>p. InfoRow (p_pid p) 1 (p_tickets p) (p_ticks p)) (filter in_use (map ((!) ps) is))"
  using assms by (induction "is") (auto simp: pstat_of_def in_use_def)

lemma testProcInfo_of:
  assumes "length ps = NPROC"
  shows "testProcInfo 0 (pstat_of ps) = info_report ps"
proof -
  have all: "map ((!) ps) [0..<NPROC] = ps" unfolding assms [symmetric] by (rule map_nth)
  have "set [0..<NPROC] \<subseteq> {..<length ps}" using assms by auto
  from add_ticks_of [OF this] info_rows_of [OF this] show ?thesis
    unfolding all by (simp add: testProcInfo_def info_report_def Let_def)
qed

text \<open>(C40) \<open>testProcInfo\<close> from the system call to the screen: when the structure on its stack lies in its memory, the program prints
  one row for every slot of the process table that is not unused, in the order of the table, with pid, 1, tickets and
  ticks, and the sum of their ticks; the second column, headed "Runnable", is 1 also for processes that sleep or
  have ended. When \<open>getpinfo\<close> fails it prints the error message and nothing else.\<close>

theorem testProcInfo_correct:
  assumes "spinlock_laws E" and "user_mem U ok" and "lock_view E (mach s) c k H P" and "k < max_depth"
    and "P ! c = Some i" and "user_ok ok s i" and "PtableLock \<notin> H"
    and "length (ptable s) = NPROC" and "tf_eax (tfs s (p_tf (proc_at s i))) = 23"
  shows "\<exists>t. syscall fuel E U sw s = Ret (None, t) \<and> ptable t = ptable s \<and>
    (case word_at U s i (arg_addr s i 0) of
       Some a \<Rightarrow>
         a \<noteq> 0 \<and> in_proc s i a 1024 \<and>
           (\<exists>ps. load_pstat U a (world t) = Ret ps \<and> testProcInfo (tf_eax (tfs t (p_tf (proc_at s i)))) ps = info_report (ptable s)) \<or>
         \<not> (a \<noteq> 0 \<and> in_proc s i a 1024) \<and> (\<forall>ps. testProcInfo (tf_eax (tfs t (p_tf (proc_at s i)))) ps = [InfoFailed])
     | None \<Rightarrow> \<forall>ps. testProcInfo (tf_eax (tfs t (p_tf (proc_at s i)))) ps = [InfoFailed])"
proof -
  from syscall_getpinfo_run [OF assms, of fuel sw] obtain m w' r where
    r: "syscall fuel E U sw s = Ret (None, upd_tf (p_tf (proc_at s i)) (\<lambda>t. t\<lparr>tf_eax := r\<rparr>) (s\<lparr>mach := m, world := w'\<rparr>))"
    "case word_at U s i (arg_addr s i 0) of
       Some a \<Rightarrow> if a \<noteq> 0 \<and> in_proc s i a 1024 then r = 0 \<and> load_pstat U a w' = Ret (pstat_of (ptable s)) \<and>
              (\<forall>x. 1024 \<le> unat (x - a) \<longrightarrow> load8 U x w' = load8 U x (world s))
         else r = - 1 \<and> w' = world s
     | None \<Rightarrow> r = - 1 \<and> w' = world s" by blast
  have fail: "testProcInfo (- 1) ps = [InfoFailed]" for ps by (simp add: testProcInfo_def)
  show ?thesis
    using r testProcInfo_of [OF assms(8)] fail
    by (intro exI [of _ "upd_tf (p_tf (proc_at s i)) (\<lambda>t. t\<lparr>tf_eax := r\<rparr>) (s\<lparr>mach := m, world := w'\<rparr>)"])
      (auto simp: upd_tf_def split: option.splits if_splits)
qed

theorem testProcInfo_correct_witness:
  "\<exists>t ps. syscall 0 ref_mem_ext ref_user Ret (demo_sys 23 512) = Ret (None, t) \<and> load_pstat ref_user 512 (world t) = Ret ps \<and>
     testProcInfo (tf_eax (tfs t (p_tf (proc_at (demo_sys 23 512) 1)))) ps = info_report (ptable (demo_sys 23 512))"
proof -
  have "in_proc (demo_sys 23 512) 1 512 1024" by (simp add: in_proc_def)
  with testProcInfo_correct [OF refsys.spinlock_laws_axioms refu.user_mem_axioms, of "demo_sys 23 512" 0 0 "{}" "[Some 1, None]" 1 0 Ret]
    demo_sys_view demo_sys_user [of 23 512] demo_sys_word [of 23 512] show ?thesis
    by (auto simp: NPROC_def)
qed

section \<open>What the kernel does for testTicket\<close>

lemma spin_never: "\<not> spin fuel i"
  by (induction fuel arbitrary: i) simp_all

text \<open>\<open>testTicket\<close> on the kernel's \<open>settickets\<close>: with one argument of a number of at least one, the caller has that number of tickets and
  the program never ends; with a smaller number it prints the error message and exits, and with another number of
  arguments it prints its usage and exits, the process table unchanged.\<close>

theorem testTicket_correct:
  assumes "spinlock_laws E" and "lock_view E (mach s) c n H P" and "n < max_depth"
    and "PtableLock \<notin> H" and "P ! c = Some i" and "number = atoi (argv ! 1)"
  shows "\<exists>m s'. lock_view E m c n H P \<and> s' = s\<lparr>mach := m\<rparr> \<and>
    (length argv \<noteq> 2 \<and> testTicket fuel atoi pid (settickets E) argv s = Ret ([TicketUsage], True, s) \<or>
     length argv = 2 \<and> sint number < 1 \<and>
       testTicket fuel atoi pid (settickets E) argv s = Ret ([TicketSetting pid number, TicketFailed number], True, s) \<or>
     length argv = 2 \<and> 1 \<le> sint number \<and>
       testTicket fuel atoi pid (settickets E) argv s =
         Ret ([TicketSetting pid number], False, upd_proc i (\<lambda>p. p\<lparr>p_tickets := number\<rparr>) s'))"
proof (cases "sint number < 1")
  case True
  then have "settickets E number s = Ret (- 1, s)" by (simp add: settickets_def)
  with True assms(2,6) show ?thesis by (intro exI [of _ "mach s"] exI [of _ s]) (auto simp: testTicket_def Let_def)
next
  case False
  with spinlock_laws.settickets_run [OF assms(1-5), of number] obtain m where
    "lock_view E m c n H P" "settickets E number s = Ret (0, (upd_proc i (\<lambda>p. p\<lparr>p_tickets := number\<rparr>) s)\<lparr>mach := m\<rparr>)"
    by (auto simp: settickets_def)
  with False assms(6) show ?thesis
    by (intro exI [of _ m] exI [of _ "s\<lparr>mach := m\<rparr>"]) (auto simp: testTicket_def Let_def spin_never upd_proc_mach)
qed

end
