(* ===== verification/Lottery_Mp.thy ===== *)
theory Lottery_Mp
  imports Lottery_Proc
begin

text \<open>
  \<open>mp.c\<close> of Lab2: the search of the memory for the tables that describe the processors of the machine, and
  \<open>mpinit\<close>, which fills the array \<open>cpus\<close> that \<open>proc.c\<close> uses. The tables are read-only bytes at kernel
  addresses. Their layout is in \<open>mp.h\<close> and the mapping of physical to kernel addresses in \<open>memlayout.h\<close>, which are
  not in the repository: they are the parameters \<open>mp_ext\<close>.
\<close>

section \<open>The machine and the layout of the tables\<close>

type_synonym rom = "addr32 \<Rightarrow> u8"

record 'c mp_ext =
  P2V :: "u32 \<Rightarrow> addr32"
  sizeof_mp :: u32
  sizeof_mpconf :: u32
  sizeof_mpproc :: u32
  sizeof_mpioapic :: u32
  mp_physaddr :: "rom \<Rightarrow> addr32 \<Rightarrow> u32"
  mp_imcrp :: "rom \<Rightarrow> addr32 \<Rightarrow> u8"
  conf_version :: "rom \<Rightarrow> addr32 \<Rightarrow> u8"
  conf_length :: "rom \<Rightarrow> addr32 \<Rightarrow> u16"
  conf_lapicaddr :: "rom \<Rightarrow> addr32 \<Rightarrow> u32"
  proc_apicid :: "rom \<Rightarrow> addr32 \<Rightarrow> u8"
  ioapic_apicno :: "rom \<Rightarrow> addr32 \<Rightarrow> u8"
  MPPROC :: u8
  MPBUS :: u8
  MPIOAPIC :: u8
  MPIOINTR :: u8
  MPLINTR :: u8
  inb :: "u16 \<Rightarrow> 'c \<Rightarrow> u8 \<times> 'c"
  outb :: "u16 \<Rightarrow> u8 \<Rightarrow> 'c \<Rightarrow> 'c"

text \<open>The CPUs are those of \<open>proc.c\<close>; \<open>lapic\<close> and \<open>ioapicid\<close> are the other globals that are set.\<close>

record 'c mp_st =
  mp_mach :: "'c mach"
  ioapicid :: u8
  lapic :: u32

definition bytes_at :: "rom \<Rightarrow> addr32 \<Rightarrow> nat \<Rightarrow> u8 list" where
  "bytes_at m a n = map (\<lambda>i. m (a + of_nat i)) [0..<n]"

definition MP_SIG :: "u8 list" where "MP_SIG = [0x5F, 0x4D, 0x50, 0x5F]"
definition PCMP_SIG :: "u8 list" where "PCMP_SIG = [0x50, 0x43, 0x4D, 0x50]"

section \<open>The search\<close>

text \<open>The sum is an \<open>int\<close>; the result is its lowest byte.\<close>

definition mp_sum :: "rom \<Rightarrow> addr32 \<Rightarrow> i32 \<Rightarrow> u8" where
  "mp_sum m addr len =
     ucast (foldl (\<lambda>s i. s + ucast (m (addr + of_nat i))) (0 :: i32) [0..<nat (sint len)])"

fun mpsearch1_loop :: "nat \<Rightarrow> 'c mp_ext \<Rightarrow> rom \<Rightarrow> addr32 \<Rightarrow> addr32 \<Rightarrow> addr32 outcome" where
  "mpsearch1_loop 0 X m p e = NoFuel"
| "mpsearch1_loop (Suc fuel) X m p e =
     (if p < e then
        if bytes_at m p 4 = MP_SIG \<and> mp_sum m p (sizeof_mp X) = 0 then Ret p
        else mpsearch1_loop fuel X m (p + sizeof_mp X) e
      else Ret 0)"

definition mpsearch1 :: "nat \<Rightarrow> 'c mp_ext \<Rightarrow> rom \<Rightarrow> u32 \<Rightarrow> i32 \<Rightarrow> addr32 outcome" where
  "mpsearch1 fuel X m a len =
     (let addr = P2V X a; e = addr + len in mpsearch1_loop fuel X m addr e)"

definition mpsearch :: "nat \<Rightarrow> 'c mp_ext \<Rightarrow> rom \<Rightarrow> addr32 outcome" where
  "mpsearch fuel X m =
     (let bda = P2V X 0x400;
          p = push_bit 4 (push_bit 8 (ucast (m (bda + 0x0F))) OR ucast (m (bda + 0x0E))) :: u32
      in obind (if p \<noteq> 0 then mpsearch1 fuel X m p 1024
                else let p = (push_bit 8 (ucast (m (bda + 0x14))) OR ucast (m (bda + 0x13))) * 1024 :: u32
                     in mpsearch1 fuel X m (p - 1024) 1024) (\<lambda>mp.
         if mp \<noteq> 0 then Ret mp else mpsearch1 fuel X m 0xF0000 0x10000))"

text \<open>The table and the structure that points to it, or null.\<close>

definition mpconfig :: "nat \<Rightarrow> 'c mp_ext \<Rightarrow> rom \<Rightarrow> (addr32 \<times> addr32) option outcome" where
  "mpconfig fuel X m =
     obind (mpsearch fuel X m) (\<lambda>mp.
     if mp = 0 \<or> mp_physaddr X m mp = 0 then Ret None
     else
       let conf = P2V X (mp_physaddr X m mp) in
       if bytes_at m conf 4 \<noteq> PCMP_SIG then Ret None
       else if conf_version X m conf \<noteq> 1 \<and> conf_version X m conf \<noteq> 4 then Ret None
       else if mp_sum m conf (ucast (conf_length X m conf)) \<noteq> 0 then Ret None
       else Ret (Some (conf, mp)))"

section \<open>The entries of the table\<close>

definition add_cpu :: "u8 \<Rightarrow> 'c mp_st \<Rightarrow> 'c mp_st" where
  "add_cpu apic s =
     (let m = mp_mach s in
      if slt (ncpu m) (of_nat NCPU)
      then s\<lparr>mp_mach := m\<lparr>cpus := upd_nth (nat (sint (ncpu m))) (\<lambda>c. c\<lparr>c_apicid := apic\<rparr>) (cpus m), ncpu := ncpu m + 1\<rparr>\<rparr>
      else s)"

text \<open>On an unknown entry the code leaves the \<open>switch\<close> only: \<open>p\<close> stays where it is.\<close>

fun mpinit_loop :: "nat \<Rightarrow> 'c mp_ext \<Rightarrow> rom \<Rightarrow> addr32 \<Rightarrow> addr32 \<Rightarrow> bool \<Rightarrow> 'c mp_st \<Rightarrow> (bool \<times> 'c mp_st) outcome" where
  "mpinit_loop 0 X m p e ismp s = NoFuel"
| "mpinit_loop (Suc fuel) X m p e ismp s =
     (if p < e then
        if m p = MPPROC X then
          mpinit_loop fuel X m (p + sizeof_mpproc X) e ismp (add_cpu (proc_apicid X m p) s)
        else if m p = MPIOAPIC X then
          mpinit_loop fuel X m (p + sizeof_mpioapic X) e ismp (s\<lparr>ioapicid := ioapic_apicno X m p\<rparr>)
        else if m p = MPBUS X \<or> m p = MPIOINTR X \<or> m p = MPLINTR X then
          mpinit_loop fuel X m (p + 8) e ismp s
        else mpinit_loop fuel X m p e False s
      else Ret (ismp, s))"

definition on_hw :: "('c \<Rightarrow> 'c) \<Rightarrow> 'c mp_st \<Rightarrow> 'c mp_st" where
  "on_hw f s = s\<lparr>mp_mach := (mp_mach s)\<lparr>hw := f (hw (mp_mach s))\<rparr>\<rparr>"

text \<open>Interrupts are switched from the PIC to the APIC where the machine has the register for it.\<close>

definition imcr_on :: "'c mp_ext \<Rightarrow> 'c \<Rightarrow> 'c" where
  "imcr_on X w = (case inb X 0x23 (outb X 0x22 0x70 w) of (b, w) \<Rightarrow> outb X 0x23 (b OR 1) w)"

definition mpinit :: "nat \<Rightarrow> 'c mp_ext \<Rightarrow> rom \<Rightarrow> 'c mp_st \<Rightarrow> 'c mp_st outcome" where
  "mpinit fuel X m s =
     obind (mpconfig fuel X m) (\<lambda>r.
     case r of None \<Rightarrow> Panic ''Expect to run on an SMP''
     | Some (conf, mp) \<Rightarrow>
         let s = s\<lparr>lapic := conf_lapicaddr X m conf\<rparr> in
         obind (mpinit_loop fuel X m (conf + sizeof_mpconf X) (conf + ucast (conf_length X m conf)) True s) (\<lambda>(ismp, s).
         if \<not> ismp then Panic ''Didn't find a suitable machine''
         else Ret (if mp_imcrp X m mp \<noteq> 0 then on_hw (imcr_on X) s else s)))"

section \<open>What the search finds\<close>

definition is_mp :: "'c mp_ext \<Rightarrow> rom \<Rightarrow> addr32 \<Rightarrow> bool" where
  "is_mp X m p \<longleftrightarrow> bytes_at m p 4 = MP_SIG \<and> mp_sum m p (sizeof_mp X) = 0"

text \<open>The \<open>k\<close>-th place that is looked at.\<close>

definition place :: "'c mp_ext \<Rightarrow> addr32 \<Rightarrow> nat \<Rightarrow> addr32" where
  "place X a k = a + of_nat k * sizeof_mp X"

lemma unat_place: "unat a + k * unat (sizeof_mp X) < 2 ^ 32 \<Longrightarrow> unat (place X a k) = unat a + k * unat (sizeof_mp X)"
proof -
  assume lim: "unat a + k * unat (sizeof_mp X) < 2 ^ 32"
  have "of_nat (unat a + k * unat (sizeof_mp X)) = place X a k" by (simp add: place_def)
  then have "unat (place X a k) = unat (of_nat (unat a + k * unat (sizeof_mp X)) :: u32)" by simp
  also have "\<dots> = unat a + k * unat (sizeof_mp X)" using lim by (simp only: unat_of_nat take_bit_nat_eq_self_iff len_num1 len_bit0 len_bit1) simp
  finally show ?thesis .
qed

lemma mpsearch1_loop_spec:
  assumes sz: "sizeof_mp X \<noteq> 0" and lim: "unat a + n * unat (sizeof_mp X) < 2 ^ 32" and k: "k \<le> n" and fuel: "n - k < fuel"
  shows "mpsearch1_loop fuel X m (place X a k) (place X a n) =
     Ret (case find (\<lambda>k. is_mp X m (place X a k)) [k..<n] of None \<Rightarrow> 0 | Some k \<Rightarrow> place X a k)"
  using k fuel
proof (induction fuel arbitrary: k)
  case 0
  then show ?case by simp
next
  case (Suc fuel)
  have le: "k * unat (sizeof_mp X) \<le> n * unat (sizeof_mp X)" using Suc.prems(1) by simp
  have "unat (place X a k) = unat a + k * unat (sizeof_mp X)" "unat (place X a n) = unat a + n * unat (sizeof_mp X)"
    using unat_place [of a k X] unat_place [of a n X] lim le by linarith+
  moreover have "0 < unat (sizeof_mp X)" using sz by (simp add: unat_gt_0)
  ultimately have lt: "place X a k < place X a n \<longleftrightarrow> k < n" by (simp add: word_less_nat_alt)
  have nxt: "place X a k + sizeof_mp X = place X a (Suc k)" by (simp add: place_def algebra_simps)
  show ?case
  proof (cases "k < n")
    case False
    with lt Suc.prems(1) show ?thesis by simp
  next
    case True
    then have "[k..<n] = k # [Suc k..<n]" by (rule upt_conv_Cons)
    with True lt Suc.IH [of "Suc k"] Suc.prems nxt show ?thesis by (simp add: is_mp_def)
  qed
qed

text \<open>More fuel does not change a result.\<close>

lemma mpsearch1_loop_mono: "mpsearch1_loop fuel X m p e = Ret r \<Longrightarrow> fuel \<le> fuel' \<Longrightarrow> mpsearch1_loop fuel' X m p e = Ret r"
proof (induction fuel arbitrary: p fuel')
  case (Suc fuel)
  then obtain f where f: "fuel' = Suc f" "fuel \<le> f" by (cases fuel') auto
  from Suc.IH [of "p + sizeof_mp X" f] Suc.prems(1) f show ?case by (auto split: if_splits)
qed simp

lemma mpsearch1_det: "mpsearch1 fuel X m a len = Ret r \<Longrightarrow> mpsearch1 fuel' X m a len = Ret r \<or> mpsearch1 fuel' X m a len = NoFuel"
proof -
  have fin: "mpsearch1_loop f X m p e = NoFuel \<or> (\<exists>q. mpsearch1_loop f X m p e = Ret q)" for f p e
  proof (induction f arbitrary: p)
    case (Suc f)
    from Suc.IH [of "p + sizeof_mp X"] show ?case by simp
  qed simp
  assume r: "mpsearch1 fuel X m a len = Ret r"
  show ?thesis
  proof (cases "fuel \<le> fuel'")
    case True
    with r mpsearch1_loop_mono show ?thesis by (fastforce simp: mpsearch1_def Let_def)
  next
    case False
    with r fin [of fuel' "P2V X a" "P2V X a + len"] mpsearch1_loop_mono [of fuel' X m "P2V X a" "P2V X a + len" _ fuel] show ?thesis
      by (auto simp: mpsearch1_def Let_def)
  qed
qed

lemma mpsearch_det:
  assumes "mpsearch fuel X m = Ret r"
  shows "mpsearch fuel' X m = Ret r \<or> mpsearch fuel' X m = NoFuel"
proof -
  define go where "go f = (if push_bit 4 (push_bit 8 (ucast (m (P2V X 0x400 + 0x0F))) OR ucast (m (P2V X 0x400 + 0x0E))) \<noteq> (0 :: u32)
    then mpsearch1 f X m (push_bit 4 (push_bit 8 (ucast (m (P2V X 0x400 + 0x0F))) OR ucast (m (P2V X 0x400 + 0x0E)))) 1024
    else mpsearch1 f X m ((push_bit 8 (ucast (m (P2V X 0x400 + 0x14))) OR ucast (m (P2V X 0x400 + 0x13))) * 1024 - 1024) 1024)" for f
  have go: "mpsearch f X m = obind (go f) (\<lambda>mp. if mp \<noteq> 0 then Ret mp else mpsearch1 f X m 0xF0000 0x10000)" for f
    by (simp add: mpsearch_def go_def Let_def)
  have det: "go fuel = Ret q \<Longrightarrow> go fuel' = Ret q \<or> go fuel' = NoFuel" for q
    unfolding go_def by (auto dest: mpsearch1_det [where fuel' = fuel'])
  from assms obtain q where q: "go fuel = Ret q" "(if q \<noteq> 0 then Ret q else mpsearch1 fuel X m 0xF0000 0x10000) = Ret r"
    by (auto simp: go outcome_simps)
  with det [OF q(1)] mpsearch1_det [of fuel X m "0xF0000" "0x10000" r fuel'] show ?thesis by (auto simp: go split: if_splits)
qed

lemma mpconfig_det:
  assumes "mpconfig fuel X m = Ret r"
  shows "mpconfig fuel' X m = Ret r \<or> mpconfig fuel' X m = NoFuel"
proof -
  from assms obtain mp where mp: "mpsearch fuel X m = Ret mp" by (auto simp: mpconfig_def outcome_simps)
  from mpsearch_det [OF mp, of fuel'] assms mp show ?thesis by (auto simp: mpconfig_def)
qed

section \<open>What the table says\<close>

datatype mp_entry = CpuEntry u8 | IoApicEntry u8 | OtherEntry

fun entry_size :: "'c mp_ext \<Rightarrow> mp_entry \<Rightarrow> u32" where
  "entry_size X (CpuEntry apic) = sizeof_mpproc X"
| "entry_size X (IoApicEntry n) = sizeof_mpioapic X"
| "entry_size X OtherEntry = 8"

fun entry_at :: "'c mp_ext \<Rightarrow> rom \<Rightarrow> addr32 \<Rightarrow> mp_entry \<Rightarrow> bool" where
  "entry_at X m p (CpuEntry apic) = (m p = MPPROC X \<and> proc_apicid X m p = apic)"
| "entry_at X m p (IoApicEntry n) = (m p = MPIOAPIC X \<and> ioapic_apicno X m p = n)"
| "entry_at X m p OtherEntry = (m p \<in> {MPBUS X, MPIOINTR X, MPLINTR X})"

text \<open>The bytes from \<open>p\<close> to \<open>q\<close> are the entries \<open>es\<close>, and all of them start below \<open>e\<close>.\<close>

fun table_of :: "'c mp_ext \<Rightarrow> rom \<Rightarrow> addr32 \<Rightarrow> mp_entry list \<Rightarrow> addr32 \<Rightarrow> addr32 \<Rightarrow> bool" where
  "table_of X m e [] p q = (p = q)"
| "table_of X m e (x # es) p q = (p < e \<and> entry_at X m p x \<and> table_of X m e es (p + entry_size X x) q)"

text \<open>The five kinds of entries are different, as the labels of one \<open>switch\<close>.\<close>

definition kinds :: "'c mp_ext \<Rightarrow> u8 list" where
  "kinds X = [MPPROC X, MPBUS X, MPIOAPIC X, MPIOINTR X, MPLINTR X]"

fun take_entry :: "mp_entry \<Rightarrow> 'c mp_st \<Rightarrow> 'c mp_st" where
  "take_entry (CpuEntry apic) s = add_cpu apic s"
| "take_entry (IoApicEntry n) s = s\<lparr>ioapicid := n\<rparr>"
| "take_entry OtherEntry s = s"

lemma mpinit_loop_table:
  assumes "distinct (kinds X)" and "table_of X m e es p q" and "length es \<le> fuel"
  shows "mpinit_loop fuel X m p e b s = mpinit_loop (fuel - length es) X m q e b (fold take_entry es s)"
  using assms(2,3)
proof (induction es arbitrary: p fuel s)
  case (Cons x es)
  obtain f where f: "fuel = Suc f" "length es \<le> f" using Cons.prems(2) by (cases fuel) auto
  from Cons.prems(1) Cons.IH [of "p + entry_size X x" f "take_entry x s"] f assms(1) show ?case
    by (cases x) (auto simp: kinds_def)
qed simp

text \<open>The processors of the table, and what the array \<open>cpus\<close> holds after them.\<close>

definition cpu_ids :: "mp_entry list \<Rightarrow> u8 list" where
  "cpu_ids es = concat (map (\<lambda>x. case x of CpuEntry apic \<Rightarrow> [apic] | _ \<Rightarrow> []) es)"

lemma cpu_ids_simps [simp]:
  "cpu_ids [] = []" "cpu_ids (CpuEntry apic # es) = apic # cpu_ids es" "cpu_ids (IoApicEntry n # es) = cpu_ids es"
  "cpu_ids (OtherEntry # es) = cpu_ids es"
  by (simp_all add: cpu_ids_def)

definition last_ioapic :: "mp_entry list \<Rightarrow> u8 \<Rightarrow> u8" where
  "last_ioapic es x = fold (\<lambda>e x. case e of IoApicEntry n \<Rightarrow> n | _ \<Rightarrow> x) es x"

definition set_ids :: "nat \<Rightarrow> u8 list \<Rightarrow> cpu list \<Rightarrow> cpu list" where
  "set_ids k ids cs = map (\<lambda>i. if k \<le> i \<and> i < k + length ids then (cs ! i)\<lparr>c_apicid := ids ! (i - k)\<rparr> else cs ! i) [0..<length cs]"

lemma set_ids_Nil [simp]: "set_ids k [] cs = cs"
  by (rule nth_equalityI) (auto simp: set_ids_def)

lemma set_ids_Cons:
  "k < length cs \<Longrightarrow> set_ids (Suc k) ids (upd_nth k (\<lambda>c. c\<lparr>c_apicid := x\<rparr>) cs) = set_ids k (x # ids) cs"
proof (rule nth_equalityI)
  fix j assume "j < length (set_ids (Suc k) ids (upd_nth k (\<lambda>c. c\<lparr>c_apicid := x\<rparr>) cs))"
  then have j: "j < length cs" by (simp add: set_ids_def)
  consider "j < k" | "j = k" | i where "j = Suc (k + i)" by (metis less_iff_Suc_add linorder_neqE_nat)
  then show "set_ids (Suc k) ids (upd_nth k (\<lambda>c. c\<lparr>c_apicid := x\<rparr>) cs) ! j = set_ids k (x # ids) cs ! j"
    by cases (use j in \<open>simp_all add: set_ids_def\<close>)
qed (simp add: set_ids_def)

lemma fold_take_entry:
  assumes "ncpu (mp_mach s) = of_nat k" and "k \<le> NCPU" and "NCPU \<le> length (cpus (mp_mach s))"
  shows "fold take_entry es s =
    s\<lparr>mp_mach := (mp_mach s)\<lparr>cpus := set_ids k (take (NCPU - k) (cpu_ids es)) (cpus (mp_mach s)),
                             ncpu := of_nat (min NCPU (k + length (cpu_ids es)))\<rparr>,
      ioapicid := last_ioapic es (ioapicid s)\<rparr>"
  using assms
proof (induction es arbitrary: s k)
  case Nil
  then show ?case by (simp add: last_ioapic_def)
next
  case (Cons x es)
  show ?case
  proof (cases x)
    case (CpuEntry apic)
    have sk: "sint (of_nat k :: i32) = int k" "sint (of_nat NCPU :: i32) = int NCPU"
      using Cons.prems(2) by (simp_all add: NCPU_def sint_eq_unat_if_small unat_of_nat take_bit_nat_eq_self_iff)
    show ?thesis
    proof (cases "k < NCPU")
      case True
      let ?s = "add_cpu apic s"
      have s: "ncpu (mp_mach ?s) = of_nat (Suc k)" "cpus (mp_mach ?s) = upd_nth k (\<lambda>c. c\<lparr>c_apicid := apic\<rparr>) (cpus (mp_mach s))"
        "ioapicid ?s = ioapicid s"
        using True Cons.prems(1) sk by (simp_all add: add_cpu_def Let_def add.commute)
      have "NCPU - k = Suc (NCPU - Suc k)" using True by simp
      with Cons.IH [OF s(1)] True Cons.prems(3) CpuEntry s(2,3) show ?thesis
        by (simp add: set_ids_Cons last_ioapic_def add_cpu_def Let_def Cons.prems(1) sk)
    next
      case False
      with Cons.prems(2) have k: "k = NCPU" by simp
      with Cons.prems(1) sk have "add_cpu apic s = s" by (simp add: add_cpu_def Let_def)
      with Cons.IH [OF Cons.prems] CpuEntry k show ?thesis by (simp add: last_ioapic_def)
    qed
  next
    case (IoApicEntry n)
    with Cons.IH [of "s\<lparr>ioapicid := n\<rparr>" k] Cons.prems show ?thesis by (simp add: last_ioapic_def)
  next
    case OtherEntry
    with Cons.IH [of s k] Cons.prems show ?thesis by (simp add: last_ioapic_def)
  qed
qed

section \<open>The results\<close>

lemma set_ids_take:
  "n \<le> length cs \<Longrightarrow> length ids = n \<Longrightarrow> map c_apicid (take n (set_ids 0 ids cs)) = ids"
  by (rule nth_equalityI) (auto simp: set_ids_def)

lemma set_ids_rest: "length ids \<le> i \<Longrightarrow> i < length cs \<Longrightarrow> set_ids 0 ids cs ! i = cs ! i"
  by (simp add: set_ids_def)

text \<open>The CPUs that \<open>mycpu\<close> searches after the entries.\<close>

lemma this_cpu_ids:
  assumes "cpus m = set_ids 0 (take NCPU ids) cs" and "ncpu m = of_nat (min NCPU (length ids))" and "NCPU \<le> length cs"
  shows "this_cpu E m = scan (\<lambda>a. ucast a = lapicid E (hw m)) (take NCPU ids)"
proof -
  let ?n = "min NCPU (length ids)"
  have "sint (of_nat ?n :: i32) = int ?n"
    by (simp add: NCPU_def sint_eq_unat_if_small unat_of_nat take_bit_nat_eq_self_iff)
  then have "this_cpu E m = scan (\<lambda>c. ucast (c_apicid c) = lapicid E (hw m)) (take ?n (set_ids 0 (take NCPU ids) cs))"
    using assms(1,2) by (simp add: this_cpu_def)
  also have "\<dots> = scan (\<lambda>a. ucast a = lapicid E (hw m)) (map c_apicid (take ?n (set_ids 0 (take NCPU ids) cs)))"
    by (simp only: scan_map)
  finally show ?thesis using set_ids_take [of ?n cs "take NCPU ids"] assms(3) by simp
qed

text \<open>\<open>mpsearch1\<close> ends after at most one round for each place and returns the first place with the signature
  and a byte sum of 0, or null if there is none.\<close>

theorem mpsearch1_correct:
  assumes "sizeof_mp X \<noteq> 0" and "unat (P2V X a) + n * unat (sizeof_mp X) < 2 ^ 32" and "n < fuel"
  shows "mpsearch1 fuel X m a (of_nat n * sizeof_mp X) =
     Ret (case find (\<lambda>k. is_mp X m (place X (P2V X a) k)) [0..<n] of None \<Rightarrow> 0 | Some k \<Rightarrow> place X (P2V X a) k)"
  using mpsearch1_loop_spec [OF assms(1,2), of 0 fuel m] assms(3) by (simp add: mpsearch1_def place_def Let_def)

text \<open>(C38) With a configuration table of any number of processors, I/O APICs and other entries, \<open>mpinit\<close> returns: the
  first \<open>ncpu\<close> CPUs have the ids of the processors of the table in their order, at most eight of them, the other CPUs
  are untouched, \<open>ioapicid\<close> is that of the last I/O APIC, the local APIC is where the table says, and the IMCR is
  switched if the machine has one. Then \<open>mycpu\<close> of \<open>proc.c\<close> finds the processor it runs on at its place in the table.\<close>

theorem mpinit_correct:
  assumes "distinct (kinds X)" and "mpconfig fuel X m = Ret (Some (conf, mp))"
    and "e = conf + ucast (conf_length X m conf)" and "table_of X m e es (conf + sizeof_mpconf X) e" and "length es < fuel"
    and "ncpu (mp_mach s) = 0" and "NCPU \<le> length (cpus (mp_mach s))" and "n = min NCPU (length (cpu_ids es))"
  shows "\<exists>s'. mpinit fuel X m s = Ret s' \<and> ncpu (mp_mach s') = of_nat n \<and>
     map c_apicid (take n (cpus (mp_mach s'))) = take NCPU (cpu_ids es) \<and>
     (\<forall>i. n \<le> i \<longrightarrow> i < length (cpus (mp_mach s)) \<longrightarrow> cpus (mp_mach s') ! i = cpus (mp_mach s) ! i) \<and>
     ioapicid s' = last_ioapic es (ioapicid s) \<and> lapic s' = conf_lapicaddr X m conf \<and>
     hw (mp_mach s') = (if mp_imcrp X m mp \<noteq> 0 then imcr_on X (hw (mp_mach s)) else hw (mp_mach s)) \<and>
     (\<forall>E. this_cpu E (mp_mach s') = scan (\<lambda>a. ucast a = lapicid E (hw (mp_mach s'))) (take NCPU (cpu_ids es)))"
proof -
  define s1 where "s1 = s\<lparr>lapic := conf_lapicaddr X m conf\<rparr>"
  obtain f where f: "fuel - length es = Suc f" using assms(5) by (metis Suc_diff_Suc)
  have "fold take_entry es s1 = s1\<lparr>mp_mach := (mp_mach s1)\<lparr>cpus := set_ids 0 (take (NCPU - 0) (cpu_ids es)) (cpus (mp_mach s1)),
      ncpu := of_nat (min NCPU (0 + length (cpu_ids es)))\<rparr>, ioapicid := last_ioapic es (ioapicid s1)\<rparr>"
    using assms(6,7) by (intro fold_take_entry) (simp_all add: s1_def)
  then have fold: "fold take_entry es s1 = s1\<lparr>mp_mach := (mp_mach s)\<lparr>cpus := set_ids 0 (take NCPU (cpu_ids es)) (cpus (mp_mach s)),
      ncpu := of_nat n\<rparr>, ioapicid := last_ioapic es (ioapicid s)\<rparr>" (is "_ = ?s2") by (simp add: s1_def assms(8))
  have "mpinit_loop fuel X m (conf + sizeof_mpconf X) e True s1 = Ret (True, ?s2)"
    using mpinit_loop_table [OF assms(1,4), of fuel True s1] assms(5) f fold by simp
  then have run: "mpinit fuel X m s = Ret (if mp_imcrp X m mp \<noteq> 0 then on_hw (imcr_on X) ?s2 else ?s2)"
    using assms(2,3) by (simp add: mpinit_def s1_def Let_def)
  have ids: "map c_apicid (take n (set_ids 0 (take NCPU (cpu_ids es)) (cpus (mp_mach s)))) = take NCPU (cpu_ids es)"
    using assms(7,8) by (intro set_ids_take) auto
  have rest: "\<forall>i. n \<le> i \<longrightarrow> i < length (cpus (mp_mach s)) \<longrightarrow> set_ids 0 (take NCPU (cpu_ids es)) (cpus (mp_mach s)) ! i = cpus (mp_mach s) ! i"
    using assms(8) by (auto intro!: set_ids_rest)
  show ?thesis unfolding run
    by (rule exI, rule conjI, rule refl)
      (simp add: on_hw_def s1_def ids [unfolded assms(8)] rest [unfolded assms(8)] this_cpu_ids [OF _ _ assms(7)] assms(8))
qed

text \<open>(C39) On a table with an entry of an unknown type after any number of good ones \<open>mpinit\<close> never returns, whatever the fuel:
  the default case leaves the \<open>switch\<close> but not the loop, and does not advance, so the panic after the loop is not reached.\<close>

theorem mpinit_unknown_entry:
  assumes "distinct (kinds X)" and "mpconfig f0 X m = Ret (Some (conf, mp))"
    and "e = conf + ucast (conf_length X m conf)" and "table_of X m e es (conf + sizeof_mpconf X) q"
    and "q < e" and "m q \<notin> set (kinds X)"
  shows "mpinit fuel X m s = NoFuel"
proof -
  have stuck: "mpinit_loop f X m q e b s = NoFuel" for f b s
    using assms(5,6) by (induction f arbitrary: b) (simp_all add: kinds_def)
  have "mpinit_loop f X m (conf + sizeof_mpconf X) e b s = NoFuel" for f b s
  proof (cases "length es \<le> f")
    case True
    then show ?thesis using mpinit_loop_table [OF assms(1,4) True] stuck by simp
  next
    case False
    have "table_of X m e es p q \<Longrightarrow> f < length es \<Longrightarrow> mpinit_loop f X m p e b s = NoFuel" for p
    proof (induction f arbitrary: p s es)
      case (Suc f)
      then obtain x es' where es: "es = x # es'" by (cases es) auto
      from Suc.IH [of es' "p + entry_size X x" "take_entry x s"] Suc.prems assms(1) es show ?case
        by (cases x) (auto simp: kinds_def)
    qed simp
    with assms(4) False show ?thesis by simp
  qed
  then show ?thesis using mpconfig_det [OF assms(2), of fuel] assms(3) by (auto simp: mpinit_def Let_def)
qed

section \<open>A machine with two processors\<close>

text \<open>The layout of the MP tables, and a machine that records what is written to its ports.\<close>

definition rd16 :: "rom \<Rightarrow> addr32 \<Rightarrow> u16" where
  "rd16 m a = ucast (m a) OR push_bit 8 (ucast (m (a + 1)))"

definition rd32 :: "rom \<Rightarrow> addr32 \<Rightarrow> u32" where
  "rd32 m a = ucast (rd16 m a) OR push_bit 16 (ucast (rd16 m (a + 2)))"

definition pc_mp :: "(u16 \<times> u8) list mp_ext" where
  "pc_mp =
     \<lparr>P2V = (\<lambda>a. a + 0x80000000), sizeof_mp = 16, sizeof_mpconf = 44, sizeof_mpproc = 20, sizeof_mpioapic = 8,
      mp_physaddr = (\<lambda>m a. rd32 m (a + 4)), mp_imcrp = (\<lambda>m a. m (a + 12)),
      conf_version = (\<lambda>m a. m (a + 6)), conf_length = (\<lambda>m a. rd16 m (a + 4)), conf_lapicaddr = (\<lambda>m a. rd32 m (a + 36)),
      proc_apicid = (\<lambda>m a. m (a + 1)), ioapic_apicno = (\<lambda>m a. m (a + 1)),
      MPPROC = 0, MPBUS = 1, MPIOAPIC = 2, MPIOINTR = 3, MPLINTR = 4,
      inb = (\<lambda>_ w. (0, w)), outb = (\<lambda>p b w. w @ [(p, b)])\<rparr>"

lemma pc_mp_simps [simp]:
  "P2V pc_mp a = a + 0x80000000" "sizeof_mp pc_mp = 16" "sizeof_mpconf pc_mp = 44" "sizeof_mpproc pc_mp = 20"
  "sizeof_mpioapic pc_mp = 8" "mp_physaddr pc_mp m a = rd32 m (a + 4)" "mp_imcrp pc_mp m a = m (a + 12)"
  "conf_version pc_mp m a = m (a + 6)" "conf_length pc_mp m a = rd16 m (a + 4)" "conf_lapicaddr pc_mp m a = rd32 m (a + 36)"
  "proc_apicid pc_mp m a = m (a + 1)" "ioapic_apicno pc_mp m a = m (a + 1)" "MPPROC pc_mp = 0" "MPBUS pc_mp = 1"
  "MPIOAPIC pc_mp = 2" "MPIOINTR pc_mp = 3" "MPLINTR pc_mp = 4"
  by (simp_all add: pc_mp_def)

text \<open>The extended BIOS data area starts at 16, with the pointer structure; the table is at 256.\<close>

definition pc_fp :: "u8 list" where
  "pc_fp = [0x5F, 0x4D, 0x50, 0x5F, 0, 1, 0, 0, 1, 4, 0x1F, 0, 0x80, 0, 0, 0]"

definition pc_conf :: "u8 \<Rightarrow> u8 list \<Rightarrow> u8 list" where
  "pc_conf check entries =
     [0x50, 0x43, 0x4D, 0x50, of_nat (44 + length entries), 0, 4, check, 0, 0, 0, 0, 0, 0, 0, 0, 0, 0, 0, 0, 0, 0, 0, 0,
      0, 0, 0, 0, 0, 0, 0, 0, 0, 0, 0, 0, 0, 0, 0xE0, 0xFE, 0, 0, 0, 0] @ entries"

definition pc_rom :: "u8 list \<Rightarrow> rom" where
  "pc_rom conf a =
     (if unat (a - 0x80000100) < length conf then conf ! unat (a - 0x80000100)
      else if unat (a - 0x80000010) < 16 then pc_fp ! unat (a - 0x80000010)
      else if a = 0x8000040E then 1 else 0)"

definition mp_proc :: "u8 \<Rightarrow> u8 list" where
  "mp_proc apic = [0, apic, 0, 0, 0, 0, 0, 0, 0, 0, 0, 0, 0, 0, 0, 0, 0, 0, 0, 0]"

definition conf_two :: "u8 list" where
  "conf_two = pc_conf 0x84 (mp_proc 0 @ mp_proc 1 @ [1, 0, 0, 0, 0, 0, 0, 0] @ [2, 2, 0, 0, 0, 0, 0, 0])"

definition conf_odd :: "u8 list" where
  "conf_odd = pc_conf 0x9D (mp_proc 0 @ [9, 0, 0, 0, 0, 0, 0, 0])"

definition boot_mp :: "(u16 \<times> u8) list mp_st" where
  "boot_mp = \<lparr>mp_mach = \<lparr>cpus = replicate 8 \<lparr>c_apicid = 0, c_scheduler = 0, c_ncli = 0, c_intena = 0, c_proc = None\<rparr>, ncpu = 0, hw = []\<rparr>,
      ioapicid = 0, lapic = 0\<rparr>"

lemma sum_bytes: "n < 2 ^ 31 \<Longrightarrow> mp_sum m a (of_nat n) = ucast (sum_list (map ucast (bytes_at m a n)) :: i32)"
proof -
  assume n: "n < 2 ^ 31"
  have "foldl (\<lambda>s i. s + ucast (m (a + of_nat i))) x is = x + sum_list (map (\<lambda>i. ucast (m (a + of_nat i)) :: i32) is)" for x "is"
    by (induction "is" arbitrary: x) (simp_all add: add.assoc)
  then show ?thesis
    using n by (simp add: mp_sum_def bytes_at_def comp_def sint_eq_unat_if_small unat_of_nat take_bit_nat_eq_self_iff)
qed

lemma pc_rom_conf: "n \<le> length conf \<Longrightarrow> length conf < 2 ^ 31 \<Longrightarrow> bytes_at (pc_rom conf) 0x80000100 n = take n conf"
  by (rule nth_equalityI) (simp_all add: bytes_at_def pc_rom_def unat_of_nat take_bit_nat_eq_self_iff)

lemma pc_rom_at: "k < length conf \<Longrightarrow> length conf < 2 ^ 31 \<Longrightarrow> pc_rom conf (0x80000100 + of_nat k) = conf ! k"
  by (simp add: pc_rom_def unat_of_nat take_bit_nat_eq_self_iff)

lemma pc_kinds: "distinct (kinds pc_mp)"
  by (simp add: kinds_def)

lemma conf_lengths: "length conf_two = 100" "length conf_odd = 72"
  by (simp_all add: conf_two_def conf_odd_def pc_conf_def mp_proc_def)

lemma pc_rom_fp:
  assumes "length conf < 256"
  shows "bytes_at (pc_rom conf) 0x80000010 16 = pc_fp"
    and "pc_rom conf 0x8000040E = 1" and "pc_rom conf 0x8000040F = 0"
  using assms by (simp_all add: bytes_at_def upt_rec pc_rom_def pc_fp_def unat_sub_if_size word_size)

lemma pc_fp_found:
  assumes "length conf < 256"
  shows "is_mp pc_mp (pc_rom conf) 0x80000010"
proof -
  note fp = pc_rom_fp [OF assms]
  have "bytes_at (pc_rom conf) 0x80000010 4 = take 4 (bytes_at (pc_rom conf) 0x80000010 16)"
    by (simp add: bytes_at_def take_map)
  then have "bytes_at (pc_rom conf) 0x80000010 4 = MP_SIG" by (simp add: fp pc_fp_def MP_SIG_def)
  moreover have "mp_sum (pc_rom conf) 0x80000010 16 = 0"
    using sum_bytes [of 16 "pc_rom conf" "0x80000010"] by (simp add: fp pc_fp_def)
  ultimately show ?thesis by (simp add: is_mp_def)
qed

lemma pc_search: "length conf < 256 \<Longrightarrow> mpsearch (Suc f) pc_mp (pc_rom conf) = Ret 0x80000010"
  using pc_fp_found [of conf] by (simp add: mpsearch_def mpsearch1_def Let_def pc_rom_fp is_mp_def)

lemma pc_config:
  assumes "conf = pc_conf check entries" and "length conf = n" and "n < 256"
    and "ucast (sum_list (map (ucast :: u8 \<Rightarrow> i32) conf)) = (0 :: u8)"
  shows "mpconfig (Suc f) pc_mp (pc_rom conf) = Ret (Some (0x80000100, 0x80000010))"
proof -
  have len: "length conf < 2 ^ 31" "44 \<le> n" using assms(1-3) by (auto simp: pc_conf_def)
  note at = pc_rom_at [of _ conf, OF _ len(1), unfolded assms(2)]
  have b: "pc_rom conf 0x80000104 = of_nat n" "pc_rom conf 0x80000105 = 0" "pc_rom conf 0x80000106 = 4"
    using at [of 4] at [of 5] at [of 6] len(2) assms(1,2) by (auto simp: pc_conf_def)
  have "bytes_at (pc_rom conf) 0x80000010 8 = take 8 (bytes_at (pc_rom conf) 0x80000010 16)"
    by (simp add: bytes_at_def take_map)
  then have "rd32 (pc_rom conf) 0x80000014 = 0x100"
    using pc_rom_fp(1) [of conf] assms(2,3) by (simp add: bytes_at_def upt_rec rd32_def rd16_def pc_fp_def)
  moreover have "rd16 (pc_rom conf) 0x80000104 = of_nat n"
    using assms(3) b take_bit_nat_eq_self_iff [of 8 n] by (simp add: rd16_def unsigned_of_nat)
  moreover have "bytes_at (pc_rom conf) 0x80000100 4 = PCMP_SIG"
    using pc_rom_conf [of 4 conf] len assms(1,2) by (simp add: pc_conf_def PCMP_SIG_def)
  moreover have "mp_sum (pc_rom conf) 0x80000100 (of_nat n) = 0"
    using sum_bytes [of n "pc_rom conf" "0x80000100"] pc_rom_conf [of n conf] len assms by simp
  ultimately show ?thesis
    using pc_search [of conf f] assms(2,3) b take_bit_nat_eq_self_iff [of 16 n] by (simp add: mpconfig_def Let_def unsigned_of_nat)
qed

lemma pc_config_two: "mpconfig (Suc f) pc_mp (pc_rom conf_two) = Ret (Some (0x80000100, 0x80000010))"
  by (rule pc_config [OF conf_two_def conf_lengths(1)]) (simp_all add: conf_two_def pc_conf_def mp_proc_def)

lemma pc_config_odd: "mpconfig (Suc f) pc_mp (pc_rom conf_odd) = Ret (Some (0x80000100, 0x80000010))"
  by (rule pc_config [OF conf_odd_def conf_lengths(2)]) (simp_all add: conf_odd_def pc_conf_def mp_proc_def)

theorem mpsearch1_correct_witness: "mpsearch1 65 pc_mp (pc_rom conf_two) 16 1024 = Ret 0x80000010"
proof -
  have "find (\<lambda>k. is_mp pc_mp (pc_rom conf_two) (place pc_mp (P2V pc_mp 16) k)) [0..<64] = Some 0"
    using pc_fp_found [of conf_two] conf_lengths by (simp add: upt_conv_Cons place_def)
  with mpsearch1_correct [where X = pc_mp and a = 16 and n = 64 and fuel = 65 and m = "pc_rom conf_two"] show ?thesis by (simp add: place_def)
qed

text \<open>The entries of the two tables.\<close>

lemma bytes_two:
  "pc_rom conf_two 0x8000012C = 0"
  "pc_rom conf_two 0x8000012D = 0"
  "pc_rom conf_two 0x80000140 = 0"
  "pc_rom conf_two 0x80000141 = 1"
  "pc_rom conf_two 0x80000154 = 1"
  "pc_rom conf_two 0x8000015C = 2"
  "pc_rom conf_two 0x8000015D = 2"
  "pc_rom conf_two 0x80000104 = 100"
  "pc_rom conf_two 0x80000105 = 0"
  "pc_rom conf_two 0x80000124 = 0"
  "pc_rom conf_two 0x80000125 = 0"
  "pc_rom conf_two 0x80000126 = 224"
  "pc_rom conf_two 0x80000127 = 254"
  using pc_rom_at [of 44 conf_two]
    pc_rom_at [of 45 conf_two]
    pc_rom_at [of 64 conf_two]
    pc_rom_at [of 65 conf_two]
    pc_rom_at [of 84 conf_two]
    pc_rom_at [of 92 conf_two]
    pc_rom_at [of 93 conf_two]
    pc_rom_at [of 4 conf_two]
    pc_rom_at [of 5 conf_two]
    pc_rom_at [of 36 conf_two]
    pc_rom_at [of 37 conf_two]
    pc_rom_at [of 38 conf_two]
    pc_rom_at [of 39 conf_two]
  by (simp_all add: conf_two_def pc_conf_def mp_proc_def)

lemma bytes_odd:
  "pc_rom conf_odd 0x8000012C = 0"
  "pc_rom conf_odd 0x8000012D = 0"
  "pc_rom conf_odd 0x80000140 = 9"
  "pc_rom conf_odd 0x80000104 = 72"
  "pc_rom conf_odd 0x80000105 = 0"
  using pc_rom_at [of 44 conf_odd]
    pc_rom_at [of 45 conf_odd]
    pc_rom_at [of 64 conf_odd]
    pc_rom_at [of 4 conf_odd]
    pc_rom_at [of 5 conf_odd]
  by (simp_all add: conf_odd_def pc_conf_def mp_proc_def)

lemma tables:
  "table_of pc_mp (pc_rom conf_two) 0x80000164 [CpuEntry 0, CpuEntry 1, OtherEntry, IoApicEntry 2] 0x8000012C 0x80000164"
  "table_of pc_mp (pc_rom conf_odd) 0x80000148 [CpuEntry 0] 0x8000012C 0x80000140"
  "rd16 (pc_rom conf_two) 0x80000104 = 100" "rd16 (pc_rom conf_odd) 0x80000104 = 72"
  "pc_rom conf_two 0x8000001C = 0x80" "rd32 (pc_rom conf_two) 0x80000124 = 0xFEE00000"
proof -
  have "bytes_at (pc_rom conf_two) 0x80000010 16 ! 12 = 0x80" using pc_rom_fp(1) [of conf_two] conf_lengths by (simp add: pc_fp_def)
  then show "pc_rom conf_two 0x8000001C = 0x80" by (simp add: bytes_at_def)
next
  show "table_of pc_mp (pc_rom conf_two) 0x80000164 [CpuEntry 0, CpuEntry 1, OtherEntry, IoApicEntry 2] 0x8000012C 0x80000164"
    by (simp add: bytes_two)
  show "table_of pc_mp (pc_rom conf_odd) 0x80000148 [CpuEntry 0] 0x8000012C 0x80000140"
    by (simp add: bytes_odd)
  show "rd16 (pc_rom conf_two) 0x80000104 = 100" by (simp add: bytes_two rd16_def)
  show "rd16 (pc_rom conf_odd) 0x80000104 = 72" by (simp add: bytes_odd rd16_def)
  show "rd32 (pc_rom conf_two) 0x80000124 = 0xFEE00000" by (simp add: bytes_two rd16_def rd32_def)
qed

theorem mpinit_correct_witness:
  "\<exists>s'. mpinit 5 pc_mp (pc_rom conf_two) boot_mp = Ret s' \<and> ncpu (mp_mach s') = 2 \<and>
     map c_apicid (take 2 (cpus (mp_mach s'))) = [0, 1] \<and> ioapicid s' = 2 \<and> lapic s' = 0xFEE00000 \<and>
     hw (mp_mach s') = [(0x22, 0x70), (0x23, 1)]"
proof -
  have c: "mpconfig 5 pc_mp (pc_rom conf_two) = Ret (Some (0x80000100, 0x80000010))"
    using pc_config_two [of 4] by simp
  let ?es = "[CpuEntry 0, CpuEntry 1, OtherEntry, IoApicEntry 2]"
  have e: "0x80000164 = 0x80000100 + ucast (conf_length pc_mp (pc_rom conf_two) 0x80000100)" using tables(3) by simp
  have t: "table_of pc_mp (pc_rom conf_two) 0x80000164 ?es (0x80000100 + sizeof_mpconf pc_mp) 0x80000164" using tables(1) by simp
  have n: "(2 :: nat) = min NCPU (length (cpu_ids ?es))" "length ?es < 5" by (simp_all add: NCPU_def)
  have boot: "ncpu (mp_mach boot_mp) = 0" "NCPU \<le> length (cpus (mp_mach boot_mp))" "hw (mp_mach boot_mp) = []"
    by (simp_all add: boot_mp_def NCPU_def)
  have "take NCPU (cpu_ids ?es) = [0, 1]" "last_ioapic ?es 0 = 2" "mp_imcrp pc_mp (pc_rom conf_two) 0x80000010 \<noteq> 0"
    "imcr_on pc_mp [] = [(0x22, 0x70), (0x23, 1)]" "conf_lapicaddr pc_mp (pc_rom conf_two) 0x80000100 = 0xFEE00000" "ioapicid boot_mp = 0"
    using tables(5,6) by (simp_all add: NCPU_def last_ioapic_def imcr_on_def pc_mp_def boot_mp_def)
  with mpinit_correct [OF pc_kinds c e t n(2) boot(1,2) n(1)] boot(3) show ?thesis by auto
qed

theorem mpinit_unknown_entry_witness: "mpinit 1000 pc_mp (pc_rom conf_odd) boot_mp = NoFuel"
  using mpinit_unknown_entry [OF pc_kinds pc_config_odd, where e = "0x80000148" and es = "[CpuEntry 0]" and q = "0x80000140" and fuel = 1000 and s = boot_mp] tables bytes_odd
  by (simp add: kinds_def)

end
