(* ===== verification/Bio.thy ===== *)
theory Bio
  imports Prelude
begin

text \<open>
  The buffer cache with one lock per hash bucket: Lab4 \<open>buf.h\<close>, the constants of
  \<open>param.h\<close> it uses, and every function of \<open>bio.c\<close>.

  A \<open>struct buf *\<close> is a \<open>bptr\<close>: null, an element of the array \<open>bcache.buf\<close>, or the list
  head of a bucket; the structures they point to are the values of one function, so the
  linked lists are updated through \<open>prev\<close> and \<open>next\<close> exactly as the code does. The locks
  and the disk driver (\<open>spinlock.c\<close>, \<open>sleeplock.c\<close>, \<open>virtio_disk.c\<close>) are not in the
  repository: they are the fields of \<open>bio_ext\<close>, which act on the opaque \<open>'x\<close>.
\<close>

section \<open>Constants and data\<close>

definition MAXOPBLOCKS :: nat where "MAXOPBLOCKS = 10"
definition NBUF :: nat where "NBUF = MAXOPBLOCKS * 3"
definition NBUCKETS :: nat where "NBUCKETS = 13"

datatype bptr = BNull | Buf nat | Head nat

record buf =
  b_valid :: i32
  b_disk :: i32
  b_dev :: u32
  b_blockno :: u32
  b_refcnt :: u32
  b_prev :: bptr
  b_next :: bptr
  b_data :: "u8 list"
  b_used :: u8

type_synonym bmem = "bptr \<Rightarrow> buf"

text \<open>\<open>bcache\<close>: the buffers and bucket heads, and the state of the routines it calls.\<close>

record 'x bcache =
  bufs :: bmem
  bext :: 'x

record 'x bio_ext =
  bx_initlock :: "nat \<Rightarrow> 'x \<Rightarrow> 'x"
  bx_acquire :: "nat \<Rightarrow> 'x \<Rightarrow> 'x outcome"
  bx_release :: "nat \<Rightarrow> 'x \<Rightarrow> 'x outcome"
  bx_initsleeplock :: "bptr \<Rightarrow> 'x \<Rightarrow> 'x"
  bx_acquiresleep :: "bptr \<Rightarrow> 'x \<Rightarrow> 'x outcome"
  bx_releasesleep :: "bptr \<Rightarrow> 'x \<Rightarrow> 'x outcome"
  bx_holdingsleep :: "bptr \<Rightarrow> 'x \<Rightarrow> bool"
  bx_virtio_disk_rw :: "buf \<Rightarrow> bool \<Rightarrow> 'x \<Rightarrow> (buf \<times> 'x) outcome"

definition on_bext :: "('x \<Rightarrow> 'x outcome) \<Rightarrow> 'x bcache \<Rightarrow> 'x bcache outcome" where
  "on_bext f s = obind (f (bext s)) (\<lambda>x. Ret (s\<lparr>bext := x\<rparr>))"

definition put_buf :: "bptr \<Rightarrow> (buf \<Rightarrow> buf) \<Rightarrow> bmem \<Rightarrow> bmem" where
  "put_buf p f m = m(p := f (m p))"

text \<open>A write through a pointer, which must not be null.\<close>

definition write_buf :: "bptr \<Rightarrow> (buf \<Rightarrow> buf) \<Rightarrow> bmem \<Rightarrow> bmem outcome" where
  "write_buf p f m = (if p = BNull then Undef ''null buffer'' else Ret (put_buf p f m))"

definition hash_v :: "u32 \<Rightarrow> u32" where
  "hash_v key = key mod of_nat NBUCKETS"

abbreviation bucket_of :: "u32 \<Rightarrow> nat" where
  "bucket_of blockno \<equiv> unat (hash_v blockno)"

section \<open>Initialisation\<close>

definition binit_sleep :: "'x bio_ext \<Rightarrow> nat \<Rightarrow> 'x bcache \<Rightarrow> 'x bcache" where
  "binit_sleep E i s = s\<lparr>bext := bx_initsleeplock E (Buf i) (bext s)\<rparr>"

definition binit_bucket :: "'x bio_ext \<Rightarrow> nat \<Rightarrow> 'x bcache \<Rightarrow> 'x bcache" where
  "binit_bucket E i s =
     \<lparr>bufs = put_buf (Head i) (\<lambda>b. b\<lparr>b_prev := Head i, b_next := Head i\<rparr>) (bufs s),
      bext = bx_initlock E i (bext s)\<rparr>"

definition binit :: "'x bio_ext \<Rightarrow> 'x bcache \<Rightarrow> 'x bcache" where
  "binit E s = fold (binit_bucket E) [0..<NBUCKETS] (fold (binit_sleep E) [0..<NBUF] s)"

section \<open>Looking a block up\<close>

text \<open>
  The walk over the list of a bucket, from \<open>p\<close> until it is back at the head \<open>h\<close>. The list
  is circular, so the walk has fuel: \<open>None\<close> is a walk that has not come to an end.
\<close>

fun bget_search ::
    "nat \<Rightarrow> bptr \<Rightarrow> u32 \<Rightarrow> u32 \<Rightarrow> bmem \<Rightarrow> bptr \<Rightarrow> bptr option outcome option" where
  "bget_search 0 h dv bn m p = None"
| "bget_search (Suc fuel) h dv bn m p =
     (if p = h then Some (Ret None)
      else if p = BNull then Some (Undef ''null buffer'')
      else if b_dev (m p) = dv \<and> b_blockno (m p) = bn then Some (Ret (Some p))
      else bget_search fuel h dv bn m (b_next (m p)))"

text \<open>\<open>__atomic_test_and_set\<close> on the \<open>used\<close> byte: the old value, and the byte set.\<close>

definition test_and_set :: "nat \<Rightarrow> bmem \<Rightarrow> bool \<times> bmem" where
  "test_and_set i m = (b_used (m (Buf i)) \<noteq> 0, put_buf (Buf i) (\<lambda>b. b\<lparr>b_used := 1\<rparr>) m)"

fun claim_buf :: "nat list \<Rightarrow> bmem \<Rightarrow> nat option \<times> bmem" where
  "claim_buf [] m = (None, m)"
| "claim_buf (i # is) m =
     (if b_used (m (Buf i)) = 0 then
        case test_and_set i m of
          (False, m') \<Rightarrow> (Some i, m')
        | (True, m') \<Rightarrow> claim_buf is m'
      else claim_buf is m)"

text \<open>Filling in the claimed buffer and linking it behind the head of bucket \<open>v\<close>.\<close>

definition bget_link :: "nat \<Rightarrow> nat \<Rightarrow> u32 \<Rightarrow> u32 \<Rightarrow> bmem \<Rightarrow> bmem outcome" where
  "bget_link i v dv bn m =
     (let m = put_buf (Buf i) (\<lambda>b. b\<lparr>b_dev := dv, b_blockno := bn, b_valid := 0, b_refcnt := 1\<rparr>) m;
          m = put_buf (Buf i) (\<lambda>b. b\<lparr>b_next := b_next (m (Head v)), b_prev := Head v\<rparr>) m
      in obind (write_buf (b_next (m (Head v))) (\<lambda>b. b\<lparr>b_prev := Buf i\<rparr>) m) (\<lambda>m.
         Ret (put_buf (Head v) (\<lambda>b. b\<lparr>b_next := Buf i\<rparr>) m)))"

text \<open>The part of \<open>bget\<close> after the search, under the lock of bucket \<open>v\<close>.\<close>

definition bget_finish ::
    "'x bio_ext \<Rightarrow> nat \<Rightarrow> bptr \<Rightarrow> 'x bcache \<Rightarrow> (bptr \<times> 'x bcache) outcome" where
  "bget_finish E v p s =
     obind (on_bext (bx_release E v) s) (\<lambda>s.
     obind (on_bext (bx_acquiresleep E p) s) (\<lambda>s.
     Ret (p, s)))"

definition bget_miss ::
    "'x bio_ext \<Rightarrow> nat \<Rightarrow> u32 \<Rightarrow> u32 \<Rightarrow> 'x bcache \<Rightarrow> (bptr \<times> 'x bcache) outcome" where
  "bget_miss E v dv bn s =
     (case claim_buf [0..<NBUF] (bufs s) of
        (None, m) \<Rightarrow> Panic ''bget: no buffers''
      | (Some i, m) \<Rightarrow>
          obind (bget_link i v dv bn m) (\<lambda>m. bget_finish E v (Buf i) (s\<lparr>bufs := m\<rparr>)))"

definition bget ::
    "nat \<Rightarrow> 'x bio_ext \<Rightarrow> u32 \<Rightarrow> u32 \<Rightarrow> 'x bcache \<Rightarrow> (bptr \<times> 'x bcache) outcome option" where
  "bget fuel E dv bn s =
     (let v = bucket_of bn in
      case on_bext (bx_acquire E v) s of
        Panic e \<Rightarrow> Some (Panic e)
      | Undef e \<Rightarrow> Some (Undef e)
      | NoFuel \<Rightarrow> None
      | Ret s \<Rightarrow>
          (case bget_search fuel (Head v) dv bn (bufs s) (b_next (bufs s (Head v))) of
             None \<Rightarrow> None
           | Some (Ret (Some p)) \<Rightarrow>
               Some (bget_finish E v p
                 (s\<lparr>bufs := put_buf p (\<lambda>b. b\<lparr>b_refcnt := b_refcnt b + 1\<rparr>) (bufs s)\<rparr>))
           | Some (Ret None) \<Rightarrow> Some (bget_miss E v dv bn s)
           | Some (Panic e) \<Rightarrow> Some (Panic e)
           | Some (Undef e) \<Rightarrow> Some (Undef e)
           | Some NoFuel \<Rightarrow> None))"

section \<open>Reading, writing and releasing\<close>

definition disk_rw :: "'x bio_ext \<Rightarrow> bptr \<Rightarrow> bool \<Rightarrow> 'x bcache \<Rightarrow> 'x bcache outcome" where
  "disk_rw E p wr s =
     obind (bx_virtio_disk_rw E (bufs s p) wr (bext s)) (\<lambda>(b, x).
     Ret \<lparr>bufs = (bufs s)(p := b), bext = x\<rparr>)"

definition bread_fill :: "'x bio_ext \<Rightarrow> bptr \<times> 'x bcache \<Rightarrow> (bptr \<times> 'x bcache) outcome" where
  "bread_fill E = (\<lambda>(p, s).
     if b_valid (bufs s p) = 0 then
       obind (disk_rw E p False s) (\<lambda>s.
       Ret (p, s\<lparr>bufs := put_buf p (\<lambda>b. b\<lparr>b_valid := 1\<rparr>) (bufs s)\<rparr>))
     else Ret (p, s))"

definition bread ::
    "nat \<Rightarrow> 'x bio_ext \<Rightarrow> u32 \<Rightarrow> u32 \<Rightarrow> 'x bcache \<Rightarrow> (bptr \<times> 'x bcache) outcome option" where
  "bread fuel E dv bn s = map_option (\<lambda>r. obind r (bread_fill E)) (bget fuel E dv bn s)"

definition bwrite :: "'x bio_ext \<Rightarrow> bptr \<Rightarrow> 'x bcache \<Rightarrow> 'x bcache outcome" where
  "bwrite E p s =
     (if p = BNull then Undef ''null buffer''
      else if \<not> bx_holdingsleep E p (bext s) then Panic ''bwrite''
      else disk_rw E p True s)"

text \<open>Taking the buffer \<open>p\<close> out of the list it is in, then marking it free.\<close>

definition unlink_ptrs :: "bptr \<Rightarrow> bmem \<Rightarrow> bmem outcome" where
  "unlink_ptrs p m =
     obind (write_buf (b_next (m p)) (\<lambda>b. b\<lparr>b_prev := b_prev (m p)\<rparr>) m) (\<lambda>m.
     write_buf (b_prev (m p)) (\<lambda>b. b\<lparr>b_next := b_next (m p)\<rparr>) m)"

definition clear_used :: "bptr \<Rightarrow> bmem \<Rightarrow> bmem" where
  "clear_used p m = put_buf p (\<lambda>b. b\<lparr>b_used := 0\<rparr>) m"

definition drop_ref :: "bptr \<Rightarrow> bmem \<Rightarrow> bmem outcome" where
  "drop_ref p m =
     (let m = put_buf p (\<lambda>b. b\<lparr>b_refcnt := b_refcnt b - 1\<rparr>) m
      in if b_refcnt (m p) = 0 then obind (unlink_ptrs p m) (\<lambda>m. Ret (clear_used p m)) else Ret m)"

definition brelse :: "'x bio_ext \<Rightarrow> bptr \<Rightarrow> 'x bcache \<Rightarrow> 'x bcache outcome" where
  "brelse E p s =
     (if p = BNull then Undef ''null buffer''
      else if \<not> bx_holdingsleep E p (bext s) then Panic ''brelse''
      else
        obind (on_bext (bx_releasesleep E p) s) (\<lambda>s.
        let v = bucket_of (b_blockno (bufs s p)) in
        obind (on_bext (bx_acquire E v) s) (\<lambda>s.
        obind (drop_ref p (bufs s)) (\<lambda>m.
        on_bext (bx_release E v) (s\<lparr>bufs := m\<rparr>)))))"

text \<open>\<open>bpin\<close> and \<open>bunpin\<close> differ only in the direction they move the reference count.\<close>

definition bpin :: "'x bio_ext \<Rightarrow> bptr \<Rightarrow> 'x bcache \<Rightarrow> 'x bcache outcome" where
  "bpin E p s =
     (if p = BNull then Undef ''null buffer''
      else
        let v = bucket_of (b_blockno (bufs s p)) in
        obind (on_bext (bx_acquire E v) s) (\<lambda>s.
        on_bext (bx_release E v)
          (s\<lparr>bufs := put_buf p (\<lambda>b. b\<lparr>b_refcnt := b_refcnt b + 1\<rparr>) (bufs s)\<rparr>)))"

definition bunpin :: "'x bio_ext \<Rightarrow> bptr \<Rightarrow> 'x bcache \<Rightarrow> 'x bcache outcome" where
  "bunpin E p s =
     (if p = BNull then Undef ''null buffer''
      else
        let v = bucket_of (b_blockno (bufs s p)) in
        obind (on_bext (bx_acquire E v) s) (\<lambda>s.
        on_bext (bx_release E v)
          (s\<lparr>bufs := put_buf p (\<lambda>b. b\<lparr>b_refcnt := b_refcnt b - 1\<rparr>) (bufs s)\<rparr>)))"

end
