(* ===== verification/Bio_List.thy ===== *)
theory Bio_List
  imports Bio
begin

text \<open>
  The circular lists of the buffer cache: \<open>chain m p xs q\<close> says that the \<open>next\<close> pointers lead
  from \<open>p\<close> through the buffers \<open>xs\<close> to \<open>q\<close> and the \<open>prev\<close> pointers back. Linking behind the
  head and unlinking are insertion into and removal from that list, and the walk of \<open>bget\<close>
  is a search in it. The invariant \<open>cache_inv\<close> of the whole cache rests on these.
\<close>

fun chain :: "bmem \<Rightarrow> bptr \<Rightarrow> nat list \<Rightarrow> bptr \<Rightarrow> bool" where
  "chain m p [] q \<longleftrightarrow> b_next (m p) = q \<and> b_prev (m q) = p"
| "chain m p (i # is) q \<longleftrightarrow> b_next (m p) = Buf i \<and> b_prev (m (Buf i)) = p \<and> chain m (Buf i) is q"

lemma chain_cong:
  assumes "\<And>x. x = p \<or> x \<in> Buf ` set xs \<Longrightarrow> b_next (m' x) = b_next (m x)"
    and "\<And>x. x = q \<or> x \<in> Buf ` set xs \<Longrightarrow> b_prev (m' x) = b_prev (m x)"
  shows "chain m' p xs q = chain m p xs q"
  using assms by (induction xs arbitrary: p) auto

lemma chain_split: "chain m p (xs @ i # ys) q \<longleftrightarrow> chain m p xs (Buf i) \<and> chain m (Buf i) ys q"
  by (induction xs arbitrary: p) auto

lemma chain_prev_mem: "chain m p xs r \<Longrightarrow> b_prev (m r) = p \<or> b_prev (m r) \<in> Buf ` set xs"
  by (induction xs arbitrary: p) auto

lemma chain_next_mem: "chain m r ys q \<Longrightarrow> b_next (m r) = q \<or> b_next (m r) \<in> Buf ` set ys"
  by (cases ys) auto

text \<open>Bypassing the node \<open>r\<close> between two chains joins them.\<close>

definition bypass :: "bptr \<Rightarrow> bmem \<Rightarrow> bmem" where
  "bypass r m =
     put_buf (b_prev (m r)) (\<lambda>b. b\<lparr>b_next := b_next (m r)\<rparr>)
       (put_buf (b_next (m r)) (\<lambda>b. b\<lparr>b_prev := b_prev (m r)\<rparr>) m)"

lemma bypass_next: "b_next (bypass r m x) = (if x = b_prev (m r) then b_next (m r) else b_next (m x))"
  by (auto simp: bypass_def put_buf_def)

lemma bypass_prev: "b_prev (bypass r m x) = (if x = b_next (m r) then b_prev (m r) else b_prev (m x))"
  by (auto simp: bypass_def put_buf_def)

lemma bypass_other [simp]:
  "b_dev (bypass r m x) = b_dev (m x)" "b_blockno (bypass r m x) = b_blockno (m x)"
  "b_used (bypass r m x) = b_used (m x)" "b_refcnt (bypass r m x) = b_refcnt (m x)"
  "b_valid (bypass r m x) = b_valid (m x)" "b_data (bypass r m x) = b_data (m x)"
  by (auto simp: bypass_def put_buf_def)

lemma chain_bypass:
  assumes "chain m p xs r" and "chain m r ys q" and "distinct (xs @ ys)"
    and "p \<notin> Buf ` set (xs @ ys)" and "q \<notin> Buf ` set (xs @ ys)"
    and "r \<notin> Buf ` set (xs @ ys)" and "p \<noteq> r" and "q \<noteq> r"
  shows "chain (bypass r m) p (xs @ ys) q"
  using assms
proof (induction xs arbitrary: p)
  case Nil
  then have p: "b_next (m p) = r" "b_prev (m r) = p" by simp_all
  show ?case
  proof (cases ys)
    case Nil
    with p Nil.prems show ?thesis by (simp add: bypass_next bypass_prev)
  next
    case (Cons j zs)
    have "chain (bypass r m) (Buf j) zs q = chain m (Buf j) zs q"
      using Nil.prems p Cons by (intro chain_cong) (auto simp: bypass_next bypass_prev)
    with Nil.prems p Cons show ?thesis by (simp add: bypass_next bypass_prev)
  qed
next
  case (Cons k ks)
  have "b_prev (m r) \<in> Buf ` set (k # ks)"
    using chain_prev_mem [of m "Buf k" ks r] Cons.prems by simp
  moreover have "p \<notin> Buf ` set (k # ks)" using Cons.prems by (simp add: image_Un)
  ultimately have "b_prev (m r) \<noteq> p" by metis
  moreover have "b_next (m r) \<noteq> Buf k"
    using chain_next_mem [OF Cons.prems(2)] Cons.prems by auto
  moreover have "chain (bypass r m) (Buf k) (ks @ ys) q"
    using Cons.prems by (intro Cons.IH) auto
  ultimately show ?case using Cons.prems by (simp add: bypass_next bypass_prev)
qed

lemma chain_remove:
  assumes "chain m (Head v) (xs @ i # ys) (Head v)" and "distinct (xs @ i # ys)"
  shows "chain (bypass (Buf i) m) (Head v) (xs @ ys) (Head v)"
  using assms by (intro chain_bypass) (auto simp: chain_split)

text \<open>Linking a buffer that is in no list behind the head.\<close>

definition linked :: "nat \<Rightarrow> nat \<Rightarrow> u32 \<Rightarrow> u32 \<Rightarrow> bmem \<Rightarrow> bmem" where
  "linked i v dv bn m =
     put_buf (Head v) (\<lambda>b. b\<lparr>b_next := Buf i\<rparr>)
       (put_buf (b_next (m (Head v))) (\<lambda>b. b\<lparr>b_prev := Buf i\<rparr>)
         (put_buf (Buf i) (\<lambda>b. b\<lparr>b_dev := dv, b_blockno := bn, b_valid := 0, b_refcnt := 1,
                                 b_next := b_next (m (Head v)), b_prev := Head v\<rparr>) m))"

lemma bget_link_linked:
  "b_next (m (Head v)) \<noteq> BNull \<Longrightarrow> bget_link i v dv bn m = Ret (linked i v dv bn m)"
  by (simp add: bget_link_def linked_def write_buf_def put_buf_def Let_def)

lemma linked_next:
  "b_next (linked i v dv bn m x) =
     (if x = Head v then Buf i else if x = Buf i then b_next (m (Head v)) else b_next (m x))"
  by (auto simp: linked_def put_buf_def)

lemma linked_prev:
  "b_next (m (Head v)) \<noteq> Buf i \<Longrightarrow>
   b_prev (linked i v dv bn m x) =
     (if x = b_next (m (Head v)) then Buf i else if x = Buf i then Head v else b_prev (m x))"
  by (auto simp: linked_def put_buf_def)

lemma linked_other [simp]:
  "b_dev (linked i v dv bn m x) = (if x = Buf i then dv else b_dev (m x))"
  "b_blockno (linked i v dv bn m x) = (if x = Buf i then bn else b_blockno (m x))"
  "b_refcnt (linked i v dv bn m x) = (if x = Buf i then 1 else b_refcnt (m x))"
  "b_valid (linked i v dv bn m x) = (if x = Buf i then 0 else b_valid (m x))"
  "b_used (linked i v dv bn m x) = b_used (m x)"
  "b_data (linked i v dv bn m x) = b_data (m x)"
  by (auto simp: linked_def put_buf_def)

lemma chain_insert:
  assumes c: "chain m (Head v) xs (Head v)" and i: "i \<notin> set xs" and d: "distinct xs"
  shows "chain (linked i v dv bn m) (Head v) (i # xs) (Head v)"
proof -
  have n: "b_next (m (Head v)) \<noteq> Buf i"
    using chain_next_mem [OF c] i by auto
  note upd = linked_next linked_prev [of m v i, OF n]
  show ?thesis
  proof (cases xs)
    case Nil
    with c show ?thesis by (simp add: upd)
  next
    case (Cons j ys)
    with c have j: "b_next (m (Head v)) = Buf j" by simp
    have "chain (linked i v dv bn m) (Buf j) ys (Head v) = chain m (Buf j) ys (Head v)"
      using i d Cons j by (intro chain_cong) (auto simp: upd)
    with c Cons j i show ?thesis by (auto simp: upd)
  qed
qed

lemma chain_not_null: "chain m (Head v) xs (Head v) \<Longrightarrow> b_next (m (Head v)) \<noteq> BNull"
  using chain_next_mem [of m "Head v" xs "Head v"] by auto

text \<open>The walk of \<open>bget\<close> ends at the first buffer of the list with the key, or at the head.\<close>

lemma bget_search_chain:
  assumes "chain m p xs h" and "h \<notin> Buf ` set xs"
  shows "length xs < fuel \<Longrightarrow>
    bget_search fuel h dv bn m (b_next (m p)) =
      Some (Ret (map_option Buf (find (\<lambda>i. b_dev (m (Buf i)) = dv \<and> b_blockno (m (Buf i)) = bn) xs)))"
  using assms
proof (induction xs arbitrary: p fuel)
  case Nil
  then show ?case by (cases fuel) auto
next
  case (Cons i xs)
  then obtain f where "fuel = Suc f" by (cases fuel) auto
  with Cons show ?case by auto
qed

section \<open>The invariant of the cache\<close>

text \<open>
  \<open>L v\<close> are the buffers of bucket \<open>v\<close>. Every bucket is a well-formed circular list of
  distinct used buffers of its hash class, no two of them for the same block, and a used
  buffer is in its bucket.
\<close>

abbreviation key_of :: "bmem \<Rightarrow> nat \<Rightarrow> u32 \<times> u32" where
  "key_of m i \<equiv> (b_dev (m (Buf i)), b_blockno (m (Buf i)))"

definition bucket_inv :: "bmem \<Rightarrow> nat \<Rightarrow> nat list \<Rightarrow> bool" where
  "bucket_inv m v xs \<longleftrightarrow>
     chain m (Head v) xs (Head v) \<and> distinct xs \<and> inj_on (key_of m) (set xs) \<and>
     (\<forall>i \<in> set xs. i < NBUF \<and> bucket_of (b_blockno (m (Buf i))) = v \<and> b_used (m (Buf i)) \<noteq> 0)"

definition lists_ok :: "bmem \<Rightarrow> (nat \<Rightarrow> nat list) \<Rightarrow> bool" where
  "lists_ok m L \<longleftrightarrow> (\<forall>v < NBUCKETS. bucket_inv m v (L v))"

definition cache_inv :: "bmem \<Rightarrow> (nat \<Rightarrow> nat list) \<Rightarrow> bool" where
  "cache_inv m L \<longleftrightarrow> lists_ok m L \<and>
     (\<forall>i < NBUF. b_used (m (Buf i)) \<noteq> 0 \<longrightarrow> i \<in> set (L (bucket_of (b_blockno (m (Buf i))))))"

lemma bucket_of_less: "bucket_of bn < NBUCKETS"
proof -
  have "unat (hash_v bn) = unat bn mod NBUCKETS"
    by (simp add: hash_v_def unat_mod unat_of_nat NBUCKETS_def)
  then show ?thesis by (simp add: NBUCKETS_def)
qed

lemma bucket_inv_cong:
  assumes "\<And>x. x = Head v \<or> x \<in> Buf ` set xs \<Longrightarrow>
      b_next (m' x) = b_next (m x) \<and> b_prev (m' x) = b_prev (m x) \<and> b_dev (m' x) = b_dev (m x) \<and>
      b_blockno (m' x) = b_blockno (m x) \<and> b_used (m' x) = b_used (m x)"
  shows "bucket_inv m' v xs = bucket_inv m v xs"
proof -
  have "chain m' (Head v) xs (Head v) = chain m (Head v) xs (Head v)"
    using assms by (intro chain_cong) auto
  moreover have "inj_on (key_of m') (set xs) = inj_on (key_of m) (set xs)"
    using assms by (intro inj_on_cong) auto
  ultimately show ?thesis using assms by (auto simp: bucket_inv_def)
qed

text \<open>Reference counts, data and the valid bit are no part of the shape.\<close>

lemma lists_cong:
  assumes "\<And>x. b_next (m' x) = b_next (m x) \<and> b_prev (m' x) = b_prev (m x) \<and>
      b_dev (m' x) = b_dev (m x) \<and> b_blockno (m' x) = b_blockno (m x)"
    and "\<And>v i. v < NBUCKETS \<Longrightarrow> i \<in> set (L v) \<Longrightarrow> b_used (m' (Buf i)) = b_used (m (Buf i))"
  shows "lists_ok m' L = lists_ok m L"
proof -
  have "chain m' p xs q = chain m p xs q" for p xs q
    using assms(1) by (intro chain_cong) auto
  moreover have "inj_on (key_of m') X = inj_on (key_of m) X" for X
    using assms(1) by (intro inj_on_cong) auto
  ultimately show ?thesis using assms by (simp add: lists_ok_def bucket_inv_def)
qed

lemma cache_inv_cong:
  assumes "\<And>x. b_next (m' x) = b_next (m x) \<and> b_prev (m' x) = b_prev (m x) \<and>
      b_dev (m' x) = b_dev (m x) \<and> b_blockno (m' x) = b_blockno (m x) \<and> b_used (m' x) = b_used (m x)"
  shows "cache_inv m' L = cache_inv m L"
  using assms lists_cong [of m' m L] by (simp add: cache_inv_def)

lemma lists_refcnt [simp]:
  "lists_ok (put_buf p (\<lambda>b. b\<lparr>b_refcnt := f b\<rparr>) m) L = lists_ok m L"
  by (rule lists_cong) (simp_all add: put_buf_def)

lemma cache_inv_refcnt [simp]:
  "cache_inv (put_buf p (\<lambda>b. b\<lparr>b_refcnt := f b\<rparr>) m) L = cache_inv m L"
  by (rule cache_inv_cong) (simp add: put_buf_def)

lemma lists_bucket: "lists_ok m L \<Longrightarrow> v < NBUCKETS \<Longrightarrow> bucket_inv m v (L v)"
  by (simp add: lists_ok_def)

lemma lists_mem:
  assumes "lists_ok m L" and "v < NBUCKETS" and "i \<in> set (L v)"
  shows "i < NBUF" and "bucket_of (b_blockno (m (Buf i))) = v" and "b_used (m (Buf i)) \<noteq> 0"
  using assms by (auto simp: lists_ok_def bucket_inv_def)

lemma lists_disjoint:
  assumes "lists_ok m L" and "v < NBUCKETS" and "w < NBUCKETS" and "w \<noteq> v"
  shows "set (L w) \<inter> set (L v) = {}"
  using lists_mem(2) [OF assms(1,2)] lists_mem(2) [OF assms(1,3)] assms(4) by blast

lemma cache_inv_lists: "cache_inv m L \<Longrightarrow> lists_ok m L"
  by (simp add: cache_inv_def)

lemmas cache_inv_bucket = lists_bucket [OF cache_inv_lists]
lemmas cache_inv_mem = lists_mem [OF cache_inv_lists]

lemma bucket_length:
  assumes "bucket_inv m v xs"
  shows "length xs \<le> NBUF"
proof -
  have "set xs \<subseteq> {..<NBUF}" using assms by (auto simp: bucket_inv_def)
  then have "card (set xs) \<le> NBUF" by (metis card_lessThan card_mono finite_lessThan)
  with assms show ?thesis by (simp add: bucket_inv_def distinct_card)
qed

text \<open>Nodes of different buckets are different.\<close>

lemma bucket_far:
  "S \<inter> T = {} \<Longrightarrow> w \<noteq> v \<Longrightarrow> x = Head w \<or> x \<in> Buf ` S \<Longrightarrow> y = Head v \<or> y \<in> Buf ` T \<Longrightarrow> x \<noteq> y"
  by auto

text \<open>Linking a claimed buffer that is in no list.\<close>

lemma lists_link:
  assumes inv: "lists_ok m L" and i: "i < NBUF" "b_used (m (Buf i)) \<noteq> 0" and v: "v = bucket_of bn"
    and fresh: "\<And>w. w < NBUCKETS \<Longrightarrow> i \<notin> set (L w)"
    and new: "\<forall>j \<in> set (L v). key_of m j \<noteq> (dv, bn)"
  shows "lists_ok (linked i v dv bn m) (L(v := i # L v))"
proof -
  let ?m2 = "linked i v dv bn m"
  have vl: "v < NBUCKETS" using v bucket_of_less by simp
  note bv = lists_bucket [OF inv vl, unfolded bucket_inv_def]
  have n1: "b_next (m (Head v)) \<noteq> Buf i" "b_next (m (Head v)) = Head v \<or> b_next (m (Head v)) \<in> Buf ` set (L v)"
    using chain_next_mem [of m "Head v" "L v" "Head v"] bv fresh [OF vl] by auto
  have here: "bucket_inv ?m2 v (i # L v)"
    unfolding bucket_inv_def
  proof (intro conjI)
    show "chain ?m2 (Head v) (i # L v) (Head v)"
      using fresh [OF vl] bv by (intro chain_insert) auto
    show "inj_on (key_of ?m2) (set (i # L v))"
      using bv new fresh [OF vl] unfolding inj_on_def by auto
  qed (use bv v i fresh [OF vl] in auto)
  have there: "bucket_inv ?m2 w (L w)" if w: "w < NBUCKETS" "w \<noteq> v" for w
  proof -
    have "bucket_inv ?m2 w (L w) = bucket_inv m w (L w)"
      using fresh [OF w(1)] w n1 lists_disjoint [OF inv vl w]
      by (intro bucket_inv_cong) (auto simp: linked_next linked_prev)
    with lists_bucket [OF inv w(1)] show ?thesis by simp
  qed
  show ?thesis
    using here there by (simp add: lists_ok_def)
qed

text \<open>Taking a buffer out of its list.\<close>

lemma lists_unlink:
  assumes inv: "lists_ok m L" and v: "v < NBUCKETS" and i: "i \<in> set (L v)"
  shows "lists_ok (bypass (Buf i) m) (L(v := remove1 i (L v)))"
proof -
  let ?m1 = "bypass (Buf i) m"
  note bv = lists_bucket [OF inv v, unfolded bucket_inv_def]
  from split_list_first [OF i] obtain xs ys where L: "L v = xs @ i # ys" "i \<notin> set xs" by blast
  have r: "remove1 i (L v) = xs @ ys" using L by (simp add: remove1_append)
  have ch: "chain m (Head v) (xs @ i # ys) (Head v)" and d: "distinct (xs @ i # ys)"
    using bv L by auto
  have here: "bucket_inv ?m1 v (xs @ ys)"
    using chain_remove [OF ch d] bv d L unfolding bucket_inv_def inj_on_def by auto
  have nb: "b_next (m (Buf i)) = Head v \<or> b_next (m (Buf i)) \<in> Buf ` set (L v)"
    "b_prev (m (Buf i)) = Head v \<or> b_prev (m (Buf i)) \<in> Buf ` set (L v)"
    using ch chain_next_mem [of m "Buf i" ys "Head v"] chain_prev_mem [of m "Head v" xs "Buf i"]
    by (auto simp: chain_split L)
  have there: "bucket_inv ?m1 w (L w)" if w: "w < NBUCKETS" "w \<noteq> v" for w
  proof -
    have far: "x \<noteq> b_next (m (Buf i))" "x \<noteq> b_prev (m (Buf i))"
      if "x = Head w \<or> x \<in> Buf ` set (L w)" for x
      using bucket_far [OF lists_disjoint [OF inv v w] w(2) that] nb by auto
    have "bucket_inv ?m1 w (L w) = bucket_inv m w (L w)"
      by (rule bucket_inv_cong) (simp add: bypass_next bypass_prev far)
    with lists_bucket [OF inv w(1)] show ?thesis by simp
  qed
  show ?thesis using here there r by (simp add: lists_ok_def)
qed

lemma lists_neighbours:
  assumes inv: "lists_ok m L" and v: "v < NBUCKETS" and i: "i \<in> set (L v)"
  shows "b_next (m (Buf i)) \<noteq> BNull" "b_prev (m (Buf i)) \<noteq> BNull" "b_next (m (Buf i)) \<noteq> Buf i"
proof -
  have b: "chain m (Head v) (L v) (Head v)" "distinct (L v)"
    using lists_bucket [OF inv v] by (simp_all add: bucket_inv_def)
  from split_list [OF i] obtain xs ys where L: "L v = xs @ i # ys" by blast
  with b have "chain m (Head v) xs (Buf i)" "chain m (Buf i) ys (Head v)" "i \<notin> set ys"
    by (auto simp: chain_split)
  with chain_next_mem [of m "Buf i" ys "Head v"] chain_prev_mem [of m "Head v" xs "Buf i"]
  show "b_next (m (Buf i)) \<noteq> BNull" "b_prev (m (Buf i)) \<noteq> BNull" "b_next (m (Buf i)) \<noteq> Buf i"
    by auto
qed

lemma unlink_ptrs_bypass:
  assumes "lists_ok m L" and "v < NBUCKETS" and "i \<in> set (L v)"
  shows "unlink_ptrs (Buf i) m = Ret (bypass (Buf i) m)"
  using lists_neighbours [OF assms] by (simp add: unlink_ptrs_def bypass_def write_buf_def put_buf_def)

section \<open>The two transitions of the whole cache\<close>

lemma cache_inv_link:
  assumes inv: "cache_inv m L" and i: "i < NBUF" "b_used (m (Buf i)) = 0" and v: "v = bucket_of bn"
    and new: "\<forall>j \<in> set (L v). key_of m j \<noteq> (dv, bn)"
  shows "cache_inv (linked i v dv bn (put_buf (Buf i) (\<lambda>b. b\<lparr>b_used := 1\<rparr>) m)) (L(v := i # L v))"
proof -
  let ?m1 = "put_buf (Buf i) (\<lambda>b. b\<lparr>b_used := 1\<rparr>) m"
  have fresh: "i \<notin> set (L w)" if "w < NBUCKETS" for w
    using cache_inv_mem(3) [OF inv that, of i] i by auto
  have m1: "b_dev (?m1 x) = b_dev (m x)" "b_blockno (?m1 x) = b_blockno (m x)"
    "b_used (?m1 x) = (if x = Buf i then 1 else b_used (m x))" for x
    by (auto simp: put_buf_def)
  have "lists_ok ?m1 L = lists_ok m L"
    using fresh by (intro lists_cong) (auto simp: put_buf_def)
  with inv fresh i v new have "lists_ok (linked i v dv bn ?m1) (L(v := i # L v))"
    by (intro lists_link) (auto simp: cache_inv_def m1)
  moreover have "j \<in> set ((L(v := i # L v)) (bucket_of (b_blockno (linked i v dv bn ?m1 (Buf j)))))"
    if "j < NBUF" "b_used (linked i v dv bn ?m1 (Buf j)) \<noteq> 0" for j
    using that inv v by (cases "j = i") (auto simp: cache_inv_def m1)
  ultimately show ?thesis by (simp add: cache_inv_def)
qed

lemma cache_inv_unlink:
  assumes inv: "cache_inv m L" and v: "v < NBUCKETS" and i: "i \<in> set (L v)"
  shows "cache_inv (clear_used (Buf i) (bypass (Buf i) m)) (L(v := remove1 i (L v)))"
proof -
  let ?m2 = "clear_used (Buf i) (bypass (Buf i) m)"
  let ?L = "L(v := remove1 i (L v))"
  have d: "distinct (L v)" using cache_inv_bucket [OF inv v] by (simp add: bucket_inv_def)
  have m2: "b_blockno (?m2 x) = b_blockno (m x)"
    "b_used (?m2 x) = (if x = Buf i then 0 else b_used (m x))" for x
    by (auto simp: clear_used_def put_buf_def)
  have "i \<notin> set (?L w)" if "w < NBUCKETS" for w
    using d cache_inv_mem(2) [OF inv that, of i] cache_inv_mem(2) [OF inv v i] by auto
  then have "lists_ok ?m2 ?L = lists_ok (bypass (Buf i) m) ?L"
    by (intro lists_cong) (auto simp: clear_used_def put_buf_def)
  with lists_unlink [OF cache_inv_lists [OF inv] v i] have "lists_ok ?m2 ?L" by simp
  moreover have "j \<in> set (?L (bucket_of (b_blockno (?m2 (Buf j)))))"
    if "j < NBUF" "b_used (?m2 (Buf j)) \<noteq> 0" for j
  proof -
    have "j \<noteq> i" "b_used (m (Buf j)) \<noteq> 0" using that(2) by (auto simp: m2 split: if_splits)
    with that(1) inv have "j \<in> set (L (bucket_of (b_blockno (m (Buf j)))))" by (simp add: cache_inv_def)
    with \<open>j \<noteq> i\<close> d show ?thesis by (cases "bucket_of (b_blockno (m (Buf j))) = v") (auto simp: m2)
  qed
  ultimately show ?thesis by (simp add: cache_inv_def)
qed

section \<open>The cache after boot\<close>

definition zero_buf :: buf where
  "zero_buf = \<lparr>b_valid = 0, b_disk = 0, b_dev = 0, b_blockno = 0, b_refcnt = 0, b_prev = BNull,
               b_next = BNull, b_data = [], b_used = 0\<rparr>"

lemma binit_sleep_bufs: "bufs (fold (binit_sleep E) is s) = bufs s"
  by (induction "is" arbitrary: s) (simp_all add: binit_sleep_def)

lemma binit_bucket_bufs:
  "bufs (fold (binit_bucket E) vs s) p =
     (case p of Head v \<Rightarrow> if v \<in> set vs then (bufs s p)\<lparr>b_prev := p, b_next := p\<rparr> else bufs s p
      | _ \<Rightarrow> bufs s p)"
  by (induction vs arbitrary: s) (auto simp: binit_bucket_def put_buf_def split: bptr.splits)

lemma binit_bufs:
  "bufs (binit E s) (Head v) =
     (if v < NBUCKETS then (bufs s (Head v))\<lparr>b_prev := Head v, b_next := Head v\<rparr> else bufs s (Head v))"
  "bufs (binit E s) (Buf i) = bufs s (Buf i)"
  by (simp_all add: binit_def binit_bucket_bufs binit_sleep_bufs)

lemma binit_lists: "lists_ok (bufs (binit E s)) (\<lambda>_. [])"
  by (simp add: lists_ok_def bucket_inv_def binit_bufs)

end
