(* ===== verification/Bio_Ops.thy ===== *)
theory Bio_Ops
  imports Bio_List
begin

text \<open>
  What the operations of the buffer cache do. The abstraction of a cache is the map from
  blocks to buffers (\<open>cache_map\<close>) and, with the disk, the contents of every block
  (\<open>block_data\<close>): the buffer's data where the block is cached and valid, the disk's
  otherwise. The locale \<open>block_env\<close> states what the code relies on from the locks and the
  disk driver; under it each operation is described on the abstraction.
\<close>

section \<open>The block map\<close>

definition cache_map :: "bmem \<Rightarrow> u32 \<times> u32 \<Rightarrow> nat option" where
  "cache_map m k = find (\<lambda>i. b_used (m (Buf i)) \<noteq> 0 \<and> key_of m i = k) [0..<NBUF]"

definition block_data :: "bmem \<Rightarrow> (u32 \<times> u32 \<Rightarrow> u8 list) \<Rightarrow> u32 \<times> u32 \<Rightarrow> u8 list" where
  "block_data m d k =
     (case cache_map m k of
        Some i \<Rightarrow> if b_valid (m (Buf i)) \<noteq> 0 then b_data (m (Buf i)) else d k
      | None \<Rightarrow> d k)"

text \<open>A block is cached in at most one buffer.\<close>

lemma used_unique:
  assumes inv: "cache_inv m L" and "i < NBUF" "b_used (m (Buf i)) \<noteq> 0"
    and "j < NBUF" "b_used (m (Buf j)) \<noteq> 0" and "key_of m i = key_of m j"
  shows "i = j"
proof -
  let ?v = "bucket_of (b_blockno (m (Buf i)))"
  have "i \<in> set (L ?v)" and "j \<in> set (L ?v)"
    using assms unfolding cache_inv_def by auto
  moreover have "inj_on (key_of m) (set (L ?v))"
    using cache_inv_bucket [OF inv bucket_of_less] by (simp add: bucket_inv_def)
  ultimately show ?thesis using assms(6) by (simp add: inj_on_def)
qed

lemma cache_map_Some:
  assumes "cache_inv m L"
  shows "cache_map m k = Some i \<longleftrightarrow> i < NBUF \<and> b_used (m (Buf i)) \<noteq> 0 \<and> key_of m i = k"
proof
  assume "cache_map m k = Some i"
  then show "i < NBUF \<and> b_used (m (Buf i)) \<noteq> 0 \<and> key_of m i = k"
    by (auto simp: cache_map_def find_Some_iff)
next
  assume i: "i < NBUF \<and> b_used (m (Buf i)) \<noteq> 0 \<and> key_of m i = k"
  then obtain j where "cache_map m k = Some j"
    by (cases "cache_map m k") (auto simp: cache_map_def find_None_iff)
  moreover from this have "j < NBUF" "b_used (m (Buf j)) \<noteq> 0" "key_of m j = k"
    by (auto simp: cache_map_def find_Some_iff)
  ultimately show "cache_map m k = Some i" using used_unique [OF assms, of i j] i by auto
qed

lemma cache_map_None:
  "cache_map m k = None \<longleftrightarrow> (\<forall>i < NBUF. b_used (m (Buf i)) \<noteq> 0 \<longrightarrow> key_of m i \<noteq> k)"
  by (auto simp: cache_map_def find_None_iff)

lemma cache_map_cong:
  assumes "\<And>i. i < NBUF \<Longrightarrow> b_used (m' (Buf i)) = b_used (m (Buf i)) \<and> key_of m' i = key_of m i"
  shows "cache_map m' = cache_map m"
  unfolding cache_map_def using assms by (intro ext find_cong) auto

text \<open>The search of \<open>bget\<close> in the bucket of a block is a lookup in the map.\<close>

lemma bget_search_map:
  assumes inv: "cache_inv m L" and f: "NBUF < fuel"
  shows "bget_search fuel (Head (bucket_of bn)) dv bn m (b_next (m (Head (bucket_of bn)))) =
           Some (Ret (map_option Buf (cache_map m (dv, bn))))"
proof -
  let ?v = "bucket_of bn"
  let ?f = "find (\<lambda>i. b_dev (m (Buf i)) = dv \<and> b_blockno (m (Buf i)) = bn) (L ?v)"
  note bi = cache_inv_bucket [OF inv bucket_of_less, of bn]
  have "?f = cache_map m (dv, bn)"
  proof (cases ?f)
    case None
    then have "\<forall>i \<in> set (L ?v). key_of m i \<noteq> (dv, bn)" by (auto simp: find_None_iff)
    then have "cache_map m (dv, bn) = None"
      using inv by (auto simp: cache_map_None cache_inv_def)
    with None show ?thesis by simp
  next
    case (Some i)
    then have i: "i \<in> set (L ?v)" "key_of m i = (dv, bn)" by (auto simp: find_Some_iff)
    with cache_inv_mem [OF inv bucket_of_less i(1)] have "cache_map m (dv, bn) = Some i"
      by (simp add: cache_map_Some [OF inv])
    with Some show ?thesis by simp
  qed
  moreover have "length (L ?v) < fuel" using bucket_length [OF bi] f by simp
  ultimately show ?thesis
    using bget_search_chain [of m "Head ?v" "L ?v" "Head ?v" fuel dv bn] bi
    by (auto simp: bucket_inv_def)
qed

lemma claim_buf_eq:
  "claim_buf is m =
     (case find (\<lambda>i. b_used (m (Buf i)) = 0) is of
        None \<Rightarrow> (None, m)
      | Some i \<Rightarrow> (Some i, put_buf (Buf i) (\<lambda>b. b\<lparr>b_used := 1\<rparr>) m))"
  by (induction "is") (auto simp: test_and_set_def)

section \<open>Memory transformations on the abstraction\<close>

definition wf_cache :: "bmem \<Rightarrow> bool" where
  "wf_cache m \<longleftrightarrow> (\<exists>L. cache_inv m L)"

text \<open>Claiming and linking a free buffer for a block that is not cached.\<close>

lemma link_wf:
  assumes inv: "wf_cache m" and new: "cache_map m (dv, bn) = None"
    and i: "i < NBUF" "b_used (m (Buf i)) = 0"
  shows "\<exists>m'. bget_link i (bucket_of bn) dv bn (put_buf (Buf i) (\<lambda>b. b\<lparr>b_used := 1\<rparr>) m) = Ret m' \<and>
           wf_cache m' \<and> cache_map m' = (cache_map m)((dv, bn) \<mapsto> i) \<and>
           b_refcnt (m' (Buf i)) = 1 \<and> b_valid (m' (Buf i)) = 0 \<and>
           (\<forall>j. b_used (m' (Buf j)) = (if j = i then 1 else b_used (m (Buf j)))) \<and>
           (\<forall>j. j \<noteq> i \<longrightarrow> b_refcnt (m' (Buf j)) = b_refcnt (m (Buf j)) \<and>
              b_valid (m' (Buf j)) = b_valid (m (Buf j)) \<and> b_data (m' (Buf j)) = b_data (m (Buf j)))"
proof -
  from inv obtain L where L: "cache_inv m L" by (auto simp: wf_cache_def)
  let ?v = "bucket_of bn"
  let ?m1 = "put_buf (Buf i) (\<lambda>b. b\<lparr>b_used := 1\<rparr>) m"
  let ?m' = "linked i ?v dv bn ?m1"
  have bi: "chain m (Head ?v) (L ?v) (Head ?v)"
    using cache_inv_bucket [OF L bucket_of_less] by (simp add: bucket_inv_def)
  have "b_next (?m1 (Head ?v)) \<noteq> BNull"
    using chain_not_null [OF bi] by (simp add: put_buf_def)
  then have run: "bget_link i ?v dv bn ?m1 = Ret ?m'" by (rule bget_link_linked)
  have "\<forall>j \<in> set (L ?v). key_of m j \<noteq> (dv, bn)"
    using new cache_inv_mem [OF L bucket_of_less] by (auto simp: cache_map_None)
  with L i have inv': "cache_inv ?m' (L(?v := i # L ?v))" by (intro cache_inv_link) auto
  have m1: "b_used (?m1 x) = (if x = Buf i then 1 else b_used (m x))"
    "b_dev (?m1 x) = b_dev (m x)" "b_blockno (?m1 x) = b_blockno (m x)"
    "b_refcnt (?m1 x) = b_refcnt (m x)" "b_valid (?m1 x) = b_valid (m x)"
    "b_data (?m1 x) = b_data (m x)" for x
    by (auto simp: put_buf_def)
  have map: "cache_map ?m' = (cache_map m)((dv, bn) \<mapsto> i)"
  proof
    fix k
    have "cache_map ?m' k = Some j \<longleftrightarrow> ((cache_map m)((dv, bn) \<mapsto> i)) k = Some j" for j
      using new i by (auto simp: cache_map_Some [OF inv'] cache_map_Some [OF L] cache_map_None m1)
    then show "cache_map ?m' k = ((cache_map m)((dv, bn) \<mapsto> i)) k" by (rule option_eqI)
  qed
  show ?thesis using run inv' map by (auto simp: wf_cache_def m1)
qed

text \<open>Dropping the last reference frees the buffer of the block; an earlier one only counts.\<close>

lemma drop_ref_wf:
  assumes inv: "wf_cache m" and i: "cache_map m k = Some i"
  shows "\<exists>m'. drop_ref (Buf i) m = Ret m' \<and> wf_cache m' \<and>
           cache_map m' = (if b_refcnt (m (Buf i)) = 1 then (cache_map m)(k := None) else cache_map m) \<and>
           b_refcnt (m' (Buf i)) = b_refcnt (m (Buf i)) - 1 \<and>
           (\<forall>j. b_used (m' (Buf j)) =
              (if j = i \<and> b_refcnt (m (Buf i)) = 1 then 0 else b_used (m (Buf j)))) \<and>
           (\<forall>j. j \<noteq> i \<longrightarrow> b_refcnt (m' (Buf j)) = b_refcnt (m (Buf j))) \<and>
           (\<forall>j. b_valid (m' (Buf j)) = b_valid (m (Buf j)) \<and> b_data (m' (Buf j)) = b_data (m (Buf j)))"
proof -
  from inv obtain L where L: "cache_inv m L" by (auto simp: wf_cache_def)
  let ?m1 = "put_buf (Buf i) (\<lambda>b. b\<lparr>b_refcnt := b_refcnt b - 1\<rparr>) m"
  have L1: "cache_inv ?m1 L" using L by simp
  from i have ik: "i < NBUF" "b_used (m (Buf i)) \<noteq> 0" "key_of m i = k"
    by (simp_all add: cache_map_Some [OF L])
  have m1: "b_used (?m1 x) = b_used (m x)"
    "b_dev (?m1 x) = b_dev (m x)" "b_blockno (?m1 x) = b_blockno (m x)"
    "b_refcnt (?m1 x) = (if x = Buf i then b_refcnt (m x) - 1 else b_refcnt (m x))"
    "b_valid (?m1 x) = b_valid (m x)" "b_data (?m1 x) = b_data (m x)" for x
    by (auto simp: put_buf_def)
  show ?thesis
  proof (cases "b_refcnt (m (Buf i)) = 1")
    case False
    then have "drop_ref (Buf i) m = Ret ?m1" by (simp add: drop_ref_def Let_def m1)
    moreover have "cache_map ?m1 = cache_map m" by (rule cache_map_cong) (simp add: m1)
    ultimately show ?thesis using False L1 by (auto simp: wf_cache_def m1)
  next
    case True
    let ?m2 = "clear_used (Buf i) (bypass (Buf i) ?m1)"
    let ?v = "bucket_of (b_blockno (m (Buf i)))"
    have mem: "i \<in> set (L ?v)" using L ik by (simp add: cache_inv_def)
    have "drop_ref (Buf i) m = Ret ?m2"
      using True unlink_ptrs_bypass [OF cache_inv_lists [OF L1] bucket_of_less mem]
      by (simp add: drop_ref_def Let_def m1)
    moreover have inv2: "cache_inv ?m2 (L(?v := remove1 i (L ?v)))"
      by (rule cache_inv_unlink [OF L1 bucket_of_less mem])
    moreover have m2: "b_used (?m2 x) = (if x = Buf i then 0 else b_used (m x))"
      "b_dev (?m2 x) = b_dev (m x)" "b_blockno (?m2 x) = b_blockno (m x)"
      "b_refcnt (?m2 x) = (if x = Buf i then b_refcnt (m x) - 1 else b_refcnt (m x))"
      "b_valid (?m2 x) = b_valid (m x)" "b_data (?m2 x) = b_data (m x)" for x
      by (auto simp: clear_used_def put_buf_def [of "Buf i" _ "bypass _ _"] m1)
    moreover have "cache_map ?m2 = (cache_map m)(k := None)"
    proof
      fix k'
      have "cache_map ?m2 k' = Some j \<longleftrightarrow> cache_map m k' = Some j \<and> j \<noteq> i" for j
        by (auto simp: cache_map_Some [OF inv2] cache_map_Some [OF L] m2)
      moreover have "j \<noteq> i \<longleftrightarrow> k' \<noteq> k" if "cache_map m k' = Some j" for j
      proof (cases "k' = k")
        case True
        with that i show ?thesis by simp
      next
        case False
        moreover have "key_of m j = k'" using that by (simp add: cache_map_Some [OF L])
        ultimately show ?thesis using ik(3) by metis
      qed
      ultimately have "cache_map ?m2 k' = Some j \<longleftrightarrow> ((cache_map m)(k := None)) k' = Some j" for j
        by (cases "k' = k") auto
      then show "cache_map ?m2 k' = ((cache_map m)(k := None)) k'" by (rule option_eqI)
    qed
    ultimately show ?thesis using True by (auto simp: wf_cache_def)
  qed
qed

section \<open>The operations under the contract of locks and disk\<close>

text \<open>Between two calls: well formed, no spin lock held, only cached buffers locked.\<close>

definition cache_ready :: "('x \<Rightarrow> nat set) \<Rightarrow> ('x \<Rightarrow> bptr set) \<Rightarrow> 'x bcache \<Rightarrow> bool" where
  "cache_ready spin slp s \<longleftrightarrow> wf_cache (bufs s) \<and> spin (bext s) = {} \<and>
     (\<forall>p \<in> slp (bext s). \<exists>i < NBUF. p = Buf i \<and> b_used (bufs s (Buf i)) \<noteq> 0)"

text \<open>
  \<open>spin\<close> and \<open>slp\<close> are the bucket locks and buffer locks the calling thread holds, \<open>dsk\<close> the
  contents of the disk. Locks can be taken when they are not held, a thread may sleep only
  without a spin lock, and the driver copies the block named by the buffer.
\<close>

locale block_env =
  fixes E :: "'x bio_ext" and spin :: "'x \<Rightarrow> nat set" and slp :: "'x \<Rightarrow> bptr set"
    and dsk :: "'x \<Rightarrow> u32 \<times> u32 \<Rightarrow> u8 list"
  assumes acquire_law:
      "v \<notin> spin x \<Longrightarrow> \<exists>x'. bx_acquire E v x = Ret x' \<and> spin x' = insert v (spin x) \<and>
         slp x' = slp x \<and> dsk x' = dsk x"
    and release_law:
      "v \<in> spin x \<Longrightarrow> \<exists>x'. bx_release E v x = Ret x' \<and> spin x' = spin x - {v} \<and>
         slp x' = slp x \<and> dsk x' = dsk x"
    and acquiresleep_law:
      "p \<notin> slp x \<Longrightarrow> spin x = {} \<Longrightarrow> \<exists>x'. bx_acquiresleep E p x = Ret x' \<and> spin x' = {} \<and>
         slp x' = insert p (slp x) \<and> dsk x' = dsk x"
    and releasesleep_law:
      "p \<in> slp x \<Longrightarrow> \<exists>x'. bx_releasesleep E p x = Ret x' \<and> spin x' = spin x \<and>
         slp x' = slp x - {p} \<and> dsk x' = dsk x"
    and holdingsleep_law: "bx_holdingsleep E p x \<longleftrightarrow> p \<in> slp x"
    and disk_read_law:
      "spin x = {} \<Longrightarrow> \<exists>x'. bx_virtio_disk_rw E b False x =
           Ret (b\<lparr>b_data := dsk x (b_dev b, b_blockno b), b_disk := 0\<rparr>, x') \<and>
         spin x' = {} \<and> slp x' = slp x \<and> dsk x' = dsk x"
    and disk_write_law:
      "spin x = {} \<Longrightarrow> \<exists>x'. bx_virtio_disk_rw E b True x = Ret (b\<lparr>b_disk := 0\<rparr>, x') \<and>
         spin x' = {} \<and> slp x' = slp x \<and> dsk x' = (dsk x)((b_dev b, b_blockno b) := b_data b)"
begin

lemma bcache_both [simp]:
  "(s :: 'x bcache)\<lparr>bufs := m, bext := x\<rparr> = \<lparr>bufs = m, bext = x\<rparr>"
  "(s :: 'x bcache)\<lparr>bext := x, bufs := m\<rparr> = \<lparr>bufs = m, bext = x\<rparr>"
  by simp_all

lemma critical_bucket:
  assumes "spin x = {}"
  shows "\<exists>x1. bx_acquire E v x = Ret x1 \<and> spin x1 = {v} \<and> slp x1 = slp x \<and> dsk x1 = dsk x \<and>
     (\<exists>x2. bx_release E v x1 = Ret x2 \<and> spin x2 = {} \<and> slp x2 = slp x \<and> dsk x2 = dsk x)"
proof -
  from acquire_law [of v x] assms obtain x1
    where x1: "bx_acquire E v x = Ret x1" "spin x1 = {v}" "slp x1 = slp x" "dsk x1 = dsk x" by auto
  with release_law [of v x1] show ?thesis by auto
qed

lemma bget_finish_run:
  assumes "spin x = {v}" and "p \<notin> slp x"
  shows "\<exists>x'. bget_finish E v p \<lparr>bufs = m, bext = x\<rparr> = Ret (p, \<lparr>bufs = m, bext = x'\<rparr>) \<and>
     spin x' = {} \<and> slp x' = insert p (slp x) \<and> dsk x' = dsk x"
proof -
  from release_law [of v x] assms obtain x1
    where x1: "bx_release E v x = Ret x1" "spin x1 = {}" "slp x1 = slp x" "dsk x1 = dsk x" by auto
  with acquiresleep_law [of p x1] assms show ?thesis
    by (auto simp: bget_finish_def on_bext_def)
qed

lemma bget_hit_run:
  assumes r: "cache_ready spin slp s" and f: "NBUF < fuel" and i: "cache_map (bufs s) (dv, bn) = Some i"
    and nl: "Buf i \<notin> slp (bext s)"
  shows "\<exists>x. bget fuel E dv bn s =
       Some (Ret (Buf i, \<lparr>bufs = put_buf (Buf i) (\<lambda>b. b\<lparr>b_refcnt := b_refcnt b + 1\<rparr>) (bufs s),
                          bext = x\<rparr>)) \<and>
     spin x = {} \<and> slp x = insert (Buf i) (slp (bext s)) \<and> dsk x = dsk (bext s)"
proof -
  from r obtain L where L: "cache_inv (bufs s) L" by (auto simp: cache_ready_def wf_cache_def)
  from critical_bucket [of "bext s" "bucket_of bn"] r obtain x1
    where x1: "bx_acquire E (bucket_of bn) (bext s) = Ret x1"
      "spin x1 = {bucket_of bn}" "slp x1 = slp (bext s)" "dsk x1 = dsk (bext s)"
    by (auto simp: cache_ready_def)
  let ?m = "put_buf (Buf i) (\<lambda>b. b\<lparr>b_refcnt := b_refcnt b + 1\<rparr>) (bufs s)"
  from bget_finish_run [of x1 "bucket_of bn" "Buf i" ?m] x1 nl bget_search_map [OF L f, of bn dv] i
  show ?thesis by (auto simp: bget_def on_bext_def Let_def)
qed

lemma bget_new_run:
  assumes r: "cache_ready spin slp s" and f: "NBUF < fuel" and new: "cache_map (bufs s) (dv, bn) = None"
    and i: "find (\<lambda>i. b_used (bufs s (Buf i)) = 0) [0..<NBUF] = Some i"
  shows "\<exists>m x. bget fuel E dv bn s = Some (Ret (Buf i, \<lparr>bufs = m, bext = x\<rparr>)) \<and>
     bget_link i (bucket_of bn) dv bn (put_buf (Buf i) (\<lambda>b. b\<lparr>b_used := 1\<rparr>) (bufs s)) = Ret m \<and>
     spin x = {} \<and> slp x = insert (Buf i) (slp (bext s)) \<and> dsk x = dsk (bext s)"
proof -
  from r obtain L where L: "cache_inv (bufs s) L" by (auto simp: cache_ready_def wf_cache_def)
  from i have i': "i < NBUF" "b_used (bufs s (Buf i)) = 0" by (auto simp: find_Some_iff)
  have nl: "Buf i \<notin> slp (bext s)" using r i' by (auto simp: cache_ready_def)
  from link_wf [OF _ new i'] r obtain m
    where m: "bget_link i (bucket_of bn) dv bn (put_buf (Buf i) (\<lambda>b. b\<lparr>b_used := 1\<rparr>) (bufs s)) = Ret m"
    by (auto simp: cache_ready_def)
  from critical_bucket [of "bext s" "bucket_of bn"] r obtain x1
    where x1: "bx_acquire E (bucket_of bn) (bext s) = Ret x1"
      "spin x1 = {bucket_of bn}" "slp x1 = slp (bext s)" "dsk x1 = dsk (bext s)"
    by (auto simp: cache_ready_def)
  from bget_finish_run [of x1 "bucket_of bn" "Buf i" m] x1 nl m i new bget_search_map [OF L f, of bn dv]
  show ?thesis by (auto simp: bget_def bget_miss_def claim_buf_eq on_bext_def Let_def)
qed

lemma bget_full_run:
  assumes r: "cache_ready spin slp s" and f: "NBUF < fuel" and new: "cache_map (bufs s) (dv, bn) = None"
    and full: "\<forall>i < NBUF. b_used (bufs s (Buf i)) \<noteq> 0"
  shows "bget fuel E dv bn s = Some (Panic ''bget: no buffers'')"
proof -
  from r obtain L where L: "cache_inv (bufs s) L" by (auto simp: cache_ready_def wf_cache_def)
  from critical_bucket [of "bext s" "bucket_of bn"] r obtain x1
    where x1: "bx_acquire E (bucket_of bn) (bext s) = Ret x1"
    by (auto simp: cache_ready_def)
  have "find (\<lambda>i. b_used (bufs s (Buf i)) = 0) [0..<NBUF] = None"
    using full by (auto simp: find_None_iff)
  with x1 new bget_search_map [OF L f, of bn dv] show ?thesis
    by (simp add: bget_def bget_miss_def claim_buf_eq on_bext_def Let_def)
qed

lemma brelse_run:
  assumes "spin (bext s) = {}" and "Buf i \<in> slp (bext s)" and "drop_ref (Buf i) (bufs s) = Ret m"
  shows "\<exists>x. brelse E (Buf i) s = Ret \<lparr>bufs = m, bext = x\<rparr> \<and> spin x = {} \<and>
           slp x = slp (bext s) - {Buf i} \<and> dsk x = dsk (bext s)"
proof -
  from releasesleep_law [OF assms(2)] assms(1) obtain x0
    where x0: "bx_releasesleep E (Buf i) (bext s) = Ret x0" "spin x0 = {}"
      "slp x0 = slp (bext s) - {Buf i}" "dsk x0 = dsk (bext s)" by auto
  from critical_bucket [OF x0(2), of "bucket_of (b_blockno (bufs s (Buf i)))"] assms(2,3) x0
  show ?thesis by (auto simp: brelse_def holdingsleep_law on_bext_def Let_def)
qed

end

end
