(* ===== verification/Bio_Cache.thy ===== *)
theory Bio_Cache
  imports Bio_Ops
begin

text \<open>
  The buffer cache as its clients see it: \<open>bget\<close> finds the one buffer of a block or makes it,
  \<open>bread\<close> returns the current contents of the block, \<open>brelse\<close> gives the buffer back, and a
  block written with \<open>bwrite\<close> is read back with the same contents. All of this holds of every
  environment that satisfies \<open>block_env\<close>; a reference environment shows that there is one
  and runs the examples.
\<close>

section \<open>Contents of the blocks\<close>

lemma block_data_link:
  assumes "wf_cache m" and new: "cache_map m k = None" and i: "b_used (m (Buf i)) = 0"
    and map: "cache_map m' = (cache_map m)(k \<mapsto> i)" and "b_valid (m' (Buf i)) = 0"
    and oth: "\<forall>j. j \<noteq> i \<longrightarrow> b_refcnt (m' (Buf j)) = b_refcnt (m (Buf j)) \<and>
        b_valid (m' (Buf j)) = b_valid (m (Buf j)) \<and> b_data (m' (Buf j)) = b_data (m (Buf j))"
  shows "block_data m' d = block_data m d"
proof
  fix k'
  have "j \<noteq> i" if "cache_map m k' = Some j" for j
    using that i assms(1) by (auto simp: wf_cache_def cache_map_Some)
  with assms(5) oth new show "block_data m' d k' = block_data m d k'"
    by (auto simp: block_data_def map split: option.splits)
qed

lemma block_data_refcnt [simp]:
  "block_data (put_buf p (\<lambda>b. b\<lparr>b_refcnt := f b\<rparr>) m) d = block_data m d"
proof -
  have "cache_map (put_buf p (\<lambda>b. b\<lparr>b_refcnt := f b\<rparr>) m) = cache_map m"
    by (rule cache_map_cong) (simp add: put_buf_def)
  then show ?thesis by (auto simp: block_data_def put_buf_def split: option.splits)
qed

lemma wf_cache_refcnt [simp]: "wf_cache (put_buf p (\<lambda>b. b\<lparr>b_refcnt := f b\<rparr>) m) = wf_cache m"
  by (simp add: wf_cache_def)

lemma cache_map_refcnt [simp]:
  "cache_map (put_buf p (\<lambda>b. b\<lparr>b_refcnt := f b\<rparr>) m) = cache_map m"
  by (rule cache_map_cong) (simp add: put_buf_def)

text \<open>Replacing the contents of the buffer of block \<open>k\<close>: only that block's data can change.\<close>

lemma fill_buf:
  assumes wf: "wf_cache m" and i: "cache_map m k = Some i"
  shows "wf_cache (m(Buf i := (m (Buf i))\<lparr>b_data := x, b_disk := y, b_valid := z\<rparr>))"
    and "cache_map (m(Buf i := (m (Buf i))\<lparr>b_data := x, b_disk := y, b_valid := z\<rparr>)) = cache_map m"
    and "block_data (m(Buf i := (m (Buf i))\<lparr>b_data := x, b_disk := y, b_valid := z\<rparr>)) d =
           (block_data m d)(k := (if z \<noteq> 0 then x else d k))"
proof -
  let ?m = "m(Buf i := (m (Buf i))\<lparr>b_data := x, b_disk := y, b_valid := z\<rparr>)"
  have "cache_inv ?m L = cache_inv m L" for L by (rule cache_inv_cong) simp
  with wf show "wf_cache ?m" by (simp add: wf_cache_def)
  show map: "cache_map ?m = cache_map m" by (rule cache_map_cong) simp
  have "j \<noteq> i" if "cache_map m k' = Some j" "k' \<noteq> k" for j k'
    using that i wf by (auto simp: wf_cache_def cache_map_Some)
  with i show "block_data ?m d = (block_data m d)(k := (if z \<noteq> 0 then x else d k))"
    by (auto simp: block_data_def map fun_eq_iff split: option.splits)
qed

section \<open>The operations on the abstraction\<close>

context block_env
begin

lemma bget_abs:
  assumes r: "cache_ready spin slp s" and f: "NBUF < fuel"
    and unlocked: "\<And>i. cache_map (bufs s) (dv, bn) = Some i \<Longrightarrow> Buf i \<notin> slp (bext s)"
    and room: "cache_map (bufs s) (dv, bn) \<noteq> None \<or> (\<exists>i < NBUF. b_used (bufs s (Buf i)) = 0)"
  shows "\<exists>i t. bget fuel E dv bn s = Some (Ret (Buf i, t)) \<and> cache_ready spin slp t \<and>
     slp (bext t) = insert (Buf i) (slp (bext s)) \<and> dsk (bext t) = dsk (bext s) \<and>
     cache_map (bufs t) = (cache_map (bufs s))((dv, bn) \<mapsto> i) \<and>
     b_refcnt (bufs t (Buf i)) =
       (if cache_map (bufs s) (dv, bn) = None then 1 else b_refcnt (bufs s (Buf i)) + 1) \<and>
     (\<forall>j. j \<noteq> i \<longrightarrow> b_refcnt (bufs t (Buf j)) = b_refcnt (bufs s (Buf j))) \<and>
     block_data (bufs t) (dsk (bext t)) = block_data (bufs s) (dsk (bext s))"
proof (cases "cache_map (bufs s) (dv, bn)")
  case (Some i)
  let ?m = "put_buf (Buf i) (\<lambda>b. b\<lparr>b_refcnt := b_refcnt b + 1\<rparr>) (bufs s)"
  from bget_hit_run [OF r f Some unlocked [OF Some]] obtain x
    where x: "bget fuel E dv bn s = Some (Ret (Buf i, \<lparr>bufs = ?m, bext = x\<rparr>))"
      "spin x = {}" "slp x = insert (Buf i) (slp (bext s))" "dsk x = dsk (bext s)" by blast
  have wf: "wf_cache (bufs s)" using r by (simp add: cache_ready_def)
  then have i: "i < NBUF" "b_used (bufs s (Buf i)) \<noteq> 0"
    using Some by (auto simp: wf_cache_def cache_map_Some)
  have u: "b_used (?m p) = b_used (bufs s p)"
    "b_refcnt (?m p) = (if p = Buf i then b_refcnt (bufs s p) + 1 else b_refcnt (bufs s p))" for p
    by (simp_all add: put_buf_def)
  have "cache_ready spin slp \<lparr>bufs = ?m, bext = x\<rparr>"
    using r x i by (auto simp: cache_ready_def u)
  moreover have "(cache_map (bufs s))((dv, bn) \<mapsto> i) = cache_map (bufs s)"
    using Some by auto
  ultimately show ?thesis
    using x Some by (intro exI [of _ i] exI [of _ "\<lparr>bufs = ?m, bext = x\<rparr>"]) (simp add: u)
next
  case None
  with room obtain i where fi: "find (\<lambda>i. b_used (bufs s (Buf i)) = 0) [0..<NBUF] = Some i"
    by (cases "find (\<lambda>i. b_used (bufs s (Buf i)) = 0) [0..<NBUF]") (auto simp: find_None_iff)
  from fi have i: "i < NBUF" "b_used (bufs s (Buf i)) = 0" by (auto simp: find_Some_iff)
  have wf: "wf_cache (bufs s)" using r by (simp add: cache_ready_def)
  from bget_new_run [OF r f None fi] obtain m x
    where x: "bget fuel E dv bn s = Some (Ret (Buf i, \<lparr>bufs = m, bext = x\<rparr>))"
      "bget_link i (bucket_of bn) dv bn (put_buf (Buf i) (\<lambda>b. b\<lparr>b_used := 1\<rparr>) (bufs s)) = Ret m"
      "spin x = {}" "slp x = insert (Buf i) (slp (bext s))" "dsk x = dsk (bext s)" by blast
  from link_wf [OF wf None i] x(2) have m: "wf_cache m"
    "cache_map m = (cache_map (bufs s))((dv, bn) \<mapsto> i)" "b_refcnt (m (Buf i)) = 1"
    "b_valid (m (Buf i)) = 0" "\<forall>j. b_used (m (Buf j)) = (if j = i then 1 else b_used (bufs s (Buf j)))"
    "\<forall>j. j \<noteq> i \<longrightarrow> b_refcnt (m (Buf j)) = b_refcnt (bufs s (Buf j)) \<and>
       b_valid (m (Buf j)) = b_valid (bufs s (Buf j)) \<and> b_data (m (Buf j)) = b_data (bufs s (Buf j))"
    by auto
  have "cache_ready spin slp \<lparr>bufs = m, bext = x\<rparr>"
    using r x m(1,5) i by (auto simp: cache_ready_def)
  with x m None block_data_link [OF wf None i(2) m(2,4,6)] show ?thesis
    by (intro exI [of _ i] exI [of _ "\<lparr>bufs = m, bext = x\<rparr>"]) simp
qed

lemma bread_abs:
  assumes r: "cache_ready spin slp s" and f: "NBUF < fuel"
    and unlocked: "\<And>i. cache_map (bufs s) (dv, bn) = Some i \<Longrightarrow> Buf i \<notin> slp (bext s)"
    and room: "cache_map (bufs s) (dv, bn) \<noteq> None \<or> (\<exists>i < NBUF. b_used (bufs s (Buf i)) = 0)"
  shows "\<exists>i t. bread fuel E dv bn s = Some (Ret (Buf i, t)) \<and> cache_ready spin slp t \<and>
     slp (bext t) = insert (Buf i) (slp (bext s)) \<and> dsk (bext t) = dsk (bext s) \<and>
     cache_map (bufs t) = (cache_map (bufs s))((dv, bn) \<mapsto> i) \<and>
     b_valid (bufs t (Buf i)) \<noteq> 0 \<and>
     b_data (bufs t (Buf i)) = block_data (bufs s) (dsk (bext s)) (dv, bn) \<and>
     block_data (bufs t) (dsk (bext t)) = block_data (bufs s) (dsk (bext s))"
proof -
  from bget_abs [OF assms] obtain i u where u: "bget fuel E dv bn s = Some (Ret (Buf i, u))"
    "cache_ready spin slp u" "slp (bext u) = insert (Buf i) (slp (bext s))"
    "dsk (bext u) = dsk (bext s)" "cache_map (bufs u) = (cache_map (bufs s))((dv, bn) \<mapsto> i)"
    "block_data (bufs u) (dsk (bext u)) = block_data (bufs s) (dsk (bext s))" by blast
  have wf: "wf_cache (bufs u)" and sp: "spin (bext u) = {}" using u(2) by (simp_all add: cache_ready_def)
  have cm: "cache_map (bufs u) (dv, bn) = Some i" using u(5) by simp
  then have key: "key_of (bufs u) i = (dv, bn)" using wf by (auto simp: wf_cache_def cache_map_Some)
  show ?thesis
  proof (cases "b_valid (bufs u (Buf i)) = 0")
    case False
    have "b_data (bufs u (Buf i)) = block_data (bufs u) (dsk (bext u)) (dv, bn)"
      using cm False by (simp add: block_data_def)
    with False u show ?thesis by (auto simp: bread_def bread_fill_def)
  next
    case True
    from disk_read_law [OF sp, of "bufs u (Buf i)"] key obtain x
      where x: "bx_virtio_disk_rw E (bufs u (Buf i)) False (bext u) =
          Ret ((bufs u (Buf i))\<lparr>b_data := dsk (bext u) (dv, bn), b_disk := 0\<rparr>, x)"
        "spin x = {}" "slp x = slp (bext u)" "dsk x = dsk (bext u)" by auto
    let ?m = "(bufs u)(Buf i := (bufs u (Buf i))\<lparr>b_data := dsk (bext u) (dv, bn), b_disk := 0, b_valid := 1\<rparr>)"
    have run: "bread fuel E dv bn s = Some (Ret (Buf i, \<lparr>bufs = ?m, bext = x\<rparr>))"
      using u(1) True x(1) by (simp add: bread_def bread_fill_def disk_rw_def put_buf_def)
    note fill = fill_buf [OF wf cm, where x = "dsk (bext u) (dv, bn)" and y = 0 and z = 1]
    have bd: "block_data (bufs u) (dsk (bext u)) (dv, bn) = dsk (bext u) (dv, bn)"
      using cm True by (simp add: block_data_def)
    have "block_data ?m (dsk x) = block_data (bufs u) (dsk (bext u))"
      unfolding x(4) fill(3) using bd by auto
    moreover have "cache_ready spin slp \<lparr>bufs = ?m, bext = x\<rparr>"
      using u(2) x fill(1) by (auto simp: cache_ready_def)
    ultimately show ?thesis
      using run u fill(2) x bd by (intro exI [of _ i] exI [of _ "\<lparr>bufs = ?m, bext = x\<rparr>"]) simp
  qed
qed

end

context block_env
begin

lemma brelse_abs:
  assumes r: "cache_ready spin slp s" and held: "Buf i \<in> slp (bext s)"
    and k: "cache_map (bufs s) k = Some i"
  shows "\<exists>t. brelse E (Buf i) s = Ret t \<and> cache_ready spin slp t \<and>
     slp (bext t) = slp (bext s) - {Buf i} \<and> dsk (bext t) = dsk (bext s) \<and>
     b_refcnt (bufs t (Buf i)) = b_refcnt (bufs s (Buf i)) - 1 \<and>
     cache_map (bufs t) =
       (if b_refcnt (bufs s (Buf i)) = 1 then (cache_map (bufs s))(k := None) else cache_map (bufs s)) \<and>
     (\<forall>k'. k' \<noteq> k \<or> b_refcnt (bufs s (Buf i)) \<noteq> 1 \<longrightarrow>
        block_data (bufs t) (dsk (bext t)) k' = block_data (bufs s) (dsk (bext s)) k')"
proof -
  have wf: "wf_cache (bufs s)" and sp: "spin (bext s) = {}" using r by (simp_all add: cache_ready_def)
  from drop_ref_wf [OF wf k] obtain m where d: "drop_ref (Buf i) (bufs s) = Ret m"
    and m: "wf_cache m"
      "cache_map m = (if b_refcnt (bufs s (Buf i)) = 1 then (cache_map (bufs s))(k := None) else cache_map (bufs s))"
      "b_refcnt (m (Buf i)) = b_refcnt (bufs s (Buf i)) - 1"
      "\<forall>j. b_used (m (Buf j)) =
         (if j = i \<and> b_refcnt (bufs s (Buf i)) = 1 then 0 else b_used (bufs s (Buf j)))"
      "\<forall>j. b_valid (m (Buf j)) = b_valid (bufs s (Buf j)) \<and> b_data (m (Buf j)) = b_data (bufs s (Buf j))"
    by blast
  from brelse_run [OF sp held d] obtain x where x: "brelse E (Buf i) s = Ret \<lparr>bufs = m, bext = x\<rparr>"
    "spin x = {}" "slp x = slp (bext s) - {Buf i}" "dsk x = dsk (bext s)" by blast
  have "\<exists>j < NBUF. p = Buf j \<and> b_used (m (Buf j)) \<noteq> 0" if "p \<in> slp x" for p
  proof -
    have p: "p \<in> slp (bext s)" "p \<noteq> Buf i" using that x(3) by auto
    from p(1) r obtain j where "j < NBUF" "p = Buf j" "b_used (bufs s (Buf j)) \<noteq> 0"
      unfolding cache_ready_def by blast
    with p(2) m(4) show ?thesis by auto
  qed
  with x(2) m(1) have "cache_ready spin slp \<lparr>bufs = m, bext = x\<rparr>"
    by (simp add: cache_ready_def)
  moreover have "block_data m (dsk x) k' = block_data (bufs s) (dsk (bext s)) k'"
    if "k' \<noteq> k \<or> b_refcnt (bufs s (Buf i)) \<noteq> 1" for k'
    using that m(5) by (auto simp: block_data_def m(2) x(4) split: option.splits)
  ultimately show ?thesis
    using x m(2,3) by (intro exI [of _ "\<lparr>bufs = m, bext = x\<rparr>"]) auto
qed

lemma bwrite_abs:
  assumes r: "cache_ready spin slp s" and held: "Buf i \<in> slp (bext s)"
    and k: "cache_map (bufs s) k = Some i" and v: "b_valid (bufs s (Buf i)) \<noteq> 0"
  shows "\<exists>t. bwrite E (Buf i) s = Ret t \<and> cache_ready spin slp t \<and>
     slp (bext t) = slp (bext s) \<and> dsk (bext t) = (dsk (bext s))(k := b_data (bufs s (Buf i))) \<and>
     bufs t = (bufs s)(Buf i := (bufs s (Buf i))\<lparr>b_disk := 0\<rparr>) \<and>
     cache_map (bufs t) = cache_map (bufs s) \<and>
     block_data (bufs t) (dsk (bext t)) = block_data (bufs s) (dsk (bext s))"
proof -
  have wf: "wf_cache (bufs s)" and sp: "spin (bext s) = {}" using r by (simp_all add: cache_ready_def)
  have key: "key_of (bufs s) i = k" using wf k by (auto simp: wf_cache_def cache_map_Some)
  from disk_write_law [OF sp, of "bufs s (Buf i)"] obtain x
    where x: "bx_virtio_disk_rw E (bufs s (Buf i)) True (bext s) = Ret ((bufs s (Buf i))\<lparr>b_disk := 0\<rparr>, x)"
      "spin x = {}" "slp x = slp (bext s)" "dsk x = (dsk (bext s))(k := b_data (bufs s (Buf i)))"
    unfolding key by blast
  let ?b = "bufs s (Buf i)"
  let ?m = "(bufs s)(Buf i := ?b\<lparr>b_disk := 0\<rparr>)"
  note fill = fill_buf [OF wf k, where x = "b_data ?b" and y = 0 and z = "b_valid ?b", simplified]
  have "bwrite E (Buf i) s = Ret \<lparr>bufs = ?m, bext = x\<rparr>"
    using held x(1) by (simp add: bwrite_def holdingsleep_law disk_rw_def)
  moreover have "cache_ready spin slp \<lparr>bufs = ?m, bext = x\<rparr>"
    using r x fill(1) by (auto simp: cache_ready_def)
  moreover have "block_data ?m (dsk x) = block_data (bufs s) (dsk (bext s))"
    using k v wf by (auto simp: block_data_def fill(2) x(4) fun_eq_iff wf_cache_def cache_map_Some
        split: option.splits)
  ultimately show ?thesis
    using x fill(2) by (intro exI [of _ "\<lparr>bufs = ?m, bext = x\<rparr>"]) simp
qed

end

section \<open>A reference environment\<close>

record ref_bx =
  rx_spin :: "nat set"
  rx_slp :: "bptr set"
  rx_dsk :: "u32 \<times> u32 \<Rightarrow> u8 list"

definition ref_bio :: "ref_bx bio_ext" where
  "ref_bio =
     \<lparr>bx_initlock = (\<lambda>v x. x\<lparr>rx_spin := rx_spin x - {v}\<rparr>),
      bx_acquire = (\<lambda>v x. if v \<in> rx_spin x then Panic ''acquire''
                          else Ret (x\<lparr>rx_spin := insert v (rx_spin x)\<rparr>)),
      bx_release = (\<lambda>v x. if v \<notin> rx_spin x then Panic ''release''
                          else Ret (x\<lparr>rx_spin := rx_spin x - {v}\<rparr>)),
      bx_initsleeplock = (\<lambda>p x. x\<lparr>rx_slp := rx_slp x - {p}\<rparr>),
      bx_acquiresleep = (\<lambda>p x. if rx_spin x \<noteq> {} then Panic ''sched locks''
                               else Ret (x\<lparr>rx_slp := insert p (rx_slp x)\<rparr>)),
      bx_releasesleep = (\<lambda>p x. Ret (x\<lparr>rx_slp := rx_slp x - {p}\<rparr>)),
      bx_holdingsleep = (\<lambda>p x. p \<in> rx_slp x),
      bx_virtio_disk_rw = (\<lambda>b wr x.
        if rx_spin x \<noteq> {} then Panic ''sched locks''
        else if wr then
          Ret (b\<lparr>b_disk := 0\<rparr>, x\<lparr>rx_dsk := (rx_dsk x)((b_dev b, b_blockno b) := b_data b)\<rparr>)
        else Ret (b\<lparr>b_data := rx_dsk x (b_dev b, b_blockno b), b_disk := 0\<rparr>, x))\<rparr>"

interpretation refb: block_env ref_bio rx_spin rx_slp rx_dsk
  by unfold_locales (auto simp: ref_bio_def)

text \<open>The cache after boot: \<open>binit\<close> applied to zeroed memory.\<close>

lemma binit_wf:
  assumes "\<forall>i < NBUF. b_used (bufs s (Buf i)) = 0"
  shows "wf_cache (bufs (binit E s))"
proof -
  have "cache_inv (bufs (binit E s)) (\<lambda>_. [])"
    using assms by (simp add: cache_inv_def binit_lists binit_bufs)
  then show ?thesis unfolding wf_cache_def by blast
qed

definition boot_cache :: "ref_bx bcache" where
  "boot_cache = binit ref_bio
     \<lparr>bufs = (\<lambda>_. zero_buf), bext = \<lparr>rx_spin = {}, rx_slp = {}, rx_dsk = (\<lambda>(d, b). [ucast b])\<rparr>\<rparr>"

lemma boot_cache_ready:
  "cache_ready rx_spin rx_slp boot_cache" "b_used (bufs boot_cache (Buf i)) = 0"
  "rx_slp (bext boot_cache) = {}" "rx_dsk (bext boot_cache) = (\<lambda>(d, b). [ucast b])"
proof -
  have sleep: "rx_spin (bext (fold (binit_sleep ref_bio) is s)) = rx_spin (bext s)"
    "rx_slp (bext s) = {} \<Longrightarrow> rx_slp (bext (fold (binit_sleep ref_bio) is s)) = {}"
    "rx_dsk (bext (fold (binit_sleep ref_bio) is s)) = rx_dsk (bext s)" for "is" s
    by (induction "is" arbitrary: s) (simp_all add: binit_sleep_def ref_bio_def)
  have bucket: "rx_spin (bext s) = {} \<Longrightarrow> rx_spin (bext (fold (binit_bucket ref_bio) is s)) = {}"
    "rx_slp (bext (fold (binit_bucket ref_bio) is s)) = rx_slp (bext s)"
    "rx_dsk (bext (fold (binit_bucket ref_bio) is s)) = rx_dsk (bext s)" for "is" s
    by (induction "is" arbitrary: s) (simp_all add: binit_bucket_def ref_bio_def)
  show "cache_ready rx_spin rx_slp boot_cache" "b_used (bufs boot_cache (Buf i)) = 0"
    "rx_slp (bext boot_cache) = {}" "rx_dsk (bext boot_cache) = (\<lambda>(d, b). [ucast b])"
    unfolding cache_ready_def boot_cache_def
    by (auto simp: binit_wf zero_buf_def)
       (auto simp: binit_def sleep bucket binit_bucket_bufs binit_sleep_bufs)
qed

lemma boot_cache_empty: "cache_map (bufs boot_cache) k = None"
  by (simp add: cache_map_None boot_cache_ready)

lemma boot_cache_room:
  "cache_map (bufs boot_cache) k \<noteq> None \<or> (\<exists>i < NBUF. b_used (bufs boot_cache (Buf i)) = 0)"
  by (rule disjI2, rule exI [of _ 0]) (simp add: boot_cache_ready NBUF_def MAXOPBLOCKS_def)

section \<open>What the buffer cache guarantees\<close>

text \<open>(C12) \<open>bget\<close> of a block, given a free buffer if the block is not cached and that the
  caller does not already hold it, ends within one pass over the bucket and returns, locked,
  the one buffer of that block: the cached one with one more reference, or a newly claimed one
  with reference count 1. The cache stays well formed, maps that block to the buffer and every
  other block as before, and the contents of no block change.\<close>

theorem bget_correct:
  assumes "block_env E spin slp dsk" and "cache_ready spin slp s" and "NBUF < fuel"
    and "\<And>i. cache_map (bufs s) (dv, bn) = Some i \<Longrightarrow> Buf i \<notin> slp (bext s)"
    and "cache_map (bufs s) (dv, bn) \<noteq> None \<or> (\<exists>i < NBUF. b_used (bufs s (Buf i)) = 0)"
  shows "\<exists>i t. bget fuel E dv bn s = Some (Ret (Buf i, t)) \<and> cache_ready spin slp t \<and>
     slp (bext t) = insert (Buf i) (slp (bext s)) \<and> dsk (bext t) = dsk (bext s) \<and>
     cache_map (bufs t) = (cache_map (bufs s))((dv, bn) \<mapsto> i) \<and>
     b_refcnt (bufs t (Buf i)) =
       (if cache_map (bufs s) (dv, bn) = None then 1 else b_refcnt (bufs s (Buf i)) + 1) \<and>
     (\<forall>j. j \<noteq> i \<longrightarrow> b_refcnt (bufs t (Buf j)) = b_refcnt (bufs s (Buf j))) \<and>
     block_data (bufs t) (dsk (bext t)) = block_data (bufs s) (dsk (bext s))"
  by (rule block_env.bget_abs [OF assms])

theorem bget_correct_witness:
  "\<exists>i t. bget 31 ref_bio 1 33 boot_cache = Some (Ret (Buf i, t)) \<and> b_refcnt (bufs t (Buf i)) = 1 \<and>
     cache_map (bufs t) (1, 33) = Some i"
proof -
  from boot_cache_room [of "(1, 33)"] bget_correct [OF refb.block_env_axioms boot_cache_ready(1), of 31 1 33] show ?thesis
    by (auto simp: boot_cache_empty NBUF_def MAXOPBLOCKS_def)
qed

text \<open>\<open>bget\<close> of a block that is not cached panics when, and then exactly because, every
  buffer of the pool is in use.\<close>

theorem bget_no_buffers:
  assumes "block_env E spin slp dsk" and "cache_ready spin slp s" and "NBUF < fuel"
    and "cache_map (bufs s) (dv, bn) = None"
  shows "bget fuel E dv bn s = Some (Panic ''bget: no buffers'') \<longleftrightarrow>
         (\<forall>i < NBUF. b_used (bufs s (Buf i)) \<noteq> 0)"
proof
  assume "bget fuel E dv bn s = Some (Panic ''bget: no buffers'')"
  then show "\<forall>i < NBUF. b_used (bufs s (Buf i)) \<noteq> 0"
    using block_env.bget_abs [OF assms(1-3), of dv bn] assms(4) by auto
next
  assume "\<forall>i < NBUF. b_used (bufs s (Buf i)) \<noteq> 0"
  then show "bget fuel E dv bn s = Some (Panic ''bget: no buffers'')"
    using block_env.bget_full_run [OF assms] by simp
qed

theorem bget_no_buffers_witness:
  "bget 31 ref_bio 1 33 boot_cache \<noteq> Some (Panic ''bget: no buffers'')"
  using bget_no_buffers [OF refb.block_env_axioms boot_cache_ready(1), of 31 1 33]
    boot_cache_room [of "(1, 33)"]
  by (auto simp: boot_cache_empty boot_cache_ready NBUF_def MAXOPBLOCKS_def)

text \<open>(C11) \<open>bread\<close> returns a locked, valid buffer that holds the current contents of the block
  (what was last put into its buffer if it is cached, what is on disk otherwise), and changes
  the contents of no block.\<close>

theorem bread_correct:
  assumes "block_env E spin slp dsk" and "cache_ready spin slp s" and "NBUF < fuel"
    and "\<And>i. cache_map (bufs s) (dv, bn) = Some i \<Longrightarrow> Buf i \<notin> slp (bext s)"
    and "cache_map (bufs s) (dv, bn) \<noteq> None \<or> (\<exists>i < NBUF. b_used (bufs s (Buf i)) = 0)"
  shows "\<exists>i t. bread fuel E dv bn s = Some (Ret (Buf i, t)) \<and> cache_ready spin slp t \<and>
     slp (bext t) = insert (Buf i) (slp (bext s)) \<and> dsk (bext t) = dsk (bext s) \<and>
     cache_map (bufs t) = (cache_map (bufs s))((dv, bn) \<mapsto> i) \<and>
     b_valid (bufs t (Buf i)) \<noteq> 0 \<and>
     b_data (bufs t (Buf i)) = block_data (bufs s) (dsk (bext s)) (dv, bn) \<and>
     block_data (bufs t) (dsk (bext t)) = block_data (bufs s) (dsk (bext s))"
  by (rule block_env.bread_abs [OF assms])

theorem bread_correct_witness:
  "\<exists>i t. bread 31 ref_bio 1 33 boot_cache = Some (Ret (Buf i, t)) \<and> b_data (bufs t (Buf i)) = [33]"
proof -
  from boot_cache_room [of "(1, 33)"] bread_correct [OF refb.block_env_axioms boot_cache_ready(1), of 31 1 33] show ?thesis
    by (auto simp: boot_cache_empty block_data_def boot_cache_ready NBUF_def MAXOPBLOCKS_def)
qed

text \<open>(C14) \<open>brelse\<close> of a held buffer gives up its lock and one reference; when that was the last
  one the block leaves the cache and the buffer becomes free, otherwise it stays cached. The
  contents of no other block change, nor of this one while it stays cached.\<close>

theorem brelse_correct:
  assumes "block_env E spin slp dsk" and "cache_ready spin slp s" and "Buf i \<in> slp (bext s)"
    and "cache_map (bufs s) k = Some i"
  shows "\<exists>t. brelse E (Buf i) s = Ret t \<and> cache_ready spin slp t \<and>
     slp (bext t) = slp (bext s) - {Buf i} \<and> dsk (bext t) = dsk (bext s) \<and>
     b_refcnt (bufs t (Buf i)) = b_refcnt (bufs s (Buf i)) - 1 \<and>
     cache_map (bufs t) =
       (if b_refcnt (bufs s (Buf i)) = 1 then (cache_map (bufs s))(k := None) else cache_map (bufs s)) \<and>
     (\<forall>k'. k' \<noteq> k \<or> b_refcnt (bufs s (Buf i)) \<noteq> 1 \<longrightarrow>
        block_data (bufs t) (dsk (bext t)) k' = block_data (bufs s) (dsk (bext s)) k')"
  by (rule block_env.brelse_abs [OF assms])

theorem brelse_correct_witness:
  "\<exists>i s t. bget 31 ref_bio 1 33 boot_cache = Some (Ret (Buf i, s)) \<and>
     brelse ref_bio (Buf i) s = Ret t \<and> cache_map (bufs t) (1, 33) = None"
proof -
  from boot_cache_room [of "(1, 33)"] refb.bget_abs [OF boot_cache_ready(1), of 31 1 33] obtain i s
    where s: "bget 31 ref_bio 1 33 boot_cache = Some (Ret (Buf i, s))" "cache_ready rx_spin rx_slp s"
      "Buf i \<in> rx_slp (bext s)" "cache_map (bufs s) (1, 33) = Some i" "b_refcnt (bufs s (Buf i)) = 1"
    by (auto simp: boot_cache_empty NBUF_def MAXOPBLOCKS_def)
  from brelse_correct [OF refb.block_env_axioms s(2-4)] s(1,5) show ?thesis by auto
qed

text \<open>(C13) A block written through its buffer is read back: after \<open>bwrite\<close> and \<open>brelse\<close> by the
  holder, the next \<open>bread\<close> of that block returns a buffer with the same contents, whether or
  not the buffer was evicted in between.\<close>

theorem bwrite_bread_roundtrip:
  assumes env: "block_env E spin slp dsk" and r: "cache_ready spin slp s" and f: "NBUF < fuel"
    and held: "Buf i \<in> slp (bext s)" and k: "cache_map (bufs s) (dv, bn) = Some i"
    and v: "b_valid (bufs s (Buf i)) \<noteq> 0"
  shows "\<exists>s1 s2 j t. bwrite E (Buf i) s = Ret s1 \<and> brelse E (Buf i) s1 = Ret s2 \<and>
     bread fuel E dv bn s2 = Some (Ret (Buf j, t)) \<and>
     b_data (bufs t (Buf j)) = b_data (bufs s (Buf i))"
proof -
  from block_env.bwrite_abs [OF env r held k v] obtain s1
    where s1: "bwrite E (Buf i) s = Ret s1" "cache_ready spin slp s1" "slp (bext s1) = slp (bext s)"
      "dsk (bext s1) = (dsk (bext s))((dv, bn) := b_data (bufs s (Buf i)))"
      "bufs s1 = (bufs s)(Buf i := (bufs s (Buf i))\<lparr>b_disk := 0\<rparr>)"
      "cache_map (bufs s1) = cache_map (bufs s)"
      "block_data (bufs s1) (dsk (bext s1)) = block_data (bufs s) (dsk (bext s))" by blast
  from block_env.brelse_abs [OF env s1(2), of i "(dv, bn)"] held k s1(3,6) obtain s2
    where s2: "brelse E (Buf i) s1 = Ret s2" "cache_ready spin slp s2"
      "slp (bext s2) = slp (bext s) - {Buf i}" "dsk (bext s2) = dsk (bext s1)"
      "cache_map (bufs s2) = (if b_refcnt (bufs s1 (Buf i)) = 1 then (cache_map (bufs s))((dv, bn) := None)
         else cache_map (bufs s))"
      "b_refcnt (bufs s1 (Buf i)) \<noteq> 1 \<Longrightarrow>
         block_data (bufs s2) (dsk (bext s2)) (dv, bn) = block_data (bufs s1) (dsk (bext s1)) (dv, bn)"
    by auto
  have data: "block_data (bufs s2) (dsk (bext s2)) (dv, bn) = b_data (bufs s (Buf i))"
    using s1 s2 k v by (cases "b_refcnt (bufs s1 (Buf i)) = 1") (simp_all add: block_data_def)
  have unlocked: "Buf j \<notin> slp (bext s2)" if "cache_map (bufs s2) (dv, bn) = Some j" for j
    using that s2(3,5) k by (auto split: if_splits)
  have free: "cache_map (bufs s2) (dv, bn) \<noteq> None \<or> (\<exists>i < NBUF. b_used (bufs s2 (Buf i)) = 0)"
  proof (rule ccontr)
    assume *: "\<not> ?thesis"
    have "wf_cache (bufs s)" "wf_cache (bufs s2)" using r s2(2) by (simp_all add: cache_ready_def)
    then obtain L L2 where L: "cache_inv (bufs s) L" "cache_inv (bufs s2) L2" by (auto simp: wf_cache_def)
    have "i < NBUF" using k by (simp add: cache_map_Some [OF L(1)])
    with * have "cache_map (bufs s2) (key_of (bufs s2) i) = Some i" by (simp add: cache_map_Some [OF L(2)])
    with * s2(5) have "cache_map (bufs s) (key_of (bufs s2) i) = Some i" "key_of (bufs s2) i \<noteq> (dv, bn)"
      by (auto split: if_splits)
    with k show False by (simp add: cache_map_Some [OF L(1)])
  qed
  from block_env.bread_abs [OF env s2(2) f unlocked free] obtain j t
    where "bread fuel E dv bn s2 = Some (Ret (Buf j, t))"
      "b_data (bufs t (Buf j)) = block_data (bufs s2) (dsk (bext s2)) (dv, bn)" by blast
  with s1(1) s2(1) data show ?thesis by auto
qed

theorem bwrite_bread_roundtrip_witness:
  "\<exists>i s s1 s2 j t. bread 31 ref_bio 1 33 boot_cache = Some (Ret (Buf i, s)) \<and>
     bwrite ref_bio (Buf i) s = Ret s1 \<and> brelse ref_bio (Buf i) s1 = Ret s2 \<and>
     bread 31 ref_bio 1 33 s2 = Some (Ret (Buf j, t)) \<and>
     b_data (bufs t (Buf j)) = b_data (bufs s (Buf i))"
proof -
  from boot_cache_room [of "(1, 33)"] refb.bread_abs [OF boot_cache_ready(1), of 31 1 33] obtain i s
    where s: "bread 31 ref_bio 1 33 boot_cache = Some (Ret (Buf i, s))" "cache_ready rx_spin rx_slp s"
      "Buf i \<in> rx_slp (bext s)" "cache_map (bufs s) (1, 33) = Some i" "b_valid (bufs s (Buf i)) \<noteq> 0"
    by (auto simp: boot_cache_empty NBUF_def MAXOPBLOCKS_def)
  have "NBUF < 31" by (simp add: NBUF_def MAXOPBLOCKS_def)
  from bwrite_bread_roundtrip [OF refb.block_env_axioms s(2) this s(3-5)] s(1) show ?thesis by blast
qed

end
