(* ===== verification/Bio_Conc.thy ===== *)
theory Bio_Conc
  imports Bio_List
begin

text \<open>
  The buffer cache under concurrency: any number of activities (a process using a buffer; a
  process with several buffers is several activities) run \<open>bget\<close>, use their buffer, pin and
  unpin it and run \<open>brelse\<close>, interleaved at every point where the code takes or gives up a
  lock, tests and sets a \<open>used\<close> byte or clears one. The steps apply the same memory
  transformations as the sequential definitions.

  The invariant \<open>conc_inv\<close> is kept by every step. It gives that no block is ever cached in
  two buffers, that a buffer is not recycled while an activity refers to it, that no two
  activities hold the same block, and that no pointer write of the code goes astray.
\<close>

definition LOGSIZE :: nat where "LOGSIZE = MAXOPBLOCKS * 3"

text \<open>At most this many buffers in use at a time: one per process and buffer.\<close>

definition NACT :: nat where "NACT = 64 * NBUF"

datatype bpc =
    Idle
  | Searching u32 u32
  | Scanning u32 u32 nat
  | Claimed u32 u32 nat
  | Waiting nat u32 u32
  | Holding nat u32 u32
  | Dropping nat u32 u32
  | DropLocked nat u32 u32 nat
  | Unlinked nat nat
  | Panicked

record bconc =
  cmem :: bmem
  bl_owner :: "nat \<Rightarrow> nat option"
  sl_owner :: "nat \<Rightarrow> nat option"
  bpc :: "nat \<Rightarrow> bpc"
  pins :: "nat \<Rightarrow> nat"

abbreviation goto :: "nat \<Rightarrow> bpc \<Rightarrow> bconc \<Rightarrow> bconc" where
  "goto t q s \<equiv> s\<lparr>bpc := (bpc s)(t := q)\<rparr>"

abbreviation set_bl :: "nat \<Rightarrow> nat option \<Rightarrow> bconc \<Rightarrow> bconc" where
  "set_bl v x s \<equiv> s\<lparr>bl_owner := (bl_owner s)(v := x)\<rparr>"

definition add_ref :: "nat \<Rightarrow> u32 \<Rightarrow> bmem \<Rightarrow> bmem" where
  "add_ref i n m = put_buf (Buf i) (\<lambda>b. b\<lparr>b_refcnt := b_refcnt b + n\<rparr>) m"

abbreviation found :: "bconc \<Rightarrow> u32 \<Rightarrow> u32 \<Rightarrow> bptr option outcome option" where
  "found s dv bn \<equiv> bget_search (Suc NBUF) (Head (bucket_of bn)) dv bn (cmem s)
                     (b_next (cmem s (Head (bucket_of bn))))"

inductive bstep :: "nat \<Rightarrow> bconc \<Rightarrow> bconc \<Rightarrow> bool" where
  b_enter: "bpc s t = Idle \<Longrightarrow> bl_owner s (bucket_of bn) = None \<Longrightarrow>
     bstep t s (goto t (Searching dv bn) (set_bl (bucket_of bn) (Some t) s))"
| b_hit: "bpc s t = Searching dv bn \<Longrightarrow> found s dv bn = Some (Ret (Some (Buf i))) \<Longrightarrow>
     bstep t s (goto t (Waiting i dv bn) (set_bl (bucket_of bn) None (s\<lparr>cmem := add_ref i 1 (cmem s)\<rparr>)))"
| b_miss: "bpc s t = Searching dv bn \<Longrightarrow> found s dv bn = Some (Ret None) \<Longrightarrow>
     bstep t s (goto t (Scanning dv bn 0) s)"
| b_skip: "bpc s t = Scanning dv bn k \<Longrightarrow> k < NBUF \<Longrightarrow> b_used (cmem s (Buf k)) \<noteq> 0 \<Longrightarrow>
     bstep t s (goto t (Scanning dv bn (Suc k)) s)"
| b_claim: "bpc s t = Scanning dv bn k \<Longrightarrow> k < NBUF \<Longrightarrow> test_and_set k (cmem s) = (False, m) \<Longrightarrow>
     bstep t s (goto t (Claimed dv bn k) (s\<lparr>cmem := m\<rparr>))"
| b_full: "bpc s t = Scanning dv bn k \<Longrightarrow> NBUF \<le> k \<Longrightarrow>
     bstep t s (goto t Panicked s)"
| b_link: "bpc s t = Claimed dv bn i \<Longrightarrow> bget_link i (bucket_of bn) dv bn (cmem s) = Ret m \<Longrightarrow>
     bstep t s (goto t (Waiting i dv bn) (set_bl (bucket_of bn) None (s\<lparr>cmem := m\<rparr>)))"
| b_lock: "bpc s t = Waiting i dv bn \<Longrightarrow> sl_owner s i = None \<Longrightarrow>
     bstep t s (goto t (Holding i dv bn) (s\<lparr>sl_owner := (sl_owner s)(i := Some t)\<rparr>))"
| b_use: "bpc s t = Holding i dv bn \<Longrightarrow>
     bstep t s (s\<lparr>cmem := put_buf (Buf i) (\<lambda>b. b\<lparr>b_data := x, b_valid := y, b_disk := z\<rparr>) (cmem s)\<rparr>)"
| b_pin: "bpc s t = Holding i dv bn \<Longrightarrow>
     bl_owner s (bucket_of (b_blockno (cmem s (Buf i)))) = None \<Longrightarrow> pins s i < LOGSIZE \<Longrightarrow>
     bstep t s (s\<lparr>cmem := add_ref i 1 (cmem s), pins := (pins s)(i := Suc (pins s i))\<rparr>)"
| b_unpin: "bl_owner s (bucket_of (b_blockno (cmem s (Buf i)))) = None \<Longrightarrow> 0 < pins s i \<Longrightarrow>
     bstep t s (s\<lparr>cmem := add_ref i (- 1) (cmem s), pins := (pins s)(i := pins s i - 1)\<rparr>)"
| b_unlock: "bpc s t = Holding i dv bn \<Longrightarrow>
     bstep t s (goto t (Dropping i dv bn) (s\<lparr>sl_owner := (sl_owner s)(i := None)\<rparr>))"
| b_drop_enter: "bpc s t = Dropping i dv bn \<Longrightarrow> v = bucket_of (b_blockno (cmem s (Buf i))) \<Longrightarrow>
     bl_owner s v = None \<Longrightarrow>
     bstep t s (goto t (DropLocked i dv bn v) (set_bl v (Some t) s))"
| b_drop: "bpc s t = DropLocked i dv bn v \<Longrightarrow> b_refcnt (cmem s (Buf i)) - 1 \<noteq> 0 \<Longrightarrow>
     bstep t s (goto t Idle (set_bl v None (s\<lparr>cmem := add_ref i (- 1) (cmem s)\<rparr>)))"
| b_unlink: "bpc s t = DropLocked i dv bn v \<Longrightarrow> b_refcnt (cmem s (Buf i)) - 1 = 0 \<Longrightarrow>
     unlink_ptrs (Buf i) (add_ref i (- 1) (cmem s)) = Ret m \<Longrightarrow>
     bstep t s (goto t (Unlinked i v) (s\<lparr>cmem := m\<rparr>))"
| b_clear: "bpc s t = Unlinked i v \<Longrightarrow>
     bstep t s (goto t Idle (set_bl v None (s\<lparr>cmem := clear_used (Buf i) (cmem s)\<rparr>)))"

text \<open>A run: activities below \<open>NACT\<close> take steps in any order.\<close>

inductive breach :: "bconc \<Rightarrow> bconc \<Rightarrow> bool" for s0 where
  breach_init: "breach s0 s0"
| breach_step: "breach s0 s \<Longrightarrow> t < NACT \<Longrightarrow> bstep t s s' \<Longrightarrow> breach s0 s'"

section \<open>The invariant\<close>

fun ref_of :: "bpc \<Rightarrow> nat option" where
  "ref_of (Waiting i dv bn) = Some i"
| "ref_of (Holding i dv bn) = Some i"
| "ref_of (Dropping i dv bn) = Some i"
| "ref_of (DropLocked i dv bn v) = Some i"
| "ref_of _ = None"

fun limbo :: "bpc \<Rightarrow> nat option" where
  "limbo (Claimed dv bn i) = Some i"
| "limbo (Unlinked i v) = Some i"
| "limbo _ = None"

definition absent :: "bmem \<Rightarrow> (nat \<Rightarrow> nat list) \<Rightarrow> u32 \<Rightarrow> u32 \<Rightarrow> bool" where
  "absent m L dv bn \<longleftrightarrow> (\<forall>j \<in> set (L (bucket_of bn)). key_of m j \<noteq> (dv, bn))"

definition referred :: "bmem \<Rightarrow> (nat \<Rightarrow> nat list) \<Rightarrow> nat \<Rightarrow> u32 \<Rightarrow> u32 \<Rightarrow> bool" where
  "referred m L i dv bn \<longleftrightarrow> i \<in> set (L (bucket_of bn)) \<and> key_of m i = (dv, bn)"

definition detached :: "bmem \<Rightarrow> (nat \<Rightarrow> nat list) \<Rightarrow> nat \<Rightarrow> bool" where
  "detached m L i \<longleftrightarrow> i < NBUF \<and> b_used (m (Buf i)) \<noteq> 0 \<and> (\<forall>v < NBUCKETS. i \<notin> set (L v))"

fun pc_ok :: "bconc \<Rightarrow> (nat \<Rightarrow> nat list) \<Rightarrow> nat \<Rightarrow> bpc \<Rightarrow> bool" where
  "pc_ok s L t Idle = True"
| "pc_ok s L t Panicked = True"
| "pc_ok s L t (Searching dv bn) = (bl_owner s (bucket_of bn) = Some t)"
| "pc_ok s L t (Scanning dv bn k) = (bl_owner s (bucket_of bn) = Some t \<and> absent (cmem s) L dv bn)"
| "pc_ok s L t (Claimed dv bn i) =
     (bl_owner s (bucket_of bn) = Some t \<and> absent (cmem s) L dv bn \<and> detached (cmem s) L i)"
| "pc_ok s L t (Waiting i dv bn) = referred (cmem s) L i dv bn"
| "pc_ok s L t (Holding i dv bn) = (referred (cmem s) L i dv bn \<and> sl_owner s i = Some t)"
| "pc_ok s L t (Dropping i dv bn) = referred (cmem s) L i dv bn"
| "pc_ok s L t (DropLocked i dv bn v) =
     (referred (cmem s) L i dv bn \<and> v = bucket_of bn \<and> bl_owner s v = Some t)"
| "pc_ok s L t (Unlinked i v) = (bl_owner s v = Some t \<and> v < NBUCKETS \<and> detached (cmem s) L i)"

definition refs :: "bconc \<Rightarrow> nat \<Rightarrow> nat set" where
  "refs s i = {t. t < NACT \<and> ref_of (bpc s t) = Some i}"

definition conc_inv :: "bconc \<Rightarrow> (nat \<Rightarrow> nat list) \<Rightarrow> bool" where
  "conc_inv s L \<longleftrightarrow>
     lists_ok (cmem s) L \<and>
     (\<forall>t. pc_ok s L t (bpc s t)) \<and>
     (\<forall>t. NACT \<le> t \<longrightarrow> bpc s t = Idle) \<and>
     (\<forall>t u i. limbo (bpc s t) = Some i \<longrightarrow> limbo (bpc s u) = Some i \<longrightarrow> t = u) \<and>
     (\<forall>i. 0 < pins s i \<longrightarrow> i \<in> set (L (bucket_of (b_blockno (cmem s (Buf i)))))) \<and>
     (\<forall>i. pins s i \<le> LOGSIZE) \<and>
     (\<forall>v < NBUCKETS. \<forall>i \<in> set (L v). unat (b_refcnt (cmem s (Buf i))) = card (refs s i) + pins s i)"

lemma refs_upd [simp]:
  "refs (s\<lparr>cmem := m\<rparr>) i = refs s i" "refs (s\<lparr>pins := p\<rparr>) i = refs s i"
  "refs (s\<lparr>bl_owner := b\<rparr>) i = refs s i" "refs (s\<lparr>sl_owner := b\<rparr>) i = refs s i"
  by (simp_all add: refs_def)

lemma finite_refs [simp]: "finite (refs s i)"
  by (simp add: refs_def)

lemma card_refs_le: "card (refs s i) \<le> NACT"
proof -
  have "card (refs s i) \<le> card {..<NACT}" by (rule card_mono) (auto simp: refs_def)
  then show ?thesis by simp
qed

lemma refs_goto:
  assumes "bpc s' = (bpc s)(t := q)" and "t < NACT"
  shows "refs s' i = (if ref_of q = Some i then insert t (refs s i) else refs s i - {t})"
  using assms by (auto simp: refs_def)

lemma conc_invD:
  assumes "conc_inv s L"
  shows "lists_ok (cmem s) L" and "\<And>t. pc_ok s L t (bpc s t)" and "\<And>t. NACT \<le> t \<Longrightarrow> bpc s t = Idle"
    and "\<And>t u i. limbo (bpc s t) = Some i \<Longrightarrow> limbo (bpc s u) = Some i \<Longrightarrow> t = u"
    and "\<And>i. 0 < pins s i \<Longrightarrow> i \<in> set (L (bucket_of (b_blockno (cmem s (Buf i)))))"
    and "\<And>i. pins s i \<le> LOGSIZE"
    and "\<And>v i. v < NBUCKETS \<Longrightarrow> i \<in> set (L v) \<Longrightarrow>
           unat (b_refcnt (cmem s (Buf i))) = card (refs s i) + pins s i"
  using assms unfolding conc_inv_def by blast+

text \<open>What an activity relies on survives the step of another one.\<close>

lemma pc_ok_frame:
  assumes ok: "pc_ok s L u (bpc s u)"
    and bl: "\<And>v. bl_owner s v = Some u \<Longrightarrow> bl_owner s' v = Some u"
    and sl: "\<And>i. sl_owner s i = Some u \<Longrightarrow> sl_owner s' i = Some u"
    and ab: "\<And>dv bn. bl_owner s (bucket_of bn) = Some u \<Longrightarrow> absent (cmem s) L dv bn \<Longrightarrow>
                absent (cmem s') L' dv bn"
    and rf: "\<And>i dv bn. ref_of (bpc s u) = Some i \<Longrightarrow> referred (cmem s) L i dv bn \<Longrightarrow>
                referred (cmem s') L' i dv bn"
    and dt: "\<And>i. limbo (bpc s u) = Some i \<Longrightarrow> detached (cmem s) L i \<Longrightarrow> detached (cmem s') L' i"
  shows "pc_ok s' L' u (bpc s u)"
  using assms by (cases "bpc s u") auto

text \<open>Steps that leave pointers, keys and \<open>used\<close> bytes alone.\<close>

lemma conc_inv_quiet:
  assumes inv: "conc_inv s L" and t: "t < NACT" and pc: "bpc s' = (bpc s)(t := q)"
    and mem: "\<And>x. b_next (cmem s' x) = b_next (cmem s x) \<and> b_prev (cmem s' x) = b_prev (cmem s x) \<and>
        b_dev (cmem s' x) = b_dev (cmem s x) \<and> b_blockno (cmem s' x) = b_blockno (cmem s x) \<and>
        b_used (cmem s' x) = b_used (cmem s x)"
    and bl: "\<And>u v. u \<noteq> t \<Longrightarrow> bl_owner s v = Some u \<Longrightarrow> bl_owner s' v = Some u"
    and sl: "\<And>u i. u \<noteq> t \<Longrightarrow> sl_owner s i = Some u \<Longrightarrow> sl_owner s' i = Some u"
    and ok: "pc_ok s' L t q" and lim: "limbo q = None \<or> q = bpc s t"
    and pin: "\<And>i. 0 < pins s' i \<Longrightarrow> i \<in> set (L (bucket_of (b_blockno (cmem s (Buf i)))))"
      "\<And>i. pins s' i \<le> LOGSIZE"
    and cnt: "\<And>v i. v < NBUCKETS \<Longrightarrow> i \<in> set (L v) \<Longrightarrow>
        unat (b_refcnt (cmem s' (Buf i))) = card (refs s' i) + pins s' i"
  shows "conc_inv s' L"
  unfolding conc_inv_def
proof (intro conjI allI impI ballI)
  note D = conc_invD [OF inv]
  show "lists_ok (cmem s') L" using D(1) lists_cong [of "cmem s'" "cmem s" L] mem by simp
  fix u i j v w
  show "pc_ok s' L u (bpc s' u)"
  proof (cases "u = t")
    case True
    with ok pc show ?thesis by simp
  next
    case False
    have "absent (cmem s') L = absent (cmem s) L" "referred (cmem s') L = referred (cmem s) L"
      "detached (cmem s') L = detached (cmem s) L"
      by (simp_all add: fun_eq_iff absent_def referred_def detached_def mem)
    with D(2) [of u] bl [OF False] sl [OF False] have "pc_ok s' L u (bpc s u)"
      by (intro pc_ok_frame [of s L u s' L]) simp_all
    with False pc show ?thesis by simp
  qed
  show "bpc s' u = Idle" if "NACT \<le> u" using D(3) [OF that] pc t that by auto
  show "u = w" if "limbo (bpc s' u) = Some i" "limbo (bpc s' w) = Some i"
    using that lim D(4) by (auto simp: pc split: if_splits)
  show "i \<in> set (L (bucket_of (b_blockno (cmem s' (Buf i)))))" if "0 < pins s' i"
    using pin(1) [OF that] mem by simp
  show "pins s' i \<le> LOGSIZE" by (rule pin(2))
  show "unat (b_refcnt (cmem s' (Buf i))) = card (refs s' i) + pins s' i"
    if "v < NBUCKETS" "i \<in> set (L v)" using cnt that by simp
qed

text \<open>Reference counts stay far from the end of the word.\<close>

lemma unat_inc_ref:
  assumes "unat (x :: u32) = c + p" and "c \<le> NACT" and "p \<le> LOGSIZE"
  shows "unat (x + 1) = c + p + 1"
proof -
  have "unat x + 1 < 2 ^ 32"
    using assms by (simp add: NACT_def LOGSIZE_def NBUF_def MAXOPBLOCKS_def)
  then show ?thesis using assms(1) unat_add_no_overflow [of x 1] by simp
qed

lemma unat_dec_ref: "unat (x :: u32) = Suc c \<Longrightarrow> unat (x - 1) = c"
  using unat_minus_one [of x] by (cases "x = 0") auto

text \<open>The number of references when an activity takes or gives up one.\<close>

lemma card_refs_take:
  assumes "bpc s' = (bpc s)(t := q)" and "t < NACT" and "ref_of (bpc s t) = None" and "ref_of q = Some i"
  shows "card (refs s' j) = (if j = i then card (refs s j) + 1 else card (refs s j))"
proof -
  have "t \<notin> refs s j" using assms(3) by (simp add: refs_def)
  with assms show ?thesis by (auto simp: refs_goto)
qed

lemma card_refs_keep:
  assumes "bpc s' = (bpc s)(t := q)" and "t < NACT" and "ref_of q = ref_of (bpc s t)"
  shows "card (refs s' j) = card (refs s j)"
proof -
  have "refs s' j = refs s j" using assms by (auto simp: refs_def)
  then show ?thesis by simp
qed

lemma card_refs_give:
  assumes "bpc s' = (bpc s)(t := q)" and "t < NACT" and "ref_of (bpc s t) = Some i" and "ref_of q = None"
  shows "card (refs s j) = (if j = i then Suc (card (refs s' j)) else card (refs s' j))"
proof -
  have t: "t \<in> refs s i" using assms by (simp add: refs_def)
  have "refs s' j = (if j = i then refs s i - {t} else refs s j)"
    using assms by (auto simp: refs_goto) (auto simp: refs_def)
  with card.remove [OF finite_refs t] show ?thesis by (cases "j = i") simp_all
qed

section \<open>Every step keeps the invariant\<close>

lemma add_ref_sel [simp]:
  "b_next (add_ref i n m x) = b_next (m x)" "b_prev (add_ref i n m x) = b_prev (m x)"
  "b_dev (add_ref i n m x) = b_dev (m x)" "b_blockno (add_ref i n m x) = b_blockno (m x)"
  "b_used (add_ref i n m x) = b_used (m x)"
  "b_refcnt (add_ref i n m x) = (if x = Buf i then b_refcnt (m x) + n else b_refcnt (m x))"
  by (simp_all add: add_ref_def put_buf_def)

lemma add_ref_lists [simp]: "lists_ok (add_ref i n m) L = lists_ok m L"
  by (rule lists_cong) simp_all

lemma found_eq:
  assumes "lists_ok (cmem s) L"
  shows "found s dv bn =
    Some (Ret (map_option Buf (find (\<lambda>i. b_dev (cmem s (Buf i)) = dv \<and> b_blockno (cmem s (Buf i)) = bn)
                                 (L (bucket_of bn)))))"
proof -
  note bi = lists_bucket [OF assms bucket_of_less, of bn]
  have "length (L (bucket_of bn)) < Suc NBUF" using bucket_length [OF bi] by simp
  with bget_search_chain [of "cmem s" "Head (bucket_of bn)" "L (bucket_of bn)" "Head (bucket_of bn)" "Suc NBUF" dv bn] bi
  show ?thesis by (auto simp: bucket_inv_def simp del: bget_search.simps)
qed

lemma keep_enter:
  assumes inv: "conc_inv s L" and t: "t < NACT"
    and "bpc s t = Idle" and "bl_owner s (bucket_of bn) = None"
  shows "conc_inv (goto t (Searching dv bn) (set_bl (bucket_of bn) (Some t) s)) L"
  using assms(3,4) conc_invD(5-7) [OF inv] card_refs_keep [OF _ t, of _ s "Searching dv bn"]
  by (intro conc_inv_quiet [OF inv t, where q = "Searching dv bn"]) auto

text \<open>Steps that only move the program counter.\<close>

lemma keep_goto:
  assumes inv: "conc_inv s L" and t: "t < NACT"
    and "ref_of q = ref_of (bpc s t)" and "limbo q = None" and "pc_ok (goto t q s) L t q"
  shows "conc_inv (goto t q s) L"
  using assms(3-5) conc_invD(5-7) [OF inv] card_refs_keep [OF _ t, of _ s q]
  by (intro conc_inv_quiet [OF inv t, where q = q]) auto

lemma keep_hit:
  assumes inv: "conc_inv s L" and t: "t < NACT"
    and pc: "bpc s t = Searching dv bn" and f: "found s dv bn = Some (Ret (Some (Buf i)))"
  shows "conc_inv (goto t (Waiting i dv bn)
           (set_bl (bucket_of bn) None (s\<lparr>cmem := add_ref i 1 (cmem s)\<rparr>))) L"
proof -
  note D = conc_invD [OF inv]
  let ?s' = "goto t (Waiting i dv bn) (set_bl (bucket_of bn) None (s\<lparr>cmem := add_ref i 1 (cmem s)\<rparr>))"
  from f have i: "i \<in> set (L (bucket_of bn))" "key_of (cmem s) i = (dv, bn)"
    unfolding found_eq [OF D(1)] by (auto simp: find_Some_iff)
  have own: "bl_owner s (bucket_of bn) = Some t" using D(2) [of t] pc by simp
  have c: "card (refs ?s' j) = (if j = i then card (refs s j) + 1 else card (refs s j))" for j
    using card_refs_take [OF _ t, of ?s' s "Waiting i dv bn" i j] pc by simp
  show ?thesis
  proof (rule conc_inv_quiet [OF inv t, where q = "Waiting i dv bn"])
    show "unat (b_refcnt (cmem ?s' (Buf j))) = card (refs ?s' j) + pins ?s' j"
      if "v < NBUCKETS" "j \<in> set (L v)" for v j
      using D(7) [OF that] unat_inc_ref [OF D(7) [OF that] card_refs_le D(6)] c [of j]
      by auto
  qed (use D(5,6) own i in \<open>auto simp: referred_def\<close>)
qed

lemma keep_lock:
  assumes inv: "conc_inv s L" and t: "t < NACT"
    and pc: "bpc s t = Waiting i dv bn" and "sl_owner s i = None"
  shows "conc_inv (goto t (Holding i dv bn) (s\<lparr>sl_owner := (sl_owner s)(i := Some t)\<rparr>)) L"
  using assms(3,4) conc_invD(2) [OF inv, of t] conc_invD(5-7) [OF inv]
    card_refs_keep [OF _ t, of _ s "Holding i dv bn"]
  by (intro conc_inv_quiet [OF inv t, where q = "Holding i dv bn"]) auto

lemma keep_unlock:
  assumes inv: "conc_inv s L" and t: "t < NACT" and pc: "bpc s t = Holding i dv bn"
  shows "conc_inv (goto t (Dropping i dv bn) (s\<lparr>sl_owner := (sl_owner s)(i := None)\<rparr>)) L"
  using assms(3) conc_invD(2) [OF inv, of t] conc_invD(5-7) [OF inv]
    card_refs_keep [OF _ t, of _ s "Dropping i dv bn"]
  by (intro conc_inv_quiet [OF inv t, where q = "Dropping i dv bn"]) auto

lemma keep_use:
  assumes inv: "conc_inv s L" and t: "t < NACT" and pc: "bpc s t = Holding i dv bn"
  shows "conc_inv (s\<lparr>cmem := put_buf (Buf i) (\<lambda>b. b\<lparr>b_data := x, b_valid := y, b_disk := z\<rparr>) (cmem s)\<rparr>) L"
  using assms(3) conc_invD(2) [OF inv, of t] conc_invD(5-7) [OF inv]
  by (intro conc_inv_quiet [OF inv t, where q = "Holding i dv bn"])
     (auto simp: put_buf_def referred_def refs_def)

lemma keep_drop_enter:
  assumes inv: "conc_inv s L" and t: "t < NACT" and pc: "bpc s t = Dropping i dv bn"
    and v: "v = bucket_of (b_blockno (cmem s (Buf i)))" "bl_owner s v = None"
  shows "conc_inv (goto t (DropLocked i dv bn v) (set_bl v (Some t) s)) L"
  using assms(3-5) conc_invD(2) [OF inv, of t] conc_invD(5-7) [OF inv]
    card_refs_keep [OF _ t, of _ s "DropLocked i dv bn v"]
  by (intro conc_inv_quiet [OF inv t, where q = "DropLocked i dv bn v"]) (auto simp: referred_def)

lemma keep_pin:
  assumes inv: "conc_inv s L" and t: "t < NACT" and pc: "bpc s t = Holding i dv bn"
    and p: "pins s i < LOGSIZE"
  shows "conc_inv (s\<lparr>cmem := add_ref i 1 (cmem s), pins := (pins s)(i := Suc (pins s i))\<rparr>) L"
proof -
  note D = conc_invD [OF inv]
  let ?s' = "s\<lparr>cmem := add_ref i 1 (cmem s), pins := (pins s)(i := Suc (pins s i))\<rparr>"
  have r: "referred (cmem s) L i dv bn" "sl_owner s i = Some t" using D(2) [of t] pc by simp_all
  show ?thesis
  proof (rule conc_inv_quiet [OF inv t, where q = "Holding i dv bn"])
    show "unat (b_refcnt (cmem ?s' (Buf j))) = card (refs ?s' j) + pins ?s' j"
      if "v < NBUCKETS" "j \<in> set (L v)" for v j
      using D(7) [OF that] unat_inc_ref [OF D(7) [OF that] card_refs_le D(6)]
      by (cases "j = i") simp_all
    show "j \<in> set (L (bucket_of (b_blockno (cmem s (Buf j)))))" if "0 < pins ?s' j" for j
      using that D(5) [of j] r(1) by (cases "j = i") (auto simp: referred_def)
  qed (use D(6) r p pc in \<open>auto simp: referred_def\<close>)
qed

lemma keep_unpin:
  assumes inv: "conc_inv s L" and t: "t < NACT" and p: "0 < pins s i"
  shows "conc_inv (s\<lparr>cmem := add_ref i (- 1) (cmem s), pins := (pins s)(i := pins s i - 1)\<rparr>) L"
proof -
  note D = conc_invD [OF inv]
  let ?s' = "s\<lparr>cmem := add_ref i (- 1) (cmem s), pins := (pins s)(i := pins s i - 1)\<rparr>"
  have "absent (cmem ?s') L = absent (cmem s) L" "referred (cmem ?s') L = referred (cmem s) L"
    "detached (cmem ?s') L = detached (cmem s) L"
    by (simp_all add: fun_eq_iff absent_def referred_def detached_def)
  then have ok: "pc_ok ?s' L t (bpc s t)"
    by (intro pc_ok_frame [OF D(2)]) simp_all
  show ?thesis
  proof (rule conc_inv_quiet [OF inv t, where q = "bpc s t"])
    show "pc_ok ?s' L t (bpc s t)" by (rule ok)
    show "unat (b_refcnt (cmem ?s' (Buf j))) = card (refs ?s' j) + pins ?s' j"
      if "v < NBUCKETS" "j \<in> set (L v)" for v j
      using D(7) [OF that] p unat_dec_ref [of "b_refcnt (cmem s (Buf j))" "card (refs s j) + (pins s j - 1)"]
      by auto
    show "j \<in> set (L (bucket_of (b_blockno (cmem s (Buf j)))))" if "0 < pins ?s' j" for j
      using that p D(5) [of j] by (cases "j = i") auto
    show "pins ?s' j \<le> LOGSIZE" for j using D(6) [of j] by auto
  qed simp_all
qed

lemma keep_drop:
  assumes inv: "conc_inv s L" and t: "t < NACT" and pc: "bpc s t = DropLocked i dv bn v"
  shows "conc_inv (goto t Idle (set_bl v None (s\<lparr>cmem := add_ref i (- 1) (cmem s)\<rparr>))) L"
proof -
  note D = conc_invD [OF inv]
  let ?s' = "goto t Idle (set_bl v None (s\<lparr>cmem := add_ref i (- 1) (cmem s)\<rparr>))"
  have own: "bl_owner s v = Some t" using D(2) [of t] pc by auto
  have c: "card (refs s j) = (if j = i then Suc (card (refs ?s' j)) else card (refs ?s' j))" for j
    using card_refs_give [OF _ t, of ?s' s Idle i j] pc by simp
  show ?thesis
  proof (rule conc_inv_quiet [OF inv t, where q = Idle])
    show "unat (b_refcnt (cmem ?s' (Buf j))) = card (refs ?s' j) + pins ?s' j"
      if "w < NBUCKETS" "j \<in> set (L w)" for w j
      using D(7) [OF that] c [of j] unat_dec_ref [of "b_refcnt (cmem s (Buf j))" "card (refs ?s' j) + pins s j"]
      by auto
  qed (use D(5,6) own in auto)
qed

text \<open>The steps that claim, link, unlink and free a buffer.\<close>

lemma keep_claim:
  assumes inv: "conc_inv s L" and t: "t < NACT" and pc: "bpc s t = Scanning dv bn k" and k: "k < NBUF"
    and m: "test_and_set k (cmem s) = (False, m)"
  shows "conc_inv (goto t (Claimed dv bn k) (s\<lparr>cmem := m\<rparr>)) L"
proof -
  note D = conc_invD [OF inv]
  let ?s' = "goto t (Claimed dv bn k) (s\<lparr>cmem := m\<rparr>)"
  have u: "b_used (cmem s (Buf k)) = 0" and m': "m = put_buf (Buf k) (\<lambda>b. b\<lparr>b_used := 1\<rparr>) (cmem s)"
    using m by (auto simp: test_and_set_def)
  have fresh: "k \<notin> set (L v)" if "v < NBUCKETS" for v
    using lists_mem(3) [OF D(1) that, of k] u by auto
  have nolimbo: "limbo (bpc s w) \<noteq> Some k" for w
    using D(2) [of w] u by (cases "bpc s w") (auto simp: detached_def)
  have mm: "b_next (m x) = b_next (cmem s x)" "b_prev (m x) = b_prev (cmem s x)"
    "b_dev (m x) = b_dev (cmem s x)" "b_blockno (m x) = b_blockno (cmem s x)"
    "b_refcnt (m x) = b_refcnt (cmem s x)"
    "b_used (m x) = (if x = Buf k then 1 else b_used (cmem s x))" for x
    by (auto simp: m' put_buf_def)
  have ab: "absent m L = absent (cmem s) L" "referred m L = referred (cmem s) L"
    by (simp_all add: fun_eq_iff absent_def referred_def mm)
  have dt: "detached (cmem s) L i \<Longrightarrow> detached m L i" for i by (simp add: detached_def mm)
  show ?thesis
    unfolding conc_inv_def
  proof (intro conjI allI impI ballI)
    have "lists_ok m L = lists_ok (cmem s) L"
      using fresh by (intro lists_cong) (auto simp: mm)
    with D(1) show "lists_ok (cmem ?s') L" by simp
    fix w x i v
    show "pc_ok ?s' L w (bpc ?s' w)"
    proof (cases "w = t")
      case True
      with D(2) [of t] pc k fresh show ?thesis by (simp add: ab detached_def mm)
    next
      case False
      have "pc_ok ?s' L w (bpc s w)"
        by (rule pc_ok_frame [OF D(2)]) (simp_all add: ab dt)
      with False show ?thesis by simp
    qed
    show "w = x" if "limbo (bpc ?s' w) = Some i" "limbo (bpc ?s' x) = Some i"
      using that D(4) nolimbo by (auto split: if_splits)
    show "unat (b_refcnt (cmem ?s' (Buf i))) = card (refs ?s' i) + pins ?s' i"
      if "v < NBUCKETS" "i \<in> set (L v)"
      using D(7) [OF that] card_refs_keep [OF _ t, of ?s' s "Claimed dv bn k" i] pc by (simp add: mm)
  qed (use D(3,5,6) t in \<open>auto simp: mm\<close>)
qed

lemma keep_clear:
  assumes inv: "conc_inv s L" and t: "t < NACT" and pc: "bpc s t = Unlinked i v"
  shows "conc_inv (goto t Idle (set_bl v None (s\<lparr>cmem := clear_used (Buf i) (cmem s)\<rparr>))) L"
proof -
  note D = conc_invD [OF inv]
  let ?m = "clear_used (Buf i) (cmem s)"
  let ?s' = "goto t Idle (set_bl v None (s\<lparr>cmem := ?m\<rparr>))"
  have own: "bl_owner s v = Some t" and det: "detached (cmem s) L i" using D(2) [of t] pc by simp_all
  have mm: "b_next (?m x) = b_next (cmem s x)" "b_prev (?m x) = b_prev (cmem s x)"
    "b_dev (?m x) = b_dev (cmem s x)" "b_blockno (?m x) = b_blockno (cmem s x)"
    "b_refcnt (?m x) = b_refcnt (cmem s x)"
    "b_used (?m x) = (if x = Buf i then 0 else b_used (cmem s x))" for x
    by (auto simp: clear_used_def put_buf_def)
  have ab: "absent ?m L = absent (cmem s) L" "referred ?m L = referred (cmem s) L"
    by (simp_all add: fun_eq_iff absent_def referred_def mm)
  have dt: "detached (cmem s) L j \<Longrightarrow> j \<noteq> i \<Longrightarrow> detached ?m L j" for j by (simp add: detached_def mm)
  show ?thesis
    unfolding conc_inv_def
  proof (intro conjI allI impI ballI)
    have "lists_ok ?m L = lists_ok (cmem s) L"
      using det by (intro lists_cong) (auto simp: mm detached_def)
    with D(1) show "lists_ok (cmem ?s') L" by simp
    fix w x j u
    show "pc_ok ?s' L w (bpc ?s' w)"
    proof (cases "w = t")
      case True
      then show ?thesis by simp
    next
      case False
      have "pc_ok ?s' L w (bpc s w)"
        using D(4) [of t i w] pc False own
        by (intro pc_ok_frame [OF D(2)]) (auto simp: ab intro: dt)
      with False show ?thesis by simp
    qed
    show "w = x" if "limbo (bpc ?s' w) = Some j" "limbo (bpc ?s' x) = Some j"
      using that D(4) by (auto split: if_splits)
    show "unat (b_refcnt (cmem ?s' (Buf j))) = card (refs ?s' j) + pins ?s' j"
      if "u < NBUCKETS" "j \<in> set (L u)"
      using D(7) [OF that] card_refs_keep [OF _ t, of ?s' s Idle j] pc by (simp add: mm)
  qed (use D(3,5,6) t in \<open>auto simp: mm\<close>)
qed

lemma ref_referred:
  assumes "pc_ok s L t q" and "ref_of q = Some i"
  shows "\<exists>v < NBUCKETS. i \<in> set (L v)"
  using assms bucket_of_less by (cases q) (auto simp: referred_def)

lemma limbo_detached:
  assumes "pc_ok s L t q" and "limbo q = Some i"
  shows "detached (cmem s) L i"
  using assms by (cases q) auto

lemma keep_link:
  assumes inv: "conc_inv s L" and t: "t < NACT" and pc: "bpc s t = Claimed dv bn i"
    and m: "bget_link i (bucket_of bn) dv bn (cmem s) = Ret m"
  shows "conc_inv (goto t (Waiting i dv bn) (set_bl (bucket_of bn) None (s\<lparr>cmem := m\<rparr>)))
           (L(bucket_of bn := i # L (bucket_of bn)))"
proof -
  note D = conc_invD [OF inv]
  let ?v = "bucket_of bn"
  let ?s' = "goto t (Waiting i dv bn) (set_bl ?v None (s\<lparr>cmem := m\<rparr>))"
  let ?L = "L(?v := i # L ?v)"
  have own: "bl_owner s ?v = Some t" and ab: "absent (cmem s) L dv bn" and det: "detached (cmem s) L i"
    using D(2) [of t] pc by simp_all
  have out: "j \<in> set (L w) \<Longrightarrow> w < NBUCKETS \<Longrightarrow> j \<noteq> i" for j w using det by (auto simp: detached_def)
  have "chain (cmem s) (Head ?v) (L ?v) (Head ?v)"
    using lists_bucket [OF D(1) bucket_of_less] by (simp add: bucket_inv_def)
  then have "b_next (cmem s (Head ?v)) \<noteq> BNull" by (rule chain_not_null)
  then have m': "m = linked i ?v dv bn (cmem s)"
    using m bget_link_linked [of "cmem s" ?v i dv bn] by simp
  have norefs: "refs s i = {}"
    using D(2) det by (auto simp: refs_def detached_def dest!: ref_referred [rotated])
  have nopins: "pins s i = 0"
    using D(5) [of i] det bucket_of_less by (auto simp: detached_def)
  have card: "card (refs ?s' j) = (if j = i then 1 else card (refs s j))" for j
    using card_refs_take [OF _ t, of ?s' s "Waiting i dv bn" i j] pc norefs by simp
  show ?thesis
    unfolding conc_inv_def
  proof (intro conjI allI impI ballI)
    show "lists_ok (cmem ?s') ?L"
      using lists_link [OF D(1), of i ?v bn dv] det ab by (simp add: m' detached_def absent_def)
    fix w x j u
    show "pc_ok ?s' ?L w (bpc ?s' w)"
    proof (cases "w = t")
      case True
      then show ?thesis by (simp add: referred_def m')
    next
      case False
      have "pc_ok ?s' ?L w (bpc s w)"
      proof (rule pc_ok_frame [OF D(2)])
        show "bl_owner ?s' u = Some w" if "bl_owner s u = Some w" for u
          using that own False by auto
        show "absent (cmem ?s') ?L dv' bn'"
          if "bl_owner s (bucket_of bn') = Some w" "absent (cmem s) L dv' bn'" for dv' bn'
          using that own False out [of _ "bucket_of bn'"] bucket_of_less by (auto simp: absent_def m')
        show "referred (cmem ?s') ?L j dv' bn'" if "referred (cmem s) L j dv' bn'" for j dv' bn'
          using that out [of j "bucket_of bn'"] bucket_of_less by (auto simp: referred_def m')
        show "detached (cmem ?s') ?L j" if "limbo (bpc s w) = Some j" "detached (cmem s) L j" for j
          using that D(4) [of t i w] pc False by (auto simp: detached_def m')
      qed simp
      with False show ?thesis by simp
    qed
    show "w = x" if "limbo (bpc ?s' w) = Some j" "limbo (bpc ?s' x) = Some j"
      using that D(4) by (auto split: if_splits)
    show "j \<in> set (?L (bucket_of (b_blockno (cmem ?s' (Buf j)))))" if "0 < pins ?s' j"
      using that D(5) [of j] nopins by (cases "j = i") (auto simp: m')
    show "unat (b_refcnt (cmem ?s' (Buf j))) = card (refs ?s' j) + pins ?s' j"
      if "u < NBUCKETS" "j \<in> set (?L u)"
      using that D(7) [of u j] nopins out [of j u] card [of j]
      by (cases "j = i") (auto simp: m' split: if_splits)
  qed (use D(3,6) t in auto)
qed

lemma keep_unlink:
  assumes inv: "conc_inv s L" and t: "t < NACT" and pc: "bpc s t = DropLocked i dv bn v"
    and last: "b_refcnt (cmem s (Buf i)) - 1 = 0"
    and m: "unlink_ptrs (Buf i) (add_ref i (- 1) (cmem s)) = Ret m"
  shows "conc_inv (goto t (Unlinked i v) (s\<lparr>cmem := m\<rparr>)) (L(v := remove1 i (L v)))"
proof -
  note D = conc_invD [OF inv]
  let ?s' = "goto t (Unlinked i v) (s\<lparr>cmem := m\<rparr>)"
  let ?L = "L(v := remove1 i (L v))"
  have own: "bl_owner s v = Some t" and v: "v = bucket_of bn" "v < NBUCKETS"
    and i: "i \<in> set (L v)" "key_of (cmem s) i = (dv, bn)"
    using D(2) [of t] pc bucket_of_less by (auto simp: referred_def)
  note mem = lists_mem [OF D(1) v(2) i(1)]
  have dist: "distinct (L v)" using lists_bucket [OF D(1) v(2)] by (simp add: bucket_inv_def)
  have lst: "lists_ok (add_ref i (- 1) (cmem s)) L" using D(1) by simp
  have m': "m = bypass (Buf i) (add_ref i (- 1) (cmem s))"
    using m unlink_ptrs_bypass [OF lst v(2) i(1)] by simp
  have out: "i \<notin> set (?L w)" if "w < NBUCKETS" for w
    using that dist lists_disjoint [OF D(1) v(2) that] i(1) by (cases "w = v") auto
  have "b_refcnt (cmem s (Buf i)) = 1" using last by simp
  then have one: "card (refs s i) + pins s i = 1" using D(7) [OF v(2) i(1)] by simp
  have tr: "t \<in> refs s i" using pc t by (simp add: refs_def)
  then have "card (refs s i) \<noteq> 0" by (auto simp: card_eq_0_iff)
  with one have c1: "card (refs s i) = 1" and nopins: "pins s i = 0" by linarith+
  then have only: "refs s i = {t}" using tr by (metis card_1_singletonE singletonD)
  have others: "ref_of (bpc s w) \<noteq> Some i" if "w \<noteq> t" for w
  proof
    assume "ref_of (bpc s w) = Some i"
    moreover from this have "w < NACT" using D(3) [of w] by (cases "w < NACT") auto
    ultimately have "w \<in> refs s i" by (simp add: refs_def)
    with only that show False by simp
  qed
  show ?thesis
    unfolding conc_inv_def
  proof (intro conjI allI impI ballI)
    show "lists_ok (cmem ?s') ?L" using lists_unlink [OF lst v(2) i(1)] by (simp add: m')
    fix w x j u
    show "pc_ok ?s' ?L w (bpc ?s' w)"
    proof (cases "w = t")
      case True
      then show ?thesis using own v(2) mem out by (simp add: detached_def m')
    next
      case False
      have "pc_ok ?s' ?L w (bpc s w)"
      proof (rule pc_ok_frame [OF D(2)])
        show "absent (cmem ?s') ?L dv' bn'"
          if "bl_owner s (bucket_of bn') = Some w" "absent (cmem s) L dv' bn'" for dv' bn'
          using that own False by (auto simp: absent_def m')
        show "referred (cmem ?s') ?L j dv' bn'"
          if "ref_of (bpc s w) = Some j" "referred (cmem s) L j dv' bn'" for j dv' bn'
          using that others [OF False] dist by (auto simp: referred_def m')
        show "detached (cmem ?s') ?L j" if "detached (cmem s) L j" for j
          using that i(1) v(2) by (auto simp: detached_def m' dest: notin_set_remove1)
      qed simp_all
      with False show ?thesis by simp
    qed
    have nolimbo: "limbo (bpc s w) \<noteq> Some i" for w
      using limbo_detached [OF D(2) [of w]] i(1) v(2) by (auto simp: detached_def)
    show "w = x" if "limbo (bpc ?s' w) = Some j" "limbo (bpc ?s' x) = Some j"
      using that D(4) nolimbo by (auto split: if_splits)
    show "j \<in> set (?L (bucket_of (b_blockno (cmem ?s' (Buf j)))))" if "0 < pins ?s' j"
      using that D(5) [of j] nopins dist by (cases "j = i") (auto simp: m')
    show "unat (b_refcnt (cmem ?s' (Buf j))) = card (refs ?s' j) + pins ?s' j"
      if u: "u < NBUCKETS" "j \<in> set (?L u)"
    proof -
      have ji: "j \<noteq> i" using u out [OF u(1)] by auto
      have "j \<in> set (L u)" using u(2) dist by (auto split: if_splits)
      with D(7) [OF u(1)] ji card_refs_give [OF _ t, of ?s' s "Unlinked i v" i j] pc
      show ?thesis by (simp add: m')
    qed
  qed (use D(3,6) t in auto)
qed

theorem conc_inv_step:
  assumes "bstep t s s'" and "conc_inv s L" and "t < NACT"
  shows "\<exists>L'. conc_inv s' L'"
  using assms
proof (induction rule: bstep.induct)
  case (b_miss s t dv bn)
  note D = conc_invD [OF b_miss.prems(1)]
  have "absent (cmem s) L dv bn"
    using b_miss.hyps(2) unfolding found_eq [OF D(1)] by (auto simp: absent_def find_None_iff)
  with D(2) [of t] b_miss show ?case by (intro exI keep_goto) auto
next
  case (b_skip s t dv bn k)
  then show ?case using conc_invD(2) [of s L t] by (intro exI keep_goto) auto
next
  case (b_full s t dv bn k)
  then show ?case by (intro exI keep_goto) auto
qed (blast intro: keep_enter keep_hit keep_claim keep_link keep_lock keep_use keep_pin keep_unpin
      keep_unlock keep_drop_enter keep_drop keep_unlink keep_clear)+

section \<open>What holds in every run\<close>

text \<open>The start: memory as \<open>binit\<close> leaves it, nobody in the cache.\<close>

definition conc_boot :: "'x bio_ext \<Rightarrow> 'x \<Rightarrow> bconc" where
  "conc_boot E x =
     \<lparr>cmem = bufs (binit E \<lparr>bufs = (\<lambda>_. zero_buf), bext = x\<rparr>), bl_owner = (\<lambda>_. None),
      sl_owner = (\<lambda>_. None), bpc = (\<lambda>_. Idle), pins = (\<lambda>_. 0)\<rparr>"

lemma conc_boot_inv: "conc_inv (conc_boot E x) (\<lambda>_. [])"
  by (simp add: conc_inv_def conc_boot_def binit_lists)

lemma breach_inv:
  assumes "breach (conc_boot E x) s"
  shows "\<exists>L. conc_inv s L"
  using assms
proof (induction rule: breach.induct)
  case breach_init
  show ?case by (rule exI, rule conc_boot_inv)
next
  case (breach_step s t s')
  then obtain L where "conc_inv s L" by blast
  with breach_step show ?case by (intro conc_inv_step)
qed

text \<open>The buffer an activity refers to is that of its block, in use, and counted.\<close>

lemma referred_props:
  assumes inv: "conc_inv s L" and "referred (cmem s) L i dv bn"
  shows "i < NBUF" "b_used (cmem s (Buf i)) \<noteq> 0" "key_of (cmem s) i = (dv, bn)"
  using lists_mem [OF conc_invD(1) [OF inv] bucket_of_less] assms(2) by (auto simp: referred_def)

lemma referred_unique:
  assumes inv: "conc_inv s L" and "referred (cmem s) L i dv bn" "referred (cmem s) L j dv bn"
  shows "i = j"
proof -
  have "inj_on (key_of (cmem s)) (set (L (bucket_of bn)))"
    using lists_bucket [OF conc_invD(1) [OF inv] bucket_of_less] by (simp add: bucket_inv_def)
  with assms(2,3) show ?thesis by (auto simp: referred_def inj_on_def)
qed

text \<open>Lock initialisation that does nothing, for a closed example.\<close>

definition null_bio :: "unit bio_ext" where
  "null_bio =
     \<lparr>bx_initlock = (\<lambda>_ _. ()), bx_acquire = (\<lambda>_. Ret), bx_release = (\<lambda>_. Ret),
      bx_initsleeplock = (\<lambda>_ _. ()), bx_acquiresleep = (\<lambda>_. Ret), bx_releasesleep = (\<lambda>_. Ret),
      bx_holdingsleep = (\<lambda>_ _. True), bx_virtio_disk_rw = (\<lambda>b _ x. Ret (b, x))\<rparr>"

text \<open>A run in which activity 0 gets the buffer of block 33.\<close>

lemma conc_demo:
  "\<exists>s. breach (conc_boot E x) s \<and> bpc s 0 = Holding 0 1 33"
proof -
  let ?s0 = "conc_boot E x"
  let ?s1 = "goto 0 (Searching 1 33) (set_bl (bucket_of 33) (Some 0) ?s0)"
  have n: "(0::nat) < NACT" "(0::nat) < NBUF" by (simp_all add: NACT_def NBUF_def MAXOPBLOCKS_def)
  have r1: "breach ?s0 ?s1"
    by (rule breach_step [OF breach_init n(1)], rule b_enter) (simp_all add: conc_boot_def)
  have f: "found ?s1 1 33 = Some (Ret None)"
    using bucket_of_less [of 33] by (simp add: conc_boot_def binit_bufs)
  let ?s2 = "goto 0 (Scanning 1 33 0) ?s1"
  have r2: "breach ?s0 ?s2"
    by (rule breach_step [OF r1 n(1)], rule b_miss [OF _ f]) simp
  obtain m where m: "test_and_set 0 (cmem ?s2) = (False, m)"
    by (simp add: test_and_set_def conc_boot_def binit_bufs zero_buf_def)
  let ?s3 = "goto 0 (Claimed 1 33 0) (?s2\<lparr>cmem := m\<rparr>)"
  have r3: "breach ?s0 ?s3"
    by (rule breach_step [OF r2 n(1)], rule b_claim [OF _ n(2) m]) simp
  have "b_next (m (Head (bucket_of 33))) \<noteq> BNull"
    using m bucket_of_less [of 33]
    by (auto simp: test_and_set_def conc_boot_def binit_bufs put_buf_def)
  from bget_link_linked [of m "bucket_of 33" 0 1 33, OF this] obtain m'
    where m': "bget_link 0 (bucket_of 33) 1 33 (cmem ?s3) = Ret m'" by simp
  let ?s4 = "goto 0 (Waiting 0 1 33) (set_bl (bucket_of 33) None (?s3\<lparr>cmem := m'\<rparr>))"
  have r4: "breach ?s0 ?s4"
    by (rule breach_step [OF r3 n(1)], rule b_link [OF _ m']) simp
  let ?s5 = "goto 0 (Holding 0 1 33) (?s4\<lparr>sl_owner := (sl_owner ?s4)(0 := Some 0)\<rparr>)"
  have "breach ?s0 ?s5"
    by (rule breach_step [OF r4 n(1)], rule b_lock) (simp_all add: conc_boot_def)
  then show ?thesis by (intro exI [of _ ?s5]) simp
qed

text \<open>(C10) In every interleaving from boot, two activities that hold a buffer for the same block
  are the same activity: the cache is the synchronisation point its header promises. The
  buffer held is the buffer of that block, in use, with a positive reference count.\<close>

theorem conc_block_exclusion:
  assumes "breach (conc_boot E x) s" and "bpc s t = Holding i dv bn" and "bpc s u = Holding j dv bn"
  shows "t = u \<and> i = j \<and> key_of (cmem s) i = (dv, bn) \<and> b_used (cmem s (Buf i)) \<noteq> 0 \<and>
         b_refcnt (cmem s (Buf i)) \<noteq> 0"
proof -
  from breach_inv [OF assms(1)] obtain L where inv: "conc_inv s L" by blast
  note D = conc_invD [OF inv]
  have r: "referred (cmem s) L i dv bn" "referred (cmem s) L j dv bn"
    "sl_owner s i = Some t" "sl_owner s j = Some u"
    using D(2) [of t] D(2) [of u] assms(2,3) by simp_all
  have ij: "i = j" by (rule referred_unique [OF inv r(1,2)])
  have "t < NACT" using D(3) [of t] assms(2) by (cases "t < NACT") auto
  then have "t \<in> refs s i" using assms(2) by (simp add: refs_def)
  then have "card (refs s i) \<noteq> 0" by (auto simp: card_eq_0_iff)
  then have "b_refcnt (cmem s (Buf i)) \<noteq> 0"
    using D(7) [OF bucket_of_less, of i bn] r(1) by (auto simp: referred_def)
  with ij r(3,4) referred_props [OF inv r(1)] show ?thesis by simp
qed

theorem conc_block_exclusion_witness:
  "\<exists>s. breach (conc_boot null_bio ()) s \<and> bpc s 0 = Holding 0 1 33 \<and>
     key_of (cmem s) 0 = (1, 33) \<and> b_refcnt (cmem s (Buf 0)) \<noteq> 0"
proof -
  from conc_demo [of null_bio "()"] obtain s
    where s: "breach (conc_boot null_bio ()) s" "bpc s 0 = Holding 0 1 33" by metis
  from conc_block_exclusion [OF s s(2)] s show ?thesis by (intro exI [of _ s]) simp
qed

text \<open>(C15) In every interleaving from boot, no two buffers in use and in a list are for the same
  block, and the reference count of such a buffer is the number of activities that refer to it
  plus the pins on it.\<close>

theorem conc_cache_coherent:
  assumes "breach (conc_boot E x) s"
  shows "\<exists>L. lists_ok (cmem s) L \<and>
     (\<forall>v < NBUCKETS. \<forall>i \<in> set (L v).
        unat (b_refcnt (cmem s (Buf i))) = card (refs s i) + pins s i \<and>
        (\<forall>w < NBUCKETS. \<forall>j \<in> set (L w). key_of (cmem s) i = key_of (cmem s) j \<longrightarrow> i = j))"
proof -
  from breach_inv [OF assms] obtain L where inv: "conc_inv s L" by blast
  note D = conc_invD [OF inv]
  have "i = j" if "v < NBUCKETS" "i \<in> set (L v)" "w < NBUCKETS" "j \<in> set (L w)"
    "key_of (cmem s) i = key_of (cmem s) j" for v w i j
  proof -
    have "v = w"
      using lists_mem(2) [OF D(1) that(1,2)] lists_mem(2) [OF D(1) that(3,4)] that(5) by simp
    with lists_bucket [OF D(1) that(1)] that(2,4,5) show ?thesis by (simp add: bucket_inv_def inj_on_def)
  qed
  then show ?thesis
    using D(1) D(7) by (intro exI [of _ L] conjI ballI allI impI) auto
qed

theorem conc_cache_coherent_witness:
  "\<exists>s. breach (conc_boot null_bio ()) s \<and> bpc s 0 = Holding 0 1 33 \<and> (\<exists>L. lists_ok (cmem s) L)"
proof -
  from conc_demo [of null_bio "()"] obtain s
    where s: "breach (conc_boot null_bio ()) s" "bpc s 0 = Holding 0 1 33" by metis
  from conc_cache_coherent [OF s(1)] s show ?thesis by (intro exI [of _ s]) auto
qed

text \<open>In every interleaving from boot, the code never goes through a null or stray pointer:
  the search of a bucket ends at a buffer or at the head, and the pointer writes that link a
  claimed buffer or unlink a dropped one are defined.\<close>

theorem conc_memory_safe:
  assumes "breach (conc_boot E x) s"
  shows "(\<exists>r. found s dv bn = Some (Ret r)) \<and>
     (\<forall>t i dv' bn'. bpc s t = Claimed dv' bn' i \<longrightarrow>
        (\<exists>m. bget_link i (bucket_of bn') dv' bn' (cmem s) = Ret m)) \<and>
     (\<forall>t i dv' bn' v. bpc s t = DropLocked i dv' bn' v \<longrightarrow>
        (\<exists>m. unlink_ptrs (Buf i) (add_ref i (- 1) (cmem s)) = Ret m))"
proof -
  from breach_inv [OF assms] obtain L where inv: "conc_inv s L" by blast
  note D = conc_invD [OF inv]
  have nn: "b_next (cmem s (Head (bucket_of bn'))) \<noteq> BNull" for bn'
  proof -
    have "chain (cmem s) (Head (bucket_of bn')) (L (bucket_of bn')) (Head (bucket_of bn'))"
      using lists_bucket [OF D(1) bucket_of_less, of bn'] by (simp add: bucket_inv_def)
    then show ?thesis by (rule chain_not_null)
  qed
  have "\<exists>m. bget_link i (bucket_of bn') dv' bn' (cmem s) = Ret m" for i dv' bn'
    using bget_link_linked [of "cmem s" "bucket_of bn'"] nn by simp
  moreover
  have "\<exists>m. unlink_ptrs (Buf i) (add_ref i (- 1) (cmem s)) = Ret m"
    if "bpc s t = DropLocked i dv' bn' v" for t i dv' bn' v
  proof -
    have "i \<in> set (L (bucket_of bn'))" using D(2) [of t] that by (simp add: referred_def)
    with unlink_ptrs_bypass [of "add_ref i (- 1) (cmem s)" L] D(1) bucket_of_less show ?thesis by auto
  qed
  moreover have "\<exists>r. found s dv bn = Some (Ret r)" by (simp only: found_eq [OF D(1)]) simp
  ultimately show ?thesis by simp
qed

theorem conc_memory_safe_witness:
  "\<exists>r. found (conc_boot null_bio ()) 1 34 = Some (Ret r)"
  using conc_memory_safe [OF breach_init, where E = null_bio and x = "()" and dv = 1 and bn = 34]
  by (rule conjunct1)

end
