(* ===== verification/Vm.thy ===== *)
theory Vm
  imports Prelude
begin

text \<open>
  The virtual memory of the RISC-V kernel: every function of Lab3 \<open>vm.c\<close>, and
  \<open>proc_mapstacks\<close> of \<open>proc.c\<close>, which \<open>kvmmake\<close> calls.

  Physical memory is one function from 64-bit addresses to bytes: page-table entries are read
  and written as eight little-endian bytes, page contents as bytes. The kernel maps physical
  memory at its own addresses, so a kernel pointer is a physical address; the null pointer
  is 0.

  The macros of \<open>riscv.h\<close>, \<open>memlayout.h\<close> and \<open>param.h\<close> (\<open>n_proc\<close> is \<open>NPROC\<close>) and the allocator of \<open>kalloc.c\<close> are not in
  the repository: they are the fields of \<open>vext\<close>. A loop that the code ends by a comparison
  of addresses takes fuel.
\<close>

section \<open>Memory\<close>

type_synonym bytes = "addr64 \<Rightarrow> u8"

record 'w vm =
  mem :: bytes
  kernel_pagetable :: addr64
  vw :: 'w

definition read64 :: "bytes \<Rightarrow> addr64 \<Rightarrow> u64" where
  "read64 m a =
     ucast (m a) OR push_bit 8 (ucast (m (a + 1))) OR push_bit 16 (ucast (m (a + 2))) OR
     push_bit 24 (ucast (m (a + 3))) OR push_bit 32 (ucast (m (a + 4))) OR
     push_bit 40 (ucast (m (a + 5))) OR push_bit 48 (ucast (m (a + 6))) OR
     push_bit 56 (ucast (m (a + 7)))"

definition write64 :: "addr64 \<Rightarrow> u64 \<Rightarrow> bytes \<Rightarrow> bytes" where
  "write64 a v m =
     (\<lambda>x. if unat (x - a) < 8 then ucast (drop_bit (8 * unat (x - a)) v) else m x)"

definition memset :: "addr64 \<Rightarrow> u8 \<Rightarrow> u64 \<Rightarrow> bytes \<Rightarrow> bytes" where
  "memset a c n m = (\<lambda>x. if x - a < n then c else m x)"

definition memmove :: "addr64 \<Rightarrow> addr64 \<Rightarrow> u64 \<Rightarrow> bytes \<Rightarrow> bytes" where
  "memmove dst src n m = (\<lambda>x. if x - dst < n then m (src + (x - dst)) else m x)"

abbreviation on_mem :: "(bytes \<Rightarrow> bytes) \<Rightarrow> 'w vm \<Rightarrow> 'w vm" where
  "on_mem f s \<equiv> s\<lparr>mem := f (mem s)\<rparr>"

record 'w vext =
  PGSIZE :: u64
  PTE_V :: u64
  PTE_R :: u64
  PTE_W :: u64
  PTE_X :: u64
  PTE_U :: u64
  MAXVA :: u64
  PX :: "nat \<Rightarrow> u64 \<Rightarrow> u64"
  PTE2PA :: "u64 \<Rightarrow> u64"
  PA2PTE :: "u64 \<Rightarrow> u64"
  PTE_FLAGS :: "u64 \<Rightarrow> u64"
  PGROUNDUP :: "u64 \<Rightarrow> u64"
  PGROUNDDOWN :: "u64 \<Rightarrow> u64"
  UART0 :: u64
  VIRTIO0 :: u64
  PLIC :: u64
  KERNBASE :: u64
  PHYSTOP :: u64
  TRAMPOLINE :: u64
  KSTACK :: "nat \<Rightarrow> u64"
  n_proc :: nat
  etext :: addr64
  trampoline :: addr64
  MAKE_SATP :: "u64 \<Rightarrow> u64"
  kalloc :: "'w vm \<Rightarrow> addr64 \<times> 'w vm"
  kfree :: "addr64 \<Rightarrow> 'w vm \<Rightarrow> 'w vm outcome"
  sfence_vma :: "'w vm \<Rightarrow> 'w vm"
  w_satp :: "u64 \<Rightarrow> 'w vm \<Rightarrow> 'w vm"

section \<open>Walking a page table\<close>

fun walk_loop ::
    "'w vext \<Rightarrow> nat \<Rightarrow> addr64 \<Rightarrow> u64 \<Rightarrow> bool \<Rightarrow> 'w vm \<Rightarrow> addr64 \<times> 'w vm" where
  "walk_loop E 0 pt va al s = (pt + 8 * PX E 0 va, s)"
| "walk_loop E (Suc l) pt va al s =
     (let pte = pt + 8 * PX E (Suc l) va;
          e = read64 (mem s) pte
      in if e AND PTE_V E \<noteq> 0 then walk_loop E l (PTE2PA E e) va al s
         else if \<not> al then (0, s)
         else case kalloc E s of (p, s) \<Rightarrow>
           if p = 0 then (0, s)
           else
             let s = on_mem (memset p 0 (PGSIZE E)) s;
                 s = on_mem (write64 pte (PA2PTE E p OR PTE_V E)) s
             in walk_loop E l p va al s)"

definition walk ::
    "'w vext \<Rightarrow> addr64 \<Rightarrow> u64 \<Rightarrow> bool \<Rightarrow> 'w vm \<Rightarrow> (addr64 \<times> 'w vm) outcome" where
  "walk E pt va al s =
     (if va \<ge> MAXVA E then Panic ''walk'' else Ret (walk_loop E 2 pt va al s))"

definition walkaddr :: "'w vext \<Rightarrow> addr64 \<Rightarrow> u64 \<Rightarrow> 'w vm \<Rightarrow> u64 outcome" where
  "walkaddr E pt va s =
     (if va \<ge> MAXVA E then Ret 0
      else obind (walk E pt va False s) (\<lambda>(pte, s).
           if pte = 0 then Ret 0
           else
             let e = read64 (mem s) pte in
             if e AND PTE_V E = 0 then Ret 0
             else if e AND PTE_U E = 0 then Ret 0
             else Ret (PTE2PA E e)))"

section \<open>Adding and removing mappings\<close>

text \<open>The loop of \<open>mappages\<close>; the result is the \<open>int\<close> the function returns.\<close>

fun mappages_loop ::
    "nat \<Rightarrow> 'w vext \<Rightarrow> addr64 \<Rightarrow> u64 \<Rightarrow> u64 \<Rightarrow> u64 \<Rightarrow> i32 \<Rightarrow> 'w vm \<Rightarrow> (i32 \<times> 'w vm) outcome" where
  "mappages_loop 0 E pt a lst pa perm s = NoFuel"
| "mappages_loop (Suc fuel) E pt a lst pa perm s =
     obind (walk E pt a True s) (\<lambda>(pte, s).
     if pte = 0 then Ret (- 1, s)
     else if read64 (mem s) pte AND PTE_V E \<noteq> 0 then Panic ''mappages: remap''
     else
       let s = on_mem (write64 pte (PA2PTE E pa OR scast perm OR PTE_V E)) s in
       if a = lst then Ret (0, s)
       else mappages_loop fuel E pt (a + PGSIZE E) lst (pa + PGSIZE E) perm s)"

definition mappages ::
    "nat \<Rightarrow> 'w vext \<Rightarrow> addr64 \<Rightarrow> u64 \<Rightarrow> u64 \<Rightarrow> u64 \<Rightarrow> i32 \<Rightarrow> 'w vm \<Rightarrow> (i32 \<times> 'w vm) outcome" where
  "mappages fuel E pt va sz pa perm s =
     (if sz = 0 then Panic ''mappages: size''
      else mappages_loop fuel E pt (PGROUNDDOWN E va) (PGROUNDDOWN E (va + sz - 1)) pa perm s)"

definition kvmmap ::
    "nat \<Rightarrow> 'w vext \<Rightarrow> addr64 \<Rightarrow> u64 \<Rightarrow> u64 \<Rightarrow> u64 \<Rightarrow> i32 \<Rightarrow> 'w vm \<Rightarrow> 'w vm outcome" where
  "kvmmap fuel E pt va pa sz perm s =
     obind (mappages fuel E pt va sz pa perm s) (\<lambda>(r, s).
     if r \<noteq> 0 then Panic ''kvmmap'' else Ret s)"

fun uvmunmap_loop ::
    "nat \<Rightarrow> 'w vext \<Rightarrow> addr64 \<Rightarrow> u64 \<Rightarrow> u64 \<Rightarrow> bool \<Rightarrow> 'w vm \<Rightarrow> 'w vm outcome" where
  "uvmunmap_loop 0 E pt a lim do_free s = NoFuel"
| "uvmunmap_loop (Suc fuel) E pt a lim do_free s =
     (if \<not> a < lim then Ret s
      else
        obind (walk E pt a False s) (\<lambda>(pte, s).
        if pte = 0 then Panic ''uvmunmap: walk''
        else
          let e = read64 (mem s) pte in
          if e AND PTE_V E = 0 then Panic ''uvmunmap: not mapped''
          else if PTE_FLAGS E e = PTE_V E then Panic ''uvmunmap: not a leaf''
          else
            obind (if do_free then kfree E (PTE2PA E e) s else Ret s) (\<lambda>s.
            uvmunmap_loop fuel E pt (a + PGSIZE E) lim do_free (on_mem (write64 pte 0) s))))"

definition uvmunmap ::
    "nat \<Rightarrow> 'w vext \<Rightarrow> addr64 \<Rightarrow> u64 \<Rightarrow> u64 \<Rightarrow> bool \<Rightarrow> 'w vm \<Rightarrow> 'w vm outcome" where
  "uvmunmap fuel E pt va npages do_free s =
     (if va mod PGSIZE E \<noteq> 0 then Panic ''uvmunmap: not aligned''
      else uvmunmap_loop fuel E pt va (va + npages * PGSIZE E) do_free s)"

section \<open>User address spaces\<close>

definition uvmcreate :: "'w vext \<Rightarrow> 'w vm \<Rightarrow> addr64 \<times> 'w vm" where
  "uvmcreate E s =
     (case kalloc E s of (pt, s) \<Rightarrow>
        if pt = 0 then (0, s) else (pt, on_mem (memset pt 0 (PGSIZE E)) s))"

text \<open>The permission argument of \<open>mappages\<close> is an \<open>int\<close>.\<close>

abbreviation perm_int :: "u64 \<Rightarrow> i32" where
  "perm_int p \<equiv> ucast p"

definition uvmfirst ::
    "nat \<Rightarrow> 'w vext \<Rightarrow> addr64 \<Rightarrow> addr64 \<Rightarrow> u32 \<Rightarrow> 'w vm \<Rightarrow> 'w vm outcome" where
  "uvmfirst fuel E pt src sz s =
     (if ucast sz \<ge> PGSIZE E then Panic ''uvmfirst: more than a page''
      else case kalloc E s of (p, s) \<Rightarrow>
        if p = 0 then Undef ''null page''
        else
          let s = on_mem (memset p 0 (PGSIZE E)) s in
          obind (mappages fuel E pt 0 (PGSIZE E) p
                   (perm_int (PTE_W E OR PTE_R E OR PTE_X E OR PTE_U E)) s) (\<lambda>(_, s).
          Ret (on_mem (memmove p src (ucast sz)) s)))"

definition uvmdealloc ::
    "nat \<Rightarrow> 'w vext \<Rightarrow> addr64 \<Rightarrow> u64 \<Rightarrow> u64 \<Rightarrow> 'w vm \<Rightarrow> (u64 \<times> 'w vm) outcome" where
  "uvmdealloc fuel E pt oldsz newsz s =
     (if newsz \<ge> oldsz then Ret (oldsz, s)
      else if PGROUNDUP E newsz < PGROUNDUP E oldsz then
        let npages = ucast ((PGROUNDUP E oldsz - PGROUNDUP E newsz) div PGSIZE E) :: i32 in
        obind (uvmunmap fuel E pt (PGROUNDUP E newsz) (scast npages) True s) (\<lambda>s.
        Ret (newsz, s))
      else Ret (newsz, s))"

fun uvmalloc_loop ::
    "nat \<Rightarrow> 'w vext \<Rightarrow> addr64 \<Rightarrow> u64 \<Rightarrow> u64 \<Rightarrow> u64 \<Rightarrow> i32 \<Rightarrow> 'w vm \<Rightarrow> (u64 \<times> 'w vm) outcome" where
  "uvmalloc_loop 0 E pt a oldsz newsz xperm s = NoFuel"
| "uvmalloc_loop (Suc fuel) E pt a oldsz newsz xperm s =
     (if \<not> a < newsz then Ret (newsz, s)
      else case kalloc E s of (p, s) \<Rightarrow>
        if p = 0 then obind (uvmdealloc fuel E pt a oldsz s) (\<lambda>(_, s). Ret (0, s))
        else
          let s = on_mem (memset p 0 (PGSIZE E)) s in
          obind (mappages fuel E pt a (PGSIZE E) p (perm_int (PTE_R E OR PTE_U E) OR xperm) s) (\<lambda>(r, s).
          if r \<noteq> 0 then
            obind (kfree E p s) (\<lambda>s.
            obind (uvmdealloc fuel E pt a oldsz s) (\<lambda>(_, s). Ret (0, s)))
          else uvmalloc_loop fuel E pt (a + PGSIZE E) oldsz newsz xperm s))"

definition uvmalloc ::
    "nat \<Rightarrow> 'w vext \<Rightarrow> addr64 \<Rightarrow> u64 \<Rightarrow> u64 \<Rightarrow> i32 \<Rightarrow> 'w vm \<Rightarrow> (u64 \<times> 'w vm) outcome" where
  "uvmalloc fuel E pt oldsz newsz xperm s =
     (if newsz < oldsz then Ret (oldsz, s)
      else uvmalloc_loop fuel E pt (PGROUNDUP E oldsz) (PGROUNDUP E oldsz) newsz xperm s)"

text \<open>
  Freeing the page-table pages. The depth of the recursion takes fuel: nothing in the code
  bounds it on a table that is not a tree.
\<close>

fun freewalk :: "nat \<Rightarrow> 'w vext \<Rightarrow> addr64 \<Rightarrow> 'w vm \<Rightarrow> 'w vm outcome"
  and freewalk_entries :: "nat \<Rightarrow> 'w vext \<Rightarrow> addr64 \<Rightarrow> nat list \<Rightarrow> 'w vm \<Rightarrow> 'w vm outcome" where
  "freewalk 0 E pt s = NoFuel"
| "freewalk (Suc fuel) E pt s =
     obind (freewalk_entries fuel E pt [0..<512] s) (\<lambda>s. kfree E pt s)"
| "freewalk_entries fuel E pt [] s = Ret s"
| "freewalk_entries fuel E pt (i # is) s =
     (let e = read64 (mem s) (pt + 8 * of_nat i) in
      if e AND PTE_V E \<noteq> 0 \<and> e AND (PTE_R E OR PTE_W E OR PTE_X E) = 0 then
        obind (freewalk fuel E (PTE2PA E e) s) (\<lambda>s.
        freewalk_entries fuel E pt is (on_mem (write64 (pt + 8 * of_nat i) 0) s))
      else if e AND PTE_V E \<noteq> 0 then Panic ''freewalk: leaf''
      else freewalk_entries fuel E pt is s)"

definition uvmfree :: "nat \<Rightarrow> 'w vext \<Rightarrow> addr64 \<Rightarrow> u64 \<Rightarrow> 'w vm \<Rightarrow> 'w vm outcome" where
  "uvmfree fuel E pt sz s =
     obind (if sz > 0 then uvmunmap fuel E pt 0 (PGROUNDUP E sz div PGSIZE E) True s else Ret s) (\<lambda>s.
     freewalk fuel E pt s)"

text \<open>
  \<open>vmprint\<close> returns what it prints: the header line of the top level and, per valid entry, the
  level, index, entry and address. \<open>point[level-1]\<close> is an array of three strings.
\<close>

datatype vmline =
    TableLine addr64
  | EntryLine nat nat u64 u64

function vmprint :: "'w vext \<Rightarrow> addr64 \<Rightarrow> nat \<Rightarrow> bytes \<Rightarrow> vmline list outcome"
  and vmprint_entries :: "'w vext \<Rightarrow> addr64 \<Rightarrow> nat \<Rightarrow> nat list \<Rightarrow> bytes \<Rightarrow> vmline list outcome" where
  "vmprint E pt level m =
     obind (vmprint_entries E pt level [0..<512] m) (\<lambda>ls.
     Ret ((if level = 1 then [TableLine pt] else []) @ ls))"
| "vmprint_entries E pt level [] m = Ret []"
| "vmprint_entries E pt level (i # is) m =
     (let e = read64 m (pt + 8 * of_nat i) in
      if e AND PTE_V E \<noteq> 0 then
        let child = PTE2PA E e in
        if level < 1 \<or> 3 < level then Undef ''point''
        else
          obind (if level \<noteq> 3 then vmprint E child (level + 1) m else Ret []) (\<lambda>sub.
          obind (vmprint_entries E pt level is m) (\<lambda>rest.
          Ret (EntryLine level i e child # sub @ rest)))
      else vmprint_entries E pt level is m)"
  by pat_completeness auto

termination
  by (relation "inv_image (less_than <*lex*> less_than)
       (\<lambda>x. case x of Inl (E, pt, level, m) \<Rightarrow> (4 - level, 600)
                     | Inr (E, pt, level, is, m) \<Rightarrow> (4 - level, length is))") auto

fun uvmcopy_loop ::
    "nat \<Rightarrow> 'w vext \<Rightarrow> addr64 \<Rightarrow> addr64 \<Rightarrow> u64 \<Rightarrow> u64 \<Rightarrow> 'w vm \<Rightarrow> (i32 \<times> 'w vm) outcome" where
  "uvmcopy_loop 0 E old new i sz s = NoFuel"
| "uvmcopy_loop (Suc fuel) E old new i sz s =
     (let err = (\<lambda>s. obind (uvmunmap fuel E new 0 (i div PGSIZE E) True s) (\<lambda>s. Ret (- 1, s))) in
      if \<not> i < sz then Ret (0, s)
      else
        obind (walk E old i False s) (\<lambda>(pte, s).
        if pte = 0 then Panic ''uvmcopy: pte should exist''
        else
          let e = read64 (mem s) pte in
          if e AND PTE_V E = 0 then Panic ''uvmcopy: page not present''
          else
            case kalloc E s of (p, s) \<Rightarrow>
              if p = 0 then err s
              else
                let s = on_mem (memmove p (PTE2PA E e) (PGSIZE E)) s in
                obind (mappages fuel E new i (PGSIZE E) p (perm_int (PTE_FLAGS E e)) s) (\<lambda>(r, s).
                if r \<noteq> 0 then obind (kfree E p s) err
                else uvmcopy_loop fuel E old new (i + PGSIZE E) sz s)))"

definition uvmcopy ::
    "nat \<Rightarrow> 'w vext \<Rightarrow> addr64 \<Rightarrow> addr64 \<Rightarrow> u64 \<Rightarrow> 'w vm \<Rightarrow> (i32 \<times> 'w vm) outcome" where
  "uvmcopy fuel E old new sz s = uvmcopy_loop fuel E old new 0 sz s"

definition uvmclear :: "'w vext \<Rightarrow> addr64 \<Rightarrow> u64 \<Rightarrow> 'w vm \<Rightarrow> 'w vm outcome" where
  "uvmclear E pt va s =
     obind (walk E pt va False s) (\<lambda>(pte, s).
     if pte = 0 then Panic ''uvmclear''
     else Ret (on_mem (write64 pte (read64 (mem s) pte AND NOT (PTE_U E))) s))"

section \<open>Copying between kernel and user\<close>

fun copyout ::
    "nat \<Rightarrow> 'w vext \<Rightarrow> addr64 \<Rightarrow> u64 \<Rightarrow> addr64 \<Rightarrow> u64 \<Rightarrow> 'w vm \<Rightarrow> (i32 \<times> 'w vm) outcome" where
  "copyout 0 E pt dstva src len s = NoFuel"
| "copyout (Suc fuel) E pt dstva src len s =
     (if \<not> len > 0 then Ret (0, s)
      else
        let va0 = PGROUNDDOWN E dstva in
        obind (walkaddr E pt va0 s) (\<lambda>pa0.
        if pa0 = 0 then Ret (- 1, s)
        else
          let n = PGSIZE E - (dstva - va0);
              n = (if n > len then len else n);
              s = on_mem (memmove (pa0 + (dstva - va0)) src n) s
          in copyout fuel E pt (va0 + PGSIZE E) (src + n) (len - n) s))"

fun copyin ::
    "nat \<Rightarrow> 'w vext \<Rightarrow> addr64 \<Rightarrow> addr64 \<Rightarrow> u64 \<Rightarrow> u64 \<Rightarrow> 'w vm \<Rightarrow> (i32 \<times> 'w vm) outcome" where
  "copyin 0 E pt dst srcva len s = NoFuel"
| "copyin (Suc fuel) E pt dst srcva len s =
     (if \<not> len > 0 then Ret (0, s)
      else
        let va0 = PGROUNDDOWN E srcva in
        obind (walkaddr E pt va0 s) (\<lambda>pa0.
        if pa0 = 0 then Ret (- 1, s)
        else
          let n = PGSIZE E - (srcva - va0);
              n = (if n > len then len else n);
              s = on_mem (memmove dst (pa0 + (srcva - va0)) n) s
          in copyin fuel E pt (dst + n) (va0 + PGSIZE E) (len - n) s))"

text \<open>
  The inner loop of \<open>copyinstr\<close> over at most \<open>n\<close> bytes of a page: whether the end of the
  string was copied, what is left of \<open>max\<close>, and the next destination.
\<close>

fun copystr_page :: "nat \<Rightarrow> addr64 \<Rightarrow> addr64 \<Rightarrow> u64 \<Rightarrow> bytes \<Rightarrow> bool \<times> u64 \<times> addr64 \<times> bytes" where
  "copystr_page 0 p dst mx m = (False, mx, dst, m)"
| "copystr_page (Suc n) p dst mx m =
     (if m p = 0 then (True, mx, dst, m(dst := 0))
      else copystr_page n (p + 1) (dst + 1) (mx - 1) (m(dst := m p)))"

fun copyinstr ::
    "nat \<Rightarrow> 'w vext \<Rightarrow> addr64 \<Rightarrow> addr64 \<Rightarrow> u64 \<Rightarrow> u64 \<Rightarrow> 'w vm \<Rightarrow> (i32 \<times> 'w vm) outcome" where
  "copyinstr 0 E pt dst srcva mx s = NoFuel"
| "copyinstr (Suc fuel) E pt dst srcva mx s =
     (if \<not> mx > 0 then Ret (- 1, s)
      else
        let va0 = PGROUNDDOWN E srcva in
        obind (walkaddr E pt va0 s) (\<lambda>pa0.
        if pa0 = 0 then Ret (- 1, s)
        else
          let n = PGSIZE E - (srcva - va0);
              n = (if n > mx then mx else n)
          in case copystr_page (unat n) (pa0 + (srcva - va0)) dst mx (mem s) of
               (got_null, mx, dst, m) \<Rightarrow>
                 let s = s\<lparr>mem := m\<rparr> in
                 if got_null then Ret (0, s)
                 else copyinstr fuel E pt dst (va0 + PGSIZE E) mx s))"

section \<open>The kernel's own page table\<close>

fun proc_mapstacks :: "nat \<Rightarrow> 'w vext \<Rightarrow> addr64 \<Rightarrow> nat list \<Rightarrow> 'w vm \<Rightarrow> 'w vm outcome" where
  "proc_mapstacks fuel E pt [] s = Ret s"
| "proc_mapstacks fuel E pt (i # is) s =
     (case kalloc E s of (pa, s) \<Rightarrow>
        if pa = 0 then Panic ''kalloc''
        else obind (kvmmap fuel E pt (KSTACK E i) pa (PGSIZE E) (perm_int (PTE_R E OR PTE_W E)) s)
               (\<lambda>s. proc_mapstacks fuel E pt is s))"

definition kvmmake :: "nat \<Rightarrow> 'w vext \<Rightarrow> 'w vm \<Rightarrow> (addr64 \<times> 'w vm) outcome" where
  "kvmmake fuel E s =
     (case kalloc E s of (pt, s) \<Rightarrow>
        if pt = 0 then Undef ''null page''
        else
          let s = on_mem (memset pt 0 (PGSIZE E)) s;
              rw = perm_int (PTE_R E OR PTE_W E);
              rx = perm_int (PTE_R E OR PTE_X E)
          in obind (kvmmap fuel E pt (UART0 E) (UART0 E) (PGSIZE E) rw s) (\<lambda>s.
             obind (kvmmap fuel E pt (VIRTIO0 E) (VIRTIO0 E) (PGSIZE E) rw s) (\<lambda>s.
             obind (kvmmap fuel E pt (PLIC E) (PLIC E) 0x400000 rw s) (\<lambda>s.
             obind (kvmmap fuel E pt (KERNBASE E) (KERNBASE E) (etext E - KERNBASE E) rx s) (\<lambda>s.
             obind (kvmmap fuel E pt (etext E) (etext E) (PHYSTOP E - etext E) rw s) (\<lambda>s.
             obind (kvmmap fuel E pt (TRAMPOLINE E) (trampoline E) (PGSIZE E) rx s) (\<lambda>s.
             obind (proc_mapstacks fuel E pt [0..<n_proc E] s) (\<lambda>s.
             Ret (pt, s)))))))))"

definition kvminit :: "nat \<Rightarrow> 'w vext \<Rightarrow> 'w vm \<Rightarrow> 'w vm outcome" where
  "kvminit fuel E s = obind (kvmmake fuel E s) (\<lambda>(pt, s). Ret (s\<lparr>kernel_pagetable := pt\<rparr>))"

definition kvminithart :: "'w vext \<Rightarrow> 'w vm \<Rightarrow> 'w vm" where
  "kvminithart E s =
     sfence_vma E (w_satp E (MAKE_SATP E (kernel_pagetable s)) (sfence_vma E s))"

end
