(* ===== verification/Vm_Mem.thy ===== *)
theory Vm_Mem
  imports Vm
begin

text \<open>
  Memory as pages: page \<open>k\<close> is the 4096 bytes from \<open>adr k 0\<close>, and \<open>pg x\<close> is the page an
  address lies in. Reading and writing page-table entries in such pages, and the byte
  routines, described by page and offset.
\<close>

section \<open>Pages and offsets\<close>

definition adr :: "nat \<Rightarrow> nat \<Rightarrow> addr64" where
  "adr k off = of_nat (4096 * k + off)"

definition pg :: "addr64 \<Rightarrow> nat" where
  "pg x = unat x div 4096"

text \<open>Page numbers that fit the 44 bits of a page-table entry, the null page left out.\<close>

definition frame :: "nat \<Rightarrow> bool" where
  "frame k \<longleftrightarrow> 0 < k \<and> k < 2 ^ 44"

lemma unat_adr: "frame k \<Longrightarrow> off < 2 ^ 20 \<Longrightarrow> unat (adr k off) = 4096 * k + off"
  by (simp add: adr_def frame_def unat_of_nat del: of_nat_add of_nat_mult)

lemma pg_adr: "frame k \<Longrightarrow> off < 4096 \<Longrightarrow> pg (adr k off) = k"
  by (simp add: pg_def unat_adr)

lemma adr_inj:
  "frame k \<Longrightarrow> frame l \<Longrightarrow> o1 < 4096 \<Longrightarrow> o2 < 4096 \<Longrightarrow> adr k o1 = adr l o2 \<longleftrightarrow> k = l \<and> o1 = o2"
proof
  assume f: "frame k" "frame l" "o1 < 4096" "o2 < 4096" and eq: "adr k o1 = adr l o2"
  then have "k = l" using pg_adr [of k o1] pg_adr [of l o2] by simp
  moreover have "4096 * k + o1 = 4096 * l + o2"
    using f eq unat_adr [of k o1] unat_adr [of l o2] by simp
  ultimately show "k = l \<and> o1 = o2" by simp
qed simp

lemma adr_add: "adr k off + of_nat d = adr k (off + d)"
  by (simp add: adr_def)

lemma adr_add_word: "adr k off + d = adr k (off + unat d)"
  using adr_add [of k off "unat d"] by simp

lemma adr_nonzero: "frame k \<Longrightarrow> off < 2 ^ 20 \<Longrightarrow> adr k off \<noteq> 0"
  using unat_adr [of k off] by (auto simp: frame_def)

lemma adr_diff:
  assumes "frame k" and "off < 2 ^ 20" and "off \<le> off'" and "off' < 2 ^ 20"
  shows "unat (adr k off' - adr k off) = off' - off"
proof -
  have "adr k off' = adr k off + of_nat (off' - off)"
    using assms(3) by (simp only: adr_add le_add_diff_inverse)
  then have "adr k off' - adr k off = of_nat (off' - off)" by simp
  then show ?thesis using assms(4) by (simp add: unat_of_nat del: of_nat_diff)
qed

text \<open>Every address is its page and offset.\<close>

lemma adr_pg: "adr (pg x) (unat x mod 4096) = x"
  by (simp add: adr_def pg_def mult.commute)

text \<open>The distance from the start of a run of bytes, when the run stays in its page.\<close>

lemma in_run:
  assumes k: "frame k" and n: "off + n \<le> 4096" and d: "unat (x - adr k off) < n"
  shows "pg x = k" and "x = adr k (off + unat (x - adr k off))"
proof -
  show x: "x = adr k (off + unat (x - adr k off))"
    using adr_add_word [of k off "x - adr k off"] by simp
  from n d have "off + unat (x - adr k off) < 4096" by simp
  with k pg_adr x show "pg x = k" by metis
qed

section \<open>Entries\<close>

lemma bit_byte: "bit (w :: u8) j \<Longrightarrow> j < 8"
  using bit_imp_le_length [of w j] by simp

lemma bit_byte_at:
  assumes "r < 8" and "c < 8"
  shows "bit (push_bit (8 * j) (ucast (b :: u8) :: u64)) (8 * c + r) \<longleftrightarrow> j = c \<and> bit b r"
proof (cases "j = c")
  case True
  with assms show ?thesis by (simp add: bit_simps)
next
  case False
  have "\<not> bit b (8 * c + r - 8 * j)" if "8 * j \<le> 8 * c + r"
    using that False assms(1) by (auto dest!: bit_byte)
  with False show ?thesis by (auto simp: bit_simps)
qed

lemma read64_alt:
  "read64 m a =
     push_bit (8 * 0) (ucast (m (a + of_nat 0))) OR push_bit (8 * 1) (ucast (m (a + of_nat 1))) OR
     push_bit (8 * 2) (ucast (m (a + of_nat 2))) OR push_bit (8 * 3) (ucast (m (a + of_nat 3))) OR
     push_bit (8 * 4) (ucast (m (a + of_nat 4))) OR push_bit (8 * 5) (ucast (m (a + of_nat 5))) OR
     push_bit (8 * 6) (ucast (m (a + of_nat 6))) OR push_bit (8 * 7) (ucast (m (a + of_nat 7)))"
  by (simp add: read64_def)

lemma bit_read64:
  "bit (read64 m a) n \<longleftrightarrow> n < 64 \<and> bit (m (a + of_nat (n div 8))) (n mod 8)"
proof (cases "n < 64")
  case True
  define c r where "c = n div 8" and "r = n mod 8"
  then have n: "n = 8 * c + r" "r < 8" by simp_all
  with True have c: "c < 8" by simp
  have "bit (read64 m a) (8 * c + r) \<longleftrightarrow> (\<exists>j \<in> {0, 1, 2, 3, 4, 5, 6, 7}. j = c \<and> bit (m (a + of_nat j)) r)"
    unfolding read64_alt bit_or_iff bit_byte_at [OF n(2) c] by blast
  also have "\<dots> \<longleftrightarrow> bit (m (a + of_nat c)) r" using c by auto
  finally show ?thesis using True by (simp add: c_def r_def)
next
  case False
  then show ?thesis using bit_imp_le_length [of "read64 m a" n] by auto
qed

text \<open>What is written is read back, and nothing else is disturbed.\<close>

lemma read64_write64: "read64 (write64 a v m) a = v"
proof (rule bit_eqI)
  fix n assume "possible_bit TYPE(u64) n"
  then have n: "n < 64" by simp
  then have "unat (of_nat (n div 8) :: u64) = n div 8" "n div 8 < 8" by (simp_all add: unat_of_nat)
  with n show "bit (read64 (write64 a v m) a) n = bit v n"
    by (simp add: bit_read64 write64_def bit_simps)
qed

lemma read64_cong: "(\<And>i. i < 8 \<Longrightarrow> m' (a + of_nat i) = m (a + of_nat i)) \<Longrightarrow> read64 m' a = read64 m a"
  by (rule bit_eqI) (simp add: bit_read64)

text \<open>The address of entry \<open>i\<close> of the table in page \<open>k\<close>.\<close>

abbreviation entry :: "nat \<Rightarrow> nat \<Rightarrow> addr64" where
  "entry k i \<equiv> adr k (8 * i)"

lemma entry_bytes:
  assumes "frame k" and "i < 512" and "j < 8"
  shows "entry k i + of_nat j = adr k (8 * i + j)" and "8 * i + j < 4096" and "pg (entry k i + of_nat j) = k"
  using assms by (simp_all add: adr_add pg_adr)

lemma read64_write64_other:
  assumes "frame k" "i < 512" "frame l" "j < 512" and "k \<noteq> l \<or> i \<noteq> j"
  shows "read64 (write64 (entry k i) v m) (entry l j) = read64 m (entry l j)"
proof (rule read64_cong)
  fix b :: nat assume b: "b < 8"
  have "\<not> unat (entry l j + of_nat b - entry k i) < 8"
  proof
    assume "unat (entry l j + of_nat b - entry k i) < 8"
    moreover define c where "c = unat (entry l j + of_nat b - entry k i)"
    ultimately have d: "c < 8" by simp
    have "entry l j + of_nat b = adr k (8 * i + c)"
      using in_run(2) [of k "8 * i" 8 "entry l j + of_nat b"] assms(1,2) d c_def by simp
    then have "adr l (8 * j + b) = adr k (8 * i + c)"
      using entry_bytes(1) [OF assms(3,4) b] by simp
    then have "l = k \<and> 8 * j + b = 8 * i + c"
      using adr_inj [OF assms(3,1), of "8 * j + b" "8 * i + c"] assms b d by simp
    with assms(5) b d show False by presburger
  qed
  then show "write64 (entry k i) v m (entry l j + of_nat b) = m (entry l j + of_nat b)"
    by (simp add: write64_def)
qed

lemma write64_outside:
  assumes "frame k" "i < 512" and "pg x \<noteq> k"
  shows "write64 (entry k i) v m x = m x"
  using in_run(1) [of k "8 * i" 8 x] assms by (auto simp: write64_def)

lemma read64_outside:
  assumes "frame k" "i < 512" and "\<And>x. pg x = k \<Longrightarrow> m' x = m x"
  shows "read64 m' (entry k i) = read64 m (entry k i)"
  using assms entry_bytes(3) by (intro read64_cong) simp

section \<open>Byte routines on a page\<close>

lemma memset_page:
  assumes "frame k"
  shows "memset (adr k 0) c 4096 m x = (if pg x = k then c else m x)"
proof (cases "pg x = k")
  case True
  then have "x = adr k (unat x mod 4096)" using adr_pg [of x] by simp
  then have "unat (x - adr k 0) < 4096"
    using adr_diff [OF assms, of 0 "unat x mod 4096"] by simp
  with True show ?thesis by (simp add: memset_def word_less_nat_alt)
next
  case False
  then have "\<not> unat (x - adr k 0) < 4096" using in_run(1) [OF assms, of 0 4096 x] by auto
  with False show ?thesis by (simp add: memset_def word_less_nat_alt)
qed

lemma read64_zero: "(\<And>x. pg x = k \<Longrightarrow> m x = 0) \<Longrightarrow> frame k \<Longrightarrow> i < 512 \<Longrightarrow> read64 m (entry k i) = 0"
  using entry_bytes(3) by (intro bit_eqI) (simp add: bit_read64)

lemma memmove_run:
  assumes k: "frame k" and n: "off + n \<le> 4096"
  shows "memmove (adr k off) src (of_nat n) m x =
    (if \<exists>d < n. x = adr k (off + d) then m (src + (x - adr k off)) else m x)"
proof -
  have "unat (of_nat n :: u64) = n" using n by (simp add: unat_of_nat)
  then have "x - adr k off < of_nat n \<longleftrightarrow> unat (x - adr k off) < n"
    by (simp add: word_less_nat_alt)
  moreover have "unat (x - adr k off) < n \<longleftrightarrow> (\<exists>d < n. x = adr k (off + d))"
    using in_run(2) [OF k n, of x] adr_diff [OF k, of off] n by auto
  ultimately show ?thesis by (simp add: memmove_def)
qed

end
