(* ===== verification/Vm_Walk.thy ===== *)
theory Vm_Walk
  imports Vm_Mem
begin

text \<open>
  Page tables as trees. The locale \<open>sv39\<close> states the encoding of addresses and entries that
  \<open>vm.c\<close> gets from \<open>riscv.h\<close> and describes in its comment on \<open>walk\<close>; \<open>page_alloc\<close> adds
  what the code relies on from the page allocator. A tree \<open>T\<close> names the page of every
  page-table node; \<open>pt_ok\<close> says that memory holds it. The abstraction of a page table is the
  function \<open>pte\<close> from virtual addresses to leaf entries, and \<open>walk\<close> is described on it.
\<close>

section \<open>Addresses and entries\<close>

definition px :: "'w vext \<Rightarrow> nat \<Rightarrow> u64 \<Rightarrow> nat" where
  "px E l va = unat (PX E l va)"

text \<open>The entry that refers to page \<open>k\<close> with the flag bits \<open>f\<close>.\<close>

definition mkpte :: "'w vext \<Rightarrow> nat \<Rightarrow> u64 \<Rightarrow> u64" where
  "mkpte E k f = PA2PTE E (adr k 0) OR f OR PTE_V E"

lemma adr_shift: "adr k 0 = push_bit 12 (of_nat k)"
  by (simp add: adr_def push_bit_eq_mult)

lemma bit_frame:
  assumes "frame k" and "bit (of_nat k :: u64) n"
  shows "n < 44"
proof (rule ccontr)
  assume "\<not> n < 44"
  have "take_bit 44 k = k" using assms(1) by (simp add: frame_def take_bit_nat_eq_self)
  then have "take_bit 44 (of_nat k :: u64) = of_nat k" by (metis take_bit_of_nat)
  with assms(2) \<open>\<not> n < 44\<close> show False by (metis bit_take_bit_iff)
qed

lemma flags_high: "take_bit 10 (f :: u64) = f \<Longrightarrow> bit f n \<Longrightarrow> n < 10"
  by (metis bit_take_bit_iff)

lemma unat_drop: "unat (drop_bit n (w :: u64)) = unat w div 2 ^ n"
  by (subst unat_drop_bit_eq, rule drop_bit_eq_div)

lemma unat_take: "unat (take_bit n (w :: u64)) = unat w mod 2 ^ n"
  by (subst unsigned_take_bit_eq, rule take_bit_eq_mod)

locale sv39 =
  fixes E :: "'w vext"
  assumes PGSIZE_eq: "PGSIZE E = 4096"
    and PTE_V_eq: "PTE_V E = 1" and PTE_R_eq: "PTE_R E = 2" and PTE_W_eq: "PTE_W E = 4"
    and PTE_X_eq: "PTE_X E = 8" and PTE_U_eq: "PTE_U E = 16"
    and MAXVA_eq: "MAXVA E = 2 ^ 38"
    and PX_eq: "PX E l va = drop_bit (12 + 9 * l) va AND 511"
    and PTE2PA_eq: "PTE2PA E e = push_bit 12 (drop_bit 10 e)"
    and PA2PTE_eq: "PA2PTE E p = push_bit 10 (drop_bit 12 p)"
    and PTE_FLAGS_eq: "PTE_FLAGS E e = e AND 1023"
    and PGROUNDUP_eq: "PGROUNDUP E a = (a + 4095) AND NOT 4095"
    and PGROUNDDOWN_eq: "PGROUNDDOWN E a = a AND NOT 4095"
begin

lemma px_less: "px E l va < 512"
proof -
  have "PX E l va = take_bit 9 (drop_bit (12 + 9 * l) va)"
    by (simp add: PX_eq take_bit_eq_mask mask_eq_exp_minus_1)
  then have "px E l va = take_bit 9 (unat (drop_bit (12 + 9 * l) va))"
    by (simp add: px_def unsigned_take_bit_eq)
  then show ?thesis by (simp add: take_bit_eq_mod)
qed

lemma px_pg: "px E l va = pg va div 512 ^ l mod 512"
proof -
  have m: "(511 :: u64) = mask 9" by (simp add: mask_eq_exp_minus_1)
  have "px E l va = unat (take_bit 9 (drop_bit (12 + 9 * l) va))"
    by (simp add: px_def PX_eq m take_bit_eq_mask)
  also have "\<dots> = unat va div 2 ^ (12 + 9 * l) mod 2 ^ 9"
    by (simp only: unat_take unat_drop)
  also have "(2::nat) ^ (12 + 9 * l) = 4096 * 512 ^ l"
    by (simp add: power_add power_mult)
  finally show ?thesis by (simp add: pg_def div_mult2_eq)
qed

lemma px_top:
  assumes "va < MAXVA E"
  shows "px E 2 va < 256"
proof -
  have "unat va < 2 ^ 38" using assms by (simp add: MAXVA_eq word_less_nat_alt)
  then have "pg va div 512\<^sup>2 < 256" by (simp add: pg_def less_mult_imp_div_less)
  then show ?thesis by (simp add: px_pg)
qed

lemma entry_px: "frame k \<Longrightarrow> adr k 0 + 8 * PX E l va = entry k (px E l va)"
proof -
  have "unat (8 * PX E l va) = 8 * px E l va"
    using px_less [of l va] by (simp add: px_def unat_word_ariths)
  then show ?thesis by (simp add: adr_add_word)
qed

lemma bit_mkpte:
  assumes "frame k"
  shows "bit (mkpte E k f) n \<longleftrightarrow> n < 64 \<and> (10 \<le> n \<and> bit (of_nat k :: u64) (n - 10) \<or> bit f n \<or> n = 0)"
proof -
  have "drop_bit 12 (adr k 0) = of_nat k"
  proof (rule bit_eqI)
    fix j assume "possible_bit TYPE(u64) j"
    with bit_frame [OF assms, of j] show "bit (drop_bit 12 (adr k 0)) j = bit (of_nat k :: u64) j"
      by (auto simp: adr_shift bit_simps)
  qed
  then show ?thesis
    using bit_imp_le_length [of f n] by (auto simp: mkpte_def PA2PTE_eq PTE_V_eq bit_simps)
qed

lemma PTE2PA_mkpte:
  assumes k: "frame k" and f: "take_bit 10 f = f"
  shows "PTE2PA E (mkpte E k f) = adr k 0"
proof (rule bit_eqI)
  fix n assume "possible_bit TYPE(u64) n"
  then show "bit (PTE2PA E (mkpte E k f)) n = bit (adr k 0) n"
    using bit_frame [OF k, of "n - 12"] flags_high [OF f, of "n - 2"]
    by (auto simp: PTE2PA_eq adr_shift bit_mkpte [OF k] bit_simps)
qed

lemma mkpte_valid [simp]: "frame k \<Longrightarrow> mkpte E k f AND 1 \<noteq> 0"
  using bit_mkpte [of k f 0] by (auto simp: and_one_eq odd_iff_mod_2_eq_one bit_0)

lemma mkpte_flags:
  assumes k: "frame k" and f: "take_bit 10 f = f"
  shows "PTE_FLAGS E (mkpte E k f) = f OR 1"
proof (rule bit_eqI)
  have m: "(1023 :: u64) = mask 10" by (simp add: mask_eq_exp_minus_1)
  fix n assume "possible_bit TYPE(u64) n"
  then show "bit (PTE_FLAGS E (mkpte E k f)) n = bit (f OR 1) n"
    using flags_high [OF f, of n] by (auto simp: PTE_FLAGS_eq m bit_mkpte [OF k] bit_simps)
qed

end

section \<open>Page tables as trees\<close>

datatype node = N2 | N1 nat | N0 nat nat

type_synonym ptree = "node \<Rightarrow> nat option"

fun inner :: "node \<Rightarrow> bool" where
  "inner (N0 i j) = False"
| "inner _ = True"

fun child :: "node \<Rightarrow> nat \<Rightarrow> node" where
  "child N2 i = N1 i"
| "child (N1 i) j = N0 i j"
| "child (N0 i j) l = N0 i j"

lemma child_neq: "inner a \<Longrightarrow> child a j \<noteq> a"
  by (cases a) auto

definition tree_ok :: "ptree \<Rightarrow> bool" where
  "tree_ok T \<longleftrightarrow>
     (\<exists>k. T N2 = Some k) \<and> (\<forall>n k. T n = Some k \<longrightarrow> frame k) \<and>
     (\<forall>n n' k. T n = Some k \<longrightarrow> T n' = Some k \<longrightarrow> n = n') \<and>
     (\<forall>i k. T (N1 i) = Some k \<longrightarrow> i < 256) \<and>
     (\<forall>i j k. T (N0 i j) = Some k \<longrightarrow> j < 512 \<and> (\<exists>l. T (N1 i) = Some l))"

text \<open>Entry \<open>i\<close> of the table in page \<open>k\<close> refers to the next table, or is not valid.\<close>

definition slot_ok :: "'w vext \<Rightarrow> bytes \<Rightarrow> nat \<Rightarrow> nat \<Rightarrow> nat option \<Rightarrow> bool" where
  "slot_ok E m k i q \<longleftrightarrow>
     (case q of None \<Rightarrow> read64 m (entry k i) AND 1 = 0
      | Some c \<Rightarrow> read64 m (entry k i) = mkpte E c 0)"

definition pt_ok :: "'w vext \<Rightarrow> bytes \<Rightarrow> ptree \<Rightarrow> bool" where
  "pt_ok E m T \<longleftrightarrow> tree_ok T \<and>
     (\<forall>n k i. inner n \<longrightarrow> T n = Some k \<longrightarrow> i < 512 \<longrightarrow> slot_ok E m k i (T (child n i)))"

abbreviation root :: "ptree \<Rightarrow> addr64" where
  "root T \<equiv> adr (the (T N2)) 0"

text \<open>The leaf table for a virtual address, and the entry there; no table is no entry.\<close>

definition leaf :: "'w vext \<Rightarrow> ptree \<Rightarrow> u64 \<Rightarrow> nat option" where
  "leaf E T va = T (N0 (px E 2 va) (px E 1 va))"

definition pte :: "'w vext \<Rightarrow> bytes \<Rightarrow> ptree \<Rightarrow> u64 \<Rightarrow> u64" where
  "pte E m T va =
     (case leaf E T va of None \<Rightarrow> 0 | Some k \<Rightarrow> read64 m (entry k (px E 0 va)))"

lemma tree_okD:
  assumes "tree_ok T"
  shows "\<exists>k. T N2 = Some k" and "\<And>n k. T n = Some k \<Longrightarrow> frame k"
    and "\<And>n n' k. T n = Some k \<Longrightarrow> T n' = Some k \<Longrightarrow> n = n'"
    and "\<And>i k. T (N1 i) = Some k \<Longrightarrow> i < 256"
    and "\<And>i j k. T (N0 i j) = Some k \<Longrightarrow> j < 512 \<and> (\<exists>l. T (N1 i) = Some l)"
  using assms unfolding tree_ok_def by blast+

lemma pt_okD:
  assumes "pt_ok E m T"
  shows "tree_ok T" and "\<And>n k i. inner n \<Longrightarrow> T n = Some k \<Longrightarrow> i < 512 \<Longrightarrow> slot_ok E m k i (T (child n i))"
  using assms unfolding pt_ok_def by auto

text \<open>Only the pages of the tree matter.\<close>

lemma pt_ok_cong:
  assumes "\<And>x. pg x \<in> ran T \<Longrightarrow> m' x = m x" and "tree_ok T"
  shows "pt_ok E m' T = pt_ok E m T"
proof -
  have "read64 m' (entry k i) = read64 m (entry k i)" if "T n = Some k" "i < 512" for n k i
    using that assms(1) tree_okD(2) [OF assms(2)] by (intro read64_outside) (auto simp: ran_def)
  then show ?thesis unfolding pt_ok_def slot_ok_def by (auto split: option.splits)
qed

context sv39
begin

lemma pte_cong:
  assumes "\<And>x. pg x \<in> ran T \<Longrightarrow> m' x = m x" and "tree_ok T"
  shows "pte E m' T va = pte E m T va"
proof -
  have "read64 m' (entry k i) = read64 m (entry k i)" if "T n = Some k" "i < 512" for n k i
    using that assms(1) tree_okD(2) [OF assms(2)] by (intro read64_outside) (auto simp: ran_def)
  then show ?thesis using px_less by (auto simp: pte_def leaf_def split: option.splits)
qed

lemma take_bit_zero [simp]: "take_bit 10 (0::u64) = 0"
  by simp

text \<open>One step of the walk at an inner node.\<close>

lemma walk_step:
  assumes ok: "pt_ok E (mem s) T" and n: "inner n" "T n = Some k"
  shows "walk_loop E (Suc l) (adr k 0) va al s =
    (case T (child n (px E (Suc l) va)) of
       Some c \<Rightarrow> walk_loop E l (adr c 0) va al s
     | None \<Rightarrow>
         if \<not> al then (0, s)
         else case kalloc E s of (p, s) \<Rightarrow>
           if p = 0 then (0, s)
           else walk_loop E l p va al
                  (on_mem (write64 (entry k (px E (Suc l) va)) (PA2PTE E p OR 1))
                    (on_mem (memset p 0 4096) s)))"
proof -
  have k: "frame k" using tree_okD(2) [OF pt_okD(1) [OF ok] n(2)] .
  have slot: "slot_ok E (mem s) k (px E (Suc l) va) (T (child n (px E (Suc l) va)))"
    using pt_okD(2) [OF ok n px_less] .
  show ?thesis
  proof (cases "T (child n (px E (Suc l) va))")
    case None
    with slot show ?thesis by (simp add: slot_ok_def entry_px [OF k] PTE_V_eq PGSIZE_eq Let_def split: prod.splits)
  next
    case (Some c)
    have "frame c" using tree_okD(2) [OF pt_okD(1) [OF ok] Some] .
    with slot Some PTE2PA_mkpte [of c 0] show ?thesis
      by (simp add: slot_ok_def entry_px [OF k] PTE_V_eq Let_def)
  qed
qed

lemma walk_leaf: "frame k \<Longrightarrow> walk_loop E 0 (adr k 0) va al s = (entry k (px E 0 va), s)"
  by (simp add: entry_px)

text \<open>A walk that must not allocate: the address of the leaf entry, or null.\<close>

lemma walk_lookup:
  assumes ok: "pt_ok E (mem s) T" and va: "va < MAXVA E"
  shows "walk E (root T) va False s =
    Ret (case leaf E T va of None \<Rightarrow> 0 | Some k \<Rightarrow> entry k (px E 0 va), s)"
proof -
  note D = tree_okD [OF pt_okD(1) [OF ok]]
  from D(1) obtain k2 where k2: "T N2 = Some k2" by blast
  have "walk_loop E (Suc (Suc 0)) (adr k2 0) va False s =
      (case leaf E T va of None \<Rightarrow> 0 | Some k \<Rightarrow> entry k (px E 0 va), s)"
  proof (cases "T (N1 (px E 2 va))")
    case None
    moreover have "leaf E T va = None"
      using None D(5) [of "px E 2 va" "px E 1 va"] by (cases "leaf E T va") (auto simp: leaf_def)
    ultimately show ?thesis
      using walk_step [OF ok _ k2, of "Suc 0" va False] by (simp add: numeral_2_eq_2)
  next
    case (Some k1)
    then have one: "walk_loop E (Suc (Suc 0)) (adr k2 0) va False s = walk_loop E (Suc 0) (adr k1 0) va False s"
      using walk_step [OF ok _ k2, of "Suc 0" va False] by (simp add: numeral_2_eq_2)
    show ?thesis
      unfolding one
      using walk_step [OF ok _ Some, of 0 va False] walk_leaf D(2)
      by (auto simp: leaf_def split: option.splits)
  qed
  then show ?thesis
    using va k2 by (simp add: walk_def numeral_2_eq_2 not_le)
qed

text \<open>\<open>walkaddr\<close>: the page of a valid user mapping, 0 otherwise.\<close>

lemma walkaddr_eq:
  assumes ok: "pt_ok E (mem s) T"
  shows "walkaddr E (root T) va s =
    Ret (if va < MAXVA E \<and> pte E (mem s) T va AND 1 \<noteq> 0 \<and> pte E (mem s) T va AND 16 \<noteq> 0
         then PTE2PA E (pte E (mem s) T va) else 0)"
proof (cases "va < MAXVA E")
  case True
  have "entry k (px E 0 va) \<noteq> 0" if "leaf E T va = Some k" for k
    using tree_okD(2) [OF pt_okD(1) [OF ok]] that px_less [of 0 va]
    by (intro adr_nonzero) (auto simp: leaf_def)
  with True walk_lookup [OF ok True] show ?thesis
    by (auto simp: walkaddr_def pte_def PTE_V_eq PTE_U_eq Let_def split: option.splits)
next
  case False
  then show ?thesis by (auto simp: walkaddr_def not_less)
qed

end

section \<open>The page allocator\<close>

text \<open>
  \<open>free\<close> are the numbers of the free pages, \<open>ram\<close> those of the pages the allocator manages.
  A page is handed out when there is one; only free pages and the page given back are written;
  the free pages do not depend on the contents of the others.
\<close>

locale page_alloc = sv39 +
  fixes free :: "'w vm \<Rightarrow> nat set" and ram :: "nat set"
  assumes free_frame: "k \<in> ram \<Longrightarrow> frame k" and free_ram: "free s \<subseteq> ram"
    and kalloc_law:
      "free s \<noteq> {} \<Longrightarrow> \<exists>k s'. kalloc E s = (adr k 0, s') \<and> k \<in> free s \<and> free s' = free s - {k} \<and>
         kernel_pagetable s' = kernel_pagetable s \<and> (\<forall>x. pg x \<notin> free s \<longrightarrow> mem s' x = mem s x)"
    and kalloc_empty: "free s = {} \<Longrightarrow> kalloc E s = (0, s)"
    and kfree_law:
      "k \<in> ram \<Longrightarrow> k \<notin> free s \<Longrightarrow> \<exists>s'. kfree E (adr k 0) s = Ret s' \<and>
         free s' = insert k (free s) \<and> kernel_pagetable s' = kernel_pagetable s \<and>
         (\<forall>x. pg x \<notin> insert k (free s) \<longrightarrow> mem s' x = mem s x)"
    and free_other:
      "(\<And>x. pg x \<in> free s \<Longrightarrow> m x = mem s x) \<Longrightarrow> free (s\<lparr>mem := m\<rparr>) = free s"
begin

text \<open>Writing an entry of a page that is not free.\<close>

lemma free_write64:
  assumes "frame k" "i < 512" "k \<notin> free s"
  shows "free (on_mem (write64 (entry k i) v) s) = free s"
  using assms by (intro free_other write64_outside) auto

lemma free_memset: "frame k \<Longrightarrow> k \<notin> free s \<Longrightarrow> free (on_mem (memset (adr k 0) c 4096) s) = free s"
  by (intro free_other) (auto simp: memset_page)

end

text \<open>A tree whose pages belong to it: none of them is free.\<close>

definition owns :: "'w vext \<Rightarrow> ('w vm \<Rightarrow> nat set) \<Rightarrow> 'w vm \<Rightarrow> ptree \<Rightarrow> bool" where
  "owns E free s T \<longleftrightarrow> pt_ok E (mem s) T \<and> ran T \<inter> free s = {}"

text \<open>
  What a step that may add page-table pages leaves: the old tree is part of the new one, the
  new pages were free, and no page that was neither free nor in the tree was touched.
\<close>

definition extends :: "'w vext \<Rightarrow> ('w vm \<Rightarrow> nat set) \<Rightarrow> 'w vm \<Rightarrow> ptree \<Rightarrow> 'w vm \<Rightarrow> ptree \<Rightarrow> bool" where
  "extends E free s T s' T' \<longleftrightarrow>
     owns E free s' T' \<and> T \<subseteq>\<^sub>m T' \<and> free s' = free s - ran T' \<and> ran T' \<subseteq> ran T \<union> free s \<and>
     (\<forall>x. pg x \<notin> ran T \<union> free s \<longrightarrow> mem s' x = mem s x)"

text \<open>Moreover no leaf entry changed.\<close>

definition grown :: "'w vext \<Rightarrow> ('w vm \<Rightarrow> nat set) \<Rightarrow> 'w vm \<Rightarrow> ptree \<Rightarrow> 'w vm \<Rightarrow> ptree \<Rightarrow> bool" where
  "grown E free s T s' T' \<longleftrightarrow>
     extends E free s T s' T' \<and> (\<forall>va. pte E (mem s') T' va = pte E (mem s) T va)"

lemma map_le_ran: "T \<subseteq>\<^sub>m T' \<Longrightarrow> ran T \<subseteq> ran T'"
  by (force simp: ran_def map_le_def dom_def)

lemma extends_refl: "owns E free s T \<Longrightarrow> extends E free s T s T"
  by (auto simp: extends_def owns_def)

lemma extends_trans:
  assumes "extends E free s T s1 T1" and "extends E free s1 T1 s2 T2"
  shows "extends E free s T s2 T2"
proof -
  have a: "T \<subseteq>\<^sub>m T1" "free s1 = free s - ran T1" "ran T1 \<subseteq> ran T \<union> free s"
    and b: "T1 \<subseteq>\<^sub>m T2" "free s2 = free s1 - ran T2" "ran T2 \<subseteq> ran T1 \<union> free s1"
    using assms by (auto simp: extends_def)
  have r: "ran T1 \<subseteq> ran T2" by (rule map_le_ran [OF b(1)])
  have "free s2 = free s - ran T2" using a(2) b(2) r by auto
  moreover have "ran T2 \<subseteq> ran T \<union> free s" using a b by auto
  moreover have "T \<subseteq>\<^sub>m T2" using a(1) b(1) by (rule map_le_trans)
  moreover have "mem s2 x = mem s x" if "pg x \<notin> ran T \<union> free s" for x
  proof -
    have "pg x \<notin> ran T1 \<union> free s1" using that a by auto
    with that assms show ?thesis by (simp add: extends_def)
  qed
  ultimately show ?thesis using assms by (simp add: extends_def)
qed

lemma grown_refl: "owns E free s T \<Longrightarrow> grown E free s T s T"
  by (simp add: grown_def extends_refl)

lemma grown_trans:
  "grown E free s T s1 T1 \<Longrightarrow> grown E free s1 T1 s2 T2 \<Longrightarrow> grown E free s T s2 T2"
  by (auto simp: grown_def intro: extends_trans)

lemma owns_extends: "extends E free s T s' T' \<Longrightarrow> owns E free s' T'"
  by (simp add: extends_def)

lemma owns_grown: "grown E free s T s' T' \<Longrightarrow> owns E free s' T'"
  by (simp add: grown_def extends_def)

context page_alloc
begin

text \<open>Adding one zeroed table below an inner node.\<close>

lemma tree_ok_add:
  assumes T: "tree_ok T" and n: "inner n" "T n = Some k" and i: "i < 512" "n = N2 \<Longrightarrow> i < 256"
    and new: "T (child n i) = None" and q: "frame q" "q \<notin> ran T"
  shows "tree_ok (T(child n i \<mapsto> q))"
proof -
  note D = tree_okD [OF T]
  have c: "child n i \<noteq> N2" "child n i \<noteq> n" "\<And>j. child n i = N1 j \<Longrightarrow> j = i \<and> n = N2"
    "\<And>j l. child n i = N0 j l \<Longrightarrow> l = i \<and> n = N1 j"
    using n(1) by (cases n; auto)+
  have inj: "a = b" if "(T(child n i \<mapsto> q)) a = Some p" "(T(child n i \<mapsto> q)) b = Some p" for a b p
    using that q(2) D(3) [of a p b] by (auto simp: ran_def split: if_splits)
  show ?thesis
    unfolding tree_ok_def
  proof (intro conjI allI impI)
    show "\<exists>k. (T(child n i \<mapsto> q)) N2 = Some k" using D(1) c(1) by simp
    fix a b p j l
    show "frame p" if "(T(child n i \<mapsto> q)) a = Some p"
      using that q(1) D(2) by (auto split: if_splits)
    show "a = b" if "(T(child n i \<mapsto> q)) a = Some p" "(T(child n i \<mapsto> q)) b = Some p"
      using inj that .
    show "j < 256" if "(T(child n i \<mapsto> q)) (N1 j) = Some p"
      using that i D(4) [of j] c(3) [of j] by (auto split: if_splits)
    show "l < 512" if "(T(child n i \<mapsto> q)) (N0 j l) = Some p"
      using that i D(5) [of j l] c(4) [of j l] by (auto split: if_splits)
    show "\<exists>l. (T(child n i \<mapsto> q)) (N1 j) = Some l" if "(T(child n i \<mapsto> q)) (N0 j l) = Some p"
      using that D(5) [of j l] c(4) [of j l] n(2) by (auto split: if_splits)
  qed
qed

lemma add_table:
  assumes ow: "owns E free s T" and n: "inner n" "T n = Some k" and i: "i < 512" "n = N2 \<Longrightarrow> i < 256"
    and new: "T (child n i) = None"
    and al: "kalloc E s = (adr q 0, s1)" "q \<in> free s" "free s1 = free s - {q}"
      "\<forall>x. pg x \<notin> free s \<longrightarrow> mem s1 x = mem s x"
  shows "grown E free s T
           (on_mem (write64 (entry k i) (PA2PTE E (adr q 0) OR 1)) (on_mem (memset (adr q 0) 0 4096) s1))
           (T(child n i \<mapsto> q))"
proof -
  let ?T = "T(child n i \<mapsto> q)"
  let ?m1 = "memset (adr q 0) 0 4096 (mem s1)"
  let ?m2 = "write64 (entry k i) (PA2PTE E (adr q 0) OR 1) ?m1"
  let ?s2 = "on_mem (write64 (entry k i) (PA2PTE E (adr q 0) OR 1)) (on_mem (memset (adr q 0) 0 4096) s1)"
  have ok: "pt_ok E (mem s) T" and disj: "ran T \<inter> free s = {}" using ow by (auto simp: owns_def)
  note T = pt_okD(1) [OF ok]
  note D = tree_okD [OF T]
  have q: "frame q" "q \<notin> ran T" using al(2) free_ram free_frame disj by blast+
  have k: "frame k" "k \<in> ran T" using D(2) [OF n(2)] n(2) by (auto simp: ran_def)
  have kq: "k \<noteq> q" using k q by auto
  have T': "tree_ok ?T" by (rule tree_ok_add [OF T n i new q])
  have m2: "?m2 x = (if pg x = q then 0 else mem s1 x)" if "pg x \<noteq> k" for x
    using that by (simp add: write64_outside [OF k(1) i(1)] memset_page [OF q(1)])
  have keep: "read64 ?m2 (entry p j) = read64 (mem s) (entry p j)"
    if "T a = Some p" "j < 512" "p \<noteq> k \<or> j \<noteq> i" for a p j
  proof -
    have p: "frame p" "p \<notin> free s" "p \<noteq> q" using that(1) D(2) disj q(2) by (auto simp: ran_def)
    have "read64 ?m2 (entry p j) = read64 ?m1 (entry p j)"
      using that p k(1) i by (intro read64_write64_other) auto
    also have "\<dots> = read64 (mem s) (entry p j)"
      using p that(2) al(4) by (intro read64_outside) (auto simp: memset_page [OF q(1)])
    finally show ?thesis .
  qed
  have zero: "read64 ?m2 (entry q j) = 0" if "j < 512" for j
    using that q(1) kq m2 by (intro read64_zero [of q]) auto
  have link: "read64 ?m2 (entry k i) = mkpte E q 0"
    by (simp add: read64_write64 mkpte_def PTE_V_eq)
  have slots: "slot_ok E ?m2 p j (?T (child a j))" if a: "inner a" "?T a = Some p" "j < 512" for a p j
  proof (cases "a = child n i")
    case True
    then have "p = q" using a(2) by simp
    moreover have "T (child a j) = None"
    proof (cases "T (child a j)")
      case (Some l)
      with True a(1) new show ?thesis using D(5) [of i j] n(1) by (cases n) auto
    qed simp
    moreover have "child a j \<noteq> child n i" using True a(1) child_neq by auto
    ultimately show ?thesis using zero [OF a(3)] by (simp add: slot_ok_def)
  next
    case False
    then have Ta: "T a = Some p" using a(2) by simp
    show ?thesis
    proof (cases "a = n \<and> j = i")
      case True
      with Ta n(2) link show ?thesis by (simp add: slot_ok_def)
    next
      case no: False
      then have "p \<noteq> k \<or> j \<noteq> i" using D(3) [OF Ta] n(2) by auto
      moreover have "child a j \<noteq> child n i" using no a(1) n(1) by (cases a; cases n) auto
      ultimately show ?thesis
        using pt_okD(2) [OF ok a(1) Ta a(3)] keep [OF Ta a(3)]
        by (simp add: slot_ok_def split: option.splits)
    qed
  qed
  have pte: "pte E ?m2 ?T va = pte E (mem s) T va" for va
  proof (cases "leaf E T va")
    case (Some p)
    then have p: "T (N0 (px E 2 va) (px E 1 va)) = Some p" by (simp add: leaf_def)
    then have "child n i \<noteq> N0 (px E 2 va) (px E 1 va)" using new by auto
    then have "leaf E ?T va = Some p" using p by (simp add: leaf_def)
    moreover have "p \<noteq> k" using D(3) [OF p] n by (metis inner.simps(1))
    ultimately show ?thesis using keep [OF p px_less] Some by (simp add: pte_def)
  next
    case None
    then show ?thesis
      using zero px_less by (auto simp: pte_def leaf_def split: option.splits)
  qed
  have fr: "free ?s2 = free s - {q}"
  proof -
    have "free (on_mem (memset (adr q 0) 0 4096) s1) = free s1"
      using al(3) q(1) by (intro free_memset) auto
    moreover have "k \<notin> free s1" using al(3) k(2) disj by auto
    ultimately show ?thesis
      using free_write64 [OF k(1) i(1), of "on_mem (memset (adr q 0) 0 4096) s1"] al(3) by simp
  qed
  have rn: "ran ?T = insert q (ran T)" using new by (simp add: ran_map_upd)
  have le: "T \<subseteq>\<^sub>m ?T" using new by (auto simp: map_le_def)
  have frame': "?m2 x = mem s x" if "pg x \<notin> ran T \<union> free s" for x
  proof -
    have "pg x \<noteq> k" "pg x \<noteq> q" "pg x \<notin> free s" using that k(2) al(2) by auto
    with m2 al(4) show ?thesis by simp
  qed
  have "owns E free ?s2 ?T"
    unfolding owns_def pt_ok_def using T' slots fr rn disj by auto
  moreover have "free s - {q} = free s - insert q (ran T)" using disj by auto
  ultimately show ?thesis
    using le pte fr rn frame' al(2) by (auto simp: grown_def extends_def)
qed

end

context page_alloc
begin

lemma finite_free: "finite (free s)"
proof (rule finite_subset)
  show "free s \<subseteq> {..<2 ^ 44}" using free_ram free_frame by (force simp: frame_def)
qed simp

text \<open>One level of an allocating walk.\<close>

lemma walk_level:
  assumes ow: "owns E free s T" and n: "inner n" "T n = Some k" and top: "n = N2 \<Longrightarrow> px E (Suc l) va < 256"
  shows "(walk_loop E (Suc l) (adr k 0) va True s = (0, s) \<and> free s = {}) \<or>
     (\<exists>c s1 T1. walk_loop E (Suc l) (adr k 0) va True s = walk_loop E l (adr c 0) va True s1 \<and>
        T1 (child n (px E (Suc l) va)) = Some c \<and> grown E free s T s1 T1 \<and>
        card (free s) \<le> Suc (card (free s1)))"
proof -
  have ok: "pt_ok E (mem s) T" using ow by (simp add: owns_def)
  note step = walk_step [OF ok n, of l va True]
  show ?thesis
  proof (cases "T (child n (px E (Suc l) va))")
    case (Some c)
    with step grown_refl [OF ow] show ?thesis by (intro disjI2 exI [of _ c] exI [of _ s] exI [of _ T]) simp
  next
    case None
    show ?thesis
    proof (cases "free s = {}")
      case True
      with step None kalloc_empty [of s] show ?thesis by simp
    next
      case False
      from kalloc_law [OF this] obtain q s1 where al: "kalloc E s = (adr q 0, s1)" "q \<in> free s"
        "free s1 = free s - {q}" "\<forall>x. pg x \<notin> free s \<longrightarrow> mem s1 x = mem s x" by blast
      let ?s2 = "on_mem (write64 (entry k (px E (Suc l) va)) (PA2PTE E (adr q 0) OR 1))
                   (on_mem (memset (adr q 0) 0 4096) s1)"
      let ?T = "T(child n (px E (Suc l) va) \<mapsto> q)"
      have g: "grown E free s T ?s2 ?T" by (rule add_table [OF ow n px_less top None al])
      have q0: "adr q 0 \<noteq> 0" using al(2) free_ram free_frame by (intro adr_nonzero) auto
      have "free ?s2 = free s - {q}"
        using g al(2) ow by (auto simp: grown_def extends_def owns_def None ran_map_upd)
      then have "card (free s) \<le> Suc (card (free ?s2))"
        using al(2) finite_free [of s] by (simp add: card_Diff_singleton)
      with g step None al(1) q0 show ?thesis
        by (intro disjI2 exI [of _ q] exI [of _ ?s2] exI [of _ ?T]) simp
    qed
  qed
qed

lemma walk_alloc:
  assumes ow: "owns E free s T" and va: "va < MAXVA E"
  shows "\<exists>a s' T'. walk E (root T) va True s = Ret (a, s') \<and> grown E free s T s' T' \<and>
     (a = 0 \<or> (\<exists>k. leaf E T' va = Some k \<and> a = entry k (px E 0 va))) \<and>
     card (free s) \<le> card (free s') + 2 \<and> (2 \<le> card (free s) \<longrightarrow> a \<noteq> 0)"
proof -
  have ok: "pt_ok E (mem s) T" using ow by (simp add: owns_def)
  from tree_okD(1) [OF pt_okD(1) [OF ok]] obtain k2 where k2: "T N2 = Some k2" by blast
  let ?w = "walk_loop E (Suc (Suc 0)) (adr k2 0) va True s"
  have run: "walk E (root T) va True s = Ret ?w" using va k2 by (simp add: walk_def numeral_2_eq_2 not_le)
  from walk_level [OF ow _ k2, of "Suc 0" va] px_top [OF va] consider
      "?w = (0, s)" "free s = {}"
    | c s1 T1 where "?w = walk_loop E (Suc 0) (adr c 0) va True s1" "T1 (N1 (px E 2 va)) = Some c"
        "grown E free s T s1 T1" "card (free s) \<le> Suc (card (free s1))"
    by (auto simp: numeral_2_eq_2)
  then show ?thesis
  proof cases
    case 1
    with run grown_refl [OF ow] show ?thesis by auto
  next
    case 2
    let ?w1 = "walk_loop E (Suc 0) (adr c 0) va True s1"
    from walk_level [OF owns_grown [OF 2(3)] _ 2(2), of 0 va] consider
        "?w1 = (0, s1)" "free s1 = {}"
      | d s2 T2 where "?w1 = walk_loop E 0 (adr d 0) va True s2" "T2 (N0 (px E 2 va) (px E 1 va)) = Some d"
          "grown E free s1 T1 s2 T2" "card (free s1) \<le> Suc (card (free s2))"
      by (auto simp: numeral_2_eq_2)
    then show ?thesis
    proof cases
      case 1
      with run 2 show ?thesis by (intro exI [of _ 0] exI [of _ s1] exI [of _ T1]) simp
    next
      case 3: 2
      have fd: "frame d"
        using tree_okD(2) [OF pt_okD(1), of E "mem s2" T2] 3(2,3) by (auto simp: grown_def extends_def owns_def)
      have "?w = (entry d (px E 0 va), s2)" using 2(1) 3(1) walk_leaf [OF fd] by simp
      moreover have "entry d (px E 0 va) \<noteq> 0" using fd px_less [of 0 va] by (intro adr_nonzero) simp_all
      ultimately show ?thesis
        using run grown_trans [OF 2(3) 3(3)] 3(2,4) 2(4) by (auto simp: leaf_def)
    qed
  qed
qed

end

end
