(* ===== verification/Vm_Map.thy ===== *)
theory Vm_Map
  imports Vm_Walk
begin

text \<open>
  Adding and removing mappings, on the abstraction \<open>pte\<close>: a leaf entry is written for one
  virtual page, \<open>mappages\<close> does it for a range, \<open>uvmunmap\<close> clears a range. Virtual pages
  are numbered like physical ones: \<open>pg va\<close>.
\<close>

section \<open>Virtual page numbers\<close>

context sv39
begin

lemma pg_less: "va < MAXVA E \<Longrightarrow> pg va < 2 ^ 26"
  by (simp add: pg_def MAXVA_eq word_less_nat_alt less_mult_imp_div_less)

text \<open>Below \<open>MAXVA\<close> the three indices determine the page.\<close>

lemma px_inj:
  assumes "va < MAXVA E" "va' < MAXVA E"
    and "px E 2 va = px E 2 va'" "px E 1 va = px E 1 va'" "px E 0 va = px E 0 va'"
  shows "pg va = pg va'"
proof -
  have split: "n = n div 512\<^sup>2 mod 512 * 262144 + n div 512 mod 512 * 512 + n mod 512" if "n < 2 ^ 26" for n :: nat
  proof -
    have "n div 512\<^sup>2 < 512" using that by (simp add: less_mult_imp_div_less)
    then have "n div 512\<^sup>2 mod 512 = n div 512 div 512" by (simp add: power2_eq_square div_mult2_eq)
    moreover have "n = n div 512 * 512 + n mod 512"
      "n div 512 = n div 512 div 512 * 512 + n div 512 mod 512" by simp_all
    ultimately show ?thesis by linarith
  qed
  from assms(3-5) have "pg va div 512\<^sup>2 mod 512 = pg va' div 512\<^sup>2 mod 512"
    "pg va div 512 mod 512 = pg va' div 512 mod 512" "pg va mod 512 = pg va' mod 512"
    by (simp_all add: px_pg)
  with split [OF pg_less [OF assms(1)]] split [OF pg_less [OF assms(2)]] show ?thesis by metis
qed

lemma px_same: "pg va = pg va' \<Longrightarrow> px E l va = px E l va'"
  by (simp add: px_pg)

lemma pte_same: "pg va = pg va' \<Longrightarrow> pte E m T va = pte E m T va'"
  by (simp add: pte_def leaf_def px_pg split: option.split)

lemma vpage_less: "v < 2 ^ 26 \<Longrightarrow> adr v 0 < MAXVA E"
  by (simp add: adr_def MAXVA_eq word_less_nat_alt unat_of_nat unat_word_ariths)

lemma pg_vpage: "v < 2 ^ 26 \<Longrightarrow> pg (adr v 0) = v"
  by (simp add: pg_def adr_def unat_of_nat unat_word_ariths)

lemma vpage_inj: "v < 2 ^ 26 \<Longrightarrow> w < 2 ^ 26 \<Longrightarrow> adr v 0 = adr w 0 \<longleftrightarrow> v = w"
  using pg_vpage by metis

lemma PGROUNDDOWN_adr: "PGROUNDDOWN E va = adr (pg va) 0"
proof -
  have m: "(4095 :: u64) = mask 12" by (simp add: mask_eq_exp_minus_1)
  have "PGROUNDDOWN E va = push_bit 12 (drop_bit 12 va)"
    by (rule bit_eqI) (auto simp: PGROUNDDOWN_eq m bit_simps)
  also have "drop_bit 12 va = of_nat (pg va)"
  proof -
    have "unat (drop_bit 12 va) = unat va div 2 ^ 12" by (rule unat_drop)
    then have "unat (drop_bit 12 va) = pg va" by (simp add: pg_def)
    then show ?thesis by (metis ucast_id unsigned_of_nat of_nat_unat)
  qed
  finally show ?thesis by (simp add: adr_shift)
qed

lemma adr_next: "adr v 0 + PGSIZE E = adr (Suc v) 0"
  by (simp add: adr_def PGSIZE_eq)

end

section \<open>Writing one leaf entry\<close>

context page_alloc
begin

text \<open>The state after entry \<open>v\<close> is written for the page of \<open>a\<close>.\<close>

lemma set_leaf:
  assumes ow: "owns E free s T" and k: "leaf E T a = Some k" and a: "a < MAXVA E"
  shows "extends E free s T (on_mem (write64 (entry k (px E 0 a)) v) s) T"
    and "va < MAXVA E \<Longrightarrow> pte E (mem (on_mem (write64 (entry k (px E 0 a)) v) s)) T va =
           (if pg va = pg a then v else pte E (mem s) T va)"
    and "free (on_mem (write64 (entry k (px E 0 a)) v) s) = free s"
proof -
  let ?m = "write64 (entry k (px E 0 a)) v (mem s)"
  let ?s = "on_mem (write64 (entry k (px E 0 a)) v) s"
  have ok: "pt_ok E (mem s) T" and disj: "ran T \<inter> free s = {}" using ow by (auto simp: owns_def)
  note D = tree_okD [OF pt_okD(1) [OF ok]]
  have Tk: "T (N0 (px E 2 a) (px E 1 a)) = Some k" using k by (simp add: leaf_def)
  have fk: "frame k" "k \<in> ran T" using D(2) [OF Tk] Tk by (auto simp: ran_def)
  have other: "read64 ?m (entry p j) = read64 (mem s) (entry p j)"
    if "T n = Some p" "j < 512" "n \<noteq> N0 (px E 2 a) (px E 1 a) \<or> j \<noteq> px E 0 a" for n p j
    using that D(2) [OF that(1)] D(3) [OF that(1), of "N0 (px E 2 a) (px E 1 a)"] Tk fk(1) px_less
    by (intro read64_write64_other) auto
  have "pt_ok E ?m T"
    unfolding pt_ok_def
  proof (intro conjI allI impI)
    show "tree_ok T" by (rule pt_okD(1) [OF ok])
    fix n p and j :: nat assume n: "inner n" "T n = Some p" "j < 512"
    then have "n \<noteq> N0 (px E 2 a) (px E 1 a)" by auto
    with pt_okD(2) [OF ok n] other [OF n(2,3)] show "slot_ok E ?m p j (T (child n j))"
      by (simp add: slot_ok_def split: option.splits)
  qed
  moreover show fr: "free ?s = free s"
    using fk disj px_less by (intro free_write64) auto
  ultimately have "owns E free ?s T" using disj by (simp add: owns_def)
  moreover have "?m x = mem s x" if "pg x \<notin> ran T \<union> free s" for x
    using that fk px_less by (intro write64_outside) auto
  ultimately show "extends E free s T ?s T"
    using disj fr by (auto simp: extends_def)
  show "pte E (mem ?s) T va = (if pg va = pg a then v else pte E (mem s) T va)" if va: "va < MAXVA E"
  proof (cases "pg va = pg a")
    case True
    then have "leaf E T va = Some k" "px E 0 va = px E 0 a" using k px_same [OF True] by (simp_all add: leaf_def)
    with True show ?thesis by (simp add: pte_def read64_write64)
  next
    case False
    then have "px E 2 va \<noteq> px E 2 a \<or> px E 1 va \<noteq> px E 1 a \<or> px E 0 va \<noteq> px E 0 a"
      using px_inj [OF va a] by auto
    then show ?thesis
      using False other [OF _ px_less] by (auto simp: pte_def leaf_def split: option.splits)
  qed
qed

end

section \<open>Mapping a range of pages\<close>

text \<open>
  \<open>d\<close> consecutive virtual pages from \<open>v\<close> refer to the frames from \<open>p\<close>, every other leaf entry
  is as before.
\<close>

definition mapped_to ::
    "'w vext \<Rightarrow> nat \<Rightarrow> nat \<Rightarrow> nat \<Rightarrow> u64 \<Rightarrow> bytes \<Rightarrow> ptree \<Rightarrow> bytes \<Rightarrow> ptree \<Rightarrow> bool" where
  "mapped_to E v d p f m T m' T' \<longleftrightarrow>
     (\<forall>va < MAXVA E. pte E m' T' va =
        (if v \<le> pg va \<and> pg va < v + d then mkpte E (p + (pg va - v)) f else pte E m T va))"

lemma mapped_to_step:
  assumes "\<And>va. va < MAXVA E \<Longrightarrow> pte E m1 T1 va = (if pg va = v then mkpte E p f else pte E m T va)"
    and "mapped_to E (Suc v) d (Suc p) f m1 T1 m' T'"
  shows "mapped_to E v (Suc d) p f m T m' T'"
  unfolding mapped_to_def
proof (intro allI impI)
  fix va assume va: "va < MAXVA E"
  have "Suc v \<le> pg va \<Longrightarrow> Suc p + (pg va - Suc v) = p + (pg va - v)" by simp
  with va assms show "pte E m' T' va =
      (if v \<le> pg va \<and> pg va < v + Suc d then mkpte E (p + (pg va - v)) f else pte E m T va)"
    unfolding mapped_to_def by (cases "pg va = v") (simp_all del: add_Suc)
qed

lemma mapped_to_none:
  "grown E free s T s' T' \<Longrightarrow> extends E free s T s' T' \<and> mapped_to E v 0 p f (mem s) T (mem s') T'"
  by (auto simp: grown_def mapped_to_def)

lemma root_extends:
  assumes "owns E free s T" and "extends E free s T s' T'"
  shows "root T' = root T"
proof -
  from assms(1) obtain k where "T N2 = Some k" by (auto simp: owns_def pt_ok_def tree_ok_def)
  with assms(2) have "T' N2 = Some k" by (force simp: extends_def map_le_def dom_def)
  with \<open>T N2 = Some k\<close> show ?thesis by simp
qed

context page_alloc
begin

text \<open>One round of the loop on a page that is not mapped.\<close>

lemma mappages_round:
  assumes ow: "owns E free s T" and v: "v < 2 ^ 26" and un: "pte E (mem s) T (adr v 0) AND 1 = 0"
  shows "(\<exists>s1 T1. mappages_loop (Suc fuel) E (root T) (adr v 0) lst (adr p 0) perm s = Ret (- 1, s1) \<and>
            grown E free s T s1 T1 \<and> card (free s) < 2) \<or>
     (\<exists>s1 T1. mappages_loop (Suc fuel) E (root T) (adr v 0) lst (adr p 0) perm s =
            (if adr v 0 = lst then Ret (0, s1)
             else mappages_loop fuel E (root T1) (adr (Suc v) 0) lst (adr (Suc p) 0) perm s1) \<and>
            extends E free s T s1 T1 \<and> card (free s) \<le> card (free s1) + 2 \<and>
            (\<forall>va < MAXVA E. pte E (mem s1) T1 va =
               (if pg va = v then mkpte E p (scast perm) else pte E (mem s) T va)))"
proof -
  note va = vpage_less [OF v]
  from walk_alloc [OF ow va] obtain a s' T' where w: "walk E (root T) (adr v 0) True s = Ret (a, s')"
    and g: "grown E free s T s' T'"
    and a: "a = 0 \<or> (\<exists>k. leaf E T' (adr v 0) = Some k \<and> a = entry k (px E 0 (adr v 0)))"
    and card: "card (free s) \<le> card (free s') + 2" and mem: "2 \<le> card (free s) \<longrightarrow> a \<noteq> 0"
    by blast
  have ex: "extends E free s T s' T'" and same: "\<And>va. pte E (mem s') T' va = pte E (mem s) T va"
    using g by (simp_all add: grown_def)
  show ?thesis
  proof (cases "a = 0")
    case True
    with w g mem show ?thesis by (intro disjI1 exI [of _ s'] exI [of _ T']) auto
  next
    case False
    with a obtain k where k: "leaf E T' (adr v 0) = Some k" "a = entry k (px E 0 (adr v 0))" by blast
    let ?s1 = "on_mem (write64 (entry k (px E 0 (adr v 0))) (mkpte E p (scast perm))) s'"
    note leaf = set_leaf [OF owns_extends [OF ex] k(1) va, where v = "mkpte E p (scast perm)"]
    have "read64 (mem s') a AND 1 = 0"
      using same [of "adr v 0"] un k by (simp add: pte_def)
    with w False k(2) have "mappages_loop (Suc fuel) E (root T) (adr v 0) lst (adr p 0) perm s =
      (if adr v 0 = lst then Ret (0, ?s1)
       else mappages_loop fuel E (root T') (adr (Suc v) 0) lst (adr (Suc p) 0) perm ?s1)"
      using root_extends [OF ow ex] by (simp add: PTE_V_eq mkpte_def Let_def adr_next)
    then show ?thesis
      using extends_trans [OF ex leaf(1)] leaf(2,3) card same pg_vpage [OF v]
      by (intro disjI2 exI [of _ ?s1] exI [of _ T']) (simp del: mappages_loop.simps)
  qed
qed

lemma mappages_loop_spec:
  assumes "owns E free s T" and "v + n < 2 ^ 26" and "n < fuel"
    and "\<And>i. i \<le> n \<Longrightarrow> pte E (mem s) T (adr (v + i) 0) AND 1 = 0"
  shows "\<exists>r s' T' d. mappages_loop fuel E (root T) (adr v 0) (adr (v + n) 0) (adr p 0) perm s = Ret (r, s') \<and>
     extends E free s T s' T' \<and> mapped_to E v d p (scast perm) (mem s) T (mem s') T' \<and>
     (r = 0 \<and> d = Suc n \<or> r = - 1 \<and> d \<le> n) \<and> (r = 0 \<longrightarrow> card (free s) \<le> card (free s') + 2 * d) \<and>
     (2 * Suc n \<le> card (free s) \<longrightarrow> r = 0)"
  using assms
proof (induction n arbitrary: fuel s T v p)
  case 0
  from 0(3) obtain fuel' where fuel: "fuel = Suc fuel'" by (cases fuel) auto
  let ?run = "mappages_loop fuel E (root T) (adr v 0) (adr (v + 0) 0) (adr p 0) perm s"
  from mappages_round [OF 0(1), of v fuel' "adr (v + 0) 0" p perm] 0(2) 0(4) [of 0] fuel
  consider s1 T1 where "?run = Ret (- 1, s1)" "grown E free s T s1 T1" "card (free s) < 2"
    | s1 T1 where "?run = Ret (0, s1)" "extends E free s T s1 T1" "card (free s) \<le> card (free s1) + 2"
        "\<forall>va < MAXVA E. pte E (mem s1) T1 va =
           (if pg va = v then mkpte E p (scast perm) else pte E (mem s) T va)"
    by (auto simp del: mappages_loop.simps)
  then show ?case
  proof cases
    case 1
    with mapped_to_none [OF 1(2)] show ?thesis
      by (intro exI [of _ "- 1"] exI [of _ s1] exI [of _ T1] exI [of _ 0]) simp
  next
    case 2
    then have "mapped_to E v 1 p (scast perm) (mem s) T (mem s1) T1"
      unfolding mapped_to_def by (auto simp: le_less_Suc_eq)
    with 2 show ?thesis
      by (intro exI [of _ 0] exI [of _ s1] exI [of _ T1] exI [of _ 1]) simp
  qed
next
  case (Suc n)
  from Suc.prems(3) obtain fuel' where fuel: "fuel = Suc fuel'" by (cases fuel) auto
  let ?run = "mappages_loop fuel E (root T) (adr v 0) (adr (v + Suc n) 0) (adr p 0) perm s"
  have ne: "adr v 0 \<noteq> adr (v + Suc n) 0" using Suc.prems(2) by (simp add: vpage_inj)
  have v: "v < 2 ^ 26" using Suc.prems(2) by simp
  from mappages_round [OF Suc.prems(1) v, of fuel' "adr (v + Suc n) 0" p perm] Suc.prems(4) [of 0] fuel ne
  consider s1 T1 where "?run = Ret (- 1, s1)" "grown E free s T s1 T1" "card (free s) < 2"
    | s1 T1 where "?run = mappages_loop fuel' E (root T1) (adr (Suc v) 0) (adr (Suc v + n) 0) (adr (Suc p) 0) perm s1"
        "extends E free s T s1 T1" "card (free s) \<le> card (free s1) + 2"
        "\<forall>va < MAXVA E. pte E (mem s1) T1 va =
           (if pg va = v then mkpte E p (scast perm) else pte E (mem s) T va)"
    by (auto simp del: mappages_loop.simps)
  then show ?case
  proof cases
    case 1
    with mapped_to_none [OF 1(2)] show ?thesis
      by (intro exI [of _ "- 1"] exI [of _ s1] exI [of _ T1] exI [of _ 0]) simp
  next
    case 2
    have "pte E (mem s1) T1 (adr (Suc v + i) 0) AND 1 = 0" if "i \<le> n" for i
    proof -
      have "adr (Suc v + i) 0 < MAXVA E" "pg (adr (Suc v + i) 0) = Suc v + i"
        using that Suc.prems(2) by (auto intro: vpage_less pg_vpage)
      with 2(4) Suc.prems(4) [of "Suc i"] that show ?thesis by simp
    qed
    with Suc.IH [OF owns_extends [OF 2(2)], of "Suc v" fuel' "Suc p"] Suc.prems(2,3) fuel
    obtain r s' T' d where IH:
      "mappages_loop fuel' E (root T1) (adr (Suc v) 0) (adr (Suc v + n) 0) (adr (Suc p) 0) perm s1 = Ret (r, s')"
      "extends E free s1 T1 s' T'" "mapped_to E (Suc v) d (Suc p) (scast perm) (mem s1) T1 (mem s') T'"
      "r = 0 \<and> d = Suc n \<or> r = - 1 \<and> d \<le> n" "r = 0 \<longrightarrow> card (free s1) \<le> card (free s') + 2 * d"
      "2 * Suc n \<le> card (free s1) \<longrightarrow> r = 0"
      by auto
    have "mapped_to E v (Suc d) p (scast perm) (mem s) T (mem s') T'"
      using 2(4) by (intro mapped_to_step [OF _ IH(3)]) simp
    with 2 IH extends_trans [OF 2(2) IH(2)] show ?thesis
      by (intro exI [of _ r] exI [of _ s'] exI [of _ T'] exI [of _ "Suc d"]) (auto simp del: mappages_loop.simps)
  qed
qed

end

section \<open>Mapping a range of bytes\<close>

context page_alloc
begin

lemma mappages_spec:
  assumes ow: "owns E free s T" and sz: "0 < sz" "unat va + unat sz \<le> 2 ^ 38"
    and fuel: "pg (va + sz - 1) - pg va < fuel"
    and un: "\<And>v. pg va \<le> v \<Longrightarrow> v \<le> pg (va + sz - 1) \<Longrightarrow> pte E (mem s) T (adr v 0) AND 1 = 0"
  shows "\<exists>r s' T' d. mappages fuel E (root T) va sz (adr p 0) perm s = Ret (r, s') \<and>
     extends E free s T s' T' \<and> mapped_to E (pg va) d p (scast perm) (mem s) T (mem s') T' \<and>
     (r = 0 \<and> d = Suc (pg (va + sz - 1) - pg va) \<or> r = - 1 \<and> d \<le> pg (va + sz - 1) - pg va) \<and>
     (2 * Suc (pg (va + sz - 1) - pg va) \<le> card (free s) \<longrightarrow> r = 0)"
proof -
  have s0: "unat sz \<ge> 1" using sz(1) by (simp add: word_less_nat_alt)
  have "unat (va + sz) = unat va + unat sz" using sz(2) by (simp add: unat_word_ariths)
  moreover from this s0 have "(1 :: u64) \<le> va + sz" by (simp add: word_le_nat_alt)
  ultimately have u: "unat (va + sz - 1) = unat va + unat sz - 1" by (simp add: unat_sub)
  then have le: "pg va \<le> pg (va + sz - 1)" and lt: "pg (va + sz - 1) < 2 ^ 26"
    using s0 sz(2) by (auto simp: pg_def intro!: div_le_mono less_mult_imp_div_less)
  then have n: "pg va + (pg (va + sz - 1) - pg va) = pg (va + sz - 1)" by simp
  have un': "pte E (mem s) T (adr (pg va + i) 0) AND 1 = 0" if "i \<le> pg (va + sz - 1) - pg va" for i
    using un [of "pg va + i"] that le by simp
  from mappages_loop_spec [OF ow _ fuel un', of p perm] sz(1) lt show ?thesis
    unfolding n by (auto simp: mappages_def PGROUNDDOWN_adr simp del: mappages_loop.simps)
qed

text \<open>A page that is mapped already.\<close>

lemma mappages_remap:
  assumes ow: "owns E free s T" and sz: "0 < sz" and va: "va < MAXVA E" and v: "pte E (mem s) T va AND 1 \<noteq> 0"
    and mem: "2 \<le> card (free s)"
  shows "mappages (Suc fuel) E (root T) va sz pa perm s = Panic ''mappages: remap''"
proof -
  have lt: "adr (pg va) 0 < MAXVA E" using pg_less [OF va] by (rule vpage_less)
  have eq: "pte E (mem s) T (adr (pg va) 0) = pte E (mem s) T va"
    using pg_vpage [OF pg_less [OF va]] by (intro pte_same) simp
  from walk_alloc [OF ow lt] mem obtain s' T' k where
    w: "walk E (root T) (adr (pg va) 0) True s = Ret (entry k (px E 0 (adr (pg va) 0)), s')"
      "entry k (px E 0 (adr (pg va) 0)) \<noteq> 0" "leaf E T' (adr (pg va) 0) = Some k" "grown E free s T s' T'"
    by auto
  have "read64 (mem s') (entry k (px E 0 (adr (pg va) 0))) = pte E (mem s') T' (adr (pg va) 0)"
    using w(3) by (simp add: pte_def)
  also have "\<dots> = pte E (mem s) T va" using w(4) eq by (simp add: grown_def)
  finally have "read64 (mem s') (entry k (px E 0 (adr (pg va) 0))) = pte E (mem s) T va" .
  with w v sz show ?thesis by (simp add: mappages_def PGROUNDDOWN_adr PTE_V_eq)
qed

end

end
