(* ===== verification/Vm_Space.thy ===== *)
theory Vm_Space
  imports Vm_Map
begin

text \<open>
  User address spaces: a page table whose leaf entries own their frames. \<open>uvmunmap\<close>,
  \<open>uvmalloc\<close> and \<open>uvmdealloc\<close> keep the ownership and give the frames back to the allocator.
\<close>

section \<open>Leaf entries\<close>

text \<open>An entry that refers to a frame and has a permission bit.\<close>

definition leaf_entry :: "'w vext \<Rightarrow> u64 \<Rightarrow> bool" where
  "leaf_entry E e \<longleftrightarrow>
     (\<exists>k f. e = mkpte E k f \<and> frame k \<and> take_bit 10 f = f \<and> f OR 1 \<noteq> 1)"

definition frame_of :: "'w vext \<Rightarrow> u64 \<Rightarrow> nat" where
  "frame_of E e = pg (PTE2PA E e)"

text \<open>The frame of virtual page \<open>v\<close>.\<close>

abbreviation fr :: "'w vext \<Rightarrow> 'w vm \<Rightarrow> ptree \<Rightarrow> nat \<Rightarrow> nat" where
  "fr E s T v \<equiv> frame_of E (pte E (mem s) T (adr v 0))"

text \<open>
  The virtual pages \<open>V\<close> are mapped, each to a frame of its own that is neither free nor part of
  the page table.
\<close>

definition uspace :: "'w vext \<Rightarrow> ('w vm \<Rightarrow> nat set) \<Rightarrow> nat set \<Rightarrow> 'w vm \<Rightarrow> ptree \<Rightarrow> nat set \<Rightarrow> bool" where
  "uspace E free ram s T V \<longleftrightarrow>
     owns E free s T \<and> (\<forall>v \<in> V. v < 2 ^ 26 \<and> leaf_entry E (pte E (mem s) T (adr v 0))) \<and>
     fr E s T ` V \<subseteq> ram - free s - ran T \<and> inj_on (fr E s T) V"

lemma uspaceD:
  assumes "uspace E free ram s T V"
  shows "owns E free s T" and "\<And>v. v \<in> V \<Longrightarrow> v < 2 ^ 26"
    and "\<And>v. v \<in> V \<Longrightarrow> leaf_entry E (pte E (mem s) T (adr v 0))"
    and "\<And>v. v \<in> V \<Longrightarrow> fr E s T v \<in> ram - free s - ran T"
    and "inj_on (fr E s T) V"
  using assms unfolding uspace_def by blast+

context sv39
begin

lemma frame_of_mkpte [simp]:
  "frame k \<Longrightarrow> take_bit 10 f = f \<Longrightarrow> frame_of E (mkpte E k f) = k"
  by (simp add: frame_of_def PTE2PA_mkpte pg_adr)

lemma leaf_entryD:
  assumes "leaf_entry E e"
  shows "e AND 1 \<noteq> 0" and "PTE2PA E e = adr (frame_of E e) 0" and "frame (frame_of E e)"
    and "PTE_FLAGS E e \<noteq> 1"
  using assms by (auto simp: leaf_entry_def PTE2PA_mkpte mkpte_flags)

lemma entry_leaf:
  assumes ow: "owns E free s T" and v: "v < 2 ^ 26" and e: "leaf_entry E (pte E (mem s) T (adr v 0))"
  obtains k where "leaf E T (adr v 0) = Some k" and "frame k"
    and "walk E (root T) (adr v 0) False s = Ret (entry k (px E 0 (adr v 0)), s)"
    and "entry k (px E 0 (adr v 0)) \<noteq> 0"
    and "read64 (mem s) (entry k (px E 0 (adr v 0))) = pte E (mem s) T (adr v 0)"
proof -
  have ok: "pt_ok E (mem s) T" using ow by (simp add: owns_def)
  have "pte E (mem s) T (adr v 0) \<noteq> 0" using leaf_entryD(1) [OF e] by auto
  then obtain k where k: "leaf E T (adr v 0) = Some k" by (cases "leaf E T (adr v 0)") (auto simp: pte_def)
  have "frame k" using tree_okD(2) [OF pt_okD(1) [OF ok]] k by (auto simp: leaf_def)
  moreover have "entry k (px E 0 (adr v 0)) \<noteq> 0"
    using \<open>frame k\<close> px_less [of 0 "adr v 0"] by (intro adr_nonzero) simp_all
  ultimately show ?thesis
    using that k walk_lookup [OF ok vpage_less [OF v]] by (simp add: pte_def)
qed

lemma vpage_le: "v \<le> 2 ^ 26 \<Longrightarrow> w \<le> 2 ^ 26 \<Longrightarrow> adr v 0 < adr w 0 \<longleftrightarrow> v < w"
  by (simp add: adr_def word_less_nat_alt unat_of_nat unat_word_ariths)

end

section \<open>Removing mappings\<close>

text \<open>What the removal of the pages \<open>R\<close> leaves; \<open>G\<close> are the frames given back.\<close>

definition unmapped ::
    "'w vext \<Rightarrow> ('w vm \<Rightarrow> nat set) \<Rightarrow> nat set \<Rightarrow> nat set \<Rightarrow> 'w vm \<Rightarrow> ptree \<Rightarrow> 'w vm \<Rightarrow> bool" where
  "unmapped E free R G s T s' \<longleftrightarrow>
     owns E free s' T \<and> free s' = free s \<union> G \<and>
     (\<forall>va < MAXVA E. pte E (mem s') T va = (if pg va \<in> R then 0 else pte E (mem s) T va)) \<and>
     (\<forall>x. pg x \<notin> ran T \<union> free s \<union> G \<longrightarrow> mem s' x = mem s x)"

context page_alloc
begin

lemma kfree_owned:
  assumes ow: "owns E free s T" and k: "k \<in> ram - free s - ran T"
  shows "\<exists>s'. kfree E (adr k 0) s = Ret s' \<and> free s' = insert k (free s) \<and> owns E free s' T \<and>
    (\<forall>va. pte E (mem s') T va = pte E (mem s) T va) \<and>
    (\<forall>x. pg x \<notin> insert k (free s) \<longrightarrow> mem s' x = mem s x)"
proof -
  have ok: "pt_ok E (mem s) T" and disj: "ran T \<inter> free s = {}" using ow by (auto simp: owns_def)
  note T = pt_okD(1) [OF ok]
  have "k \<in> ram" "k \<notin> free s" "k \<notin> ran T" using k by auto
  from kfree_law [OF this(1,2)] obtain s' where s': "kfree E (adr k 0) s = Ret s'"
    "free s' = insert k (free s)" "\<forall>x. pg x \<notin> insert k (free s) \<longrightarrow> mem s' x = mem s x" by blast
  have same: "mem s' x = mem s x" if "pg x \<in> ran T" for x
    using that s'(3) \<open>k \<notin> ran T\<close> disj by (metis disjoint_iff insert_iff)
  have "pt_ok E (mem s') T" using pt_ok_cong [of T "mem s'" "mem s"] same T ok by blast
  moreover have "ran T \<inter> free s' = {}" using s'(2) \<open>k \<notin> ran T\<close> disj by simp
  moreover have "pte E (mem s') T va = pte E (mem s) T va" for va
    using same T by (intro pte_cong) auto
  ultimately show ?thesis using s' by (simp add: owns_def)
qed

text \<open>One round of the loop; only a frame that is to be given back has to be the caller's.\<close>

lemma unmap_entry:
  assumes ow: "owns E free s T" and v: "v < 2 ^ 26" and le: "leaf_entry E (pte E (mem s) T (adr v 0))"
    and df: "df \<Longrightarrow> fr E s T v \<in> ram - free s - ran T" and lim: "adr v 0 < lim"
  shows "\<exists>s'. uvmunmap_loop (Suc fuel) E (root T) (adr v 0) lim df s =
       uvmunmap_loop fuel E (root T) (adr (Suc v) 0) lim df s' \<and>
     unmapped E free {v} (if df then {fr E s T v} else {}) s T s'"
proof -
  note e = leaf_entryD [OF le]
  have va: "adr v 0 < MAXVA E" "pg (adr v 0) = v" using v by (simp_all add: vpage_less pg_vpage)
  obtain k where k: "leaf E T (adr v 0) = Some k" "frame k"
    "walk E (root T) (adr v 0) False s = Ret (entry k (px E 0 (adr v 0)), s)"
    "entry k (px E 0 (adr v 0)) \<noteq> 0"
    "read64 (mem s) (entry k (px E 0 (adr v 0))) = pte E (mem s) T (adr v 0)"
    using entry_leaf [OF ow v le] by blast
  let ?z = "write64 (entry k (px E 0 (adr v 0))) 0"
  obtain s1 where s1: "(if df then kfree E (PTE2PA E (pte E (mem s) T (adr v 0))) s else Ret s) = Ret s1"
    "free s1 = free s \<union> (if df then {fr E s T v} else {})" "owns E free s1 T"
    "\<And>va. pte E (mem s1) T va = pte E (mem s) T va"
    "\<And>x. pg x \<notin> free s \<union> (if df then {fr E s T v} else {}) \<Longrightarrow> mem s1 x = mem s x"
  proof (cases df)
    case True
    with kfree_owned [OF ow df] e(2) that show ?thesis by auto
  next
    case False
    show ?thesis by (rule that [of s]) (simp_all add: False ow)
  qed
  note leaf = set_leaf [OF s1(3) k(1) va(1), where v = 0]
  have run: "uvmunmap_loop (Suc fuel) E (root T) (adr v 0) lim df s =
      uvmunmap_loop fuel E (root T) (adr (Suc v) 0) lim df (on_mem ?z s1)"
    using k(3-5) e(1,4) s1(1) lim by (cases df) (simp_all add: PTE_V_eq Let_def adr_next)
  have "mem (on_mem ?z s1) x = mem s x" if "pg x \<notin> ran T \<union> free s \<union> (if df then {fr E s T v} else {})" for x
    using that leaf(1) s1(2,5) by (auto simp: extends_def)
  then have "unmapped E free {v} (if df then {fr E s T v} else {}) s T (on_mem ?z s1)"
    using leaf s1 va(2) owns_extends [OF leaf(1)] by (auto simp: unmapped_def)
  with run show ?thesis by blast
qed

lemma uvmunmap_round:
  assumes us: "uspace E free ram s T V" and v: "v \<in> V" and lim: "adr v 0 < lim"
  shows "\<exists>s'. uvmunmap_loop (Suc fuel) E (root T) (adr v 0) lim df s =
       uvmunmap_loop fuel E (root T) (adr (Suc v) 0) lim df s' \<and>
     unmapped E free {v} (if df then {fr E s T v} else {}) s T s'"
  using uspaceD [OF us] v lim by (intro unmap_entry) auto

lemma unmapped_uspace:
  assumes us: "uspace E free ram s T V" and un: "unmapped E free R G s T s'"
    and G: "G \<subseteq> fr E s T ` R" and R: "R \<subseteq> V"
  shows "uspace E free ram s' T (V - R)" and "\<And>v. v \<in> V - R \<Longrightarrow> fr E s' T v = fr E s T v"
proof -
  note U = uspaceD [OF us]
  have same: "pte E (mem s') T (adr v 0) = pte E (mem s) T (adr v 0)" if "v \<in> V - R" for v
    using un that U(2) [of v] by (simp add: unmapped_def vpage_less pg_vpage)
  show fr: "fr E s' T v = fr E s T v" if "v \<in> V - R" for v using same [OF that] by simp
  have "fr E s T v \<notin> G" if "v \<in> V - R" for v
    using G R that inj_onD [OF U(5), of v] by blast
  then have "fr E s' T v \<in> ram - free s' - ran T" if "v \<in> V - R" for v
    using that U(4) [of v] un fr by (auto simp: unmapped_def)
  moreover have "inj_on (fr E s' T) (V - R)"
    using U(5) fr by (auto simp: inj_on_def)
  ultimately show "uspace E free ram s' T (V - R)"
    unfolding uspace_def using un same U(2,3) by (auto simp: unmapped_def)
qed

lemma unmapped_trans:
  assumes "unmapped E free R1 G1 s T s1" and "unmapped E free R2 G2 s1 T s2"
  shows "unmapped E free (R1 \<union> R2) (G1 \<union> G2) s T s2"
  using assms by (auto simp: unmapped_def)

lemma unmapped_refl: "owns E free s T \<Longrightarrow> unmapped E free {} {} s T s"
  by (simp add: unmapped_def)

lemma uvmunmap_loop_spec:
  assumes "uspace E free ram s T V" and "{v..<v + n} \<subseteq> V" and "v + n \<le> 2 ^ 26" and "n < fuel"
  shows "\<exists>s'. uvmunmap_loop fuel E (root T) (adr v 0) (adr (v + n) 0) df s = Ret s' \<and>
     unmapped E free {v..<v + n} (if df then fr E s T ` {v..<v + n} else {}) s T s'"
  using assms
proof (induction n arbitrary: fuel s v V)
  case 0
  then obtain fuel' where "fuel = Suc fuel'" by (cases fuel) auto
  with 0 uspaceD(1) [OF 0(1)] show ?case by (auto intro: unmapped_refl)
next
  case (Suc n)
  then obtain fuel' where fuel: "fuel = Suc fuel'" by (cases fuel) auto
  have lt: "adr v 0 < adr (v + Suc n) 0" using Suc.prems(3) by (simp add: vpage_le)
  have v: "v \<in> V" using Suc.prems(2) by auto
  from uvmunmap_round [OF Suc.prems(1) v lt, of fuel' df] obtain s1 where
    r: "uvmunmap_loop fuel E (root T) (adr v 0) (adr (v + Suc n) 0) df s =
       uvmunmap_loop fuel' E (root T) (adr (Suc v) 0) (adr (Suc v + n) 0) df s1"
    and u1: "unmapped E free {v} (if df then {fr E s T v} else {}) s T s1"
    by (auto simp: fuel simp del: uvmunmap_loop.simps)
  have us1: "uspace E free ram s1 T (V - {v})" and fr1: "\<And>w. w \<in> V - {v} \<Longrightarrow> fr E s1 T w = fr E s T w"
    using v by (intro unmapped_uspace [OF Suc.prems(1) u1]; auto)+
  have sub: "{Suc v..<Suc v + n} \<subseteq> V - {v}" using Suc.prems(2) by auto
  from Suc.IH [OF us1 sub, of fuel'] Suc.prems(3,4) fuel obtain s2 where
    r2: "uvmunmap_loop fuel' E (root T) (adr (Suc v) 0) (adr (Suc v + n) 0) df s1 = Ret s2"
    and u2: "unmapped E free {Suc v..<Suc v + n} (if df then fr E s1 T ` {Suc v..<Suc v + n} else {}) s1 T s2"
    by auto
  have dom: "{v..<v + Suc n} = {v} \<union> {Suc v..<Suc v + n}" by auto
  have img: "fr E s1 T ` {Suc v..<Suc v + n} = fr E s T ` {Suc v..<Suc v + n}"
    using fr1 sub by (intro image_cong) auto
  have "unmapped E free {v..<v + Suc n} (if df then fr E s T ` {v..<v + Suc n} else {}) s T s2"
    using unmapped_trans [OF u1 u2] unfolding dom image_Un by (cases df) (simp_all only: img if_True if_False image_insert image_empty Un_empty_left)
  with r r2 show ?case by auto
qed

end

end
