(* ===== verification/Vm_Grow.thy ===== *)
theory Vm_Grow
  imports Vm_Space
begin

text \<open>
  Growing and shrinking a user address space: \<open>uvmunmap\<close> and \<open>uvmdealloc\<close> on sizes in bytes, and
  \<open>uvmalloc\<close>, which gives zeroed pages or, out of memory, takes back what it added.
\<close>

section \<open>Sizes in bytes and pages\<close>

definition npages :: "u64 \<Rightarrow> nat" where
  "npages sz = (unat sz + 4095) div 4096"

context sv39
begin

lemma npages_le: "sz \<le> MAXVA E \<Longrightarrow> npages sz \<le> 2 ^ 26"
  by (simp add: npages_def MAXVA_eq word_le_nat_alt)

lemma PGROUNDUP_adr:
  assumes "sz \<le> MAXVA E"
  shows "PGROUNDUP E sz = adr (npages sz) 0"
proof -
  have "unat (sz + 4095) = unat sz + 4095"
    using assms by (simp add: MAXVA_eq word_le_nat_alt unat_word_ariths)
  then show ?thesis
    using PGROUNDDOWN_adr [of "sz + 4095"] by (simp add: PGROUNDUP_eq PGROUNDDOWN_eq pg_def npages_def)
qed

lemma unat_vpage: "v \<le> 2 ^ 26 \<Longrightarrow> unat (adr v 0) = 4096 * v"
  by (simp add: adr_def unat_of_nat unat_word_ariths)

lemma vpage_less_size: "v \<le> 2 ^ 26 \<Longrightarrow> adr v 0 < sz \<longleftrightarrow> v < npages sz"
  by (auto simp: word_less_nat_alt unat_vpage npages_def)

lemma npages_vpage: "v \<le> 2 ^ 26 \<Longrightarrow> npages (adr v 0) = v"
  by (simp add: npages_def unat_vpage)

lemma npages_mono: "a \<le> b \<Longrightarrow> npages a \<le> npages b"
  by (simp add: npages_def word_le_nat_alt div_le_mono)

lemma vpage_max: "v \<le> 2 ^ 26 \<Longrightarrow> adr v 0 \<le> MAXVA E"
  by (simp add: word_le_nat_alt unat_vpage MAXVA_eq)

text \<open>Mapping a single page.\<close>

lemma mappages_page:
  assumes "v < 2 ^ 26"
  shows "mappages fuel E pt (adr v 0) (PGSIZE E) pa perm s = mappages_loop fuel E pt (adr v 0) (adr v 0) pa perm s"
proof -
  have "unat (adr v 0 + 4096 - 1) = 4096 * v + 4095"
    using assms unat_vpage [of v] by (simp add: unat_word_ariths)
  then have "PGROUNDDOWN E (adr v 0 + 4096 - 1) = adr v 0"
    by (simp add: PGROUNDDOWN_adr pg_def)
  moreover have "PGROUNDDOWN E (adr v 0) = adr v 0"
    using assms by (simp add: PGROUNDDOWN_adr pg_vpage)
  ultimately show ?thesis by (simp add: mappages_def PGSIZE_eq)
qed

lemma page_count:
  assumes "w \<le> v" and "v \<le> 2 ^ 26"
  shows "scast (ucast ((adr v 0 - adr w 0) div 4096) :: i32) = (of_nat (v - w) :: u64)"
proof -
  have "adr w 0 \<le> adr v 0" using assms by (simp add: word_le_nat_alt unat_vpage)
  then have "unat (adr v 0 - adr w 0) = 4096 * (v - w)"
    using assms by (simp add: unat_sub unat_vpage right_diff_distrib')
  then have u: "unat ((adr v 0 - adr w 0) div 4096) = v - w" by (simp add: unat_div)
  have "(adr v 0 - adr w 0) div 4096 = of_nat (unat ((adr v 0 - adr w 0) div 4096))" by simp
  then have "(adr v 0 - adr w 0) div 4096 = of_nat (v - w)" by (simp only: u)
  moreover have "scast (ucast (of_nat k :: u64) :: i32) = (of_nat k :: u64)" if "k < 2 ^ 31" for k
    using that by (simp add: unsigned_of_nat signed_of_nat take_bit_nat_eq_self signed_take_bit_int_eq_self)
  ultimately show ?thesis using assms by (simp del: of_nat_diff)
qed

end

section \<open>Removing a range of sizes\<close>

context page_alloc
begin

lemma uvmunmap_spec:
  assumes us: "uspace E free ram s T V" and V: "{v..<v + n} \<subseteq> V" and v: "v + n \<le> 2 ^ 26" and fuel: "n < fuel"
  shows "\<exists>s'. uvmunmap fuel E (root T) (adr v 0) (of_nat n) df s = Ret s' \<and>
     unmapped E free {v..<v + n} (if df then fr E s T ` {v..<v + n} else {}) s T s'"
proof -
  have "adr v 0 mod 4096 = 0"
    using v by (simp add: word_unat_eq_iff unat_mod unat_vpage)
  moreover have "adr v 0 + of_nat n * 4096 = adr (v + n) 0"
    by (simp add: adr_def)
  ultimately show ?thesis
    using uvmunmap_loop_spec [OF us V v fuel] by (simp add: uvmunmap_def PGSIZE_eq)
qed

lemma uvmdealloc_spec:
  assumes us: "uspace E free ram s T V" and V: "{npages newsz..<npages oldsz} \<subseteq> V"
    and max: "oldsz \<le> MAXVA E" and fuel: "npages oldsz < fuel"
  shows "\<exists>s'. uvmdealloc fuel E (root T) oldsz newsz s = Ret (if newsz \<ge> oldsz then oldsz else newsz, s') \<and>
     unmapped E free {npages newsz..<npages oldsz} (fr E s T ` {npages newsz..<npages oldsz}) s T s'"
proof (cases "newsz \<ge> oldsz")
  case True
  then have "{npages newsz..<npages oldsz} = {}" using npages_mono [OF True] by simp
  then show ?thesis
    using True unmapped_refl [OF uspaceD(1) [OF us]] by (auto simp: uvmdealloc_def)
next
  case False
  then have le: "newsz \<le> oldsz" "newsz \<le> MAXVA E" using max by auto
  note up = PGROUNDUP_adr [OF max] PGROUNDUP_adr [OF le(2)]
  note np = npages_le [OF max] npages_mono [OF le(1)]
  show ?thesis
  proof (cases "npages newsz < npages oldsz")
    case lt: True
    have n: "npages newsz + (npages oldsz - npages newsz) = npages oldsz" using np(2) by simp
    have "\<exists>s'. uvmunmap fuel E (root T) (adr (npages newsz) 0) (of_nat (npages oldsz - npages newsz)) True s = Ret s' \<and>
       unmapped E free {npages newsz..<npages oldsz} (fr E s T ` {npages newsz..<npages oldsz}) s T s'"
      using uvmunmap_spec [OF us, of "npages newsz" "npages oldsz - npages newsz" fuel True] V np fuel
      unfolding n by simp
    with False lt np show ?thesis
      by (auto simp: uvmdealloc_def up vpage_le page_count PGSIZE_eq)
  next
    case ge: False
    then have "{npages newsz..<npages oldsz} = {}" by simp
    then show ?thesis
      using False ge np unmapped_refl [OF uspaceD(1) [OF us]] by (auto simp: uvmdealloc_def up vpage_le)
  qed
qed

end

section \<open>Adding pages\<close>

text \<open>
  From \<open>(s, T)\<close> with the pages \<open>V\<close> to \<open>(s', T')\<close> with the pages \<open>W\<close>: entries outside \<open>W - V\<close>
  are as before, the frames of the new pages and the new page-table pages were free, everything
  else that was free still is, and no other memory changed.
\<close>

definition ugrown ::
    "'w vext \<Rightarrow> ('w vm \<Rightarrow> nat set) \<Rightarrow> nat set \<Rightarrow> 'w vm \<Rightarrow> ptree \<Rightarrow> nat set \<Rightarrow> 'w vm \<Rightarrow> ptree \<Rightarrow> nat set \<Rightarrow> bool"
where
  "ugrown E free ram s T V s' T' W \<longleftrightarrow>
     uspace E free ram s' T' W \<and> V \<subseteq> W \<and> T \<subseteq>\<^sub>m T' \<and> ran T' \<subseteq> ran T \<union> free s \<and>
     fr E s' T' ` (W - V) \<subseteq> free s \<and> free s' = free s - ran T' - fr E s' T' ` (W - V) \<and>
     (\<forall>va < MAXVA E. pg va \<notin> W - V \<longrightarrow> pte E (mem s') T' va = pte E (mem s) T va) \<and>
     (\<forall>x. pg x \<notin> ran T \<union> free s \<longrightarrow> mem s' x = mem s x)"

lemma ugrownD:
  assumes "ugrown E free ram s T V s' T' W"
  shows "uspace E free ram s' T' W" and "V \<subseteq> W" and "T \<subseteq>\<^sub>m T'" and "ran T' \<subseteq> ran T \<union> free s"
    and "fr E s' T' ` (W - V) \<subseteq> free s" and "free s' = free s - ran T' - fr E s' T' ` (W - V)"
    and "\<And>va. va < MAXVA E \<Longrightarrow> pg va \<notin> W - V \<Longrightarrow> pte E (mem s') T' va = pte E (mem s) T va"
    and "\<And>x. pg x \<notin> ran T \<union> free s \<Longrightarrow> mem s' x = mem s x"
  using assms unfolding ugrown_def by blast+

lemma ugrown_refl: "uspace E free ram s T V \<Longrightarrow> ugrown E free ram s T V s T V"
  unfolding ugrown_def by (auto simp: uspace_def owns_def)

context page_alloc
begin

lemma uspace_extends:
  assumes us: "uspace E free ram s T V" and ex: "extends E free s T s' T'"
    and same: "\<And>v. v \<in> V \<Longrightarrow> pte E (mem s') T' (adr v 0) = pte E (mem s) T (adr v 0)"
  shows "uspace E free ram s' T' V"
proof -
  note U = uspaceD [OF us]
  have "fr E s' T' v \<in> ram - free s' - ran T'" if "v \<in> V" for v
    using U(4) [OF that] same [OF that] ex by (auto simp: extends_def)
  moreover have "inj_on (fr E s' T') V" using U(5) same by (auto simp: inj_on_def)
  ultimately show ?thesis
    unfolding uspace_def using U(2,3) same owns_extends [OF ex] by auto
qed

text \<open>One page more, with a frame that nobody owns.\<close>

lemma mappages_one:
  assumes us: "uspace E free ram s T V" and v: "v < 2 ^ 26" "pte E (mem s) T (adr v 0) AND 1 = 0"
    and q: "q \<in> ram - free s - ran T - fr E s T ` V"
    and perm: "take_bit 10 (scast perm :: u64) = scast perm" "(scast perm :: u64) OR 1 \<noteq> 1"
  shows "\<exists>r s' T'. mappages (Suc fuel) E (root T) (adr v 0) 4096 (adr q 0) perm s = Ret (r, s') \<and>
     extends E free s T s' T' \<and> (2 \<le> card (free s) \<longrightarrow> r = 0) \<and> (r = 0 \<longrightarrow> card (free s) \<le> card (free s') + 2) \<and>
     (r = 0 \<and> uspace E free ram s' T' (insert v V) \<and>
        (\<forall>va < MAXVA E. pte E (mem s') T' va = (if pg va = v then mkpte E q (scast perm) else pte E (mem s) T va)) \<or>
      r = - 1 \<and> uspace E free ram s' T' V \<and> (\<forall>va < MAXVA E. pte E (mem s') T' va = pte E (mem s) T va))"
proof -
  note U = uspaceD [OF us]
  have loop: "mappages (Suc fuel) E (root T) (adr v 0) 4096 (adr q 0) perm s =
      mappages_loop (Suc fuel) E (root T) (adr v 0) (adr (v + 0) 0) (adr q 0) perm s"
    using mappages_page [OF v(1)] by (simp add: PGSIZE_eq del: mappages_loop.simps)
  from mappages_loop_spec [OF U(1), of v 0 "Suc fuel" q perm] v obtain r s' T' d where
    r: "mappages_loop (Suc fuel) E (root T) (adr v 0) (adr (v + 0) 0) (adr q 0) perm s = Ret (r, s')"
    and ex: "extends E free s T s' T'" and mt: "mapped_to E v d q (scast perm) (mem s) T (mem s') T'"
    and rd: "r = 0 \<and> d = 1 \<or> r = - 1 \<and> d = 0" and card: "r = 0 \<longrightarrow> card (free s) \<le> card (free s') + 2 * d"
    and mem: "2 \<le> card (free s) \<longrightarrow> r = 0"
    by (auto simp del: mappages_loop.simps)
  have nV: "v \<notin> V" using v(2) leaf_entryD(1) [OF U(3)] by auto
  have same: "pte E (mem s') T' (adr w 0) = pte E (mem s) T (adr w 0)" if "w \<in> V" for w
    using mt rd that nV U(2) [OF that] pg_vpage [OF U(2) [OF that]] vpage_less [OF U(2) [OF that]]
    by (auto simp: mapped_to_def le_less_Suc_eq)
  note us' = uspace_extends [OF us ex same]
  show ?thesis
  proof (cases "r = 0")
    case True
    with rd have d: "d = 1" by auto
    have pte': "pte E (mem s') T' va = (if pg va = v then mkpte E q (scast perm) else pte E (mem s) T va)"
      if "va < MAXVA E" for va
      using mt that by (auto simp: mapped_to_def d le_less_Suc_eq)
    have qv: "pte E (mem s') T' (adr v 0) = mkpte E q (scast perm)"
      using pte' [OF vpage_less [OF v(1)]] pg_vpage [OF v(1)] by simp
    have fq: "frame q" using q free_frame by auto
    have "fr E s' T' v = q" using qv fq perm(1) by simp
    moreover have "q \<notin> free s' \<and> q \<notin> ran T'" using q ex by (auto simp: extends_def)
    moreover have "q \<notin> fr E s' T' ` V" using q same by auto
    moreover have "leaf_entry E (pte E (mem s') T' (adr v 0))"
      using qv fq perm by (auto simp: leaf_entry_def)
    ultimately have "uspace E free ram s' T' (insert v V)"
      using us' q v(1) nV by (auto simp: uspace_def)
    with loop r ex card mem True d pte' show ?thesis by auto
  next
    case False
    with rd have "d = 0" "r = - 1" by auto
    then have "pte E (mem s') T' va = pte E (mem s) T va" if "va < MAXVA E" for va
      using mt that by (auto simp: mapped_to_def)
    with loop r ex card mem False us' \<open>r = - 1\<close> \<open>d = 0\<close> show ?thesis by auto
  qed
qed

end

end
