(* ===== verification/Vm_Alloc.thy ===== *)
theory Vm_Alloc
  imports Vm_Grow
begin

text \<open>
  \<open>uvmalloc\<close>: a loop of allocations and mappings that either reaches the new size or, when memory
  runs out, gives back the pages it added.
\<close>

context page_alloc
begin

lemma ugrown_fr:
  assumes "ugrown E free ram s T V s' T' W" and "v < 2 ^ 26" and "v \<notin> W - V"
  shows "pte E (mem s') T' (adr v 0) = pte E (mem s) T (adr v 0)"
  using ugrownD(7) [OF assms(1), of "adr v 0"] assms by (simp add: vpage_less pg_vpage)

lemma root_ugrown:
  assumes "uspace E free ram s T V" and "ugrown E free ram s T V s' T' W"
  shows "root T' = root T"
proof -
  from uspaceD(1) [OF assms(1)] obtain k where "T N2 = Some k" by (auto simp: owns_def pt_ok_def tree_ok_def)
  with ugrownD(3) [OF assms(2)] have "T' N2 = Some k" by (force simp: map_le_def dom_def)
  with \<open>T N2 = Some k\<close> show ?thesis by simp
qed

lemma ugrown_trans:
  assumes g1: "ugrown E free ram s T V s1 T1 W" and g2: "ugrown E free ram s1 T1 W s2 T2 X"
  shows "ugrown E free ram s T V s2 T2 X"
proof -
  note a = ugrownD [OF g1] and b = ugrownD [OF g2]
  have same: "fr E s2 T2 v = fr E s1 T1 v" if "v \<in> W" for v
    using ugrown_fr [OF g2, of v] uspaceD(2) [OF a(1) that] that by simp
  have dec: "X - V = (X - W) \<union> (W - V)" using a(2) b(2) by auto
  have img: "fr E s2 T2 ` (X - V) = fr E s2 T2 ` (X - W) \<union> fr E s1 T1 ` (W - V)"
    unfolding dec image_Un using same by auto
  have r: "ran T1 \<subseteq> ran T2" by (rule map_le_ran [OF b(3)])
  have "free s2 = free s - ran T2 - fr E s2 T2 ` (X - V)" unfolding img using a(6) b(6) r by auto
  moreover have "ran T2 \<subseteq> ran T \<union> free s" using a(4,6) b(4) by auto
  moreover have "fr E s2 T2 ` (X - V) \<subseteq> free s" unfolding img using a(5,6) b(5) by auto
  moreover have "pte E (mem s2) T2 va = pte E (mem s) T va" if "va < MAXVA E" "pg va \<notin> X - V" for va
    using a(2,7) b(2,7) that by (metis Diff_iff subsetD)
  moreover have "mem s2 x = mem s x" if "pg x \<notin> ran T \<union> free s" for x
  proof -
    have "pg x \<notin> ran T1 \<union> free s1" using that a(4,6) by auto
    with that a(8) b(8) show ?thesis by simp
  qed
  ultimately show ?thesis
    unfolding ugrown_def using a(2,3) b(1,2,3) by (auto intro: map_le_trans)
qed

text \<open>Unmapping the added pages and giving back their frames undoes the growth.\<close>

lemma ugrown_undo:
  assumes g: "ugrown E free ram s T V s1 T1 W" and un: "unmapped E free (W - V) (fr E s1 T1 ` (W - V)) s1 T1 s2"
    and old: "\<And>va. va < MAXVA E \<Longrightarrow> pg va \<in> W - V \<Longrightarrow> pte E (mem s) T va = 0"
  shows "ugrown E free ram s T V s2 T1 V"
proof -
  note a = ugrownD [OF g]
  have "uspace E free ram s2 T1 (W - (W - V))" by (rule unmapped_uspace [OF a(1) un]) auto
  moreover have "W - (W - V) = V" using a(2) by auto
  moreover have "free s2 = free s - ran T1"
    using un a(5,6) uspaceD(4) [OF a(1)] by (auto simp: unmapped_def)
  moreover have "pte E (mem s2) T1 va = pte E (mem s) T va" if "va < MAXVA E" for va
    using un a(7) [OF that] old [OF that] that by (auto simp: unmapped_def)
  moreover have "mem s2 x = mem s x" if "pg x \<notin> ran T \<union> free s" for x
  proof -
    have "pg x \<notin> ran T1 \<union> free s1 \<union> fr E s1 T1 ` (W - V)" using that a(4-6) by auto
    with that un a(8) show ?thesis by (simp add: unmapped_def)
  qed
  ultimately show ?thesis using a(3,4) by (simp add: ugrown_def)
qed

lemma extends_ugrown:
  assumes us: "uspace E free ram s T V" and ex: "extends E free s T s' T'"
    and same: "\<And>va. va < MAXVA E \<Longrightarrow> pte E (mem s') T' va = pte E (mem s) T va"
  shows "ugrown E free ram s T V s' T' V"
  using uspace_extends [OF us ex] same [OF vpage_less] uspaceD(2) [OF us] ex same
  by (auto simp: ugrown_def extends_def)

text \<open>
  A page \<open>q\<close> was taken from the allocator and filled; it is mapped, or given back when there is no
  page for the tables.
\<close>

lemma taken_uspace:
  assumes us: "uspace E free ram s T V" and q: "q \<in> free s" and fr: "free s2 = free s - {q}"
    and keep: "\<forall>x. pg x \<notin> free s \<longrightarrow> mem s2 x = mem s x"
  shows "uspace E free ram s2 T V" and "\<And>va. pte E (mem s2) T va = pte E (mem s) T va"
    and "q \<in> ram - free s2 - ran T - fr E s2 T ` V"
proof -
  note U = uspaceD [OF us]
  have ok: "pt_ok E (mem s) T" and disj: "ran T \<inter> free s = {}" using U(1) by (auto simp: owns_def)
  note T = pt_okD(1) [OF ok]
  have m: "mem s2 x = mem s x" if "pg x \<in> ran T" for x using that keep disj by blast
  show pte: "pte E (mem s2) T va = pte E (mem s) T va" for va using m T by (intro pte_cong) auto
  have "pt_ok E (mem s2) T = pt_ok E (mem s) T" using m T by (intro pt_ok_cong) auto
  with ok have "owns E free s2 T" using fr disj by (auto simp: owns_def)
  then show "uspace E free ram s2 T V" using us fr pte by (auto simp: uspace_def)
  show "q \<in> ram - free s2 - ran T - fr E s2 T ` V"
    using q free_ram disj U(4) by (auto simp: fr pte)
qed

lemma add_page:
  assumes us: "uspace E free ram s T V" and q: "q \<in> free s" and fr: "free s2 = free s - {q}"
    and keep: "\<forall>x. pg x \<notin> free s \<longrightarrow> mem s2 x = mem s x"
    and v: "v < 2 ^ 26" "pte E (mem s) T (adr v 0) AND 1 = 0"
    and perm: "take_bit 10 (scast perm :: u64) = scast perm" "(scast perm :: u64) OR 1 \<noteq> 1"
  shows "\<exists>r s3 T3. mappages (Suc fuel) E (root T) (adr v 0) 4096 (adr q 0) perm s2 = Ret (r, s3) \<and>
     (3 \<le> card (free s) \<longrightarrow> r = 0) \<and>
     (r = 0 \<and> ugrown E free ram s T V s3 T3 (insert v V) \<and> card (free s) \<le> card (free s3) + 3 \<and>
        pte E (mem s3) T3 (adr v 0) = mkpte E q (scast perm) \<and> (\<forall>x. pg x = q \<longrightarrow> mem s3 x = mem s2 x) \<or>
      r = - 1 \<and> (\<exists>s4. kfree E (adr q 0) s3 = Ret s4 \<and> ugrown E free ram s T V s4 T3 V))"
proof -
  note tk = taken_uspace [OF us q fr keep]
  have nV: "v \<notin> V" using v(2) leaf_entryD(1) [OF uspaceD(3) [OF us]] by auto
  have fq: "frame q" using tk(3) free_frame by auto
  have c: "card (free s) = Suc (card (free s2))"
    using card_Suc_Diff1 [OF finite_free q] by (simp only: fr)
  have "pte E (mem s2) T (adr v 0) AND 1 = 0" using v(2) tk(2) by simp
  from mappages_one [OF tk(1) v(1) this tk(3) perm, of fuel] obtain r s3 T3 where
    run: "mappages (Suc fuel) E (root T) (adr v 0) 4096 (adr q 0) perm s2 = Ret (r, s3)"
    and ex: "extends E free s2 T s3 T3" and mem: "2 \<le> card (free s2) \<longrightarrow> r = 0"
    and card: "r = 0 \<longrightarrow> card (free s2) \<le> card (free s3) + 2"
    and res: "r = 0 \<and> uspace E free ram s3 T3 (insert v V) \<and>
        (\<forall>va < MAXVA E. pte E (mem s3) T3 va = (if pg va = v then mkpte E q (scast perm) else pte E (mem s2) T va)) \<or>
      r = - 1 \<and> uspace E free ram s3 T3 V \<and> (\<forall>va < MAXVA E. pte E (mem s3) T3 va = pte E (mem s2) T va)"
    by blast
  have X: "T \<subseteq>\<^sub>m T3" "free s3 = free s2 - ran T3" "ran T3 \<subseteq> ran T \<union> free s2"
    "\<And>x. pg x \<notin> ran T \<union> free s2 \<Longrightarrow> mem s3 x = mem s2 x"
    using ex by (auto simp: extends_def)
  have q3: "q \<notin> ran T3" "q \<notin> free s3" using X tk(3) by auto
  have outside: "mem s3 x = mem s x" if "pg x \<notin> ran T \<union> free s" for x
    using that X(4) [of x] keep fr by simp
  show ?thesis
  proof (cases "r = 0")
    case True
    with res have us3: "uspace E free ram s3 T3 (insert v V)"
      and pte3: "\<And>va. va < MAXVA E \<Longrightarrow>
        pte E (mem s3) T3 va = (if pg va = v then mkpte E q (scast perm) else pte E (mem s) T va)"
      using tk(2) by auto
    have qv: "pte E (mem s3) T3 (adr v 0) = mkpte E q (scast perm)"
      using pte3 [OF vpage_less [OF v(1)]] pg_vpage [OF v(1)] by simp
    have one: "insert v V - V = {v}" using nV by auto
    have "fr E s3 T3 ` (insert v V - V) = {q}" unfolding one using qv fq perm(1) by simp
    then have "ugrown E free ram s T V s3 T3 (insert v V)"
      unfolding ugrown_def using us3 X fr q pte3 nV outside by auto
    moreover have "\<forall>x. pg x = q \<longrightarrow> mem s3 x = mem s2 x" using X(4) tk(3) by auto
    ultimately show ?thesis using run True qv card c by auto
  next
    case False
    with res have us3: "uspace E free ram s3 T3 V" and r: "r = - 1"
      and pte3: "\<And>va. va < MAXVA E \<Longrightarrow> pte E (mem s3) T3 va = pte E (mem s) T va"
      using tk(2) by auto
    have "q \<in> ram - free s3 - ran T3" using q3 tk(3) by auto
    from kfree_owned [OF uspaceD(1) [OF us3] this] obtain s4 where
      s4: "kfree E (adr q 0) s3 = Ret s4" "free s4 = insert q (free s3)" "owns E free s4 T3"
        "\<forall>va. pte E (mem s4) T3 va = pte E (mem s3) T3 va" "\<forall>x. pg x \<notin> insert q (free s3) \<longrightarrow> mem s4 x = mem s3 x"
      by blast
    have "mem s4 x = mem s x" if "pg x \<notin> ran T \<union> free s" for x
    proof -
      have "pg x \<notin> insert q (free s3)" using that X(2) fr q by auto
      then show ?thesis using s4(5) outside [OF that] by simp
    qed
    then have "extends E free s T s4 T3"
      unfolding extends_def using s4(2,3) X fr q q3 by auto
    from extends_ugrown [OF us this] s4 pte3 have "ugrown E free ram s T V s4 T3 V" by auto
    with run r s4(1) mem c show ?thesis by auto
  qed
qed

end

section \<open>The allocation loop\<close>

text \<open>The pages \<open>v\<close> whose frame is all zero.\<close>

definition zero_page :: "'w vext \<Rightarrow> 'w vm \<Rightarrow> ptree \<Rightarrow> nat \<Rightarrow> bool" where
  "zero_page E s T v \<longleftrightarrow> (\<forall>x. pg x = fr E s T v \<longrightarrow> mem s x = 0)"

context page_alloc
begin

lemma zero_page_ugrown:
  assumes g: "ugrown E free ram s T V s' T' W" and us: "uspace E free ram s T V" and v: "v \<in> V" "zero_page E s T v"
  shows "zero_page E s' T' v"
proof -
  note U = uspaceD [OF us]
  have "fr E s' T' v = fr E s T v" using ugrown_fr [OF g U(2) [OF v(1)]] v(1) by simp
  moreover have "mem s' x = mem s x" if "pg x = fr E s T v" for x
    using ugrownD(8) [OF g, of x] U(4) [OF v(1)] that by auto
  ultimately show ?thesis using v(2) by (simp add: zero_page_def)
qed

text \<open>Taking a page and clearing it.\<close>

lemma kalloc_zero:
  assumes "free s \<noteq> {}"
  obtains q s1 where "kalloc E s = (adr q 0, s1)" and "q \<in> free s" and "adr q 0 \<noteq> 0"
    and "free (on_mem (memset (adr q 0) 0 4096) s1) = free s - {q}"
    and "\<forall>x. pg x \<notin> free s \<longrightarrow> mem (on_mem (memset (adr q 0) 0 4096) s1) x = mem s x"
    and "\<forall>x. pg x = q \<longrightarrow> mem (on_mem (memset (adr q 0) 0 4096) s1) x = 0"
proof -
  from kalloc_law [OF assms] obtain q s1 where al: "kalloc E s = (adr q 0, s1)" "q \<in> free s"
    "free s1 = free s - {q}" "\<forall>x. pg x \<notin> free s \<longrightarrow> mem s1 x = mem s x" by blast
  have fq: "frame q" using al(2) free_ram free_frame by blast
  have "free (on_mem (memset (adr q 0) 0 4096) s1) = free s - {q}"
    using al(3) fq by (subst free_memset) auto
  moreover have "\<forall>x. pg x \<notin> free s \<longrightarrow> mem (on_mem (memset (adr q 0) 0 4096) s1) x = mem s x"
    using al(2,4) by (auto simp: memset_page [OF fq])
  ultimately show ?thesis
    using that al(1,2) adr_nonzero [OF fq] by (simp add: memset_page [OF fq])
qed

text \<open>The state of the loop after \<open>i\<close> pages from \<open>P\<close>.\<close>

lemma uvmalloc_undo:
  assumes g: "ugrown E free ram s T {..<P} s1 T1 {..<P + i}" and P: "P + i \<le> 2 ^ 26" and fuel: "P + i < fuel"
    and un: "\<And>va. va < MAXVA E \<Longrightarrow> P \<le> pg va \<Longrightarrow> pg va < P + i \<Longrightarrow> pte E (mem s) T va = 0"
  shows "\<exists>s2 r. uvmdealloc fuel E (root T1) (adr (P + i) 0) (adr P 0) s1 = Ret (r, s2) \<and>
    ugrown E free ram s T {..<P} s2 T1 {..<P}"
proof -
  have np: "npages (adr P 0) = P" "npages (adr (P + i) 0) = P + i" using P by (simp_all add: npages_vpage)
  have dom: "{..<P + i} - {..<P} = {P..<P + i}" by auto
  from uvmdealloc_spec [OF ugrownD(1) [OF g], of "adr P 0" "adr (P + i) 0" fuel] fuel obtain s2 r where
    s2: "uvmdealloc fuel E (root T1) (adr (P + i) 0) (adr P 0) s1 = Ret (r, s2)"
      "unmapped E free {P..<P + i} (fr E s1 T1 ` {P..<P + i}) s1 T1 s2"
    unfolding np using vpage_max [OF P] by (metis atLeastLessThan_iff lessThan_iff subsetI)
  from ugrown_undo [OF g, unfolded dom, OF s2(2)] un s2(1) show ?thesis by auto
qed

text \<open>The permissions \<open>uvmalloc\<close> gives a page.\<close>

abbreviation alloc_perm :: "i32 \<Rightarrow> i32" where
  "alloc_perm xperm \<equiv> perm_int (PTE_R E OR PTE_U E) OR xperm"

lemma uvmalloc_loop_spec:
  assumes g: "ugrown E free ram s0 T0 {..<P} s T {..<P + i}" and Q: "npages newsz = P + i + n" "newsz \<le> MAXVA E"
    and fuel: "P + i + 2 * n + 2 \<le> fuel"
    and un: "\<And>va. va < MAXVA E \<Longrightarrow> P \<le> pg va \<Longrightarrow> pg va < P + i + n \<Longrightarrow> pte E (mem s0) T0 va = 0"
    and z: "\<And>v. P \<le> v \<Longrightarrow> v < P + i \<Longrightarrow> zero_page E s T v"
    and perm: "take_bit 10 (scast (alloc_perm xperm) :: u64) = scast (alloc_perm xperm)"
      "(scast (alloc_perm xperm) :: u64) OR 1 \<noteq> 1"
    and flags: "\<And>v. P \<le> v \<Longrightarrow> v < P + i \<Longrightarrow>
      PTE_FLAGS E (pte E (mem s) T (adr v 0)) = scast (alloc_perm xperm) OR 1"
  shows "\<exists>r s' T'. uvmalloc_loop fuel E (root T) (adr (P + i) 0) (adr P 0) newsz xperm s = Ret (r, s') \<and>
     (r = newsz \<and> card (free s) \<le> card (free s') + 3 * n \<and> ugrown E free ram s0 T0 {..<P} s' T' {..<P + i + n} \<and>
        (\<forall>v. P \<le> v \<longrightarrow> v < P + i + n \<longrightarrow> zero_page E s' T' v \<and>
           PTE_FLAGS E (pte E (mem s') T' (adr v 0)) = scast (alloc_perm xperm) OR 1) \<or>
      r = 0 \<and> ugrown E free ram s0 T0 {..<P} s' T' {..<P}) \<and>
     (3 * n \<le> card (free s) \<longrightarrow> r = newsz)"
  using assms(1-6) flags
proof (induction n arbitrary: i s T fuel)
  case 0
  then obtain fuel' where "fuel = Suc fuel'" by (cases fuel) auto
  moreover have "\<not> adr (P + i) 0 < newsz"
    using 0 npages_le [OF Q(2)] by (simp add: vpage_less_size)
  ultimately show ?case using 0 by auto
next
  case (Suc n)
  note us = ugrownD(1) [OF Suc.prems(1)]
  obtain fuel' where fuel: "fuel = Suc (Suc fuel')" using Suc.prems(4) by (cases fuel; cases "fuel - 1") auto
  have PQ: "P + i + Suc n \<le> 2 ^ 26" using npages_le [OF Q(2)] Suc.prems(2) by simp
  then have a: "adr (P + i) 0 < newsz" "P + i < 2 ^ 26" using Suc.prems(2) by (simp_all add: vpage_less_size)
  have undo: "\<exists>s2 r. uvmdealloc (Suc fuel') E (root T1) (adr (P + i) 0) (adr P 0) s1 = Ret (r, s2) \<and>
      ugrown E free ram s0 T0 {..<P} s2 T1 {..<P}"
    if "ugrown E free ram s0 T0 {..<P} s1 T1 {..<P + i}" for s1 T1
    by (rule uvmalloc_undo [OF that]) (use PQ Suc.prems(4,5) fuel in auto)
  show ?case
  proof (cases "free s = {}")
    case True
    with a undo [OF Suc.prems(1)] kalloc_empty [OF True] show ?thesis
      by (force simp: fuel)
  next
    case False
    obtain q s1 where q: "kalloc E s = (adr q 0, s1)" "q \<in> free s" "adr q 0 \<noteq> 0"
      and s2: "free (on_mem (memset (adr q 0) 0 4096) s1) = free s - {q}"
        "\<forall>x. pg x \<notin> free s \<longrightarrow> mem (on_mem (memset (adr q 0) 0 4096) s1) x = mem s x"
        "\<forall>x. pg x = q \<longrightarrow> mem (on_mem (memset (adr q 0) 0 4096) s1) x = 0"
      by (rule kalloc_zero [OF False])
    let ?s2 = "on_mem (memset (adr q 0) 0 4096) s1"
    have "pte E (mem s) T (adr (P + i) 0) = pte E (mem s0) T0 (adr (P + i) 0)"
      by (rule ugrown_fr [OF Suc.prems(1) a(2)]) simp
    with Suc.prems(5) [OF vpage_less [OF a(2)]] pg_vpage [OF a(2)]
    have "pte E (mem s) T (adr (P + i) 0) AND 1 = 0" by simp
    from add_page [OF us q(2) s2(1,2) a(2) this perm, of fuel'] obtain r s3 T3 where
      run: "mappages (Suc fuel') E (root T) (adr (P + i) 0) 4096 (adr q 0) (alloc_perm xperm) ?s2 = Ret (r, s3)"
      and mem: "3 \<le> card (free s) \<longrightarrow> r = 0"
      and res: "r = 0 \<and> ugrown E free ram s T {..<P + i} s3 T3 (insert (P + i) {..<P + i}) \<and> card (free s) \<le> card (free s3) + 3 \<and>
          pte E (mem s3) T3 (adr (P + i) 0) = mkpte E q (scast (alloc_perm xperm)) \<and>
          (\<forall>x. pg x = q \<longrightarrow> mem s3 x = mem ?s2 x) \<or>
        r = - 1 \<and> (\<exists>s4. kfree E (adr q 0) s3 = Ret s4 \<and> ugrown E free ram s T {..<P + i} s4 T3 {..<P + i})"
      by blast
    show ?thesis
    proof (cases "r = 0")
      case r: False
      with res obtain s4 where s4: "kfree E (adr q 0) s3 = Ret s4"
        and g4: "ugrown E free ram s T {..<P + i} s4 T3 {..<P + i}" by blast
      from undo [OF ugrown_trans [OF Suc.prems(1) g4]] obtain s5 r5 where
        "uvmdealloc (Suc fuel') E (root T) (adr (P + i) 0) (adr P 0) s4 = Ret (r5, s5)"
        "ugrown E free ram s0 T0 {..<P} s5 T3 {..<P}"
        unfolding root_ugrown [OF us g4] by blast
      with a(1) q(1,3) run r s4 mem show ?thesis by (auto simp: fuel PGSIZE_eq)
    next
      case r: True
      have ins: "insert (P + i) {..<P + i} = {..<P + Suc i}" by auto
      from r res have g3: "ugrown E free ram s T {..<P + i} s3 T3 {..<P + Suc i}"
        and card: "card (free s) \<le> card (free s3) + 3"
        and qv: "pte E (mem s3) T3 (adr (P + i) 0) = mkpte E q (scast (alloc_perm xperm))"
        and qm: "\<forall>x. pg x = q \<longrightarrow> mem s3 x = mem ?s2 x"
        unfolding ins by auto
      have fq: "frame q" using q(2) free_ram free_frame by blast
      have flags3: "PTE_FLAGS E (pte E (mem s3) T3 (adr v 0)) = scast (alloc_perm xperm) OR 1"
        if "P \<le> v" "v < P + Suc i" for v
        using that qv mkpte_flags [OF fq perm(1)] Suc.prems(7) [of v] ugrown_fr [OF g3, of v] PQ
        by (cases "v = P + i") simp_all
      have "zero_page E s3 T3 (P + i)"
        using qv fq perm(1) qm s2(3) by (simp add: zero_page_def)
      then have zero3: "zero_page E s3 T3 v" if "P \<le> v" "v < P + Suc i" for v
        using that Suc.prems(6) [of v] zero_page_ugrown [OF g3 us, of v] by (cases "v = P + i") simp_all
      have "uvmalloc_loop fuel E (root T) (adr (P + i) 0) (adr P 0) newsz xperm s =
          uvmalloc_loop (Suc fuel') E (root T3) (adr (P + Suc i) 0) (adr P 0) newsz xperm s3"
        using a(1) q(1,3) run r root_ugrown [OF us g3] by (simp add: fuel PGSIZE_eq adr_next flip: PGSIZE_eq)
      moreover have "\<exists>r s' T'. uvmalloc_loop (Suc fuel') E (root T3) (adr (P + Suc i) 0) (adr P 0) newsz xperm s3 = Ret (r, s') \<and>
        (r = newsz \<and> card (free s3) \<le> card (free s') + 3 * n \<and> ugrown E free ram s0 T0 {..<P} s' T' {..<P + Suc i + n} \<and>
          (\<forall>v. P \<le> v \<longrightarrow> v < P + Suc i + n \<longrightarrow> zero_page E s' T' v \<and>
            PTE_FLAGS E (pte E (mem s') T' (adr v 0)) = scast (alloc_perm xperm) OR 1) \<or>
         r = 0 \<and> ugrown E free ram s0 T0 {..<P} s' T' {..<P}) \<and> (3 * n \<le> card (free s3) \<longrightarrow> r = newsz)"
        using Suc.prems(2,4,5) fuel flags3 zero3
        by (intro Suc.IH ugrown_trans [OF Suc.prems(1) g3] Q(2)) auto
      ultimately show ?thesis using card by auto
    qed
  qed
qed

end

section \<open>From one size to another\<close>

context page_alloc
begin

lemma uvmalloc_spec:
  assumes us: "uspace E free ram s T {..<npages oldsz}"
    and sz: "oldsz \<le> newsz" "newsz \<le> MAXVA E" and fuel: "2 * npages newsz + 2 \<le> fuel"
    and un: "\<And>va. va < MAXVA E \<Longrightarrow> npages oldsz \<le> pg va \<Longrightarrow> pg va < npages newsz \<Longrightarrow> pte E (mem s) T va = 0"
    and perm: "take_bit 10 (scast (alloc_perm xperm) :: u64) = scast (alloc_perm xperm)"
      "(scast (alloc_perm xperm) :: u64) OR 1 \<noteq> 1"
  shows "\<exists>r s' T'. uvmalloc fuel E (root T) oldsz newsz xperm s = Ret (r, s') \<and>
     (r = newsz \<and> card (free s) \<le> card (free s') + 3 * (npages newsz - npages oldsz) \<and>
        ugrown E free ram s T {..<npages oldsz} s' T' {..<npages newsz} \<and>
        (\<forall>v. npages oldsz \<le> v \<longrightarrow> v < npages newsz \<longrightarrow> zero_page E s' T' v \<and>
           PTE_FLAGS E (pte E (mem s') T' (adr v 0)) = scast (alloc_perm xperm) OR 1) \<or>
      r = 0 \<and> ugrown E free ram s T {..<npages oldsz} s' T' {..<npages oldsz}) \<and>
     (3 * (npages newsz - npages oldsz) \<le> card (free s) \<longrightarrow> r = newsz)"
proof -
  have le: "npages oldsz \<le> npages newsz" and max: "oldsz \<le> MAXVA E"
    using npages_mono [OF sz(1)] sz by auto
  define n where "n = npages newsz - npages oldsz"
  then have Q: "npages newsz = npages oldsz + 0 + n" using le by simp
  have "ugrown E free ram s T {..<npages oldsz} s T {..<npages oldsz + 0}"
    using ugrown_refl [OF us] by simp
  moreover have "\<not> newsz < oldsz" using sz(1) by simp
  then have "uvmalloc fuel E (root T) oldsz newsz xperm s =
      uvmalloc_loop fuel E (root T) (adr (npages oldsz + 0) 0) (adr (npages oldsz) 0) newsz xperm s"
    by (simp add: uvmalloc_def PGROUNDUP_adr [OF max])
  ultimately show ?thesis
    using uvmalloc_loop_spec [OF _ Q sz(2) _ _ _ perm, of s T s T fuel] fuel un by (simp add: Q)
qed

end

end
