(* ===== verification/Vm_Copy.thy ===== *)
theory Vm_Copy
  imports Vm_Alloc
begin

text \<open>
  \<open>uvmcopy\<close>, the memory half of \<open>fork\<close>: the child's table gets, for every page of the parent, a
  fresh frame with the same contents and permissions; when memory runs out the child's pages are
  given back. The parent's table and frames are not touched.
\<close>

text \<open>Page \<open>v\<close> of one table has the permissions and contents that page \<open>v\<close> of the other had.\<close>

definition same_page :: "'w vext \<Rightarrow> 'w vm \<Rightarrow> ptree \<Rightarrow> 'w vm \<Rightarrow> ptree \<Rightarrow> nat \<Rightarrow> bool" where
  "same_page E s T s' T' v \<longleftrightarrow>
     PTE_FLAGS E (pte E (mem s') T' (adr v 0)) = PTE_FLAGS E (pte E (mem s) T (adr v 0)) \<and>
     (\<forall>d < 4096. mem s' (adr (fr E s' T' v) d) = mem s (adr (fr E s T v) d))"

text \<open>The pages of one table and its frames are apart from another table.\<close>

definition apart :: "'w vext \<Rightarrow> 'w vm \<Rightarrow> ptree \<Rightarrow> nat set \<Rightarrow> ptree \<Rightarrow> bool" where
  "apart E s T V N \<longleftrightarrow> ran T \<inter> ran N = {} \<and> fr E s T ` V \<inter> ran N = {}"

context page_alloc
begin

text \<open>A table that is apart from one that grows keeps its entries and contents.\<close>

lemma apart_keeps:
  assumes us: "uspace E free ram s T V" and ap: "apart E s T V N" and g: "ugrown E free ram s N W s' N' W'"
  shows "\<And>va. pte E (mem s') T va = pte E (mem s) T va" and "uspace E free ram s' T V"
    and "\<And>x. pg x \<in> ran T \<union> fr E s T ` V \<Longrightarrow> mem s' x = mem s x" and "apart E s' T V N'"
proof -
  note U = uspaceD [OF us] and G = ugrownD [OF g]
  have disj: "ran T \<inter> free s = {}" using U(1) by (simp add: owns_def)
  have out: "k \<notin> ran N \<union> free s" if "k \<in> ran T \<union> fr E s T ` V" for k
    using that ap disj U(4) by (auto simp: apart_def)
  then show keep: "mem s' x = mem s x" if "pg x \<in> ran T \<union> fr E s T ` V" for x
    using that G(8) by blast
  have ok: "pt_ok E (mem s) T" using U(1) by (simp add: owns_def)
  show pte: "pte E (mem s') T va = pte E (mem s) T va" for va
    using keep pt_okD(1) [OF ok] by (intro pte_cong) auto
  have "pt_ok E (mem s') T = pt_ok E (mem s) T"
    using keep pt_okD(1) [OF ok] by (intro pt_ok_cong) auto
  then show "uspace E free ram s' T V"
    using us ok G(6) by (auto simp: uspace_def owns_def pte)
  show "apart E s' T V N'"
    unfolding apart_def pte using G(4) out by blast
qed

lemma same_page_ugrown:
  assumes g: "ugrown E free ram s N V s' N' W" and us: "uspace E free ram s N V" and v: "v \<in> V"
    and sp: "same_page E s0 T0 s N v"
  shows "same_page E s0 T0 s' N' v"
proof -
  note U = uspaceD [OF us]
  have eq: "pte E (mem s') N' (adr v 0) = pte E (mem s) N (adr v 0)"
    using ugrown_fr [OF g U(2) [OF v]] v by simp
  have "mem s' (adr (fr E s N v) d) = mem s (adr (fr E s N v) d)" if "d < 4096" for d
  proof -
    have "pg (adr (fr E s N v) d) = fr E s N v"
      using that leaf_entryD(3) [OF U(3) [OF v]] by (intro pg_adr)
    then show ?thesis using ugrownD(8) [OF g, of "adr (fr E s N v) d"] U(4) [OF v] by simp
  qed
  with sp eq show ?thesis by (simp add: same_page_def)
qed

text \<open>The permission argument made from a leaf entry.\<close>

lemma flags_perm:
  assumes "leaf_entry E e"
  shows "(scast (perm_int (PTE_FLAGS E e)) :: u64) = PTE_FLAGS E e" and "take_bit 10 (PTE_FLAGS E e) = PTE_FLAGS E e"
    and "PTE_FLAGS E e OR 1 \<noteq> 1" and "PTE_FLAGS E e OR 1 = PTE_FLAGS E e"
proof -
  from assms obtain k f where e: "e = mkpte E k f" "frame k" "take_bit 10 f = f" "f OR 1 \<noteq> 1"
    by (auto simp: leaf_entry_def)
  then have F: "PTE_FLAGS E e = f OR 1" by (simp add: mkpte_flags)
  then show o1: "PTE_FLAGS E e OR 1 = PTE_FLAGS E e" and "PTE_FLAGS E e OR 1 \<noteq> 1"
    using e(4) by (simp_all add: or.assoc)
  have m: "(1023 :: u64) = mask 10" by (simp add: mask_eq_exp_minus_1)
  then have t: "PTE_FLAGS E e = take_bit 10 e" by (simp add: PTE_FLAGS_eq take_bit_eq_mask)
  then show "take_bit 10 (PTE_FLAGS E e) = PTE_FLAGS E e" by simp
  show "(scast (perm_int (PTE_FLAGS E e)) :: u64) = PTE_FLAGS E e"
    unfolding t by (rule bit_eqI) (auto simp: bit_simps)
qed

text \<open>Taking a page and filling it with the contents of another.\<close>

lemma kalloc_copy:
  assumes "free s \<noteq> {}" and p: "frame p" "p \<notin> free s"
  obtains q s1 where "kalloc E s = (adr q 0, s1)" and "q \<in> free s" and "adr q 0 \<noteq> 0"
    and "free (on_mem (memmove (adr q 0) (adr p 0) 4096) s1) = free s - {q}"
    and "\<forall>x. pg x \<notin> free s \<longrightarrow> mem (on_mem (memmove (adr q 0) (adr p 0) 4096) s1) x = mem s x"
    and "\<forall>d < 4096. mem (on_mem (memmove (adr q 0) (adr p 0) 4096) s1) (adr q d) = mem s (adr p d)"
proof -
  from kalloc_law [OF assms(1)] obtain q s1 where al: "kalloc E s = (adr q 0, s1)" "q \<in> free s"
    "free s1 = free s - {q}" "\<forall>x. pg x \<notin> free s \<longrightarrow> mem s1 x = mem s x" by blast
  let ?s2 = "on_mem (memmove (adr q 0) (adr p 0) 4096) s1"
  have fq: "frame q" using al(2) free_ram free_frame by blast
  note mv = memmove_run [OF fq, of 0 4096 "adr p 0" "mem s1", simplified]
  have other: "mem ?s2 x = mem s1 x" if "pg x \<noteq> q" for x
    using that pg_adr [OF fq] by (auto simp: mv)
  have "free ?s2 = free s1" using al(3) other by (intro free_other) auto
  moreover have "\<forall>x. pg x \<notin> free s \<longrightarrow> mem ?s2 x = mem s x"
  proof (intro allI impI)
    fix x assume x: "pg x \<notin> free s"
    then have "pg x \<noteq> q" using al(2) by auto
    then show "mem ?s2 x = mem s x" using other al(4) x by simp
  qed
  moreover have "mem ?s2 (adr q d) = mem s (adr p d)" if "d < 4096" for d
  proof -
    have "unat (adr q d - adr q 0) = d" using adr_diff [OF fq, of 0 d] that by simp
    then have "adr p 0 + (adr q d - adr q 0) = adr p d" by (simp add: adr_add_word)
    moreover have "pg (adr p d) \<notin> free s" using p pg_adr that by simp
    ultimately show ?thesis using that al(4) by (auto simp: mv)
  qed
  ultimately show ?thesis using that al(1-3) adr_nonzero [OF fq] by simp
qed

end

section \<open>The copy loop\<close>

text \<open>
  The state of the loop after \<open>i\<close> pages: the parent \<open>T\<close> in the starting state \<open>s0\<close>, the child
  \<open>N\<close> grown from \<open>K0\<close>, its pages copies of the parent's.
\<close>

definition copied ::
    "'w vext \<Rightarrow> ('w vm \<Rightarrow> nat set) \<Rightarrow> nat set \<Rightarrow> nat \<Rightarrow> 'w vm \<Rightarrow> ptree \<Rightarrow> ptree \<Rightarrow> nat \<Rightarrow> 'w vm \<Rightarrow> ptree \<Rightarrow> bool"
where
  "copied E free ram Q s0 T K0 i s N \<longleftrightarrow>
     uspace E free ram s0 T {..<Q} \<and> apart E s0 T {..<Q} K0 \<and>
     (\<forall>va < MAXVA E. pg va < Q \<longrightarrow> pte E (mem s0) K0 va = 0) \<and>
     ugrown E free ram s0 K0 {} s N {..<i} \<and> (\<forall>v < i. same_page E s0 T s N v)"

lemma copiedD:
  assumes "copied E free ram Q s0 T K0 i s N"
  shows "uspace E free ram s0 T {..<Q}" and "apart E s0 T {..<Q} K0"
    and "\<And>va. va < MAXVA E \<Longrightarrow> pg va < Q \<Longrightarrow> pte E (mem s0) K0 va = 0"
    and "ugrown E free ram s0 K0 {} s N {..<i}" and "\<And>v. v < i \<Longrightarrow> same_page E s0 T s N v"
  using assms unfolding copied_def by auto

context page_alloc
begin

text \<open>Out of memory: the pages copied so far are unmapped and freed.\<close>

lemma uvmcopy_undo:
  assumes g: "ugrown E free ram s0 K0 {} s N {..<i}" and i: "i \<le> 2 ^ 26" "i < fuel"
    and un: "\<And>va. va < MAXVA E \<Longrightarrow> pg va < i \<Longrightarrow> pte E (mem s0) K0 va = 0"
  shows "\<exists>s'. uvmunmap fuel E (root N) 0 (adr i 0 div PGSIZE E) True s = Ret s' \<and>
    ugrown E free ram s0 K0 {} s' N {}"
proof -
  have "adr i 0 div 4096 = (of_nat i :: u64)"
    using i(1) by (simp add: word_unat_eq_iff unat_div unat_vpage unat_of_nat)
  moreover have "(0 :: u64) = adr 0 0" by (simp add: adr_def)
  moreover obtain s' where "uvmunmap fuel E (root N) (adr 0 0) (of_nat i) True s = Ret s'"
    and u: "unmapped E free {..<i} (fr E s N ` {..<i}) s N s'"
    using uvmunmap_spec [OF ugrownD(1) [OF g], of 0 i fuel True] i by (auto simp: atLeast0LessThan)
  moreover from g u un have "ugrown E free ram s0 K0 {} s' N {}"
    by (intro ugrown_undo [of s0 K0 "{}" s N "{..<i}"]) auto
  ultimately show ?thesis by (simp add: PGSIZE_eq)
qed

lemma copied_step:
  assumes c: "copied E free ram Q s0 T K0 i s N" and i: "i < Q"
    and g: "ugrown E free ram s N {..<i} s1 K1 (insert i {..<i})"
    and flags: "PTE_FLAGS E (pte E (mem s1) K1 (adr i 0)) = PTE_FLAGS E (pte E (mem s0) T (adr i 0))"
    and bytes: "\<forall>d < 4096. mem s1 (adr (fr E s1 K1 i) d) = mem s0 (adr (fr E s0 T i) d)"
  shows "copied E free ram Q s0 T K0 (Suc i) s1 K1"
proof -
  note C = copiedD [OF c]
  have g': "ugrown E free ram s N {..<i} s1 K1 {..<Suc i}" using g by (simp add: lessThan_Suc)
  have "same_page E s0 T s1 K1 v" if "v < Suc i" for v
    using that flags bytes same_page_ugrown [OF g' ugrownD(1) [OF C(4)] _ C(5), of v]
    by (cases "v = i") (auto simp: same_page_def)
  with C(1-3) ugrown_trans [OF C(4) g'] show ?thesis by (simp add: copied_def)
qed

end

context page_alloc
begin

text \<open>One round: the next page is copied, or everything is undone.\<close>

lemma uvmcopy_round:
  assumes c: "copied E free ram Q s0 T K0 i s N" and i: "i < Q" "Q = npages sz" "sz \<le> MAXVA E"
    and fuel: "i < Suc fuel"
  shows "(\<exists>s1 K1. uvmcopy_loop (Suc (Suc fuel)) E (root T) (root N) (adr i 0) sz s = Ret (- 1, s1) \<and>
        ugrown E free ram s0 K0 {} s1 K1 {} \<and> card (free s) < 3) \<or>
     (\<exists>s1 K1. uvmcopy_loop (Suc (Suc fuel)) E (root T) (root N) (adr i 0) sz s =
          uvmcopy_loop (Suc fuel) E (root T) (root K1) (adr (Suc i) 0) sz s1 \<and>
        copied E free ram Q s0 T K0 (Suc i) s1 K1 \<and> card (free s) \<le> card (free s1) + 3)"
proof -
  note C = copiedD [OF c]
  note keep = apart_keeps [OF C(1,2,4)]
  note usN = ugrownD(1) [OF C(4)]
  have Q: "Q \<le> 2 ^ 26" using npages_le [OF i(3)] i(2) by simp
  then have i26: "i < 2 ^ 26" and lt: "adr i 0 < sz" using i by (simp_all add: vpage_less_size)
  define e where "e = pte E (mem s) T (adr i 0)"
  have le: "leaf_entry E e" using uspaceD(3) [OF keep(2), of i] i(1) by (simp add: e_def)
  have e0: "e = pte E (mem s0) T (adr i 0)" by (simp add: e_def keep(1))
  obtain k where w: "walk E (root T) (adr i 0) False s = Ret (entry k (px E 0 (adr i 0)), s)"
    "entry k (px E 0 (adr i 0)) \<noteq> 0" "read64 (mem s) (entry k (px E 0 (adr i 0))) = e"
    using entry_leaf [OF uspaceD(1) [OF keep(2)] i26, folded e_def, OF le] by blast
  have undo: "\<exists>s'. uvmunmap (Suc fuel) E (root N') 0 (adr i 0 div PGSIZE E) True s1 = Ret s' \<and>
      ugrown E free ram s0 K0 {} s' N' {}" if "ugrown E free ram s0 K0 {} s1 N' {..<i}" for s1 N'
    using that i26 fuel i(1) C(3) by (intro uvmcopy_undo) auto
  show ?thesis
  proof (cases "free s = {}")
    case True
    with undo [OF C(4)] w lt leaf_entryD(1) [OF le] kalloc_empty [OF True] show ?thesis
      by (intro disjI1) (auto simp: PTE_V_eq)
  next
    case False
    have fp: "frame (frame_of E e)" "frame_of E e \<notin> free s"
      using leaf_entryD(3) [OF le] uspaceD(4) [OF keep(2), of i] i(1) by (simp_all add: e_def)
    obtain q s1 where q: "kalloc E s = (adr q 0, s1)" "q \<in> free s" "adr q 0 \<noteq> 0"
      and s2: "free (on_mem (memmove (adr q 0) (adr (frame_of E e) 0) 4096) s1) = free s - {q}"
        "\<forall>x. pg x \<notin> free s \<longrightarrow> mem (on_mem (memmove (adr q 0) (adr (frame_of E e) 0) 4096) s1) x = mem s x"
        "\<forall>d < 4096. mem (on_mem (memmove (adr q 0) (adr (frame_of E e) 0) 4096) s1) (adr q d) = mem s (adr (frame_of E e) d)"
      by (rule kalloc_copy [OF False fp])
    let ?s2 = "on_mem (memmove (adr q 0) (adr (frame_of E e) 0) 4096) s1"
    have un: "pte E (mem s) N (adr i 0) AND 1 = 0"
      using ugrown_fr [OF C(4) i26] C(3) [OF vpage_less [OF i26]] pg_vpage [OF i26] i(1) by simp
    note fl = flags_perm [OF le]
    from add_page [OF usN q(2) s2(1,2) i26 un, of "perm_int (PTE_FLAGS E e)" fuel] fl
    obtain r s3 K3 where
      run: "mappages (Suc fuel) E (root N) (adr i 0) 4096 (adr q 0) (perm_int (PTE_FLAGS E e)) ?s2 = Ret (r, s3)"
      and mem: "3 \<le> card (free s) \<longrightarrow> r = 0"
      and res: "r = 0 \<and> ugrown E free ram s N {..<i} s3 K3 (insert i {..<i}) \<and> card (free s) \<le> card (free s3) + 3 \<and>
          pte E (mem s3) K3 (adr i 0) = mkpte E q (PTE_FLAGS E e) \<and> (\<forall>x. pg x = q \<longrightarrow> mem s3 x = mem ?s2 x) \<or>
        r = - 1 \<and> (\<exists>s4. kfree E (adr q 0) s3 = Ret s4 \<and> ugrown E free ram s N {..<i} s4 K3 {..<i})"
      by auto
    note go = w lt leaf_entryD(1,2) [OF le] q(1,3) run
    from res show ?thesis
    proof (elim disjE conjE exE)
      assume r: "r = 0" and g: "ugrown E free ram s N {..<i} s3 K3 (insert i {..<i})"
        and card: "card (free s) \<le> card (free s3) + 3"
        and p: "pte E (mem s3) K3 (adr i 0) = mkpte E q (PTE_FLAGS E e)" and m: "\<forall>x. pg x = q \<longrightarrow> mem s3 x = mem ?s2 x"
      have fq: "frame q" using q(2) free_ram free_frame by blast
      have bytes: "mem s3 (adr q d) = mem s0 (adr (frame_of E e) d)" if "d < 4096" for d
        using m s2(3) that pg_adr [OF fq that] keep(3) [of "adr (frame_of E e) d"] pg_adr [OF fp(1) that] i(1)
        by (simp add: e0)
      have "copied E free ram Q s0 T K0 (Suc i) s3 K3"
        by (rule copied_step [OF c i(1) g])
          (use p fl fq bytes mkpte_flags [OF fq fl(2)] in \<open>simp_all add: e0 [symmetric]\<close>)
      with go r card root_ugrown [OF usN g] show ?thesis
        by (intro disjI2 exI [of _ s3] exI [of _ K3]) (simp add: PTE_V_eq PGSIZE_eq adr_next flip: PGSIZE_eq)
    next
      fix s4 assume r: "r = - 1" and s4: "kfree E (adr q 0) s3 = Ret s4"
        and g: "ugrown E free ram s N {..<i} s4 K3 {..<i}"
      from undo [OF ugrown_trans [OF C(4) g]] obtain s5 where
        "uvmunmap (Suc fuel) E (root N) 0 (adr i 0 div PGSIZE E) True s4 = Ret s5" "ugrown E free ram s0 K0 {} s5 K3 {}"
        unfolding root_ugrown [OF usN g] by blast
      with go r s4 mem show ?thesis
        by (intro disjI1 exI [of _ s5] exI [of _ K3]) (auto simp: PTE_V_eq PGSIZE_eq)
    qed
  qed
qed

end

context page_alloc
begin

lemma uvmcopy_loop_spec:
  assumes "copied E free ram Q s0 T K0 i s N" and Q: "Q = npages sz" "sz \<le> MAXVA E"
    and "i + n = Q" and "i + 2 * n + 2 \<le> fuel"
  shows "\<exists>r s' K. uvmcopy_loop fuel E (root T) (root N) (adr i 0) sz s = Ret (r, s') \<and>
     (r = 0 \<and> copied E free ram Q s0 T K0 Q s' K \<or> r = - 1 \<and> ugrown E free ram s0 K0 {} s' K {}) \<and>
     (3 * n \<le> card (free s) \<longrightarrow> r = 0)"
  using assms(1,4,5)
proof (induction n arbitrary: i s N fuel)
  case 0
  then obtain fuel' where "fuel = Suc fuel'" by (cases fuel) auto
  moreover have "\<not> adr i 0 < sz" using 0(2) Q npages_le [OF Q(2)] by (simp add: vpage_less_size)
  ultimately show ?case using 0 by auto
next
  case (Suc n)
  obtain fuel' where fuel: "fuel = Suc (Suc fuel')" using Suc.prems(3) by (cases fuel; cases "fuel - 1") auto
  have i: "i < Q" "i < Suc fuel'" using Suc.prems(2,3) fuel by auto
  from uvmcopy_round [OF Suc.prems(1) i(1) Q i(2)]
  show ?case
  proof (elim disjE exE conjE)
    fix s1 K1 assume "uvmcopy_loop (Suc (Suc fuel')) E (root T) (root N) (adr i 0) sz s = Ret (- 1, s1)"
      "ugrown E free ram s0 K0 {} s1 K1 {}" "card (free s) < 3"
    then show ?thesis unfolding fuel by auto
  next
    fix s1 K1 assume run: "uvmcopy_loop (Suc (Suc fuel')) E (root T) (root N) (adr i 0) sz s =
          uvmcopy_loop (Suc fuel') E (root T) (root K1) (adr (Suc i) 0) sz s1"
      and c1: "copied E free ram Q s0 T K0 (Suc i) s1 K1" and card: "card (free s) \<le> card (free s1) + 3"
    from Suc.IH [OF c1, of "Suc fuel'"] Suc.prems(2,3) fuel run card show ?thesis
      unfolding fuel run by fastforce
  qed
qed

lemma uvmcopy_spec:
  assumes par: "uspace E free ram s T {..<npages sz}" and chi: "owns E free s N"
    and ap: "apart E s T {..<npages sz} N" and sz: "sz \<le> MAXVA E" "2 * npages sz + 2 \<le> fuel"
    and un: "\<And>va. va < MAXVA E \<Longrightarrow> pg va < npages sz \<Longrightarrow> pte E (mem s) N va = 0"
  shows "\<exists>r s' K. uvmcopy fuel E (root T) (root N) sz s = Ret (r, s') \<and>
     (r = 0 \<and> ugrown E free ram s N {} s' K {..<npages sz} \<and> (\<forall>v < npages sz. same_page E s T s' K v) \<or>
      r = - 1 \<and> ugrown E free ram s N {} s' K {}) \<and>
     uspace E free ram s' T {..<npages sz} \<and> (\<forall>v < npages sz. same_page E s T s' T v) \<and>
     (3 * npages sz \<le> card (free s) \<longrightarrow> r = 0)"
proof -
  have "uspace E free ram s N {}" using chi by (simp add: uspace_def)
  then have c: "copied E free ram (npages sz) s T K0 0 s K0" if "K0 = N" for K0
    using par ap un ugrown_refl that by (auto simp: copied_def)
  have z: "(0 :: u64) = adr 0 0" by (simp add: adr_def)
  from uvmcopy_loop_spec [OF c [OF refl] refl sz(1), of "npages sz" fuel] sz(2) obtain r s' K where
    run: "uvmcopy fuel E (root T) (root N) sz s = Ret (r, s')"
    and res: "r = 0 \<and> copied E free ram (npages sz) s T N (npages sz) s' K \<or> r = - 1 \<and> ugrown E free ram s N {} s' K {}"
    and mem: "3 * npages sz \<le> card (free s) \<longrightarrow> r = 0"
    by (auto simp: uvmcopy_def z)
  have g: "\<exists>W. ugrown E free ram s N {} s' K W" using res copiedD(4) by blast
  then have keep: "uspace E free ram s' T {..<npages sz}" "\<And>va. pte E (mem s') T va = pte E (mem s) T va"
    "\<And>x. pg x \<in> ran T \<union> fr E s T ` {..<npages sz} \<Longrightarrow> mem s' x = mem s x"
    using apart_keeps [OF par ap] by blast+
  have "same_page E s T s' T v" if "v < npages sz" for v
    using keep(3) pg_adr [OF leaf_entryD(3) [OF uspaceD(3) [OF par]]] that by (auto simp: same_page_def keep(2))
  moreover have "r = 0 \<and> ugrown E free ram s N {} s' K {..<npages sz} \<and> (\<forall>v < npages sz. same_page E s T s' K v) \<or>
      r = - 1 \<and> ugrown E free ram s N {} s' K {}"
    using res by (simp add: copied_def) blast
  ultimately show ?thesis
    using run mem keep(1) by (intro exI [of _ r] exI [of _ s'] exI [of _ K]) simp
qed

end

end
