(* ===== verification/Vm_User.thy ===== *)
theory Vm_User
  imports Vm_Copy
begin

text \<open>
  Copying between the kernel and user memory. User memory is the map from user addresses through
  the leaf entries to the bytes of frames; a copy goes on page by page while the pages are
  accessible to the user, and reports the first one that is not.
\<close>

section \<open>User memory\<close>

text \<open>Virtual page \<open>v\<close> is valid and accessible in user mode.\<close>

definition uacc :: "'w vext \<Rightarrow> bytes \<Rightarrow> ptree \<Rightarrow> nat \<Rightarrow> bool" where
  "uacc E m T v \<longleftrightarrow> v < 2 ^ 26 \<and> pte E m T (adr v 0) AND 1 \<noteq> 0 \<and> pte E m T (adr v 0) AND 16 \<noteq> 0"

text \<open>Where the byte at user address \<open>d\<close> is kept.\<close>

definition ua :: "'w vext \<Rightarrow> bytes \<Rightarrow> ptree \<Rightarrow> nat \<Rightarrow> addr64" where
  "ua E m T d = adr (frame_of E (pte E m T (adr (d div 4096) 0))) (d mod 4096)"

text \<open>Every page the user can access has a frame of its own.\<close>

abbreviation user_space :: "'w vext \<Rightarrow> ('w vm \<Rightarrow> nat set) \<Rightarrow> nat set \<Rightarrow> 'w vm \<Rightarrow> ptree \<Rightarrow> bool" where
  "user_space E free ram s T \<equiv> uspace E free ram s T (Collect (uacc E (mem s) T))"

text \<open>
  \<open>c\<close> bytes of a copy of \<open>L\<close> bytes to or from the user address \<open>D\<close> are possible: all of them, or
  those before the first page that is not accessible.
\<close>

definition copy_extent :: "'w vext \<Rightarrow> bytes \<Rightarrow> ptree \<Rightarrow> nat \<Rightarrow> nat \<Rightarrow> nat \<Rightarrow> bool" where
  "copy_extent E m T D L c \<longleftrightarrow> c \<le> L \<and> (\<forall>i < c. uacc E m T ((D + i) div 4096)) \<and>
     (c < L \<longrightarrow> \<not> uacc E m T ((D + c) div 4096))"

text \<open>The bytes of the copy that lie in the first page, and the start of the next page.\<close>

definition run1 :: "nat \<Rightarrow> nat \<Rightarrow> nat" where
  "run1 D L = min (4096 - D mod 4096) L"

definition next_page :: "nat \<Rightarrow> nat" where
  "next_page D = 4096 * Suc (D div 4096)"

lemma mod_page: "D mod 4096 < (4096 :: nat)"
  by simp

lemma run1_page: "i < run1 D L \<Longrightarrow> (D + i) div 4096 = D div 4096 \<and> (D + i) mod 4096 = D mod 4096 + i"
proof -
  assume "i < run1 D L"
  then have "D mod 4096 + i < 4096" using mod_page [of D] unfolding run1_def by linarith
  moreover have "D + i = 4096 * (D div 4096) + (D mod 4096 + i)" by simp
  ultimately show ?thesis by (metis div_mult_self4 div_less mod_mult_self4 mod_less add.right_neutral
      zero_neq_numeral)
qed

lemma run1_rest: "run1 D L < L \<Longrightarrow> D + run1 D L = next_page D"
proof -
  assume "run1 D L < L"
  then have "run1 D L = 4096 - D mod 4096" by (simp add: run1_def min_def split: if_splits)
  moreover have "D = 4096 * (D div 4096) + D mod 4096" "D mod 4096 < 4096" by simp_all
  ultimately have "D + run1 D L = 4096 * (D div 4096) + 4096" by linarith
  then show ?thesis by (simp add: next_page_def)
qed

lemma run1_pos: "0 < L \<Longrightarrow> 0 < run1 D L"
  by (simp add: run1_def)

lemma run1_le: "run1 D L \<le> L" "D mod 4096 + run1 D L \<le> 4096"
  using mod_page [of D] unfolding run1_def by linarith+

text \<open>The number of pages a copy touches decreases.\<close>

definition pages :: "nat \<Rightarrow> nat \<Rightarrow> nat" where
  "pages D L = (if L = 0 then 0 else (D mod 4096 + L + 4095) div 4096)"

lemma pages_step: "0 < L \<Longrightarrow> Suc (pages (next_page D) (L - run1 D L)) = pages D L"
proof (cases "run1 D L < L")
  case True
  then have r: "run1 D L = 4096 - D mod 4096" by (simp add: run1_def min_def split: if_splits)
  have d: "D mod 4096 < 4096" by simp
  have "D mod 4096 + L + 4095 = (L - run1 D L + 4095) + 4096" using r d True by linarith
  then have "(D mod 4096 + L + 4095) div 4096 = Suc ((L - run1 D L + 4095) div 4096)" by simp
  then show ?thesis using True by (simp add: pages_def next_page_def)
next
  case False
  assume L: "0 < L"
  from False run1_le(1) [of D L] have "run1 D L = L" by simp
  moreover from this have "D mod 4096 + L \<le> 4096" using run1_le(2) [of D L] by simp
  then have "(D mod 4096 + L + 4095) div 4096 = 1" using L by (intro div_nat_eqI) simp_all
  ultimately show ?thesis using L by (simp add: pages_def)
qed

lemma copy_extent_step:
  assumes acc: "uacc E m T (D div 4096)" and ext: "copy_extent E m T (next_page D) (L - run1 D L) c"
  shows "copy_extent E m T D L (run1 D L + c)"
    and "\<And>i. run1 D L \<le> i \<Longrightarrow> i < run1 D L + c \<Longrightarrow> D + i = next_page D + (i - run1 D L)"
proof -
  have c: "c \<le> L - run1 D L" using ext by (simp add: copy_extent_def)
  show i: "D + i = next_page D + (i - run1 D L)" if "run1 D L \<le> i" "i < run1 D L + c" for i
  proof -
    have "run1 D L < L" using that c by linarith
    with run1_rest that(1) show ?thesis by fastforce
  qed
  have "uacc E m T ((D + i) div 4096)" if "i < run1 D L + c" for i
  proof (cases "i < run1 D L")
    case True
    then show ?thesis using acc run1_page by simp
  next
    case False
    then have "i - run1 D L < c" "D + i = next_page D + (i - run1 D L)" using that i by simp_all
    then show ?thesis using ext unfolding copy_extent_def by metis
  qed
  moreover have "\<not> uacc E m T ((D + (run1 D L + c)) div 4096)" if "run1 D L + c < L"
    using that ext run1_rest [of D L] by (auto simp: copy_extent_def simp flip: add.assoc)
  ultimately show "copy_extent E m T D L (run1 D L + c)"
    using c run1_le(1) [of D L] by (auto simp: copy_extent_def)
qed

lemma memmove_at:
  assumes "i < 2 ^ 64" and "n < 2 ^ 64"
  shows "memmove dst src (of_nat n) m (dst + of_nat i) =
    (if i < n then m (src + of_nat i) else m (dst + of_nat i))"
proof -
  have "(of_nat i :: u64) < of_nat n \<longleftrightarrow> i < n"
    using assms by (simp add: word_less_nat_alt unat_of_nat)
  then show ?thesis by (simp add: memmove_def)
qed

context sv39
begin

lemma uacc_same: "(\<And>va. pte E m' T va = pte E m T va) \<Longrightarrow> uacc E m' T = uacc E m T"
  by (simp add: uacc_def fun_eq_iff)

lemma ua_same: "(\<And>va. pte E m' T va = pte E m T va) \<Longrightarrow> ua E m' T = ua E m T"
  by (simp add: ua_def fun_eq_iff)

lemma copy_extent_same: "(\<And>va. pte E m' T va = pte E m T va) \<Longrightarrow> copy_extent E m' T = copy_extent E m T"
  using uacc_same [of m' T m] by (simp add: copy_extent_def [abs_def])

text \<open>The page of a user address, and what \<open>walkaddr\<close> finds there.\<close>

lemma vpage_MAXVA: "D < 2 ^ 64 \<Longrightarrow> adr (D div 4096) 0 < MAXVA E \<longleftrightarrow> D div 4096 < 2 ^ 26"
  by (simp add: adr_def word_less_nat_alt MAXVA_eq unat_of_nat unat_word_ariths)

lemma user_page:
  assumes "D < 2 ^ 64"
  shows "PGROUNDDOWN E (of_nat D) = adr (D div 4096) 0"
    and "of_nat D - adr (D div 4096) 0 = (of_nat (D mod 4096) :: u64)"
proof -
  have u: "unat (of_nat D :: u64) = D" using assms by (simp add: unat_of_nat)
  then show "PGROUNDDOWN E (of_nat D) = adr (D div 4096) 0" by (simp add: PGROUNDDOWN_adr pg_def)
  have "(of_nat D :: u64) = adr (D div 4096) 0 + of_nat (D mod 4096)" by (simp only: adr_add) (simp add: adr_def flip: of_nat_mult of_nat_add)
  then show "of_nat D - adr (D div 4096) 0 = (of_nat (D mod 4096) :: u64)" by (metis add_diff_cancel_left')
qed

lemma walkaddr_user:
  assumes us: "user_space E free ram s T" and D: "D < 2 ^ 64"
  shows "walkaddr E (root T) (adr (D div 4096) 0) s =
    Ret (if uacc E (mem s) T (D div 4096) then adr (frame_of E (pte E (mem s) T (adr (D div 4096) 0))) 0 else 0)"
proof -
  have ok: "pt_ok E (mem s) T" using uspaceD(1) [OF us] by (simp add: owns_def)
  have "PTE2PA E (pte E (mem s) T (adr v 0)) = adr (frame_of E (pte E (mem s) T (adr v 0))) 0"
    if "uacc E (mem s) T v" for v
    using leaf_entryD(2) [OF uspaceD(3) [OF us]] that by simp
  then show ?thesis
    unfolding walkaddr_eq [OF ok] using vpage_MAXVA [OF D] by (auto simp: uacc_def)
qed

text \<open>The length of the run that stays in the page.\<close>

lemma run_length:
  assumes "L < 2 ^ 64"
  shows "(if (4096 :: u64) - of_nat (D mod 4096) > of_nat L then of_nat L else 4096 - of_nat (D mod 4096)) =
    (of_nat (run1 D L) :: u64)"
proof -
  have "D mod 4096 \<le> 4096" by (rule less_imp_le) simp
  then have "(4096 :: u64) - of_nat (D mod 4096) = of_nat (4096 - D mod 4096)" by (simp add: of_nat_diff)
  moreover have "(of_nat L :: u64) < of_nat (4096 - D mod 4096) \<longleftrightarrow> L < 4096 - D mod 4096"
    using assms by (simp add: word_less_nat_alt unat_of_nat del: of_nat_diff)
  ultimately show ?thesis by (simp add: run1_def min_def del: of_nat_diff)
qed

lemma ua_inj:
  assumes us: "user_space E free ram s T" and "uacc E (mem s) T (d div 4096)" and "uacc E (mem s) T (d' div 4096)"
    and eq: "ua E (mem s) T d = ua E (mem s) T d'"
  shows "d = d'"
proof -
  note U = uspaceD [OF us]
  let ?f = "\<lambda>d. frame_of E (pte E (mem s) T (adr (d div 4096) 0))"
  have "frame (?f d)" "frame (?f d')" using leaf_entryD(3) [OF U(3)] assms(2,3) by auto
  with eq have "?f d = ?f d'" "d mod 4096 = d' mod 4096" by (auto simp: ua_def adr_inj)
  with inj_onD [OF U(5), of "d div 4096" "d' div 4096"] assms(2,3) have "d div 4096 = d' div 4096" by simp
  with \<open>d mod 4096 = d' mod 4096\<close> show ?thesis by (metis div_mult_mod_eq)
qed

end

context page_alloc
begin

text \<open>Writing outside the page table and the free pages keeps the address space.\<close>

lemma user_space_write:
  assumes us: "user_space E free ram s T" and m: "\<And>x. pg x \<in> ran T \<union> free s \<Longrightarrow> m x = mem s x"
  shows "\<And>va. pte E m T va = pte E (mem s) T va" and "free (s\<lparr>mem := m\<rparr>) = free s"
    and "user_space E free ram (s\<lparr>mem := m\<rparr>) T"
proof -
  note U = uspaceD [OF us]
  have ok: "pt_ok E (mem s) T" using U(1) by (simp add: owns_def)
  show pte: "pte E m T va = pte E (mem s) T va" for va
    using m pt_okD(1) [OF ok] by (intro pte_cong) auto
  show fr: "free (s\<lparr>mem := m\<rparr>) = free s" using m by (intro free_other) auto
  have "pt_ok E m T = pt_ok E (mem s) T" using m pt_okD(1) [OF ok] by (intro pt_ok_cong) auto
  moreover have "uacc E m T = uacc E (mem s) T" using pte by (intro uacc_same)
  ultimately show "user_space E free ram (s\<lparr>mem := m\<rparr>) T"
    using us ok fr by (auto simp: uspace_def owns_def pte)
qed

lemma user_frame:
  assumes us: "user_space E free ram s T" and "uacc E (mem s) T (d div 4096)"
  shows "pg (ua E (mem s) T d) = fr E s T (d div 4096)" and "fr E s T (d div 4096) \<notin> ran T \<union> free s"
    and "frame (fr E s T (d div 4096))"
  using uspaceD(4) [OF us, of "d div 4096"] leaf_entryD(3) [OF uspaceD(3) [OF us, of "d div 4096"]] assms(2)
  by (auto simp: ua_def intro: pg_adr)

end

section \<open>To the user\<close>

context page_alloc
begin

text \<open>One round: the run in the first page is written.\<close>

lemma copyout_round:
  assumes us: "user_space E free ram s T" and D: "D < 2 ^ 64" and L: "0 < L" "L < 2 ^ 64"
    and acc: "uacc E (mem s) T (D div 4096)"
  shows "\<exists>m. copyout (Suc fuel) E (root T) (of_nat D) src (of_nat L) s =
      copyout fuel E (root T) (of_nat (next_page D)) (src + of_nat (run1 D L)) (of_nat (L - run1 D L)) (s\<lparr>mem := m\<rparr>) \<and>
    (\<forall>i < run1 D L. m (ua E (mem s) T (D + i)) = mem s (src + of_nat i)) \<and>
    (\<forall>x. x \<notin> (\<lambda>i. ua E (mem s) T (D + i)) ` {..<run1 D L} \<longrightarrow> m x = mem s x)"
proof -
  define k where "k = fr E s T (D div 4096)"
  have fk: "frame k" using user_frame(3) [OF us acc] by (simp add: k_def)
  let ?m = "memmove (adr k (D mod 4096)) src (of_nat (run1 D L)) (mem s)"
  have u: "ua E (mem s) T (D + i) = adr k (D mod 4096 + i)" if "i < run1 D L" for i
    using run1_page [OF that] by (simp add: ua_def k_def)
  note mv = memmove_run [OF fk run1_le(2) [of D L], of src "mem s"]
  have nz: "(of_nat L :: u64) \<noteq> 0" using L by (auto simp: word_of_nat_eq_0_iff dest: dvd_imp_le)
  have sub: "(of_nat L :: u64) - of_nat (run1 D L) = of_nat (L - run1 D L)"
    using run1_le(1) [of D L] by (simp add: of_nat_diff)
  have nx: "adr (D div 4096) 0 + 4096 = (of_nat (next_page D) :: u64)"
    by (simp add: adr_def next_page_def)
  have run: "copyout (Suc fuel) E (root T) (of_nat D) src (of_nat L) s =
      copyout fuel E (root T) (of_nat (next_page D)) (src + of_nat (run1 D L)) (of_nat (L - run1 D L)) (s\<lparr>mem := ?m\<rparr>)"
    using acc nz adr_nonzero [OF fk, of 0]
    by (simp add: user_page [OF D] walkaddr_user [OF us D] PGSIZE_eq run_length [OF L(2)] Let_def sub nx adr_add
        word_gt_0 flip: k_def del: of_nat_diff)
  have "?m (ua E (mem s) T (D + i)) = mem s (src + of_nat i)" if "i < run1 D L" for i
  proof -
    have "adr k (D mod 4096 + i) - adr k (D mod 4096) = (of_nat i :: u64)"
      using adr_add [of k "D mod 4096" i] by (metis add_diff_cancel_left')
    then show ?thesis using that u [OF that] by (auto simp: mv)
  qed
  moreover have "?m x = mem s x" if "x \<notin> (\<lambda>i. ua E (mem s) T (D + i)) ` {..<run1 D L}" for x
    using that u by (auto simp: mv image_iff)
  ultimately show ?thesis using run by (intro exI [of _ ?m]) simp
qed

lemma copyout_spec:
  assumes "user_space E free ram s T" and "D < 2 ^ 64" and "L < 2 ^ 64" and "pages D L < fuel"
    and "\<And>i. i < L \<Longrightarrow> pg (src + of_nat i) \<notin> fr E s T ` Collect (uacc E (mem s) T)"
  shows "\<exists>c m. copyout fuel E (root T) (of_nat D) src (of_nat L) s = Ret (if c = L then 0 else - 1, s\<lparr>mem := m\<rparr>) \<and>
     copy_extent E (mem s) T D L c \<and>
     (\<forall>i < c. m (ua E (mem s) T (D + i)) = mem s (src + of_nat i)) \<and>
     (\<forall>x. x \<notin> (\<lambda>i. ua E (mem s) T (D + i)) ` {..<c} \<longrightarrow> m x = mem s x)"
  using assms
proof (induction fuel arbitrary: s D L src)
  case 0
  then show ?case by simp
next
  case (Suc fuel)
  note us = Suc.prems(1) and D = Suc.prems(2) and L = Suc.prems(3)
  show ?case
  proof (cases "0 < L \<and> uacc E (mem s) T (D div 4096)")
    case False
    then have "copyout (Suc fuel) E (root T) (of_nat D) src (of_nat L) s = Ret (if 0 = L then 0 else - 1, s\<lparr>mem := mem s\<rparr>)"
      using L by (auto simp: user_page [OF D] walkaddr_user [OF us D] word_gt_0 Let_def word_of_nat_eq_0_iff dest: dvd_imp_le)
    with False show ?thesis by (intro exI [of _ 0] exI [of _ "mem s"]) (auto simp: copy_extent_def)
  next
    case True
    then have acc: "uacc E (mem s) T (D div 4096)" and L0: "0 < L" by auto
    define n where "n = run1 D L"
    define u where "u i = ua E (mem s) T (D + i)" for i
    from copyout_round [OF us D L0 L acc, of fuel src] obtain m1 where
      run: "copyout (Suc fuel) E (root T) (of_nat D) src (of_nat L) s =
        copyout fuel E (root T) (of_nat (next_page D)) (src + of_nat n) (of_nat (L - n)) (s\<lparr>mem := m1\<rparr>)"
      and m1: "\<forall>i < n. m1 (u i) = mem s (src + of_nat i)" "\<forall>x. x \<notin> u ` {..<n} \<longrightarrow> m1 x = mem s x"
      unfolding n_def u_def by auto
    have nL: "n \<le> L" by (simp add: n_def run1_le)
    have pgu: "pg (u i) = fr E s T (D div 4096)" "pg (u i) \<notin> ran T \<union> free s" if "i < n" for i
      using user_frame [OF us, of "D + i"] run1_page [of i D L] acc that by (auto simp: u_def n_def)
    have m1_keep: "m1 x = mem s x" if "pg x \<in> ran T \<union> free s" for x
    proof -
      have "x \<notin> u ` {..<n}" using pgu(2) that by auto
      with m1(2) show ?thesis by simp
    qed
    have w: "\<And>va. pte E m1 T va = pte E (mem s) T va" "free (s\<lparr>mem := m1\<rparr>) = free s"
      "user_space E free ram (s\<lparr>mem := m1\<rparr>) T"
      by (rule user_space_write [OF us]; erule m1_keep)+
    have src: "m1 (src + of_nat i) = mem s (src + of_nat i)" if "i < L" for i
    proof -
      have "src + of_nat i \<notin> u ` {..<n}" using Suc.prems(5) [OF that] pgu(1) acc by auto
      with m1(2) show ?thesis by simp
    qed
    have D': "next_page D < 2 ^ 64" using acc by (simp add: uacc_def next_page_def)
    have pages: "pages (next_page D) (L - n) < fuel" using pages_step [OF L0, of D] Suc.prems(4) by (simp add: n_def)
    note same = uacc_same [OF w(1)] ua_same [OF w(1)] copy_extent_same [OF w(1)]
    have Ln: "L - n < 2 ^ 64" using L by simp
    have "pg (src + of_nat n + of_nat i) \<notin> fr E (s\<lparr>mem := m1\<rparr>) T ` Collect (uacc E (mem (s\<lparr>mem := m1\<rparr>)) T)" if "i < L - n" for i
      using Suc.prems(5) [of "n + i"] that w(1) same(1) by (simp add: add.assoc)
    from Suc.IH [OF w(3) D' Ln pages this] obtain c m where
      IH: "copyout fuel E (root T) (of_nat (next_page D)) (src + of_nat n) (of_nat (L - n)) (s\<lparr>mem := m1\<rparr>) =
          Ret (if c = L - n then 0 else - 1, s\<lparr>mem := m\<rparr>)"
        "copy_extent E (mem s) T (next_page D) (L - n) c"
        "\<forall>i < c. m (ua E (mem s) T (next_page D + i)) = m1 (src + of_nat n + of_nat i)"
        "\<forall>x. x \<notin> (\<lambda>i. ua E (mem s) T (next_page D + i)) ` {..<c} \<longrightarrow> m x = m1 x"
      by (auto simp: same)
    note st = copy_extent_step [OF acc IH(2) [unfolded n_def], folded n_def]
    have cL: "c \<le> L - n" using IH(2) by (simp add: copy_extent_def)
    have tail: "(\<lambda>i. ua E (mem s) T (next_page D + i)) ` {..<c} = u ` {n..<n + c}"
    proof -
      have "ua E (mem s) T (next_page D + i) = u (n + i)" if "i < c" for i
        using st(2) [of "n + i"] that by (simp add: u_def flip: add.assoc)
      moreover have "{n..<n + c} = (+) n ` {..<c}" by (simp add: atLeast0LessThan [symmetric] image_add_atLeastLessThan add.commute)
      ultimately show ?thesis by (simp add: image_image cong: image_cong_simp)
    qed
    have inj: "u i = u j \<Longrightarrow> i = j" if "i < n + c" "j < n + c" for i j
      using ua_inj [OF us, of "D + i" "D + j"] st(1) that by (auto simp: u_def copy_extent_def)
    have "m (u i) = mem s (src + of_nat i)" if "i < n + c" for i
    proof (cases "i < n")
      case True
      then have "u i \<notin> u ` {n..<n + c}" using inj [OF that] by (auto simp: image_iff dest!: inj [OF that, rotated])
      with True IH(4) m1(1) show ?thesis by (simp add: tail)
    next
      case False
      then have i: "i - n < c" "u i = ua E (mem s) T (next_page D + (i - n))" "i < L"
        using st(2) [of i] that cL by (auto simp: u_def)
      then have "m (u i) = m1 (src + (of_nat n + of_nat (i - n)))" using IH(3) by (simp add: add.assoc del: of_nat_diff)
      also have "of_nat n + of_nat (i - n) = (of_nat i :: u64)" using False by (simp add: of_nat_diff)
      finally show ?thesis using src i(3) by simp
    qed
    moreover have "m x = mem s x" if "x \<notin> u ` {..<n + c}" for x
    proof -
      have "x \<notin> u ` {n..<n + c}" "x \<notin> u ` {..<n}" using that by auto
      with IH(4) m1(2) show ?thesis by (simp add: tail)
    qed
    moreover have "(n + c = L) = (c = L - n)" using nL cL by auto
    ultimately show ?thesis
      using run IH(1) st(1) by (intro exI [of _ "n + c"] exI [of _ m]) (simp add: u_def)
  qed
qed

end

section \<open>From the user\<close>

text \<open>A kernel buffer: \<open>L\<close> bytes from \<open>dst\<close> outside the page table, the free pages and the user's frames.\<close>

definition kbuf :: "'w vext \<Rightarrow> ('w vm \<Rightarrow> nat set) \<Rightarrow> 'w vm \<Rightarrow> ptree \<Rightarrow> addr64 \<Rightarrow> nat \<Rightarrow> bool" where
  "kbuf E free s T dst L \<longleftrightarrow>
     (\<forall>i < L. pg (dst + of_nat i) \<notin> ran T \<union> free s \<union> fr E s T ` Collect (uacc E (mem s) T))"

text \<open>The first \<open>k\<close> bytes at user address \<open>D\<close> were copied to \<open>dst\<close>, and nothing else was written.\<close>

definition copied_to :: "'w vext \<Rightarrow> bytes \<Rightarrow> ptree \<Rightarrow> nat \<Rightarrow> addr64 \<Rightarrow> nat \<Rightarrow> bytes \<Rightarrow> bool" where
  "copied_to E m T D dst k m' \<longleftrightarrow>
     (\<forall>i < k. m' (dst + of_nat i) = m (ua E m T (D + i))) \<and>
     (\<forall>x. x \<notin> (\<lambda>i. dst + of_nat i) ` {..<k} \<longrightarrow> m' x = m x)"

lemma u64_less: "unat (w :: u64) < 2 ^ 64"
  using unsigned_less [of w] by simp

lemma of_nat_eq_64:
  assumes "i < 2 ^ 64" and "j < 2 ^ 64"
  shows "(of_nat i :: u64) = of_nat j \<longleftrightarrow> i = j"
proof -
  have "unat (of_nat i :: u64) = i" "unat (of_nat j :: u64) = j" using assms by (simp_all add: unat_of_nat)
  then show ?thesis by metis
qed

context page_alloc
begin

lemma kbuf_write:
  assumes us: "user_space E free ram s T" and kb: "kbuf E free s T dst L" and n: "n \<le> L"
    and m: "\<And>x. x \<notin> (\<lambda>i. dst + of_nat i) ` {..<n} \<Longrightarrow> m x = mem s x"
  shows "\<And>va. pte E m T va = pte E (mem s) T va" and "user_space E free ram (s\<lparr>mem := m\<rparr>) T"
    and "kbuf E free (s\<lparr>mem := m\<rparr>) T (dst + of_nat n) (L - n)"
    and "\<And>d. uacc E (mem s) T (d div 4096) \<Longrightarrow> m (ua E (mem s) T d) = mem s (ua E (mem s) T d)"
proof -
  have out: "x \<notin> (\<lambda>i. dst + of_nat i) ` {..<n}"
    if "pg x \<in> ran T \<union> free s \<union> fr E s T ` Collect (uacc E (mem s) T)" for x
  proof
    assume "x \<in> (\<lambda>i. dst + of_nat i) ` {..<n}"
    then obtain i where "i < n" "x = dst + of_nat i" by auto
    with kb n that show False unfolding kbuf_def by (meson less_le_trans)
  qed
  then have keep: "m x = mem s x" if "pg x \<in> ran T \<union> free s" for x using that m by blast
  show p: "pte E m T va = pte E (mem s) T va" for va by (rule user_space_write(1) [OF us]) (erule keep)
  have fr: "free (s\<lparr>mem := m\<rparr>) = free s" by (rule user_space_write(2) [OF us]) (erule keep)
  show "user_space E free ram (s\<lparr>mem := m\<rparr>) T" by (rule user_space_write(3) [OF us]) (erule keep)
  show "kbuf E free (s\<lparr>mem := m\<rparr>) T (dst + of_nat n) (L - n)"
    unfolding kbuf_def
  proof (intro allI impI)
    fix i assume "i < L - n"
    then have "pg (dst + of_nat (n + i)) \<notin> ran T \<union> free s \<union> fr E s T ` Collect (uacc E (mem s) T)"
      using kb by (simp add: kbuf_def del: of_nat_add)
    then show "pg (dst + of_nat n + of_nat i) \<notin> ran T \<union> free (s\<lparr>mem := m\<rparr>) \<union>
        fr E (s\<lparr>mem := m\<rparr>) T ` Collect (uacc E (mem (s\<lparr>mem := m\<rparr>)) T)"
      using p uacc_same [OF p] fr by (simp add: add.assoc)
  qed
  show "m (ua E (mem s) T d) = mem s (ua E (mem s) T d)" if "uacc E (mem s) T (d div 4096)" for d
    using out [of "ua E (mem s) T d"] user_frame(1) [OF us that] that m by auto
qed

lemma copied_to_step:
  assumes us: "user_space E free ram s T" and kb: "kbuf E free s T dst L" and n: "n + k \<le> L" "L < 2 ^ 64"
    and m1: "copied_to E (mem s) T D dst n m1" and m: "copied_to E m1 T D' (dst + of_nat n) k m"
    and D': "\<And>i. n \<le> i \<Longrightarrow> i < n + k \<Longrightarrow> D + i = D' + (i - n) \<and> uacc E (mem s) T ((D + i) div 4096)"
  shows "copied_to E (mem s) T D dst (n + k) m"
proof -
  have nL: "n \<le> L" using n(1) by simp
  have m1k: "m1 x = mem s x" if "x \<notin> (\<lambda>i. dst + of_nat i) ` {..<n}" for x using m1 that by (simp add: copied_to_def)
  note w = kbuf_write [OF us kb nL, of m1, OF m1k]
  note same = ua_same [OF w(1)]
  have tail: "m (dst + of_nat i) = mem s (ua E (mem s) T (D + i))" if "n \<le> i" "i < n + k" for i
  proof -
    have "dst + of_nat i = dst + of_nat n + of_nat (i - n)" using that(1) by (simp add: of_nat_diff)
    moreover have "m (dst + of_nat n + of_nat (i - n)) = m1 (ua E (mem s) T (D' + (i - n)))"
      using m that by (simp add: copied_to_def same del: of_nat_diff)
    ultimately show ?thesis using D' [OF that] w(4) [of "D + i"] by metis
  qed
  have head: "m (dst + of_nat i) = m1 (dst + of_nat i)" if i: "i < 2 ^ 64" "i < n \<or> n + k \<le> i" for i
  proof -
    have "dst + of_nat i \<notin> (\<lambda>j. dst + of_nat n + of_nat j) ` {..<k}"
    proof
      assume "dst + of_nat i \<in> (\<lambda>j. dst + of_nat n + of_nat j) ` {..<k}"
      then obtain j where j: "j < k" "(of_nat i :: u64) = of_nat (n + j)" by (auto simp: add.assoc)
      moreover have "n + j < 2 ^ 64" using j(1) n by simp
      ultimately have "i = n + j" using of_nat_eq_64 [OF i(1)] by blast
      with i(2) j(1) show False by simp
    qed
    with m show ?thesis by (simp add: copied_to_def)
  qed
  have "m (dst + of_nat i) = mem s (ua E (mem s) T (D + i))" if "i < n + k" for i
    using tail [of i] head [of i] m1 that n by (cases "i < n") (auto simp: copied_to_def)
  moreover have "m x = mem s x" if "x \<notin> (\<lambda>i. dst + of_nat i) ` {..<n + k}" for x
  proof -
    define j where "j = unat (x - dst)"
    have x: "x = dst + of_nat j" "j < 2 ^ 64" using u64_less [of "x - dst"] by (simp_all add: j_def)
    with that have "n + k \<le> j" by (auto simp: not_less [symmetric])
    moreover have "x \<notin> (\<lambda>i. dst + of_nat i) ` {..<n}" using that by auto
    ultimately show ?thesis using head [OF x(2)] x(1) m1k by simp
  qed
  ultimately show ?thesis by (simp add: copied_to_def)
qed

lemma copyin_round:
  assumes us: "user_space E free ram s T" and D: "D < 2 ^ 64" and L: "0 < L" "L < 2 ^ 64"
    and acc: "uacc E (mem s) T (D div 4096)"
  shows "\<exists>m. copyin (Suc fuel) E (root T) dst (of_nat D) (of_nat L) s =
      copyin fuel E (root T) (dst + of_nat (run1 D L)) (of_nat (next_page D)) (of_nat (L - run1 D L)) (s\<lparr>mem := m\<rparr>) \<and>
    copied_to E (mem s) T D dst (run1 D L) m"
proof -
  define k where "k = fr E s T (D div 4096)"
  have fk: "frame k" using user_frame(3) [OF us acc] by (simp add: k_def)
  let ?m = "memmove dst (adr k (D mod 4096)) (of_nat (run1 D L)) (mem s)"
  have n64: "run1 D L < 2 ^ 64" using run1_le(1) [of D L] L(2) by simp
  have u: "ua E (mem s) T (D + i) = adr k (D mod 4096) + of_nat i" if "i < run1 D L" for i
    using run1_page [OF that] by (simp add: ua_def k_def adr_add)
  have nz: "(of_nat L :: u64) \<noteq> 0" using L by (auto simp: word_of_nat_eq_0_iff dest: dvd_imp_le)
  have sub: "(of_nat L :: u64) - of_nat (run1 D L) = of_nat (L - run1 D L)"
    using run1_le(1) [of D L] by (simp add: of_nat_diff)
  have nx: "adr (D div 4096) 0 + 4096 = (of_nat (next_page D) :: u64)"
    by (simp add: adr_def next_page_def)
  have run: "copyin (Suc fuel) E (root T) dst (of_nat D) (of_nat L) s =
      copyin fuel E (root T) (dst + of_nat (run1 D L)) (of_nat (next_page D)) (of_nat (L - run1 D L)) (s\<lparr>mem := ?m\<rparr>)"
    using acc nz adr_nonzero [OF fk, of 0]
    by (simp add: user_page [OF D] walkaddr_user [OF us D] PGSIZE_eq run_length [OF L(2)] Let_def sub nx adr_add
        word_gt_0 flip: k_def del: of_nat_diff)
  have "?m (dst + of_nat i) = mem s (ua E (mem s) T (D + i))" if "i < run1 D L" for i
    using memmove_at [of i "run1 D L" dst "adr k (D mod 4096)" "mem s"] n64 that u [OF that] by simp
  moreover have "?m x = mem s x" if "x \<notin> (\<lambda>i. dst + of_nat i) ` {..<run1 D L}" for x
  proof -
    define j where "j = unat (x - dst)"
    have x: "x = dst + of_nat j" "j < 2 ^ 64" using u64_less [of "x - dst"] by (simp_all add: j_def)
    with that have "\<not> j < run1 D L" by auto
    with memmove_at [OF x(2) n64, of dst] x(1) show ?thesis by simp
  qed
  ultimately show ?thesis using run by (intro exI [of _ ?m]) (simp add: copied_to_def)
qed

lemma copyin_spec:
  assumes "user_space E free ram s T" and "D < 2 ^ 64" and "L < 2 ^ 64" and "pages D L < fuel"
    and "kbuf E free s T dst L"
  shows "\<exists>c m. copyin fuel E (root T) dst (of_nat D) (of_nat L) s = Ret (if c = L then 0 else - 1, s\<lparr>mem := m\<rparr>) \<and>
     copy_extent E (mem s) T D L c \<and> copied_to E (mem s) T D dst c m"
  using assms
proof (induction fuel arbitrary: s D L dst)
  case 0
  then show ?case by simp
next
  case (Suc fuel)
  note us = Suc.prems(1) and D = Suc.prems(2) and L = Suc.prems(3) and kb = Suc.prems(5)
  show ?case
  proof (cases "0 < L \<and> uacc E (mem s) T (D div 4096)")
    case False
    then have "copyin (Suc fuel) E (root T) dst (of_nat D) (of_nat L) s = Ret (if 0 = L then 0 else - 1, s\<lparr>mem := mem s\<rparr>)"
      using L by (auto simp: user_page [OF D] walkaddr_user [OF us D] word_gt_0 Let_def word_of_nat_eq_0_iff dest: dvd_imp_le)
    with False show ?thesis by (intro exI [of _ 0] exI [of _ "mem s"]) (auto simp: copy_extent_def copied_to_def)
  next
    case True
    then have acc: "uacc E (mem s) T (D div 4096)" and L0: "0 < L" by auto
    define n where "n = run1 D L"
    from copyin_round [OF us D L0 L acc, of fuel dst] obtain m1 where
      run: "copyin (Suc fuel) E (root T) dst (of_nat D) (of_nat L) s =
        copyin fuel E (root T) (dst + of_nat n) (of_nat (next_page D)) (of_nat (L - n)) (s\<lparr>mem := m1\<rparr>)"
      and m1: "copied_to E (mem s) T D dst n m1"
      unfolding n_def by auto
    have nL: "n \<le> L" by (simp add: n_def run1_le)
    have "m1 x = mem s x" if "x \<notin> (\<lambda>i. dst + of_nat i) ` {..<n}" for x using m1 that by (simp add: copied_to_def)
    note w = kbuf_write [OF us kb nL, of m1, OF this]
    have D': "next_page D < 2 ^ 64" using acc by (simp add: uacc_def next_page_def)
    have pages: "pages (next_page D) (L - n) < fuel" using pages_step [OF L0, of D] Suc.prems(4) by (simp add: n_def)
    have Ln: "L - n < 2 ^ 64" using L by simp
    from Suc.IH [OF w(2) D' Ln pages w(3)] obtain c m where
      IH: "copyin fuel E (root T) (dst + of_nat n) (of_nat (next_page D)) (of_nat (L - n)) (s\<lparr>mem := m1\<rparr>) =
          Ret (if c = L - n then 0 else - 1, s\<lparr>mem := m\<rparr>)"
        "copy_extent E (mem s) T (next_page D) (L - n) c" "copied_to E m1 T (next_page D) (dst + of_nat n) c m"
      by (auto simp: copy_extent_same [OF w(1)])
    note st = copy_extent_step [OF acc IH(2) [unfolded n_def], folded n_def]
    have cL: "n + c \<le> L" using IH(2) nL by (auto simp: copy_extent_def)
    have "copied_to E (mem s) T D dst (n + c) m"
      using st by (intro copied_to_step [OF us kb cL L m1 IH(3)]) (auto simp: copy_extent_def)
    moreover have "(n + c = L) = (c = L - n)" using cL by auto
    ultimately show ?thesis
      using run IH(1) st(1) by (intro exI [of _ "n + c"] exI [of _ m]) simp
  qed
qed

end

section \<open>There and back\<close>

context page_alloc
begin

lemma copy_extent_all: "copy_extent E m T D L L \<Longrightarrow> copy_extent E m T D L c \<Longrightarrow> c = L"
  unfolding copy_extent_def by (metis le_neq_implies_less)

lemma copyout_copyin:
  assumes us: "user_space E free ram s T" and D: "D < 2 ^ 64" "L < 2 ^ 64" "pages D L < fuel"
    and src: "\<And>i. i < L \<Longrightarrow> pg (src + of_nat i) \<notin> fr E s T ` Collect (uacc E (mem s) T)"
    and out: "copyout fuel E (root T) (of_nat D) src (of_nat L) s = Ret (0, s1)" and kb: "kbuf E free s T dst L"
  shows "\<exists>s2. copyin fuel E (root T) dst (of_nat D) (of_nat L) s1 = Ret (0, s2) \<and>
    (\<forall>i < L. mem s2 (dst + of_nat i) = mem s (src + of_nat i))"
proof -
  from copyout_spec [OF us D src] out obtain m where s1: "s1 = s\<lparr>mem := m\<rparr>" and ext: "copy_extent E (mem s) T D L L"
    and m: "\<forall>i < L. m (ua E (mem s) T (D + i)) = mem s (src + of_nat i)"
      "\<forall>x. x \<notin> (\<lambda>i. ua E (mem s) T (D + i)) ` {..<L} \<longrightarrow> m x = mem s x"
    by (fastforce split: if_splits)
  have keep: "m x = mem s x" if "pg x \<in> ran T \<union> free s" for x
  proof -
    have "pg (ua E (mem s) T (D + i)) \<notin> ran T \<union> free s" if "i < L" for i
      using user_frame(1,2) [OF us, of "D + i"] ext that by (simp add: copy_extent_def)
    then have "x \<notin> (\<lambda>i. ua E (mem s) T (D + i)) ` {..<L}" using that by auto
    with m(2) show ?thesis by simp
  qed
  have p: "\<And>va. pte E m T va = pte E (mem s) T va" by (rule user_space_write(1) [OF us]) (erule keep)
  have fr: "free s1 = free s" unfolding s1 by (rule user_space_write(2) [OF us]) (erule keep)
  have us1: "user_space E free ram s1 T" unfolding s1 by (rule user_space_write(3) [OF us]) (erule keep)
  note same = uacc_same [OF p] ua_same [OF p] copy_extent_same [OF p]
  have kb1: "kbuf E free s1 T dst L" using kb p fr same(1) by (simp add: kbuf_def s1)
  from copyin_spec [OF us1 D kb1] obtain c m2 where
    c: "copyin fuel E (root T) dst (of_nat D) (of_nat L) s1 = Ret (if c = L then 0 else - 1, s1\<lparr>mem := m2\<rparr>)"
      "copy_extent E m T D L c" "copied_to E m T D dst c m2"
    by (auto simp: s1)
  have "c = L" using copy_extent_all [OF ext] c(2) same(3) by simp
  with c m(1) same(2) show ?thesis by (intro exI [of _ "s1\<lparr>mem := m2\<rparr>"]) (simp add: copied_to_def)
qed

end

end
