(* ===== verification/Vm_Str.thy ===== *)
theory Vm_Str
  imports Vm_User
begin

text \<open>
  \<open>copyinstr\<close>: a string is copied from user memory up to and including its null byte, unless the
  limit or a page that is not accessible comes first.
\<close>

text \<open>\<open>c\<close> bytes at user address \<open>D\<close> are accessible and not null.\<close>

definition str_prefix :: "'w vext \<Rightarrow> bytes \<Rightarrow> ptree \<Rightarrow> nat \<Rightarrow> nat \<Rightarrow> bool" where
  "str_prefix E m T D c \<longleftrightarrow> (\<forall>i < c. uacc E m T ((D + i) div 4096) \<and> m (ua E m T (D + i)) \<noteq> 0)"

section \<open>One page\<close>

lemma copystr_page_spec:
  assumes "\<And>i j. i < n \<Longrightarrow> j < n \<Longrightarrow> p + of_nat i \<noteq> dst + of_nat j" and "n < 2 ^ 64"
  shows "\<exists>c m'. c \<le> n \<and> copystr_page n p dst mx m = (c < n, mx - of_nat c, dst + of_nat c, m') \<and>
     (\<forall>i < c. m (p + of_nat i) \<noteq> 0) \<and> (c < n \<longrightarrow> m (p + of_nat c) = 0) \<and>
     (\<forall>i < min n (Suc c). m' (dst + of_nat i) = m (p + of_nat i)) \<and>
     (\<forall>x. x \<notin> (\<lambda>i. dst + of_nat i) ` {..<min n (Suc c)} \<longrightarrow> m' x = m x)"
  using assms
proof (induction n arbitrary: p dst mx m)
  case 0
  then show ?case by simp
next
  case (Suc n)
  show ?case
  proof (cases "m p = 0")
    case True
    then show ?thesis by (intro exI [of _ 0] exI [of _ "m(dst := 0)"]) auto
  next
    case False
    define m1 where "m1 = m(dst := m p)"
    have n64: "n < 2 ^ 64" using Suc.prems(2) by simp
    have ne: "(p + 1) + of_nat i \<noteq> (dst + 1) + of_nat j" if "i < n" "j < n" for i j
      using Suc.prems(1) [of "Suc i" "Suc j"] that by (simp add: add.assoc)
    have src: "m1 (p + 1 + of_nat i) = m (p + of_nat (Suc i))" if "i < n" for i
      using Suc.prems(1) [of "Suc i" 0] that by (simp add: add.assoc m1_def)
    from Suc.IH [OF ne n64, of "mx - 1" m1] obtain c m' where
      IH: "c \<le> n" "copystr_page n (p + 1) (dst + 1) (mx - 1) m1 = (c < n, mx - 1 - of_nat c, dst + 1 + of_nat c, m')"
        "\<forall>i < c. m1 (p + 1 + of_nat i) \<noteq> 0" "c < n \<longrightarrow> m1 (p + 1 + of_nat c) = 0"
        "\<forall>i < min n (Suc c). m' (dst + 1 + of_nat i) = m1 (p + 1 + of_nat i)"
        "\<forall>x. x \<notin> (\<lambda>i. dst + 1 + of_nat i) ` {..<min n (Suc c)} \<longrightarrow> m' x = m1 x"
      by blast
    have "dst \<notin> (\<lambda>i. dst + 1 + of_nat i) ` {..<min n (Suc c)}"
    proof
      assume "dst \<in> (\<lambda>i. dst + 1 + of_nat i) ` {..<min n (Suc c)}"
      then obtain i where i: "i < n" "(of_nat (Suc i) :: u64) = of_nat 0" by (auto simp: add.assoc)
      then show False using of_nat_eq_64 [of "Suc i" 0] Suc.prems(2) by simp
    qed
    with IH(6) have d0: "m' dst = m p" by (simp add: m1_def)
    have "m' (dst + of_nat i) = m (p + of_nat i)" if "i < min (Suc n) (Suc (Suc c))" for i
      using that d0 IH(5) src by (cases i) (auto simp: add.assoc)
    moreover have "m' x = m x" if "x \<notin> (\<lambda>i. dst + of_nat i) ` {..<min (Suc n) (Suc (Suc c))}" for x
    proof -
      have "x \<noteq> dst" using that by force
      moreover have "x \<notin> (\<lambda>i. dst + 1 + of_nat i) ` {..<min n (Suc c)}"
      proof
        assume "x \<in> (\<lambda>i. dst + 1 + of_nat i) ` {..<min n (Suc c)}"
        then obtain i where "i < min n (Suc c)" "x = dst + of_nat (Suc i)" by (auto simp: add.assoc)
        with that show False by (metis imageI lessThan_iff Suc_less_eq min_Suc_Suc)
      qed
      ultimately show ?thesis using IH(6) by (simp add: m1_def)
    qed
    moreover have "m (p + of_nat i) \<noteq> 0" if "i < Suc c" for i
      using that False IH(1,3) src by (cases i) auto
    moreover have "m (p + of_nat (Suc c)) = 0" if "c < n" using that IH(4) src by simp
    ultimately show ?thesis
      using False IH(1,2) by (intro exI [of _ "Suc c"] exI [of _ m']) (simp add: algebra_simps flip: m1_def)
  qed
qed

section \<open>The whole string\<close>

context page_alloc
begin

text \<open>One round: the string ends in the first page, or the run in it is copied.\<close>

lemma copyinstr_round:
  assumes us: "user_space E free ram s T" and D: "D < 2 ^ 64" and L: "0 < L" "L < 2 ^ 64"
    and acc: "uacc E (mem s) T (D div 4096)" and kb: "kbuf E free s T dst L"
  shows "\<exists>c m. str_prefix E (mem s) T D c \<and> c \<le> run1 D L \<and>
    (copyinstr (Suc fuel) E (root T) dst (of_nat D) (of_nat L) s = Ret (0, s\<lparr>mem := m\<rparr>) \<and> c < run1 D L \<and>
       mem s (ua E (mem s) T (D + c)) = 0 \<and> copied_to E (mem s) T D dst (Suc c) m \<or>
     copyinstr (Suc fuel) E (root T) dst (of_nat D) (of_nat L) s =
       copyinstr fuel E (root T) (dst + of_nat (run1 D L)) (of_nat (next_page D)) (of_nat (L - run1 D L)) (s\<lparr>mem := m\<rparr>) \<and>
       c = run1 D L \<and> copied_to E (mem s) T D dst c m)"
proof -
  define k n where "k = fr E s T (D div 4096)" and "n = run1 D L"
  have fk: "frame k" using user_frame(3) [OF us acc] by (simp add: k_def)
  have n: "n < 2 ^ 64" "n \<le> L" "unat (of_nat n :: u64) = n"
    using run1_le(1) [of D L] L(2) by (auto simp: n_def unat_of_nat)
  have u: "adr k (D mod 4096) + of_nat i = ua E (mem s) T (D + i)" "(D + i) div 4096 = D div 4096" if "i < n" for i
    using run1_page [of i D L] that by (simp_all add: ua_def k_def adr_add n_def)
  have ne: "adr k (D mod 4096) + of_nat i \<noteq> dst + of_nat j" if "i < n" "j < n" for i j
  proof -
    have "pg (dst + of_nat j) \<notin> fr E s T ` Collect (uacc E (mem s) T)" using kb that(2) n(2) by (simp add: kbuf_def)
    then have "pg (dst + of_nat j) \<noteq> k" using acc by (auto simp: k_def)
    moreover have "pg (ua E (mem s) T (D + i)) = k" using user_frame(1) [OF us, of "D + i"] acc u(2) [OF that(1)] by (simp add: k_def)
    ultimately show ?thesis using u(1) [OF that(1)] by auto
  qed
  from copystr_page_spec [OF ne n(1), of "of_nat L" "mem s"] obtain c m where
    c: "c \<le> n" "copystr_page n (adr k (D mod 4096)) dst (of_nat L) (mem s) = (c < n, of_nat L - of_nat c, dst + of_nat c, m)"
      "\<forall>i < c. mem s (adr k (D mod 4096) + of_nat i) \<noteq> 0" "c < n \<longrightarrow> mem s (adr k (D mod 4096) + of_nat c) = 0"
      "\<forall>i < min n (Suc c). m (dst + of_nat i) = mem s (adr k (D mod 4096) + of_nat i)"
      "\<forall>x. x \<notin> (\<lambda>i. dst + of_nat i) ` {..<min n (Suc c)} \<longrightarrow> m x = mem s x"
    by blast
  have nz: "(of_nat L :: u64) \<noteq> 0" using L by (auto simp: word_of_nat_eq_0_iff dest: dvd_imp_le)
  have nx: "adr (D div 4096) 0 + 4096 = (of_nat (next_page D) :: u64)" by (simp add: adr_def next_page_def)
  have run: "copyinstr (Suc fuel) E (root T) dst (of_nat D) (of_nat L) s =
      (if c < n then Ret (0, s\<lparr>mem := m\<rparr>)
       else copyinstr fuel E (root T) (dst + of_nat c) (of_nat (next_page D)) (of_nat L - of_nat c) (s\<lparr>mem := m\<rparr>))"
    using acc nz adr_nonzero [OF fk, of 0] c(2)
    by (simp add: user_page [OF D] walkaddr_user [OF us D] PGSIZE_eq run_length [OF L(2)] Let_def nx adr_add n(3)
        word_gt_0 flip: k_def n_def)
  have pre: "str_prefix E (mem s) T D c" using c(1,3) u acc by (auto simp: str_prefix_def)
  have cp: "copied_to E (mem s) T D dst (min n (Suc c)) m" using c(5,6) u(1) by (auto simp: copied_to_def)
  have sub: "(of_nat L :: u64) - of_nat n = of_nat (L - n)" using n(2) by (simp add: of_nat_diff)
  show ?thesis
  proof (cases "c < n")
    case True
    then have "min n (Suc c) = Suc c" by simp
    with True run pre cp c(4) u(1) [of c] show ?thesis
      by (intro exI [of _ c] exI [of _ m]) (simp add: n_def del: copyinstr.simps)
  next
    case False
    with c(1) have cn: "c = n" by simp
    with run pre cp sub show ?thesis
      by (intro exI [of _ c] exI [of _ m]) (simp add: n_def del: of_nat_diff copyinstr.simps)
  qed
qed

end

context page_alloc
begin

lemma copyinstr_spec:
  assumes "user_space E free ram s T" and "D < 2 ^ 64" and "L < 2 ^ 64" and "pages D L < fuel"
    and "kbuf E free s T dst L"
  shows "\<exists>c m. str_prefix E (mem s) T D c \<and> c \<le> L \<and>
    (copyinstr fuel E (root T) dst (of_nat D) (of_nat L) s = Ret (0, s\<lparr>mem := m\<rparr>) \<and> c < L \<and>
       uacc E (mem s) T ((D + c) div 4096) \<and> mem s (ua E (mem s) T (D + c)) = 0 \<and> copied_to E (mem s) T D dst (Suc c) m \<or>
     copyinstr fuel E (root T) dst (of_nat D) (of_nat L) s = Ret (- 1, s\<lparr>mem := m\<rparr>) \<and>
       (c = L \<or> \<not> uacc E (mem s) T ((D + c) div 4096)) \<and> copied_to E (mem s) T D dst c m)"
  using assms
proof (induction fuel arbitrary: s D L dst)
  case 0
  then show ?case by simp
next
  case (Suc fuel)
  note us = Suc.prems(1) and D = Suc.prems(2) and L = Suc.prems(3) and kb = Suc.prems(5)
  show ?case
  proof (cases "0 < L \<and> uacc E (mem s) T (D div 4096)")
    case False
    then have "copyinstr (Suc fuel) E (root T) dst (of_nat D) (of_nat L) s = Ret (- 1, s\<lparr>mem := mem s\<rparr>)"
      using L by (auto simp: user_page [OF D] walkaddr_user [OF us D] word_gt_0 Let_def word_of_nat_eq_0_iff dest: dvd_imp_le)
    with False show ?thesis
      by (intro exI [of _ 0] exI [of _ "mem s"]) (auto simp: str_prefix_def copied_to_def)
  next
    case True
    then have acc: "uacc E (mem s) T (D div 4096)" and L0: "0 < L" by auto
    define n where "n = run1 D L"
    have nL: "n \<le> L" by (simp add: n_def run1_le)
    from copyinstr_round [OF us D L0 L acc kb, of fuel, folded n_def] obtain c m1 where
      pre: "str_prefix E (mem s) T D c" and "c \<le> n" and res:
      "copyinstr (Suc fuel) E (root T) dst (of_nat D) (of_nat L) s = Ret (0, s\<lparr>mem := m1\<rparr>) \<and> c < n \<and>
         mem s (ua E (mem s) T (D + c)) = 0 \<and> copied_to E (mem s) T D dst (Suc c) m1 \<or>
       copyinstr (Suc fuel) E (root T) dst (of_nat D) (of_nat L) s =
         copyinstr fuel E (root T) (dst + of_nat n) (of_nat (next_page D)) (of_nat (L - n)) (s\<lparr>mem := m1\<rparr>) \<and>
         c = n \<and> copied_to E (mem s) T D dst c m1"
      by blast
    from res show ?thesis
    proof (elim disjE conjE)
      assume "copyinstr (Suc fuel) E (root T) dst (of_nat D) (of_nat L) s = Ret (0, s\<lparr>mem := m1\<rparr>)"
        "c < n" "mem s (ua E (mem s) T (D + c)) = 0" "copied_to E (mem s) T D dst (Suc c) m1"
      then show ?thesis
        using pre nL acc run1_page [of c D L]
        by (intro exI [of _ c] exI [of _ m1]) (simp add: n_def del: copyinstr.simps)
    next
      assume run: "copyinstr (Suc fuel) E (root T) dst (of_nat D) (of_nat L) s =
          copyinstr fuel E (root T) (dst + of_nat n) (of_nat (next_page D)) (of_nat (L - n)) (s\<lparr>mem := m1\<rparr>)"
        and cn: "c = n" and m1: "copied_to E (mem s) T D dst c m1"
      have m1k: "m1 x = mem s x" if "x \<notin> (\<lambda>i. dst + of_nat i) ` {..<n}" for x
        using m1 cn that by (simp add: copied_to_def)
      note w = kbuf_write [OF us kb nL, of m1, OF m1k]
      have D': "next_page D < 2 ^ 64" using acc by (simp add: uacc_def next_page_def)
      have pages: "pages (next_page D) (L - n) < fuel" using pages_step [OF L0, of D] Suc.prems(4) by (simp add: n_def)
      have Ln: "L - n < 2 ^ 64" using L by simp
      from Suc.IH [OF w(2) D' Ln pages w(3)] obtain d m where
        pre': "str_prefix E m1 T (next_page D) d" "d \<le> L - n" and IH:
        "copyinstr fuel E (root T) (dst + of_nat n) (of_nat (next_page D)) (of_nat (L - n)) (s\<lparr>mem := m1\<rparr>) = Ret (0, s\<lparr>mem := m\<rparr>) \<and> d < L - n \<and>
          uacc E m1 T ((next_page D + d) div 4096) \<and> m1 (ua E m1 T (next_page D + d)) = 0 \<and>
          copied_to E m1 T (next_page D) (dst + of_nat n) (Suc d) m \<or>
        copyinstr fuel E (root T) (dst + of_nat n) (of_nat (next_page D)) (of_nat (L - n)) (s\<lparr>mem := m1\<rparr>) = Ret (- 1, s\<lparr>mem := m\<rparr>) \<and>
          (d = L - n \<or> \<not> uacc E m1 T ((next_page D + d) div 4096)) \<and>
          copied_to E m1 T (next_page D) (dst + of_nat n) d m"
        by auto
      note same = uacc_same [OF w(1)] ua_same [OF w(1)]
      have nx: "D + i = next_page D + (i - n)" if "n \<le> i" "n < L" for i
        using run1_rest [of D L] that by (simp add: n_def)
      have str: "str_prefix E (mem s) T D (n + d)"
        unfolding str_prefix_def
      proof (intro allI impI)
        fix i assume i: "i < n + d"
        show "uacc E (mem s) T ((D + i) div 4096) \<and> mem s (ua E (mem s) T (D + i)) \<noteq> 0"
        proof (cases "i < n")
          case True
          then show ?thesis using pre cn by (simp add: str_prefix_def)
        next
          case False
          then have "i - n < d" "D + i = next_page D + (i - n)" using i pre'(2) nx [of i] by simp_all
          then have "uacc E (mem s) T ((D + i) div 4096)" "m1 (ua E (mem s) T (D + i)) \<noteq> 0"
            using pre'(1) by (simp_all add: str_prefix_def same)
          then show ?thesis using w(4) [of "D + i"] by simp
        qed
      qed
      have join: "copied_to E (mem s) T D dst (n + k) m"
        if "copied_to E m1 T (next_page D) (dst + of_nat n) k m" "n + k \<le> L" "k = d \<or> k = Suc d \<and> uacc E (mem s) T ((D + (n + d)) div 4096)" for k
      proof (rule copied_to_step [OF us kb that(2) L m1 [unfolded cn] that(1)])
        fix i assume i: "n \<le> i" "i < n + k"
        with that(2) nx [of i] have "D + i = next_page D + (i - n)" by simp
        moreover have "i < n + d \<or> i = n + d \<and> k = Suc d" using i that(3) by auto
        then have "uacc E (mem s) T ((D + i) div 4096)" using str that(3) by (auto simp: str_prefix_def)
        ultimately show "D + i = next_page D + (i - n) \<and> uacc E (mem s) T ((D + i) div 4096)" by simp
      qed
      from IH show ?thesis
      proof (rule disjE; elim conjE)
        assume a: "copyinstr fuel E (root T) (dst + of_nat n) (of_nat (next_page D)) (of_nat (L - n)) (s\<lparr>mem := m1\<rparr>) = Ret (0, s\<lparr>mem := m\<rparr>)"
          and d: "d < L - n" and acc': "uacc E m1 T ((next_page D + d) div 4096)" and z: "m1 (ua E m1 T (next_page D + d)) = 0"
          and cp: "copied_to E m1 T (next_page D) (dst + of_nat n) (Suc d) m"
        have ndL: "n + d < L" using d by linarith
        have nd: "D + (n + d) = next_page D + d" using nx [of "n + d"] d by simp
        have acc2: "uacc E (mem s) T ((D + (n + d)) div 4096)" using acc' by (simp add: nd same)
        have "mem s (ua E (mem s) T (D + (n + d))) = 0" using z acc2 w(4) [of "D + (n + d)"] by (simp add: nd same)
        with run a str ndL acc2 join [OF cp] show ?thesis
          by (intro exI [of _ "n + d"] exI [of _ m]) (simp del: copyinstr.simps)
      next
        assume a: "copyinstr fuel E (root T) (dst + of_nat n) (of_nat (next_page D)) (of_nat (L - n)) (s\<lparr>mem := m1\<rparr>) = Ret (- 1, s\<lparr>mem := m\<rparr>)"
          and e: "d = L - n \<or> \<not> uacc E m1 T ((next_page D + d) div 4096)"
          and cp: "copied_to E m1 T (next_page D) (dst + of_nat n) d m"
        have "n + d = L \<or> \<not> uacc E (mem s) T ((D + (n + d)) div 4096)"
          using e nx [of "n + d"] pre'(2) nL by (cases "n < L") (auto simp: same simp flip: add.assoc)
        with run a str pre'(2) nL join [OF cp] show ?thesis
          by (intro exI [of _ "n + d"] exI [of _ m]) (simp del: copyinstr.simps)
      qed
    qed
  qed
qed

end

end
