(* ===== verification/Vm_Free.thy ===== *)
theory Vm_Free
  imports Vm_Alloc
begin

text \<open>
  Freeing an address space: \<open>freewalk\<close> gives back every page of a page table that has no leaf
  entries left, and \<open>uvmfree\<close> first gives back the user's frames. Together they leak nothing.
\<close>

section \<open>Freeing one table\<close>

text \<open>
  \<open>freewalk\<close> on the table in page \<open>k\<close> gives back the pages \<open>P\<close>, in every state where these hold
  what they hold in \<open>m\<close>.
\<close>

definition frees :: "'w vext \<Rightarrow> ('w vm \<Rightarrow> nat set) \<Rightarrow> nat \<Rightarrow> nat \<Rightarrow> nat set \<Rightarrow> bytes \<Rightarrow> bool" where
  "frees E free fuel k P m \<longleftrightarrow>
     (\<forall>s. (\<forall>x. pg x \<in> P \<longrightarrow> mem s x = m x) \<longrightarrow> P \<inter> free s = {} \<longrightarrow>
        (\<exists>s'. freewalk fuel E (adr k 0) s = Ret s' \<and> free s' = free s \<union> P \<and>
           (\<forall>x. pg x \<notin> P \<union> free s \<longrightarrow> mem s' x = mem s x)))"

lemma freesD:
  assumes "frees E free fuel k P m" and "\<And>x. pg x \<in> P \<Longrightarrow> mem s x = m x" and "P \<inter> free s = {}"
  shows "\<exists>s'. freewalk fuel E (adr k 0) s = Ret s' \<and> free s' = free s \<union> P \<and>
    (\<forall>x. pg x \<notin> P \<union> free s \<longrightarrow> mem s' x = mem s x)"
  using assms unfolding frees_def by blast

text \<open>What is below entry \<open>i\<close> of the table in page \<open>k\<close>: nothing, or a table that can be freed.\<close>

definition below :: "'w vext \<Rightarrow> ('w vm \<Rightarrow> nat set) \<Rightarrow> nat \<Rightarrow> nat \<Rightarrow> bytes \<Rightarrow> nat \<Rightarrow> nat set \<Rightarrow> bool" where
  "below E free fuel k m i P \<longleftrightarrow>
     (read64 m (entry k i) AND 1 = 0 \<and> P = {} \<or>
      (\<exists>c. read64 m (entry k i) = mkpte E c 0 \<and> frame c \<and> frees E free fuel c P m))"

context page_alloc
begin

lemma table_entry:
  assumes "frame c"
  shows "mkpte E c 0 AND (PTE_R E OR PTE_W E OR PTE_X E) = 0"
proof -
  have "PTE_R E OR PTE_W E OR PTE_X E = push_bit 1 (mask 3)"
    by (simp add: PTE_R_eq PTE_W_eq PTE_X_eq mask_eq_exp_minus_1)
  then have "bit (PTE_R E OR PTE_W E OR PTE_X E) n \<Longrightarrow> 0 < n \<and> n < 10" for n
    by (simp only: bit_push_bit_iff bit_mask_iff) auto
  then show ?thesis
    by (intro bit_eqI) (fastforce simp: bit_mkpte [OF assms] bit_and_iff)
qed

lemma freewalk_entries_spec:
  assumes k: "frame k" and "distinct is" "set is \<subseteq> {..<512}"
    and "\<And>i. i \<in> set is \<Longrightarrow> below E free fuel k m i (P i)"
    and "\<And>i. i \<in> set is \<Longrightarrow> k \<notin> P i"
    and "\<And>i j. i \<in> set is \<Longrightarrow> j \<in> set is \<Longrightarrow> i \<noteq> j \<Longrightarrow> P i \<inter> P j = {}"
    and "\<And>i. i \<in> set is \<Longrightarrow> P i \<inter> free s = {}" and "k \<notin> free s"
    and "\<And>i. i \<in> set is \<Longrightarrow> read64 (mem s) (entry k i) = read64 m (entry k i)"
    and "\<And>i x. i \<in> set is \<Longrightarrow> pg x \<in> P i \<Longrightarrow> mem s x = m x"
  shows "\<exists>s'. freewalk_entries fuel E (adr k 0) is s = Ret s' \<and> free s' = free s \<union> (\<Union>i \<in> set is. P i) \<and>
    (\<forall>x. pg x \<notin> insert k (\<Union>i \<in> set is. P i) \<union> free s \<longrightarrow> mem s' x = mem s x)"
  using assms(2-)
proof (induction "is" arbitrary: s)
  case Nil
  then show ?case by simp
next
  case (Cons i "is")
  have i: "i < 512" using Cons.prems(2) by simp
  have ent: "adr k 0 + 8 * of_nat i = entry k i" using adr_add [of k 0 "8 * i"] by simp
  have e: "read64 (mem s) (entry k i) = read64 m (entry k i)" using Cons.prems(8) by simp
  from Cons.prems(3) [of i] consider (none) "read64 m (entry k i) AND 1 = 0" "P i = {}"
    | (sub) c where "read64 m (entry k i) = mkpte E c 0" "frame c" "frees E free fuel c (P i) m"
    by (auto simp: below_def)
  then show ?case
  proof cases
    case none
    have subs: "mem s x = m x" if "j \<in> set is" "pg x \<in> P j" for j x using Cons.prems(9) [of j x] that by simp
    have "\<exists>s'. freewalk_entries fuel E (adr k 0) is s = Ret s' \<and> free s' = free s \<union> (\<Union>i \<in> set is. P i) \<and>
        (\<forall>x. pg x \<notin> insert k (\<Union>i \<in> set is. P i) \<union> free s \<longrightarrow> mem s' x = mem s x)"
      using Cons.prems(1-8) by (intro Cons.IH) (auto elim: subs)
    with none e show ?thesis by (simp add: ent Let_def PTE_V_eq)
  next
    case sub
    from freesD [OF sub(3), of s] Cons.prems(6,9) [of i] obtain s1 where
      s1: "freewalk fuel E (adr c 0) s = Ret s1" "free s1 = free s \<union> P i"
        "\<forall>x. pg x \<notin> P i \<union> free s \<longrightarrow> mem s1 x = mem s x" by auto
    define s2 where "s2 = on_mem (write64 (entry k i) 0) s1"
    have kP: "k \<notin> P i" using Cons.prems(4) by simp
    have free2: "free s2 = free s \<union> P i"
      using free_write64 [OF k i, of s1] s1(2) kP Cons.prems(7) by (simp add: s2_def)
    have step: "freewalk_entries fuel E (adr k 0) (i # is) s = freewalk_entries fuel E (adr k 0) is s2"
      using sub(1,2) e s1(1) PTE2PA_mkpte [OF sub(2), of 0] table_entry [OF sub(2)] by (simp add: ent Let_def PTE_V_eq s2_def)
    have mem2: "mem s2 x = mem s x" if "pg x \<noteq> k" "pg x \<notin> P i \<union> free s" for x
      using that s1(3) write64_outside [OF k i that(1), of 0 "mem s1"] by (simp add: s2_def)
    have ents: "read64 (mem s2) (entry k j) = read64 m (entry k j)" if "j \<in> set is" for j
    proof -
      have j: "j < 512" "j \<noteq> i" using that Cons.prems(1,2) by auto
      then have "read64 (mem s2) (entry k j) = read64 (mem s1) (entry k j)"
        using read64_write64_other [OF k i k j(1)] by (simp add: s2_def)
      also have "\<dots> = read64 (mem s) (entry k j)"
        using s1(3) kP Cons.prems(7) by (intro read64_outside [OF k j(1)]) simp
      finally show ?thesis using Cons.prems(8) that by simp
    qed
    have subs: "mem s2 x = m x" if "j \<in> set is" "pg x \<in> P j" for j x
    proof -
      have "i \<noteq> j" using that(1) Cons.prems(1) by auto
      then have "pg x \<notin> P i" "pg x \<notin> free s" "pg x \<noteq> k"
        using that Cons.prems(4) [of j] Cons.prems(5) [of i j] Cons.prems(6) [of j] by auto
      then show ?thesis using mem2 Cons.prems(9) [of j x] that by simp
    qed
    have disj: "P j \<inter> free s2 = {}" if "j \<in> set is" for j
      using that Cons.prems(1) Cons.prems(5) [of i j] Cons.prems(6) [of j] unfolding free2 by auto
    have "k \<notin> free s2" using kP Cons.prems(7) unfolding free2 by simp
    then have "\<exists>s'. freewalk_entries fuel E (adr k 0) is s2 = Ret s' \<and> free s' = free s2 \<union> (\<Union>i \<in> set is. P i) \<and>
        (\<forall>x. pg x \<notin> insert k (\<Union>i \<in> set is. P i) \<union> free s2 \<longrightarrow> mem s' x = mem s2 x)"
      using Cons.prems(1-5) ents disj by (intro Cons.IH) (auto elim: subs)
    then obtain s3 where
      s3: "freewalk_entries fuel E (adr k 0) is s2 = Ret s3" "free s3 = free s2 \<union> (\<Union>i \<in> set is. P i)"
        "\<forall>x. pg x \<notin> insert k (\<Union>i \<in> set is. P i) \<union> free s2 \<longrightarrow> mem s3 x = mem s2 x"
      by blast
    have "mem s3 x = mem s x" if "pg x \<notin> insert k (\<Union>i \<in> set (i # is). P i) \<union> free s" for x
      using that s3(3) mem2 [of x] unfolding free2 by simp
    with step s3(1,2) free2 show ?thesis by (simp add: Un_assoc)
  qed
qed

end

section \<open>Freeing the tree\<close>

text \<open>The pages at and below a node.\<close>

definition at_node :: "ptree \<Rightarrow> node \<Rightarrow> nat set" where
  "at_node T n = {k. T n = Some k}"

definition under1 :: "ptree \<Rightarrow> nat \<Rightarrow> nat set" where
  "under1 T i = at_node T (N1 i) \<union> (\<Union>j < 512. at_node T (N0 i j))"

text \<open>No leaf entry is valid.\<close>

definition no_leaves :: "bytes \<Rightarrow> ptree \<Rightarrow> bool" where
  "no_leaves m T \<longleftrightarrow> (\<forall>i j k. T (N0 i j) = Some k \<longrightarrow> (\<forall>l < 512. read64 m (entry k l) AND 1 = 0))"

lemma under1_empty: "tree_ok T \<Longrightarrow> T (N1 i) = None \<Longrightarrow> under1 T i = {}"
  using tree_okD(5) [of T i] by (fastforce simp: under1_def at_node_def)

lemma ran_tree:
  assumes T: "tree_ok T" and k: "T N2 = Some k"
  shows "ran T = insert k (\<Union>i < 512. under1 T i)"
proof (intro equalityI subsetI)
  note D = tree_okD [OF T]
  fix p assume "p \<in> ran T"
  then obtain n where n: "T n = Some p" by (auto simp: ran_def)
  show "p \<in> insert k (\<Union>i < 512. under1 T i)"
  proof (cases n)
    case N2
    with n k show ?thesis by simp
  next
    case (N1 i)
    with n D(4) [of i p] show ?thesis by (force simp: under1_def at_node_def)
  next
    case (N0 i j)
    with n D(5) [of i j p] D(4) [of i] show ?thesis by (force simp: under1_def at_node_def)
  qed
next
  fix p assume "p \<in> insert k (\<Union>i < 512. under1 T i)"
  with k show "p \<in> ran T" by (auto simp: under1_def at_node_def ran_def)
qed

context page_alloc
begin

lemma freewalk_node:
  assumes k: "k \<in> ram" and b: "\<And>i. i < 512 \<Longrightarrow> below E free fuel k m i (P i)"
    and kP: "\<And>i. i < 512 \<Longrightarrow> k \<notin> P i" and dP: "\<And>i j. i < 512 \<Longrightarrow> j < 512 \<Longrightarrow> i \<noteq> j \<Longrightarrow> P i \<inter> P j = {}"
  shows "frees E free (Suc fuel) k (insert k (\<Union>i < 512. P i)) m"
  unfolding frees_def
proof (intro allI impI)
  fix s assume mem: "\<forall>x. pg x \<in> insert k (\<Union>i < 512. P i) \<longrightarrow> mem s x = m x"
    and disj: "insert k (\<Union>i < 512. P i) \<inter> free s = {}"
  have fk: "frame k" using k by (rule free_frame)
  have U: "(\<Union>i \<in> set [0..<512]. P i) = (\<Union>i < 512. P i)" by auto
  have r: "read64 (mem s) (entry k i) = read64 m (entry k i)" if "i < 512" for i
    using mem that by (intro read64_outside [OF fk]) auto
  have "\<exists>s'. freewalk_entries fuel E (adr k 0) [0..<512] s = Ret s' \<and> free s' = free s \<union> (\<Union>i \<in> set [0..<512]. P i) \<and>
      (\<forall>x. pg x \<notin> insert k (\<Union>i \<in> set [0..<512]. P i) \<union> free s \<longrightarrow> mem s' x = mem s x)"
    using b kP dP disj mem r by (intro freewalk_entries_spec [OF fk, where m = m]) auto
  then obtain s1 where s1: "freewalk_entries fuel E (adr k 0) [0..<512] s = Ret s1" "free s1 = free s \<union> (\<Union>i < 512. P i)"
    "\<forall>x. pg x \<notin> insert k (\<Union>i < 512. P i) \<union> free s \<longrightarrow> mem s1 x = mem s x"
    unfolding U by blast
  have "k \<notin> free s1" using s1(2) kP disj by auto
  from kfree_law [OF k this] obtain s2 where s2: "kfree E (adr k 0) s1 = Ret s2" "free s2 = insert k (free s1)"
    "\<forall>x. pg x \<notin> insert k (free s1) \<longrightarrow> mem s2 x = mem s1 x" by blast
  have "mem s2 x = mem s x" if "pg x \<notin> insert k (\<Union>i < 512. P i) \<union> free s" for x
    using that s1(2,3) s2(3) by simp
  with s1 s2 show "\<exists>s'. freewalk (Suc fuel) E (adr k 0) s = Ret s' \<and> free s' = free s \<union> insert k (\<Union>i < 512. P i) \<and>
      (\<forall>x. pg x \<notin> insert k (\<Union>i < 512. P i) \<union> free s \<longrightarrow> mem s' x = mem s x)"
    by simp
qed

lemma freewalk_level0:
  assumes "no_leaves m T" and "T (N0 i j) = Some k" and "k \<in> ram"
  shows "frees E free (Suc fuel) k (at_node T (N0 i j)) m"
  using freewalk_node [of k fuel m "\<lambda>_. {}"] assms by (auto simp: below_def no_leaves_def at_node_def)

lemma freewalk_level1:
  assumes ok: "pt_ok E m T" and nl: "no_leaves m T" and k: "T (N1 i) = Some k" and ram: "ran T \<subseteq> ram"
  shows "frees E free (Suc (Suc fuel)) k (under1 T i) m"
proof -
  note D = tree_okD [OF pt_okD(1) [OF ok]]
  have "frees E free (Suc (Suc fuel)) k (insert k (\<Union>j < 512. at_node T (N0 i j))) m"
  proof (rule freewalk_node)
    show "k \<in> ram" using k ram by (auto simp: ran_def)
    fix j assume j: "j < (512 :: nat)"
    show "k \<notin> at_node T (N0 i j)" using D(3) [OF k] by (auto simp: at_node_def)
    show "at_node T (N0 i j) \<inter> at_node T (N0 i l) = {}" if "j \<noteq> l" for l
      using that D(3) [of "N0 i j" _ "N0 i l"] by (auto simp: at_node_def)
    have s: "slot_ok E m k j (T (N0 i j))" using pt_okD(2) [OF ok _ k j] by simp
    show "below E free (Suc fuel) k m j (at_node T (N0 i j))"
    proof (cases "T (N0 i j)")
      case None
      with s show ?thesis by (auto simp: slot_ok_def below_def at_node_def)
    next
      case (Some c)
      have "c \<in> ram" using Some ram by (auto simp: ran_def)
      with s Some D(2) [OF Some] freewalk_level0 [OF nl Some, of fuel] show ?thesis
        by (auto simp: slot_ok_def below_def)
    qed
  qed
  then show ?thesis using k by (simp add: under1_def at_node_def)
qed

lemma under1_disjoint: "tree_ok T \<Longrightarrow> i \<noteq> j \<Longrightarrow> under1 T i \<inter> under1 T j = {}"
  using tree_okD(3) [of T] by (fastforce simp: under1_def at_node_def)

lemma freewalk_tree:
  assumes ok: "pt_ok E m T" and nl: "no_leaves m T" and k: "T N2 = Some k" and ram: "ran T \<subseteq> ram"
  shows "frees E free (Suc (Suc (Suc fuel))) k (ran T) m"
proof -
  note T = pt_okD(1) [OF ok]
  have "frees E free (Suc (Suc (Suc fuel))) k (insert k (\<Union>i < 512. under1 T i)) m"
  proof (rule freewalk_node)
    show "k \<in> ram" using k ram by (auto simp: ran_def)
    fix i assume i: "i < (512 :: nat)"
    show "k \<notin> under1 T i" using tree_okD(3) [OF T k] by (fastforce simp: under1_def at_node_def)
    show "under1 T i \<inter> under1 T j = {}" if "i \<noteq> j" for j using under1_disjoint [OF T that] .
    have s: "slot_ok E m k i (T (N1 i))" using pt_okD(2) [OF ok _ k i] by simp
    show "below E free (Suc (Suc fuel)) k m i (under1 T i)"
    proof (cases "T (N1 i)")
      case None
      with s under1_empty [OF T None] show ?thesis by (simp add: slot_ok_def below_def)
    next
      case (Some c)
      with s tree_okD(2) [OF T Some] freewalk_level1 [OF ok nl Some ram, of fuel] show ?thesis
        by (auto simp: slot_ok_def below_def)
    qed
  qed
  then show ?thesis by (simp add: ran_tree [OF T k])
qed

end

section \<open>Freeing an address space\<close>

context page_alloc
begin

text \<open>Every entry of a leaf table is the entry of some virtual page.\<close>

lemma no_leavesI:
  assumes T: "tree_ok T" and inv: "\<And>va. va < MAXVA E \<Longrightarrow> pte E m T va AND 1 = 0"
  shows "no_leaves m T"
  unfolding no_leaves_def
proof (intro allI impI)
  fix i j k l :: nat assume n: "T (N0 i j) = Some k" and l: "l < 512"
  have i: "i < 256" and j: "j < 512" using tree_okD(4,5) [OF T] n by blast+
  let ?v = "i * 262144 + j * 512 + l"
  have v: "?v < 2 ^ 26" using i j l by simp
  have d: "?v div 512 = i * 512 + j" using l by (simp add: div_nat_eqI)
  have "px E 2 (adr ?v 0) = i" "px E 1 (adr ?v 0) = j" "px E 0 (adr ?v 0) = l"
  proof -
    have "?v div 512\<^sup>2 = ?v div 512 div 512" by (simp add: power2_eq_square div_mult2_eq)
    then show "px E 2 (adr ?v 0) = i" unfolding px_pg pg_vpage [OF v] d using i j by simp
    show "px E 1 (adr ?v 0) = j" unfolding px_pg pg_vpage [OF v] using d j by simp
    have "?v = (i * 512 + j) * 512 + l" by simp
    then show "px E 0 (adr ?v 0) = l" unfolding px_pg pg_vpage [OF v] using l by (metis mod_mult_self3 mod_less div_by_1 power_0)
  qed
  with n inv [OF vpage_less [OF v]] show "read64 m (entry k l) AND 1 = 0" by (simp add: pte_def leaf_def)
qed

lemma uvmfree_spec:
  assumes us: "uspace E free ram s T {..<npages sz}" and sz: "sz \<le> MAXVA E" and fuel: "npages sz + 3 \<le> fuel"
    and inv: "\<And>va. va < MAXVA E \<Longrightarrow> npages sz \<le> pg va \<Longrightarrow> pte E (mem s) T va AND 1 = 0" and ram: "ran T \<subseteq> ram"
  shows "\<exists>s'. uvmfree fuel E (root T) sz s = Ret s' \<and>
    free s' = free s \<union> ran T \<union> fr E s T ` {..<npages sz} \<and>
    (\<forall>x. pg x \<notin> free s \<union> ran T \<union> fr E s T ` {..<npages sz} \<longrightarrow> mem s' x = mem s x)"
proof -
  have ok: "pt_ok E (mem s) T" using uspaceD(1) [OF us] by (simp add: owns_def)
  from tree_okD(1) [OF pt_okD(1) [OF ok]] obtain k where k: "T N2 = Some k" by blast
  define f where "f = fuel - 3"
  then have f: "fuel = Suc (Suc (Suc f))" using fuel by simp
  have np: "npages sz \<le> 2 ^ 26" by (rule npages_le [OF sz])
  have z: "(0 :: u64) = adr 0 0" by (simp add: adr_def)
  have "adr (npages sz) 0 div 4096 = (of_nat (npages sz) :: u64)"
    using np by (simp add: word_unat_eq_iff unat_div unat_vpage unat_of_nat)
  then have div: "PGROUNDUP E sz div PGSIZE E = of_nat (npages sz)" by (simp add: PGROUNDUP_adr [OF sz] PGSIZE_eq)
  obtain s1 where s1: "(if sz > 0 then uvmunmap fuel E (root T) 0 (PGROUNDUP E sz div PGSIZE E) True s else Ret s) = Ret s1"
    and u: "unmapped E free {..<npages sz} (fr E s T ` {..<npages sz}) s T s1"
  proof (cases "sz > 0")
    case True
    with uvmunmap_spec [OF us, of 0 "npages sz" fuel True] np fuel that show ?thesis
      unfolding div z by (auto simp: atLeast0LessThan)
  next
    case False
    then have "npages sz = 0" by (simp add: npages_def word_gt_0)
    with False that [of s] unmapped_refl [OF uspaceD(1) [OF us]] show ?thesis by simp
  qed
  have ok1: "pt_ok E (mem s1) T" and fr1: "free s1 = free s \<union> fr E s T ` {..<npages sz}" and ow: "ran T \<inter> free s1 = {}"
    using u by (auto simp: unmapped_def owns_def)
  have "pte E (mem s1) T va AND 1 = 0" if "va < MAXVA E" for va
    using u inv [OF that] that by (auto simp: unmapped_def not_less)
  then have nl: "no_leaves (mem s1) T" by (rule no_leavesI [OF pt_okD(1) [OF ok]])
  from freesD [OF freewalk_tree [OF ok1 nl k ram, of f], of s1] ow obtain s2 where
    s2: "freewalk fuel E (root T) s1 = Ret s2" "free s2 = free s1 \<union> ran T"
      "\<forall>x. pg x \<notin> ran T \<union> free s1 \<longrightarrow> mem s2 x = mem s1 x"
    unfolding f by (auto simp: k simp del: freewalk.simps)
  have "uvmfree fuel E (root T) sz s = Ret s2" unfolding uvmfree_def s1 by (simp add: s2(1))
  moreover have "mem s2 x = mem s x" if "pg x \<notin> free s \<union> ran T \<union> fr E s T ` {..<npages sz}" for x
    using that s2(3) u by (auto simp: fr1 unmapped_def)
  ultimately show ?thesis using s2(2) fr1 by auto
qed

end

section \<open>A new address space\<close>

definition fresh_tree :: "nat \<Rightarrow> ptree" where
  "fresh_tree q = (\<lambda>n. if n = N2 then Some q else None)"

context page_alloc
begin

lemma fresh_table:
  assumes q: "frame q" and z: "\<And>x. pg x = q \<Longrightarrow> m x = 0"
  shows "pt_ok E m (fresh_tree q)" and "pte E m (fresh_tree q) va = 0"
proof -
  have "read64 m (entry q i) = 0" if "i < 512" for i using z q that by (intro read64_zero) auto
  moreover have "child n i \<noteq> N2" if "inner n" for n i using that by (cases n) auto
  ultimately show "pt_ok E m (fresh_tree q)"
    using q by (auto simp: pt_ok_def tree_ok_def fresh_tree_def slot_ok_def split: if_splits)
  show "pte E m (fresh_tree q) va = 0" by (simp add: pte_def leaf_def fresh_tree_def)
qed

lemma uvmcreate_spec:
  "uvmcreate E s = (0, s) \<and> free s = {} \<or>
   (\<exists>q s'. uvmcreate E s = (adr q 0, s') \<and> adr q 0 \<noteq> 0 \<and> q \<in> free s \<and> free s' = free s - {q} \<and>
      owns E free s' (fresh_tree q) \<and> (\<forall>va. pte E (mem s') (fresh_tree q) va = 0) \<and>
      (\<forall>x. pg x \<notin> free s \<longrightarrow> mem s' x = mem s x))"
proof (cases "free s = {}")
  case True
  then show ?thesis by (simp add: uvmcreate_def kalloc_empty)
next
  case False
  obtain q s1 where q: "kalloc E s = (adr q 0, s1)" "q \<in> free s" "adr q 0 \<noteq> 0"
    and s2: "free (on_mem (memset (adr q 0) 0 4096) s1) = free s - {q}"
      "\<forall>x. pg x \<notin> free s \<longrightarrow> mem (on_mem (memset (adr q 0) 0 4096) s1) x = mem s x"
      "\<forall>x. pg x = q \<longrightarrow> mem (on_mem (memset (adr q 0) 0 4096) s1) x = 0"
    by (rule kalloc_zero [OF False])
  have fq: "frame q" using q(2) free_ram free_frame by blast
  have "ran (fresh_tree q) = {q}" by (auto simp: fresh_tree_def ran_def split: if_splits)
  moreover have "pt_ok E (mem (on_mem (memset (adr q 0) 0 4096) s1)) (fresh_tree q)"
    "\<And>va. pte E (mem (on_mem (memset (adr q 0) 0 4096) s1)) (fresh_tree q) va = 0"
    using s2(3) by (intro fresh_table [OF fq]; simp)+
  ultimately show ?thesis
    using q s2(1,2)
    by (intro disjI2 exI [of _ q] exI [of _ "on_mem (memset (adr q 0) 0 4096) s1"]) (simp add: uvmcreate_def PGSIZE_eq owns_def)
qed

end

section \<open>The life of an address space\<close>

context page_alloc
begin

lemma address_space_life:
  assumes cr: "uvmcreate E s = (pt, s1)" and pt: "pt \<noteq> 0"
    and al: "uvmalloc fuel E pt 0 sz xperm s1 = Ret (r, s2)" and sz: "sz \<le> MAXVA E" and fuel: "2 * npages sz + 3 \<le> fuel"
    and perm: "take_bit 10 (scast (alloc_perm xperm) :: u64) = scast (alloc_perm xperm)"
      "(scast (alloc_perm xperm) :: u64) OR 1 \<noteq> 1"
  shows "\<exists>s3. uvmfree fuel E pt r s2 = Ret s3 \<and> free s3 = free s"
proof -
  from uvmcreate_spec [of s] cr pt obtain q where q: "pt = adr q 0" "q \<in> free s" "free s1 = free s - {q}"
    "owns E free s1 (fresh_tree q)" "\<forall>va. pte E (mem s1) (fresh_tree q) va = 0" by auto
  have root: "root (fresh_tree q) = adr q 0" and ran: "ran (fresh_tree q) = {q}"
    by (auto simp: fresh_tree_def ran_def split: if_splits)
  have np0: "npages 0 = 0" by (simp add: npages_def)
  have us: "uspace E free ram s1 (fresh_tree q) {}" using q(4) by (simp add: uspace_def)
  obtain T where T: "ugrown E free ram s1 (fresh_tree q) {} s2 T {..<npages r}" and r: "r = sz \<or> r = 0"
    using uvmalloc_spec [of s1 "fresh_tree q" 0 sz fuel xperm] us sz fuel q(5) perm al
    unfolding np0 root q(1) by (auto simp: np0)
  note G = ugrownD [OF T]
  have rmax: "r \<le> MAXVA E" and rfuel: "npages r + 3 \<le> fuel" using r sz fuel np0 by auto
  have inv: "pte E (mem s2) T va AND 1 = 0" if "va < MAXVA E" "npages r \<le> pg va" for va
    using G(7) [OF that(1)] that(2) q(5) by auto
  have ram: "ran T \<subseteq> ram" using G(4) q(2,3) free_ram unfolding ran by blast
  from uvmfree_spec [OF G(1) rmax rfuel inv ram] obtain s3 where
    s3: "uvmfree fuel E (root T) r s2 = Ret s3" "free s3 = free s2 \<union> ran T \<union> fr E s2 T ` {..<npages r}" by auto
  have "q \<in> ran T" using map_le_ran [OF G(3)] ran by auto
  then have "free s3 = free s" using s3(2) G(4-6) q(2,3) unfolding ran by auto
  with s3(1) root_ugrown [OF us T] root q(1) show ?thesis by simp
qed

end

end
