(* ===== verification/Vm_Machine.thy ===== *)
theory Vm_Machine
  imports Vm_Str Vm_Free Vm_Copy
begin

text \<open>
  A reference machine: the encoding of \<open>riscv.h\<close> and a page allocator that keeps a list of free
  pages and fills what it hands out and takes back with junk. It satisfies the laws of
  \<open>page_alloc\<close>, so every theorem over them holds of it.
\<close>

definition ref_ram :: "nat set" where
  "ref_ram = {1..<1024}"

definition ref_free :: "nat list vm \<Rightarrow> nat set" where
  "ref_free s = set (vw s) \<inter> ref_ram"

definition ref_kalloc :: "nat list vm \<Rightarrow> addr64 \<times> nat list vm" where
  "ref_kalloc s =
     (case filter (\<lambda>k. 1 \<le> k \<and> k < 1024) (vw s) of
        [] \<Rightarrow> (0, s)
      | k # ks \<Rightarrow> (adr k 0, s\<lparr>mem := memset (adr k 0) 5 4096 (mem s), vw := removeAll k (vw s)\<rparr>))"

definition ref_kfree :: "addr64 \<Rightarrow> nat list vm \<Rightarrow> nat list vm outcome" where
  "ref_kfree a s =
     (if a mod 4096 \<noteq> 0 \<or> \<not> (1 \<le> pg a \<and> pg a < 1024) then Panic ''kfree''
      else Ret (s\<lparr>mem := memset a 1 4096 (mem s), vw := pg a # vw s\<rparr>))"

definition ref_vext :: "nat list vext" where
  "ref_vext = \<lparr>PGSIZE = 4096, PTE_V = 1, PTE_R = 2, PTE_W = 4, PTE_X = 8, PTE_U = 16, MAXVA = 2 ^ 38,
     PX = (\<lambda>l va. drop_bit (12 + 9 * l) va AND 511),
     PTE2PA = (\<lambda>e. push_bit 12 (drop_bit 10 e)), PA2PTE = (\<lambda>p. push_bit 10 (drop_bit 12 p)),
     PTE_FLAGS = (\<lambda>e. e AND 1023), PGROUNDUP = (\<lambda>a. (a + 4095) AND NOT 4095),
     PGROUNDDOWN = (\<lambda>a. a AND NOT 4095), UART0 = 0x10000000, VIRTIO0 = 0x10001000,
     PLIC = 0xc000000, KERNBASE = 0x80000000, PHYSTOP = 0x88000000,
     TRAMPOLINE = 2 ^ 38 - 4096, KSTACK = (\<lambda>p. 2 ^ 38 - 4096 - of_nat ((p + 1) * 2 * 4096)),
     n_proc = 64, etext = 0x80008000, trampoline = 0x80007000,
     MAKE_SATP = (\<lambda>p. 2 ^ 63 OR drop_bit 12 p), kalloc = ref_kalloc, kfree = ref_kfree,
     sfence_vma = (\<lambda>s. s), w_satp = (\<lambda>x s. s)\<rparr>"

lemma ref_frame: "k \<in> ref_ram \<Longrightarrow> frame k"
  by (simp add: ref_ram_def frame_def)

interpretation refvm: page_alloc ref_vext ref_free ref_ram
proof
  fix s :: "nat list vm" and k :: nat
  show "ref_free s \<subseteq> ref_ram" by (simp add: ref_free_def)
  show "frame k" if "k \<in> ref_ram" using that by (rule ref_frame)
  have flt: "set (filter (\<lambda>k. 1 \<le> k \<and> k < 1024) (vw s)) = ref_free s"
    by (auto simp: ref_free_def ref_ram_def)
  show "kalloc ref_vext s = (0, s)" if "ref_free s = {}"
  proof -
    have "filter (\<lambda>k. 1 \<le> k \<and> k < 1024) (vw s) = []" using that flt by (metis set_empty)
    then show ?thesis by (simp add: ref_vext_def ref_kalloc_def)
  qed
  show "\<exists>k s'. kalloc ref_vext s = (adr k 0, s') \<and> k \<in> ref_free s \<and> ref_free s' = ref_free s - {k} \<and>
         kernel_pagetable s' = kernel_pagetable s \<and> (\<forall>x. pg x \<notin> ref_free s \<longrightarrow> mem s' x = mem s x)"
    if "ref_free s \<noteq> {}"
  proof -
    have "filter (\<lambda>k. 1 \<le> k \<and> k < 1024) (vw s) \<noteq> []" using that flt by (metis list.set(1))
    then obtain k ks where k: "filter (\<lambda>k. 1 \<le> k \<and> k < 1024) (vw s) = k # ks" by (metis list.exhaust)
    have kf: "k \<in> ref_free s" using flt unfolding k by auto
    then have "frame k" by (auto simp: ref_free_def intro: ref_frame)
    with k kf show ?thesis
      by (intro exI [of _ k] exI [of _ "s\<lparr>mem := memset (adr k 0) 5 4096 (mem s), vw := removeAll k (vw s)\<rparr>"])
        (auto simp: ref_vext_def ref_kalloc_def ref_free_def memset_page)
  qed
  show "\<exists>s'. kfree ref_vext (adr k 0) s = Ret s' \<and> ref_free s' = insert k (ref_free s) \<and>
         kernel_pagetable s' = kernel_pagetable s \<and> (\<forall>x. pg x \<notin> insert k (ref_free s) \<longrightarrow> mem s' x = mem s x)"
    if k: "k \<in> ref_ram" "k \<notin> ref_free s"
  proof -
    note fk = ref_frame [OF k(1)]
    have "adr k 0 mod 4096 = 0"
      using unat_adr [OF fk, of 0] by (simp add: word_unat_eq_iff unat_mod)
    then show ?thesis
      using k pg_adr [OF fk, of 0] by (auto simp: ref_vext_def ref_kfree_def ref_free_def ref_ram_def memset_page [OF fk])
  qed
qed (auto simp: ref_vext_def ref_free_def)

end
