(* ===== verification/Vm_Kernel.thy ===== *)
theory Vm_Kernel
  imports Vm_Machine
begin

text \<open>
  The contracts of \<open>vm.c\<close> for every machine with the Sv39 encoding and a page allocator, each
  run on the reference machine.
\<close>

section \<open>States of the reference machine\<close>

text \<open>Page 1 and page 2 are empty page tables, the pages from 3 on are free.\<close>

definition vm0 :: "nat list vm" where
  "vm0 = \<lparr>mem = (\<lambda>_. 0), kernel_pagetable = 0, vw = [3..<200]\<rparr>"

lemma free_vm0: "ref_free vm0 = {3..<200}"
  by (auto simp: ref_free_def vm0_def ref_ram_def simp del: upt_rec_numeral)

lemma mem_vm0: "mem vm0 x = 0"
  by (simp add: vm0_def)

lemma card_vm0: "card (ref_free vm0) = 197"
  by (simp add: free_vm0)

lemma ran_fresh: "ran (fresh_tree q) = {q}"
  by (auto simp: fresh_tree_def ran_def split: if_splits)

lemma root_fresh: "root (fresh_tree q) = adr q 0"
  by (simp add: fresh_tree_def)

lemma owns_vm0:
  assumes "q \<in> {1, 2}"
  shows "owns ref_vext ref_free vm0 (fresh_tree q)"
proof -
  have "frame q" using assms by (auto simp: frame_def)
  from refvm.fresh_table(1) [OF this, of "mem vm0"] assms show ?thesis
    by (auto simp: owns_def ran_fresh free_vm0 mem_vm0)
qed

lemma pte_vm0: "pte ref_vext (mem vm0) (fresh_tree q) va = 0"
  by (simp add: pte_def leaf_def fresh_tree_def)

lemma uspace_vm0: "q \<in> {1, 2} \<Longrightarrow> uspace ref_vext ref_free ref_ram vm0 (fresh_tree q) {}"
  using owns_vm0 by (simp add: uspace_def)

section \<open>Growing\<close>

context page_alloc
begin

lemma alloc_perm_ok:
  assumes "take_bit 10 (xperm :: i32) = xperm"
  shows "(scast (alloc_perm xperm) :: u64) = 18 OR ucast xperm"
    and "take_bit 10 (18 OR ucast xperm :: u64) = 18 OR ucast xperm" and "(18 OR ucast xperm :: u64) OR 1 \<noteq> 1"
proof -
  have p: "alloc_perm xperm = 18 OR xperm" by (simp add: PTE_R_eq PTE_U_eq)
  have t: "take_bit 10 (18 OR xperm) = 18 OR xperm" using assms by simp
  have s: "(scast w :: u64) = ucast w" if "take_bit 10 w = w" for w :: i32
  proof (rule bit_eqI)
    have "bit w n \<Longrightarrow> n < 10" for n using that by (metis bit_take_bit_iff)
    then have "\<not> bit w n" if "10 \<le> n" for n using that by fastforce
    then show "bit (scast w :: u64) n = bit (ucast w :: u64) n" if "possible_bit TYPE(u64) n" for n
      using that by (cases "n < 31") (auto simp: bit_simps min_def)
  qed
  show e: "(scast (alloc_perm xperm) :: u64) = 18 OR ucast xperm"
    unfolding p s [OF t] by (simp add: unsigned_or_eq)
  show "take_bit 10 (18 OR ucast xperm :: u64) = 18 OR ucast xperm"
    unfolding e [symmetric] p s [OF t] by (metis t unsigned_take_bit_eq)
  have "bit ((18 OR ucast xperm :: u64) OR 1) 1" by (simp add: bit_or_iff)
  moreover have "\<not> bit (1 :: u64) 1" by simp
  ultimately show "(18 OR ucast xperm :: u64) OR 1 \<noteq> 1" by metis
qed

end

text \<open>(C17) \<open>uvmalloc\<close> from a size to a larger one either returns the new size, with every new page
  mapped to a zeroed frame of its own, readable, accessible to the user and with the permissions
  asked for; or it returns 0 and the address space has the old pages. In both cases the old pages
  keep their entries, frames that are neither free nor page-table pages are not written, and no
  frame is lost: what is no longer free is in the table or mapped. Three free pages per new page
  are enough for success, and no more than that are used.\<close>

theorem uvmalloc_correct:
  assumes "page_alloc E free ram" and "uspace E free ram s T {..<npages oldsz}"
    and "oldsz \<le> newsz" and "newsz \<le> MAXVA E" and "2 * npages newsz + 2 \<le> fuel"
    and "\<forall>va < MAXVA E. npages oldsz \<le> pg va \<and> pg va < npages newsz \<longrightarrow> pte E (mem s) T va = 0"
    and "take_bit 10 xperm = xperm"
  shows "\<exists>r s' T'. uvmalloc fuel E (root T) oldsz newsz xperm s = Ret (r, s') \<and>
     (r = newsz \<and> card (free s) \<le> card (free s') + 3 * (npages newsz - npages oldsz) \<and>
        ugrown E free ram s T {..<npages oldsz} s' T' {..<npages newsz} \<and>
        (\<forall>v. npages oldsz \<le> v \<longrightarrow> v < npages newsz \<longrightarrow> zero_page E s' T' v \<and>
           PTE_FLAGS E (pte E (mem s') T' (adr v 0)) = 18 OR ucast xperm OR 1) \<or>
      r = 0 \<and> ugrown E free ram s T {..<npages oldsz} s' T' {..<npages oldsz}) \<and>
     (3 * (npages newsz - npages oldsz) \<le> card (free s) \<longrightarrow> r = newsz)"
proof -
  note ap = page_alloc.alloc_perm_ok [OF assms(1,7)]
  show ?thesis
    using page_alloc.uvmalloc_spec [OF assms(1-5) _ _ _, of xperm] assms(6) ap
    by (auto simp: ap(1) or.assoc)
qed

theorem uvmalloc_correct_witness:
  "\<exists>s' T'. uvmalloc 6 ref_vext (adr 1 0) 0 8192 4 vm0 = Ret (8192, s') \<and>
     ugrown ref_vext ref_free ref_ram vm0 (fresh_tree 1) {} s' T' {..<2}"
proof -
  have np: "npages 0 = 0" "npages 8192 = 2" by (simp_all add: npages_def)
  show ?thesis
    using uvmalloc_correct [of ref_vext ref_free ref_ram vm0 "fresh_tree 1" 0 8192 6 4]
      refvm.page_alloc_axioms uspace_vm0 [of 1] pte_vm0 card_vm0
    unfolding np root_fresh by (auto simp: refvm.MAXVA_eq)
qed

text \<open>An address space of two pages on the reference machine, beside the empty table in page 2.\<close>

lemma parent2:
  "\<exists>s T. ugrown ref_vext ref_free ref_ram vm0 (fresh_tree 1) {} s T {..<2} \<and> 191 \<le> card (ref_free s) \<and>
     root T = adr 1 0 \<and>
     (\<forall>v < 2. zero_page ref_vext s T v \<and> PTE_FLAGS ref_vext (pte ref_vext (mem s) T (adr v 0)) = 23)"
proof -
  have np: "npages 0 = 0" "npages 8192 = 2" by (simp_all add: npages_def)
  note ap = refvm.alloc_perm_ok [of 4, simplified]
  from refvm.uvmalloc_spec [of vm0 "fresh_tree 1" 0 8192 6 4] uspace_vm0 [of 1] pte_vm0 card_vm0 ap
  obtain s T where "ugrown ref_vext ref_free ref_ram vm0 (fresh_tree 1) {} s T {..<2}" "191 \<le> card (ref_free s)"
    "\<forall>v < 2. zero_page ref_vext s T v \<and> PTE_FLAGS ref_vext (pte ref_vext (mem s) T (adr v 0)) = 23"
    unfolding np by (auto simp: refvm.MAXVA_eq)
  moreover from this have "root T = adr 1 0"
    using refvm.root_ugrown [OF uspace_vm0 [of 1]] root_fresh by simp
  ultimately show ?thesis by blast
qed

section \<open>Copying an address space\<close>

text \<open>(C16) \<open>uvmcopy\<close> either returns 0, with every page of the child mapped to a fresh frame that has
  the contents and the permissions of the parent's page, or it returns -1 and the child has no
  page and all its frames are free again. The parent's pages keep their entries and contents in
  both cases. Three free pages per page are enough for success.\<close>

theorem uvmcopy_correct:
  assumes "page_alloc E free ram" and "uspace E free ram s T {..<npages sz}" and "owns E free s N"
    and "apart E s T {..<npages sz} N" and "sz \<le> MAXVA E" and "2 * npages sz + 2 \<le> fuel"
    and "\<forall>va < MAXVA E. pg va < npages sz \<longrightarrow> pte E (mem s) N va = 0"
  shows "\<exists>r s' K. uvmcopy fuel E (root T) (root N) sz s = Ret (r, s') \<and>
     (r = 0 \<and> ugrown E free ram s N {} s' K {..<npages sz} \<and> (\<forall>v < npages sz. same_page E s T s' K v) \<or>
      r = - 1 \<and> ugrown E free ram s N {} s' K {}) \<and>
     uspace E free ram s' T {..<npages sz} \<and> (\<forall>v < npages sz. same_page E s T s' T v) \<and>
     (3 * npages sz \<le> card (free s) \<longrightarrow> r = 0)"
  using page_alloc.uvmcopy_spec [OF assms(1-6)] assms(7) by simp

theorem uvmcopy_correct_witness:
  "\<exists>s T s' K. uspace ref_vext ref_free ref_ram s T {..<2} \<and>
     uvmcopy 6 ref_vext (adr 1 0) (adr 2 0) 8192 s = Ret (0, s') \<and>
     ugrown ref_vext ref_free ref_ram s (fresh_tree 2) {} s' K {..<2} \<and> (\<forall>v < 2. same_page ref_vext s T s' K v)"
proof -
  from parent2 obtain s T where g: "ugrown ref_vext ref_free ref_ram vm0 (fresh_tree 1) {} s T {..<2}"
    and card: "191 \<le> card (ref_free s)" and root: "root T = adr 1 0" by blast
  note G = ugrownD [OF g, unfolded ran_fresh free_vm0]
  have np: "npages 8192 = 2" by (simp add: npages_def)
  have m2: "mem s x = 0" if "pg x = 2" for x using G(8) that by (simp add: mem_vm0)
  have "frame 2" by (simp add: frame_def)
  from refvm.fresh_table [OF this, of "mem s"] m2
  have t2: "pt_ok ref_vext (mem s) (fresh_tree 2)" "\<And>va. pte ref_vext (mem s) (fresh_tree 2) va = 0" by auto
  have "owns ref_vext ref_free s (fresh_tree 2)" using t2(1) G(6) by (auto simp: owns_def ran_fresh)
  moreover have "apart ref_vext s T {..<2} (fresh_tree 2)" using G(4,5) by (auto simp: apart_def ran_fresh)
  ultimately show ?thesis
    using uvmcopy_correct [of ref_vext ref_free ref_ram s T 8192 "fresh_tree 2" 6]
      refvm.page_alloc_axioms G(1) t2(2) card
    unfolding np root root_fresh by (auto simp: refvm.MAXVA_eq)
qed

section \<open>The life of an address space\<close>

text \<open>Nothing leaks: a table made by \<open>uvmcreate\<close> and grown by \<open>uvmalloc\<close> to any size, or not
  grown because memory ran out, is given back by \<open>uvmfree\<close> completely. \<open>uvmfree\<close> returns, and the
  free pages are those before the table was made.\<close>

theorem address_space_no_leak:
  assumes "page_alloc E free ram" and "uvmcreate E s = (pt, s1)" and "pt \<noteq> 0"
    and "uvmalloc fuel E pt 0 sz xperm s1 = Ret (r, s2)" and "sz \<le> MAXVA E" and "2 * npages sz + 3 \<le> fuel"
    and "take_bit 10 xperm = xperm"
  shows "\<exists>s3. uvmfree fuel E pt r s2 = Ret s3 \<and> free s3 = free s"
  using page_alloc.address_space_life [OF assms(1-6)] page_alloc.alloc_perm_ok [OF assms(1,7)] by simp

theorem address_space_no_leak_witness:
  "\<exists>pt s1 s2 s3. uvmcreate ref_vext vm0 = (pt, s1) \<and> uvmalloc 7 ref_vext pt 0 8192 4 s1 = Ret (8192, s2) \<and>
     uvmfree 7 ref_vext pt 8192 s2 = Ret s3 \<and> ref_free s3 = {3..<200}"
proof -
  have np: "npages 0 = 0" "npages 8192 = 2" by (simp_all add: npages_def)
  from refvm.uvmcreate_spec [of vm0] obtain q s1 where c: "uvmcreate ref_vext vm0 = (adr q 0, s1)" "adr q 0 \<noteq> 0"
    "q \<in> {3..<200}" "ref_free s1 = {3..<200} - {q}" "owns ref_vext ref_free s1 (fresh_tree q)"
    "\<forall>va. pte ref_vext (mem s1) (fresh_tree q) va = 0"
    by (auto simp: free_vm0)
  have card: "6 \<le> card (ref_free s1)" using c(3) by (simp add: c(4) card_Diff_singleton)
  have "uspace ref_vext ref_free ref_ram s1 (fresh_tree q) {}" using c(5) by (simp add: uspace_def)
  with refvm.uvmalloc_spec [of s1 "fresh_tree q" 0 8192 7 4] c(6) card refvm.alloc_perm_ok [of 4, simplified]
  obtain s2 where a: "uvmalloc 7 ref_vext (adr q 0) 0 8192 4 s1 = Ret (8192, s2)"
    unfolding np root_fresh by (auto simp: refvm.MAXVA_eq)
  from address_space_no_leak [OF refvm.page_alloc_axioms c(1,2) a] c(1) a show ?thesis
    by (auto simp: refvm.MAXVA_eq np free_vm0)
qed

section \<open>Mappings\<close>

text \<open>(C18) \<open>mappages\<close> on a range that is not mapped: every page of the range refers to the next frame
  with the permissions asked for and the result is 0; or, out of memory, the first pages of the
  range do and the result is -1. All other entries are as before, new page-table pages were free,
  and no other memory is written. The loop ends after as many rounds as the range has pages, and
  two free pages per page are enough for success.\<close>

theorem mappages_correct:
  assumes "page_alloc E free ram" and "owns E free s T" and "0 < sz" and "unat va + unat sz \<le> 2 ^ 38"
    and "pg (va + sz - 1) - pg va < fuel"
    and "\<forall>v. pg va \<le> v \<and> v \<le> pg (va + sz - 1) \<longrightarrow> pte E (mem s) T (adr v 0) AND 1 = 0"
  shows "\<exists>r s' T' d. mappages fuel E (root T) va sz (adr p 0) perm s = Ret (r, s') \<and>
     extends E free s T s' T' \<and> mapped_to E (pg va) d p (scast perm) (mem s) T (mem s') T' \<and>
     (r = 0 \<and> d = Suc (pg (va + sz - 1) - pg va) \<or> r = - 1 \<and> d \<le> pg (va + sz - 1) - pg va) \<and>
     (2 * Suc (pg (va + sz - 1) - pg va) \<le> card (free s) \<longrightarrow> r = 0)"
  using page_alloc.mappages_spec [OF assms(1-5)] assms(6) by blast

theorem mappages_correct_witness:
  "\<exists>s' T'. mappages 3 ref_vext (adr 1 0) 4096 8193 (adr 300 0) 6 vm0 = Ret (0, s') \<and>
     mapped_to ref_vext 1 3 300 6 (mem vm0) (fresh_tree 1) (mem s') T'"
proof -
  have p: "pg 4096 = 1" "pg (4096 + 8193 - 1) = 3" by (simp_all add: pg_def)
  have c: "\<not> card (ref_free vm0) < 6" by (simp add: card_vm0)
  show ?thesis
    using mappages_correct [of ref_vext ref_free ref_ram vm0 "fresh_tree 1" 8193 4096 3 300 6]
      refvm.page_alloc_axioms owns_vm0 [of 1] pte_vm0 c
    unfolding p root_fresh by (auto simp: numeral_3_eq_3)
qed

text \<open>\<open>mappages\<close> stops the kernel rather than map nothing or map a page twice: an empty range and
  a range whose first page is mapped already are panics.\<close>

theorem mappages_refuses:
  assumes "page_alloc E free ram" and "owns E free s T" and "va < MAXVA E"
    and "pte E (mem s) T va AND 1 \<noteq> 0" and "2 \<le> card (free s)" and "0 < fuel"
  shows "mappages fuel E (root T) va 0 pa perm s = Panic ''mappages: size'' \<and>
    (0 < sz \<longrightarrow> mappages fuel E (root T) va sz pa perm s = Panic ''mappages: remap'')"
proof -
  from assms(6) obtain f where f: "fuel = Suc f" by (cases fuel) auto
  then show ?thesis
    using page_alloc.mappages_remap [OF assms(1,2) _ assms(3-5)] by (simp add: mappages_def)
qed

theorem mappages_refuses_witness:
  "\<exists>s. mappages 1 ref_vext (adr 1 0) 5000 4096 (adr 300 0) 6 s = Panic ''mappages: remap''"
proof -
  from parent2 obtain s T where g: "ugrown ref_vext ref_free ref_ram vm0 (fresh_tree 1) {} s T {..<2}"
    and card: "191 \<le> card (ref_free s)" and root: "root T = adr 1 0" by blast
  note U = uspaceD [OF ugrownD(1) [OF g]]
  have "adr 1 0 < MAXVA ref_vext" "5000 < MAXVA ref_vext" by (simp_all add: adr_def refvm.MAXVA_eq)
  moreover have "pte ref_vext (mem s) T 5000 = pte ref_vext (mem s) T (adr 1 0)"
    by (rule refvm.pte_same) (simp add: pg_def adr_def)
  moreover have "pte ref_vext (mem s) T (adr 1 0) AND 1 \<noteq> 0" by (rule refvm.leaf_entryD(1) [OF U(3)]) simp
  ultimately show ?thesis
    using mappages_refuses [of ref_vext ref_free ref_ram s T 5000 1 "adr 300 0" 6 4096] refvm.page_alloc_axioms U(1) card root
    by auto
qed

text \<open>\<open>walkaddr\<close> on a page table in memory returns the physical page of a valid mapping that the
  user may access, and 0 for every other address, those past the end of the address space
  included; it never panics.\<close>

theorem walkaddr_correct:
  assumes "sv39 E" and "pt_ok E (mem s) T"
  shows "walkaddr E (root T) va s =
    Ret (if va < MAXVA E \<and> pte E (mem s) T va AND 1 \<noteq> 0 \<and> pte E (mem s) T va AND 16 \<noteq> 0
         then PTE2PA E (pte E (mem s) T va) else 0)"
  using sv39.walkaddr_eq [OF assms] .

text \<open>The two pages of the reference address space are the user's.\<close>

lemma user2:
  "\<exists>s T. user_space ref_vext ref_free ref_ram s T \<and> Collect (uacc ref_vext (mem s) T) = {..<2} \<and>
     root T = adr 1 0 \<and> (\<forall>k \<in> ran T \<union> ref_free s \<union> fr ref_vext s T ` {..<2}. k < 200) \<and>
     (\<forall>d < 8192. mem s (ua ref_vext (mem s) T d) = 0)"
proof -
  from parent2 obtain s T where g: "ugrown ref_vext ref_free ref_ram vm0 (fresh_tree 1) {} s T {..<2}"
    and root: "root T = adr 1 0" and fl: "\<And>v. v < 2 \<Longrightarrow> PTE_FLAGS ref_vext (pte ref_vext (mem s) T (adr v 0)) = 23"
    and z: "\<And>v. v < 2 \<Longrightarrow> zero_page ref_vext s T v" by blast
  note G = ugrownD [OF g, unfolded ran_fresh free_vm0]
  note U = uspaceD [OF G(1)]
  have "pte ref_vext (mem s) T (adr v 0) AND 16 \<noteq> 0" if "v < 2" for v
  proof
    assume "pte ref_vext (mem s) T (adr v 0) AND 16 = 0"
    then have "(pte ref_vext (mem s) T (adr v 0) AND 16) AND 1023 = 0" by simp
    then have "PTE_FLAGS ref_vext (pte ref_vext (mem s) T (adr v 0)) AND 16 = 0"
      by (simp only: refvm.PTE_FLAGS_eq and.assoc and.commute [of "16 :: u64"])
    with fl [OF that] show False by simp
  qed
  moreover have "pte ref_vext (mem s) T (adr v 0) = 0" if "v < 2 ^ 26" "\<not> v < 2" for v
    using G(7) [of "adr v 0"] that pte_vm0 by (simp add: refvm.vpage_less refvm.pg_vpage)
  ultimately have "uacc ref_vext (mem s) T v \<longleftrightarrow> v < 2" for v
    using refvm.leaf_entryD(1) [OF U(3), of v] by (cases "v < 2"; cases "v < 2 ^ 26") (simp_all add: uacc_def)
  then have acc: "Collect (uacc ref_vext (mem s) T) = {..<2}" by auto
  have "k < 200" if "k \<in> ran T \<union> ref_free s \<union> fr ref_vext s T ` {..<2}" for k
  proof -
    have "fr ref_vext s T ` {..<2} \<subseteq> {3..<200}" "ran T \<subseteq> {1} \<union> {3..<200}" "ref_free s \<subseteq> {3..<200}" using G(4-6) by auto
    with that have "k \<in> {1} \<union> {3..<200}" by blast
    then show ?thesis by auto
  qed
  moreover have "mem s (ua ref_vext (mem s) T d) = 0" if "d < 8192" for d
  proof -
    have "d div 4096 < 2" using that by (simp add: less_mult_imp_div_less)
    with z [of "d div 4096"] pg_adr [OF refvm.leaf_entryD(3) [OF U(3)], of "d div 4096" "d mod 4096"]
    show ?thesis by (simp add: zero_page_def ua_def)
  qed
  ultimately show ?thesis using G(1) acc root by (intro exI [of _ s] exI [of _ T]) simp
qed

theorem walkaddr_correct_witness:
  "\<exists>s k. frame k \<and> walkaddr ref_vext (adr 1 0) 5000 s = Ret (adr k 0)"
proof -
  from user2 obtain s T where us: "user_space ref_vext ref_free ref_ram s T"
    and acc: "Collect (uacc ref_vext (mem s) T) = {..<2}" and root: "root T = adr 1 0" by blast
  have "1 \<in> Collect (uacc ref_vext (mem s) T)" unfolding acc by simp
  then have "uacc ref_vext (mem s) T 1" by simp
  then have u: "pte ref_vext (mem s) T (adr 1 0) AND 1 \<noteq> 0" "pte ref_vext (mem s) T (adr 1 0) AND 16 \<noteq> 0"
    by (simp_all add: uacc_def)
  then have "1 \<in> Collect (uacc ref_vext (mem s) T)" unfolding acc by simp
  note e = refvm.leaf_entryD(2,3) [OF uspaceD(3) [OF us this]]
  have "pte ref_vext (mem s) T 5000 = pte ref_vext (mem s) T (adr 1 0)"
    by (rule refvm.pte_same) (simp add: pg_def adr_def)
  moreover have "pt_ok ref_vext (mem s) T" using uspaceD(1) [OF us] by (simp add: owns_def)
  ultimately have "walkaddr ref_vext (adr 1 0) 5000 s = Ret (adr (fr ref_vext s T 1) 0)"
    using walkaddr_correct [OF refvm.sv39_axioms, of s T 5000] u e(1) root by (simp add: refvm.MAXVA_eq)
  with e(2) show ?thesis by blast
qed

section \<open>Copies between the kernel and the user\<close>

text \<open>(C20) \<open>copyout\<close> writes the bytes of the kernel's source to the user addresses, page by page, and
  nothing else: all of them and it returns 0, or those before the first page that the user may
  not access and it returns -1. It ends after as many rounds as the range has pages.\<close>

theorem copyout_correct:
  assumes "page_alloc E free ram" and "user_space E free ram s T"
    and "D < 2 ^ 64" and "L < 2 ^ 64" and "pages D L < fuel"
    and "\<forall>i < L. pg (src + of_nat i) \<notin> fr E s T ` Collect (uacc E (mem s) T)"
  shows "\<exists>c m. copyout fuel E (root T) (of_nat D) src (of_nat L) s = Ret (if c = L then 0 else - 1, s\<lparr>mem := m\<rparr>) \<and>
     copy_extent E (mem s) T D L c \<and>
     (\<forall>i < c. m (ua E (mem s) T (D + i)) = mem s (src + of_nat i)) \<and>
     (\<forall>x. x \<notin> (\<lambda>i. ua E (mem s) T (D + i)) ` {..<c} \<longrightarrow> m x = mem s x)"
  using page_alloc.copyout_spec [OF assms(1-5)] assms(6) by blast

lemma kernel_page:
  assumes "200 \<le> k" and "k < 1000" and "i < 8192"
  shows "\<not> pg (adr k 0 + of_nat i) < 200"
proof -
  have "unat (adr k i) = 4096 * k + i" using assms by (intro unat_adr) (simp_all add: frame_def)
  then have "k \<le> pg (adr k 0 + of_nat i)" by (simp add: adr_add pg_def)
  with assms(1) show ?thesis by simp
qed

lemma kernel_pages:
  assumes "\<forall>k \<in> A. k < 200" and "200 \<le> k" and "k < 1000" and "L \<le> 8192"
  shows "\<forall>i < L. pg (adr k 0 + of_nat i) \<notin> A"
  using assms kernel_page [of k] by (meson less_le_trans)

theorem copyout_correct_witness:
  "\<exists>s s1 s2. copyout 4 ref_vext (adr 1 0) 100 (adr 500 0) 5000 s = Ret (0, s1) \<and>
     copyout 4 ref_vext (adr 1 0) 4000 (adr 500 0) 5000 s = Ret (- 1, s2)"
proof -
  from user2 obtain s T where us: "user_space ref_vext ref_free ref_ram s T"
    and acc: "Collect (uacc ref_vext (mem s) T) = {..<2}" and root: "root T = adr 1 0"
    and fr: "\<forall>k \<in> ran T \<union> ref_free s \<union> fr ref_vext s T ` {..<2}. k < 200" by blast
  have a: "uacc ref_vext (mem s) T v \<longleftrightarrow> v < 2" for v using acc by auto
  have src: "\<forall>i < 5000. pg (adr 500 0 + of_nat i) \<notin> fr ref_vext s T ` Collect (uacc ref_vext (mem s) T)"
    unfolding acc by (rule kernel_pages) (use fr in auto)
  have ext: "copy_extent ref_vext (mem s) T 100 5000 c \<Longrightarrow> c = 5000" for c
    using less_mult_imp_div_less [of "100 + c" 2 4096] by (auto simp: copy_extent_def a)
  have ext': "copy_extent ref_vext (mem s) T 4000 5000 c \<Longrightarrow> c \<noteq> 5000" for c
    by (auto simp: copy_extent_def a dest!: spec [of _ 4500])
  note C = copyout_correct [OF refvm.page_alloc_axioms us _ _ _ src, unfolded root]
  from C [of 100 4] C [of 4000 4] ext ext' show ?thesis by (fastforce simp: pages_def)
qed

text \<open>(C19) What \<open>copyout\<close> wrote, \<open>copyin\<close> reads back: after a successful copy to user memory, a copy of
  the same range into a kernel buffer succeeds and gives the bytes of the first copy's source.\<close>

theorem copyout_copyin_roundtrip:
  assumes "page_alloc E free ram" and "user_space E free ram s T"
    and "D < 2 ^ 64" and "L < 2 ^ 64" and "pages D L < fuel"
    and "\<forall>i < L. pg (src + of_nat i) \<notin> fr E s T ` Collect (uacc E (mem s) T)"
    and "copyout fuel E (root T) (of_nat D) src (of_nat L) s = Ret (0, s1)" and "kbuf E free s T dst L"
  shows "\<exists>s2. copyin fuel E (root T) dst (of_nat D) (of_nat L) s1 = Ret (0, s2) \<and>
    (\<forall>i < L. mem s2 (dst + of_nat i) = mem s (src + of_nat i))"
  using page_alloc.copyout_copyin [OF assms(1-5) _ assms(7,8)] assms(6) by blast

theorem copyout_copyin_roundtrip_witness:
  "\<exists>s s1 s2. copyout 4 ref_vext (adr 1 0) 100 (adr 500 0) 5000 s = Ret (0, s1) \<and>
     copyin 4 ref_vext (adr 1 0) (adr 600 0) 100 5000 s1 = Ret (0, s2) \<and>
     mem s2 (adr 600 4999) = mem s (adr 500 4999)"
proof -
  from user2 obtain s T where us: "user_space ref_vext ref_free ref_ram s T"
    and acc: "Collect (uacc ref_vext (mem s) T) = {..<2}" and root: "root T = adr 1 0"
    and fr: "\<forall>k \<in> ran T \<union> ref_free s \<union> fr ref_vext s T ` {..<2}. k < 200" by blast
  have a: "uacc ref_vext (mem s) T v \<longleftrightarrow> v < 2" for v using acc by auto
  have src: "\<forall>i < 5000. pg (adr 500 0 + of_nat i) \<notin> fr ref_vext s T ` Collect (uacc ref_vext (mem s) T)"
    unfolding acc by (rule kernel_pages) (use fr in auto)
  have kb: "kbuf ref_vext ref_free s T (adr 600 0) 5000"
    unfolding kbuf_def acc by (rule kernel_pages [OF fr]) simp_all
  have "copy_extent ref_vext (mem s) T 100 5000 c \<Longrightarrow> c = 5000" for c
    using less_mult_imp_div_less [of "100 + c" 2 4096] by (auto simp: copy_extent_def a)
  with refvm.copyout_spec [of s T 100 5000 4 "adr 500 0"] us src obtain s1 where
    out: "copyout 4 ref_vext (root T) (of_nat 100) (adr 500 0) (of_nat 5000) s = Ret (0, s1)"
    by (fastforce simp: pages_def)
  have pl: "pages 100 5000 < 4" by (simp add: pages_def)
  have at: "adr k 0 + of_nat 4999 = adr k 4999" for k using adr_add [of k 0 4999] by simp
  from copyout_copyin_roundtrip [OF refvm.page_alloc_axioms us _ _ pl src out kb] obtain s2 where
    "copyin 4 ref_vext (root T) (adr 600 0) (of_nat 100) (of_nat 5000) s1 = Ret (0, s2)"
    "\<forall>i < 5000. mem s2 (adr 600 0 + of_nat i) = mem s (adr 500 0 + of_nat i)" by auto
  moreover from this(2) [rule_format, of 4999] have "mem s2 (adr 600 4999) = mem s (adr 500 4999)"
    unfolding at by simp
  ultimately show ?thesis using out unfolding root by auto
qed

text \<open>(C21) \<open>copyinstr\<close> copies the bytes of a user string up to and including its null byte and returns 0,
  when a null byte comes before the limit and before the first page that the user may not access;
  otherwise it returns -1 after the bytes it could read. It writes nothing else, and it ends.\<close>

theorem copyinstr_correct:
  assumes "page_alloc E free ram" and "user_space E free ram s T"
    and "D < 2 ^ 64" and "L < 2 ^ 64" and "pages D L < fuel" and "kbuf E free s T dst L"
  shows "\<exists>c m. str_prefix E (mem s) T D c \<and> c \<le> L \<and>
    (copyinstr fuel E (root T) dst (of_nat D) (of_nat L) s = Ret (0, s\<lparr>mem := m\<rparr>) \<and> c < L \<and>
       uacc E (mem s) T ((D + c) div 4096) \<and> mem s (ua E (mem s) T (D + c)) = 0 \<and> copied_to E (mem s) T D dst (Suc c) m \<or>
     copyinstr fuel E (root T) dst (of_nat D) (of_nat L) s = Ret (- 1, s\<lparr>mem := m\<rparr>) \<and>
       (c = L \<or> \<not> uacc E (mem s) T ((D + c) div 4096)) \<and> copied_to E (mem s) T D dst c m)"
  by (rule page_alloc.copyinstr_spec [OF assms])

theorem copyinstr_correct_witness:
  "\<exists>s s1. copyinstr 2 ref_vext (adr 1 0) (adr 600 0) 100 20 s = Ret (0, s1) \<and> mem s1 (adr 600 0) = 0"
proof -
  from user2 obtain s T where us: "user_space ref_vext ref_free ref_ram s T"
    and acc: "Collect (uacc ref_vext (mem s) T) = {..<2}" and root: "root T = adr 1 0"
    and fr: "\<forall>k \<in> ran T \<union> ref_free s \<union> fr ref_vext s T ` {..<2}. k < 200"
    and z: "\<forall>d < 8192. mem s (ua ref_vext (mem s) T d) = 0" by blast
  have a: "uacc ref_vext (mem s) T v \<longleftrightarrow> v < 2" for v using acc by auto
  have kb: "kbuf ref_vext ref_free s T (adr 600 0) 20"
    unfolding kbuf_def acc by (rule kernel_pages [OF fr]) simp_all
  have pl: "pages 100 20 < 2" by (simp add: pages_def)
  have pre: "str_prefix ref_vext (mem s) T 100 c \<Longrightarrow> c = 0" for c
    using z [rule_format, of 100] by (cases c) (auto simp: str_prefix_def)
  from copyinstr_correct [OF refvm.page_alloc_axioms us _ _ pl kb] pre obtain m where
    "copyinstr 2 ref_vext (root T) (adr 600 0) (of_nat 100) (of_nat 20) s = Ret (0, s\<lparr>mem := m\<rparr>)"
    "copied_to ref_vext (mem s) T 100 (adr 600 0) 1 m" by (fastforce simp: a)
  moreover from this(2) have "m (adr 600 0) = 0" using z by (simp add: copied_to_def)
  ultimately show ?thesis unfolding root by (intro exI [of _ s] exI [of _ "s\<lparr>mem := m\<rparr>"]) simp
qed

section \<open>Shrinking\<close>

text \<open>\<open>uvmdealloc\<close> to a smaller size unmaps exactly the pages that lie wholly above the new size
  and gives their frames back; to a size that is not smaller it changes nothing. All other entries
  and all memory outside the table, the free pages and those frames are as before.\<close>

theorem uvmdealloc_correct:
  assumes "page_alloc E free ram" and "uspace E free ram s T {..<npages oldsz}"
    and "oldsz \<le> MAXVA E" and "npages oldsz < fuel"
  shows "\<exists>s'. uvmdealloc fuel E (root T) oldsz newsz s = Ret (if newsz \<ge> oldsz then oldsz else newsz, s') \<and>
     unmapped E free {npages newsz..<npages oldsz} (fr E s T ` {npages newsz..<npages oldsz}) s T s' \<and>
     uspace E free ram s' T ({..<npages oldsz} - {npages newsz..<npages oldsz})"
proof -
  have sub: "{npages newsz..<npages oldsz} \<subseteq> {..<npages oldsz}" by auto
  from page_alloc.uvmdealloc_spec [OF assms(1,2) sub assms(3,4)] show ?thesis
    using page_alloc.unmapped_uspace(1) [OF assms(1,2) _ _ sub] by blast
qed

theorem uvmdealloc_correct_witness:
  "\<exists>s T s'. uspace ref_vext ref_free ref_ram s T {..<2} \<and>
     uvmdealloc 3 ref_vext (adr 1 0) 8192 100 s = Ret (100, s') \<and> uspace ref_vext ref_free ref_ram s' T {..<1}"
proof -
  from parent2 obtain s T where g: "ugrown ref_vext ref_free ref_ram vm0 (fresh_tree 1) {} s T {..<2}"
    and root: "root T = adr 1 0" by blast
  have np: "npages 8192 = 2" "npages 100 = 1" by (simp_all add: npages_def)
  have d: "{..<2} - {1..<2} = {..<1::nat}" by auto
  show ?thesis
    using uvmdealloc_correct [of ref_vext ref_free ref_ram s T 8192 3 100] refvm.page_alloc_axioms ugrownD(1) [OF g]
    unfolding np d root by (auto simp: refvm.MAXVA_eq)
qed

end
