(* ===== verification/Rv_Proc.thy ===== *)
theory Rv_Proc
  imports Vm
begin

text \<open>
  Lab3 \<open>proc.h\<close> and \<open>proc.c\<close>: the processes of the RISC-V kernel, on top of the page-table operations
  of \<open>Vm\<close>. \<open>proc_mapstacks\<close> is in \<open>Vm\<close>, where \<open>kvmmake\<close> calls it.

  The process table is a list of records. Trap frames, the pages with the pid for user space and user
  memory are pages of the physical memory of \<open>Vm\<close>: a field of a trap frame is the eight bytes at its
  offset. A pointer to a process is its index, the null pointer is \<open>None\<close>.

  The spin locks, the file layer, the constants of \<open>param.h\<close> and \<open>memlayout.h\<close> and the instructions
  that read the hart's registers are not in the repository: they are the fields of \<open>rv_ext\<close>. Where the
  code switches to another context (\<open>swtch\<close>), what happens until control comes back is an argument
  \<open>sw\<close>. \<open>fuel\<close> is for the loops of \<open>vm.c\<close> and for the endless loops.
\<close>

section \<open>Data of proc.h\<close>

record rv_context =
  ctx_ra :: u64
  ctx_sp :: u64
  ctx_s :: "u64 list"

datatype rv_procstate = UNUSED | USED | SLEEPING | RUNNABLE | RUNNING | ZOMBIE

datatype rv_chan = NoChan | ProcChan nat | AddrChan addr64

record rv_proc =
  r_state :: rv_procstate
  r_chan :: rv_chan
  r_killed :: i32
  r_xstate :: i32
  r_pid :: i32
  r_parent :: "nat option"
  r_kstack :: u64
  r_sz :: u64
  r_pagetable :: addr64
  r_trapframe :: addr64
  r_usyscall :: addr64
  r_context :: rv_context
  r_ofile :: "addr64 list"
  r_cwd :: addr64
  r_name :: string

record rv_cpu =
  rc_proc :: "nat option"
  rc_context :: rv_context
  rc_noff :: i32
  rc_intena :: i32

text \<open>Offsets in \<open>struct trapframe\<close>, and its size.\<close>

definition tf_epc :: u64 where "tf_epc = 24"
definition tf_sp :: u64 where "tf_sp = 48"
definition tf_a0 :: u64 where "tf_a0 = 112"
definition tf_a1 :: u64 where "tf_a1 = 120"
definition sizeof_trapframe :: u64 where "sizeof_trapframe = 288"

section \<open>The state and what the code calls\<close>

datatype rv_lock = ProcLock nat | PidLock | WaitLock | Lock addr64

record 'x rv_mach =
  rcpus :: "rv_cpu list"
  hart :: 'x

record ('x, 'f, 'w) rv_st =
  procs :: "rv_proc list"
  rv_initproc :: "nat option"
  rv_nextpid :: i32
  rv_first :: bool
  rmach :: "'x rv_mach"
  files :: 'f
  rvm :: "'w vm"

record ('x, 'f, 'w) rv_ext =
  VE :: "'w vext"
  TRAPFRAME :: u64
  USYSCALL :: u64
  NOFILE :: nat
  ROOTDEV :: i32
  forkret_addr :: u64
  initcode_addr :: addr64
  xstate_addr :: "nat \<Rightarrow> addr64"
  r_tp :: "'x \<Rightarrow> nat"
  push_off :: "'x rv_mach \<Rightarrow> 'x rv_mach outcome"
  pop_off :: "'x rv_mach \<Rightarrow> 'x rv_mach outcome"
  initlock :: "rv_lock \<Rightarrow> 'x rv_mach \<Rightarrow> 'x rv_mach"
  acquire :: "rv_lock \<Rightarrow> 'x rv_mach \<Rightarrow> 'x rv_mach outcome"
  release :: "rv_lock \<Rightarrow> 'x rv_mach \<Rightarrow> 'x rv_mach outcome"
  holding :: "rv_lock \<Rightarrow> 'x rv_mach \<Rightarrow> bool"
  intr_get :: "'x \<Rightarrow> bool"
  intr_on :: "'x rv_mach \<Rightarrow> 'x rv_mach"
  filedup :: "addr64 \<Rightarrow> 'f \<Rightarrow> (addr64 \<times> 'f) outcome"
  fileclose :: "addr64 \<Rightarrow> 'f \<Rightarrow> 'f outcome"
  idup :: "addr64 \<Rightarrow> 'f \<Rightarrow> (addr64 \<times> 'f) outcome"
  iput :: "addr64 \<Rightarrow> 'f \<Rightarrow> 'f outcome"
  namei :: "string \<Rightarrow> 'f \<Rightarrow> (addr64 \<times> 'f) outcome"
  begin_op :: "'f \<Rightarrow> 'f outcome"
  end_op :: "'f \<Rightarrow> 'f outcome"
  fsinit :: "i32 \<Rightarrow> 'f \<Rightarrow> 'f outcome"
  usertrapret :: "('x, 'f, 'w) rv_st \<Rightarrow> ('x, 'f, 'w) rv_st outcome"
  safestrcpy :: "string \<Rightarrow> nat \<Rightarrow> string"

text \<open>Calling a routine on its part of the state.\<close>

definition on_rm where "on_rm f s = obind (f (rmach s)) (\<lambda>m. Ret (s\<lparr>rmach := m\<rparr>))"
definition on_files where "on_files f s = obind (f (files s)) (\<lambda>w. Ret (s\<lparr>files := w\<rparr>))"
definition call_files where "call_files f s = obind (f (files s)) (\<lambda>(x, w). Ret (x, s\<lparr>files := w\<rparr>))"
definition on_vm where "on_vm f s = obind (f (rvm s)) (\<lambda>v. Ret (s\<lparr>rvm := v\<rparr>))"
definition call_vm where "call_vm f s = obind (f (rvm s)) (\<lambda>(x, v). Ret (x, s\<lparr>rvm := v\<rparr>))"

definition rupd :: "nat \<Rightarrow> (rv_proc \<Rightarrow> rv_proc) \<Rightarrow> ('x, 'f, 'w) rv_st \<Rightarrow> ('x, 'f, 'w) rv_st" where
  "rupd i f s = s\<lparr>procs := upd_nth i f (procs s)\<rparr>"

abbreviation rproc :: "('x, 'f, 'w) rv_st \<Rightarrow> nat \<Rightarrow> rv_proc" where
  "rproc s i \<equiv> procs s ! i"

definition wr64 :: "addr64 \<Rightarrow> u64 \<Rightarrow> ('x, 'f, 'w) rv_st \<Rightarrow> ('x, 'f, 'w) rv_st" where
  "wr64 a v s = s\<lparr>rvm := on_mem (write64 a v) (rvm s)\<rparr>"

definition wr32 :: "addr64 \<Rightarrow> i32 \<Rightarrow> ('x, 'f, 'w) rv_st \<Rightarrow> ('x, 'f, 'w) rv_st" where
  "wr32 a v s = s\<lparr>rvm := on_mem (\<lambda>m x. if unat (x - a) < 4 then ucast (drop_bit (8 * unat (x - a)) v) else m x) (rvm s)\<rparr>"

section \<open>CPUs and the current process\<close>

fun procinit_loop :: "('x, 'f, 'w) rv_ext \<Rightarrow> nat list \<Rightarrow> ('x, 'f, 'w) rv_st \<Rightarrow> ('x, 'f, 'w) rv_st" where
  "procinit_loop X [] s = s"
| "procinit_loop X (i # is) s =
     procinit_loop X is
       (rupd i (\<lambda>p. p\<lparr>r_state := UNUSED, r_kstack := KSTACK (VE X) i\<rparr>)
         (s\<lparr>rmach := initlock X (ProcLock i) (rmach s)\<rparr>))"

definition procinit :: "('x, 'f, 'w) rv_ext \<Rightarrow> ('x, 'f, 'w) rv_st \<Rightarrow> ('x, 'f, 'w) rv_st" where
  "procinit X s =
     procinit_loop X [0..<length (procs s)]
       (s\<lparr>rmach := initlock X WaitLock (initlock X PidLock (rmach s))\<rparr>)"

definition rv_cpuid :: "('x, 'f, 'w) rv_ext \<Rightarrow> 'x rv_mach \<Rightarrow> nat" where
  "rv_cpuid X m = r_tp X (hart m)"

definition rv_mycpu :: "('x, 'f, 'w) rv_ext \<Rightarrow> 'x rv_mach \<Rightarrow> nat outcome" where
  "rv_mycpu X m = (let id = rv_cpuid X m in if id < length (rcpus m) then Ret id else Undef ''cpus'')"

definition rv_myproc :: "('x, 'f, 'w) rv_ext \<Rightarrow> ('x, 'f, 'w) rv_st \<Rightarrow> (nat option \<times> ('x, 'f, 'w) rv_st) outcome" where
  "rv_myproc X s =
     obind (on_rm (push_off X) s) (\<lambda>s.
     obind (rv_mycpu X (rmach s)) (\<lambda>c.
     let p = rc_proc (rcpus (rmach s) ! c) in
     obind (on_rm (pop_off X) s) (\<lambda>s. Ret (p, s))))"

text \<open>\<open>myproc()\<close> where the code goes on to use the pointer.\<close>

definition rv_curproc :: "('x, 'f, 'w) rv_ext \<Rightarrow> ('x, 'f, 'w) rv_st \<Rightarrow> (nat \<times> ('x, 'f, 'w) rv_st) outcome" where
  "rv_curproc X s =
     obind (rv_myproc X s) (\<lambda>(p, s).
     case p of None \<Rightarrow> Undef ''null process'' | Some i \<Rightarrow> Ret (i, s))"

definition allocpid :: "('x, 'f, 'w) rv_ext \<Rightarrow> ('x, 'f, 'w) rv_st \<Rightarrow> (i32 \<times> ('x, 'f, 'w) rv_st) outcome" where
  "allocpid X s =
     obind (on_rm (acquire X PidLock) s) (\<lambda>s.
     let pid = rv_nextpid s in
     obind (on_rm (release X PidLock) (s\<lparr>rv_nextpid := rv_nextpid s + 1\<rparr>)) (\<lambda>s.
     Ret (pid, s)))"

section \<open>Page tables of processes\<close>

definition proc_pagetable ::
    "nat \<Rightarrow> ('x, 'f, 'w) rv_ext \<Rightarrow> addr64 \<Rightarrow> addr64 \<Rightarrow> 'w vm \<Rightarrow> (addr64 \<times> 'w vm) outcome" where
  "proc_pagetable fuel X trapframe usyscall s =
     (let E = VE X in
      case uvmcreate E s of (pt, s) \<Rightarrow>
        if pt = 0 then Ret (0, s)
        else
          obind (mappages fuel E pt (TRAMPOLINE E) (PGSIZE E) (trampoline E)
                   (perm_int (PTE_R E OR PTE_X E)) s) (\<lambda>(r, s).
          if slt r 0 then obind (uvmfree fuel E pt 0 s) (\<lambda>s. Ret (0, s))
          else
            obind (mappages fuel E pt (TRAPFRAME X) (PGSIZE E) trapframe
                     (perm_int (PTE_R E OR PTE_W E)) s) (\<lambda>(r, s).
            if slt r 0 then
              obind (uvmunmap fuel E pt (TRAMPOLINE E) 1 False s) (\<lambda>s.
              obind (uvmfree fuel E pt 0 s) (\<lambda>s. Ret (0, s)))
            else
              obind (mappages fuel E pt (USYSCALL X) (PGSIZE E) usyscall
                       (perm_int (PTE_R E OR PTE_U E)) s) (\<lambda>(r, s).
              if slt r 0 then
                obind (uvmunmap fuel E pt (USYSCALL X) 1 False s) (\<lambda>s.
                obind (uvmfree fuel E pt 0 s) (\<lambda>s. Ret (0, s)))
              else Ret (pt, s)))))"

definition proc_freepagetable ::
    "nat \<Rightarrow> ('x, 'f, 'w) rv_ext \<Rightarrow> addr64 \<Rightarrow> u64 \<Rightarrow> 'w vm \<Rightarrow> 'w vm outcome" where
  "proc_freepagetable fuel X pt sz s =
     (let E = VE X in
      obind (uvmunmap fuel E pt (USYSCALL X) 1 False s) (\<lambda>s.
      obind (uvmunmap fuel E pt (TRAMPOLINE E) 1 False s) (\<lambda>s.
      obind (uvmunmap fuel E pt (TRAPFRAME X) 1 False s) (\<lambda>s.
      uvmfree fuel E pt sz s))))"

section \<open>Allocating and freeing processes\<close>

definition freeproc ::
    "nat \<Rightarrow> ('x, 'f, 'w) rv_ext \<Rightarrow> nat \<Rightarrow> ('x, 'f, 'w) rv_st \<Rightarrow> ('x, 'f, 'w) rv_st outcome" where
  "freeproc fuel X i s =
     obind (if r_usyscall (rproc s i) \<noteq> 0 then on_vm (kfree (VE X) (r_usyscall (rproc s i))) s else Ret s) (\<lambda>s.
     let s = rupd i (\<lambda>p. p\<lparr>r_usyscall := 0\<rparr>) s in
     obind (if r_trapframe (rproc s i) \<noteq> 0 then on_vm (kfree (VE X) (r_trapframe (rproc s i))) s else Ret s) (\<lambda>s.
     let s = rupd i (\<lambda>p. p\<lparr>r_trapframe := 0\<rparr>) s in
     obind (if r_pagetable (rproc s i) \<noteq> 0
            then on_vm (proc_freepagetable fuel X (r_pagetable (rproc s i)) (r_sz (rproc s i))) s
            else Ret s) (\<lambda>s.
     Ret (rupd i (\<lambda>p. p\<lparr>r_pagetable := 0, r_sz := 0, r_pid := 0, r_parent := None, r_name := [],
                        r_chan := NoChan, r_killed := 0, r_xstate := 0, r_state := UNUSED\<rparr>) s))))"

text \<open>The search for a free slot: it returns with the lock of the slot held.\<close>

fun alloc_scan ::
    "('x, 'f, 'w) rv_ext \<Rightarrow> nat list \<Rightarrow> ('x, 'f, 'w) rv_st \<Rightarrow> (nat option \<times> ('x, 'f, 'w) rv_st) outcome" where
  "alloc_scan X [] s = Ret (None, s)"
| "alloc_scan X (i # is) s =
     obind (on_rm (acquire X (ProcLock i)) s) (\<lambda>s.
     if r_state (rproc s i) = UNUSED then Ret (Some i, s)
     else obind (on_rm (release X (ProcLock i)) s) (alloc_scan X is))"

definition alloc_kalloc :: "('x, 'f, 'w) rv_ext \<Rightarrow> ('x, 'f, 'w) rv_st \<Rightarrow> addr64 \<times> ('x, 'f, 'w) rv_st" where
  "alloc_kalloc X s = (case kalloc (VE X) (rvm s) of (p, v) \<Rightarrow> (p, s\<lparr>rvm := v\<rparr>))"

definition rv_allocproc ::
    "nat \<Rightarrow> ('x, 'f, 'w) rv_ext \<Rightarrow> ('x, 'f, 'w) rv_st \<Rightarrow> (nat option \<times> ('x, 'f, 'w) rv_st) outcome" where
  "rv_allocproc fuel X s =
     obind (alloc_scan X [0..<length (procs s)] s) (\<lambda>(found, s).
     case found of None \<Rightarrow> Ret (None, s) | Some i \<Rightarrow>
       let give_up = (\<lambda>s. obind (freeproc fuel X i s) (\<lambda>s.
                          obind (on_rm (release X (ProcLock i)) s) (\<lambda>s. Ret (None, s)))) in
       obind (allocpid X s) (\<lambda>(pid, s).
       let s = rupd i (\<lambda>p. p\<lparr>r_pid := pid, r_state := USED\<rparr>) s in
       case alloc_kalloc X s of (a, s) \<Rightarrow>
       let s = rupd i (\<lambda>p. p\<lparr>r_trapframe := a\<rparr>) s in
       if a = 0 then give_up s
       else case alloc_kalloc X s of (u, s) \<Rightarrow>
         let s = rupd i (\<lambda>p. p\<lparr>r_usyscall := u\<rparr>) s in
         if u = 0 then give_up s
         else
           let s = wr32 u (r_pid (rproc s i)) s in
           obind (call_vm (proc_pagetable fuel X a u) s) (\<lambda>(pt, s).
           let s = rupd i (\<lambda>p. p\<lparr>r_pagetable := pt\<rparr>) s in
           if pt = 0 then give_up s
           else
             Ret (Some i, rupd i (\<lambda>p. p\<lparr>r_context :=
               \<lparr>ctx_ra = forkret_addr X, ctx_sp = r_kstack p + PGSIZE (VE X), ctx_s = replicate 12 0\<rparr>\<rparr>) s))))"

definition initcode :: "u8 list" where
  "initcode =
    [0x17, 0x05, 0x00, 0x00, 0x13, 0x05, 0x45, 0x02,
     0x97, 0x05, 0x00, 0x00, 0x93, 0x85, 0x35, 0x02,
     0x93, 0x08, 0x70, 0x00, 0x73, 0x00, 0x00, 0x00,
     0x93, 0x08, 0x20, 0x00, 0x73, 0x00, 0x00, 0x00,
     0xef, 0xf0, 0x9f, 0xff, 0x2f, 0x69, 0x6e, 0x69,
     0x74, 0x00, 0x00, 0x24, 0x00, 0x00, 0x00, 0x00,
     0x00, 0x00, 0x00, 0x00]"

definition rv_userinit :: "nat \<Rightarrow> ('x, 'f, 'w) rv_ext \<Rightarrow> ('x, 'f, 'w) rv_st \<Rightarrow> ('x, 'f, 'w) rv_st outcome" where
  "rv_userinit fuel X s =
     obind (rv_allocproc fuel X s) (\<lambda>(p, s).
     let s = s\<lparr>rv_initproc := p\<rparr> in
     case p of None \<Rightarrow> Undef ''null process'' | Some i \<Rightarrow>
       obind (on_vm (uvmfirst fuel (VE X) (r_pagetable (rproc s i)) (initcode_addr X) (of_nat (length initcode))) s) (\<lambda>s.
       let s = rupd i (\<lambda>p. p\<lparr>r_sz := PGSIZE (VE X)\<rparr>) s;
           s = wr64 (r_trapframe (rproc s i) + tf_epc) 0 s;
           s = wr64 (r_trapframe (rproc s i) + tf_sp) (PGSIZE (VE X)) s;
           s = rupd i (\<lambda>p. p\<lparr>r_name := safestrcpy X ''initcode'' 16\<rparr>) s
       in obind (call_files (namei X ''/'') s) (\<lambda>(ip, s).
          on_rm (release X (ProcLock i)) (rupd i (\<lambda>p. p\<lparr>r_cwd := ip, r_state := RUNNABLE\<rparr>) s))))"

definition rv_growproc :: "nat \<Rightarrow> ('x, 'f, 'w) rv_ext \<Rightarrow> i32 \<Rightarrow> ('x, 'f, 'w) rv_st \<Rightarrow> (i32 \<times> ('x, 'f, 'w) rv_st) outcome" where
  "rv_growproc fuel X n s =
     obind (rv_curproc X s) (\<lambda>(p, s).
     let sz = r_sz (rproc s p); pt = r_pagetable (rproc s p) in
     if slt 0 n then
       obind (call_vm (uvmalloc fuel (VE X) pt sz (sz + scast n) (perm_int (PTE_W (VE X)))) s) (\<lambda>(sz', s).
       if sz' = 0 then Ret (- 1, s) else Ret (0, rupd p (\<lambda>q. q\<lparr>r_sz := sz'\<rparr>) s))
     else if slt n 0 then
       obind (call_vm (uvmdealloc fuel (VE X) pt sz (sz + scast n)) s) (\<lambda>(sz', s).
       Ret (0, rupd p (\<lambda>q. q\<lparr>r_sz := sz'\<rparr>) s))
     else Ret (0, rupd p (\<lambda>q. q\<lparr>r_sz := sz\<rparr>) s))"

section \<open>Forking\<close>

fun rv_dup_files ::
    "('x, 'f, 'w) rv_ext \<Rightarrow> nat \<Rightarrow> nat \<Rightarrow> nat list \<Rightarrow> ('x, 'f, 'w) rv_st \<Rightarrow> ('x, 'f, 'w) rv_st outcome" where
  "rv_dup_files X p np [] s = Ret s"
| "rv_dup_files X p np (i # is) s =
     (if r_ofile (rproc s p) ! i \<noteq> 0 then
        obind (call_files (filedup X (r_ofile (rproc s p) ! i)) s) (\<lambda>(f, s).
        rv_dup_files X p np is (rupd np (\<lambda>q. q\<lparr>r_ofile := (r_ofile q)[i := f]\<rparr>) s))
      else rv_dup_files X p np is s)"

definition rv_fork :: "nat \<Rightarrow> ('x, 'f, 'w) rv_ext \<Rightarrow> ('x, 'f, 'w) rv_st \<Rightarrow> (i32 \<times> ('x, 'f, 'w) rv_st) outcome" where
  "rv_fork fuel X s =
     obind (rv_curproc X s) (\<lambda>(p, s).
     obind (rv_allocproc fuel X s) (\<lambda>(np, s).
     case np of None \<Rightarrow> Ret (- 1, s) | Some np \<Rightarrow>
       obind (call_vm (uvmcopy fuel (VE X) (r_pagetable (rproc s p)) (r_pagetable (rproc s np)) (r_sz (rproc s p))) s) (\<lambda>(r, s).
       if slt r 0 then
         obind (freeproc fuel X np s) (\<lambda>s.
         obind (on_rm (release X (ProcLock np)) s) (\<lambda>s. Ret (- 1, s)))
       else
         let s = rupd np (\<lambda>q. q\<lparr>r_sz := r_sz (rproc s p)\<rparr>) s;
             s = s\<lparr>rvm := on_mem (memmove (r_trapframe (rproc s np)) (r_trapframe (rproc s p)) sizeof_trapframe) (rvm s)\<rparr>;
             s = wr64 (r_trapframe (rproc s np) + tf_a0) 0 s
         in obind (rv_dup_files X p np [0..<NOFILE X] s) (\<lambda>s.
            obind (call_files (idup X (r_cwd (rproc s p))) s) (\<lambda>(ip, s).
            let s = rupd np (\<lambda>q. q\<lparr>r_cwd := ip\<rparr>) s;
                s = rupd np (\<lambda>q. q\<lparr>r_name := safestrcpy X (r_name (rproc s p)) 16\<rparr>) s;
                pid = r_pid (rproc s np)
            in obind (on_rm (release X (ProcLock np)) s) (\<lambda>s.
               obind (on_rm (acquire X WaitLock) s) (\<lambda>s.
               obind (on_rm (release X WaitLock) (rupd np (\<lambda>q. q\<lparr>r_parent := Some p\<rparr>) s)) (\<lambda>s.
               obind (on_rm (acquire X (ProcLock np)) s) (\<lambda>s.
               obind (on_rm (release X (ProcLock np)) (rupd np (\<lambda>q. q\<lparr>r_state := RUNNABLE\<rparr>) s)) (\<lambda>s.
               Ret (pid, s))))))))))) "

section \<open>Waking, switching and sleeping\<close>

fun rv_wakeup_loop ::
    "('x, 'f, 'w) rv_ext \<Rightarrow> rv_chan \<Rightarrow> nat list \<Rightarrow> ('x, 'f, 'w) rv_st \<Rightarrow> ('x, 'f, 'w) rv_st outcome" where
  "rv_wakeup_loop X ch [] s = Ret s"
| "rv_wakeup_loop X ch (i # is) s =
     obind (rv_myproc X s) (\<lambda>(p, s).
     if Some i \<noteq> p then
       obind (on_rm (acquire X (ProcLock i)) s) (\<lambda>s.
       let s = (if r_state (rproc s i) = SLEEPING \<and> r_chan (rproc s i) = ch
                then rupd i (\<lambda>q. q\<lparr>r_state := RUNNABLE\<rparr>) s else s) in
       obind (on_rm (release X (ProcLock i)) s) (rv_wakeup_loop X ch is))
     else rv_wakeup_loop X ch is s)"

definition rv_wakeup :: "('x, 'f, 'w) rv_ext \<Rightarrow> rv_chan \<Rightarrow> ('x, 'f, 'w) rv_st \<Rightarrow> ('x, 'f, 'w) rv_st outcome" where
  "rv_wakeup X ch s = rv_wakeup_loop X ch [0..<length (procs s)] s"

text \<open>The checks of \<open>sched\<close>, with the saved interrupt flag.\<close>

definition rv_sched_check ::
    "('x, 'f, 'w) rv_ext \<Rightarrow> ('x, 'f, 'w) rv_st \<Rightarrow> (i32 \<times> ('x, 'f, 'w) rv_st) outcome" where
  "rv_sched_check X s =
     obind (rv_curproc X s) (\<lambda>(p, s).
     if \<not> holding X (ProcLock p) (rmach s) then Panic ''sched p->lock''
     else
       obind (rv_mycpu X (rmach s)) (\<lambda>c.
       if rc_noff (rcpus (rmach s) ! c) \<noteq> 1 then Panic ''sched locks''
       else if r_state (rproc s p) = RUNNING then Panic ''sched running''
       else if intr_get X (hart (rmach s)) then Panic ''sched interruptible''
       else Ret (rc_intena (rcpus (rmach s) ! c), s)))"

definition rupd_cpu :: "nat \<Rightarrow> (rv_cpu \<Rightarrow> rv_cpu) \<Rightarrow> ('x, 'f, 'w) rv_st \<Rightarrow> ('x, 'f, 'w) rv_st" where
  "rupd_cpu c f s = s\<lparr>rmach := (rmach s)\<lparr>rcpus := upd_nth c f (rcpus (rmach s))\<rparr>\<rparr>"

definition rv_sched ::
    "('x, 'f, 'w) rv_ext \<Rightarrow> (('x, 'f, 'w) rv_st \<Rightarrow> ('x, 'f, 'w) rv_st outcome) \<Rightarrow> ('x, 'f, 'w) rv_st
       \<Rightarrow> ('x, 'f, 'w) rv_st outcome" where
  "rv_sched X sw s =
     obind (rv_sched_check X s) (\<lambda>(intena, s).
     obind (sw s) (\<lambda>s.
     obind (rv_mycpu X (rmach s)) (\<lambda>c. Ret (rupd_cpu c (\<lambda>k. k\<lparr>rc_intena := intena\<rparr>) s))))"

definition rv_yield ::
    "('x, 'f, 'w) rv_ext \<Rightarrow> (('x, 'f, 'w) rv_st \<Rightarrow> ('x, 'f, 'w) rv_st outcome) \<Rightarrow> ('x, 'f, 'w) rv_st
       \<Rightarrow> ('x, 'f, 'w) rv_st outcome" where
  "rv_yield X sw s =
     obind (rv_curproc X s) (\<lambda>(p, s).
     obind (on_rm (acquire X (ProcLock p)) s) (\<lambda>s.
     obind (rv_sched X sw (rupd p (\<lambda>q. q\<lparr>r_state := RUNNABLE\<rparr>) s)) (\<lambda>s.
     on_rm (release X (ProcLock p)) s)))"

definition rv_forkret :: "('x, 'f, 'w) rv_ext \<Rightarrow> ('x, 'f, 'w) rv_st \<Rightarrow> ('x, 'f, 'w) rv_st outcome" where
  "rv_forkret X s =
     obind (rv_curproc X s) (\<lambda>(p, s).
     obind (on_rm (release X (ProcLock p)) s) (\<lambda>s.
     obind (if rv_first s then on_files (fsinit X (ROOTDEV X)) (s\<lparr>rv_first := False\<rparr>) else Ret s)
       (usertrapret X)))"

definition rv_sleep ::
    "('x, 'f, 'w) rv_ext \<Rightarrow> (('x, 'f, 'w) rv_st \<Rightarrow> ('x, 'f, 'w) rv_st outcome) \<Rightarrow> rv_chan \<Rightarrow> rv_lock
       \<Rightarrow> ('x, 'f, 'w) rv_st \<Rightarrow> ('x, 'f, 'w) rv_st outcome" where
  "rv_sleep X sw ch lk s =
     obind (rv_curproc X s) (\<lambda>(p, s).
     obind (on_rm (acquire X (ProcLock p)) s) (\<lambda>s.
     obind (on_rm (release X lk) s) (\<lambda>s.
     obind (rv_sched X sw (rupd p (\<lambda>q. q\<lparr>r_chan := ch, r_state := SLEEPING\<rparr>) s)) (\<lambda>s.
     obind (on_rm (release X (ProcLock p)) (rupd p (\<lambda>q. q\<lparr>r_chan := NoChan\<rparr>) s)) (\<lambda>s.
     on_rm (acquire X lk) s)))))"

section \<open>Killing\<close>

fun rv_kill_loop ::
    "('x, 'f, 'w) rv_ext \<Rightarrow> i32 \<Rightarrow> nat list \<Rightarrow> ('x, 'f, 'w) rv_st \<Rightarrow> (i32 \<times> ('x, 'f, 'w) rv_st) outcome" where
  "rv_kill_loop X pid [] s = Ret (- 1, s)"
| "rv_kill_loop X pid (i # is) s =
     obind (on_rm (acquire X (ProcLock i)) s) (\<lambda>s.
     if r_pid (rproc s i) = pid then
       let s = rupd i (\<lambda>q. q\<lparr>r_killed := 1\<rparr>) s;
           s = (if r_state (rproc s i) = SLEEPING then rupd i (\<lambda>q. q\<lparr>r_state := RUNNABLE\<rparr>) s else s)
       in obind (on_rm (release X (ProcLock i)) s) (\<lambda>s. Ret (0, s))
     else obind (on_rm (release X (ProcLock i)) s) (rv_kill_loop X pid is))"

definition rv_kill :: "('x, 'f, 'w) rv_ext \<Rightarrow> i32 \<Rightarrow> ('x, 'f, 'w) rv_st \<Rightarrow> (i32 \<times> ('x, 'f, 'w) rv_st) outcome" where
  "rv_kill X pid s = rv_kill_loop X pid [0..<length (procs s)] s"

definition setkilled :: "('x, 'f, 'w) rv_ext \<Rightarrow> nat \<Rightarrow> ('x, 'f, 'w) rv_st \<Rightarrow> ('x, 'f, 'w) rv_st outcome" where
  "setkilled X p s =
     obind (on_rm (acquire X (ProcLock p)) s) (\<lambda>s.
     on_rm (release X (ProcLock p)) (rupd p (\<lambda>q. q\<lparr>r_killed := 1\<rparr>) s))"

definition killed :: "('x, 'f, 'w) rv_ext \<Rightarrow> nat \<Rightarrow> ('x, 'f, 'w) rv_st \<Rightarrow> (i32 \<times> ('x, 'f, 'w) rv_st) outcome" where
  "killed X p s =
     obind (on_rm (acquire X (ProcLock p)) s) (\<lambda>s.
     let k = r_killed (rproc s p) in
     obind (on_rm (release X (ProcLock p)) s) (\<lambda>s. Ret (k, s)))"

section \<open>Exiting and waiting\<close>

fun reparent_loop ::
    "('x, 'f, 'w) rv_ext \<Rightarrow> nat \<Rightarrow> nat list \<Rightarrow> ('x, 'f, 'w) rv_st \<Rightarrow> ('x, 'f, 'w) rv_st outcome" where
  "reparent_loop X p [] s = Ret s"
| "reparent_loop X p (i # is) s =
     (if r_parent (rproc s i) = Some p then
        let s = rupd i (\<lambda>q. q\<lparr>r_parent := rv_initproc s\<rparr>) s in
        obind (rv_wakeup X (case rv_initproc s of None \<Rightarrow> NoChan | Some j \<Rightarrow> ProcChan j) s)
          (reparent_loop X p is)
      else reparent_loop X p is s)"

definition reparent :: "('x, 'f, 'w) rv_ext \<Rightarrow> nat \<Rightarrow> ('x, 'f, 'w) rv_st \<Rightarrow> ('x, 'f, 'w) rv_st outcome" where
  "reparent X p s = reparent_loop X p [0..<length (procs s)] s"

fun rv_close_files ::
    "('x, 'f, 'w) rv_ext \<Rightarrow> nat \<Rightarrow> nat list \<Rightarrow> ('x, 'f, 'w) rv_st \<Rightarrow> ('x, 'f, 'w) rv_st outcome" where
  "rv_close_files X p [] s = Ret s"
| "rv_close_files X p (fd # fds) s =
     (if r_ofile (rproc s p) ! fd \<noteq> 0 then
        obind (on_files (fileclose X (r_ofile (rproc s p) ! fd)) s) (\<lambda>s.
        rv_close_files X p fds (rupd p (\<lambda>q. q\<lparr>r_ofile := (r_ofile q)[fd := 0]\<rparr>) s))
      else rv_close_files X p fds s)"

definition rv_exit ::
    "('x, 'f, 'w) rv_ext \<Rightarrow> (('x, 'f, 'w) rv_st \<Rightarrow> ('x, 'f, 'w) rv_st outcome) \<Rightarrow> i32 \<Rightarrow> ('x, 'f, 'w) rv_st
       \<Rightarrow> ('x, 'f, 'w) rv_st outcome" where
  "rv_exit X sw status s =
     obind (rv_myproc X s) (\<lambda>(p, s).
     if p = rv_initproc s then Panic ''init exiting''
     else case p of None \<Rightarrow> Undef ''null process'' | Some p \<Rightarrow>
       obind (rv_close_files X p [0..<NOFILE X] s) (\<lambda>s.
       obind (on_files (begin_op X) s) (\<lambda>s.
       obind (on_files (iput X (r_cwd (rproc s p))) s) (\<lambda>s.
       obind (on_files (end_op X) s) (\<lambda>s.
       let s = rupd p (\<lambda>q. q\<lparr>r_cwd := 0\<rparr>) s in
       obind (on_rm (acquire X WaitLock) s) (\<lambda>s.
       obind (reparent X p s) (\<lambda>s.
       obind (rv_wakeup X (case r_parent (rproc s p) of None \<Rightarrow> NoChan | Some j \<Rightarrow> ProcChan j) s) (\<lambda>s.
       obind (on_rm (acquire X (ProcLock p)) s) (\<lambda>s.
       let s = rupd p (\<lambda>q. q\<lparr>r_xstate := status, r_state := ZOMBIE\<rparr>) s in
       obind (on_rm (release X WaitLock) s) (\<lambda>s.
       obind (rv_sched X sw s) (\<lambda>s. Panic ''zombie exit'')))))))))))"

text \<open>
  One scan of \<open>wait\<close>: \<open>Inl\<close> is the result of the function, \<open>Inr\<close> whether there are children.
\<close>

fun rv_wait_scan ::
    "nat \<Rightarrow> ('x, 'f, 'w) rv_ext \<Rightarrow> nat \<Rightarrow> u64 \<Rightarrow> bool \<Rightarrow> nat list \<Rightarrow> ('x, 'f, 'w) rv_st
       \<Rightarrow> ((i32 + bool) \<times> ('x, 'f, 'w) rv_st) outcome" where
  "rv_wait_scan fuel X p addr havekids [] s = Ret (Inr havekids, s)"
| "rv_wait_scan fuel X p addr havekids (i # is) s =
     (if r_parent (rproc s i) = Some p then
        obind (on_rm (acquire X (ProcLock i)) s) (\<lambda>s.
        if r_state (rproc s i) = ZOMBIE then
          let pid = r_pid (rproc s i);
              copied = (if addr = 0 then Ret (0, s)
                        else call_vm (copyout fuel (VE X) (r_pagetable (rproc s p)) addr (xstate_addr X i) 4)
                               (wr32 (xstate_addr X i) (r_xstate (rproc s i)) s))
          in obind copied (\<lambda>(r, s).
             if addr \<noteq> 0 \<and> slt r 0 then
               obind (on_rm (release X (ProcLock i)) s) (\<lambda>s.
               obind (on_rm (release X WaitLock) s) (\<lambda>s. Ret (Inl (- 1), s)))
             else
               obind (freeproc fuel X i s) (\<lambda>s.
               obind (on_rm (release X (ProcLock i)) s) (\<lambda>s.
               obind (on_rm (release X WaitLock) s) (\<lambda>s. Ret (Inl pid, s)))))
        else
          obind (on_rm (release X (ProcLock i)) s) (rv_wait_scan fuel X p addr True is))
      else rv_wait_scan fuel X p addr havekids is s)"

fun rv_wait_loop ::
    "nat \<Rightarrow> ('x, 'f, 'w) rv_ext \<Rightarrow> (('x, 'f, 'w) rv_st \<Rightarrow> ('x, 'f, 'w) rv_st outcome) \<Rightarrow> nat \<Rightarrow> u64
       \<Rightarrow> ('x, 'f, 'w) rv_st \<Rightarrow> (i32 \<times> ('x, 'f, 'w) rv_st) outcome" where
  "rv_wait_loop 0 X sw p addr s = NoFuel"
| "rv_wait_loop (Suc fuel) X sw p addr s =
     obind (rv_wait_scan fuel X p addr False [0..<length (procs s)] s) (\<lambda>(r, s).
     case r of
       Inl pid \<Rightarrow> Ret (pid, s)
     | Inr havekids \<Rightarrow>
         obind (if havekids then killed X p s else Ret (0, s)) (\<lambda>(k, s).
         if \<not> havekids \<or> k \<noteq> 0 then
           obind (on_rm (release X WaitLock) s) (\<lambda>s. Ret (- 1, s))
         else obind (rv_sleep X sw (ProcChan p) WaitLock s) (rv_wait_loop fuel X sw p addr)))"

definition rv_wait ::
    "nat \<Rightarrow> ('x, 'f, 'w) rv_ext \<Rightarrow> (('x, 'f, 'w) rv_st \<Rightarrow> ('x, 'f, 'w) rv_st outcome) \<Rightarrow> u64
       \<Rightarrow> ('x, 'f, 'w) rv_st \<Rightarrow> (i32 \<times> ('x, 'f, 'w) rv_st) outcome" where
  "rv_wait fuel X sw addr s =
     obind (rv_curproc X s) (\<lambda>(p, s).
     obind (on_rm (acquire X WaitLock) s) (rv_wait_loop fuel X sw p addr))"

section \<open>The scheduler\<close>

text \<open>One pass over the table on CPU \<open>c\<close>; \<open>sw\<close> is what process \<open>i\<close> does until it switches back.\<close>

fun rv_sched_pass ::
    "('x, 'f, 'w) rv_ext \<Rightarrow> (nat \<Rightarrow> ('x, 'f, 'w) rv_st \<Rightarrow> ('x, 'f, 'w) rv_st outcome) \<Rightarrow> nat \<Rightarrow> nat list
       \<Rightarrow> ('x, 'f, 'w) rv_st \<Rightarrow> ('x, 'f, 'w) rv_st outcome" where
  "rv_sched_pass X sw c [] s = Ret s"
| "rv_sched_pass X sw c (i # is) s =
     obind (on_rm (acquire X (ProcLock i)) s) (\<lambda>s.
     obind (if r_state (rproc s i) = RUNNABLE then
              obind (sw i (rupd_cpu c (\<lambda>k. k\<lparr>rc_proc := Some i\<rparr>) (rupd i (\<lambda>q. q\<lparr>r_state := RUNNING\<rparr>) s))) (\<lambda>s.
              Ret (rupd_cpu c (\<lambda>k. k\<lparr>rc_proc := None\<rparr>) s))
            else Ret s) (\<lambda>s.
     obind (on_rm (release X (ProcLock i)) s) (rv_sched_pass X sw c is)))"

fun rv_scheduler_loop ::
    "nat \<Rightarrow> ('x, 'f, 'w) rv_ext \<Rightarrow> (nat \<Rightarrow> ('x, 'f, 'w) rv_st \<Rightarrow> ('x, 'f, 'w) rv_st outcome) \<Rightarrow> nat
       \<Rightarrow> ('x, 'f, 'w) rv_st \<Rightarrow> ('x, 'f, 'w) rv_st outcome" where
  "rv_scheduler_loop 0 X sw c s = NoFuel"
| "rv_scheduler_loop (Suc fuel) X sw c s =
     obind (rv_sched_pass X sw c [0..<length (procs s)] (s\<lparr>rmach := intr_on X (rmach s)\<rparr>))
       (rv_scheduler_loop fuel X sw c)"

definition rv_scheduler ::
    "nat \<Rightarrow> ('x, 'f, 'w) rv_ext \<Rightarrow> (nat \<Rightarrow> ('x, 'f, 'w) rv_st \<Rightarrow> ('x, 'f, 'w) rv_st outcome)
       \<Rightarrow> ('x, 'f, 'w) rv_st \<Rightarrow> ('x, 'f, 'w) rv_st outcome" where
  "rv_scheduler fuel X sw s =
     obind (rv_mycpu X (rmach s)) (\<lambda>c.
     rv_scheduler_loop fuel X sw c (rupd_cpu c (\<lambda>k. k\<lparr>rc_proc := None\<rparr>) s))"

section \<open>Copying for drivers, and the listing\<close>

definition either_copyout ::
    "nat \<Rightarrow> ('x, 'f, 'w) rv_ext \<Rightarrow> bool \<Rightarrow> u64 \<Rightarrow> addr64 \<Rightarrow> u64 \<Rightarrow> ('x, 'f, 'w) rv_st \<Rightarrow> (i32 \<times> ('x, 'f, 'w) rv_st) outcome" where
  "either_copyout fuel X user_dst dst src len s =
     obind (rv_myproc X s) (\<lambda>(p, s).
     if user_dst then
       case p of None \<Rightarrow> Undef ''null process''
       | Some p \<Rightarrow> call_vm (copyout fuel (VE X) (r_pagetable (rproc s p)) dst src len) s
     else Ret (0, s\<lparr>rvm := on_mem (memmove dst src len) (rvm s)\<rparr>))"

definition either_copyin ::
    "nat \<Rightarrow> ('x, 'f, 'w) rv_ext \<Rightarrow> addr64 \<Rightarrow> bool \<Rightarrow> u64 \<Rightarrow> u64 \<Rightarrow> ('x, 'f, 'w) rv_st \<Rightarrow> (i32 \<times> ('x, 'f, 'w) rv_st) outcome" where
  "either_copyin fuel X dst user_src src len s =
     obind (rv_myproc X s) (\<lambda>(p, s).
     if user_src then
       case p of None \<Rightarrow> Undef ''null process''
       | Some p \<Rightarrow> call_vm (copyin fuel (VE X) (r_pagetable (rproc s p)) dst src len) s
     else Ret (0, s\<lparr>rvm := on_mem (memmove dst src len) (rvm s)\<rparr>))"

fun rv_state_name :: "rv_procstate \<Rightarrow> string" where
  "rv_state_name UNUSED = ''unused''"
| "rv_state_name USED = ''used''"
| "rv_state_name SLEEPING = ''sleep ''"
| "rv_state_name RUNNABLE = ''runble''"
| "rv_state_name RUNNING = ''run   ''"
| "rv_state_name ZOMBIE = ''zombie''"

definition rv_procdump :: "('x, 'f, 'w) rv_st \<Rightarrow> (i32 \<times> string \<times> string) list" where
  "rv_procdump s =
     map (\<lambda>p. (r_pid p, rv_state_name (r_state p), r_name p)) (filter (\<lambda>p. r_state p \<noteq> UNUSED) (procs s))"

end
