(* ===== verification/Rv_Locks.thy ===== *)
theory Rv_Locks
  imports Rv_Proc
begin

text \<open>
  What \<open>proc.c\<close> relies on of the spin locks and the interrupt switch of the RISC-V kernel
  (\<open>spinlock.c\<close>, not in the repository), as the locale \<open>rv_lock_laws\<close>, and the operations of
  \<open>proc.c\<close> that touch only the process table under it.

  \<open>rv_view X m c n H P\<close> is what the code may rely on about the machine: it runs on hart \<open>c\<close> with
  \<open>push_off\<close> depth \<open>n\<close>, holds exactly the locks in \<open>H\<close>, the harts run the processes \<open>P\<close>, and interrupts
  are off while the depth is positive.
\<close>

definition max_noff :: nat where "max_noff = 2 ^ 31 - 1"

definition rv_view ::
    "('x, 'f, 'w) rv_ext \<Rightarrow> 'x rv_mach \<Rightarrow> nat \<Rightarrow> nat \<Rightarrow> rv_lock set \<Rightarrow> nat option list \<Rightarrow> bool" where
  "rv_view X m c n H P \<longleftrightarrow>
     rv_cpuid X m = c \<and> c < length (rcpus m) \<and> rc_noff (rcpus m ! c) = of_nat n \<and> n \<le> max_noff \<and>
     {l. holding X l m} = H \<and> map rc_proc (rcpus m) = P \<and> (0 < n \<longrightarrow> \<not> intr_get X (hart m))"

definition put_rcpu :: "nat \<Rightarrow> (rv_cpu \<Rightarrow> rv_cpu) \<Rightarrow> 'x rv_mach \<Rightarrow> 'x rv_mach" where
  "put_rcpu c f m = m\<lparr>rcpus := upd_nth c f (rcpus m)\<rparr>"

locale rv_lock_laws =
  fixes X :: "('x, 'f, 'w) rv_ext"
  assumes push_off_law:
      "rv_view X m c n H P \<Longrightarrow> n < max_noff \<Longrightarrow> \<exists>m'. push_off X m = Ret m' \<and> rv_view X m' c (Suc n) H P"
    and pop_off_law:
      "rv_view X m c (Suc n) H P \<Longrightarrow> \<exists>m'. pop_off X m = Ret m' \<and> rv_view X m' c n H P"
    and acquire_law:
      "rv_view X m c n H P \<Longrightarrow> l \<notin> H \<Longrightarrow> n < max_noff \<Longrightarrow>
         \<exists>m'. acquire X l m = Ret m' \<and> rv_view X m' c (Suc n) (insert l H) P"
    and release_law:
      "rv_view X m c (Suc n) H P \<Longrightarrow> l \<in> H \<Longrightarrow>
         \<exists>m'. release X l m = Ret m' \<and> rv_view X m' c n (H - {l}) P"
    and intr_on_law: "rv_view X m c 0 {} P \<Longrightarrow> rv_view X (intr_on X m) c 0 {} P"
    and holding_proc_law: "holding X l (put_rcpu k (\<lambda>u. u\<lparr>rc_proc := x\<rparr>) m) = holding X l m"
    and holding_intena_law: "holding X l (put_rcpu k (\<lambda>u. u\<lparr>rc_intena := v\<rparr>) m) = holding X l m"
begin

lemma view_proc: "rv_view X m c n H P \<Longrightarrow> c < length P \<and> rc_proc (rcpus m ! c) = P ! c"
  by (auto simp: rv_view_def)

lemma view_mycpu: "rv_view X m c n H P \<Longrightarrow> rv_mycpu X m = Ret c"
  by (simp add: rv_view_def rv_mycpu_def Let_def)

lemma acquire_view:
  assumes "rv_view X (rmach s) c n H P" and "l \<notin> H" and "n < max_noff"
  shows "\<exists>m. on_rm (acquire X l) s = Ret (s\<lparr>rmach := m\<rparr>) \<and> rv_view X m c (Suc n) (insert l H) P"
  using acquire_law [OF assms] by (auto simp: on_rm_def)

lemma release_view:
  assumes "rv_view X (rmach s) c (Suc n) H P" and "l \<in> H"
  shows "\<exists>m. on_rm (release X l) s = Ret (s\<lparr>rmach := m\<rparr>) \<and> rv_view X m c n (H - {l}) P"
  using release_law [OF assms] by (auto simp: on_rm_def)

lemma myproc_view:
  assumes v: "rv_view X (rmach s) c n H P" and n: "n < max_noff"
  shows "\<exists>m. rv_myproc X s = Ret (P ! c, s\<lparr>rmach := m\<rparr>) \<and> rv_view X m c n H P"
proof -
  from push_off_law [OF v n] obtain m1 where m1: "push_off X (rmach s) = Ret m1" "rv_view X m1 c (Suc n) H P" by blast
  from pop_off_law [OF m1(2)] obtain m2 where m2: "pop_off X m1 = Ret m2" "rv_view X m2 c n H P" by blast
  show ?thesis
    using m1(1) m2 view_mycpu [OF m1(2)] view_proc [OF m1(2)]
    by (auto simp: rv_myproc_def on_rm_def Let_def)
qed

lemma curproc_view:
  assumes "rv_view X (rmach s) c n H P" and "n < max_noff" and "P ! c = Some i"
  shows "\<exists>m. rv_curproc X s = Ret (i, s\<lparr>rmach := m\<rparr>) \<and> rv_view X m c n H P"
  using myproc_view [OF assms(1,2)] assms(3) by (auto simp: rv_curproc_def)

lemma view_put_proc:
  assumes "rv_view X m c n H P"
  shows "rv_view X (put_rcpu k (\<lambda>u. u\<lparr>rc_proc := x\<rparr>) m) c n H (P[k := x])"
  using assms by (simp add: rv_view_def holding_proc_law rv_cpuid_def) (auto simp: put_rcpu_def map_upd_nth_set)

lemma view_put_intena:
  assumes "rv_view X m c n H P"
  shows "rv_view X (put_rcpu k (\<lambda>u. u\<lparr>rc_intena := v\<rparr>) m) c n H P"
  using assms by (simp add: rv_view_def holding_intena_law rv_cpuid_def) (auto simp: put_rcpu_def map_upd_nth)

text \<open>A critical section on a lock that is not held.\<close>

lemma critical:
  assumes v: "rv_view X (rmach s) c n H P" and l: "l \<notin> H" and n: "n < max_noff"
    and f: "\<And>m. rmach (f (s\<lparr>rmach := m\<rparr>)) = m"
  shows "\<exists>m1 m2. on_rm (acquire X l) s = Ret (s\<lparr>rmach := m1\<rparr>) \<and>
    on_rm (release X l) (f (s\<lparr>rmach := m1\<rparr>)) = Ret ((f (s\<lparr>rmach := m1\<rparr>))\<lparr>rmach := m2\<rparr>) \<and> rv_view X m2 c n H P"
proof -
  from acquire_view [OF v l n] obtain m1 where m1: "on_rm (acquire X l) s = Ret (s\<lparr>rmach := m1\<rparr>)"
    "rv_view X m1 c (Suc n) (insert l H) P" by blast
  from release_view [of "f (s\<lparr>rmach := m1\<rparr>)" c n "insert l H" P l] m1(2) f l show ?thesis
    using m1(1) by (auto simp: insert_absorb)
qed

end

section \<open>Operations on the process table\<close>

lemma rupd_simps [simp]:
  "procs (rupd i f s) = upd_nth i f (procs s)" "rmach (rupd i f s) = rmach s" "rvm (rupd i f s) = rvm s"
  "files (rupd i f s) = files s" "rv_nextpid (rupd i f s) = rv_nextpid s" "rv_initproc (rupd i f s) = rv_initproc s"
  "rv_first (rupd i f s) = rv_first s"
  by (simp_all add: rupd_def)

lemma rupd_rmach: "rupd i f (s\<lparr>rmach := m\<rparr>) = (rupd i f s)\<lparr>rmach := m\<rparr>"
  by (simp add: rupd_def)

text \<open>What \<open>kill\<close> does to the process it finds, and \<open>wakeup\<close> to the process at index \<open>i\<close>.\<close>

definition kill_mark :: "rv_proc \<Rightarrow> rv_proc" where
  "kill_mark p = p\<lparr>r_killed := 1, r_state := (if r_state p = SLEEPING then RUNNABLE else r_state p)\<rparr>"

definition wake_mark :: "nat option \<Rightarrow> rv_chan \<Rightarrow> nat \<Rightarrow> rv_proc \<Rightarrow> rv_proc" where
  "wake_mark cur ch i p =
     (if cur \<noteq> Some i \<and> r_state p = SLEEPING \<and> r_chan p = ch then p\<lparr>r_state := RUNNABLE\<rparr> else p)"

definition wake_in :: "nat option \<Rightarrow> rv_chan \<Rightarrow> nat set \<Rightarrow> nat \<Rightarrow> rv_proc \<Rightarrow> rv_proc" where
  "wake_in cur ch J i p = (if i \<in> J then wake_mark cur ch i p else p)"

lemma upd_nth_same: "(\<And>x. x = xs ! i \<Longrightarrow> f x = x) \<Longrightarrow> upd_nth i f xs = xs"
  by (simp add: upd_nth_def)

text \<open>The process table without the locks \<open>H\<close> of any process.\<close>

definition no_proc_lock :: "rv_lock set \<Rightarrow> bool" where
  "no_proc_lock H \<longleftrightarrow> (\<forall>i. ProcLock i \<notin> H)"

context rv_lock_laws
begin

lemma kill_loop_spec:
  assumes "rv_view X (rmach s) c n H P" and "no_proc_lock H" and "n < max_noff" and "set is \<subseteq> {..<length (procs s)}"
  shows "\<exists>m. rv_kill_loop X pid is s = Ret (case find (\<lambda>i. r_pid (rproc s i) = pid) is of
       None \<Rightarrow> (- 1, s\<lparr>rmach := m\<rparr>) | Some i \<Rightarrow> (0, (rupd i kill_mark s)\<lparr>rmach := m\<rparr>)) \<and> rv_view X m c n H P"
  using assms
proof (induction "is" arbitrary: s)
  case Nil
  then show ?case by (intro exI [of _ "rmach s"]) simp
next
  case (Cons i "is")
  have l: "ProcLock i \<notin> H" using Cons.prems(2) by (simp add: no_proc_lock_def)
  show ?case
  proof (cases "r_pid (rproc s i) = pid")
    case True
    define f where "f = (\<lambda>s :: ('x, 'f, 'w) rv_st. if r_state (rproc (rupd i (\<lambda>q. q\<lparr>r_killed := 1\<rparr>) s) i) = SLEEPING
       then rupd i (\<lambda>q. q\<lparr>r_state := RUNNABLE\<rparr>) (rupd i (\<lambda>q. q\<lparr>r_killed := 1\<rparr>) s) else rupd i (\<lambda>q. q\<lparr>r_killed := 1\<rparr>) s)"
    have eq: "f (s\<lparr>rmach := m\<rparr>) = (rupd i kill_mark s)\<lparr>rmach := m\<rparr>" for m
      using Cons.prems(4) by (auto simp: f_def rupd_def kill_mark_def upd_nth_def)
    from critical [OF Cons.prems(1) l Cons.prems(3), of f] obtain m1 m2 where
      m: "on_rm (acquire X (ProcLock i)) s = Ret (s\<lparr>rmach := m1\<rparr>)"
        "on_rm (release X (ProcLock i)) (f (s\<lparr>rmach := m1\<rparr>)) = Ret ((rupd i kill_mark s)\<lparr>rmach := m2\<rparr>)" "rv_view X m2 c n H P"
      unfolding eq by auto
    have "rv_kill_loop X pid (i # is) s = Ret (0, (rupd i kill_mark s)\<lparr>rmach := m2\<rparr>)"
      using m(1,2) True by (simp add: f_def Let_def)
    with m(3) True show ?thesis by auto
  next
    case False
    from critical [OF Cons.prems(1) l Cons.prems(3), of "\<lambda>s. s"] obtain m1 m2 where
      m: "on_rm (acquire X (ProcLock i)) s = Ret (s\<lparr>rmach := m1\<rparr>)"
        "on_rm (release X (ProcLock i)) (s\<lparr>rmach := m1\<rparr>) = Ret (s\<lparr>rmach := m2\<rparr>)" "rv_view X m2 c n H P" by auto
    from Cons.IH [of "s\<lparr>rmach := m2\<rparr>"] m(3) Cons.prems show ?thesis
      using False m(1,2) by (cases "find (\<lambda>i. r_pid (rproc s i) = pid) is") (auto simp: rupd_rmach)
  qed
qed

lemma wakeup_loop_spec:
  assumes "rv_view X (rmach s) c n H P" and "no_proc_lock H" and "n < max_noff"
    and "set is \<subseteq> {..<length (procs s)}" and "distinct is"
  shows "\<exists>m. rv_wakeup_loop X ch is s = Ret (s\<lparr>procs := map (\<lambda>j. wake_in (P ! c) ch (set is) j (rproc s j)) [0..<length (procs s)], rmach := m\<rparr>) \<and> rv_view X m c n H P"
  using assms
proof (induction "is" arbitrary: s)
  case Nil
  have "map (\<lambda>j. wake_in (P ! c) ch {} j (rproc s j)) [0..<length (procs s)] = procs s"
    by (simp add: wake_in_def map_nth)
  with Nil show ?case by (intro exI [of _ "rmach s"]) simp
next
  case (Cons i "is")
  have l: "ProcLock i \<notin> H" using Cons.prems(2) by (simp add: no_proc_lock_def)
  have i: "i < length (procs s)" "i \<notin> set is" using Cons.prems(4,5) by auto
  from myproc_view [OF Cons.prems(1,3)] obtain m0 where m0: "rv_myproc X s = Ret (P ! c, s\<lparr>rmach := m0\<rparr>)" "rv_view X m0 c n H P"
    by blast
  show ?case
  proof (cases "Some i \<noteq> P ! c")
    case False
    then have "wake_mark (P ! c) ch i q = q" for q by (auto simp: wake_mark_def)
    then have same: "map (\<lambda>j. wake_in (P ! c) ch (set (i # is)) j (rproc s j)) [0..<length (procs s)] =
        map (\<lambda>j. wake_in (P ! c) ch (set is) j (rproc s j)) [0..<length (procs s)]"
      by (intro map_cong) (auto simp: wake_in_def)
    have "rv_wakeup_loop X ch (i # is) s = rv_wakeup_loop X ch is (s\<lparr>rmach := m0\<rparr>)" using m0(1) False by simp
    with Cons.IH [of "s\<lparr>rmach := m0\<rparr>"] m0(2) Cons.prems show ?thesis unfolding same by (simp del: rv_wakeup_loop.simps)
  next
    case True
    define f where "f = (\<lambda>s :: ('x, 'f, 'w) rv_st. if r_state (rproc s i) = SLEEPING \<and> r_chan (rproc s i) = ch
                then rupd i (\<lambda>q. q\<lparr>r_state := RUNNABLE\<rparr>) s else s)"
    have eq: "f (s\<lparr>rmach := m\<rparr>) = (rupd i (wake_mark (P ! c) ch i) s)\<lparr>rmach := m\<rparr>" for m
      using i True by (auto simp: f_def rupd_def wake_mark_def upd_nth_def)
    from critical [of "s\<lparr>rmach := m0\<rparr>" c n H P, OF _ l Cons.prems(3), of f] m0(2) obtain m1 m2 where
      m: "on_rm (acquire X (ProcLock i)) (s\<lparr>rmach := m0\<rparr>) = Ret (s\<lparr>rmach := m1\<rparr>)"
        "on_rm (release X (ProcLock i)) (f (s\<lparr>rmach := m1\<rparr>)) = Ret ((rupd i (wake_mark (P ! c) ch i) s)\<lparr>rmach := m2\<rparr>)"
        "rv_view X m2 c n H P" by (auto simp: eq)
    let ?s = "(rupd i (wake_mark (P ! c) ch i) s)\<lparr>rmach := m2\<rparr>"
    have step: "rv_wakeup_loop X ch (i # is) s = rv_wakeup_loop X ch is ?s"
      using m0(1) m(1,2) True by (simp add: f_def Let_def)
    have same: "map (\<lambda>j. wake_in (P ! c) ch (set is) j (rproc ?s j)) [0..<length (procs ?s)] =
        map (\<lambda>j. wake_in (P ! c) ch (set (i # is)) j (rproc s j)) [0..<length (procs s)]"
      using i by (intro map_cong) (auto simp: wake_in_def)
    have "\<exists>m. rv_wakeup_loop X ch is ?s = Ret (?s\<lparr>procs := map (\<lambda>j. wake_in (P ! c) ch (set is) j (rproc ?s j))
          [0..<length (procs ?s)], rmach := m\<rparr>) \<and> rv_view X m c n H P"
      using m(3) Cons.prems by (intro Cons.IH) auto
    then show ?thesis unfolding step same by (simp add: rupd_def)
  qed
qed

lemma alloc_scan_spec:
  assumes "rv_view X (rmach s) c n H P" and "no_proc_lock H" and "n < max_noff"
  shows "\<exists>m. alloc_scan X is s = Ret (find (\<lambda>i. r_state (rproc s i) = UNUSED) is, s\<lparr>rmach := m\<rparr>) \<and>
     (case find (\<lambda>i. r_state (rproc s i) = UNUSED) is of None \<Rightarrow> rv_view X m c n H P
      | Some i \<Rightarrow> rv_view X m c (Suc n) (insert (ProcLock i) H) P)"
  using assms
proof (induction "is" arbitrary: s)
  case Nil
  then show ?case by (intro exI [of _ "rmach s"]) simp
next
  case (Cons i "is")
  have l: "ProcLock i \<notin> H" using Cons.prems(2) by (simp add: no_proc_lock_def)
  show ?case
  proof (cases "r_state (rproc s i) = UNUSED")
    case True
    with acquire_view [OF Cons.prems(1) l Cons.prems(3)] show ?thesis by auto
  next
    case False
    from critical [OF Cons.prems(1) l Cons.prems(3), of "\<lambda>s. s"] obtain m1 m2 where
      m: "on_rm (acquire X (ProcLock i)) s = Ret (s\<lparr>rmach := m1\<rparr>)"
        "on_rm (release X (ProcLock i)) (s\<lparr>rmach := m1\<rparr>) = Ret (s\<lparr>rmach := m2\<rparr>)" "rv_view X m2 c n H P" by auto
    from Cons.IH [of "s\<lparr>rmach := m2\<rparr>"] m(3) Cons.prems show ?thesis
      using False m(1,2) by auto
  qed
qed

lemma allocpid_view:
  assumes v: "rv_view X (rmach s) c n H P" and l: "PidLock \<notin> H" and n: "n < max_noff"
  shows "\<exists>m. allocpid X s = Ret (rv_nextpid s, s\<lparr>rv_nextpid := rv_nextpid s + 1, rmach := m\<rparr>) \<and> rv_view X m c n H P"
proof -
  from critical [OF v l n, of "\<lambda>s. s\<lparr>rv_nextpid := rv_nextpid s + 1\<rparr>"] show ?thesis
    by (force simp: allocpid_def Let_def)
qed

lemma killed_view:
  assumes v: "rv_view X (rmach s) c n H P" and l: "ProcLock p \<notin> H" and n: "n < max_noff"
  shows "\<exists>m. killed X p s = Ret (r_killed (rproc s p), s\<lparr>rmach := m\<rparr>) \<and> rv_view X m c n H P"
proof -
  from critical [OF v l n, of "\<lambda>s. s"] show ?thesis by (force simp: killed_def Let_def)
qed

lemma setkilled_view:
  assumes v: "rv_view X (rmach s) c n H P" and l: "ProcLock p \<notin> H" and n: "n < max_noff"
  shows "\<exists>m. setkilled X p s = Ret ((rupd p (\<lambda>q. q\<lparr>r_killed := 1\<rparr>) s)\<lparr>rmach := m\<rparr>) \<and> rv_view X m c n H P"
proof -
  from critical [OF v l n, of "rupd p (\<lambda>q. q\<lparr>r_killed := 1\<rparr>)"] show ?thesis
    by (force simp: setkilled_def rupd_rmach)
qed

end

end
