(* ===== verification/Rv_Space.thy ===== *)
theory Rv_Space
  imports Rv_Proc Vm_Machine
begin

text \<open>
  The address space of a process: the user's pages from 0 on, and at the top of the range the pages
  of the trampoline, the trap frame and the pid. \<open>proc_pagetable\<close> makes it, \<open>proc_freepagetable\<close>
  gives it back. The locale \<open>proc_layout\<close> adds to the laws of the page tables where \<open>memlayout.h\<close>
  puts the three pages and that the trampoline is a page.
\<close>

section \<open>Walks that find their table\<close>

context sv39
begin

lemma walk_present:
  assumes ok: "pt_ok E (mem s) T" and va: "va < MAXVA E" and k: "leaf E T va = Some k"
  shows "walk E (root T) va al s = Ret (entry k (px E 0 va), s)"
proof -
  note D = tree_okD [OF pt_okD(1) [OF ok]]
  from D(1) obtain k2 where k2: "T N2 = Some k2" by blast
  have k0: "T (N0 (px E (Suc (Suc 0)) va) (px E (Suc 0) va)) = Some k"
    using k by (simp add: leaf_def numeral_2_eq_2)
  with D(5) obtain k1 where k1: "T (N1 (px E (Suc (Suc 0)) va)) = Some k1" by blast
  have "walk_loop E (Suc (Suc 0)) (adr k2 0) va al s = walk_loop E (Suc 0) (adr k1 0) va al s"
    using walk_step [OF ok _ k2] k1 by simp
  also have "\<dots> = walk_loop E 0 (adr k 0) va al s"
    using walk_step [OF ok _ k1] k0 by simp
  also have "\<dots> = (entry k (px E 0 va), s)" by (rule walk_leaf [OF D(2) [OF k0]])
  finally show ?thesis using va k2 by (simp add: walk_def numeral_2_eq_2 not_le)
qed

end

context page_alloc
begin

text \<open>Mapping a page whose leaf table exists takes no memory and cannot fail.\<close>

lemma map_present:
  assumes ow: "owns E free s T" and v: "v < 2 ^ 26" and k: "leaf E T (adr v 0) = Some k"
    and un: "pte E (mem s) T (adr v 0) AND 1 = 0"
  shows "\<exists>s'. mappages (Suc fuel) E (root T) (adr v 0) (PGSIZE E) (adr q 0) perm s = Ret (0, s') \<and>
     extends E free s T s' T \<and> free s' = free s \<and>
     (\<forall>va < MAXVA E. pte E (mem s') T va = (if pg va = v then mkpte E q (scast perm) else pte E (mem s) T va))"
proof -
  have ok: "pt_ok E (mem s) T" using ow by (simp add: owns_def)
  note va = vpage_less [OF v]
  have fk: "frame k" using tree_okD(2) [OF pt_okD(1) [OF ok]] k by (auto simp: leaf_def)
  have "entry k (px E 0 (adr v 0)) \<noteq> 0" using fk px_less [of 0 "adr v 0"] by (intro adr_nonzero) simp_all
  moreover have "read64 (mem s) (entry k (px E 0 (adr v 0))) AND 1 = 0" using un k by (simp add: pte_def)
  ultimately have "mappages (Suc fuel) E (root T) (adr v 0) (PGSIZE E) (adr q 0) perm s =
      Ret (0, on_mem (write64 (entry k (px E 0 (adr v 0))) (mkpte E q (scast perm))) s)"
    by (simp add: mappages_page [OF v] walk_present [OF ok va k] PTE_V_eq mkpte_def Let_def)
  with set_leaf [OF ow k va, where v = "mkpte E q (scast perm)"] pg_vpage [OF v] show ?thesis by simp
qed

text \<open>Removing one mapping and keeping the frame.\<close>

lemma unmap_page:
  assumes ow: "owns E free s T" and v: "v < 2 ^ 26" and e: "leaf_entry E (pte E (mem s) T (adr v 0))" and fuel: "2 \<le> fuel"
  shows "\<exists>s'. uvmunmap fuel E (root T) (adr v 0) 1 False s = Ret s' \<and> unmapped E free {v} {} s T s'"
proof -
  obtain f where f: "fuel = Suc (Suc f)" using fuel by (metis Suc_le_D numeral_2_eq_2 Suc_le_mono)
  have lim: "adr v 0 + 1 * PGSIZE E = adr (Suc v) 0" by (simp add: adr_next)
  have lt: "adr v 0 < adr (Suc v) 0" using v by (simp add: vpage_le)
  have "adr v 0 mod PGSIZE E = 0" using v by (simp add: word_unat_eq_iff unat_mod unat_vpage PGSIZE_eq)
  with unmap_entry [OF ow v e _ lt, of False "Suc f"] show ?thesis
    unfolding uvmunmap_def lim f by (auto simp del: uvmunmap_loop.simps simp add: uvmunmap_loop.simps(2) [of _ _ _ "adr (Suc v) 0"])
qed

end

section \<open>The layout\<close>

text \<open>The virtual pages of the trampoline, the trap frame and the pid.\<close>

definition v_tramp :: nat where "v_tramp = 67108863"
definition v_trapf :: nat where "v_trapf = 67108862"
definition v_usys :: nat where "v_usys = 67108861"

lemmas v_defs = v_tramp_def v_trapf_def v_usys_def

locale proc_layout = page_alloc "VE X" free ram
  for X :: "('x, 'f, 'w) rv_ext" and free :: "'w vm \<Rightarrow> nat set" and ram :: "nat set" +
  assumes TRAMPOLINE_law: "TRAMPOLINE (VE X) = MAXVA (VE X) - PGSIZE (VE X)"
    and TRAPFRAME_law: "TRAPFRAME X = TRAMPOLINE (VE X) - PGSIZE (VE X)"
    and USYSCALL_law: "USYSCALL X = TRAPFRAME X - PGSIZE (VE X)"
    and trampoline_law: "frame (pg (trampoline (VE X)))" "trampoline (VE X) = adr (pg (trampoline (VE X))) 0"
begin

lemma layout: "TRAMPOLINE (VE X) = adr v_tramp 0" "TRAPFRAME X = adr v_trapf 0" "USYSCALL X = adr v_usys 0"
  by (simp_all add: TRAMPOLINE_law TRAPFRAME_law USYSCALL_law MAXVA_eq PGSIZE_eq adr_def v_defs)

text \<open>The three pages share their leaf table.\<close>

lemma leaf_top:
  "leaf (VE X) T (adr v_trapf 0) = leaf (VE X) T (adr v_tramp 0)"
  "leaf (VE X) T (adr v_usys 0) = leaf (VE X) T (adr v_tramp 0)"
  by (simp_all add: leaf_def px_pg pg_vpage v_defs)

end

section \<open>Address spaces of processes\<close>

text \<open>
  Memory holds the tree \<open>T\<close> of a process of \<open>sz\<close> bytes: its pages are mapped to frames of their own,
  then nothing up to the page of the pid (frame \<open>u\<close>, readable by the user), the trap frame (frame
  \<open>t\<close>, for the kernel only) and the trampoline.
\<close>

definition top_pages :: "('x, 'f, 'w) rv_ext \<Rightarrow> bytes \<Rightarrow> ptree \<Rightarrow> nat \<Rightarrow> nat \<Rightarrow> bool" where
  "top_pages X m T t u \<longleftrightarrow>
     pte (VE X) m T (adr v_tramp 0) = mkpte (VE X) (pg (trampoline (VE X))) 10 \<and>
     pte (VE X) m T (adr v_trapf 0) = mkpte (VE X) t 6 \<and>
     pte (VE X) m T (adr v_usys 0) = mkpte (VE X) u 18"

definition proc_space ::
    "('x, 'f, 'w) rv_ext \<Rightarrow> ('w vm \<Rightarrow> nat set) \<Rightarrow> nat set \<Rightarrow> 'w vm \<Rightarrow> ptree \<Rightarrow> u64 \<Rightarrow> nat \<Rightarrow> nat \<Rightarrow> bool" where
  "proc_space X free ram s T sz t u \<longleftrightarrow>
     uspace (VE X) free ram s T {..<npages sz} \<and> ran T \<subseteq> ram \<and> sz \<le> USYSCALL X \<and> frame t \<and> frame u \<and>
     top_pages X (mem s) T t u \<and>
     (\<forall>va < USYSCALL X. npages sz \<le> pg va \<longrightarrow> pte (VE X) (mem s) T va = 0)"

lemma proc_spaceD:
  assumes "proc_space X free ram s T sz t u"
  shows "uspace (VE X) free ram s T {..<npages sz}" and "owns (VE X) free s T" and "ran T \<subseteq> ram" and "sz \<le> USYSCALL X"
    and "frame t" and "frame u" and "top_pages X (mem s) T t u"
    and "\<And>va. va < USYSCALL X \<Longrightarrow> npages sz \<le> pg va \<Longrightarrow> pte (VE X) (mem s) T va = 0"
  using assms unfolding proc_space_def by (auto dest: uspaceD(1))

context proc_layout
begin

lemma perm_top:
  "scast (perm_int (PTE_R (VE X) OR PTE_X (VE X))) = (10 :: u64)"
  "scast (perm_int (PTE_R (VE X) OR PTE_W (VE X))) = (6 :: u64)"
  "scast (perm_int (PTE_R (VE X) OR PTE_U (VE X))) = (18 :: u64)"
  by (simp_all add: PTE_R_eq PTE_X_eq PTE_W_eq PTE_U_eq)

lemma leaf_mkpte: "frame k \<Longrightarrow> f \<in> {6, 10, 18} \<Longrightarrow> leaf_entry (VE X) (mkpte (VE X) k f)"
proof -
  assume k: "frame k" and f: "f \<in> {6, 10, 18}"
  have "take_bit 10 (6 :: u64) = 6" "take_bit 10 (10 :: u64) = 10" "take_bit 10 (18 :: u64) = 18"
    "(6 :: u64) OR 1 \<noteq> 1" "(10 :: u64) OR 1 \<noteq> 1" "(18 :: u64) OR 1 \<noteq> 1"
    by (simp_all add: take_bit_eq_mod)
  with f have "take_bit 10 f = f" "f OR 1 \<noteq> 1" by auto
  with k show ?thesis unfolding leaf_entry_def by blast
qed

lemma v_bounds: "v_tramp < 2 ^ 26" "v_trapf < 2 ^ 26" "v_usys < 2 ^ 26"
  "v_tramp \<noteq> v_trapf" "v_tramp \<noteq> v_usys" "v_trapf \<noteq> v_usys"
  by (simp_all add: v_defs)

lemmas v_pages = v_bounds v_bounds(4-6) [symmetric] vpage_less [OF v_bounds(1)] vpage_less [OF v_bounds(2)]
  vpage_less [OF v_bounds(3)] pg_vpage [OF v_bounds(1)] pg_vpage [OF v_bounds(2)] pg_vpage [OF v_bounds(3)]

lemma below_usys: "va < MAXVA (VE X) \<Longrightarrow> pg va < v_usys \<longleftrightarrow> va < USYSCALL X"
  unfolding layout by (simp add: word_less_nat_alt unat_vpage v_defs pg_def) linarith

lemma below_top: "va < MAXVA (VE X) \<Longrightarrow> pg va \<in> {v_usys, v_trapf, v_tramp} \<or> va < USYSCALL X"
  using pg_less [of va] below_usys [of va] by (auto simp: v_defs)

lemma usys_max: "USYSCALL X \<le> MAXVA (VE X)"
  unfolding layout by (intro vpage_max) (simp add: v_defs)

text \<open>Freeing a table that maps nothing above the user's pages.\<close>

lemma proc_freepagetable_spec:
  assumes ps: "proc_space X free ram s T sz t u" and fuel: "npages sz + 3 \<le> fuel"
  shows "\<exists>s'. proc_freepagetable fuel X (root T) sz s = Ret s' \<and>
    free s' = free s \<union> ran T \<union> fr (VE X) s T ` {..<npages sz} \<and>
    (\<forall>x. pg x \<notin> free s \<union> ran T \<union> fr (VE X) s T ` {..<npages sz} \<longrightarrow> mem s' x = mem s x)"
proof -
  let ?E = "VE X"
  note S = proc_spaceD [OF ps]
  have top: "pte ?E (mem s) T (adr v_tramp 0) = mkpte ?E (pg (trampoline ?E)) 10"
    "pte ?E (mem s) T (adr v_trapf 0) = mkpte ?E t 6" "pte ?E (mem s) T (adr v_usys 0) = mkpte ?E u 18"
    using S(7) by (simp_all add: top_pages_def)
  have f2: "2 \<le> fuel" using fuel by simp
  obtain s1 where s1: "uvmunmap fuel ?E (root T) (adr v_usys 0) 1 False s = Ret s1" and u1: "unmapped ?E free {v_usys} {} s T s1"
    using unmap_page [OF S(2) v_bounds(3) _ f2] leaf_mkpte [OF S(6)] top by auto
  have ow1: "owns ?E free s1 T" using u1 by (simp add: unmapped_def)
  have "pte ?E (mem s1) T (adr v_tramp 0) = mkpte ?E (pg (trampoline ?E)) 10"
    using u1 top v_pages by (simp add: unmapped_def)
  then obtain s2 where s2: "uvmunmap fuel ?E (root T) (adr v_tramp 0) 1 False s1 = Ret s2" and u2: "unmapped ?E free {v_tramp} {} s1 T s2"
    using unmap_page [OF ow1 v_bounds(1) _ f2] leaf_mkpte [OF trampoline_law(1)] by auto
  have ow2: "owns ?E free s2 T" using u2 by (simp add: unmapped_def)
  have "pte ?E (mem s2) T (adr v_trapf 0) = mkpte ?E t 6"
    using u1 u2 top v_pages by (simp add: unmapped_def)
  then obtain s3 where s3: "uvmunmap fuel ?E (root T) (adr v_trapf 0) 1 False s2 = Ret s3" and u3: "unmapped ?E free {v_trapf} {} s2 T s3"
    using unmap_page [OF ow2 v_bounds(2) _ f2] leaf_mkpte [OF S(5)] by auto
  have u: "unmapped ?E free {v_usys, v_tramp, v_trapf} {} s T s3"
    using unmapped_trans [OF unmapped_trans [OF u1 u2] u3] by (simp add: insert_commute)
  have low: "npages sz \<le> v_usys" using npages_mono [OF S(4)] npages_vpage [of v_usys] v_bounds unfolding layout by simp
  have same: "pte ?E (mem s3) T (adr v 0) = pte ?E (mem s) T (adr v 0)" if "v < npages sz" for v
    using u that low v_pages by (simp add: unmapped_def vpage_less pg_vpage v_defs)
  have us: "uspace ?E free ram s3 T {..<npages sz}"
    using S(1) u same unfolding uspace_def inj_on_def by (simp add: unmapped_def image_subset_iff)
  have inv: "pte ?E (mem s3) T va AND 1 = 0" if "va < MAXVA ?E" "npages sz \<le> pg va" for va
    using u that below_top [OF that(1)] S(8) by (auto simp: unmapped_def)
  have max: "sz \<le> MAXVA ?E" using S(4) usys_max by simp
  from uvmfree_spec [OF us max fuel inv S(3)] obtain s' where
    s': "uvmfree fuel ?E (root T) sz s3 = Ret s'" "free s' = free s3 \<union> ran T \<union> fr ?E s3 T ` {..<npages sz}"
      "\<forall>x. pg x \<notin> free s3 \<union> ran T \<union> fr ?E s3 T ` {..<npages sz} \<longrightarrow> mem s' x = mem s3 x"
    by auto
  have img: "fr ?E s3 T ` {..<npages sz} = fr ?E s T ` {..<npages sz}" using same by (intro image_cong) auto
  have fr3: "free s3 = free s" using u by (simp add: unmapped_def)
  have "proc_freepagetable fuel X (root T) sz s = Ret s'"
    by (simp add: proc_freepagetable_def layout Let_def s1 s2 s3 s'(1))
  moreover have "mem s' x = mem s x" if "pg x \<notin> free s \<union> ran T \<union> fr ?E s T ` {..<npages sz}" for x
    using s'(3) u that unfolding fr3 img by (simp add: unmapped_def)
  ultimately show ?thesis using s'(2) unfolding fr3 img by auto
qed

end

context proc_layout
begin

text \<open>Mapping the trampoline in a new table: it takes two more tables, or fails.\<close>

lemma map_trampoline:
  assumes ow: "owns (VE X) free s (fresh_tree q)" and z: "\<And>va. pte (VE X) (mem s) (fresh_tree q) va = 0"
  shows "\<exists>r s' T. mappages (Suc fuel) (VE X) (adr q 0) (TRAMPOLINE (VE X)) (PGSIZE (VE X)) (trampoline (VE X))
       (perm_int (PTE_R (VE X) OR PTE_X (VE X))) s = Ret (r, s') \<and>
     extends (VE X) free s (fresh_tree q) s' T \<and> (2 \<le> card (free s) \<longrightarrow> r = 0) \<and>
     (r = 0 \<longrightarrow> card (free s) \<le> card (free s') + 2) \<and>
     (r = 0 \<and> (\<forall>va < MAXVA (VE X). pte (VE X) (mem s') T va =
                   (if pg va = v_tramp then mkpte (VE X) (pg (trampoline (VE X))) 10 else 0)) \<or>
      r = - 1 \<and> (\<forall>va. pte (VE X) (mem s') T va = 0))"
proof -
  have root: "root (fresh_tree q) = adr q 0" by (simp add: fresh_tree_def)
  have eq: "mappages (Suc fuel) (VE X) (adr q 0) (TRAMPOLINE (VE X)) (PGSIZE (VE X)) (trampoline (VE X))
       (perm_int (PTE_R (VE X) OR PTE_X (VE X))) s =
     mappages_loop (Suc fuel) (VE X) (adr q 0) (adr v_tramp 0) (adr v_tramp 0) (adr (pg (trampoline (VE X))) 0)
       (perm_int (PTE_R (VE X) OR PTE_X (VE X))) s"
    using trampoline_law(2) by (simp add: layout(1) mappages_page [OF v_bounds(1)] del: mappages_loop.simps)
  show ?thesis
    using mappages_round [OF ow v_bounds(1), of fuel "adr v_tramp 0" "pg (trampoline (VE X))"
        "perm_int (PTE_R (VE X) OR PTE_X (VE X))"] z
    unfolding eq root perm_top(1) by (fastforce simp: grown_def simp del: mappages_loop.simps)
qed

text \<open>The other two pages then are in tables that exist.\<close>

lemma map_trapframe_usyscall:
  assumes ow: "owns (VE X) free s T"
    and tr: "\<And>va. va < MAXVA (VE X) \<Longrightarrow> pte (VE X) (mem s) T va =
               (if pg va = v_tramp then mkpte (VE X) (pg (trampoline (VE X))) 10 else 0)"
  shows "\<exists>s1 s2. mappages (Suc fuel) (VE X) (root T) (TRAPFRAME X) (PGSIZE (VE X)) (adr t 0)
         (perm_int (PTE_R (VE X) OR PTE_W (VE X))) s = Ret (0, s1) \<and>
     mappages (Suc fuel) (VE X) (root T) (USYSCALL X) (PGSIZE (VE X)) (adr u 0)
         (perm_int (PTE_R (VE X) OR PTE_U (VE X))) s1 = Ret (0, s2) \<and>
     extends (VE X) free s T s2 T \<and> free s2 = free s \<and> top_pages X (mem s2) T t u \<and>
     (\<forall>va < USYSCALL X. pte (VE X) (mem s2) T va = 0)"
proof -
  let ?E = "VE X"
  have "pte ?E (mem s) T (adr v_tramp 0) \<noteq> 0"
    using tr [of "adr v_tramp 0"] v_pages mkpte_valid [OF trampoline_law(1), of 10] by auto
  then obtain k where k: "leaf ?E T (adr v_tramp 0) = Some k"
    by (cases "leaf ?E T (adr v_tramp 0)") (auto simp: pte_def)
  have "pte ?E (mem s) T (adr v_trapf 0) AND 1 = 0" using tr v_pages by simp
  from map_present [OF ow v_bounds(2) _ this, of k fuel t "perm_int (PTE_R ?E OR PTE_W ?E)"] k obtain s1 where
    s1: "mappages (Suc fuel) ?E (root T) (TRAPFRAME X) (PGSIZE ?E) (adr t 0) (perm_int (PTE_R ?E OR PTE_W ?E)) s = Ret (0, s1)"
      "extends ?E free s T s1 T" "free s1 = free s"
      "\<forall>va < MAXVA ?E. pte ?E (mem s1) T va = (if pg va = v_trapf then mkpte ?E t 6 else pte ?E (mem s) T va)"
    unfolding leaf_top perm_top layout by blast
  have "pte ?E (mem s1) T (adr v_usys 0) AND 1 = 0" using tr s1(4) v_pages by simp
  from map_present [OF owns_extends [OF s1(2)] v_bounds(3) _ this, of k fuel u "perm_int (PTE_R ?E OR PTE_U ?E)"] k obtain s2 where
    s2: "mappages (Suc fuel) ?E (root T) (USYSCALL X) (PGSIZE ?E) (adr u 0) (perm_int (PTE_R ?E OR PTE_U ?E)) s1 = Ret (0, s2)"
      "extends ?E free s1 T s2 T" "free s2 = free s1"
      "\<forall>va < MAXVA ?E. pte ?E (mem s2) T va = (if pg va = v_usys then mkpte ?E u 18 else pte ?E (mem s1) T va)"
    unfolding leaf_top perm_top layout by blast
  have "top_pages X (mem s2) T t u" using tr s1(4) s2(4) v_pages by (simp add: top_pages_def)
  moreover have "pte ?E (mem s2) T va = 0" if "va < USYSCALL X" for va
  proof -
    have va: "va < MAXVA ?E" using that usys_max by order
    then have "pg va < v_usys" using that below_usys by simp
    then show ?thesis using va tr s1(4) s2(4) by (simp add: v_defs)
  qed
  ultimately show ?thesis using s1 s2 extends_trans [OF s1(2) s2(2)] by auto
qed

lemma free_empty_table:
  assumes "owns (VE X) free s T" and "\<And>va. pte (VE X) (mem s) T va = 0" and "ran T \<subseteq> ram" and "3 \<le> fuel"
  shows "\<exists>s'. uvmfree fuel (VE X) (root T) 0 s = Ret s' \<and> free s' = free s \<union> ran T \<and>
    (\<forall>x. pg x \<notin> free s \<union> ran T \<longrightarrow> mem s' x = mem s x)"
proof -
  have "uspace (VE X) free ram s T {..<npages 0}" using assms(1) by (simp add: uspace_def npages_def)
  from uvmfree_spec [OF this _ _ _ assms(3), of fuel] assms(2,4) show ?thesis by (auto simp: npages_def)
qed

lemma card_three: "free s \<noteq> {} \<Longrightarrow> q \<in> free s \<Longrightarrow> 3 \<le> card (free s) \<longleftrightarrow> 2 \<le> card (free s - {q})"
  using finite_free [of s] by (auto simp: card_Diff_singleton)

lemma proc_pagetable_spec:
  assumes t: "t \<in> ram - free s" and u: "u \<in> ram - free s" and fuel: "3 \<le> fuel"
  shows "\<exists>r s'. proc_pagetable fuel X (adr t 0) (adr u 0) s = Ret (r, s') \<and>
     (\<forall>x. pg x \<notin> free s \<longrightarrow> mem s' x = mem s x) \<and> (3 \<le> card (free s) \<longrightarrow> r \<noteq> 0) \<and>
     (r \<noteq> 0 \<longrightarrow> card (free s) \<le> card (free s') + 3) \<and>
     (r = 0 \<and> free s' = free s \<or>
      r \<noteq> 0 \<and> (\<exists>T. r = root T \<and> proc_space X free ram s' T 0 t u \<and> ran T \<subseteq> free s \<and> free s' = free s - ran T))"
proof -
  let ?E = "VE X"
  obtain f where f: "fuel = Suc f" using fuel by (cases fuel) auto
  from uvmcreate_spec [of s] consider "uvmcreate ?E s = (0, s)" "free s = {}"
    | q s1 where "uvmcreate ?E s = (adr q 0, s1)" "adr q 0 \<noteq> 0" "q \<in> free s" "free s1 = free s - {q}"
        "owns ?E free s1 (fresh_tree q)" "\<forall>va. pte ?E (mem s1) (fresh_tree q) va = 0"
        "\<forall>x. pg x \<notin> free s \<longrightarrow> mem s1 x = mem s x" by blast
  then show ?thesis
  proof cases
    case 1
    then show ?thesis by (simp add: proc_pagetable_def)
  next
    case 2
    have root: "root (fresh_tree q) = adr q 0" and rq: "ran (fresh_tree q) = {q}"
      by (auto simp: fresh_tree_def ran_def split: if_splits)
    from map_trampoline [OF 2(5), of f] 2(6) obtain r s2 T where
      s2: "mappages fuel ?E (adr q 0) (TRAMPOLINE ?E) (PGSIZE ?E) (trampoline ?E) (perm_int (PTE_R ?E OR PTE_X ?E)) s1 = Ret (r, s2)"
        "extends ?E free s1 (fresh_tree q) s2 T" "2 \<le> card (free s1) \<longrightarrow> r = 0" "r = 0 \<longrightarrow> card (free s1) \<le> card (free s2) + 2"
      and rd: "r = 0 \<and> (\<forall>va < MAXVA ?E. pte ?E (mem s2) T va = (if pg va = v_tramp then mkpte ?E (pg (trampoline ?E)) 10 else 0)) \<or>
        r = - 1 \<and> (\<forall>va. pte ?E (mem s2) T va = 0)" unfolding f by auto
    note ow2 = owns_extends [OF s2(2)]
    have rT: "root T = adr q 0" using root_extends [OF 2(5) s2(2)] root by simp
    have T: "ran T \<subseteq> free s" "free s2 = free s - ran T" "q \<in> ran T"
      using s2(2) 2(3,4) map_le_ran [of "fresh_tree q" T] unfolding extends_def rq by auto
    have ram: "ran T \<subseteq> ram" using T(1) free_ram by blast
    have mem2: "mem s2 x = mem s x" if "pg x \<notin> free s" for x
      using that 2(3,4,7) s2(2) unfolding extends_def rq by auto
    show ?thesis
    proof (cases "r = 0")
      case True
      with rd have tr: "pte ?E (mem s2) T va = (if pg va = v_tramp then mkpte ?E (pg (trampoline ?E)) 10 else 0)"
        if "va < MAXVA ?E" for va using that by auto
      obtain s3 s4 where s4:
        "mappages fuel ?E (root T) (TRAPFRAME X) (PGSIZE ?E) (adr t 0) (perm_int (PTE_R ?E OR PTE_W ?E)) s2 = Ret (0, s3)"
        "mappages fuel ?E (root T) (USYSCALL X) (PGSIZE ?E) (adr u 0) (perm_int (PTE_R ?E OR PTE_U ?E)) s3 = Ret (0, s4)"
        "extends ?E free s2 T s4 T" "free s4 = free s2" "top_pages X (mem s4) T t u"
        "\<forall>va < USYSCALL X. pte ?E (mem s4) T va = 0"
        using map_trapframe_usyscall [OF ow2 tr, of f t u] unfolding f by blast
      have "proc_pagetable fuel X (adr t 0) (adr u 0) s = Ret (root T, s4)"
        using 2(1,2) s2(1) True s4(1,2) rT by (simp add: proc_pagetable_def Let_def)
      moreover have "npages 0 = 0" by (simp add: npages_def)
      then have "proc_space X free ram s4 T 0 t u"
        unfolding proc_space_def uspace_def using owns_extends [OF s4(3)] ram s4(5,6) t u free_frame by simp
      moreover have "mem s4 x = mem s x" if "pg x \<notin> free s" for x
        using that mem2 [OF that] s4(3) T by (auto simp: extends_def)
      moreover have "card (free s) \<le> card (free s4) + 3"
        using s2(4) True s4(4) 2(3,4) finite_free [of s] by (simp add: card_Diff_singleton)
      ultimately show ?thesis
        using 2(2) rT T s4(4) by (intro exI [of _ "root T"] exI [of _ s4]) (auto intro!: exI [of _ T])
    next
      case False
      with rd have z: "\<And>va. pte ?E (mem s2) T va = 0" and r: "r = - 1" by auto
      from free_empty_table [OF ow2 z ram fuel] obtain s3 where
        s3: "uvmfree fuel ?E (root T) 0 s2 = Ret s3" "free s3 = free s2 \<union> ran T"
          "\<forall>x. pg x \<notin> free s2 \<union> ran T \<longrightarrow> mem s3 x = mem s2 x" by blast
      have "free s3 = free s" using s3(2) T by auto
      moreover have "mem s3 x = mem s x" if "pg x \<notin> free s" for x
        using that mem2 [OF that] s3(3) T by auto
      moreover have "\<not> 3 \<le> card (free s)"
        using False s2(3) card_three [of s q] 2(3,4) by auto
      moreover have "proc_pagetable fuel X (adr t 0) (adr u 0) s = Ret (0, s3)"
        using 2(1,2) s2(1) r s3(1) rT by (simp add: proc_pagetable_def Let_def)
      ultimately show ?thesis by auto
    qed
  qed
qed

end

end
