(* ===== verification/Rv_Mem.thy ===== *)
theory Rv_Mem
  imports Rv_Locks Rv_Space
begin

text \<open>
  Which physical pages a process owns, and that \<open>freeproc\<close> gives them all back. The pages of a
  process are those of its page table, the frames of its user pages, its trap frame and the page
  with its pid. The invariant \<open>mem_ok\<close> says that each process of the table owns its pages alone.
\<close>

section \<open>The pages of a process\<close>

text \<open>The tree of its page table, the page of the trap frame and the page of the pid.\<close>

type_synonym pages_of = "ptree \<times> nat \<times> nat"

definition pt_pages :: "('x, 'f, 'w) rv_ext \<Rightarrow> 'w vm \<Rightarrow> rv_proc \<Rightarrow> ptree \<Rightarrow> nat set" where
  "pt_pages X v p T = (if r_pagetable p = 0 then {} else ran T \<union> fr (VE X) v T ` {..<npages (r_sz p)})"

definition page_at :: "addr64 \<Rightarrow> nat \<Rightarrow> nat set" where
  "page_at a k = (if a = 0 then {} else {k})"

definition foot :: "('x, 'f, 'w) rv_ext \<Rightarrow> 'w vm \<Rightarrow> rv_proc \<Rightarrow> pages_of \<Rightarrow> nat set" where
  "foot X v p a = (case a of (T, t, u) \<Rightarrow> pt_pages X v p T \<union> page_at (r_trapframe p) t \<union> page_at (r_usyscall p) u)"

definition has_mem ::
    "('x, 'f, 'w) rv_ext \<Rightarrow> ('w vm \<Rightarrow> nat set) \<Rightarrow> nat set \<Rightarrow> 'w vm \<Rightarrow> rv_proc \<Rightarrow> pages_of \<Rightarrow> bool" where
  "has_mem X free ram v p a \<longleftrightarrow> (case a of (T, t, u) \<Rightarrow>
     (r_trapframe p = 0 \<or> r_trapframe p = adr t 0) \<and> (r_usyscall p = 0 \<or> r_usyscall p = adr u 0) \<and>
     (r_pagetable p = 0 \<or> r_pagetable p = root T \<and> proc_space X free ram v T (r_sz p) t u) \<and>
     foot X v p a \<subseteq> ram - free v \<and> page_at (r_trapframe p) t \<inter> pt_pages X v p T = {} \<and>
     page_at (r_usyscall p) u \<inter> (pt_pages X v p T \<union> page_at (r_trapframe p) t) = {})"

lemma foot_eq: "foot X v p (T, t, u) = pt_pages X v p T \<union> page_at (r_trapframe p) t \<union> page_at (r_usyscall p) u"
  by (simp add: foot_def)

lemma has_memD:
  assumes "has_mem X free ram v p (T, t, u)"
  shows "r_trapframe p \<noteq> 0 \<Longrightarrow> r_trapframe p = adr t 0" and "r_usyscall p \<noteq> 0 \<Longrightarrow> r_usyscall p = adr u 0"
    and "r_pagetable p \<noteq> 0 \<Longrightarrow> r_pagetable p = root T" and "r_pagetable p \<noteq> 0 \<Longrightarrow> proc_space X free ram v T (r_sz p) t u"
    and "foot X v p (T, t, u) \<subseteq> ram - free v" and "page_at (r_trapframe p) t \<inter> pt_pages X v p T = {}"
    and "page_at (r_usyscall p) u \<inter> pt_pages X v p T = {}" and "page_at (r_usyscall p) u \<inter> page_at (r_trapframe p) t = {}"
  using assms unfolding has_mem_def by auto

section \<open>What other code may change\<close>

context proc_layout
begin

lemma proc_space_frame:
  assumes ps: "proc_space X free ram v T sz t u"
    and mem: "\<And>x. pg x \<in> ran T \<Longrightarrow> mem v' x = mem v x"
    and fr: "(ran T \<union> fr (VE X) v T ` {..<npages sz}) \<inter> free v' = {}"
  shows "proc_space X free ram v' T sz t u" and "\<And>va. pte (VE X) (mem v') T va = pte (VE X) (mem v) T va"
proof -
  note S = proc_spaceD [OF ps]
  have ok: "pt_ok (VE X) (mem v) T" using S(2) by (simp add: owns_def)
  note T = pt_okD(1) [OF ok]
  show pte: "pte (VE X) (mem v') T va = pte (VE X) (mem v) T va" for va using mem T by (intro pte_cong) auto
  have "pt_ok (VE X) (mem v') T" using pt_ok_cong [of T "mem v'" "mem v" "VE X"] mem T ok by blast
  then have "owns (VE X) free v' T" using fr by (auto simp: owns_def)
  moreover have "fr (VE X) v T ` {..<npages sz} \<subseteq> ram - free v' - ran T"
    using S(1) fr by (auto simp: uspace_def)
  ultimately show "proc_space X free ram v' T sz t u"
    using ps unfolding proc_space_def uspace_def top_pages_def pte by simp
qed

lemma has_mem_frame:
  assumes hm: "has_mem X free ram v p a"
    and mem: "\<And>x. r_pagetable p \<noteq> 0 \<Longrightarrow> pg x \<in> ran (fst a) \<Longrightarrow> mem v' x = mem v x"
    and fr: "foot X v p a \<inter> free v' = {}"
  shows "has_mem X free ram v' p a" and "foot X v' p a = foot X v p a"
proof -
  obtain T t u where a: "a = (T, t, u)" by (cases a)
  note D = has_memD [OF hm [unfolded a]]
  have space: "proc_space X free ram v' T (r_sz p) t u" "\<And>va. pte (VE X) (mem v') T va = pte (VE X) (mem v) T va"
    if "r_pagetable p \<noteq> 0"
    using that mem fr a by (intro proc_space_frame [OF D(4) [OF that]]; auto simp: foot_eq pt_pages_def)+
  have pt: "pt_pages X v' p T = pt_pages X v p T" by (auto simp: pt_pages_def space(2))
  then show foot: "foot X v' p a = foot X v p a" by (simp add: a foot_eq)
  have "foot X v p a \<subseteq> ram - free v'" using hm fr by (auto simp: has_mem_def a)
  then show "has_mem X free ram v' p a"
    using hm space(1) unfolding has_mem_def a foot [unfolded a] by (auto simp: pt)
qed

section \<open>Giving everything back\<close>

lemma kfree_page:
  assumes "a = 0 \<or> a = adr k 0" and "page_at a k \<subseteq> ram - free v"
  shows "\<exists>v'. (if a \<noteq> 0 then kfree (VE X) a v else Ret v) = Ret v' \<and> free v' = free v \<union> page_at a k \<and>
    (\<forall>x. pg x \<notin> free v \<union> page_at a k \<longrightarrow> mem v' x = mem v x)"
proof (cases "a = 0")
  case True
  then show ?thesis by (simp add: page_at_def)
next
  case False
  with assms have "k \<in> ram" "k \<notin> free v" by (auto simp: page_at_def)
  from kfree_law [OF this] False assms(1) show ?thesis by (auto simp: page_at_def)
qed

end

text \<open>A call under a condition on a pointer.\<close>

definition vm_when :: "bool \<Rightarrow> ('w vm \<Rightarrow> 'w vm outcome) \<Rightarrow> 'w vm \<Rightarrow> 'w vm outcome" where
  "vm_when b f v = (if b then f v else Ret v)"

lemma on_vm_when: "(if b then on_vm f s else Ret s) = on_vm (vm_when b f) s"
  by (simp add: on_vm_def vm_when_def)

lemma on_vm_Ret: "f (rvm s) = Ret v \<Longrightarrow> on_vm f s = Ret (s\<lparr>rvm := v\<rparr>)"
  by (simp add: on_vm_def)

lemma rupd_rvm: "rupd i f (s\<lparr>rvm := v\<rparr>) = (rupd i f s)\<lparr>rvm := v\<rparr>"
  by (simp add: rupd_def)

text \<open>What \<open>freeproc\<close> leaves in the slot.\<close>

definition cleared :: "rv_proc \<Rightarrow> rv_proc" where
  "cleared p = p\<lparr>r_usyscall := 0, r_trapframe := 0, r_pagetable := 0, r_sz := 0, r_pid := 0, r_parent := None,
     r_name := [], r_chan := NoChan, r_killed := 0, r_xstate := 0, r_state := UNUSED\<rparr>"

context proc_layout
begin

lemma freeproc_spec:
  assumes hm: "has_mem X free ram (rvm s) (rproc s i) a" and i: "i < length (procs s)"
    and fuel: "npages (r_sz (rproc s i)) + 3 \<le> fuel"
  shows "\<exists>v. freeproc fuel X i s = Ret ((rupd i cleared s)\<lparr>rvm := v\<rparr>) \<and>
     free v = free (rvm s) \<union> foot X (rvm s) (rproc s i) a \<and>
     (\<forall>x. pg x \<notin> free (rvm s) \<union> foot X (rvm s) (rproc s i) a \<longrightarrow> mem v x = mem (rvm s) x)"
proof -
  obtain T t u where a: "a = (T, t, u)" by (cases a)
  define p v0 where "p = rproc s i" and "v0 = rvm s"
  have hm: "has_mem X free ram v0 p (T, t, u)" using hm by (simp add: p_def v0_def a)
  note D = has_memD [OF hm]
  define U F G where "U = page_at (r_usyscall p) u" and "F = page_at (r_trapframe p) t" and "G = pt_pages X v0 p T"
  have sub: "U \<subseteq> ram - free v0" "F \<subseteq> ram - free v0" "G \<subseteq> ram - free v0"
    using D(5) by (auto simp: foot_eq U_def F_def G_def)
  have dis: "U \<inter> F = {}" "U \<inter> G = {}" "F \<inter> G = {}" using D(6-8) by (auto simp: U_def F_def G_def)
  obtain v1 where v1: "(if r_usyscall p \<noteq> 0 then kfree (VE X) (r_usyscall p) v0 else Ret v0) = Ret v1"
    "free v1 = free v0 \<union> U" "\<forall>x. pg x \<notin> free v0 \<union> U \<longrightarrow> mem v1 x = mem v0 x"
    using kfree_page [of "r_usyscall p" u v0] D(2) sub(1) by (auto simp: U_def)
  have "F \<subseteq> ram - free v1" using sub dis v1(2) by auto
  then obtain v2 where v2: "(if r_trapframe p \<noteq> 0 then kfree (VE X) (r_trapframe p) v1 else Ret v1) = Ret v2"
    "free v2 = free v1 \<union> F" "\<forall>x. pg x \<notin> free v1 \<union> F \<longrightarrow> mem v2 x = mem v1 x"
    using kfree_page [of "r_trapframe p" t v1] D(1) by (auto simp: F_def)
  have mem2: "mem v2 x = mem v0 x" if "pg x \<notin> free v0 \<union> U \<union> F" for x using that v1(2,3) v2(3) by simp
  have "\<exists>v3. (if r_pagetable p \<noteq> 0 then proc_freepagetable fuel X (r_pagetable p) (r_sz p) v2 else Ret v2) = Ret v3 \<and>
    free v3 = free v2 \<union> G \<and> (\<forall>x. pg x \<notin> free v2 \<union> G \<longrightarrow> mem v3 x = mem v2 x)"
  proof (cases "r_pagetable p = 0")
    case True
    then show ?thesis by (simp add: G_def pt_pages_def)
  next
    case False
    have G: "G = ran T \<union> fr (VE X) v0 T ` {..<npages (r_sz p)}" using False by (simp add: G_def pt_pages_def)
    have out: "k \<notin> free v0 \<union> U \<union> F" if "k \<in> G" for k using that sub(3) dis by auto
    have "proc_space X free ram v2 T (r_sz p) t u" "\<And>va. pte (VE X) (mem v2) T va = pte (VE X) (mem v0) T va"
      using out mem2 v1(2) v2(2) unfolding G by (intro proc_space_frame [OF D(4) [OF False]]; auto)+
    from proc_freepagetable_spec [OF this(1), of fuel] this(2) fuel D(3) [OF False] False show ?thesis
      unfolding G p_def by (simp add: Un_assoc)
  qed
  then obtain v3 where v3: "(if r_pagetable p \<noteq> 0 then proc_freepagetable fuel X (r_pagetable p) (r_sz p) v2 else Ret v2) = Ret v3"
    "free v3 = free v2 \<union> G" "\<forall>x. pg x \<notin> free v2 \<union> G \<longrightarrow> mem v3 x = mem v2 x" by blast
  have "freeproc fuel X i s = Ret ((rupd i cleared s)\<lparr>rvm := v3\<rparr>)"
    using i v1(1) v2(1) v3(1) unfolding freeproc_def Let_def on_vm_when vm_when_def [symmetric]
    by (simp add: on_vm_def rupd_rvm p_def v0_def) (simp add: rupd_def cleared_def upd_nth_def)
  moreover have "free v3 = free v0 \<union> foot X v0 p a" using v1(2) v2(2) v3(2) by (auto simp: a foot_eq U_def F_def G_def)
  moreover have "mem v3 x = mem v0 x" if "pg x \<notin> free v0 \<union> foot X v0 p a" for x
    using that mem2 [of x] v3(3) v1(2) v2(2) by (simp add: a foot_eq U_def F_def G_def)
  ultimately show ?thesis unfolding p_def v0_def by blast
qed

end

section \<open>The invariant of the process table\<close>

text \<open>An unused slot owns nothing, any other slot has its page table, trap frame and pid page.\<close>

definition slot_mem ::
    "('x, 'f, 'w) rv_ext \<Rightarrow> ('w vm \<Rightarrow> nat set) \<Rightarrow> nat set \<Rightarrow> 'w vm \<Rightarrow> rv_proc \<Rightarrow> pages_of \<Rightarrow> bool" where
  "slot_mem X free ram v p a \<longleftrightarrow>
     (if r_state p = UNUSED then r_trapframe p = 0 \<and> r_usyscall p = 0 \<and> r_pagetable p = 0 \<and> r_sz p = 0
      else r_trapframe p \<noteq> 0 \<and> r_usyscall p \<noteq> 0 \<and> r_pagetable p \<noteq> 0 \<and> has_mem X free ram v p a)"

definition mem_ok ::
    "('x, 'f, 'w) rv_ext \<Rightarrow> ('w vm \<Rightarrow> nat set) \<Rightarrow> nat set \<Rightarrow> 'w vm \<Rightarrow> rv_proc list \<Rightarrow> (nat \<Rightarrow> pages_of) \<Rightarrow> bool" where
  "mem_ok X free ram v ps A \<longleftrightarrow>
     (\<forall>i < length ps. slot_mem X free ram v (ps ! i) (A i)) \<and>
     (\<forall>i < length ps. \<forall>j < length ps. i \<noteq> j \<longrightarrow> foot X v (ps ! i) (A i) \<inter> foot X v (ps ! j) (A j) = {})"

text \<open>The pages that the processes own.\<close>

definition owned :: "('x, 'f, 'w) rv_ext \<Rightarrow> 'w vm \<Rightarrow> rv_proc list \<Rightarrow> (nat \<Rightarrow> pages_of) \<Rightarrow> nat set" where
  "owned X v ps A = (\<Union>i < length ps. foot X v (ps ! i) (A i))"

text \<open>
  What an operation on behalf of the process in slot \<open>i\<close> may do: it gives and takes pages between the
  process and the allocator, and writes only to free pages and pages of the process.
\<close>

definition mem_step ::
    "('x, 'f, 'w) rv_ext \<Rightarrow> ('w vm \<Rightarrow> nat set) \<Rightarrow> nat set \<Rightarrow> 'w vm \<Rightarrow> rv_proc \<Rightarrow> pages_of \<Rightarrow> 'w vm \<Rightarrow> rv_proc \<Rightarrow> pages_of \<Rightarrow> bool" where
  "mem_step X free ram v p a v' p' a' \<longleftrightarrow>
     slot_mem X free ram v' p' a' \<and> free v' \<union> foot X v' p' a' = free v \<union> foot X v p a \<and>
     (\<forall>x. pg x \<notin> free v \<union> foot X v p a \<longrightarrow> mem v' x = mem v x)"

lemma tree_foot: "r_pagetable p \<noteq> 0 \<Longrightarrow> ran (fst a) \<subseteq> foot X v p a"
  by (cases a) (auto simp: foot_eq pt_pages_def)

lemma foot_unused: "slot_mem X free ram v p a \<Longrightarrow> r_state p = UNUSED \<Longrightarrow> foot X v p a = {}"
  by (cases a) (simp add: slot_mem_def foot_eq pt_pages_def page_at_def)

lemma foot_owned:
  assumes "slot_mem X free ram v p a"
  shows "foot X v p a \<subseteq> ram - free v"
proof (cases "r_state p = UNUSED")
  case True
  with foot_unused [OF assms] show ?thesis by simp
next
  case False
  with assms show ?thesis by (cases a) (simp add: slot_mem_def has_mem_def)
qed

lemma mem_okD:
  assumes "mem_ok X free ram v ps A" and "i < length ps"
  shows "slot_mem X free ram v (ps ! i) (A i)"
    and "\<And>j. j < length ps \<Longrightarrow> i \<noteq> j \<Longrightarrow> foot X v (ps ! i) (A i) \<inter> foot X v (ps ! j) (A j) = {}"
  using assms unfolding mem_ok_def by blast+

context proc_layout
begin

lemma slot_mem_frame:
  assumes sm: "slot_mem X free ram v p a" and mem: "\<And>x. pg x \<in> foot X v p a \<Longrightarrow> mem v' x = mem v x"
    and fr: "foot X v p a \<inter> free v' = {}"
  shows "slot_mem X free ram v' p a" and "foot X v' p a = foot X v p a"
proof -
  show ft: "foot X v' p a = foot X v p a"
  proof (cases "r_state p = UNUSED")
    case True
    with sm show ?thesis by (cases a) (simp add: slot_mem_def foot_eq pt_pages_def page_at_def)
  next
    case False
    then have "has_mem X free ram v p a" using sm by (simp add: slot_mem_def)
    from has_mem_frame(2) [OF this _ fr] mem tree_foot show ?thesis by blast
  qed
  show "slot_mem X free ram v' p a"
    using sm has_mem_frame(1) [OF _ mem [OF subsetD [OF tree_foot]] fr] by (auto simp: slot_mem_def split: if_splits)
qed

text \<open>Writing to pages that are neither free nor part of the page table.\<close>

lemma slot_write:
  assumes sm: "slot_mem X free ram v p a" and out: "\<And>x. pg x \<notin> W \<Longrightarrow> m x = mem v x"
    and W: "W \<inter> free v = {}" "r_state p \<noteq> UNUSED \<Longrightarrow> W \<inter> ran (fst a) = {}"
  shows "free (v\<lparr>mem := m\<rparr>) = free v" and "slot_mem X free ram (v\<lparr>mem := m\<rparr>) p a"
    and "foot X (v\<lparr>mem := m\<rparr>) p a = foot X v p a"
proof -
  have "m x = mem v x" if "pg x \<in> free v" for x using that W(1) by (intro out) auto
  then show fr: "free (v\<lparr>mem := m\<rparr>) = free v" by (rule free_other)
  have dis: "foot X v p a \<inter> free (v\<lparr>mem := m\<rparr>) = {}" using foot_owned [OF sm] fr by auto
  have mm: "mem (v\<lparr>mem := m\<rparr>) x = mem v x" if "r_state p \<noteq> UNUSED" "pg x \<in> ran (fst a)" for x
    using W(2) [OF that(1)] that(2) by (auto intro: out)
  have "slot_mem X free ram (v\<lparr>mem := m\<rparr>) p a \<and> foot X (v\<lparr>mem := m\<rparr>) p a = foot X v p a"
  proof (cases "r_state p = UNUSED")
    case True
    with sm show ?thesis by (cases a) (simp add: slot_mem_def foot_eq pt_pages_def page_at_def)
  next
    case False
    then have hm: "has_mem X free ram v p a" using sm by (simp add: slot_mem_def)
    note f = has_mem_frame [OF hm mm [OF False] dis]
    show ?thesis using False sm f(1) f(2) unfolding slot_mem_def by metis
  qed
  then show "slot_mem X free ram (v\<lparr>mem := m\<rparr>) p a" and "foot X (v\<lparr>mem := m\<rparr>) p a = foot X v p a" by blast+
qed

lemma write_step:
  assumes "slot_mem X free ram v p a" and "\<And>x. pg x \<notin> W \<Longrightarrow> m x = mem v x"
    and "r_state p \<noteq> UNUSED \<Longrightarrow> W \<inter> ran (fst a) = {}" and "W \<subseteq> foot X v p a"
  shows "mem_step X free ram v p a (v\<lparr>mem := m\<rparr>) p a"
proof -
  have "W \<inter> free v = {}" using foot_owned [OF assms(1)] assms(4) by auto
  note w = slot_write [OF assms(1,2) this assms(3)]
  have "m x = mem v x" if "pg x \<notin> foot X v p a" for x using that assms(4) by (intro assms(2)) auto
  with w show ?thesis by (simp add: mem_step_def)
qed

text \<open>Writing to memory that the page allocator does not manage.\<close>

lemma mem_ok_outside:
  assumes ok: "mem_ok X free ram v ps A" and out: "\<And>x. pg x \<in> ram \<Longrightarrow> m x = mem v x"
  shows "mem_ok X free ram (v\<lparr>mem := m\<rparr>) ps A" and "owned X (v\<lparr>mem := m\<rparr>) ps A = owned X v ps A" and "free (v\<lparr>mem := m\<rparr>) = free v"
    and "\<And>i. i < length ps \<Longrightarrow> foot X (v\<lparr>mem := m\<rparr>) (ps ! i) (A i) = foot X v (ps ! i) (A i)"
proof -
  have "m x = mem v x" if "pg x \<in> free v" for x using that free_ram by (intro out) auto
  then show fr: "free (v\<lparr>mem := m\<rparr>) = free v" by (rule free_other)
  have s: "slot_mem X free ram (v\<lparr>mem := m\<rparr>) (ps ! i) (A i)" "foot X (v\<lparr>mem := m\<rparr>) (ps ! i) (A i) = foot X v (ps ! i) (A i)"
    if "i < length ps" for i
    using foot_owned [OF mem_okD(1) [OF ok that]] out fr
    by (intro slot_mem_frame [OF mem_okD(1) [OF ok that]]; auto)+
  then show "\<And>i. i < length ps \<Longrightarrow> foot X (v\<lparr>mem := m\<rparr>) (ps ! i) (A i) = foot X v (ps ! i) (A i)" by blast
  from s ok show "mem_ok X free ram (v\<lparr>mem := m\<rparr>) ps A" "owned X (v\<lparr>mem := m\<rparr>) ps A = owned X v ps A"
    by (simp_all add: mem_ok_def owned_def)
qed

text \<open>Such an operation keeps the invariant, and no page is lost.\<close>

lemma mem_ok_step:
  assumes ok: "mem_ok X free ram v ps A" and i: "i < length ps"
    and st: "mem_step X free ram v (ps ! i) (A i) v' p' a'"
  shows "mem_ok X free ram v' (ps[i := p']) (A(i := a'))"
    and "free v' \<union> owned X v' (ps[i := p']) (A(i := a')) = free v \<union> owned X v ps A"
    and "\<And>j. j < length ps \<Longrightarrow> j \<noteq> i \<Longrightarrow> foot X v' (ps ! j) (A j) = foot X v (ps ! j) (A j)"
    and "\<And>j x. j < length ps \<Longrightarrow> j \<noteq> i \<Longrightarrow> pg x \<in> foot X v (ps ! j) (A j) \<Longrightarrow> mem v' x = mem v x"
proof -
  have new: "slot_mem X free ram v' p' a'" "free v' \<union> foot X v' p' a' = free v \<union> foot X v (ps ! i) (A i)"
    and mem: "\<And>x. pg x \<notin> free v \<union> foot X v (ps ! i) (A i) \<Longrightarrow> mem v' x = mem v x"
    using st by (auto simp: mem_step_def)
  have out: "foot X v (ps ! j) (A j) \<inter> (free v \<union> foot X v (ps ! i) (A i)) = {}" if "j < length ps" "j \<noteq> i" for j
    using foot_owned [OF mem_okD(1) [OF ok that(1)]] mem_okD(2) [OF ok that(1) i that(2)] by blast
  show keep: "mem v' x = mem v x" if "j < length ps" "j \<noteq> i" "pg x \<in> foot X v (ps ! j) (A j)" for j x
    using out [OF that(1,2)] that(3) by (intro mem) blast
  have "foot X v (ps ! j) (A j) \<inter> free v' = {}" if "j < length ps" "j \<noteq> i" for j
    using out [OF that] new(2) by blast
  note fr = slot_mem_frame [OF mem_okD(1) [OF ok] keep this]
  show ft: "foot X v' (ps ! j) (A j) = foot X v (ps ! j) (A j)" if "j < length ps" "j \<noteq> i" for j
    using that by (intro fr(2))
  have new_out: "foot X v (ps ! j) (A j) \<inter> foot X v' p' a' = {}" if "j < length ps" "j \<noteq> i" for j
    using out [OF that] new(2) by blast
  show "mem_ok X free ram v' (ps[i := p']) (A(i := a'))"
    unfolding mem_ok_def
  proof (intro conjI allI impI)
    fix j assume j: "j < length (ps[i := p'])"
    show "slot_mem X free ram v' (ps[i := p'] ! j) ((A(i := a')) j)"
      using j new(1) fr(1) by (auto simp: nth_list_update)
    fix k assume "k < length (ps[i := p'])" "j \<noteq> k"
    then show "foot X v' (ps[i := p'] ! j) ((A(i := a')) j) \<inter> foot X v' (ps[i := p'] ! k) ((A(i := a')) k) = {}"
      using j new_out [of j] new_out [of k] mem_okD(2) [OF ok, of j k] i
      by (cases "j = i"; cases "k = i") (auto simp: ft)
  qed
  have "owned X v' (ps[i := p']) (A(i := a')) = foot X v' p' a' \<union> (\<Union>j \<in> {..<length ps} - {i}. foot X v (ps ! j) (A j))"
    using i by (auto simp: owned_def ft nth_list_update split: if_splits)
  moreover have "owned X v ps A = foot X v (ps ! i) (A i) \<union> (\<Union>j \<in> {..<length ps} - {i}. foot X v (ps ! j) (A j))"
    using i by (auto simp: owned_def)
  ultimately show "free v' \<union> owned X v' (ps[i := p']) (A(i := a')) = free v \<union> owned X v ps A"
    using new(2) by auto
qed

end

text \<open>Everybody but \<open>i\<close> keeps slot, pages and their contents.\<close>

definition others_kept ::
    "('x, 'f, 'w) rv_ext \<Rightarrow> (nat \<Rightarrow> pages_of) \<Rightarrow> nat \<Rightarrow> 'w vm \<Rightarrow> rv_proc list \<Rightarrow> 'w vm \<Rightarrow> rv_proc list \<Rightarrow> bool" where
  "others_kept X A i v ps v' ps' \<longleftrightarrow> length ps' = length ps \<and>
     (\<forall>j < length ps. j \<noteq> i \<longrightarrow> ps' ! j = ps ! j \<and> foot X v' (ps ! j) (A j) = foot X v (ps ! j) (A j) \<and>
        (\<forall>x. pg x \<in> foot X v (ps ! j) (A j) \<longrightarrow> mem v' x = mem v x))"

text \<open>
  The memory contract of an operation on slot \<open>i\<close>: afterwards each process again owns its pages alone, the
  others have theirs unchanged, and every page is free or owned that was so before.
\<close>

definition mem_safe ::
    "('x, 'f, 'w) rv_ext \<Rightarrow> ('w vm \<Rightarrow> nat set) \<Rightarrow> nat set \<Rightarrow> nat \<Rightarrow> 'w vm \<Rightarrow> rv_proc list \<Rightarrow> (nat \<Rightarrow> pages_of) \<Rightarrow>
     'w vm \<Rightarrow> rv_proc list \<Rightarrow> (nat \<Rightarrow> pages_of) \<Rightarrow> bool" where
  "mem_safe X free ram i v ps A v' ps' A' \<longleftrightarrow>
     mem_ok X free ram v' ps' A' \<and> (\<forall>j. j \<noteq> i \<longrightarrow> A' j = A j) \<and> others_kept X A i v ps v' ps' \<and>
     free v' \<union> owned X v' ps' A' = free v \<union> owned X v ps A"

context proc_layout
begin

lemma mem_step_safe:
  assumes "mem_ok X free ram v ps A" and "i < length ps" and "mem_step X free ram v (ps ! i) (A i) v' p' a'"
  shows "mem_safe X free ram i v ps A v' (ps[i := p']) (A(i := a'))"
  using mem_ok_step [OF assms] by (auto simp: mem_safe_def others_kept_def)

lemma freeproc_safe:
  assumes ok: "mem_ok X free ram (rvm s) (procs s) A" and i: "i < length (procs s)" "r_state (rproc s i) \<noteq> UNUSED"
    and fuel: "npages (r_sz (rproc s i)) + 3 \<le> fuel"
  shows "\<exists>v. freeproc fuel X i s = Ret ((rupd i cleared s)\<lparr>rvm := v\<rparr>) \<and>
     mem_safe X free ram i (rvm s) (procs s) A v (procs (rupd i cleared s)) A \<and>
     free v = free (rvm s) \<union> foot X (rvm s) (rproc s i) (A i)"
proof -
  note sm = mem_okD(1) [OF ok i(1)]
  then have "has_mem X free ram (rvm s) (rproc s i) (A i)" using i(2) by (simp add: slot_mem_def)
  from freeproc_spec [OF this i(1) fuel] obtain v where
    v: "freeproc fuel X i s = Ret ((rupd i cleared s)\<lparr>rvm := v\<rparr>)" "free v = free (rvm s) \<union> foot X (rvm s) (rproc s i) (A i)"
      "\<forall>x. pg x \<notin> free (rvm s) \<union> foot X (rvm s) (rproc s i) (A i) \<longrightarrow> mem v x = mem (rvm s) x" by blast
  have c: "slot_mem X free ram v (cleared (rproc s i)) (A i)" by (simp add: slot_mem_def cleared_def)
  from foot_unused [OF c] have "mem_step X free ram (rvm s) (rproc s i) (A i) v (cleared (rproc s i)) (A i)"
    using v(2,3) c by (simp add: mem_step_def cleared_def)
  from mem_step_safe [OF ok i(1) this] v show ?thesis by (auto simp: upd_nth_def)
qed

lemma mem_safe_refl: "mem_ok X free ram v ps A \<Longrightarrow> mem_safe X free ram i v ps A v ps A"
  by (simp add: mem_safe_def others_kept_def)

end

section \<open>Changes of a slot that do not touch memory\<close>

definition same_mem :: "rv_proc \<Rightarrow> rv_proc \<Rightarrow> bool" where
  "same_mem p q \<longleftrightarrow> (r_state q = UNUSED \<longleftrightarrow> r_state p = UNUSED) \<and> r_trapframe q = r_trapframe p \<and>
     r_usyscall q = r_usyscall p \<and> r_pagetable q = r_pagetable p \<and> r_sz q = r_sz p"

lemma same_mem_foot: "same_mem p q \<Longrightarrow> foot X v q a = foot X v p a"
  by (cases a) (simp add: same_mem_def foot_eq pt_pages_def)

lemma same_mem_slot: "same_mem p q \<Longrightarrow> slot_mem X free ram v q a = slot_mem X free ram v p a"
  using same_mem_foot [of p q X v a] by (cases a) (simp add: same_mem_def slot_mem_def has_mem_def pt_pages_def)

lemma same_mem_ok:
  assumes "mem_ok X free ram v ps A" and "length qs = length ps" and "\<And>i. i < length ps \<Longrightarrow> same_mem (ps ! i) (qs ! i)"
  shows "mem_ok X free ram v qs A" and "owned X v qs A = owned X v ps A"
proof -
  have "foot X v (qs ! i) (A i) = foot X v (ps ! i) (A i)" "slot_mem X free ram v (qs ! i) (A i) = slot_mem X free ram v (ps ! i) (A i)"
    if "i < length ps" for i
    using assms(3) [OF that] by (rule same_mem_foot, rule same_mem_slot)
  with assms(1,2) show "mem_ok X free ram v qs A" "owned X v qs A = owned X v ps A" by (simp_all add: mem_ok_def owned_def)
qed

lemma mem_step_same: "slot_mem X free ram v p a \<Longrightarrow> same_mem p q \<Longrightarrow> mem_step X free ram v p a v q a"
  by (simp add: mem_step_def same_mem_slot same_mem_foot)

lemma mem_step_trans:
  assumes "mem_step X free ram v p a v1 p1 a1" and "mem_step X free ram v1 p1 a1 v2 p2 a2"
  shows "mem_step X free ram v p a v2 p2 a2"
  using assms by (simp add: mem_step_def)

end
