(* ===== verification/Rv_Alloc.thy ===== *)
theory Rv_Alloc
  imports Rv_Mem
begin

text \<open>
  Allocating a process: \<open>allocproc\<close> either gives a slot its pages, or gives back what it had taken.
\<close>

locale rv_kernel = rv_lock_laws X + proc_layout X free ram
  for X :: "('x, 'f, 'w) rv_ext" and free :: "'w vm \<Rightarrow> nat set" and ram :: "nat set"
begin

lemma kalloc_cases:
  obtains "kalloc (VE X) v = (0, v)" and "free v = {}"
  | k v' where "kalloc (VE X) v = (adr k 0, v')" and "adr k 0 \<noteq> 0" and "k \<in> free v" and "k \<in> ram" and "frame k"
      and "free v' = free v - {k}" and "\<And>x. pg x \<notin> free v \<Longrightarrow> mem v' x = mem v x"
proof (cases "free v = {}")
  case True
  then show ?thesis using kalloc_empty that(1) by blast
next
  case False
  from kalloc_law [OF this] obtain k v' where k: "kalloc (VE X) v = (adr k 0, v')" "k \<in> free v" "free v' = free v - {k}"
    "\<forall>x. pg x \<notin> free v \<longrightarrow> mem v' x = mem v x" by blast
  have "k \<in> ram" using k(2) free_ram by blast
  then show ?thesis using that(2) [OF k(1)] k free_frame adr_nonzero [of k 0] by simp
qed

text \<open>The error exit: what the slot has been given goes back.\<close>

lemma give_up:
  assumes i: "i < length ps" and s1: "procs s1 = ps[i := q]" and q: "r_sz q = 0"
    and hm: "has_mem X free ram (rvm s1) q a" and fr: "free (rvm s1) \<union> foot X (rvm s1) q a = free v"
    and mem: "\<And>x. pg x \<notin> free v \<Longrightarrow> mem (rvm s1) x = mem v x"
    and view: "rv_view X (rmach s1) c (Suc n) (insert (ProcLock i) H) P" and H: "ProcLock i \<notin> H" and fuel: "3 \<le> fuel"
  shows "\<exists>m v'. obind (freeproc fuel X i s1) (\<lambda>s. obind (on_rm (release X (ProcLock i)) s) (\<lambda>s. Ret (z, s))) =
       Ret (z, s1\<lparr>procs := ps[i := cleared q], rmach := m, rvm := v'\<rparr>) \<and>
     rv_view X m c n H P \<and> free v' = free v \<and> (\<forall>x. pg x \<notin> free v \<longrightarrow> mem v' x = mem v x)"
proof -
  have qi: "rproc s1 i = q" "i < length (procs s1)" using i s1 by simp_all
  have "npages (r_sz (rproc s1 i)) + 3 \<le> fuel" using fuel qi(1) q by (simp add: npages_def)
  from freeproc_spec [of s1 i a, OF _ qi(2) this] hm obtain v' where
    v': "freeproc fuel X i s1 = Ret ((rupd i cleared s1)\<lparr>rvm := v'\<rparr>)" "free v' = free v"
      "\<forall>x. pg x \<notin> free v \<longrightarrow> mem v' x = mem (rvm s1) x" by (auto simp: qi(1) fr)
  have ps: "upd_nth i cleared (procs s1) = ps[i := cleared q]" using i s1 by (simp add: upd_nth_def)
  from release_view [of "(rupd i cleared s1)\<lparr>rvm := v'\<rparr>" c n "insert (ProcLock i) H" P "ProcLock i"] view H obtain m where
    "on_rm (release X (ProcLock i)) ((rupd i cleared s1)\<lparr>rvm := v'\<rparr>) = Ret ((rupd i cleared s1)\<lparr>rvm := v', rmach := m\<rparr>)"
    "rv_view X m c n H P" by (auto simp: insert_absorb)
  with v' mem ps show ?thesis by (intro exI [of _ m] exI [of _ v']) (simp add: rupd_def)
qed

end

text \<open>The bytes of an \<open>int\<close>.\<close>

lemma wr32_outside:
  assumes "frame k" and "pg x \<noteq> k"
  shows "mem (rvm (wr32 (adr k 0) w s)) x = mem (rvm s) x"
proof -
  have "\<not> unat (x - adr k 0) < 4"
  proof
    assume "unat (x - adr k 0) < 4"
    moreover have "x = adr k (unat (x - adr k 0))" by (metis adr_add_word add.commute diff_add_cancel add_0)
    ultimately have "pg x = k" using pg_adr [OF assms(1), of "unat (x - adr k 0)"] by simp
    with assms(2) show False by simp
  qed
  then show ?thesis by (simp add: wr32_def)
qed

text \<open>The page at \<open>u\<close> starts with the pid, which is what user space reads.\<close>

definition pid_page :: "bytes \<Rightarrow> nat \<Rightarrow> i32 \<Rightarrow> bool" where
  "pid_page m u pid \<longleftrightarrow> (\<forall>k < 4. m (adr u k) = ucast (drop_bit (8 * k) pid))"

lemma pid_page_wr32: "frame u \<Longrightarrow> pid_page (mem (rvm (wr32 (adr u 0) pid s))) u pid"
  using adr_diff by (auto simp: pid_page_def wr32_def adr_def unat_of_nat)

text \<open>The slot as \<open>allocproc\<close> leaves it.\<close>

definition alloced :: "('x, 'f, 'w) rv_ext \<Rightarrow> i32 \<Rightarrow> pages_of \<Rightarrow> rv_proc \<Rightarrow> rv_proc" where
  "alloced X pid a p = (case a of (T, t, u) \<Rightarrow>
     p\<lparr>r_pid := pid, r_state := USED, r_trapframe := adr t 0, r_usyscall := adr u 0, r_pagetable := root T,
       r_context := \<lparr>ctx_ra = forkret_addr X, ctx_sp = r_kstack p + PGSIZE (VE X), ctx_s = replicate 12 0\<rparr>\<rparr>)"

lemma call_vm_Ret: "f (rvm s) = Ret (r, v) \<Longrightarrow> call_vm f s = Ret (r, s\<lparr>rvm := v\<rparr>)"
  by (simp add: call_vm_def)

context rv_kernel
begin

lemma free_wr32:
  assumes "frame k" and "k \<notin> free (rvm s)"
  shows "free (rvm (wr32 (adr k 0) w s)) = free (rvm s)"
proof -
  have "mem (rvm (wr32 (adr k 0) w s)) x = mem (rvm s) x" if "pg x \<in> free (rvm s)" for x
    using that assms by (intro wr32_outside) auto
  then show ?thesis by (simp add: wr32_def free_other)
qed

text \<open>A slot whose trap frame and pid page are there and whose page table is not.\<close>

lemma has_mem_pages:
  assumes "r_pagetable q = 0" and "r_trapframe q = 0 \<or> r_trapframe q = adr t 0" and "r_usyscall q = 0 \<or> r_usyscall q = adr u 0"
    and "page_at (r_trapframe q) t \<union> page_at (r_usyscall q) u \<subseteq> ram - free v" and "t \<noteq> u"
  shows "has_mem X free ram v q (T, t, u)"
  using assms by (auto simp: has_mem_def foot_eq pt_pages_def page_at_def)

text \<open>The part of \<open>allocproc\<close> that builds the page table, from the slot with its two pages on.\<close>

lemma alloc_table:
  assumes v: "t \<in> ram - free v" "u \<in> ram - free v" "t \<noteq> u" and fuel: "3 \<le> fuel" and p: "r_sz p = 0"
  shows "\<exists>r v'. proc_pagetable fuel X (adr t 0) (adr u 0) v = Ret (r, v') \<and>
    (\<forall>x. pg x \<notin> free v \<longrightarrow> mem v' x = mem v x) \<and> (3 \<le> card (free v) \<longrightarrow> r \<noteq> 0) \<and>
    (r \<noteq> 0 \<longrightarrow> card (free v) \<le> card (free v') + 3) \<and>
    (r = 0 \<and> free v' = free v \<or>
     r \<noteq> 0 \<and> (\<exists>T. r = root T \<and> free v' \<union> foot X v' (alloced X pid (T, t, u) p) (T, t, u) = free v \<union> {t, u} \<and>
       has_mem X free ram v' (alloced X pid (T, t, u) p) (T, t, u)))"
proof -
  have nz: "adr t 0 \<noteq> 0" "adr u 0 \<noteq> 0" using adr_nonzero [of t 0] adr_nonzero [of u 0] v free_frame by auto
  have full: "free v' \<union> foot X v' (alloced X pid (T, t, u) p) (T, t, u) = free v \<union> {t, u} \<and>
      has_mem X free ram v' (alloced X pid (T, t, u) p) (T, t, u)"
    if T: "root T \<noteq> 0" "proc_space X free ram v' T 0 t u" "ran T \<subseteq> free v" "free v' = free v - ran T" for T v'
  proof -
    let ?q = "alloced X pid (T, t, u) p"
    have q: "r_pagetable ?q = root T" "r_trapframe ?q = adr t 0" "r_usyscall ?q = adr u 0" "r_sz ?q = 0"
      by (simp_all add: alloced_def p)
    have pt: "pt_pages X v' ?q T = ran T" using q T(1) by (simp add: pt_pages_def npages_def)
    have ft: "foot X v' ?q (T, t, u) = ran T \<union> {t, u}" using q nz pt by (auto simp: foot_eq page_at_def)
    moreover have "ran T \<subseteq> ram" using T(3) free_ram by blast
    ultimately have "has_mem X free ram v' ?q (T, t, u)"
      using T q nz pt v by (auto simp: has_mem_def page_at_def)
    with ft T show ?thesis by auto
  qed
  from proc_pagetable_spec [OF v(1,2) fuel] full show ?thesis by metis
qed

end

text \<open>The state while a process is being allocated: slot, machine and memory.\<close>

definition alloc_st ::
    "('x, 'f, 'w) rv_st \<Rightarrow> nat \<Rightarrow> 'x rv_mach \<Rightarrow> rv_proc \<Rightarrow> 'w vm \<Rightarrow> ('x, 'f, 'w) rv_st" where
  "alloc_st s i m q v = s\<lparr>procs := (procs s)[i := q], rv_nextpid := rv_nextpid s + 1, rmach := m, rvm := v\<rparr>"

lemma alloc_st_simps [simp]:
  "procs (alloc_st s i m q v) = (procs s)[i := q]" "rmach (alloc_st s i m q v) = m" "rvm (alloc_st s i m q v) = v"
  by (simp_all add: alloc_st_def)

lemma alloc_st_upd:
  "(alloc_st s i m q v)\<lparr>procs := (procs s)[i := q'], rmach := m', rvm := v'\<rparr> = alloc_st s i m' q' v'"
  "(alloc_st s i m q v)\<lparr>rvm := v'\<rparr> = alloc_st s i m q v'"
  "i < length (procs s) \<Longrightarrow> rupd i f (alloc_st s i m q v) = alloc_st s i m (f q) v"
  "i < length (procs s) \<Longrightarrow> rupd i f ((alloc_st s i m q v)\<lparr>files := w\<rparr>) = (alloc_st s i m (f q) v)\<lparr>files := w\<rparr>"
  "alloc_st (s\<lparr>rmach := m'\<rparr>) i m q v = alloc_st s i m q v"
  by (cases s; simp add: alloc_st_def rupd_def upd_nth_def)+

text \<open>
  What \<open>allocproc\<close> does with the unused slot \<open>i\<close> (pages \<open>a0\<close>): out of memory it returns null and leaves the
  slot cleared, otherwise it returns the slot with its pages, and its lock is held.
\<close>

definition alloc_result ::
    "('x, 'f, 'w) rv_ext \<Rightarrow> ('w vm \<Rightarrow> nat set) \<Rightarrow> nat set \<Rightarrow> ('x, 'f, 'w) rv_st \<Rightarrow> nat \<Rightarrow> pages_of \<Rightarrow> nat \<Rightarrow> nat \<Rightarrow>
     rv_lock set \<Rightarrow> nat option list \<Rightarrow> (nat option \<times> ('x, 'f, 'w) rv_st) outcome \<Rightarrow> bool" where
  "alloc_result X free ram s i a0 c n H P z \<longleftrightarrow>
     (\<exists>r p' a m v. z = Ret (r, alloc_st s i m p' v) \<and>
        mem_step X free ram (rvm s) (rproc s i) a0 v p' a \<and> (5 \<le> card (free (rvm s)) \<longrightarrow> r \<noteq> None) \<and>
        (r \<noteq> None \<longrightarrow> card (free (rvm s)) \<le> card (free v) + 5) \<and>
        (r = None \<and> p' = cleared (rproc s i) \<and> rv_view X m c n H P \<or>
         r = Some i \<and> p' = alloced X (rv_nextpid s) a (rproc s i) \<and> pid_page (mem v) (snd (snd a)) (rv_nextpid s) \<and>
           rv_view X m c (Suc n) (insert (ProcLock i) H) P))"

context rv_kernel
begin

lemma alloc_failed:
  assumes ii: "i < length (procs s)" and f0: "foot X (rvm s) (rproc s i) a0 = {}"
    and m: "rv_view X m c (Suc n) (insert (ProcLock i) H) P" and H: "ProcLock i \<notin> H" and fuel: "3 \<le> fuel"
    and q: "cleared q = cleared (rproc s i)" "r_sz q = 0" "has_mem X free ram v q a"
    and v: "free v \<union> foot X v q a = free (rvm s)" "\<And>x. pg x \<notin> free (rvm s) \<Longrightarrow> mem v x = mem (rvm s) x"
      "card (free (rvm s)) < 5"
  shows "alloc_result X free ram s i a0 c n H P
    (obind (freeproc fuel X i (alloc_st s i m q v)) (\<lambda>s. obind (on_rm (release X (ProcLock i)) s) (\<lambda>s. Ret (None, s))))"
proof -
  let ?z = "obind (freeproc fuel X i (alloc_st s i m q v)) (\<lambda>s. obind (on_rm (release X (ProcLock i)) s) (\<lambda>s. Ret (None :: nat option, s)))"
  obtain m' v' where *: "?z = Ret (None, alloc_st s i m' (cleared (rproc s i)) v')"
    "rv_view X m' c n H P" "free v' = free (rvm s)" "\<forall>x. pg x \<notin> free (rvm s) \<longrightarrow> mem v' x = mem (rvm s) x"
    using give_up [of i "procs s" "alloc_st s i m q v" q a "rvm s" c n H P fuel "None :: nat option"] assms by (auto simp: alloc_st_upd)
  have "slot_mem X free ram v' (cleared (rproc s i)) a" "foot X v' (cleared (rproc s i)) a = {}"
    by (cases a; simp add: slot_mem_def cleared_def foot_eq pt_pages_def page_at_def)+
  with * f0 v(3) show ?thesis unfolding alloc_result_def
    by (intro exI [of _ None] exI [of _ "cleared (rproc s i)"] exI [of _ a] exI [of _ m'] exI [of _ v']) (simp add: mem_step_def)
qed

text \<open>From the slot with its two pages, the pid written, to the end.\<close>

lemma alloc_last:
  assumes ii: "i < length (procs s)" and f0: "foot X (rvm s) (rproc s i) a0 = {}" and sz: "r_sz (rproc s i) = 0"
    and m: "rv_view X m c (Suc n) (insert (ProcLock i) H) P" and H: "ProcLock i \<notin> H" and fuel: "3 \<le> fuel"
    and tu: "t \<in> ram - free v" "u \<in> ram - free v" "t \<noteq> u" and v: "free v \<union> {t, u} = free (rvm s)"
      "\<And>x. pg x \<notin> free (rvm s) \<Longrightarrow> mem v x = mem (rvm s) x" and pid: "pid_page (mem v) u (rv_nextpid s)"
    and q: "q = (rproc s i)\<lparr>r_pid := rv_nextpid s, r_state := USED, r_trapframe := adr t 0, r_usyscall := adr u 0\<rparr>"
  shows "alloc_result X free ram s i a0 c n H P
    (obind (call_vm (proc_pagetable fuel X (adr t 0) (adr u 0)) (alloc_st s i m q v)) (\<lambda>(pt, s).
       let s = rupd i (\<lambda>p. p\<lparr>r_pagetable := pt\<rparr>) s in
       if pt = 0 then obind (freeproc fuel X i s) (\<lambda>s. obind (on_rm (release X (ProcLock i)) s) (\<lambda>s. Ret (None, s)))
       else Ret (Some i, rupd i (\<lambda>p. p\<lparr>r_context :=
               \<lparr>ctx_ra = forkret_addr X, ctx_sp = r_kstack p + PGSIZE (VE X), ctx_s = replicate 12 0\<rparr>\<rparr>) s)))"
    (is "alloc_result X free ram s i a0 c n H P ?z")
proof -
  from alloc_table [OF tu fuel sz, of "rv_nextpid s"] obtain r v' where
    r: "proc_pagetable fuel X (adr t 0) (adr u 0) v = Ret (r, v')" "\<forall>x. pg x \<notin> free v \<longrightarrow> mem v' x = mem v x"
      "3 \<le> card (free v) \<longrightarrow> r \<noteq> 0" "r \<noteq> 0 \<longrightarrow> card (free v) \<le> card (free v') + 3"
    and d: "r = 0 \<and> free v' = free v \<or>
     r \<noteq> 0 \<and> (\<exists>T. r = root T \<and> free v' \<union> foot X v' (alloced X (rv_nextpid s) (T, t, u) (rproc s i)) (T, t, u) = free v \<union> {t, u} \<and>
       has_mem X free ram v' (alloced X (rv_nextpid s) (T, t, u) (rproc s i)) (T, t, u))" by blast
  have call: "call_vm (proc_pagetable fuel X (adr t 0) (adr u 0)) (alloc_st s i m q v) = Ret (r, alloc_st s i m q v')"
    using r(1) by (simp add: call_vm_def alloc_st_upd(2))
  have mem: "mem v' x = mem (rvm s) x" if "pg x \<notin> free (rvm s)" for x using that r(2) v by auto
  show ?thesis
  proof (cases "r = 0")
    case True
    have fr: "free v' = free v" using d True by simp
    let ?q = "q\<lparr>r_pagetable := 0\<rparr>"
    have "card (free v) < 3" using r(3) True by auto
    then have card: "card (free (rvm s)) < 5"
      using card_insert_le_m1 [of 1 "free v"] card_Un_le [of "free v" "{t, u}"] tu(3) by (simp add: v(1) [symmetric])
    have nz: "adr t 0 \<noteq> 0" "adr u 0 \<noteq> 0" using adr_nonzero [of t 0] adr_nonzero [of u 0] tu free_frame by auto
    have "has_mem X free ram v' ?q (T, t, u)" for T
      using tu fr nz by (intro has_mem_pages) (auto simp: q page_at_def)
    moreover have "free v' \<union> foot X v' ?q (T, t, u) = free (rvm s)" for T
      using v(1) fr nz by (auto simp: foot_eq pt_pages_def page_at_def q)
    moreover have "cleared ?q = cleared (rproc s i)" "r_sz ?q = 0" using sz by (simp_all add: q cleared_def)
    ultimately have "alloc_result X free ram s i a0 c n H P (obind (freeproc fuel X i (alloc_st s i m ?q v'))
        (\<lambda>s. obind (on_rm (release X (ProcLock i)) s) (\<lambda>s. Ret (None, s))))"
      using mem card by (intro alloc_failed [OF ii f0 m H fuel]) auto
    then show ?thesis using True call ii by (simp add: Let_def alloc_st_upd(3))
  next
    case False
    with d obtain T where T: "r = root T" "free v' \<union> foot X v' (alloced X (rv_nextpid s) (T, t, u) (rproc s i)) (T, t, u) = free v \<union> {t, u}"
      "has_mem X free ram v' (alloced X (rv_nextpid s) (T, t, u) (rproc s i)) (T, t, u)" by blast
    let ?p = "alloced X (rv_nextpid s) (T, t, u) (rproc s i)"
    have z: "?z = Ret (Some i, alloc_st s i m ?p v')"
      using False call ii T(1) by (simp add: Let_def alloc_st_upd(3)) (simp add: alloced_def q)
    have "mem v' (adr u k) = mem v (adr u k)" if "k < 4" for k
      using r(2) tu(2) that pg_adr [of u k] free_frame by auto
    then have "pid_page (mem v') u (rv_nextpid s)" using pid by (simp add: pid_page_def)
    moreover have "slot_mem X free ram v' ?p (T, t, u)"
      using T(1,3) False adr_nonzero [of t 0] adr_nonzero [of u 0] tu free_frame by (auto simp: slot_mem_def alloced_def)
    moreover have "card (free (rvm s)) \<le> card (free v') + 5"
      using r(4) False card_Un_le [of "free v" "{t, u}"] tu(3) by (simp add: v(1) [symmetric])
    ultimately show ?thesis
      unfolding alloc_result_def z using f0 T(2) v(1) m mem
      by (intro exI [of _ "Some i"] exI [of _ ?p] exI [of _ "(T, t, u)"] exI [of _ m] exI [of _ v']) (simp add: mem_step_def)
  qed
qed

end

context rv_kernel
begin

lemma allocproc_spec:
  assumes view: "rv_view X (rmach s) c n H P" and H: "no_proc_lock H" "PidLock \<notin> H" and n: "Suc n < max_noff"
    and i: "find (\<lambda>i. r_state (rproc s i) = UNUSED) [0..<length (procs s)] = Some i"
    and sm: "slot_mem X free ram (rvm s) (rproc s i) a0" and fuel: "3 \<le> fuel"
  shows "alloc_result X free ram s i a0 c n H P (rv_allocproc fuel X s)"
proof -
  define p v0 where "p = rproc s i" and "v0 = rvm s"
  have ii: "i < length (procs s)" and un: "r_state p = UNUSED" using i by (auto simp: p_def find_Some_iff)
  have z: "r_trapframe p = 0" "r_usyscall p = 0" "r_pagetable p = 0" "r_sz p = 0"
    using sm un by (simp_all add: slot_mem_def p_def)
  have f0: "foot X (rvm s) (rproc s i) a0 = {}" using foot_unused [OF sm] un by (simp add: p_def)
  have Hi: "ProcLock i \<notin> H" using H(1) by (simp add: no_proc_lock_def)
  from alloc_scan_spec [OF view H(1), of "[0..<length (procs s)]"] n i obtain m0 where
    m0: "alloc_scan X [0..<length (procs s)] s = Ret (Some i, s\<lparr>rmach := m0\<rparr>)" "rv_view X m0 c (Suc n) (insert (ProcLock i) H) P"
    by auto
  from allocpid_view [of "s\<lparr>rmach := m0\<rparr>" c "Suc n" "insert (ProcLock i) H" P] m0(2) H(2) n obtain m where
    m: "allocpid X (s\<lparr>rmach := m0\<rparr>) = Ret (rv_nextpid s, s\<lparr>rv_nextpid := rv_nextpid s + 1, rmach := m\<rparr>)"
      "rv_view X m c (Suc n) (insert (ProcLock i) H) P" by auto
  define q1 where "q1 = p\<lparr>r_pid := rv_nextpid s, r_state := USED\<rparr>"
  have st1: "rupd i (\<lambda>p. p\<lparr>r_pid := rv_nextpid s, r_state := USED\<rparr>) (s\<lparr>rv_nextpid := rv_nextpid s + 1, rmach := m\<rparr>) =
      alloc_st s i m q1 v0"
    by (cases s) (simp add: alloc_st_def rupd_def upd_nth_def q1_def p_def v0_def)
  note run = rv_allocproc_def m0(1) m(1) st1 alloc_kalloc_def alloc_st_upd(2) alloc_st_upd(3) [OF ii] Let_def v0_def [symmetric]
  note fail = alloc_failed [OF ii f0 m(2) Hi fuel]
  show ?thesis
  proof (cases rule: kalloc_cases [of v0])
    case 1
    have "alloc_result X free ram s i a0 c n H P (obind (freeproc fuel X i (alloc_st s i m (q1\<lparr>r_trapframe := 0\<rparr>) v0))
        (\<lambda>s. obind (on_rm (release X (ProcLock i)) s) (\<lambda>s. Ret (None, s))))"
      using z 1(2) has_mem_pages [of "q1\<lparr>r_trapframe := 0\<rparr>" 0 1 v0 undefined]
      by (intro fail) (auto simp: q1_def cleared_def foot_eq pt_pages_def page_at_def v0_def p_def)
    with 1(1) show ?thesis by (simp add: run)
  next
    case (2 t v1)
    let ?q2 = "q1\<lparr>r_trapframe := adr t 0\<rparr>"
    show ?thesis
    proof (cases rule: kalloc_cases [of v1])
      case 1
      then have "free v0 \<subseteq> {t}" using 2(6) by auto
      then have "card (free v0) < 5" using card_mono [of "{t}" "free v0"] by simp
      have "has_mem X free ram v1 (?q2\<lparr>r_usyscall := 0\<rparr>) (undefined, t, Suc t)"
        using z 2 by (intro has_mem_pages) (auto simp: q1_def page_at_def)
      then have "alloc_result X free ram s i a0 c n H P (obind (freeproc fuel X i (alloc_st s i m (?q2\<lparr>r_usyscall := 0\<rparr>) v1))
          (\<lambda>s. obind (on_rm (release X (ProcLock i)) s) (\<lambda>s. Ret (None, s))))"
        using z 2 1(2) \<open>card (free v0) < 5\<close>
        by (intro fail) (auto simp: q1_def cleared_def foot_eq pt_pages_def page_at_def v0_def p_def)
      with 1(1) 2(1,2) show ?thesis by (simp add: run)
    next
      case 3: (2 u v2)
      let ?q3 = "?q2\<lparr>r_usyscall := adr u 0\<rparr>"
      define v3 where "v3 = rvm (wr32 (adr u 0) (rv_nextpid s) (alloc_st s i m ?q3 v2))"
      have st3: "wr32 (adr u 0) (rv_nextpid s) (alloc_st s i m ?q3 v2) = alloc_st s i m ?q3 v3"
        by (cases s) (simp add: v3_def wr32_def alloc_st_def)
      have fr3: "free v3 = free v0 - {t, u}"
        using free_wr32 [of u "alloc_st s i m ?q3 v2"] 3 2 by (auto simp: v3_def)
      have "t \<in> ram - free v3" "u \<in> ram - free v3" "t \<noteq> u" using 2 3 fr3 by auto
      moreover have "mem v3 x = mem v0 x" if "pg x \<notin> free v0" for x
        using wr32_outside [of u x _ "alloc_st s i m ?q3 v2"] that 2 3 by (auto simp: v3_def)
      moreover have "pid_page (mem v3) u (rv_nextpid s)" unfolding v3_def by (rule pid_page_wr32 [OF 3(5)])
      moreover have "free v3 \<union> {t, u} = free v0" using fr3 2(3,6) 3(3) by auto
      moreover have "?q3 = (rproc s i)\<lparr>r_pid := rv_nextpid s, r_state := USED, r_trapframe := adr t 0, r_usyscall := adr u 0\<rparr>"
        by (simp add: q1_def p_def)
      ultimately have last: "alloc_result X free ram s i a0 c n H P
        (obind (call_vm (proc_pagetable fuel X (adr t 0) (adr u 0)) (alloc_st s i m ?q3 v3)) (\<lambda>(pt, s).
           let s = rupd i (\<lambda>p. p\<lparr>r_pagetable := pt\<rparr>) s in
           if pt = 0 then obind (freeproc fuel X i s) (\<lambda>s. obind (on_rm (release X (ProcLock i)) s) (\<lambda>s. Ret (None, s)))
           else Ret (Some i, rupd i (\<lambda>p. p\<lparr>r_context :=
                   \<lparr>ctx_ra = forkret_addr X, ctx_sp = r_kstack p + PGSIZE (VE X), ctx_s = replicate 12 0\<rparr>\<rparr>) s)))"
        using z(4) unfolding v0_def p_def by (intro alloc_last [OF ii f0 _ m(2) Hi fuel]) auto
      have "r_pid q1 = rv_nextpid s" by (simp add: q1_def)
      with last 2(1,2) 3(1,2) st3 ii show ?thesis by (simp add: run)
    qed
  qed
qed

end

end
