(* ===== verification/Rv_Fork.thy ===== *)
theory Rv_Fork
  imports Rv_Alloc
begin

text \<open>
  The operations that change the memory of a process as a whole: \<open>growproc\<close> and \<open>fork\<close>. They keep each
  process's ownership of its pages.
\<close>

section \<open>Growing and shrinking\<close>

context rv_kernel
begin

lemma user_pages: "sz \<le> USYSCALL X \<Longrightarrow> npages sz \<le> v_usys"
  using npages_mono [of sz "USYSCALL X"] npages_vpage [of v_usys] v_bounds unfolding layout by simp

lemma user_below: "sz \<le> USYSCALL X \<Longrightarrow> va < MAXVA (VE X) \<Longrightarrow> pg va < npages sz \<Longrightarrow> va < USYSCALL X"
  using user_pages [of sz] below_usys [of va] by simp

text \<open>After the pages of a process have been added, it owns them.\<close>

lemma grown_has_mem:
  assumes hm: "has_mem X free ram v p (T, t, u)" and pt: "r_pagetable p \<noteq> 0"
    and nz: "r_trapframe p \<noteq> 0" "r_usyscall p \<noteq> 0"
    and g: "ugrown (VE X) free ram v T {..<npages (r_sz p)} v' T' {..<npages sz}" and sz: "sz \<le> USYSCALL X"
  shows "has_mem X free ram v' (p\<lparr>r_sz := sz\<rparr>) (T', t, u)"
    and "free v' \<union> foot X v' (p\<lparr>r_sz := sz\<rparr>) (T', t, u) = free v \<union> foot X v p (T, t, u)"
    and "\<And>x. pg x \<notin> free v \<union> foot X v p (T, t, u) \<Longrightarrow> mem v' x = mem v x"
proof -
  note D = has_memD [OF hm] and G = ugrownD [OF g]
  note S = proc_spaceD [OF D(4) [OF pt]]
  let ?V = "{..<npages (r_sz p)}" and ?W = "{..<npages sz}" and ?E = "VE X"
  have ft: "foot X v p (T, t, u) = ran T \<union> fr ?E v T ` ?V \<union> {t, u}"
    using pt nz by (auto simp: foot_eq pt_pages_def page_at_def)
  have out: "t \<notin> ran T \<union> fr ?E v T ` ?V" "u \<notin> ran T \<union> fr ?E v T ` ?V" "t \<noteq> u" "t \<in> ram - free v" "u \<in> ram - free v"
    using D(5-8) pt nz unfolding ft by (auto simp: pt_pages_def page_at_def)
  have same: "fr ?E v' T' w = fr ?E v T w" if "w \<in> ?V" for w
    using G(7) [of "adr w 0"] that uspaceD(2) [OF S(1) that] by (simp add: vpage_less pg_vpage)
  have W: "?W = ?V \<union> (?W - ?V)" using G(2) by auto
  have fW: "fr ?E v' T' ` ?W = fr ?E v T ` ?V \<union> fr ?E v' T' ` (?W - ?V)"
    using same by (subst W, subst image_Un) (auto intro!: arg_cong2 [where f = "(\<union>)"] image_cong)
  have ft': "foot X v' (p\<lparr>r_sz := sz\<rparr>) (T', t, u) = ran T' \<union> fr ?E v' T' ` ?W \<union> {t, u}"
    using pt nz by (auto simp: foot_eq pt_pages_def page_at_def)
  have rT: "ran T \<subseteq> ran T'" using map_le_ran [OF G(3)] .
  have dV: "fr ?E v T ` ?V \<inter> free v = {}" "fr ?E v T ` ?V \<inter> ran T = {}" using S(1) by (auto simp: uspace_def)
  show eq: "free v' \<union> foot X v' (p\<lparr>r_sz := sz\<rparr>) (T', t, u) = free v \<union> foot X v p (T, t, u)"
    unfolding ft ft' fW using G(4-6) rT by auto
  show "mem v' x = mem v x" if "pg x \<notin> free v \<union> foot X v p (T, t, u)" for x
    using that G(8) unfolding ft by auto
  have top: "pte ?E (mem v') T' (adr w 0) = pte ?E (mem v) T (adr w 0)" if "w \<in> {v_tramp, v_trapf, v_usys}" for w
    using that G(7) [of "adr w 0"] user_pages [OF sz] v_pages by (auto simp: v_defs)
  have ram': "ran T' \<subseteq> ram" using G(4) S(3) free_ram [of v] by blast
  have "proc_space X free ram v' T' sz t u"
    unfolding proc_space_def top_pages_def
  proof (intro conjI allI impI)
    fix va assume va: "va < USYSCALL X" "npages sz \<le> pg va"
    then have "pte ?E (mem v') T' va = pte ?E (mem v) T va" using usys_max by (intro G(7)) auto
    also have "\<dots> = 0" using va G(2) by (intro S(8)) auto
    finally show "pte ?E (mem v') T' va = 0" .
  qed (use G(1) sz S(5-7) top ram' in \<open>simp_all add: top_pages_def\<close>)
  moreover have "foot X v' (p\<lparr>r_sz := sz\<rparr>) (T', t, u) \<subseteq> ram - free v'"
    using out G(1,6) ram' unfolding ft' uspace_def owns_def by auto
  moreover have "root T' = root T" using root_ugrown [OF S(1) g] .
  moreover have "t \<notin> ran T' \<union> fr ?E v' T' ` ?W" "u \<notin> ran T' \<union> fr ?E v' T' ` ?W"
    using out G(4,5) unfolding fW by auto
  ultimately show "has_mem X free ram v' (p\<lparr>r_sz := sz\<rparr>) (T', t, u)"
    using D(1-3) pt nz out(3) by (auto simp: has_mem_def pt_pages_def page_at_def)
qed

end

context rv_kernel
begin

text \<open>And after pages at the end have been removed and their frames given back.\<close>

lemma shrunk_has_mem:
  assumes hm: "has_mem X free ram v p (T, t, u)" and pt: "r_pagetable p \<noteq> 0"
    and nz: "r_trapframe p \<noteq> 0" "r_usyscall p \<noteq> 0" and sz: "sz \<le> r_sz p"
    and un: "unmapped (VE X) free {npages sz..<npages (r_sz p)} (fr (VE X) v T ` {npages sz..<npages (r_sz p)}) v T v'"
  shows "has_mem X free ram v' (p\<lparr>r_sz := sz\<rparr>) (T, t, u)"
    and "free v' \<union> foot X v' (p\<lparr>r_sz := sz\<rparr>) (T, t, u) = free v \<union> foot X v p (T, t, u)"
    and "\<And>x. pg x \<notin> free v \<union> foot X v p (T, t, u) \<Longrightarrow> mem v' x = mem v x"
proof -
  note D = has_memD [OF hm]
  note S = proc_spaceD [OF D(4) [OF pt]]
  let ?V = "{..<npages (r_sz p)}" and ?W = "{..<npages sz}" and ?R = "{npages sz..<npages (r_sz p)}" and ?E = "VE X"
  have le: "npages sz \<le> npages (r_sz p)" by (rule npages_mono [OF sz])
  then have W: "?V - ?R = ?W" "?V = ?W \<union> ?R" "?R \<subseteq> ?V" by auto
  have U: "free v' = free v \<union> fr ?E v T ` ?R" "\<And>va. va < MAXVA ?E \<Longrightarrow> pte ?E (mem v') T va = (if pg va \<in> ?R then 0 else pte ?E (mem v) T va)"
    "\<And>x. pg x \<notin> ran T \<union> free v \<union> fr ?E v T ` ?R \<Longrightarrow> mem v' x = mem v x" using un by (auto simp: unmapped_def)
  have us: "uspace ?E free ram v' T ?W" and same: "\<And>w. w \<in> ?W \<Longrightarrow> fr ?E v' T w = fr ?E v T w"
    using unmapped_uspace [OF S(1) un _ W(3)] unfolding W(1) by auto
  have ft: "foot X v p (T, t, u) = ran T \<union> fr ?E v T ` ?V \<union> {t, u}"
    using pt nz by (auto simp: foot_eq pt_pages_def page_at_def)
  have out: "t \<notin> ran T \<union> fr ?E v T ` ?V" "u \<notin> ran T \<union> fr ?E v T ` ?V" "t \<noteq> u" "t \<in> ram - free v" "u \<in> ram - free v"
    using D(5-8) pt nz unfolding ft by (auto simp: pt_pages_def page_at_def)
  have fW: "fr ?E v' T ` ?W = fr ?E v T ` ?W" using same by (intro image_cong) auto
  have ft': "foot X v' (p\<lparr>r_sz := sz\<rparr>) (T, t, u) = ran T \<union> fr ?E v T ` ?W \<union> {t, u}"
    using pt nz fW by (auto simp: foot_eq pt_pages_def page_at_def)
  show "free v' \<union> foot X v' (p\<lparr>r_sz := sz\<rparr>) (T, t, u) = free v \<union> foot X v p (T, t, u)"
    unfolding ft ft' W(2) image_Un U(1) by auto
  show "mem v' x = mem v x" if "pg x \<notin> free v \<union> foot X v p (T, t, u)" for x
    using that W(3) unfolding ft by (intro U(3)) auto
  have top: "pte ?E (mem v') T (adr w 0) = pte ?E (mem v) T (adr w 0)" if "w \<in> {v_tramp, v_trapf, v_usys}" for w
    using that U(2) [of "adr w 0"] user_pages [OF S(4)] v_pages by (auto simp: v_defs)
  have "proc_space X free ram v' T sz t u"
    unfolding proc_space_def top_pages_def
  proof (intro conjI allI impI)
    fix va assume va: "va < USYSCALL X" "npages sz \<le> pg va"
    have "va < MAXVA ?E" using va(1) usys_max by order
    then show "pte ?E (mem v') T va = 0" using U(2) [of va] va S(8) [of va] by auto
  qed (use us sz S(3-7) top in \<open>simp_all add: top_pages_def\<close>)
  moreover have "foot X v' (p\<lparr>r_sz := sz\<rparr>) (T, t, u) \<subseteq> ram - free v'"
    using out us S(3) W(3) unfolding ft' U(1) uspace_def owns_def fW by auto
  ultimately show "has_mem X free ram v' (p\<lparr>r_sz := sz\<rparr>) (T, t, u)"
    using D(1-3) pt nz out W(2) fW by (auto simp: has_mem_def pt_pages_def page_at_def)
qed

lemma unmapped_same_page:
  assumes us: "uspace (VE X) free ram v T V" and un: "unmapped (VE X) free R (fr (VE X) v T ` R) v T v'" and R: "R \<subseteq> V"
    and w: "w \<in> V - R"
  shows "same_page (VE X) v T v' T w"
proof -
  note U = uspaceD [OF us]
  have pte: "pte (VE X) (mem v') T (adr w 0) = pte (VE X) (mem v) T (adr w 0)"
    using un w U(2) [of w] by (simp add: unmapped_def vpage_less pg_vpage)
  have fw: "fr (VE X) v T w \<in> ram - free v - ran T" using U(4) w by auto
  moreover have "fr (VE X) v T w \<notin> fr (VE X) v T ` R" using inj_onD [OF U(5)] w R by blast
  ultimately have "mem v' (adr (fr (VE X) v T w) d) = mem v (adr (fr (VE X) v T w) d)" if "d < 4096" for d
    using un that pg_adr [of "fr (VE X) v T w" d] free_frame by (simp add: unmapped_def)
  then show ?thesis by (simp add: same_page_def pte)
qed

end

text \<open>
  What \<open>growproc\<close> does to the pages of the process: those it keeps have their contents and permissions, new
  ones are zeroed, writable by the user and not executable.
\<close>

definition resized :: "('x, 'f, 'w) rv_ext \<Rightarrow> 'w vm \<Rightarrow> ptree \<Rightarrow> u64 \<Rightarrow> 'w vm \<Rightarrow> ptree \<Rightarrow> u64 \<Rightarrow> bool" where
  "resized X v T old v' T' new \<longleftrightarrow>
     (\<forall>w < min (npages old) (npages new). same_page (VE X) v T v' T' w) \<and>
     (\<forall>w. npages old \<le> w \<longrightarrow> w < npages new \<longrightarrow>
        zero_page (VE X) v' T' w \<and> PTE_FLAGS (VE X) (pte (VE X) (mem v') T' (adr w 0)) = 23)"

lemma same_page_refl: "same_page E v T v T w"
  by (simp add: same_page_def)

context rv_kernel
begin

lemma grow_step:
  assumes sm: "slot_mem X free ram v p (T, t, u)" and used: "r_state p \<noteq> UNUSED"
    and new: "r_sz p \<le> new" "new \<le> USYSCALL X" and fuel: "2 * npages new + 2 \<le> fuel"
  shows "\<exists>r v' T'. uvmalloc fuel (VE X) (r_pagetable p) (r_sz p) new (perm_int (PTE_W (VE X))) v = Ret (r, v') \<and>
     (r = new \<and> mem_step X free ram v p (T, t, u) v' (p\<lparr>r_sz := new\<rparr>) (T', t, u) \<and> resized X v T (r_sz p) v' T' new \<or>
      r = 0 \<and> mem_step X free ram v p (T, t, u) v' p (T', t, u) \<and> resized X v T (r_sz p) v' T' (r_sz p) \<and>
        card (free v) < 3 * (npages new - npages (r_sz p)))"
proof -
  have hm: "has_mem X free ram v p (T, t, u)" and nz: "r_pagetable p \<noteq> 0" "r_trapframe p \<noteq> 0" "r_usyscall p \<noteq> 0"
    using sm used by (simp_all add: slot_mem_def)
  note S = proc_spaceD [OF has_memD(4) [OF hm nz(1)]]
  have perm: "(scast (alloc_perm (perm_int (PTE_W (VE X)))) :: u64) = 22" by (simp add: PTE_R_eq PTE_U_eq PTE_W_eq)
  have bits: "take_bit 10 (22 :: u64) = 22" "(22 :: u64) OR 1 \<noteq> 1" "(22 :: u64) OR 1 = 23" by (simp_all add: take_bit_eq_mod)
  have max: "new \<le> MAXVA (VE X)" using new(2) usys_max by order
  have un: "pte (VE X) (mem v) T va = 0" if "va < MAXVA (VE X)" "npages (r_sz p) \<le> pg va" "pg va < npages new" for va
    using that user_below [OF new(2)] by (intro S(8)) auto
  from uvmalloc_spec [OF S(1) new(1) max fuel un, of "perm_int (PTE_W (VE X))", unfolded perm, OF _ _ _ bits(1,2)] obtain r v' T' where
    r: "uvmalloc fuel (VE X) (root T) (r_sz p) new (perm_int (PTE_W (VE X))) v = Ret (r, v')"
      "3 * (npages new - npages (r_sz p)) \<le> card (free v) \<longrightarrow> r = new"
    and d: "r = new \<and> ugrown (VE X) free ram v T {..<npages (r_sz p)} v' T' {..<npages new} \<and>
        (\<forall>w. npages (r_sz p) \<le> w \<longrightarrow> w < npages new \<longrightarrow> zero_page (VE X) v' T' w \<and>
           PTE_FLAGS (VE X) (pte (VE X) (mem v') T' (adr w 0)) = 23) \<or>
      r = 0 \<and> ugrown (VE X) free ram v T {..<npages (r_sz p)} v' T' {..<npages (r_sz p)}"
    unfolding bits(3) by auto
  have step: "mem_step X free ram v p (T, t, u) v' (p\<lparr>r_sz := sz\<rparr>) (T', t, u) \<and>
      (\<forall>w < npages (r_sz p). same_page (VE X) v T v' T' w)"
    if g: "ugrown (VE X) free ram v T {..<npages (r_sz p)} v' T' {..<npages sz}" and "sz \<le> USYSCALL X" for sz
    using grown_has_mem [OF hm nz g that(2)] used nz same_page_ugrown [OF g S(1) _ same_page_refl]
    by (auto simp: mem_step_def slot_mem_def)
  show ?thesis
  proof (cases "r = new \<and> ugrown (VE X) free ram v T {..<npages (r_sz p)} v' T' {..<npages new} \<and>
        (\<forall>w. npages (r_sz p) \<le> w \<longrightarrow> w < npages new \<longrightarrow> zero_page (VE X) v' T' w \<and>
           PTE_FLAGS (VE X) (pte (VE X) (mem v') T' (adr w 0)) = 23)")
    case True
    then have "resized X v T (r_sz p) v' T' new" using step [of new] new(2) by (simp add: resized_def)
    with True step [of new] new(2) r(1) has_memD(3) [OF hm nz(1)] show ?thesis by auto
  next
    case False
    with d have f: "r = 0" "ugrown (VE X) free ram v T {..<npages (r_sz p)} v' T' {..<npages (r_sz p)}" by auto
    then have st: "mem_step X free ram v p (T, t, u) v' p (T', t, u)" "resized X v T (r_sz p) v' T' (r_sz p)"
      using step [of "r_sz p"] S(4) by (auto simp: resized_def)
    show ?thesis
    proof (cases "r = new")
      case True
      have eq: "r_sz p = new" using new(1) f(1) True by (auto simp: word_le_0_iff)
      with f(2) have "mem_step X free ram v p (T, t, u) v' (p\<lparr>r_sz := new\<rparr>) (T', t, u)" using step [of new] new(2) by simp
      with st(2) eq True r(1) has_memD(3) [OF hm nz(1)] show ?thesis by (intro exI [of _ r] exI [of _ v'] exI [of _ T']) simp
    next
      case ne: False
      with st f r has_memD(3) [OF hm nz(1)] show ?thesis by auto
    qed
  qed
qed

end

context rv_kernel
begin

lemma shrink_step:
  assumes sm: "slot_mem X free ram v p (T, t, u)" and used: "r_state p \<noteq> UNUSED" and fuel: "npages (r_sz p) < fuel"
  shows "\<exists>v'. uvmdealloc fuel (VE X) (r_pagetable p) (r_sz p) new v = Ret (min (r_sz p) new, v') \<and>
     mem_step X free ram v p (T, t, u) v' (p\<lparr>r_sz := min (r_sz p) new\<rparr>) (T, t, u) \<and>
     resized X v T (r_sz p) v' T (min (r_sz p) new)"
proof -
  have hm: "has_mem X free ram v p (T, t, u)" and nz: "r_pagetable p \<noteq> 0" "r_trapframe p \<noteq> 0" "r_usyscall p \<noteq> 0"
    using sm used by (simp_all add: slot_mem_def)
  note S = proc_spaceD [OF has_memD(4) [OF hm nz(1)]]
  define sz where "sz = min (r_sz p) new"
  have sz: "sz \<le> r_sz p" "(if new \<ge> r_sz p then r_sz p else new) = sz" "{npages new..<npages (r_sz p)} = {npages sz..<npages (r_sz p)}"
    using npages_mono [of "r_sz p" new] by (auto simp: sz_def min_def)
  have R: "{npages sz..<npages (r_sz p)} \<subseteq> {..<npages (r_sz p)}" by auto
  have max: "r_sz p \<le> MAXVA (VE X)" using S(4) usys_max by order
  from uvmdealloc_spec [OF S(1) _ max fuel, of new] R obtain v' where
    v': "uvmdealloc fuel (VE X) (root T) (r_sz p) new v = Ret (sz, v')"
      and un: "unmapped (VE X) free {npages sz..<npages (r_sz p)} (fr (VE X) v T ` {npages sz..<npages (r_sz p)}) v T v'"
    unfolding sz(2,3) by auto
  have "resized X v T (r_sz p) v' T sz"
    using unmapped_same_page [OF S(1) un R] npages_mono [OF sz(1)] by (auto simp: resized_def)
  moreover have "mem_step X free ram v p (T, t, u) v' (p\<lparr>r_sz := sz\<rparr>) (T, t, u)"
    using shrunk_has_mem [OF hm nz sz(1) un] used nz by (auto simp: mem_step_def slot_mem_def)
  ultimately show ?thesis using v' has_memD(3) [OF hm nz(1)] unfolding sz_def [symmetric] by auto
qed

text \<open>
  \<open>growproc\<close> by \<open>k\<close> bytes: the new size, or -1 when memory runs out. A negative amount larger than the size
  wraps around and changes nothing.
\<close>

lemma growproc_spec:
  assumes view: "rv_view X (rmach s) c n H P" and n: "n < max_noff" and i: "P ! c = Some i" "i < length (procs s)"
    and sm: "slot_mem X free ram (rvm s) (rproc s i) (T, t, u)" and used: "r_state (rproc s i) \<noteq> UNUSED"
    and sz: "sz = r_sz (rproc s i)" and new: "new = sz + scast k"
    and lim: "slt 0 k \<Longrightarrow> sz \<le> new \<and> new \<le> USYSCALL X"
    and fuel: "slt 0 k \<Longrightarrow> 2 * npages new + 2 \<le> fuel" "npages sz < fuel"
  shows "\<exists>r z v m T'. rv_growproc fuel X k s = Ret (r, s\<lparr>procs := (procs s)[i := (rproc s i)\<lparr>r_sz := z\<rparr>], rmach := m, rvm := v\<rparr>) \<and>
     rv_view X m c n H P \<and> mem_step X free ram (rvm s) (rproc s i) (T, t, u) v ((rproc s i)\<lparr>r_sz := z\<rparr>) (T', t, u) \<and>
     resized X (rvm s) T sz v T' z \<and>
     (r = 0 \<and> z = (if slt k 0 then min sz new else new) \<or>
      r = - 1 \<and> slt 0 k \<and> z = sz \<and> card (free (rvm s)) < 3 * (npages new - npages sz))"
proof -
  from curproc_view [OF view n i(1)] obtain m where m: "rv_curproc X s = Ret (i, s\<lparr>rmach := m\<rparr>)" "rv_view X m c n H P" by blast
  have upd: "rupd i (\<lambda>q. q\<lparr>r_sz := z\<rparr>) (s\<lparr>rmach := m, rvm := v\<rparr>) =
      s\<lparr>procs := (procs s)[i := (rproc s i)\<lparr>r_sz := z\<rparr>], rmach := m, rvm := v\<rparr>" for z v
    by (cases s) (simp add: rupd_def upd_nth_def)
  have same: "s\<lparr>procs := (procs s)[i := (rproc s i)\<lparr>r_sz := sz\<rparr>], rmach := m, rvm := v\<rparr> = s\<lparr>rmach := m, rvm := v\<rparr>" for v
    using i(2) by (cases s) (simp add: sz)
  let ?p = "rproc s i"
  consider "slt 0 k" | "\<not> slt 0 k" "slt k 0" | "\<not> slt 0 k" "\<not> slt k 0" by blast
  then show ?thesis
  proof cases
    case 1
    have nz: "new \<noteq> 0" using lim [OF 1] scast_pos [OF 1] new by (auto simp: word_le_0_iff)
    note run = rv_growproc_def m(1) call_vm_def upd sz [symmetric] new [symmetric]
    from grow_step [OF sm used, of new fuel] lim [OF 1] fuel(1) [OF 1] sz obtain r v' T' where
      r: "uvmalloc fuel (VE X) (r_pagetable ?p) sz new (perm_int (PTE_W (VE X))) (rvm s) = Ret (r, v')"
      and d: "r = new \<and> mem_step X free ram (rvm s) ?p (T, t, u) v' (?p\<lparr>r_sz := new\<rparr>) (T', t, u) \<and> resized X (rvm s) T sz v' T' new \<or>
        r = 0 \<and> mem_step X free ram (rvm s) ?p (T, t, u) v' ?p (T', t, u) \<and> resized X (rvm s) T sz v' T' sz \<and>
        card (free (rvm s)) < 3 * (npages new - npages sz)" by auto
    show ?thesis
    proof (cases "r = 0")
      case True
      have "mem_step X free ram (rvm s) ?p (T, t, u) v' (?p\<lparr>r_sz := sz\<rparr>) (T', t, u)" "resized X (rvm s) T sz v' T' sz"
        "card (free (rvm s)) < 3 * (npages new - npages sz)"
        using d True sz nz by auto
      moreover have "rv_growproc fuel X k s = Ret (- 1, s\<lparr>rmach := m, rvm := v'\<rparr>)"
        using 1 r True by (simp add: run)
      ultimately show ?thesis using m(2) 1
        by (intro exI [of _ "- 1"] exI [of _ sz] exI [of _ v'] exI [of _ m] exI [of _ T']) (simp add: same)
    next
      case False
      with d have "r = new" "mem_step X free ram (rvm s) ?p (T, t, u) v' (?p\<lparr>r_sz := new\<rparr>) (T', t, u)" "resized X (rvm s) T sz v' T' new" by auto
      moreover have "rv_growproc fuel X k s = Ret (0, s\<lparr>procs := (procs s)[i := ?p\<lparr>r_sz := r\<rparr>], rmach := m, rvm := v'\<rparr>)"
        using 1 r False by (simp add: run)
      ultimately show ?thesis using m(2) 1
        by (intro exI [of _ 0] exI [of _ new] exI [of _ v'] exI [of _ m] exI [of _ T']) auto
    qed
  next
    case 2
    from shrink_step [OF sm used, of fuel new] fuel(2) sz obtain v' where
      v': "uvmdealloc fuel (VE X) (r_pagetable ?p) sz new (rvm s) = Ret (min sz new, v')"
        "mem_step X free ram (rvm s) ?p (T, t, u) v' (?p\<lparr>r_sz := min sz new\<rparr>) (T, t, u)" "resized X (rvm s) T sz v' T (min sz new)" by auto
    have "rv_growproc fuel X k s = Ret (0, s\<lparr>procs := (procs s)[i := ?p\<lparr>r_sz := min sz new\<rparr>], rmach := m, rvm := v'\<rparr>)"
      using 2 v'(1) by (simp add: rv_growproc_def m(1) call_vm_def upd sz [symmetric] new [symmetric])
    with v'(2,3) m(2) 2 show ?thesis
      by (intro exI [of _ 0] exI [of _ "min sz new"] exI [of _ v'] exI [of _ m] exI [of _ T]) simp
  next
    case 3
    then have "k = 0" by (metis signed_0 not_less_iff_gr_or_eq signed_word_eqI)
    then have eq: "new = sz" by (simp add: new)
    have "mem_step X free ram (rvm s) ?p (T, t, u) (rvm s) (?p\<lparr>r_sz := sz\<rparr>) (T, t, u)" using sm sz by (simp add: mem_step_def)
    moreover have "resized X (rvm s) T sz (rvm s) T sz" by (simp add: resized_def same_page_refl)
    moreover have "rv_growproc fuel X k s = Ret (0, s\<lparr>procs := (procs s)[i := ?p\<lparr>r_sz := sz\<rparr>], rmach := m, rvm := rvm s\<rparr>)"
      using 3 upd [of sz "rvm s"] by (simp add: rv_growproc_def m(1) sz)
    ultimately show ?thesis using m(2) 3 eq
      by (intro exI [of _ 0] exI [of _ sz] exI [of _ "rvm s"] exI [of _ m] exI [of _ T]) simp
  qed
qed

end

end
