(* ===== verification/Rv_Child.thy ===== *)
theory Rv_Child
  imports Rv_Fork
begin

text \<open>
  \<open>fork\<close>: the child gets copies of the pages of the parent, of its registers, open files, directory and
  name. The locale \<open>rv_os\<close> adds what is relied on of the file layer.
\<close>

locale rv_os = rv_kernel X free ram
  for X :: "('x, 'f, 'w) rv_ext" and free :: "'w vm \<Rightarrow> nat set" and ram :: "nat set" +
  assumes filedup_law: "\<exists>w'. filedup X f w = Ret (f, w')" and idup_law: "\<exists>w'. idup X ip w = Ret (ip, w')"
    and fileclose_law: "\<exists>w'. fileclose X f w = Ret w'" and iput_law: "\<exists>w'. iput X ip w = Ret w'"
    and begin_op_law: "\<exists>w'. begin_op X w = Ret w'" and end_op_law: "\<exists>w'. end_op X w = Ret w'"

section \<open>Memory\<close>

context rv_kernel
begin

text \<open>Copying the parent's pages to a child that has none yet.\<close>

lemma fork_memory:
  assumes par: "has_mem X free ram v p (T, t, u)" "r_pagetable p \<noteq> 0"
    and chi: "has_mem X free ram v q (N, t', u')" "r_pagetable q \<noteq> 0" "r_trapframe q \<noteq> 0" "r_usyscall q \<noteq> 0" "r_sz q = 0"
    and st: "r_state q \<noteq> UNUSED" and dis: "foot X v p (T, t, u) \<inter> foot X v q (N, t', u') = {}" and fuel: "2 * npages (r_sz p) + 2 \<le> fuel"
  shows "\<exists>r v' K. uvmcopy fuel (VE X) (r_pagetable p) (r_pagetable q) (r_sz p) v = Ret (r, v') \<and>
     (\<forall>x. pg x \<notin> ran N \<union> free v \<longrightarrow> mem v' x = mem v x) \<and>
     (r = 0 \<and> mem_step X free ram v q (N, t', u') v' (q\<lparr>r_sz := r_sz p\<rparr>) (K, t', u') \<and>
        (\<forall>w < npages (r_sz p). same_page (VE X) v T v' K w) \<or>
      r = - 1 \<and> mem_step X free ram v q (N, t', u') v' q (K, t', u') \<and> card (free v) < 3 * npages (r_sz p))"
proof -
  note P = proc_spaceD [OF has_memD(4) [OF par]] and Q = proc_spaceD [OF has_memD(4) [OF chi(1,2)]]
  have np: "npages 0 = 0" by (simp add: npages_def)
  have sub: "ran T \<union> fr (VE X) v T ` {..<npages (r_sz p)} \<subseteq> foot X v p (T, t, u)" "ran N \<subseteq> foot X v q (N, t', u')"
    using par(2) chi(2) by (auto simp: foot_eq pt_pages_def)
  have ap: "apart (VE X) v T {..<npages (r_sz p)} N" using dis sub unfolding apart_def by blast
  have un: "pte (VE X) (mem v) N va = 0" if "va < MAXVA (VE X)" "pg va < npages (r_sz p)" for va
    using user_below [OF P(4) that] chi(5) np by (intro Q(8)) auto
  have max: "r_sz p \<le> MAXVA (VE X)" using P(4) usys_max by order
  from uvmcopy_spec [OF P(1) Q(2) ap max fuel un] obtain r v' K where
    r: "uvmcopy fuel (VE X) (root T) (root N) (r_sz p) v = Ret (r, v')" "3 * npages (r_sz p) \<le> card (free v) \<longrightarrow> r = 0"
    and d: "r = 0 \<and> ugrown (VE X) free ram v N {} v' K {..<npages (r_sz p)} \<and> (\<forall>w < npages (r_sz p). same_page (VE X) v T v' K w) \<or>
      r = - 1 \<and> ugrown (VE X) free ram v N {} v' K {}" by auto
  have step: "mem_step X free ram v q (N, t', u') v' (q\<lparr>r_sz := sz\<rparr>) (K, t', u')"
    if "ugrown (VE X) free ram v N {} v' K {..<npages sz}" "sz \<le> USYSCALL X" for sz
    using grown_has_mem [OF chi(1-4), of v' K sz] that chi(2-5) st by (auto simp: np mem_step_def slot_mem_def)
  have mem: "\<forall>x. pg x \<notin> ran N \<union> free v \<longrightarrow> mem v' x = mem v x" using d ugrownD(8) by blast
  have root: "r_pagetable p = root T" "r_pagetable q = root N"
    using has_memD(3) [OF par] has_memD(3) [OF chi(1,2)] by simp_all
  show ?thesis
  proof (cases "r = 0 \<and> ugrown (VE X) free ram v N {} v' K {..<npages (r_sz p)} \<and> (\<forall>w < npages (r_sz p). same_page (VE X) v T v' K w)")
    case True
    with step [of "r_sz p"] P(4) r(1) root mem show ?thesis by auto
  next
    case False
    with d have f: "r = - 1" "ugrown (VE X) free ram v N {} v' K {..<npages 0}" by (auto simp: np)
    have "q\<lparr>r_sz := 0\<rparr> = q" using chi(5) by simp
    with step [of 0] f have "mem_step X free ram v q (N, t', u') v' q (K, t', u')" by simp
    with f(1) r root mem show ?thesis by (intro exI [of _ r] exI [of _ v'] exI [of _ K]) auto
  qed
qed

end

text \<open>The trap frame of the child: a copy, but for \<open>a0\<close>, which is 0.\<close>

definition copy_frame :: "addr64 \<Rightarrow> addr64 \<Rightarrow> bytes \<Rightarrow> bytes" where
  "copy_frame dst src m = write64 (dst + tf_a0) 0 (memmove dst src sizeof_trapframe m)"

definition frame_copied :: "bytes \<Rightarrow> nat \<Rightarrow> bytes \<Rightarrow> nat \<Rightarrow> bool" where
  "frame_copied m t m' t' \<longleftrightarrow>
     (\<forall>d < 288. m' (adr t' d) = (if 112 \<le> d \<and> d < 120 then 0 else m (adr t d)))"

lemma copy_frame_bytes:
  assumes "frame t'"
  shows "frame_copied m t (copy_frame (adr t' 0) (adr t 0) m) t'"
    and "pg x \<noteq> t' \<Longrightarrow> copy_frame (adr t' 0) (adr t 0) m x = m x"
proof -
  have src: "adr t' 0 + tf_a0 = adr t' 112" and n: "sizeof_trapframe = of_nat 288"
    by (simp_all add: tf_a0_def sizeof_trapframe_def adr_def)
  show "frame_copied m t (copy_frame (adr t' 0) (adr t 0) m) t'"
    unfolding frame_copied_def
  proof (intro allI impI)
    fix d :: nat assume d: "d < 288"
    have "unat (adr t' d - adr t' 112) < 8 \<longleftrightarrow> 112 \<le> d \<and> d < 120"
      using in_run(2) [OF assms, of 112 8 "adr t' d"] adr_diff [OF assms, of 112 d] adr_inj [OF assms assms, of d] d
      by (cases "112 \<le> d") auto
    moreover have "memmove (adr t' 0) (adr t 0) (of_nat 288) m (adr t' d) = m (adr t d)"
      using memmove_run [OF assms, of 0 288 "adr t 0" m "adr t' d"] d by (auto simp: adr_def)
    ultimately show "copy_frame (adr t' 0) (adr t 0) m (adr t' d) = (if 112 \<le> d \<and> d < 120 then 0 else m (adr t d))"
      unfolding copy_frame_def src n by (simp add: write64_def)
  qed
  show "copy_frame (adr t' 0) (adr t 0) m x = m x" if "pg x \<noteq> t'"
  proof -
    have "\<not> unat (x - adr t' 112) < 8" using in_run(1) [OF assms, of 112 8 x] that by auto
    moreover have "\<not> (\<exists>d < 288. x = adr t' (0 + d))" using that pg_adr [OF assms] by auto
    then have "memmove (adr t' 0) (adr t 0) (of_nat 288) m x = m x"
      using memmove_run [OF assms, of 0 288 "adr t 0" m x] by auto
    ultimately show ?thesis unfolding copy_frame_def src n by (simp add: write64_def)
  qed
qed

context rv_kernel
begin

text \<open>Writing to the trap frame of a process.\<close>

lemma frame_step:
  assumes sm: "slot_mem X free ram v q (K, t', u')" and st: "r_state q \<noteq> UNUSED"
    and out: "\<And>x. pg x \<noteq> t' \<Longrightarrow> m' x = mem v x"
  shows "mem_step X free ram v q (K, t', u') (v\<lparr>mem := m'\<rparr>) q (K, t', u')"
proof -
  have "has_mem X free ram v q (K, t', u')" and nz: "r_pagetable q \<noteq> 0" "r_trapframe q \<noteq> 0"
    using sm st by (auto simp: slot_mem_def)
  from has_memD(6) [OF this(1)] nz show ?thesis
    by (intro write_step [OF sm, of "{t'}"]) (auto simp: foot_eq page_at_def pt_pages_def out)
qed

end

section \<open>Files\<close>

text \<open>The descriptors of the child after the loop over \<open>is\<close>: those of the parent that are open.\<close>

definition dup_ofile :: "addr64 list \<Rightarrow> nat list \<Rightarrow> addr64 list \<Rightarrow> addr64 list" where
  "dup_ofile par is = fold (\<lambda>i fs. if par ! i \<noteq> 0 then fs[i := par ! i] else fs) is"

lemma dup_ofile_nth:
  assumes "distinct is" and "set is \<subseteq> {..<length fs}"
  shows "length (dup_ofile par is fs) = length fs \<and>
    (\<forall>i < length fs. dup_ofile par is fs ! i = (if i \<in> set is \<and> par ! i \<noteq> 0 then par ! i else fs ! i))"
  using assms
proof (induction "is" arbitrary: fs)
  case Nil
  then show ?case by (simp add: dup_ofile_def)
next
  case (Cons j "is")
  let ?fs = "if par ! j \<noteq> 0 then fs[j := par ! j] else fs"
  have "dup_ofile par (j # is) fs = dup_ofile par is ?fs" by (simp add: dup_ofile_def)
  with Cons.IH [of ?fs] Cons.prems show ?case by (auto simp: nth_list_update)
qed

context rv_os
begin

lemma dup_files_spec:
  assumes "p \<noteq> np" and "p < length (procs s)" and "np < length (procs s)"
  shows "\<exists>w. rv_dup_files X p np is s =
    Ret ((rupd np (\<lambda>q. q\<lparr>r_ofile := dup_ofile (r_ofile (rproc s p)) is (r_ofile q)\<rparr>) s)\<lparr>files := w\<rparr>)"
  using assms
proof (induction "is" arbitrary: s)
  case Nil
  have "rupd np (\<lambda>q. q\<lparr>r_ofile := dup_ofile (r_ofile (rproc s p)) [] (r_ofile q)\<rparr>) s = s"
    by (simp add: dup_ofile_def rupd_def upd_nth_same)
  then show ?case by (intro exI [of _ "files s"]) simp
next
  case (Cons i "is")
  let ?o = "r_ofile (rproc s p)"
  show ?case
  proof (cases "?o ! i = 0")
    case True
    with Cons show ?thesis by (simp add: dup_ofile_def)
  next
    case False
    from filedup_law [of "?o ! i" "files s"] obtain w where w: "filedup X (?o ! i) (files s) = Ret (?o ! i, w)" by blast
    let ?s = "rupd np (\<lambda>q. q\<lparr>r_ofile := (r_ofile q)[i := ?o ! i]\<rparr>) (s\<lparr>files := w\<rparr>)"
    have o: "r_ofile (rproc ?s p) = ?o" using Cons.prems by simp
    have run: "rv_dup_files X p np (i # is) s = rv_dup_files X p np is ?s" using False w by (simp add: call_files_def)
    from Cons.IH [of ?s] Cons.prems obtain w' where
      w': "rv_dup_files X p np is ?s = Ret ((rupd np (\<lambda>q. q\<lparr>r_ofile := dup_ofile ?o is (r_ofile q)\<rparr>) ?s)\<lparr>files := w'\<rparr>)"
      unfolding o by auto
    have "(rupd np (\<lambda>q. q\<lparr>r_ofile := dup_ofile ?o is (r_ofile q)\<rparr>) ?s)\<lparr>files := w'\<rparr> =
        (rupd np (\<lambda>q. q\<lparr>r_ofile := dup_ofile ?o (i # is) (r_ofile q)\<rparr>) s)\<lparr>files := w'\<rparr>"
      using Cons.prems False by (cases s) (simp add: rupd_def dup_ofile_def comp_def)
    with run w' show ?thesis by auto
  qed
qed

section \<open>Publishing the child\<close>

text \<open>From the release of the child's lock to the end of \<open>fork\<close>.\<close>

lemma fork_publish:
  assumes view: "rv_view X (rmach s) c (Suc n) (insert (ProcLock np) H) P" and n: "Suc n < max_noff"
    and H: "ProcLock np \<notin> H" "WaitLock \<notin> H" and np: "np < length (procs s)"
  shows "\<exists>m. obind (on_rm (release X (ProcLock np)) s) (\<lambda>s.
       obind (on_rm (acquire X WaitLock) s) (\<lambda>s.
       obind (on_rm (release X WaitLock) (rupd np (\<lambda>q. q\<lparr>r_parent := Some p\<rparr>) s)) (\<lambda>s.
       obind (on_rm (acquire X (ProcLock np)) s) (\<lambda>s.
       obind (on_rm (release X (ProcLock np)) (rupd np (\<lambda>q. q\<lparr>r_state := RUNNABLE\<rparr>) s)) (\<lambda>s.
       Ret (pid, s)))))) =
     Ret (pid, (rupd np (\<lambda>q. q\<lparr>r_parent := Some p, r_state := RUNNABLE\<rparr>) s)\<lparr>rmach := m\<rparr>) \<and> rv_view X m c n H P"
proof -
  from release_view [OF view, of "ProcLock np"] H(1) obtain m0 where
    m0: "on_rm (release X (ProcLock np)) s = Ret (s\<lparr>rmach := m0\<rparr>)" "rv_view X m0 c n H P" by auto
  let ?s1 = "rupd np (\<lambda>q. q\<lparr>r_parent := Some p\<rparr>) s"
  from critical [of "s\<lparr>rmach := m0\<rparr>" c n H P WaitLock "rupd np (\<lambda>q. q\<lparr>r_parent := Some p\<rparr>)"] m0(2) H(2) n obtain m1 m2 where
    m1: "on_rm (acquire X WaitLock) (s\<lparr>rmach := m0\<rparr>) = Ret (s\<lparr>rmach := m1\<rparr>)"
      "on_rm (release X WaitLock) (?s1\<lparr>rmach := m1\<rparr>) = Ret (?s1\<lparr>rmach := m2\<rparr>)" "rv_view X m2 c n H P"
    by (auto simp: rupd_rmach)
  from critical [of "?s1\<lparr>rmach := m2\<rparr>" c n H P "ProcLock np" "rupd np (\<lambda>q. q\<lparr>r_state := RUNNABLE\<rparr>)"] m1(3) H(1) n obtain m3 m4 where
    m3: "on_rm (acquire X (ProcLock np)) (?s1\<lparr>rmach := m2\<rparr>) = Ret (?s1\<lparr>rmach := m3\<rparr>)"
      "on_rm (release X (ProcLock np)) ((rupd np (\<lambda>q. q\<lparr>r_state := RUNNABLE\<rparr>) ?s1)\<lparr>rmach := m3\<rparr>) =
         Ret ((rupd np (\<lambda>q. q\<lparr>r_state := RUNNABLE\<rparr>) ?s1)\<lparr>rmach := m4\<rparr>)" "rv_view X m4 c n H P"
    by (auto simp: rupd_rmach)
  have "rupd np (\<lambda>q. q\<lparr>r_state := RUNNABLE\<rparr>) ?s1 = rupd np (\<lambda>q. q\<lparr>r_parent := Some p, r_state := RUNNABLE\<rparr>) s"
    using np by (simp add: rupd_def comp_def)
  with m0 m1 m3 show ?thesis by (simp add: rupd_rmach) metis
qed

end

section \<open>fork\<close>

text \<open>The slot of the child when \<open>fork\<close> returns to process \<open>p\<close> (slot \<open>par\<close>); \<open>q\<close> was the unused slot.\<close>

definition fork_child :: "('x, 'f, 'w) rv_ext \<Rightarrow> nat \<Rightarrow> rv_proc \<Rightarrow> i32 \<Rightarrow> pages_of \<Rightarrow> rv_proc \<Rightarrow> rv_proc" where
  "fork_child X p par pid a q =
     (alloced X pid a q)\<lparr>r_sz := r_sz par, r_ofile := dup_ofile (r_ofile par) [0..<NOFILE X] (r_ofile q),
        r_cwd := r_cwd par, r_name := safestrcpy X (r_name par) 16, r_parent := Some p, r_state := RUNNABLE\<rparr>"

context rv_kernel
begin

lemma pages_kept:
  assumes hm: "has_mem X free ram v p (T, t, u)" "r_pagetable p \<noteq> 0"
    and mem: "\<And>x. pg x \<in> pt_pages X v p T \<Longrightarrow> mem v' x = mem v x" and w: "w < npages (r_sz p)"
  shows "pte (VE X) (mem v') T (adr w 0) = pte (VE X) (mem v) T (adr w 0)"
    and "d < 4096 \<Longrightarrow> mem v' (adr (fr (VE X) v T w) d) = mem v (adr (fr (VE X) v T w) d)"
proof -
  note S = proc_spaceD [OF has_memD(4) [OF hm]]
  have pp: "pt_pages X v p T = ran T \<union> fr (VE X) v T ` {..<npages (r_sz p)}" using hm(2) by (simp add: pt_pages_def)
  have "tree_ok T" using S(2) by (simp add: owns_def pt_ok_def)
  then show "pte (VE X) (mem v') T (adr w 0) = pte (VE X) (mem v) T (adr w 0)" using mem pp by (intro pte_cong) auto
  have "fr (VE X) v T w \<in> ram" using uspaceD(4) [OF S(1), of w] w by simp
  then show "mem v' (adr (fr (VE X) v T w) d) = mem v (adr (fr (VE X) v T w) d)" if "d < 4096"
    using that w pp free_frame pg_adr by (intro mem) auto
qed

text \<open>The state after the memory of the child is complete.\<close>

lemma fork_image:
  assumes par: "slot_mem X free ram v p (T, t, u)" "r_state p \<noteq> UNUSED"
    and chi: "slot_mem X free ram v q (N, t', u')" "r_state q \<noteq> UNUSED" "r_sz q = 0"
    and dis: "foot X v p (T, t, u) \<inter> foot X v q (N, t', u') = {}" and fuel: "2 * npages (r_sz p) + 2 \<le> fuel"
  shows "\<exists>r v1 K. uvmcopy fuel (VE X) (r_pagetable p) (r_pagetable q) (r_sz p) v = Ret (r, v1) \<and> r_pagetable q = root K \<and>
     (r = 0 \<and> (\<exists>v2. v2 = on_mem (copy_frame (r_trapframe q) (r_trapframe p)) v1 \<and>
         mem_step X free ram v q (N, t', u') v2 (q\<lparr>r_sz := r_sz p\<rparr>) (K, t', u') \<and>
         (\<forall>w < npages (r_sz p). same_page (VE X) v T v2 K w) \<and> frame_copied (mem v) t (mem v2) t' \<and>
         (\<forall>x. pg x = u' \<longrightarrow> mem v2 x = mem v x)) \<or>
      r = - 1 \<and> mem_step X free ram v q (N, t', u') v1 q (K, t', u') \<and> card (free v) < 3 * npages (r_sz p))"
proof -
  have hp: "has_mem X free ram v p (T, t, u)" "r_pagetable p \<noteq> 0" "r_trapframe p \<noteq> 0"
    and hq: "has_mem X free ram v q (N, t', u')" "r_pagetable q \<noteq> 0" "r_trapframe q \<noteq> 0" "r_usyscall q \<noteq> 0"
    using par chi by (auto simp: slot_mem_def)
  have tf: "r_trapframe p = adr t 0" "r_trapframe q = adr t' 0" using has_memD(1) [OF hp(1)] has_memD(1) [OF hq(1)] hp hq by auto
  have own: "t' \<in> foot X v q (N, t', u')" "u' \<in> foot X v q (N, t', u')" "t \<in> foot X v p (T, t, u)" "ran N \<subseteq> foot X v q (N, t', u')"
    "t' \<noteq> u'" "u' \<notin> ran N \<union> free v" "foot X v p (T, t, u) \<inter> (ran N \<union> free v) = {}"
    using has_memD(5-8) [OF hq(1)] has_memD(5) [OF hp(1)] hp hq dis by (auto simp: foot_eq page_at_def pt_pages_def)
  have ft: "frame t'" "frame t" using proc_spaceD(5) [OF has_memD(4)] hp(1,2) hq(1,2) by blast+
  from fork_memory [OF hp(1,2) hq chi(3,2) dis fuel] obtain r v1 K where
    r: "uvmcopy fuel (VE X) (r_pagetable p) (r_pagetable q) (r_sz p) v = Ret (r, v1)"
      "\<And>x. pg x \<notin> ran N \<union> free v \<Longrightarrow> mem v1 x = mem v x"
    and d: "r = 0 \<and> mem_step X free ram v q (N, t', u') v1 (q\<lparr>r_sz := r_sz p\<rparr>) (K, t', u') \<and>
        (\<forall>w < npages (r_sz p). same_page (VE X) v T v1 K w) \<or>
      r = - 1 \<and> mem_step X free ram v q (N, t', u') v1 q (K, t', u') \<and> card (free v) < 3 * npages (r_sz p)" by blast
  show ?thesis
  proof (cases "r = 0")
    case True
    with d have s: "mem_step X free ram v q (N, t', u') v1 (q\<lparr>r_sz := r_sz p\<rparr>) (K, t', u')"
      "\<forall>w < npages (r_sz p). same_page (VE X) v T v1 K w" by auto
    define q1 v2 where "q1 = q\<lparr>r_sz := r_sz p\<rparr>" and "v2 = on_mem (copy_frame (adr t' 0) (adr t 0)) v1"
    have sm: "slot_mem X free ram v1 q1 (K, t', u')" using s(1) by (simp add: mem_step_def q1_def)
    then have h1: "has_mem X free ram v1 q1 (K, t', u')" "r_pagetable q1 \<noteq> 0" "r_trapframe q1 \<noteq> 0"
      using chi(2) by (auto simp: slot_mem_def q1_def)
    have out: "mem v2 x = mem v1 x" if "pg x \<noteq> t'" for x using copy_frame_bytes(2) [OF ft(1) that] by (simp add: v2_def)
    have "mem_step X free ram v1 q1 (K, t', u') v2 q1 (K, t', u')"
      using frame_step [OF sm, of "mem v2"] chi(2) out by (simp add: q1_def v2_def)
    then have step: "mem_step X free ram v q (N, t', u') v2 q1 (K, t', u')" using s(1) mem_step_trans by (simp add: q1_def)
    have "t' \<notin> pt_pages X v1 q1 K" using has_memD(6) [OF h1(1)] h1(3) by (simp add: page_at_def)
    then have keep: "mem v2 x = mem v1 x" if "pg x \<in> pt_pages X v1 q1 K" for x using that by (intro out) auto
    have "same_page (VE X) v T v2 K w" if "w < npages (r_sz p)" for w
      using pages_kept [OF h1(1,2) keep, of w] s(2) that by (simp add: same_page_def q1_def)
    moreover have "frame_copied (mem v) t (mem v2) t'"
    proof -
      have "mem v1 (adr t d) = mem v (adr t d)" if "d < 288" for d
        using that own(3,7) pg_adr [OF ft(2), of d] by (intro r(2)) auto
      with copy_frame_bytes(1) [OF ft(1), of "mem v1" t] show ?thesis by (simp add: frame_copied_def v2_def)
    qed
    moreover have "mem v2 x = mem v x" if "pg x = u'" for x
      using that own(5,6) out [of x] r(2) [of x] by auto
    ultimately show ?thesis
      using True r(1) step has_memD(3) [OF h1(1,2)] unfolding tf v2_def q1_def
      by (intro exI [of _ r] exI [of _ v1] exI [of _ K]) auto
  next
    case False
    with d have f: "r = - 1" "mem_step X free ram v q (N, t', u') v1 q (K, t', u')" "card (free v) < 3 * npages (r_sz p)" by auto
    then have "r_pagetable q = root K" using chi(2) has_memD(3) by (fastforce simp: mem_step_def slot_mem_def)
    with f r(1) show ?thesis by auto
  qed
qed

end

text \<open>What \<open>fork\<close> achieves with the unused slot \<open>np\<close>, for process \<open>p\<close> whose pages are \<open>(T, t, u)\<close>.\<close>

definition forked ::
    "('x, 'f, 'w) rv_ext \<Rightarrow> ('x, 'f, 'w) rv_st \<Rightarrow> nat \<Rightarrow> nat \<Rightarrow> pages_of \<Rightarrow> ('x, 'f, 'w) rv_st \<Rightarrow> pages_of \<Rightarrow> bool" where
  "forked X s p np a s' a' \<longleftrightarrow>
     rproc s' np = fork_child X p (rproc s p) (rv_nextpid s) a' (rproc s np) \<and>
     (\<forall>w < npages (r_sz (rproc s p)). same_page (VE X) (rvm s) (fst a) (rvm s') (fst a') w) \<and>
     frame_copied (mem (rvm s)) (fst (snd a)) (mem (rvm s')) (fst (snd a')) \<and>
     pid_page (mem (rvm s')) (snd (snd a')) (rv_nextpid s)"

context rv_os
begin

text \<open>The part of \<open>fork\<close> after the memory of the child is complete.\<close>

lemma fork_rest:
  assumes view: "rv_view X m1 c (Suc n) (insert (ProcLock np) H) P" and n: "Suc n < max_noff"
    and H: "ProcLock np \<notin> H" "WaitLock \<notin> H" and i: "p \<noteq> np" "p < length (procs s)" "np < length (procs s)"
    and q: "r_pid q = pid" and par: "par = rproc s p"
  shows "\<exists>m w. obind (rv_dup_files X p np [0..<NOFILE X] (alloc_st s np m1 q v)) (\<lambda>s.
       obind (call_files (idup X (r_cwd (rproc s p))) s) (\<lambda>(ip, s).
       let s = rupd np (\<lambda>q. q\<lparr>r_cwd := ip\<rparr>) s;
           s = rupd np (\<lambda>q. q\<lparr>r_name := safestrcpy X (r_name (rproc s p)) 16\<rparr>) s;
           pid = r_pid (rproc s np)
       in obind (on_rm (release X (ProcLock np)) s) (\<lambda>s.
          obind (on_rm (acquire X WaitLock) s) (\<lambda>s.
          obind (on_rm (release X WaitLock) (rupd np (\<lambda>q. q\<lparr>r_parent := Some p\<rparr>) s)) (\<lambda>s.
          obind (on_rm (acquire X (ProcLock np)) s) (\<lambda>s.
          obind (on_rm (release X (ProcLock np)) (rupd np (\<lambda>q. q\<lparr>r_state := RUNNABLE\<rparr>) s)) (\<lambda>s.
          Ret (pid, s)))))))) =
     Ret (pid, (alloc_st s np m (q\<lparr>r_ofile := dup_ofile (r_ofile par) [0..<NOFILE X] (r_ofile q),
        r_cwd := r_cwd par, r_name := safestrcpy X (r_name par) 16, r_parent := Some p, r_state := RUNNABLE\<rparr>) v)\<lparr>files := w\<rparr>) \<and>
     rv_view X m c n H P"
proof -
  define q1 where "q1 = q\<lparr>r_ofile := dup_ofile (r_ofile par) [0..<NOFILE X] (r_ofile q)\<rparr>"
  have pp: "rproc (alloc_st s np m q v) p = par" "rproc (alloc_st s np m q v) np = q" for m q v using i par by simp_all
  from dup_files_spec [OF i(1), of "alloc_st s np m1 q v" "[0..<NOFILE X]"] i obtain w1 where
    w1: "rv_dup_files X p np [0..<NOFILE X] (alloc_st s np m1 q v) = Ret ((alloc_st s np m1 q1 v)\<lparr>files := w1\<rparr>)"
    by (auto simp: pp alloc_st_upd q1_def par)
  from idup_law [of "r_cwd par" w1] obtain w2 where w2: "idup X (r_cwd par) w1 = Ret (r_cwd par, w2)" by blast
  let ?q2 = "q1\<lparr>r_cwd := r_cwd par, r_name := safestrcpy X (r_name par) 16\<rparr>"
  from fork_publish [of "(alloc_st s np m1 ?q2 v)\<lparr>files := w2\<rparr>" c n np H P p pid] view n H i obtain m where
    m: "obind (on_rm (release X (ProcLock np)) ((alloc_st s np m1 ?q2 v)\<lparr>files := w2\<rparr>)) (\<lambda>s.
       obind (on_rm (acquire X WaitLock) s) (\<lambda>s.
       obind (on_rm (release X WaitLock) (rupd np (\<lambda>q. q\<lparr>r_parent := Some p\<rparr>) s)) (\<lambda>s.
       obind (on_rm (acquire X (ProcLock np)) s) (\<lambda>s.
       obind (on_rm (release X (ProcLock np)) (rupd np (\<lambda>q. q\<lparr>r_state := RUNNABLE\<rparr>) s)) (\<lambda>s.
       Ret (pid, s)))))) =
     Ret (pid, (rupd np (\<lambda>q. q\<lparr>r_parent := Some p, r_state := RUNNABLE\<rparr>) ((alloc_st s np m1 ?q2 v)\<lparr>files := w2\<rparr>))\<lparr>rmach := m\<rparr>)"
     "rv_view X m c n H P" by auto
  have "(rupd np f ((alloc_st s np m1 q v)\<lparr>files := w2\<rparr>))\<lparr>rmach := m\<rparr> = (alloc_st s np m (f q) v)\<lparr>files := w2\<rparr>" for f q
    using i(3) by (cases s) (simp add: alloc_st_def rupd_def upd_nth_def)
  note m(1) [unfolded this]
  moreover have "r_pid q1 = pid" using q by (simp add: q1_def)
  ultimately show ?thesis
    using m(2) i by (intro exI [of _ m] exI [of _ w2]) (simp add: w1 call_files_def w2 pp alloc_st_upd(4) q1_def Let_def par [symmetric])
qed

end

context rv_os
begin

lemma fork_spec:
  assumes ok: "mem_ok X free ram (rvm s) (procs s) A" and view: "rv_view X (rmach s) c n H P" and n: "Suc n < max_noff"
    and H: "no_proc_lock H" "PidLock \<notin> H" "WaitLock \<notin> H" and p: "P ! c = Some p" "p < length (procs s)" "r_state (rproc s p) \<noteq> UNUSED"
    and np: "find (\<lambda>i. r_state (rproc s i) = UNUSED) [0..<length (procs s)] = Some np"
    and fuel: "3 \<le> fuel" "2 * npages (r_sz (rproc s p)) + 2 \<le> fuel"
  shows "\<exists>r s' a'. rv_fork fuel X s = Ret (r, s') \<and> rv_view X (rmach s') c n H P \<and>
     mem_safe X free ram np (rvm s) (procs s) A (rvm s') (procs s') (A(np := a')) \<and> rv_nextpid s' = rv_nextpid s + 1 \<and>
     (r = - 1 \<and> (\<exists>q. rproc s' np = cleared q) \<and> card (free (rvm s)) < 5 + 3 * npages (r_sz (rproc s p)) \<or>
      r = rv_nextpid s \<and> forked X s p np (A p) s' a')"
proof -
  have i: "np < length (procs s)" "r_state (rproc s np) = UNUSED" using np by (auto simp: find_Some_iff)
  have ne: "p \<noteq> np" using i p by auto
  have Hn: "ProcLock np \<notin> H" using H(1) by (simp add: no_proc_lock_def)
  define par q0 where "par = rproc s p" and "q0 = rproc s np"
  obtain T t u where Ap: "A p = (T, t, u)" by (cases "A p")
  from curproc_view [OF view _ p(1)] n obtain m0 where m0: "rv_curproc X s = Ret (p, s\<lparr>rmach := m0\<rparr>)" "rv_view X m0 c n H P" by auto
  have "alloc_result X free ram (s\<lparr>rmach := m0\<rparr>) np (A np) c n H P (rv_allocproc fuel X (s\<lparr>rmach := m0\<rparr>))"
    using m0(2) H n np mem_okD(1) [OF ok i(1)] fuel by (intro allocproc_spec) auto
  then obtain r q a m1 v1 where al: "rv_allocproc fuel X (s\<lparr>rmach := m0\<rparr>) = Ret (r, alloc_st s np m1 q v1)"
      "mem_step X free ram (rvm s) q0 (A np) v1 q a" "5 \<le> card (free (rvm s)) \<longrightarrow> r \<noteq> None"
      "r \<noteq> None \<longrightarrow> card (free (rvm s)) \<le> card (free v1) + 5"
    and ald: "r = None \<and> q = cleared q0 \<and> rv_view X m1 c n H P \<or>
      r = Some np \<and> q = alloced X (rv_nextpid s) a q0 \<and> pid_page (mem v1) (snd (snd a)) (rv_nextpid s) \<and>
        rv_view X m1 c (Suc n) (insert (ProcLock np) H) P"
    by (auto simp: alloc_result_def alloc_st_upd(5) q0_def)
  have safe: "mem_safe X free ram np (rvm s) (procs s) A v ((procs s)[np := q']) (A(np := a'))"
    if "mem_step X free ram (rvm s) q0 (A np) v q' a'" for v q' a' using mem_step_safe [OF ok i(1)] that by (simp add: q0_def)
  show ?thesis
  proof (cases r)
    case None
    with ald have "q = cleared q0" "rv_view X m1 c n H P" by auto
    moreover have "rv_fork fuel X s = Ret (- 1, alloc_st s np m1 q v1)" using m0(1) al(1) None by (simp add: rv_fork_def)
    ultimately show ?thesis using safe [OF al(2)] al(3) None i
      by (intro exI [of _ "- 1"] exI [of _ "alloc_st s np m1 q v1"] exI [of _ a]) (auto simp: q0_def alloc_st_def)
  next
    case (Some k)
    with ald have q: "r = Some np" "q = alloced X (rv_nextpid s) a q0" "pid_page (mem v1) (snd (snd a)) (rv_nextpid s)"
      "rv_view X m1 c (Suc n) (insert (ProcLock np) H) P" by auto
    obtain N t' u' where a: "a = (N, t', u')" by (cases a)
    have z: "r_sz q0 = 0" using mem_okD(1) [OF ok i(1)] i(2) by (simp add: slot_mem_def q0_def)
    have q': "r_state q \<noteq> UNUSED" "r_sz q = 0" "r_pid q = rv_nextpid s" using q(2) z by (simp_all add: alloced_def a)
    note s1 = safe [OF al(2)]
    have ok1: "mem_ok X free ram v1 ((procs s)[np := q]) (A(np := a))" using s1 by (simp add: mem_safe_def)
    have par1: "slot_mem X free ram v1 par (T, t, u)" "slot_mem X free ram v1 q (N, t', u')" 
      "foot X v1 par (T, t, u) \<inter> foot X v1 q (N, t', u') = {}"
      using mem_okD(1) [OF ok1, of p] mem_okD(2) [OF ok1, of p np] mem_okD(1) [OF ok1, of np] ne p(2) i(1) Ap a
      by (simp_all add: par_def)
    have keep: "mem v1 x = mem (rvm s) x" if "pg x \<in> foot X (rvm s) par (T, t, u)" for x
      using s1 that ne p(2) Ap by (auto simp: mem_safe_def others_kept_def par_def)
    have hp: "has_mem X free ram (rvm s) par (T, t, u)" "r_pagetable par \<noteq> 0" "r_trapframe par \<noteq> 0"
      using mem_okD(1) [OF ok p(2)] p(3) Ap by (auto simp: slot_mem_def par_def)
    have pp: "rproc (alloc_st s np m q v) p = par" "rproc (alloc_st s np m q v) np = q" for m q v using i ne p par_def by simp_all
    from fork_image [OF par1(1) _ par1(2) q'(1,2) par1(3), of fuel] p(3) fuel(2) obtain r2 v2 K where
      im: "uvmcopy fuel (VE X) (r_pagetable par) (r_pagetable q) (r_sz par) v1 = Ret (r2, v2)" "r_pagetable q = root K"
      and imd: "r2 = 0 \<and> (\<exists>v3. v3 = on_mem (copy_frame (r_trapframe q) (r_trapframe par)) v2 \<and>
         mem_step X free ram v1 q (N, t', u') v3 (q\<lparr>r_sz := r_sz par\<rparr>) (K, t', u') \<and>
         (\<forall>w < npages (r_sz par). same_page (VE X) v1 T v3 K w) \<and> frame_copied (mem v1) t (mem v3) t' \<and>
         (\<forall>x. pg x = u' \<longrightarrow> mem v3 x = mem v1 x)) \<or>
        r2 = - 1 \<and> mem_step X free ram v1 q (N, t', u') v2 q (K, t', u') \<and> card (free v1) < 3 * npages (r_sz par)"
      by (auto simp: par_def)
    show ?thesis
    proof (cases "r2 = 0")
      case True
      with imd obtain v3 where v3: "v3 = on_mem (copy_frame (r_trapframe q) (r_trapframe par)) v2"
        "mem_step X free ram v1 q (N, t', u') v3 (q\<lparr>r_sz := r_sz par\<rparr>) (K, t', u')"
        "\<forall>w < npages (r_sz par). same_page (VE X) v1 T v3 K w" "frame_copied (mem v1) t (mem v3) t'"
        "\<forall>x. pg x = u' \<longrightarrow> mem v3 x = mem v1 x" by auto
      let ?q = "q\<lparr>r_sz := r_sz par\<rparr>" and ?a = "(K, t', u')"
      have st: "wr64 (r_trapframe q + tf_a0) 0 (alloc_st s np m1 ?q (on_mem (memmove (r_trapframe q) (r_trapframe par) sizeof_trapframe) v2)) =
          alloc_st s np m1 ?q v3"
        by (simp add: v3(1) wr64_def copy_frame_def alloc_st_upd)
      let ?c = "?q\<lparr>r_ofile := dup_ofile (r_ofile par) [0..<NOFILE X] (r_ofile ?q),
          r_cwd := r_cwd par, r_name := safestrcpy X (r_name par) 16, r_parent := Some p, r_state := RUNNABLE\<rparr>"
      have "\<exists>m w. rv_fork fuel X s = Ret (rv_nextpid s, (alloc_st s np m ?c v3)\<lparr>files := w\<rparr>) \<and> rv_view X m c n H P"
        using fork_rest [OF q(4) n Hn H(3) ne p(2) i(1), of ?q "rv_nextpid s" par v3] q'(3) m0(1) al(1) q(1) im(1) True ne ne [symmetric] i(1) p(2) st
        by (simp add: rv_fork_def call_vm_def alloc_st_upd(2) alloc_st_upd(3) [OF i(1)] par_def Let_def)
      then obtain m w where run: "rv_fork fuel X s = Ret (rv_nextpid s, (alloc_st s np m ?c v3)\<lparr>files := w\<rparr>)" "rv_view X m c n H P"
        by blast
      have "mem_step X free ram (rvm s) q0 (A np) v3 ?q ?a" using mem_step_trans [OF al(2) [unfolded a] v3(2)] .
      moreover from this have "mem_step X free ram v3 ?q ?a v3 ?c ?a"
        using q'(1) by (intro mem_step_same) (simp_all add: mem_step_def same_mem_def)
      ultimately have safe3: "mem_safe X free ram np (rvm s) (procs s) A v3 ((procs s)[np := ?c]) (A(np := ?a))"
        by (intro safe) (rule mem_step_trans)
      have child: "?c = fork_child X p par (rv_nextpid s) ?a q0"
        using q(2) im(2) by (simp add: fork_child_def alloced_def a)
      have pk: "pte (VE X) (mem v1) T (adr w 0) = pte (VE X) (mem (rvm s)) T (adr w 0)"
          "d < 4096 \<Longrightarrow> mem v1 (adr (fr (VE X) (rvm s) T w) d) = mem (rvm s) (adr (fr (VE X) (rvm s) T w) d)"
        if "w < npages (r_sz par)" for w d
        using that keep by (intro pages_kept [OF hp(1,2)]; simp add: foot_eq)+
      have same: "same_page (VE X) (rvm s) T v3 K w" if "w < npages (r_sz par)" for w
        using v3(3) pk [OF that] that by (simp add: same_page_def)
      have ft: "frame t" "t \<in> foot X (rvm s) par (T, t, u)"
        using proc_spaceD(5) [OF has_memD(4) [OF hp(1,2)]] hp(3) by (auto simp: foot_eq page_at_def)
      have "mem v1 (adr t d) = mem (rvm s) (adr t d)" if "d < 288" for d
        using that ft pg_adr [OF ft(1), of d] by (intro keep) auto
      then have tf: "frame_copied (mem (rvm s)) t (mem v3) t'" using v3(4) by (simp add: frame_copied_def)
      have "frame u'" using al(2) q'(1) proc_spaceD(6) [OF has_memD(4)] by (auto simp: mem_step_def slot_mem_def a)
      then have pid: "pid_page (mem v3) u' (rv_nextpid s)" using q(3) v3(5) pg_adr [of u'] by (simp add: pid_page_def a)
      show ?thesis
        using run safe3 child same tf pid i(1)
        by (intro exI [of _ "rv_nextpid s"] exI [of _ "(alloc_st s np m ?c v3)\<lparr>files := w\<rparr>"] exI [of _ ?a])
          (simp add: forked_def Ap par_def [symmetric] q0_def [symmetric] alloc_st_def)
    next
      case False
      with imd have f: "r2 = - 1" "mem_step X free ram v1 q (N, t', u') v2 q (K, t', u')" "card (free v1) < 3 * npages (r_sz par)" by auto
      note st = mem_step_trans [OF al(2) [unfolded a] f(2)]
      have run: "rv_fork fuel X s = obind (freeproc fuel X np (alloc_st s np m1 q v2)) (\<lambda>s.
         obind (on_rm (release X (ProcLock np)) s) (\<lambda>s. Ret (- 1, s)))"
        using m0(1) al(1) q(1) im(1) f(1) ne ne [symmetric] i(1) p(2) by (simp add: rv_fork_def call_vm_def alloc_st_upd par_def)
      have f0: "foot X (rvm s) q0 (A np) = {}" using foot_unused [OF mem_okD(1) [OF ok i(1)]] i(2) by (simp add: q0_def)
      have hm: "has_mem X free ram v2 q (K, t', u')" using f(2) q'(1) by (simp add: mem_step_def slot_mem_def)
      have fr: "free v2 \<union> foot X v2 q (K, t', u') = free (rvm s)" using st f0 by (simp add: mem_step_def)
      have mm: "mem v2 x = mem (rvm s) x" if "pg x \<notin> free (rvm s)" for x using st f0 that by (simp add: mem_step_def)
      obtain m v' where g: "obind (freeproc fuel X np (alloc_st s np m1 q v2)) (\<lambda>s.
           obind (on_rm (release X (ProcLock np)) s) (\<lambda>s. Ret (- 1 :: i32, s))) = Ret (- 1, alloc_st s np m (cleared q) v')"
        "rv_view X m c n H P" "free v' = free (rvm s)" "\<forall>x. pg x \<notin> free (rvm s) \<longrightarrow> mem v' x = mem (rvm s) x"
        using give_up [of np "procs s" "alloc_st s np m1 q v2" q "(K, t', u')" "rvm s" c n H P fuel "- 1 :: i32", unfolded alloc_st_simps alloc_st_upd,
          OF i(1) refl q'(2) hm fr mm q(4) Hn fuel(1)] by auto
      have "slot_mem X free ram v' (cleared q) a" "foot X v' (cleared q) a = {}"
        by (simp_all add: a slot_mem_def cleared_def foot_eq pt_pages_def page_at_def)
      then have "mem_step X free ram (rvm s) q0 (A np) v' (cleared q) a" using g(3,4) f0 by (simp add: mem_step_def)
      from safe [OF this] run g al(4) f(3) q(1) i(1) show ?thesis
        by (intro exI [of _ "- 1"] exI [of _ "alloc_st s np m (cleared q) v'"] exI [of _ a]) (auto simp: q0_def par_def alloc_st_def)
    qed
  qed
qed

end

end
