(* ===== verification/Rv_Exit.thy ===== *)
theory Rv_Exit
  imports Rv_Child
begin

text \<open>
  \<open>exit\<close>: the files are closed, the children go to \<open>init\<close>, the parent is woken, and the process
  gives up its hart as a zombie. The last section is \<open>sched\<close>: its checks hold wherever the code calls it.
\<close>

section \<open>Waking\<close>

definition woken :: "nat option \<Rightarrow> rv_chan \<Rightarrow> rv_proc list \<Rightarrow> rv_proc list" where
  "woken cur ch ps = map (\<lambda>j. wake_mark cur ch j (ps ! j)) [0..<length ps]"

lemma length_woken [simp]: "length (woken cur ch ps) = length ps"
  by (simp add: woken_def)

lemma nth_woken [simp]: "j < length ps \<Longrightarrow> woken cur ch ps ! j = wake_mark cur ch j (ps ! j)"
  by (simp add: woken_def)

lemma wake_mark_simps [simp]:
  "r_parent (wake_mark cur ch j q) = r_parent q" "r_chan (wake_mark cur ch j q) = r_chan q"
  "wake_mark cur ch j (q\<lparr>r_parent := x\<rparr>) = (wake_mark cur ch j q)\<lparr>r_parent := x\<rparr>"
  "wake_mark cur ch j (wake_mark cur ch j q) = wake_mark cur ch j q"
  by (simp_all add: wake_mark_def)

lemma wake_mark_cur: "wake_mark (Some j) ch j q = q"
  by (simp add: wake_mark_def)

lemma wake_mark_same: "same_mem q (wake_mark cur ch j q)"
  by (simp add: wake_mark_def same_mem_def)

context rv_lock_laws
begin

lemma wakeup_spec:
  assumes "rv_view X (rmach s) c n H P" and "no_proc_lock H" and "n < max_noff"
  shows "\<exists>m. rv_wakeup X ch s = Ret (s\<lparr>procs := woken (P ! c) ch (procs s), rmach := m\<rparr>) \<and> rv_view X m c n H P"
proof -
  have "map (\<lambda>j. wake_in (P ! c) ch (set [0..<length (procs s)]) j (rproc s j)) [0..<length (procs s)] = woken (P ! c) ch (procs s)"
    by (auto simp: woken_def wake_in_def)
  with wakeup_loop_spec [OF assms, of "[0..<length (procs s)]" ch] show ?thesis by (simp add: rv_wakeup_def lessThan_atLeast0)
qed

end

section \<open>Giving the children to init\<close>

definition chan_of :: "nat option \<Rightarrow> rv_chan" where
  "chan_of i = (case i of None \<Rightarrow> NoChan | Some j \<Rightarrow> ProcChan j)"

definition adopt :: "nat \<Rightarrow> nat option \<Rightarrow> nat set \<Rightarrow> nat \<Rightarrow> rv_proc \<Rightarrow> rv_proc" where
  "adopt p ini J j q = (if j \<in> J \<and> r_parent q = Some p then q\<lparr>r_parent := ini\<rparr> else q)"

definition has_child :: "nat \<Rightarrow> nat set \<Rightarrow> rv_proc list \<Rightarrow> bool" where
  "has_child p J ps \<longleftrightarrow> (\<exists>k \<in> J. r_parent (ps ! k) = Some p)"

text \<open>The table after the children in the slots \<open>J\<close> were given to \<open>ini\<close>.\<close>

definition heirs :: "nat option \<Rightarrow> nat \<Rightarrow> nat option \<Rightarrow> nat set \<Rightarrow> rv_proc list \<Rightarrow> rv_proc list" where
  "heirs cur p ini J ps =
     (if has_child p J ps then woken cur (chan_of ini) (map (\<lambda>j. adopt p ini J j (ps ! j)) [0..<length ps]) else ps)"

lemma length_heirs [simp]: "length (heirs cur p ini J ps) = length ps"
  by (simp add: heirs_def)

lemma nth_heirs:
  "j < length ps \<Longrightarrow> heirs cur p ini J ps ! j =
     (if has_child p J ps then wake_mark cur (chan_of ini) j (adopt p ini J j (ps ! j)) else ps ! j)"
  by (simp add: heirs_def)

lemma has_child_cong:
  "(\<And>k. k \<in> J \<Longrightarrow> r_parent (qs ! k) = r_parent (ps ! k)) \<Longrightarrow> has_child p J qs = has_child p J ps"
  by (simp add: has_child_def)

lemma heirs_step:
  assumes i: "i < length ps" "i \<notin> J" and J: "J \<subseteq> {..<length ps}" and ch: "r_parent (ps ! i) = Some p"
  shows "heirs cur p ini J (woken cur (chan_of ini) (upd_nth i (\<lambda>q. q\<lparr>r_parent := ini\<rparr>) ps)) = heirs cur p ini (insert i J) ps"
    (is "heirs cur p ini J ?ps = _")
proof -
  have hc: "has_child p J ?ps = has_child p J ps" using i J by (intro has_child_cong) auto
  have hi: "has_child p (insert i J) ps" using ch by (simp add: has_child_def)
  have no: "r_parent (ps ! k) \<noteq> Some p" if "\<not> has_child p J ps" "k \<in> J" for k
    using that by (auto simp: has_child_def)
  show ?thesis
    using i ch hi no by (intro nth_equalityI) (auto simp: nth_heirs hc adopt_def)
qed

context rv_lock_laws
begin

lemma reparent_loop_spec:
  assumes "rv_view X (rmach s) c n H P" and "no_proc_lock H" and "n < max_noff"
    and "set is \<subseteq> {..<length (procs s)}" and "distinct is"
  shows "\<exists>m. reparent_loop X p is s = Ret (s\<lparr>procs := heirs (P ! c) p (rv_initproc s) (set is) (procs s), rmach := m\<rparr>) \<and>
     rv_view X m c n H P"
  using assms
proof (induction "is" arbitrary: s)
  case Nil
  then show ?case by (intro exI [of _ "rmach s"]) (simp add: heirs_def has_child_def)
next
  case (Cons i "is")
  have i: "i < length (procs s)" "i \<notin> set is" "set is \<subseteq> {..<length (procs s)}" using Cons.prems(4,5) by auto
  show ?case
  proof (cases "r_parent (rproc s i) = Some p")
    case False
    then have "heirs (P ! c) p (rv_initproc s) (set (i # is)) (procs s) = heirs (P ! c) p (rv_initproc s) (set is) (procs s)"
      by (intro nth_equalityI) (auto simp: nth_heirs has_child_def adopt_def)
    with Cons.IH [of s] Cons.prems False show ?thesis by simp
  next
    case True
    let ?s = "rupd i (\<lambda>q. q\<lparr>r_parent := rv_initproc s\<rparr>) s"
    from wakeup_spec [of ?s c n H P "chan_of (rv_initproc s)"] Cons.prems obtain m1 where
      m1: "rv_wakeup X (chan_of (rv_initproc s)) ?s = Ret (?s\<lparr>procs := woken (P ! c) (chan_of (rv_initproc s)) (procs ?s), rmach := m1\<rparr>)"
        "rv_view X m1 c n H P" by auto
    let ?t = "?s\<lparr>procs := woken (P ! c) (chan_of (rv_initproc s)) (procs ?s), rmach := m1\<rparr>"
    have step: "reparent_loop X p (i # is) s = reparent_loop X p is ?t"
      using m1(1) True by (simp add: chan_of_def Let_def)
    have "\<exists>m. reparent_loop X p is ?t = Ret (?t\<lparr>procs := heirs (P ! c) p (rv_initproc ?t) (set is) (procs ?t), rmach := m\<rparr>) \<and> rv_view X m c n H P"
      using m1(2) Cons.prems by (intro Cons.IH) auto
    then show ?thesis unfolding step using heirs_step [OF i True, of "P ! c" "rv_initproc s"] by (simp add: rupd_def)
  qed
qed

lemma reparent_spec:
  assumes "rv_view X (rmach s) c n H P" and "no_proc_lock H" and "n < max_noff"
  shows "\<exists>m. reparent X p s = Ret (s\<lparr>procs := heirs (P ! c) p (rv_initproc s) {..<length (procs s)} (procs s), rmach := m\<rparr>) \<and>
     rv_view X m c n H P"
  using reparent_loop_spec [OF assms, of "[0..<length (procs s)]" p] by (simp add: reparent_def lessThan_atLeast0)

end

section \<open>sched\<close>

lemma noff_small [simp]: "0 < max_noff" "Suc 0 < max_noff" "Suc (Suc 0) < max_noff"
  by (simp_all add: max_noff_def)

context rv_lock_laws
begin

text \<open>With exactly the lock of the current process held and its state changed, the checks pass.\<close>

lemma sched_check_spec:
  assumes v: "rv_view X (rmach s) c 1 H P" and p: "P ! c = Some p" "ProcLock p \<in> H" "r_state (rproc s p) \<noteq> RUNNING"
  shows "\<exists>m. rv_sched_check X s = Ret (rc_intena (rcpus m ! c), s\<lparr>rmach := m\<rparr>) \<and> rv_view X m c 1 H P"
proof -
  from curproc_view [OF v _ p(1)] obtain m where m: "rv_curproc X s = Ret (p, s\<lparr>rmach := m\<rparr>)" "rv_view X m c 1 H P" by auto
  have "holding X (ProcLock p) m" "rc_noff (rcpus m ! c) = 1" "\<not> intr_get X (hart m)"
    using m(2) p(2) by (auto simp: rv_view_def)
  with m p(3) view_mycpu [OF m(2)] show ?thesis
    by (intro exI [of _ m]) (simp add: rv_sched_check_def)
qed

lemma sched_spec:
  assumes v: "rv_view X (rmach s) c 1 H P" and p: "P ! c = Some p" "ProcLock p \<in> H" "r_state (rproc s p) \<noteq> RUNNING"
  shows "\<exists>m. rv_view X m c 1 H P \<and> rv_sched X sw s = obind (sw (s\<lparr>rmach := m\<rparr>)) (\<lambda>s.
     obind (rv_mycpu X (rmach s)) (\<lambda>c'. Ret (rupd_cpu c' (\<lambda>k. k\<lparr>rc_intena := rc_intena (rcpus m ! c)\<rparr>) s)))"
  using sched_check_spec [OF assms] by (auto simp: rv_sched_def)

end

section \<open>exit\<close>

text \<open>A list of files closed one after the other.\<close>

fun close_run :: "('x, 'f, 'w) rv_ext \<Rightarrow> addr64 list \<Rightarrow> 'f \<Rightarrow> 'f outcome" where
  "close_run X [] w = Ret w"
| "close_run X (f # fs) w = obind (fileclose X f w) (close_run X fs)"

text \<open>What \<open>exit\<close> does with the file layer: close the open files, and drop the directory in a transaction.\<close>

definition exit_files :: "('x, 'f, 'w) rv_ext \<Rightarrow> rv_proc \<Rightarrow> 'f \<Rightarrow> 'f outcome" where
  "exit_files X p w =
     obind (close_run X (filter (\<lambda>f. f \<noteq> 0) (r_ofile p)) w) (\<lambda>w.
     obind (begin_op X w) (\<lambda>w. obind (iput X (r_cwd p) w) (end_op X)))"

lemma on_files_Ret: "f (files s) = Ret w \<Longrightarrow> on_files f s = Ret (s\<lparr>files := w\<rparr>)"
  by (simp add: on_files_def)

lemma rupd_files: "rupd i f (s\<lparr>files := w\<rparr>) = (rupd i f s)\<lparr>files := w\<rparr>"
  by (simp add: rupd_def)

lemma drop_nth_step: "n < length xs \<Longrightarrow> drop n xs = xs ! n # drop (Suc n) xs"
  by (rule Cons_nth_drop_Suc [symmetric])

context rv_os
begin

lemma close_run_law: "\<exists>w'. close_run X fs w = Ret w'"
proof (induction fs arbitrary: w)
  case (Cons f fs)
  from fileclose_law [of f w] Cons.IH show ?case by auto
qed simp

lemma close_files_spec:
  assumes "p < length (procs s)" and "k \<le> length (r_ofile (rproc s p))"
    and "close_run X (filter (\<lambda>f. f \<noteq> 0) (drop k (r_ofile (rproc s p)))) (files s) = Ret w"
  shows "rv_close_files X p [k..<length (r_ofile (rproc s p))] s =
     Ret ((rupd p (\<lambda>q. q\<lparr>r_ofile := take k (r_ofile q) @ replicate (length (r_ofile q) - k) 0\<rparr>) s)\<lparr>files := w\<rparr>)"
  using assms
proof (induction "length (r_ofile (rproc s p)) - k" arbitrary: s k)
  case 0
  then have "upd_nth p (\<lambda>q. q\<lparr>r_ofile := take k (r_ofile q) @ replicate (length (r_ofile q) - k) 0\<rparr>) (procs s) = procs s"
    by (intro upd_nth_same) simp
  with 0 show ?case by (simp add: rupd_def)
next
  case (Suc n)
  let ?o = "r_ofile (rproc s p)"
  have k: "k < length ?o" using Suc.hyps(2) by simp
  have up: "[k..<length ?o] = k # [Suc k..<length ?o]" using k by (rule upt_conv_Cons)
  have dr: "drop k ?o = ?o ! k # drop (Suc k) ?o" using k by (rule drop_nth_step)
  show ?case
  proof (cases "?o ! k = 0")
    case True
    have "take (Suc k) ?o @ replicate (length ?o - Suc k) 0 = take k ?o @ replicate (length ?o - k) 0"
      using k True by (simp add: take_Suc_conv_app_nth Suc_diff_Suc [symmetric])
    then have "rupd p (\<lambda>q. q\<lparr>r_ofile := take (Suc k) (r_ofile q) @ replicate (length (r_ofile q) - Suc k) 0\<rparr>) s =
      rupd p (\<lambda>q. q\<lparr>r_ofile := take k (r_ofile q) @ replicate (length (r_ofile q) - k) 0\<rparr>) s"
      by (simp add: rupd_def upd_nth_def)
    with Suc.hyps(1) [of s "Suc k"] Suc.hyps(2) Suc.prems k True dr show ?thesis by (simp add: up)
  next
    case False
    with Suc.prems(3) dr obtain w1 where w1: "fileclose X (?o ! k) (files s) = Ret w1"
      "close_run X (filter (\<lambda>f. f \<noteq> 0) (drop (Suc k) ?o)) w1 = Ret w"
      using fileclose_law [of "?o ! k" "files s"] by auto
    let ?s = "(rupd p (\<lambda>q. q\<lparr>r_ofile := (r_ofile q)[k := 0]\<rparr>) s)\<lparr>files := w1\<rparr>"
    have o: "r_ofile (rproc ?s p) = ?o[k := 0]" using Suc.prems(1) by simp
    have "take (Suc k) (?o[k := 0]) @ replicate (length ?o - Suc k) 0 = take k ?o @ replicate (length ?o - k) 0"
      using k by (simp add: take_Suc_conv_app_nth Suc_diff_Suc [symmetric])
    then have eq: "upd_nth p (\<lambda>q. q\<lparr>r_ofile := take (Suc k) (r_ofile q) @ replicate (length (r_ofile q) - Suc k) 0\<rparr>) (procs ?s) =
      upd_nth p (\<lambda>q. q\<lparr>r_ofile := take k (r_ofile q) @ replicate (length (r_ofile q) - k) 0\<rparr>) (procs s)"
      using Suc.prems(1) by (simp add: upd_nth_def)
    have step: "rv_close_files X p [k..<length ?o] s = rv_close_files X p [Suc k..<length (r_ofile (rproc ?s p))] ?s"
      using False w1(1) unfolding o by (simp add: up on_files_Ret rupd_files)
    have "rv_close_files X p [Suc k..<length (r_ofile (rproc ?s p))] ?s =
      Ret ((rupd p (\<lambda>q. q\<lparr>r_ofile := take (Suc k) (r_ofile q) @ replicate (length (r_ofile q) - Suc k) 0\<rparr>) ?s)\<lparr>files := w\<rparr>)"
      using Suc.hyps(2) Suc.prems(1) k w1(2) by (intro Suc.hyps(1)) (simp_all add: o)
    with eq show ?thesis unfolding step by (simp add: rupd_def)
  qed
qed

end

text \<open>
  The table when the process in slot \<open>p\<close> has exited: its own slot, and the other slots, whose parent is
  \<open>init\<close> if it was \<open>p\<close>, and which are runnable if they slept on the parent of \<open>p\<close>, or on \<open>init\<close> when \<open>p\<close> had children.
\<close>

definition exited :: "i32 \<Rightarrow> rv_proc \<Rightarrow> rv_proc" where
  "exited status q = q\<lparr>r_ofile := replicate (length (r_ofile q)) 0, r_cwd := 0, r_xstate := status, r_state := ZOMBIE\<rparr>"

definition exit_wakes :: "nat \<Rightarrow> nat option \<Rightarrow> rv_proc list \<Rightarrow> rv_proc \<Rightarrow> bool" where
  "exit_wakes p ini ps q \<longleftrightarrow> r_state q = SLEEPING \<and>
     (r_chan q = chan_of (r_parent (ps ! p)) \<or> has_child p {..<length ps} ps \<and> r_chan q = chan_of ini)"

definition bereaved :: "nat \<Rightarrow> nat option \<Rightarrow> rv_proc list \<Rightarrow> rv_proc \<Rightarrow> rv_proc" where
  "bereaved p ini ps q =
     q\<lparr>r_parent := (if r_parent q = Some p then ini else r_parent q),
       r_state := (if exit_wakes p ini ps q then RUNNABLE else r_state q)\<rparr>"

definition exit_table :: "nat \<Rightarrow> nat option \<Rightarrow> i32 \<Rightarrow> rv_proc list \<Rightarrow> rv_proc list" where
  "exit_table p ini status ps =
     map (\<lambda>j. if j = p then exited status (ps ! j) else bereaved p ini ps (ps ! j)) [0..<length ps]"

lemma exit_table_eq:
  assumes p: "p < length ps" and par: "r_parent (ps ! p) \<noteq> Some p"
    and T1: "T1 = upd_nth p (\<lambda>q. q\<lparr>r_ofile := replicate (length (r_ofile q)) 0, r_cwd := 0\<rparr>) ps"
    and T2: "T2 = heirs (Some p) p ini {..<length ps} T1"
  shows "upd_nth p (\<lambda>q. q\<lparr>r_xstate := status, r_state := ZOMBIE\<rparr>) (woken (Some p) (chan_of (r_parent (T2 ! p))) T2) =
     exit_table p ini status ps"
proof (rule nth_equalityI)
  have len: "length T1 = length ps" "length T2 = length ps" by (simp_all add: T1 T2)
  then show "length (upd_nth p (\<lambda>q. q\<lparr>r_xstate := status, r_state := ZOMBIE\<rparr>) (woken (Some p) (chan_of (r_parent (T2 ! p))) T2)) =
    length (exit_table p ini status ps)" by (simp add: exit_table_def)
  have hc: "has_child p {..<length ps} T1 = has_child p {..<length ps} ps" by (intro has_child_cong) (auto simp: T1)
  have T1n: "T1 ! j = (if j = p then (ps ! p)\<lparr>r_ofile := replicate (length (r_ofile (ps ! p))) 0, r_cwd := 0\<rparr> else ps ! j)"
    if "j < length ps" for j using that by (auto simp: T1)
  have T2n: "T2 ! j = (if has_child p {..<length ps} ps then wake_mark (Some p) (chan_of ini) j (adopt p ini {..<length ps} j (T1 ! j)) else T1 ! j)"
    if "j < length ps" for j using that by (simp add: T2 nth_heirs len hc)
  have T2p: "T2 ! p = T1 ! p" using T2n [OF p] T1n [OF p] par by (simp add: adopt_def wake_mark_cur)
  fix j assume "j < length (upd_nth p (\<lambda>q. q\<lparr>r_xstate := status, r_state := ZOMBIE\<rparr>) (woken (Some p) (chan_of (r_parent (T2 ! p))) T2))"
  then have j: "j < length ps" by (simp add: len)
  have "r_parent (ps ! j) = Some p \<Longrightarrow> has_child p {..<length ps} ps" using j by (auto simp: has_child_def)
  then show "upd_nth p (\<lambda>q. q\<lparr>r_xstate := status, r_state := ZOMBIE\<rparr>) (woken (Some p) (chan_of (r_parent (T2 ! p))) T2) ! j =
    exit_table p ini status ps ! j"
    using j T1n [OF p]
    by (cases "j = p") (auto simp: T2p len wake_mark_cur exit_table_def exited_def T2n T1n bereaved_def exit_wakes_def adopt_def wake_mark_def)
qed

context rv_os
begin

text \<open>\<open>exit\<close> up to the point where it changes the table.\<close>

lemma exit_start:
  assumes p: "p < length (procs s)" and o: "length (r_ofile (rproc s p)) = NOFILE X"
    and w: "exit_files X (rproc s p) (files s) = Ret w"
  shows "obind (rv_close_files X p [0..<NOFILE X] s) (\<lambda>s. obind (on_files (begin_op X) s) (\<lambda>s.
       obind (on_files (iput X (r_cwd (rproc s p))) s) (\<lambda>s. obind (on_files (end_op X) s) (\<lambda>s.
       F (rupd p (\<lambda>q. q\<lparr>r_cwd := 0\<rparr>) s))))) =
     F ((rupd p (\<lambda>q. q\<lparr>r_ofile := replicate (length (r_ofile q)) 0, r_cwd := 0\<rparr>) s)\<lparr>files := w\<rparr>)"
proof -
  obtain w1 where w1: "close_run X (filter (\<lambda>f. f \<noteq> 0) (drop 0 (r_ofile (rproc s p)))) (files s) = Ret w1"
    using close_run_law by blast
  note c = close_files_spec [OF p _ w1, unfolded o, simplified]
  from w w1 obtain w2 w3 where "begin_op X w1 = Ret w2" "iput X (r_cwd (rproc s p)) w2 = Ret w3" "end_op X w3 = Ret w"
    using begin_op_law [of w1] iput_law [of "r_cwd (rproc s p)"] by (auto simp: exit_files_def) (metis obind.simps(1))
  with p show ?thesis by (simp add: c on_files_Ret rupd_files) (simp add: rupd_def comp_def)
qed

lemma exit_spec:
  assumes v: "rv_view X (rmach s) c 0 {} P" and p: "P ! c = Some p" "p < length (procs s)" "rv_initproc s \<noteq> Some p"
    and par: "r_parent (rproc s p) \<noteq> Some p" and o: "length (r_ofile (rproc s p)) = NOFILE X"
  shows "\<exists>m w. exit_files X (rproc s p) (files s) = Ret w \<and> rv_view X m c 1 {ProcLock p} P \<and>
     (\<forall>sw. rv_exit X sw status s =
       obind (sw (s\<lparr>procs := exit_table p (rv_initproc s) status (procs s), rmach := m, files := w\<rparr>)) (\<lambda>s.
       obind (rv_mycpu X (rmach s)) (\<lambda>_. Panic ''zombie exit'')))"
proof -
  have np: "no_proc_lock {WaitLock}" by (simp add: no_proc_lock_def)
  from myproc_view [OF v] p(1) obtain m0 where m0: "rv_myproc X s = Ret (Some p, s\<lparr>rmach := m0\<rparr>)" "rv_view X m0 c 0 {} P" by auto
  obtain w where w: "exit_files X (rproc s p) (files s) = Ret w"
    using close_run_law [of "filter (\<lambda>f. f \<noteq> 0) (r_ofile (rproc s p))" "files s"] begin_op_law iput_law end_op_law
    unfolding exit_files_def by (metis obind.simps(1))
  let ?ini = "rv_initproc s" and ?T1 = "upd_nth p (\<lambda>q. q\<lparr>r_ofile := replicate (length (r_ofile q)) 0, r_cwd := 0\<rparr>) (procs s)"
  let ?T2 = "heirs (Some p) p ?ini {..<length (procs s)} ?T1"
  let ?T3 = "woken (Some p) (chan_of (r_parent (?T2 ! p))) ?T2"
  let ?T4 = "upd_nth p (\<lambda>q. q\<lparr>r_xstate := status, r_state := ZOMBIE\<rparr>) ?T3"
  define st where "st T m = s\<lparr>procs := T, rmach := m, files := w\<rparr>" for T m
  have st [simp]: "procs (st T m) = T" "rmach (st T m) = m" "rv_initproc (st T m) = ?ini" "(st T m)\<lparr>rmach := m'\<rparr> = st T m'"
    "(st T m)\<lparr>procs := T'\<rparr> = st T' m" "rupd p f (st T m) = st (upd_nth p f T) m" for T T' m m' f
    by (simp_all add: st_def rupd_def)
  from acquire_view [of "st ?T1 m0" c 0 "{}" P WaitLock] m0(2) obtain m1 where
    m1: "on_rm (acquire X WaitLock) (st ?T1 m0) = Ret (st ?T1 m1)" "rv_view X m1 c 1 {WaitLock} P" by auto
  from reparent_spec [of "st ?T1 m1" c 1 "{WaitLock}" P p] m1(2) np p(1) obtain m2 where
    m2: "reparent X p (st ?T1 m1) = Ret (st ?T2 m2)" "rv_view X m2 c 1 {WaitLock} P" by auto
  from wakeup_spec [of "st ?T2 m2" c 1 "{WaitLock}" P "chan_of (r_parent (?T2 ! p))"] m2(2) np p(1) obtain m3 where
    m3: "rv_wakeup X (chan_of (r_parent (?T2 ! p))) (st ?T2 m2) = Ret (st ?T3 m3)" "rv_view X m3 c 1 {WaitLock} P" by auto
  from acquire_view [of "st ?T3 m3" c 1 "{WaitLock}" P "ProcLock p"] m3(2) obtain m4 where
    m4: "on_rm (acquire X (ProcLock p)) (st ?T3 m3) = Ret (st ?T3 m4)" "rv_view X m4 c 2 {ProcLock p, WaitLock} P"
    by (auto simp: numeral_2_eq_2)
  from release_view [of "st ?T4 m4" c 1 "{ProcLock p, WaitLock}" P WaitLock] m4(2) obtain m5 where
    m5: "on_rm (release X WaitLock) (st ?T4 m4) = Ret (st ?T4 m5)" "rv_view X m5 c 1 {ProcLock p} P"
    by (auto simp: numeral_2_eq_2 insert_Diff_if)
  have "r_state (?T4 ! p) \<noteq> RUNNING" using p(2) by simp
  with sched_check_spec [of "st ?T4 m5" c "{ProcLock p}" P p] m5(2) p(1) obtain m6 where
    m6: "rv_sched_check X (st ?T4 m5) = Ret (rc_intena (rcpus m6 ! c), st ?T4 m6)" "rv_view X m6 c 1 {ProcLock p} P" by auto
  have run: "rv_exit X sw status s = obind (sw (st ?T4 m6)) (\<lambda>s. obind (rv_mycpu X (rmach s)) (\<lambda>_. Panic ''zombie exit''))" for sw
  proof -
    define F where "F = (\<lambda>s. obind (on_rm (acquire X WaitLock) s) (\<lambda>s. obind (reparent X p s) (\<lambda>s.
       obind (rv_wakeup X (chan_of (r_parent (rproc s p))) s) (\<lambda>s. obind (on_rm (acquire X (ProcLock p)) s) (\<lambda>s.
       obind (on_rm (release X WaitLock) (rupd p (\<lambda>q. q\<lparr>r_xstate := status, r_state := ZOMBIE\<rparr>) s)) (\<lambda>s.
       obind (rv_sched X sw s) (\<lambda>_. Panic ''zombie exit'' :: ('x, 'f, 'w) rv_st outcome)))))))"
    have "(rupd p (\<lambda>q. q\<lparr>r_ofile := replicate (length (r_ofile q)) 0, r_cwd := 0\<rparr>) (s\<lparr>rmach := m0\<rparr>))\<lparr>files := w\<rparr> = st ?T1 m0"
      by (simp add: st_def rupd_def)
    with exit_start [of p "s\<lparr>rmach := m0\<rparr>" w F] p(2) o w m0(1) p(3) [symmetric] have "rv_exit X sw status s = F (st ?T1 m0)"
      by (simp add: rv_exit_def F_def chan_of_def Let_def)
    then show ?thesis using m1(1) m2(1) m3(1) m4(1) m5(1) m6(1) by (simp add: F_def rv_sched_def obind_assoc)
  qed
  have "?T4 = exit_table p ?ini status (procs s)" using p(2) par by (intro exit_table_eq) simp_all
  with w m6(2) run show ?thesis by (intro exI [of _ m6] exI [of _ w]) (simp add: st_def)
qed

end

text \<open>An exit touches no memory: the zombie keeps its pages until it is waited for.\<close>

lemma bereaved_same: "same_mem q (bereaved p ini ps q)"
  by (simp add: same_mem_def bereaved_def exit_wakes_def)

lemma exited_same: "r_state q \<noteq> UNUSED \<Longrightarrow> same_mem q (exited status q)"
  by (simp add: same_mem_def exited_def)

lemma exit_table_mem:
  assumes "mem_ok X free ram v ps A" and "r_state (ps ! p) \<noteq> UNUSED"
  shows "mem_ok X free ram v (exit_table p ini status ps) A" and "owned X v (exit_table p ini status ps) A = owned X v ps A"
proof -
  have "same_mem (ps ! j) (exit_table p ini status ps ! j)" if "j < length ps" for j
    using that assms(2) bereaved_same exited_same by (auto simp: exit_table_def)
  moreover have "length (exit_table p ini status ps) = length ps" by (simp add: exit_table_def)
  ultimately show "mem_ok X free ram v (exit_table p ini status ps) A" "owned X v (exit_table p ini status ps) A = owned X v ps A"
    using same_mem_ok [OF assms(1), of "exit_table p ini status ps"] by auto
qed

end
