(* ===== verification/Rv_Wait.thy ===== *)
theory Rv_Wait
  imports Rv_Exit
begin

text \<open>
  \<open>wait\<close>: the exit status of a zombie child is copied to the user and the child is freed. Before that, which
  pages of a process the copies to and from user memory can reach.
\<close>

section \<open>The pages the user can reach\<close>

context proc_layout
begin

lemma mkpte_user: "frame k \<Longrightarrow> take_bit 10 f = f \<Longrightarrow> mkpte (VE X) k f AND 16 \<noteq> 0 \<longleftrightarrow> bit f 4"
proof -
  assume k: "frame k" and f: "take_bit 10 f = f"
  have "(mkpte (VE X) k f AND 16 \<noteq> 0) = bit (mkpte (VE X) k f) 4"
    using and_exp_eq_0_iff_not_bit [of "mkpte (VE X) k f" 4] by simp
  then show ?thesis using bit_mkpte [OF k, of f 4] by simp
qed

text \<open>Below its size, and the page with the pid.\<close>

lemma user_reach:
  assumes ps: "proc_space X free ram v T sz t u" and w: "uacc (VE X) (mem v) T w"
  shows "w < npages sz \<or> w = v_usys"
proof -
  note S = proc_spaceD [OF ps]
  have w26: "w < 2 ^ 26" "pte (VE X) (mem v) T (adr w 0) AND 1 \<noteq> 0" "pte (VE X) (mem v) T (adr w 0) AND 16 \<noteq> 0"
    using w by (auto simp: uacc_def)
  have top: "pte (VE X) (mem v) T (adr v_tramp 0) AND 16 = 0" "pte (VE X) (mem v) T (adr v_trapf 0) AND 16 = 0"
    using S(7) mkpte_user [OF trampoline_law(1), of 10] mkpte_user [OF S(5), of 6] by (auto simp: top_pages_def take_bit_eq_mod bit_simps)
  have "npages sz \<le> w \<Longrightarrow> \<not> adr w 0 < USYSCALL X" using S(8) [of "adr w 0"] pg_vpage [OF w26(1)] w26(2) by auto
  with below_top [OF vpage_less [OF w26(1)]] pg_vpage [OF w26(1)] top w26(3) show ?thesis
    by (cases "npages sz \<le> w") auto
qed

lemma proc_user_space:
  assumes hm: "has_mem X free ram v p (T, t, u)" and nz: "r_pagetable p \<noteq> 0" "r_usyscall p \<noteq> 0"
  shows "user_space (VE X) free ram v T"
    and "fr (VE X) v T ` Collect (uacc (VE X) (mem v) T) \<subseteq> fr (VE X) v T ` {..<npages (r_sz p)} \<union> {u}"
    and "uacc (VE X) (mem v) T v_usys" and "fr (VE X) v T v_usys = u"
proof -
  note D = has_memD [OF hm] and S = proc_spaceD [OF has_memD(4) [OF hm nz(1)]]
  have usys: "pte (VE X) (mem v) T (adr v_usys 0) = mkpte (VE X) u 18" using S(7) by (simp add: top_pages_def)
  show u: "fr (VE X) v T v_usys = u" using S(6) by (simp add: usys take_bit_eq_mod)
  show "uacc (VE X) (mem v) T v_usys"
    using S(6) mkpte_user [OF S(6), of 18] v_bounds by (simp add: uacc_def usys take_bit_eq_mod bit_simps)
  let ?U = "Collect (uacc (VE X) (mem v) T)"
  have U: "?U \<subseteq> {..<npages (r_sz p)} \<union> {v_usys}" using user_reach [OF D(4) [OF nz(1)]] by auto
  then show "fr (VE X) v T ` ?U \<subseteq> fr (VE X) v T ` {..<npages (r_sz p)} \<union> {u}" using u by auto
  have un: "u \<notin> ran T \<union> fr (VE X) v T ` {..<npages (r_sz p)}" "u \<in> ram - free v"
    using D(5,7) nz by (auto simp: foot_eq page_at_def pt_pages_def)
  have "uspace (VE X) free ram v T ({..<npages (r_sz p)} \<union> {v_usys})"
    using S(1) u un leaf_mkpte [OF S(6), of 18] v_bounds unfolding uspace_def by (auto simp: usys inj_on_def)
  then show "user_space (VE X) free ram v T" using U unfolding uspace_def by (auto intro: inj_on_subset)
qed

text \<open>So a copy to user memory is an operation on the process alone.\<close>

lemma copyout_step:
  assumes sm: "slot_mem X free ram v p (T, t, u)" and used: "r_state p \<noteq> UNUSED"
    and DL: "D < 2 ^ 64" "L < 2 ^ 64" "pages D L < fuel"
    and src: "\<And>i. i < L \<Longrightarrow> pg (src + of_nat i) \<notin> fr (VE X) v T ` {..<npages (r_sz p)} \<union> {u}"
  shows "\<exists>k m. copyout fuel (VE X) (r_pagetable p) (of_nat D) src (of_nat L) v = Ret (if k = L then 0 else - 1, v\<lparr>mem := m\<rparr>) \<and>
     copy_extent (VE X) (mem v) T D L k \<and> (\<forall>i < k. m (ua (VE X) (mem v) T (D + i)) = mem v (src + of_nat i)) \<and>
     (\<forall>x. x \<notin> (\<lambda>i. ua (VE X) (mem v) T (D + i)) ` {..<k} \<longrightarrow> m x = mem v x) \<and>
     (\<forall>i < k. pg (ua (VE X) (mem v) T (D + i)) \<in> foot X v p (T, t, u)) \<and> free (v\<lparr>mem := m\<rparr>) = free v \<and>
     foot X (v\<lparr>mem := m\<rparr>) p (T, t, u) = foot X v p (T, t, u) \<and> mem_step X free ram v p (T, t, u) (v\<lparr>mem := m\<rparr>) p (T, t, u)"
proof -
  have hm: "has_mem X free ram v p (T, t, u)" and nz: "r_pagetable p \<noteq> 0" "r_usyscall p \<noteq> 0"
    using sm used by (auto simp: slot_mem_def)
  note U = proc_user_space [OF hm nz]
  from copyout_spec [OF U(1) DL, of src] src U(2) obtain k m where
    k: "copyout fuel (VE X) (root T) (of_nat D) src (of_nat L) v = Ret (if k = L then 0 else - 1, v\<lparr>mem := m\<rparr>)"
      "copy_extent (VE X) (mem v) T D L k" "\<forall>i < k. m (ua (VE X) (mem v) T (D + i)) = mem v (src + of_nat i)"
      "\<forall>x. x \<notin> (\<lambda>i. ua (VE X) (mem v) T (D + i)) ` {..<k} \<longrightarrow> m x = mem v x" by blast
  let ?W = "fr (VE X) v T ` Collect (uacc (VE X) (mem v) T)"
  have in_W: "pg (ua (VE X) (mem v) T (D + i)) \<in> ?W" if "i < k" for i
  proof -
    have a: "uacc (VE X) (mem v) T ((D + i) div 4096)" using k(2) that by (simp add: copy_extent_def)
    then have "frame (fr (VE X) v T ((D + i) div 4096))" using uspaceD(4) [OF U(1)] free_frame by auto
    then have "pg (ua (VE X) (mem v) T (D + i)) = fr (VE X) v T ((D + i) div 4096)" by (simp add: ua_def pg_adr)
    then show ?thesis using a by auto
  qed
  have out: "m x = mem v x" if "pg x \<notin> ?W" for x
  proof (rule k(4) [rule_format])
    show "x \<notin> (\<lambda>i. ua (VE X) (mem v) T (D + i)) ` {..<k}"
    proof
      assume "x \<in> (\<lambda>i. ua (VE X) (mem v) T (D + i)) ` {..<k}"
      then obtain i where "i < k" "x = ua (VE X) (mem v) T (D + i)" by auto
      with in_W [of i] that show False by simp
    qed
  qed
  have W: "?W \<inter> ran (fst (T, t, u)) = {}" "?W \<inter> free v = {}" "?W \<subseteq> foot X v p (T, t, u)"
    using uspaceD(4) [OF U(1)] U(2) nz by (auto simp: foot_eq page_at_def pt_pages_def)
  from write_step [OF sm out W(1,3)] slot_write [OF sm out W(2,1)] in_W W(3) k has_memD(3) [OF hm nz(1)] show ?thesis
    by (intro exI [of _ k] exI [of _ m]) auto
qed

end

section \<open>The scan for a zombie\<close>

text \<open>What \<open>wait\<close> does with the zombie in slot \<open>i\<close>, whose lock it holds.\<close>

definition wait_reap ::
    "nat \<Rightarrow> ('x, 'f, 'w) rv_ext \<Rightarrow> nat \<Rightarrow> u64 \<Rightarrow> nat \<Rightarrow> ('x, 'f, 'w) rv_st \<Rightarrow> ((i32 + bool) \<times> ('x, 'f, 'w) rv_st) outcome" where
  "wait_reap fuel X p addr i s =
     (let pid = r_pid (rproc s i);
          copied = (if addr = 0 then Ret (0, s)
                    else call_vm (copyout fuel (VE X) (r_pagetable (rproc s p)) addr (xstate_addr X i) 4)
                           (wr32 (xstate_addr X i) (r_xstate (rproc s i)) s))
      in obind copied (\<lambda>(r, s).
         if addr \<noteq> 0 \<and> slt r 0 then
           obind (on_rm (release X (ProcLock i)) s) (\<lambda>s.
           obind (on_rm (release X WaitLock) s) (\<lambda>s. Ret (Inl (- 1), s)))
         else
           obind (freeproc fuel X i s) (\<lambda>s.
           obind (on_rm (release X (ProcLock i)) s) (\<lambda>s.
           obind (on_rm (release X WaitLock) s) (\<lambda>s. Ret (Inl pid, s))))))"

abbreviation zombie_child :: "('x, 'f, 'w) rv_st \<Rightarrow> nat \<Rightarrow> nat \<Rightarrow> bool" where
  "zombie_child s p i \<equiv> r_parent (rproc s i) = Some p \<and> r_state (rproc s i) = ZOMBIE"

context rv_lock_laws
begin

lemma wait_scan_spec:
  assumes "rv_view X (rmach s) c n H P" and "no_proc_lock H" and "n < max_noff"
  shows "\<exists>m. case find (zombie_child s p) js of
       None \<Rightarrow> rv_wait_scan fuel X p addr kids js s =
           Ret (Inr (kids \<or> (\<exists>i \<in> set js. r_parent (rproc s i) = Some p)), s\<lparr>rmach := m\<rparr>) \<and> rv_view X m c n H P
     | Some i \<Rightarrow> rv_wait_scan fuel X p addr kids js s = wait_reap fuel X p addr i (s\<lparr>rmach := m\<rparr>) \<and>
           rv_view X m c (Suc n) (insert (ProcLock i) H) P"
  using assms
proof (induction js arbitrary: s kids)
  case Nil
  then show ?case by (intro exI [of _ "rmach s"]) simp
next
  case (Cons i js)
  have l: "ProcLock i \<notin> H" using Cons.prems(2) by (simp add: no_proc_lock_def)
  consider "r_parent (rproc s i) \<noteq> Some p" | "r_parent (rproc s i) = Some p" "r_state (rproc s i) \<noteq> ZOMBIE" | "zombie_child s p i" by blast
  then show ?case
  proof cases
    case 1
    with Cons.IH [of s kids] Cons.prems show ?thesis by (auto split: option.splits)
  next
    case 2
    from critical [OF Cons.prems(1) l Cons.prems(3), of "\<lambda>s. s"] obtain m1 m2 where
      m: "on_rm (acquire X (ProcLock i)) s = Ret (s\<lparr>rmach := m1\<rparr>)"
        "on_rm (release X (ProcLock i)) (s\<lparr>rmach := m1\<rparr>) = Ret (s\<lparr>rmach := m2\<rparr>)" "rv_view X m2 c n H P" by auto
    from Cons.IH [of "s\<lparr>rmach := m2\<rparr>" True] m(3) Cons.prems 2 m(1,2) show ?thesis
      by (auto split: option.splits)
  next
    case 3
    from acquire_view [OF Cons.prems(1) l Cons.prems(3)] obtain m where
      m: "on_rm (acquire X (ProcLock i)) s = Ret (s\<lparr>rmach := m\<rparr>)" "rv_view X m c (Suc n) (insert (ProcLock i) H) P" by blast
    with 3 show ?thesis by (intro exI [of _ m]) (simp add: wait_reap_def)
  qed
qed

text \<open>The two releases at the end of \<open>wait\<close>.\<close>

lemma release_both:
  assumes v: "rv_view X (rmach s) c (Suc (Suc n)) (insert (ProcLock i) H) P" and H: "ProcLock i \<notin> H" "WaitLock \<in> H"
  shows "\<exists>m. obind (on_rm (release X (ProcLock i)) s) (\<lambda>s. obind (on_rm (release X WaitLock) s) (\<lambda>s. Ret (z, s))) =
     Ret (z, s\<lparr>rmach := m\<rparr>) \<and> rv_view X m c n (H - {WaitLock}) P"
proof -
  from release_view [OF v, of "ProcLock i"] H obtain m1 where
    m1: "on_rm (release X (ProcLock i)) s = Ret (s\<lparr>rmach := m1\<rparr>)" "rv_view X m1 c (Suc n) H P" by auto
  from release_view [of "s\<lparr>rmach := m1\<rparr>" c n H P WaitLock] m1 H show ?thesis by auto
qed

end

section \<open>Reaping\<close>

text \<open>The user addresses where \<open>wait\<close> puts the exit status.\<close>

definition status_at :: "('x, 'f, 'w) rv_ext \<Rightarrow> 'w vm \<Rightarrow> ptree \<Rightarrow> u64 \<Rightarrow> nat \<Rightarrow> addr64" where
  "status_at X v T addr k = ua (VE X) (mem v) T (unat addr + k)"

definition status_word :: "('x, 'f, 'w) rv_ext \<Rightarrow> 'w vm \<Rightarrow> ptree \<Rightarrow> u64 \<Rightarrow> 'w vm \<Rightarrow> i32 \<Rightarrow> bool" where
  "status_word X v T addr v' status \<longleftrightarrow> (\<forall>k < 4. mem v' (status_at X v T addr k) = ucast (drop_bit (8 * k) status))"

text \<open>
  Every process but the one in slot \<open>i\<close> keeps its slot, its pages and their contents, but for the bytes of
  the exit status in the memory of \<open>p\<close>.
\<close>

definition wait_kept ::
    "('x, 'f, 'w) rv_ext \<Rightarrow> (nat \<Rightarrow> pages_of) \<Rightarrow> nat \<Rightarrow> nat \<Rightarrow> u64 \<Rightarrow> 'w vm \<Rightarrow> rv_proc list \<Rightarrow> 'w vm \<Rightarrow> rv_proc list \<Rightarrow> bool" where
  "wait_kept X A i p addr v ps v' ps' \<longleftrightarrow> length ps' = length ps \<and>
     (\<forall>j < length ps. j \<noteq> i \<longrightarrow> ps' ! j = ps ! j \<and> foot X v' (ps ! j) (A j) = foot X v (ps ! j) (A j) \<and>
        (\<forall>x. pg x \<in> foot X v (ps ! j) (A j) \<longrightarrow>
           (j = p \<and> addr \<noteq> 0 \<longrightarrow> x \<notin> status_at X v (fst (A p)) addr ` {..<4}) \<longrightarrow> mem v' x = mem v x))"

text \<open>The result \<open>(r, v', ps')\<close> of \<open>wait\<close> with the zombie in slot \<open>i\<close>.\<close>

definition reaped ::
    "('x, 'f, 'w) rv_ext \<Rightarrow> ('w vm \<Rightarrow> nat set) \<Rightarrow> nat set \<Rightarrow> (nat \<Rightarrow> pages_of) \<Rightarrow> nat \<Rightarrow> nat \<Rightarrow> u64 \<Rightarrow> 'w vm \<Rightarrow> rv_proc list \<Rightarrow>
     i32 \<Rightarrow> 'w vm \<Rightarrow> rv_proc list \<Rightarrow> bool" where
  "reaped X free ram A i p addr v ps r v' ps' \<longleftrightarrow>
     mem_ok X free ram v' ps' A \<and> free v' \<union> owned X v' ps' A = free v \<union> owned X v ps A \<and> wait_kept X A i p addr v ps v' ps' \<and>
     (r = r_pid (ps ! i) \<and> ps' ! i = cleared (ps ! i) \<and> free v' = free v \<union> foot X v (ps ! i) (A i) \<and>
        (addr \<noteq> 0 \<longrightarrow> status_word X v (fst (A p)) addr v' (r_xstate (ps ! i))) \<or>
      r = - 1 \<and> addr \<noteq> 0 \<and> ps' = ps \<and> free v' = free v \<and>
        (\<exists>k < 4. \<not> uacc (VE X) (mem v) (fst (A p)) ((unat addr + k) div 4096)))"

lemma wr32_at: "k < 4 \<Longrightarrow> mem (rvm (wr32 a w s)) (a + of_nat k) = ucast (drop_bit (8 * k) w)"
  by (simp add: wr32_def unat_of_nat)

lemma wr32_not_at: "(\<And>k. k < 4 \<Longrightarrow> x \<noteq> a + of_nat k) \<Longrightarrow> mem (rvm (wr32 a w s)) x = mem (rvm s) x"
proof -
  assume a: "\<And>k. k < 4 \<Longrightarrow> x \<noteq> a + of_nat k"
  have "\<not> unat (x - a) < 4" using a [of "unat (x - a)"] by auto
  then show ?thesis by (simp add: wr32_def)
qed

context rv_kernel
begin

text \<open>The exit status is copied to the user.\<close>

lemma wait_copy:
  assumes ok: "mem_ok X free ram (rvm s) (procs s) A" and p: "p < length (procs s)" "r_state (rproc s p) \<noteq> UNUSED"
    and k: "\<And>k. k < 4 \<Longrightarrow> pg (a + of_nat k) \<notin> ram" and fuel: "3 \<le> fuel" and T: "T = fst (A p)"
  shows "\<exists>r v. call_vm (copyout fuel (VE X) (r_pagetable (rproc s p)) addr a 4) (wr32 a w s) = Ret (r, s\<lparr>rvm := v\<rparr>) \<and>
     mem_ok X free ram v (procs s) A \<and> free v = free (rvm s) \<and>
     (\<forall>j < length (procs s). foot X v (rproc s j) (A j) = foot X (rvm s) (rproc s j) (A j)) \<and>
     (\<forall>x. pg x \<in> ram \<longrightarrow> x \<notin> status_at X (rvm s) T addr ` {..<4} \<longrightarrow> mem v x = mem (rvm s) x) \<and>
     (\<forall>x. pg x \<in> ram \<longrightarrow> pg x \<notin> foot X (rvm s) (rproc s p) (A p) \<longrightarrow> mem v x = mem (rvm s) x) \<and>
     (r = 0 \<and> status_word X (rvm s) T addr v w \<and> (\<forall>k < 4. pg (status_at X (rvm s) T addr k) \<in> foot X (rvm s) (rproc s p) (A p)) \<or>
      r = - 1 \<and> (\<exists>k < 4. \<not> uacc (VE X) (mem (rvm s)) T ((unat addr + k) div 4096)))"
proof -
  obtain t u where a: "A p = (T, t, u)" using T by (cases "A p") simp
  define v0 m1 where "v0 = rvm s" and "m1 = mem (rvm (wr32 a w s))"
  have s1: "wr32 a w s = s\<lparr>rvm := v0\<lparr>mem := m1\<rparr>\<rparr>" by (simp add: m1_def v0_def wr32_def)
  have out: "m1 x = mem v0 x" if "pg x \<in> ram" for x
    unfolding m1_def v0_def by (rule wr32_not_at) (use k that in auto)
  let ?v1 = "v0\<lparr>mem := m1\<rparr>"
  note o1 = mem_ok_outside [OF ok [folded v0_def] out]
  have o4: "foot X ?v1 (rproc s j) (A j) = foot X v0 (rproc s j) (A j)" if "j < length (procs s)" for j
    using mem_ok_outside(4) [OF ok [folded v0_def] out that] .
  note sm0 = mem_okD(1) [OF ok p(1), unfolded a, folded v0_def] and sm = mem_okD(1) [OF o1(1) p(1), unfolded a]
  have nz: "r_pagetable (rproc s p) \<noteq> 0" "r_usyscall (rproc s p) \<noteq> 0" and hm: "has_mem X free ram v0 (rproc s p) (T, t, u)"
    using sm0 p(2) by (auto simp: slot_mem_def)
  have "tree_ok T" "ran T \<subseteq> ram"
    using proc_spaceD(2,3) [OF has_memD(4) [OF hm nz(1)]] by (simp_all add: owns_def pt_ok_def)
  then have pte: "pte (VE X) m1 T va = pte (VE X) (mem v0) T va" for va using out by (intro pte_cong) auto
  have at: "ua (VE X) (mem ?v1) T (unat addr + i) = status_at X v0 T addr i" for i by (simp add: status_at_def ua_def pte)
  have src: "pg (a + of_nat i) \<notin> fr (VE X) ?v1 T ` {..<npages (r_sz (rproc s p))} \<union> {u}" if "i < 4" for i
    using k [OF that] foot_owned [OF sm] nz by (auto simp: foot_eq pt_pages_def page_at_def)
  have ad: "unat addr < 2 ^ 64" using unsigned_less [of addr] by simp
  have "pages (unat addr) 4 < fuel" using fuel by (simp add: pages_def)
  from copyout_step [OF sm p(2) ad _ this src] obtain n m where
    n: "copyout fuel (VE X) (r_pagetable (rproc s p)) addr a 4 ?v1 = Ret (if n = 4 then 0 else - 1, ?v1\<lparr>mem := m\<rparr>)"
      "copy_extent (VE X) m1 T (unat addr) 4 n" "\<forall>i < n. m (status_at X v0 T addr i) = m1 (a + of_nat i)"
      "\<forall>x. x \<notin> status_at X v0 T addr ` {..<n} \<longrightarrow> m x = m1 x"
      "\<forall>i < n. pg (status_at X v0 T addr i) \<in> foot X ?v1 (rproc s p) (A p)"
      "free (?v1\<lparr>mem := m\<rparr>) = free ?v1" "foot X (?v1\<lparr>mem := m\<rparr>) (rproc s p) (A p) = foot X ?v1 (rproc s p) (A p)"
      "mem_step X free ram ?v1 (rproc s p) (A p) (?v1\<lparr>mem := m\<rparr>) (rproc s p) (A p)"
    unfolding a at by (auto simp: at)
  have le: "n \<le> 4" using n(2) by (simp add: copy_extent_def)
  have safe: "mem_safe X free ram p ?v1 (procs s) A (?v1\<lparr>mem := m\<rparr>) (procs s) A"
    using mem_step_safe [OF o1(1) p(1) n(8)] by simp
  then have ok2: "mem_ok X free ram (v0\<lparr>mem := m\<rparr>) (procs s) A"
    and ft: "\<forall>j < length (procs s). foot X (v0\<lparr>mem := m\<rparr>) (rproc s j) (A j) = foot X v0 (rproc s j) (A j)"
    using n(7) o4 by (auto simp: mem_safe_def others_kept_def)
  have in_foot: "pg (status_at X v0 T addr i) \<in> foot X v0 (rproc s p) (A p)" if "i < n" for i
    using n(5) that o4 [OF p(1)] by simp
  have keep: "m x = mem v0 x" if "pg x \<in> ram" "x \<notin> status_at X v0 T addr ` {..<n}" for x
    using that n(4) out by simp
  have "m x = mem v0 x" if "pg x \<in> ram" "pg x \<notin> foot X v0 (rproc s p) (A p)" for x
    using that in_foot by (intro keep) auto
  moreover have "m x = mem v0 x" if "pg x \<in> ram" "x \<notin> status_at X v0 T addr ` {..<4}" for x
    using that le by (intro keep) auto
  moreover have "n = 4 \<Longrightarrow> status_word X v0 T addr (v0\<lparr>mem := m\<rparr>) w"
    using n(3) wr32_at [of _ a w s] by (simp add: status_word_def m1_def)
  moreover have "n \<noteq> 4 \<Longrightarrow> \<exists>k < 4. \<not> uacc (VE X) (mem v0) T ((unat addr + k) div 4096)"
    using n(2) le by (intro exI [of _ n]) (auto simp: copy_extent_def uacc_def pte)
  moreover have "call_vm (copyout fuel (VE X) (r_pagetable (rproc s p)) addr a 4) (wr32 a w s) =
      Ret (if n = 4 then 0 else - 1, s\<lparr>rvm := v0\<lparr>mem := m\<rparr>\<rparr>)"
    using n(1) by (simp add: s1 call_vm_def)
  ultimately show ?thesis
    using ok2 ft n(6) o1(3) in_foot unfolding v0_def
    by (intro exI [of _ "if n = 4 then 0 else - 1"] exI [of _ "rvm s\<lparr>mem := m\<rparr>"]) auto
qed

text \<open>Both forms of the copy: without an address nothing is copied.\<close>

lemma wait_copied:
  assumes ok: "mem_ok X free ram (rvm s) (procs s) A" and p: "p < length (procs s)" "r_state (rproc s p) \<noteq> UNUSED"
    and k: "\<And>k. k < 4 \<Longrightarrow> pg (a + of_nat k) \<notin> ram" and fuel: "3 \<le> fuel" and T: "T = fst (A p)"
  shows "\<exists>r v. (if addr = 0 then Ret (0, s)
        else call_vm (copyout fuel (VE X) (r_pagetable (rproc s p)) addr a 4) (wr32 a w s)) = Ret (r, s\<lparr>rvm := v\<rparr>) \<and>
     mem_ok X free ram v (procs s) A \<and> free v = free (rvm s) \<and> owned X v (procs s) A = owned X (rvm s) (procs s) A \<and>
     wait_kept X A (length (procs s)) p addr (rvm s) (procs s) v (procs s) \<and>
     (r = 0 \<and> (addr \<noteq> 0 \<longrightarrow> status_word X (rvm s) T addr v w \<and>
         (\<forall>k < 4. pg (status_at X (rvm s) T addr k) \<in> foot X (rvm s) (rproc s p) (A p))) \<or>
      r = - 1 \<and> addr \<noteq> 0 \<and> (\<exists>k < 4. \<not> uacc (VE X) (mem (rvm s)) T ((unat addr + k) div 4096)))"
proof (cases "addr = 0")
  case True
  with ok show ?thesis by (intro exI [of _ 0] exI [of _ "rvm s"]) (simp add: wait_kept_def)
next
  case False
  from wait_copy [OF ok p k fuel T, of addr w] obtain r v where
    r: "call_vm (copyout fuel (VE X) (r_pagetable (rproc s p)) addr a 4) (wr32 a w s) = Ret (r, s\<lparr>rvm := v\<rparr>)"
      "mem_ok X free ram v (procs s) A" "free v = free (rvm s)"
      "\<And>j. j < length (procs s) \<Longrightarrow> foot X v (rproc s j) (A j) = foot X (rvm s) (rproc s j) (A j)"
      "\<And>x. pg x \<in> ram \<Longrightarrow> x \<notin> status_at X (rvm s) T addr ` {..<4} \<Longrightarrow> mem v x = mem (rvm s) x"
      "\<And>x. pg x \<in> ram \<Longrightarrow> pg x \<notin> foot X (rvm s) (rproc s p) (A p) \<Longrightarrow> mem v x = mem (rvm s) x"
    and d: "r = 0 \<and> status_word X (rvm s) T addr v w \<and> (\<forall>k < 4. pg (status_at X (rvm s) T addr k) \<in> foot X (rvm s) (rproc s p) (A p)) \<or>
      r = - 1 \<and> (\<exists>k < 4. \<not> uacc (VE X) (mem (rvm s)) T ((unat addr + k) div 4096))" by blast
  have "owned X v (procs s) A = owned X (rvm s) (procs s) A" using r(4) by (simp add: owned_def)
  moreover have "mem v x = mem (rvm s) x"
    if "j < length (procs s)" "pg x \<in> foot X (rvm s) (rproc s j) (A j)" "j = p \<longrightarrow> x \<notin> status_at X (rvm s) T addr ` {..<4}" for j x
  proof (cases "j = p")
    case True
    with that foot_owned [OF mem_okD(1) [OF ok that(1)]] show ?thesis by (intro r(5)) auto
  next
    case False
    with that foot_owned [OF mem_okD(1) [OF ok that(1)]] mem_okD(2) [OF ok that(1) p(1)] show ?thesis by (intro r(6)) auto
  qed
  then have "wait_kept X A (length (procs s)) p addr (rvm s) (procs s) v (procs s)"
    using False r(4) T by (simp add: wait_kept_def)
  ultimately show ?thesis using r(1-3) d False by (intro exI [of _ r] exI [of _ v]) auto
qed

lemma wait_reap_spec:
  assumes view: "rv_view X (rmach s) c (Suc (Suc n)) (insert (ProcLock i) H) P" and H: "ProcLock i \<notin> H" "WaitLock \<in> H"
    and ok: "mem_ok X free ram (rvm s) (procs s) A" and p: "p < length (procs s)" "r_state (rproc s p) \<noteq> UNUSED"
    and i: "i < length (procs s)" "r_state (rproc s i) = ZOMBIE" "p \<noteq> i"
    and k: "\<And>k. k < 4 \<Longrightarrow> pg (xstate_addr X i + of_nat k) \<notin> ram" and fuel: "npages (r_sz (rproc s i)) + 3 \<le> fuel"
  shows "\<exists>r m v ps. wait_reap fuel X p addr i s = Ret (Inl r, s\<lparr>procs := ps, rmach := m, rvm := v\<rparr>) \<and>
     rv_view X m c n (H - {WaitLock}) P \<and> reaped X free ram A i p addr (rvm s) (procs s) r v ps"
proof -
  have f3: "3 \<le> fuel" using fuel by simp
  from wait_copied [OF ok p k f3 refl, of addr "r_xstate (rproc s i)"] obtain r1 v1 where
    c: "(if addr = 0 then Ret (0, s) else call_vm (copyout fuel (VE X) (r_pagetable (rproc s p)) addr (xstate_addr X i) 4)
          (wr32 (xstate_addr X i) (r_xstate (rproc s i)) s)) = Ret (r1, s\<lparr>rvm := v1\<rparr>)"
      "mem_ok X free ram v1 (procs s) A" "free v1 = free (rvm s)" "owned X v1 (procs s) A = owned X (rvm s) (procs s) A"
      "wait_kept X A (length (procs s)) p addr (rvm s) (procs s) v1 (procs s)"
    and d: "r1 = 0 \<and> (addr \<noteq> 0 \<longrightarrow> status_word X (rvm s) (fst (A p)) addr v1 (r_xstate (rproc s i)) \<and>
         (\<forall>k < 4. pg (status_at X (rvm s) (fst (A p)) addr k) \<in> foot X (rvm s) (rproc s p) (A p))) \<or>
      r1 = - 1 \<and> addr \<noteq> 0 \<and> (\<exists>k < 4. \<not> uacc (VE X) (mem (rvm s)) (fst (A p)) ((unat addr + k) div 4096))" by blast
  have kept: "foot X v1 (rproc s j) (A j) = foot X (rvm s) (rproc s j) (A j)"
    "pg x \<in> foot X (rvm s) (rproc s j) (A j) \<Longrightarrow> (j = p \<and> addr \<noteq> 0 \<longrightarrow> x \<notin> status_at X (rvm s) (fst (A p)) addr ` {..<4}) \<Longrightarrow> mem v1 x = mem (rvm s) x"
    if "j < length (procs s)" for j x
    using c(5) that unfolding wait_kept_def by auto
  show ?thesis
  proof (cases "r1 = 0")
    case True
    from freeproc_safe [of "s\<lparr>rvm := v1\<rparr>" A i] c(2) i fuel obtain v2 where
      v2: "freeproc fuel X i (s\<lparr>rvm := v1\<rparr>) = Ret ((rupd i cleared s)\<lparr>rvm := v2\<rparr>)"
        "mem_safe X free ram i v1 (procs s) A v2 (procs (rupd i cleared s)) A" "free v2 = free v1 \<union> foot X v1 (rproc s i) (A i)"
      by (auto simp: rupd_rvm)
    define pid where "pid = r_pid (rproc s i)"
    have "rv_view X (rmach ((rupd i cleared s)\<lparr>rvm := v2\<rparr>)) c (Suc (Suc n)) (insert (ProcLock i) H) P" using view by simp
    from release_both [OF this H, of "Inl pid :: i32 + bool"] obtain m where
      m: "obind (on_rm (release X (ProcLock i)) ((rupd i cleared s)\<lparr>rvm := v2\<rparr>)) (\<lambda>s. obind (on_rm (release X WaitLock) s) (\<lambda>s.
           Ret (Inl pid :: i32 + bool, s))) = Ret (Inl pid, (rupd i cleared s)\<lparr>rvm := v2, rmach := m\<rparr>)"
        "rv_view X m c n (H - {WaitLock}) P" by blast
    have "wait_reap fuel X p addr i s = Ret (Inl (r_pid (rproc s i)), (rupd i cleared s)\<lparr>rvm := v2, rmach := m\<rparr>)"
      using c(1) v2(1) m(1) [unfolded pid_def] True by (cases "addr = 0") (simp_all add: wait_reap_def Let_def)
    then have run: "wait_reap fuel X p addr i s = Ret (Inl (r_pid (rproc s i)), s\<lparr>procs := upd_nth i cleared (procs s), rmach := m, rvm := v2\<rparr>)"
      by (simp add: rupd_def)
    have kept2: "foot X v2 (rproc s j) (A j) = foot X v1 (rproc s j) (A j)" "pg x \<in> foot X v1 (rproc s j) (A j) \<Longrightarrow> mem v2 x = mem v1 x"
      if "j < length (procs s)" "j \<noteq> i" for j x
      using v2(2) that by (auto simp: mem_safe_def others_kept_def)
    have "status_word X (rvm s) (fst (A p)) addr v2 (r_xstate (rproc s i))" if "addr \<noteq> 0"
      using d True that kept2(2) [OF p(1) i(3)] kept(1) [OF p(1)] by (simp add: status_word_def)
    moreover have "wait_kept X A i p addr (rvm s) (procs s) v2 (upd_nth i cleared (procs s))"
      using kept kept2 unfolding wait_kept_def by simp
    ultimately have "reaped X free ram A i p addr (rvm s) (procs s) (r_pid (rproc s i)) v2 (upd_nth i cleared (procs s))"
      using v2(2,3) c(3,4) kept(1) [OF i(1)] i(1) by (simp add: reaped_def mem_safe_def)
    with run m(2) show ?thesis by blast
  next
    case False
    with d have f: "r1 = - 1" "addr \<noteq> 0" "\<exists>k < 4. \<not> uacc (VE X) (mem (rvm s)) (fst (A p)) ((unat addr + k) div 4096)" by auto
    from release_both [of "s\<lparr>rvm := v1\<rparr>" c n i H P "Inl (- 1) :: i32 + bool"] view H obtain m where
      m: "obind (on_rm (release X (ProcLock i)) (s\<lparr>rvm := v1\<rparr>)) (\<lambda>s. obind (on_rm (release X WaitLock) s) (\<lambda>s.
           Ret (Inl (- 1) :: i32 + bool, s))) = Ret (Inl (- 1), s\<lparr>rvm := v1, rmach := m\<rparr>)"
        "rv_view X m c n (H - {WaitLock}) P" by auto
    have "wait_reap fuel X p addr i s = Ret (Inl (- 1), s\<lparr>rvm := v1, rmach := m\<rparr>)"
      using c(1) m(1) f(1,2) by (simp add: wait_reap_def Let_def)
    then have run: "wait_reap fuel X p addr i s = Ret (Inl (- 1), s\<lparr>procs := procs s, rmach := m, rvm := v1\<rparr>)" by simp
    have "wait_kept X A i p addr (rvm s) (procs s) v1 (procs s)" using kept unfolding wait_kept_def by simp
    then have "reaped X free ram A i p addr (rvm s) (procs s) (- 1) v1 (procs s)"
      using c(2-4) f(2,3) by (simp add: reaped_def)
    with run m(2) show ?thesis by blast
  qed
qed

end

section \<open>sleep and wait\<close>

text \<open>\<open>sleep\<close> around the switch: before it, and after it has come back, perhaps on another hart.\<close>

definition asleep :: "nat \<Rightarrow> rv_chan \<Rightarrow> ('x, 'f, 'w) rv_st \<Rightarrow> 'x rv_mach \<Rightarrow> ('x, 'f, 'w) rv_st" where
  "asleep p ch s m = (rupd p (\<lambda>q. q\<lparr>r_chan := ch, r_state := SLEEPING\<rparr>) s)\<lparr>rmach := m\<rparr>"

definition awake :: "nat \<Rightarrow> ('x, 'f, 'w) rv_st \<Rightarrow> 'x rv_mach \<Rightarrow> ('x, 'f, 'w) rv_st" where
  "awake p s m = (rupd p (\<lambda>q. q\<lparr>r_chan := NoChan\<rparr>) s)\<lparr>rmach := m\<rparr>"

context rv_lock_laws
begin

lemma sched_back:
  assumes v: "rv_view X (rmach s) c 1 H P" and p: "P ! c = Some p" "ProcLock p \<in> H" "r_state (rproc s p) \<noteq> RUNNING"
  shows "\<exists>m. rv_view X m c 1 H P \<and> (\<forall>sw s2 c2 H2 P2. sw (s\<lparr>rmach := m\<rparr>) = Ret s2 \<longrightarrow> rv_view X (rmach s2) c2 1 H2 P2 \<longrightarrow>
     (\<exists>m2. rv_sched X sw s = Ret (s2\<lparr>rmach := m2\<rparr>) \<and> rv_view X m2 c2 1 H2 P2))"
proof -
  from sched_check_spec [OF assms] obtain m where
    m: "rv_sched_check X s = Ret (rc_intena (rcpus m ! c), s\<lparr>rmach := m\<rparr>)" "rv_view X m c 1 H P" by blast
  have "\<exists>m2. rv_sched X sw s = Ret (s2\<lparr>rmach := m2\<rparr>) \<and> rv_view X m2 c2 1 H2 P2"
    if "sw (s\<lparr>rmach := m\<rparr>) = Ret s2" and v2: "rv_view X (rmach s2) c2 1 H2 P2" for sw s2 c2 H2 P2
    using m(1) that(1) view_mycpu [OF v2] view_put_intena [OF v2]
    by (auto simp: rv_sched_def rupd_cpu_def put_rcpu_def)
  with m(2) show ?thesis by blast
qed

lemma sleep_spec:
  assumes v: "rv_view X (rmach s) c 1 {lk} P" and p: "P ! c = Some p" "p < length (procs s)" and lk: "lk \<noteq> ProcLock p"
  shows "\<exists>m. rv_view X m c 1 {ProcLock p} P \<and>
     (\<forall>sw s2 c2 P2. sw (asleep p ch s m) = Ret s2 \<longrightarrow> rv_view X (rmach s2) c2 1 {ProcLock p} P2 \<longrightarrow>
       (\<exists>m2. rv_sleep X sw ch lk s = Ret (awake p s2 m2) \<and> rv_view X m2 c2 1 {lk} P2))"
proof -
  from curproc_view [OF v _ p(1)] obtain m0 where m0: "rv_curproc X s = Ret (p, s\<lparr>rmach := m0\<rparr>)" "rv_view X m0 c 1 {lk} P" by auto
  from acquire_view [of "s\<lparr>rmach := m0\<rparr>" c 1 "{lk}" P "ProcLock p"] m0(2) lk obtain m1 where
    m1: "on_rm (acquire X (ProcLock p)) (s\<lparr>rmach := m0\<rparr>) = Ret (s\<lparr>rmach := m1\<rparr>)" "rv_view X m1 c 2 {ProcLock p, lk} P"
    by (auto simp: numeral_2_eq_2)
  from release_view [of "s\<lparr>rmach := m1\<rparr>" c 1 "{ProcLock p, lk}" P lk] m1(2) lk obtain m2 where
    m2: "on_rm (release X lk) (s\<lparr>rmach := m1\<rparr>) = Ret (s\<lparr>rmach := m2\<rparr>)" "rv_view X m2 c 1 {ProcLock p} P"
    by (auto simp: numeral_2_eq_2 insert_Diff_if)
  let ?f = "\<lambda>q. q\<lparr>r_chan := ch, r_state := SLEEPING\<rparr>"
  have "r_state (rproc (rupd p ?f (s\<lparr>rmach := m2\<rparr>)) p) \<noteq> RUNNING" using p(2) by simp
  with sched_back [of "rupd p ?f (s\<lparr>rmach := m2\<rparr>)" c "{ProcLock p}" P p] m2(2) p(1) obtain m3 where
    m3: "rv_view X m3 c 1 {ProcLock p} P"
      "\<And>sw s2 c2 H2 P2. sw (asleep p ch s m3) = Ret s2 \<Longrightarrow> rv_view X (rmach s2) c2 1 H2 P2 \<Longrightarrow>
        \<exists>m2'. rv_sched X sw (rupd p ?f (s\<lparr>rmach := m2\<rparr>)) = Ret (s2\<lparr>rmach := m2'\<rparr>) \<and> rv_view X m2' c2 1 H2 P2"
    by (auto simp: asleep_def rupd_rmach)
  have "\<exists>m2. rv_sleep X sw ch lk s = Ret (awake p s2 m2) \<and> rv_view X m2 c2 1 {lk} P2"
    if "sw (asleep p ch s m3) = Ret s2" "rv_view X (rmach s2) c2 1 {ProcLock p} P2" for sw s2 c2 P2
  proof -
    from m3(2) [of sw s2 c2 "{ProcLock p}" P2, OF that] obtain m4 where
      m4: "rv_sched X sw (rupd p ?f (s\<lparr>rmach := m2\<rparr>)) = Ret (s2\<lparr>rmach := m4\<rparr>)" "rv_view X m4 c2 1 {ProcLock p} P2" by blast
    from release_view [of "rupd p (\<lambda>q. q\<lparr>r_chan := NoChan\<rparr>) (s2\<lparr>rmach := m4\<rparr>)" c2 0 "{ProcLock p}" P2 "ProcLock p"] m4(2) obtain m5 where
      m5: "on_rm (release X (ProcLock p)) (rupd p (\<lambda>q. q\<lparr>r_chan := NoChan\<rparr>) (s2\<lparr>rmach := m4\<rparr>)) = Ret (awake p s2 m5)"
        "rv_view X m5 c2 0 {} P2" by (auto simp: awake_def rupd_rmach)
    from acquire_view [of "awake p s2 m5" c2 0 "{}" P2 lk] m5(2) obtain m6 where
      "on_rm (acquire X lk) (awake p s2 m5) = Ret (awake p s2 m6)" "rv_view X m6 c2 1 {lk} P2" by (auto simp: awake_def)
    with m0(1) m1(1) m2(1) m4(1) m5(1) show ?thesis by (auto simp: rv_sleep_def)
  qed
  with m3(1) show ?thesis by blast
qed

end

text \<open>What the code relies on of the kernel memory for the exit statuses: it is not part of the managed pages.\<close>

definition statuses_outside :: "('x, 'f, 'w) rv_ext \<Rightarrow> nat set \<Rightarrow> nat \<Rightarrow> bool" where
  "statuses_outside X ram n \<longleftrightarrow> (\<forall>i < n. \<forall>k < 4. pg (xstate_addr X i + of_nat k) \<notin> ram)"

abbreviation has_kids :: "('x, 'f, 'w) rv_st \<Rightarrow> nat \<Rightarrow> bool" where
  "has_kids s p \<equiv> has_child p {..<length (procs s)} (procs s)"

context rv_kernel
begin

lemma wait_loop_spec:
  assumes v: "rv_view X (rmach s) c 1 {WaitLock} P" and p: "P ! c = Some p" "p < length (procs s)" "r_state (rproc s p) = RUNNING"
    and ok: "mem_ok X free ram (rvm s) (procs s) A" and so: "statuses_outside X ram (length (procs s))"
    and fuel: "\<And>i. i < length (procs s) \<Longrightarrow> npages (r_sz (rproc s i)) + 3 \<le> fuel"
  shows "case find (zombie_child s p) [0..<length (procs s)] of
     Some i \<Rightarrow> (\<exists>r m v ps. rv_wait_loop (Suc fuel) X sw p addr s = Ret (r, s\<lparr>procs := ps, rmach := m, rvm := v\<rparr>) \<and>
        rv_view X m c 0 {} P \<and> reaped X free ram A i p addr (rvm s) (procs s) r v ps)
   | None \<Rightarrow>
        if has_kids s p \<and> r_killed (rproc s p) = 0 then
          (\<exists>m. rv_view X m c 1 {WaitLock} P \<and> (\<forall>sw. rv_wait_loop (Suc fuel) X sw p addr s =
             obind (rv_sleep X sw (ProcChan p) WaitLock (s\<lparr>rmach := m\<rparr>)) (rv_wait_loop fuel X sw p addr)))
        else (\<exists>m. rv_wait_loop (Suc fuel) X sw p addr s = Ret (- 1, s\<lparr>rmach := m\<rparr>) \<and> rv_view X m c 0 {} P)"
proof -
  have np: "no_proc_lock {WaitLock}" by (simp add: no_proc_lock_def)
  let ?z = "find (zombie_child s p) [0..<length (procs s)]"
  have kids: "(False \<or> (\<exists>i \<in> set [0..<length (procs s)]. r_parent (rproc s i) = Some p)) = has_kids s p"
    by (auto simp: has_child_def)
  from wait_scan_spec [OF v np, where p = p and js = "[0..<length (procs s)]" and fuel = fuel and addr = addr and kids = False] obtain m1 where
    m1: "case ?z of
       None \<Rightarrow> rv_wait_scan fuel X p addr False [0..<length (procs s)] s = Ret (Inr (has_kids s p), s\<lparr>rmach := m1\<rparr>) \<and> rv_view X m1 c 1 {WaitLock} P
     | Some i \<Rightarrow> rv_wait_scan fuel X p addr False [0..<length (procs s)] s = wait_reap fuel X p addr i (s\<lparr>rmach := m1\<rparr>) \<and>
           rv_view X m1 c 2 {ProcLock i, WaitLock} P"
    unfolding kids by (cases ?z) (auto simp: numeral_2_eq_2)
  show ?thesis
  proof (cases ?z)
    case (Some i)
    then have i: "i < length (procs s)" "zombie_child s p i" by (auto simp: find_Some_iff)
    have pi: "p \<noteq> i" using i(2) p(3) by auto
    have so': "\<And>k. k < 4 \<Longrightarrow> pg (xstate_addr X i + of_nat k) \<notin> ram" using so i(1) by (simp add: statuses_outside_def)
    from wait_reap_spec [of "s\<lparr>rmach := m1\<rparr>" c 0 i "{WaitLock}" P A p fuel addr, OF _ _ _ _ _ _ _ _ pi so'] m1 Some i p(2,3) ok fuel [OF i(1)]
    obtain r m v ps where "wait_reap fuel X p addr i (s\<lparr>rmach := m1\<rparr>) = Ret (Inl r, s\<lparr>procs := ps, rmach := m, rvm := v\<rparr>)"
      "rv_view X m c 0 {} P" "reaped X free ram A i p addr (rvm s) (procs s) r v ps"
      by (auto simp: numeral_2_eq_2)
    with m1 Some show ?thesis by auto
  next
    case None
    with m1 have scan: "rv_wait_scan fuel X p addr False [0..<length (procs s)] s = Ret (Inr (has_kids s p), s\<lparr>rmach := m1\<rparr>)"
      and v1: "rv_view X m1 c 1 {WaitLock} P" by auto
    from killed_view [of "s\<lparr>rmach := m1\<rparr>" c 1 "{WaitLock}" P p] v1 obtain m2 where
      m2: "killed X p (s\<lparr>rmach := m1\<rparr>) = Ret (r_killed (rproc s p), s\<lparr>rmach := m2\<rparr>)" "rv_view X m2 c 1 {WaitLock} P" by auto
    define m3 where "m3 = (if has_kids s p then m2 else m1)"
    have v3: "rv_view X m3 c 1 {WaitLock} P" using v1 m2(2) by (simp add: m3_def)
    from release_view [of "s\<lparr>rmach := m3\<rparr>" c 0 "{WaitLock}" P WaitLock] v3 obtain m4 where
      m4: "on_rm (release X WaitLock) (s\<lparr>rmach := m3\<rparr>) = Ret (s\<lparr>rmach := m4\<rparr>)" "rv_view X m4 c 0 {} P" by auto
    show ?thesis using None scan m2 m4 v3 by (auto simp: m3_def split: if_splits)
  qed
qed

end

context rv_kernel
begin

lemma wait_enter:
  assumes v: "rv_view X (rmach s) c 0 {} P" and p: "P ! c = Some p"
  shows "\<exists>m. (\<forall>fuel sw addr. rv_wait fuel X sw addr s = rv_wait_loop fuel X sw p addr (s\<lparr>rmach := m\<rparr>)) \<and> rv_view X m c 1 {WaitLock} P"
proof -
  from curproc_view [OF v _ p] obtain m0 where m0: "rv_curproc X s = Ret (p, s\<lparr>rmach := m0\<rparr>)" "rv_view X m0 c 0 {} P" by auto
  from acquire_view [of "s\<lparr>rmach := m0\<rparr>" c 0 "{}" P WaitLock] m0(2) obtain m1 where
    "on_rm (acquire X WaitLock) (s\<lparr>rmach := m0\<rparr>) = Ret (s\<lparr>rmach := m1\<rparr>)" "rv_view X m1 c 1 {WaitLock} P" by auto
  with m0(1) show ?thesis by (auto simp: rv_wait_def)
qed

text \<open>Without a zombie child, with children and not killed: \<open>wait\<close> sleeps, and then looks again.\<close>

lemma wait_sleeps:
  assumes v: "rv_view X (rmach s) c 0 {} P" and p: "P ! c = Some p" "p < length (procs s)" "r_state (rproc s p) = RUNNING"
    and ok: "mem_ok X free ram (rvm s) (procs s) A" and so: "statuses_outside X ram (length (procs s))"
    and fuel: "\<And>i. i < length (procs s) \<Longrightarrow> npages (r_sz (rproc s i)) + 3 \<le> fuel"
    and no: "find (zombie_child s p) [0..<length (procs s)] = None" and kids: "has_kids s p" and alive: "r_killed (rproc s p) = 0"
  shows "\<exists>m. rv_view X m c 1 {ProcLock p} P \<and>
     (\<forall>sw s2 c2 P2. sw (asleep p (ProcChan p) s m) = Ret s2 \<longrightarrow> rv_view X (rmach s2) c2 1 {ProcLock p} P2 \<longrightarrow>
       (\<exists>m2. rv_wait (Suc fuel) X sw addr s = rv_wait_loop fuel X sw p addr (awake p s2 m2) \<and> rv_view X m2 c2 1 {WaitLock} P2))"
proof -
  from wait_enter [OF v p(1)] obtain m0 where m0:
    "\<And>fuel sw addr. rv_wait fuel X sw addr s = rv_wait_loop fuel X sw p addr (s\<lparr>rmach := m0\<rparr>)" "rv_view X m0 c 1 {WaitLock} P" by blast
  from wait_loop_spec [where s = "s\<lparr>rmach := m0\<rparr>" and P = P and c = c and p = p and A = A and fuel = fuel and addr = addr] m0(2) p ok so fuel no kids alive obtain m1 where m1: "rv_view X m1 c 1 {WaitLock} P"
    "\<And>sw. rv_wait_loop (Suc fuel) X sw p addr (s\<lparr>rmach := m0\<rparr>) =
       obind (rv_sleep X sw (ProcChan p) WaitLock (s\<lparr>rmach := m1\<rparr>)) (rv_wait_loop fuel X sw p addr)" by auto
  from sleep_spec [of "s\<lparr>rmach := m1\<rparr>" c WaitLock P p "ProcChan p"] m1(1) p(1,2) obtain m where m: "rv_view X m c 1 {ProcLock p} P"
    "\<And>sw s2 c2 P2. sw (asleep p (ProcChan p) s m) = Ret s2 \<Longrightarrow> rv_view X (rmach s2) c2 1 {ProcLock p} P2 \<Longrightarrow>
       \<exists>m2. rv_sleep X sw (ProcChan p) WaitLock (s\<lparr>rmach := m1\<rparr>) = Ret (awake p s2 m2) \<and> rv_view X m2 c2 1 {WaitLock} P2"
    by (auto simp: asleep_def rupd_rmach)
  show ?thesis
  proof (rule exI [of _ m], intro conjI allI impI)
    fix sw c2 P2 and s2 :: "('x, 'f, 'w) rv_st"
    assume "sw (asleep p (ProcChan p) s m) = Ret s2" "rv_view X (rmach s2) c2 1 {ProcLock p} P2"
    from m(2) [of sw, OF this] show "\<exists>m2. rv_wait (Suc fuel) X sw addr s = rv_wait_loop fuel X sw p addr (awake p s2 m2) \<and> rv_view X m2 c2 1 {WaitLock} P2"
      by (auto simp: m0(1) m1(2) simp del: rv_wait_loop.simps)
  qed (rule m(1))
qed

end

end
