(* ===== verification/Rv_Exec.thy ===== *)
theory Rv_Exec
  imports Rv_Proc
begin

text \<open>
  Lab3 \<open>exec.c\<close>: loading a program. The layout of the ELF structures (\<open>elf.h\<close>), the inode layer and
  \<open>strlen\<close> are not in the repository; they are the fields of \<open>exec_ext\<close>. \<open>readi\<close> gives the bytes it
  read: their number is what the C function returns. A pointer to a string is its address.

  A phase of \<open>exec\<close> returns \<open>None\<close> where the code jumps to \<open>bad\<close>, together with what \<open>sz\<close> is then.
\<close>

record elfhdr =
  e_magic :: u32
  e_entry :: u64
  e_phoff :: u64
  e_phnum :: u16

record proghdr =
  ph_type :: u32
  ph_flags :: u32
  ph_off :: u64
  ph_vaddr :: u64
  ph_filesz :: u64
  ph_memsz :: u64

record 'f exec_ext =
  ELF_MAGIC :: u32
  ELF_PROG_LOAD :: u32
  MAXARG :: nat
  sizeof_elfhdr :: u32
  sizeof_proghdr :: u32
  elf_of :: "u8 list \<Rightarrow> elfhdr"
  ph_of :: "u8 list \<Rightarrow> proghdr"
  readi :: "addr64 \<Rightarrow> u32 \<Rightarrow> u32 \<Rightarrow> 'f \<Rightarrow> u8 list \<times> 'f"
  ilock :: "addr64 \<Rightarrow> 'f \<Rightarrow> 'f outcome"
  iunlockput :: "addr64 \<Rightarrow> 'f \<Rightarrow> 'f outcome"
  strlen :: "addr64 \<Rightarrow> bytes \<Rightarrow> u64"
  ustack_addr :: addr64

definition flags2perm :: "'w vext \<Rightarrow> u32 \<Rightarrow> i32" where
  "flags2perm E flags =
     (let perm = (if flags AND 1 \<noteq> 0 then perm_int (PTE_X E) else 0)
      in if flags AND 2 \<noteq> 0 then perm OR perm_int (PTE_W E) else perm)"

definition store_list :: "addr64 \<Rightarrow> u8 list \<Rightarrow> bytes \<Rightarrow> bytes" where
  "store_list a bs m = (\<lambda>x. if unat (x - a) < length bs then bs ! unat (x - a) else m x)"

definition inode_read :: "'f exec_ext \<Rightarrow> addr64 \<Rightarrow> u32 \<Rightarrow> u32 \<Rightarrow> ('x, 'f, 'w) rv_st \<Rightarrow> u8 list \<times> ('x, 'f, 'w) rv_st" where
  "inode_read Y ip off n s = (case readi Y ip off n (files s) of (bs, w) \<Rightarrow> (bs, s\<lparr>files := w\<rparr>))"

fun loadseg ::
    "nat \<Rightarrow> ('x, 'f, 'w) rv_ext \<Rightarrow> 'f exec_ext \<Rightarrow> addr64 \<Rightarrow> u64 \<Rightarrow> addr64 \<Rightarrow> u32 \<Rightarrow> u32 \<Rightarrow> u32 \<Rightarrow> ('x, 'f, 'w) rv_st
       \<Rightarrow> (i32 \<times> ('x, 'f, 'w) rv_st) outcome" where
  "loadseg 0 X Y pt va ip offset i sz s = NoFuel"
| "loadseg (Suc fuel) X Y pt va ip offset i sz s =
     (if \<not> i < sz then Ret (0, s)
      else
        obind (walkaddr (VE X) pt (va + ucast i) (rvm s)) (\<lambda>pa.
        if pa = 0 then Panic ''loadseg: address should exist''
        else
          let n = (if ucast (sz - i) < PGSIZE (VE X) then sz - i else ucast (PGSIZE (VE X))) in
          case inode_read Y ip (offset + i) n s of (bs, s) \<Rightarrow>
            let s = s\<lparr>rvm := on_mem (store_list pa bs) (rvm s)\<rparr> in
            if length bs \<noteq> unat n then Ret (- 1, s)
            else loadseg fuel X Y pt va ip offset (i + ucast (PGSIZE (VE X))) sz s))"

text \<open>The loop over the program headers: \<open>k\<close> of them are left, \<open>off\<close> is an \<open>int\<close>.\<close>

fun exec_load ::
    "nat \<Rightarrow> ('x, 'f, 'w) rv_ext \<Rightarrow> 'f exec_ext \<Rightarrow> addr64 \<Rightarrow> addr64 \<Rightarrow> nat \<Rightarrow> i32 \<Rightarrow> u64 \<Rightarrow> ('x, 'f, 'w) rv_st
       \<Rightarrow> (bool \<times> u64 \<times> ('x, 'f, 'w) rv_st) outcome" where
  "exec_load fuel X Y ip pt 0 off sz s = Ret (True, sz, s)"
| "exec_load fuel X Y ip pt (Suc k) off sz s =
     (case inode_read Y ip off (sizeof_proghdr Y) s of (bs, s) \<Rightarrow>
        if length bs \<noteq> unat (sizeof_proghdr Y) then Ret (False, sz, s)
        else
          let ph = ph_of Y bs; off' = off + sizeof_proghdr Y in
          if ph_type ph \<noteq> ELF_PROG_LOAD Y then exec_load fuel X Y ip pt k off' sz s
          else if ph_memsz ph < ph_filesz ph then Ret (False, sz, s)
          else if ph_vaddr ph + ph_memsz ph < ph_vaddr ph then Ret (False, sz, s)
          else if ph_vaddr ph mod PGSIZE (VE X) \<noteq> 0 then Ret (False, sz, s)
          else
            obind (call_vm (uvmalloc fuel (VE X) pt sz (ph_vaddr ph + ph_memsz ph) (flags2perm (VE X) (ph_flags ph))) s) (\<lambda>(sz1, s).
            if sz1 = 0 then Ret (False, sz, s)
            else
              obind (loadseg fuel X Y pt (ph_vaddr ph) ip (ucast (ph_off ph)) 0 (ucast (ph_filesz ph)) s) (\<lambda>(r, s).
              if slt r 0 then Ret (False, sz1, s)
              else exec_load fuel X Y ip pt k off' sz1 s)))"

text \<open>Pushing the argument strings: the number of arguments and the stack pointer.\<close>

fun exec_push ::
    "nat \<Rightarrow> ('x, 'f, 'w) rv_ext \<Rightarrow> 'f exec_ext \<Rightarrow> addr64 \<Rightarrow> u64 \<Rightarrow> nat \<Rightarrow> addr64 list \<Rightarrow> u64 \<Rightarrow> ('x, 'f, 'w) rv_st
       \<Rightarrow> ((nat \<times> u64) option \<times> ('x, 'f, 'w) rv_st) outcome" where
  "exec_push fuel X Y pt stackbase argc [] sp s = Undef ''argv''"
| "exec_push fuel X Y pt stackbase argc (a # argv) sp s =
     (if a = 0 then Ret (Some (argc, sp), s)
      else if MAXARG Y \<le> argc then Ret (None, s)
      else
        let len = strlen Y a (mem (rvm s)) + 1;
            sp = sp - len;
            sp = sp - sp mod 16
        in if sp < stackbase then Ret (None, s)
           else
             obind (call_vm (copyout fuel (VE X) pt sp a len) s) (\<lambda>(r, s).
             if slt r 0 then Ret (None, s)
             else
               exec_push fuel X Y pt stackbase (Suc argc) argv sp
                 (wr64 (ustack_addr Y + 8 * of_nat argc) sp s)))"

text \<open>The last component of the path.\<close>

fun last_component :: "string \<Rightarrow> string \<Rightarrow> string" where
  "last_component lst [] = lst"
| "last_component lst (c # s) = last_component (if c = CHR ''/'' then s else lst) s"

definition exec_bad ::
    "nat \<Rightarrow> ('x, 'f, 'w) rv_ext \<Rightarrow> 'f exec_ext \<Rightarrow> addr64 \<Rightarrow> u64 \<Rightarrow> addr64 \<Rightarrow> ('x, 'f, 'w) rv_st
       \<Rightarrow> (i32 \<times> vmline list \<times> ('x, 'f, 'w) rv_st) outcome" where
  "exec_bad fuel X Y pt sz ip s =
     obind (if pt \<noteq> 0 then on_vm (proc_freepagetable fuel X pt sz) s else Ret s) (\<lambda>s.
     obind (if ip \<noteq> 0
            then obind (on_files (iunlockput Y ip) s) (on_files (end_op X)) else Ret s) (\<lambda>s.
     Ret (- 1, [], s)))"

text \<open>
  From the committed stack on: the trap frame, the name, the new image, and what \<open>vmprint\<close> prints
  when the process is the first.
\<close>

definition exec_commit ::
    "nat \<Rightarrow> ('x, 'f, 'w) rv_ext \<Rightarrow> string \<Rightarrow> nat \<Rightarrow> addr64 \<Rightarrow> u64 \<Rightarrow> u64 \<Rightarrow> u64 \<Rightarrow> u64 \<Rightarrow> nat \<Rightarrow> ('x, 'f, 'w) rv_st
       \<Rightarrow> (i32 \<times> vmline list \<times> ('x, 'f, 'w) rv_st) outcome" where
  "exec_commit fuel X path p pt sz oldsz sp entry argc s =
     (let s = wr64 (r_trapframe (rproc s p) + tf_a1) sp s;
          s = rupd p (\<lambda>q. q\<lparr>r_name := safestrcpy X (last_component path path) 16\<rparr>) s;
          oldpt = r_pagetable (rproc s p);
          s = rupd p (\<lambda>q. q\<lparr>r_pagetable := pt, r_sz := sz\<rparr>) s;
          s = wr64 (r_trapframe (rproc s p) + tf_epc) entry s;
          s = wr64 (r_trapframe (rproc s p) + tf_sp) sp s
      in obind (on_vm (proc_freepagetable fuel X oldpt oldsz) s) (\<lambda>s.
         obind (if r_pid (rproc s p) = 1 then vmprint (VE X) (r_pagetable (rproc s p)) 1 (mem (rvm s)) else Ret []) (\<lambda>out.
         Ret (of_nat argc, out, s))))"

text \<open>The user stack: two pages, the lower one not accessible to the user, then the arguments.\<close>

definition exec_stack ::
    "nat \<Rightarrow> ('x, 'f, 'w) rv_ext \<Rightarrow> 'f exec_ext \<Rightarrow> addr64 \<Rightarrow> addr64 list \<Rightarrow> u64 \<Rightarrow> ('x, 'f, 'w) rv_st
       \<Rightarrow> ((nat \<times> u64) option \<times> u64 \<times> ('x, 'f, 'w) rv_st) outcome" where
  "exec_stack fuel X Y pt argv sz0 s =
     (let sz = PGROUNDUP (VE X) sz0 in
      obind (call_vm (uvmalloc fuel (VE X) pt sz (sz + 2 * PGSIZE (VE X)) (perm_int (PTE_W (VE X)))) s) (\<lambda>(sz1, s).
      if sz1 = 0 then Ret (None, sz, s)
      else
        obind (on_vm (uvmclear (VE X) pt (sz1 - 2 * PGSIZE (VE X))) s) (\<lambda>s.
        let stackbase = sz1 - PGSIZE (VE X) in
        obind (exec_push fuel X Y pt stackbase 0 argv sz1 s) (\<lambda>(r, s).
        case r of None \<Rightarrow> Ret (None, sz1, s) | Some (argc, sp) \<Rightarrow>
          if \<not> argc < MAXARG Y then Undef ''ustack''
          else
            let s = wr64 (ustack_addr Y + 8 * of_nat argc) 0 s;
                sp = sp - (of_nat argc + 1) * 8;
                sp = sp - sp mod 16
            in if sp < stackbase then Ret (None, sz1, s)
               else
                 obind (call_vm (copyout fuel (VE X) pt sp (ustack_addr Y) ((of_nat argc + 1) * 8)) s) (\<lambda>(r, s).
                 if slt r 0 then Ret (None, sz1, s) else Ret (Some (argc, sp), sz1, s))))))"

definition exec ::
    "nat \<Rightarrow> ('x, 'f, 'w) rv_ext \<Rightarrow> 'f exec_ext \<Rightarrow> string \<Rightarrow> addr64 list \<Rightarrow> ('x, 'f, 'w) rv_st
       \<Rightarrow> (i32 \<times> vmline list \<times> ('x, 'f, 'w) rv_st) outcome" where
  "exec fuel X Y path argv s =
     obind (rv_curproc X s) (\<lambda>(p, s).
     obind (on_files (begin_op X) s) (\<lambda>s.
     obind (call_files (namei X path) s) (\<lambda>(ip, s).
     if ip = 0 then obind (on_files (end_op X) s) (\<lambda>s. Ret (- 1, [], s))
     else
       obind (on_files (ilock Y ip) s) (\<lambda>s.
       case inode_read Y ip 0 (sizeof_elfhdr Y) s of (bs, s) \<Rightarrow>
         if length bs \<noteq> unat (sizeof_elfhdr Y) then exec_bad fuel X Y 0 0 ip s
         else
           let elf = elf_of Y bs in
           if e_magic elf \<noteq> ELF_MAGIC Y then exec_bad fuel X Y 0 0 ip s
           else
             obind (call_vm (proc_pagetable fuel X (r_trapframe (rproc s p)) (r_usyscall (rproc s p))) s) (\<lambda>(pt, s).
             if pt = 0 then exec_bad fuel X Y 0 0 ip s
             else
               obind (exec_load fuel X Y ip pt (unat (e_phnum elf)) (ucast (e_phoff elf)) 0 s) (\<lambda>(good, sz, s).
               if \<not> good then exec_bad fuel X Y pt sz ip s
               else
                 obind (on_files (iunlockput Y ip) s) (\<lambda>s.
                 obind (on_files (end_op X) s) (\<lambda>s.
                 obind (rv_curproc X s) (\<lambda>(p, s).
                 let oldsz = r_sz (rproc s p) in
                 obind (exec_stack fuel X Y pt argv sz s) (\<lambda>(r, sz, s).
                 case r of
                   None \<Rightarrow> exec_bad fuel X Y pt sz 0 s
                 | Some (argc, sp) \<Rightarrow>
                     exec_commit fuel X path p pt sz oldsz sp (e_entry elf) argc s)))))))))) "

end
