(* ===== verification/Rv_Image.thy ===== *)
theory Rv_Image
  imports Rv_Wait Rv_Exec
begin

text \<open>
  The address space that \<open>exec\<close> builds beside the one of the process: its tables and pages come from the
  free pages, and its bytes are an image, a function from user addresses to bytes. What the steps
  of \<open>exec\<close> do to memory is a change of this image.
\<close>

section \<open>Images\<close>

type_synonym uimage = "nat \<Rightarrow> u8"

definition put_bytes :: "nat \<Rightarrow> u8 list \<Rightarrow> uimage \<Rightarrow> uimage" where
  "put_bytes a bs img = (\<lambda>n. if a \<le> n \<and> n < a + length bs then bs ! (n - a) else img n)"

lemma put_bytes_Nil [simp]: "put_bytes a [] img = img"
  by (auto simp: put_bytes_def fun_eq_iff)

lemma put_bytes_append: "put_bytes (a + length xs) ys (put_bytes a xs img) = put_bytes a (xs @ ys) img"
  by (auto simp: put_bytes_def fun_eq_iff nth_append)

lemma put_bytes_at: "i < length bs \<Longrightarrow> put_bytes a bs img (a + i) = bs ! i"
  by (simp add: put_bytes_def)

lemma put_bytes_other: "n < a \<or> a + length bs \<le> n \<Longrightarrow> put_bytes a bs img n = img n"
  by (auto simp: put_bytes_def)

text \<open>Growing an image: new pages are zero.\<close>

definition grow_image :: "u64 \<Rightarrow> uimage \<Rightarrow> uimage" where
  "grow_image sz img = (\<lambda>n. if n < 4096 * npages sz then img n else 0)"

section \<open>The new address space\<close>

text \<open>
  Memory \<open>v\<close> holds the tree \<open>T\<close> of \<open>sz\<close> bytes with the image \<open>img\<close>, besides the process \<open>p\<close>, whose trap frame and
  pid page (\<open>t\<close> and \<open>u\<close>) it shares. Tree and pages were free in \<open>v0\<close>; the pages \<open>K\<close> are the kernel's.
\<close>

definition new_image ::
    "('x, 'f, 'w) rv_ext \<Rightarrow> ('w vm \<Rightarrow> nat set) \<Rightarrow> nat set \<Rightarrow> nat set \<Rightarrow> rv_proc \<Rightarrow> 'w vm \<Rightarrow> pages_of \<Rightarrow> 'w vm \<Rightarrow> u64 \<Rightarrow> uimage \<Rightarrow> bool" where
  "new_image X free ram K p v0 a v sz img \<longleftrightarrow> (case a of (T, t, u) \<Rightarrow>
     t \<in> ram - free v0 - K \<and> u \<in> ram - free v0 - K \<and> t \<noteq> u \<and> K \<inter> free v0 = {} \<and>
     r_trapframe p = adr t 0 \<and> r_usyscall p = adr u 0 \<and> root T \<noteq> 0 \<and> proc_space X free ram v T sz t u \<and>
     free v \<union> ran T \<union> fr (VE X) v T ` {..<npages sz} = free v0 \<and>
     (\<forall>x. pg x \<notin> free v0 \<union> K \<longrightarrow> mem v x = mem v0 x) \<and>
     (\<forall>n < 4096 * npages sz. mem v (ua (VE X) (mem v) T n) = img n))"

lemma new_imageD:
  assumes "new_image X free ram K p v0 (T, t, u) v sz img"
  shows "t \<in> ram - free v0 - K" and "u \<in> ram - free v0 - K" and "t \<noteq> u" and "K \<inter> free v0 = {}"
    and "r_trapframe p = adr t 0" and "r_usyscall p = adr u 0" and "root T \<noteq> 0" and "proc_space X free ram v T sz t u"
    and "free v \<union> ran T \<union> fr (VE X) v T ` {..<npages sz} = free v0"
    and "\<And>x. pg x \<notin> free v0 \<union> K \<Longrightarrow> mem v x = mem v0 x"
    and "\<And>n. n < 4096 * npages sz \<Longrightarrow> mem v (ua (VE X) (mem v) T n) = img n"
  using assms unfolding new_image_def by auto

lemma new_image_cong:
  assumes "new_image X free ram K p v0 a v sz img" and "\<And>n. n < 4096 * npages sz \<Longrightarrow> img n = img' n"
  shows "new_image X free ram K p v0 a v sz img'"
  using assms unfolding new_image_def by (simp split: prod.splits)

context rv_kernel
begin

lemma image_pages:
  assumes im: "new_image X free ram K p v0 (T, t, u) v sz img"
  shows "uspace (VE X) free ram v T {..<npages sz}" and "(ran T \<union> fr (VE X) v T ` {..<npages sz}) \<inter> free v = {}"
    and "npages sz \<le> card (free v0)" and "npages sz \<le> v_usys"
    and "\<And>n. n < 4096 * npages sz \<Longrightarrow> pg (ua (VE X) (mem v) T n) = fr (VE X) v T (n div 4096)"
    and "\<And>n m. n < 4096 * npages sz \<Longrightarrow> m < 4096 * npages sz \<Longrightarrow> ua (VE X) (mem v) T n = ua (VE X) (mem v) T m \<Longrightarrow> n = m"
    and "has_mem X free ram v (p\<lparr>r_pagetable := root T, r_sz := sz\<rparr>) (T, t, u)"
    and "card (free v) + npages sz \<le> card (free v0)"
proof -
  note I = new_imageD [OF im]
  note S = proc_spaceD [OF I(8)]
  let ?E = "VE X"
  show us: "uspace ?E free ram v T {..<npages sz}" by (rule S(1))
  note U = uspaceD [OF us]
  have dF: "fr ?E v T ` {..<npages sz} \<inter> free v = {}" "fr ?E v T ` {..<npages sz} \<inter> ran T = {}" using U(4) by auto
  show dis: "(ran T \<union> fr ?E v T ` {..<npages sz}) \<inter> free v = {}" using S(2) dF(1) by (auto simp: owns_def)
  have "card (free v) + card (fr ?E v T ` {..<npages sz}) = card (free v \<union> fr ?E v T ` {..<npages sz})"
    using dF(1) by (intro card_Un_disjoint [symmetric] finite_free) auto
  also have "\<dots> \<le> card (free v0)" using I(9) by (intro card_mono finite_free) auto
  also have "card (fr ?E v T ` {..<npages sz}) = npages sz" using U(5) by (simp add: card_image)
  finally show c: "card (free v) + npages sz \<le> card (free v0)" .
  then show "npages sz \<le> card (free v0)" by simp
  show "npages sz \<le> v_usys" by (rule user_pages [OF S(4)])
  have f: "frame (fr ?E v T (n div 4096))" if "n < 4096 * npages sz" for n
  proof -
    have "n div 4096 < npages sz" using that by (simp add: div_less_iff_less_mult mult.commute)
    then show ?thesis using U(4) [of "n div 4096"] free_frame by auto
  qed
  show "pg (ua ?E (mem v) T n) = fr ?E v T (n div 4096)" if "n < 4096 * npages sz" for n
    using pg_adr [OF f [OF that], of "n mod 4096"] by (simp add: ua_def)
  show "n = m" if n: "n < 4096 * npages sz" "m < 4096 * npages sz" "ua ?E (mem v) T n = ua ?E (mem v) T m" for n m
  proof -
    have "fr ?E v T (n div 4096) = fr ?E v T (m div 4096)" "n mod 4096 = m mod 4096"
      using n(3) f [OF n(1)] f [OF n(2)] by (auto simp: ua_def adr_inj)
    moreover have "n div 4096 < npages sz" "m div 4096 < npages sz"
      using n(1,2) by (simp_all add: div_less_iff_less_mult mult.commute)
    ultimately show ?thesis using inj_onD [OF U(5), of "n div 4096" "m div 4096"] by (metis div_mult_mod_eq lessThan_iff)
  qed
  have nz: "adr t 0 \<noteq> 0" "adr u 0 \<noteq> 0" using adr_nonzero [of t 0] adr_nonzero [of u 0] S(5,6) by auto
  have "ran T \<union> fr ?E v T ` {..<npages sz} \<subseteq> ram - free v" using S(3) dis U(4) by auto
  then show "has_mem X free ram v (p\<lparr>r_pagetable := root T, r_sz := sz\<rparr>) (T, t, u)"
    using I(1-9) nz by (auto simp: has_mem_def foot_eq pt_pages_def page_at_def)
qed

text \<open>The space as \<open>proc_pagetable\<close> makes it.\<close>

lemma image_start:
  assumes "t \<in> ram - free v0 - K" "u \<in> ram - free v0 - K" "t \<noteq> u" "K \<inter> free v0 = {}" "r_trapframe p = adr t 0" "r_usyscall p = adr u 0"
    and "root T \<noteq> 0" and "proc_space X free ram v T 0 t u" and "ran T \<subseteq> free v0" and "free v = free v0 - ran T"
    and "\<And>x. pg x \<notin> free v0 \<Longrightarrow> mem v x = mem v0 x"
  shows "new_image X free ram K p v0 (T, t, u) v 0 img"
proof -
  have "npages 0 = 0" by (simp add: npages_def)
  with assms show ?thesis unfolding new_image_def by auto
qed

text \<open>Writing to memory outside the free pages and the tree.\<close>

lemma image_mem:
  assumes im: "new_image X free ram K p v0 (T, t, u) v sz img"
    and m: "\<And>x. pg x \<in> ran T \<union> free v \<Longrightarrow> m x = mem v x" and out: "\<And>x. pg x \<notin> free v0 \<union> K \<Longrightarrow> m x = mem v x"
    and img: "\<And>n. n < 4096 * npages sz \<Longrightarrow> m (ua (VE X) (mem v) T n) = img' n"
  shows "new_image X free ram K p v0 (T, t, u) (v\<lparr>mem := m\<rparr>) sz img'" and "\<And>va. pte (VE X) m T va = pte (VE X) (mem v) T va"
    and "free (v\<lparr>mem := m\<rparr>) = free v" and "ua (VE X) m T = ua (VE X) (mem v) T"
proof -
  note I = new_imageD [OF im] and P = image_pages [OF im]
  show fr: "free (v\<lparr>mem := m\<rparr>) = free v" using m by (intro free_other) auto
  have "(ran T \<union> fr (VE X) v T ` {..<npages sz}) \<inter> free (v\<lparr>mem := m\<rparr>) = {}" using P(2) fr by simp
  note f = proc_space_frame [OF I(8) _ this]
  show pte: "pte (VE X) m T va = pte (VE X) (mem v) T va" for va using f(2) [of va] m by simp
  then show ua: "ua (VE X) m T = ua (VE X) (mem v) T" by (intro ua_same)
  have "m x = mem v0 x" if "pg x \<notin> free v0 \<union> K" for x using out [OF that] I(10) [OF that] by simp
  then show "new_image X free ram K p v0 (T, t, u) (v\<lparr>mem := m\<rparr>) sz img'"
    using I(1-9) f(1) m img fr unfolding new_image_def by (simp add: pte ua)
qed

lemma image_write:
  assumes im: "new_image X free ram K p v0 (T, t, u) v sz img" and N: "a + length bs \<le> 4096 * npages sz"
    and w: "\<And>i. i < length bs \<Longrightarrow> m (ua (VE X) (mem v) T (a + i)) = bs ! i"
    and m: "\<And>x. x \<notin> (\<lambda>i. ua (VE X) (mem v) T (a + i)) ` {..<length bs} \<Longrightarrow> m x = mem v x"
  shows "new_image X free ram K p v0 (T, t, u) (v\<lparr>mem := m\<rparr>) sz (put_bytes a bs img)"
    and "\<And>va. pte (VE X) m T va = pte (VE X) (mem v) T va" and "free (v\<lparr>mem := m\<rparr>) = free v"
    and "ua (VE X) m T = ua (VE X) (mem v) T" and "\<And>x. pg x \<notin> free v0 \<Longrightarrow> m x = mem v x"
proof -
  note I = new_imageD [OF im] and P = image_pages [OF im]
  let ?W = "fr (VE X) v T ` {..<npages sz}"
  have out: "m x = mem v x" if "pg x \<notin> ?W" for x
  proof (rule m)
    show "x \<notin> (\<lambda>i. ua (VE X) (mem v) T (a + i)) ` {..<length bs}"
    proof
      assume "x \<in> (\<lambda>i. ua (VE X) (mem v) T (a + i)) ` {..<length bs}"
      then obtain i where i: "i < length bs" "x = ua (VE X) (mem v) T (a + i)" by auto
      then have "(a + i) div 4096 < npages sz" "pg x = fr (VE X) v T ((a + i) div 4096)"
        using N P(5) [of "a + i"] by (auto simp: div_less_iff_less_mult mult.commute)
      with that show False by auto
    qed
  qed
  have "?W \<inter> (ran T \<union> free v) = {}" using uspaceD(4) [OF P(1)] by auto
  then have 1: "m x = mem v x" if "pg x \<in> ran T \<union> free v" for x using that by (intro out) auto
  show 2: "m x = mem v x" if "pg x \<notin> free v0" for x using that I(9) by (intro out) auto
  have 3: "m (ua (VE X) (mem v) T n) = put_bytes a bs img n" if n: "n < 4096 * npages sz" for n
  proof (cases "a \<le> n \<and> n < a + length bs")
    case True
    then have "n - a < length bs" by auto
    with True show ?thesis using w [of "n - a"] by (simp add: put_bytes_def)
  next
    case False
    have "ua (VE X) (mem v) T n \<notin> (\<lambda>i. ua (VE X) (mem v) T (a + i)) ` {..<length bs}"
    proof
      assume "ua (VE X) (mem v) T n \<in> (\<lambda>i. ua (VE X) (mem v) T (a + i)) ` {..<length bs}"
      then obtain i where "i < length bs" "ua (VE X) (mem v) T n = ua (VE X) (mem v) T (a + i)" by auto
      with P(6) [OF n, of "a + i"] N False show False by simp
    qed
    then show ?thesis using m I(11) [OF n] False by (auto simp: put_bytes_def)
  qed
  from image_mem [OF im 1 _ 3] 2 show "new_image X free ram K p v0 (T, t, u) (v\<lparr>mem := m\<rparr>) sz (put_bytes a bs img)"
    "\<And>va. pte (VE X) m T va = pte (VE X) (mem v) T va" "free (v\<lparr>mem := m\<rparr>) = free v" "ua (VE X) m T = ua (VE X) (mem v) T" by simp_all
qed

text \<open>Writing to pages of the kernel.\<close>

lemma image_kernel:
  assumes im: "new_image X free ram K p v0 (T, t, u) v sz img" and m: "\<And>x. pg x \<notin> K \<Longrightarrow> m x = mem v x"
  shows "new_image X free ram K p v0 (T, t, u) (v\<lparr>mem := m\<rparr>) sz img"
    and "\<And>va. pte (VE X) m T va = pte (VE X) (mem v) T va" and "free (v\<lparr>mem := m\<rparr>) = free v"
    and "ua (VE X) m T = ua (VE X) (mem v) T"
proof -
  note I = new_imageD [OF im] and P = image_pages [OF im]
  have 1: "m x = mem v x" if "pg x \<in> ran T \<union> free v" for x using that I(4,9) by (intro m) auto
  have 2: "m (ua (VE X) (mem v) T n) = img n" if n: "n < 4096 * npages sz" for n
  proof -
    have "n div 4096 < npages sz" using n by (simp add: div_less_iff_less_mult mult.commute)
    then have "pg (ua (VE X) (mem v) T n) \<notin> K" using P(5) [OF n] I(4,9) by auto
    then show ?thesis using m I(11) [OF n] by simp
  qed
  from image_mem [OF im 1 _ 2] m show "new_image X free ram K p v0 (T, t, u) (v\<lparr>mem := m\<rparr>) sz img"
    "\<And>va. pte (VE X) m T va = pte (VE X) (mem v) T va" "free (v\<lparr>mem := m\<rparr>) = free v" "ua (VE X) m T = ua (VE X) (mem v) T" by simp_all
qed

text \<open>Giving the whole space back.\<close>

lemma image_free:
  assumes im: "new_image X free ram K p v0 (T, t, u) v sz img" and sz: "npages sz' = npages sz" "sz' \<le> USYSCALL X"
    and fuel: "npages sz + 3 \<le> fuel"
  shows "\<exists>v'. proc_freepagetable fuel X (root T) sz' v = Ret v' \<and> free v' = free v0 \<and>
    (\<forall>x. pg x \<notin> free v0 \<union> K \<longrightarrow> mem v' x = mem v0 x)"
proof -
  note I = new_imageD [OF im]
  have "proc_space X free ram v T sz' t u" using I(8) sz by (simp add: proc_space_def)
  from proc_freepagetable_spec [OF this, of fuel] fuel sz obtain v' where
    "proc_freepagetable fuel X (root T) sz' v = Ret v'" "free v' = free v0"
    "\<forall>x. pg x \<notin> free v0 \<longrightarrow> mem v' x = mem v x" using I(9) by auto
  with I(10) show ?thesis by (intro exI [of _ v']) auto
qed

end

section \<open>Growing it\<close>

text \<open>When memory does not suffice for a smaller size, it does not for a larger one.\<close>

lemma uvmalloc_loop_more:
  assumes "uvmalloc_loop fuel E pt a old B xperm s = Ret (0, s')" and "B \<noteq> 0" and "B \<le> new"
  shows "uvmalloc_loop fuel E pt a old new xperm s = Ret (0, s')"
  using assms(1)
proof (induction fuel arbitrary: a s)
  case (Suc fuel)
  have "a < B"
  proof (rule ccontr)
    assume "\<not> a < B"
    with Suc.prems assms(2) show False by simp
  qed
  with assms(3) have "a < B" "a < new" by auto
  with Suc show ?case by (auto simp: Let_def outcome_simps split: prod.splits if_splits)
qed simp

lemma same_without: "A \<union> (N \<union> D) = B \<union> (M \<union> D) \<Longrightarrow> D \<inter> (A \<union> N) = {} \<Longrightarrow> D \<inter> (B \<union> M) = {} \<Longrightarrow> A \<union> N = B \<union> M"
  by blast

text \<open>The permissions of a segment, read with those that every page gets.\<close>

lemma perm_cases:
  assumes "xperm \<in> {0, 4, 8, 12}"
  shows "take_bit 10 (18 OR scast (xperm :: i32)) = (18 OR scast xperm :: u64)" and "(18 OR scast xperm :: u64) OR 1 \<noteq> 1"
    and "((18 OR scast xperm :: u64) OR 1) AND 1 \<noteq> 0" and "((18 OR scast xperm :: u64) OR 1) AND 16 \<noteq> 0"
    and "((18 OR scast xperm :: u64) OR 1) AND 2 \<noteq> 0"
  using assms by (auto simp: take_bit_eq_mod)

context rv_kernel
begin

lemma alloc_perm_eq: "(scast (alloc_perm xperm) :: u64) = 18 OR scast xperm"
proof -
  have "(scast (alloc_perm xperm) :: u64) = scast (18 :: i32) OR scast xperm"
    by (simp add: PTE_R_eq PTE_U_eq signed_or_eq)
  then show ?thesis by simp
qed

lemma flags_bits:
  assumes "PTE_FLAGS (VE X) e = f"
  shows "f AND 1 = e AND 1" and "f AND 2 = e AND 2" and "f AND 16 = e AND 16"
  by (simp_all add: assms [symmetric] PTE_FLAGS_eq and.assoc)

lemma uacc_flags: "w < 2 ^ 26 \<Longrightarrow> PTE_FLAGS (VE X) (pte (VE X) m T (adr w 0)) = f \<Longrightarrow> f AND 1 \<noteq> 0 \<Longrightarrow> f AND 16 \<noteq> 0 \<Longrightarrow> uacc (VE X) m T w"
  using flags_bits [of "pte (VE X) m T (adr w 0)" f] by (simp add: uacc_def)

lemma image_grown:
  assumes im: "new_image X free ram K p v0 (T, t, u) v sz img" and g: "ugrown (VE X) free ram v T {..<npages sz} v' T' {..<npages new}"
    and new: "new \<le> USYSCALL X" and z: "\<And>w. npages sz \<le> w \<Longrightarrow> w < npages new \<Longrightarrow> zero_page (VE X) v' T' w"
  shows "new_image X free ram K p v0 (T', t, u) v' new (grow_image sz img)" and "root T' = root T"
    and "\<And>w. w < npages sz \<Longrightarrow> uacc (VE X) (mem v) T w \<Longrightarrow> uacc (VE X) (mem v') T' w"
proof -
  note I = new_imageD [OF im] and P = image_pages [OF im] and G = ugrownD [OF g]
  let ?E = "VE X" and ?p = "p\<lparr>r_pagetable := root T, r_sz := sz\<rparr>"
  have nz: "r_pagetable ?p \<noteq> 0" "r_trapframe ?p \<noteq> 0" "r_usyscall ?p \<noteq> 0"
    using I(1,2,5-7) adr_nonzero [of t 0] adr_nonzero [of u 0] free_frame by auto
  from g have "ugrown ?E free ram v T {..<npages (r_sz ?p)} v' T' {..<npages new}" by simp
  note H = grown_has_mem [OF P(7) nz this new]
  show root: "root T' = root T" by (rule root_ugrown [OF P(1) g])
  have hm: "has_mem X free ram v' (p\<lparr>r_pagetable := root T, r_sz := new\<rparr>) (T', t, u)" using H(1) by simp
  have ps: "proc_space X free ram v' T' new t u" using has_memD(4) [OF hm] I(7) by simp
  have ft: "foot X v' (p\<lparr>r_pagetable := root T, r_sz := new\<rparr>) (T', t, u) = ran T' \<union> fr ?E v' T' ` {..<npages new} \<union> {t, u}"
    "foot X v ?p (T, t, u) = ran T \<union> fr ?E v T ` {..<npages sz} \<union> {t, u}"
    using nz by (auto simp: foot_eq pt_pages_def page_at_def)
  have "free v' \<union> (ran T' \<union> fr ?E v' T' ` {..<npages new} \<union> {t, u}) = free v \<union> (ran T \<union> fr ?E v T ` {..<npages sz} \<union> {t, u})"
    using H(2) ft by simp
  moreover have "{t, u} \<inter> (free v' \<union> (ran T' \<union> fr ?E v' T' ` {..<npages new})) = {}"
    using has_memD(5-7) [OF hm] nz I(7) unfolding ft by (auto simp: page_at_def pt_pages_def)
  moreover have "{t, u} \<inter> (free v \<union> (ran T \<union> fr ?E v T ` {..<npages sz})) = {}" using I(1,2,9) by auto
  ultimately have "free v' \<union> (ran T' \<union> fr ?E v' T' ` {..<npages new}) = free v \<union> (ran T \<union> fr ?E v T ` {..<npages sz})"
    by (rule same_without)
  then have fv: "free v' \<union> ran T' \<union> fr ?E v' T' ` {..<npages new} = free v0" using I(9) by (simp add: Un_assoc)
  have pte: "pte ?E (mem v') T' (adr w 0) = pte ?E (mem v) T (adr w 0)" if "w < npages sz" for w
    using G(7) [of "adr w 0"] that uspaceD(2) [OF P(1)] by (simp add: vpage_less pg_vpage)
  then show "uacc ?E (mem v') T' w" if "w < npages sz" "uacc ?E (mem v) T w" for w using that by (simp add: uacc_def)
  have "mem v' (ua ?E (mem v') T' n) = grow_image sz img n" if n: "n < 4096 * npages new" for n
  proof (cases "n < 4096 * npages sz")
    case True
    then have w: "n div 4096 < npages sz" by (simp add: div_less_iff_less_mult mult.commute)
    then have "ua ?E (mem v') T' n = ua ?E (mem v) T n" using pte by (simp add: ua_def)
    moreover have "pg (ua ?E (mem v) T n) \<notin> ran T \<union> free v" using P(5) [OF True] uspaceD(4) [OF P(1), of "n div 4096"] w by auto
    ultimately show ?thesis using G(8) I(11) [OF True] True by (simp add: grow_image_def)
  next
    case False
    have w: "npages sz \<le> n div 4096" "n div 4096 < npages new"
      using n False by (simp_all add: div_less_iff_less_mult less_eq_div_iff_mult_less_eq mult.commute)
    then have "pg (ua ?E (mem v') T' n) = fr ?E v' T' (n div 4096)"
      using leaf_entryD(3) [OF uspaceD(3) [OF G(1)], of "n div 4096"] by (simp add: ua_def pg_adr)
    with z [OF w] False show ?thesis by (simp add: zero_page_def grow_image_def)
  qed
  moreover have "mem v' x = mem v0 x" if "pg x \<notin> free v0 \<union> K" for x
  proof -
    have "pg x \<notin> ran T \<union> free v" using that I(9) by auto
    with G(8) I(10) [OF that] show ?thesis by simp
  qed
  ultimately show "new_image X free ram K p v0 (T', t, u) v' new (grow_image sz img)"
    using I(1-6) ps fv root I(7) by (simp add: new_image_def)
qed

end

context rv_kernel
begin

lemma npages_bound: "unat sz \<le> 4096 * npages sz" "k < npages sz \<Longrightarrow> 4096 * k < unat sz"
  unfolding npages_def by linarith+

text \<open>\<open>uvmalloc\<close> out of memory, also for sizes far beyond the address space.\<close>

lemma image_no_memory:
  assumes im: "new_image X free ram K p v0 (T, t, u) v sz img" and card: "card (free v0) + 1 < v_usys"
    and new: "Suc (npages sz + card (free v)) < npages new" and fuel: "2 * card (free v0) + 4 \<le> fuel" and xp: "xperm \<in> {0, 4, 8, 12}"
  shows "\<exists>v' T'. uvmalloc fuel (VE X) (root T) sz new xperm v = Ret (0, v') \<and> root T' = root T \<and>
     new_image X free ram K p v0 (T', t, u) v' sz img \<and> (\<forall>w < npages sz. uacc (VE X) (mem v) T w \<longrightarrow> uacc (VE X) (mem v') T' w)"
proof -
  note I = new_imageD [OF im] and P = image_pages [OF im]
  note S = proc_spaceD [OF I(8)]
  let ?E = "VE X"
  define N where "N = npages sz + card (free v) + 1"
  have N: "N \<le> card (free v0) + 1" "N < v_usys" "N \<le> 2 ^ 26" using P(8) card v_bounds unfolding N_def by auto
  define B where "B = adr N 0"
  have B: "npages B = N" "unat B = 4096 * N" unfolding B_def using N(3) by (rule npages_vpage, rule unat_vpage)
  have szB: "sz \<le> B" using npages_bound(1) [of sz] B N_def by (simp add: word_le_nat_alt)
  have Bnew: "B \<le> new"
  proof (rule ccontr)
    assume "\<not> B \<le> new"
    then have "npages new \<le> N" using npages_mono [of new B] B(1) by simp
    with new N_def show False by simp
  qed
  have Bu: "B \<le> USYSCALL X" unfolding layout B_def using N(2) v_bounds by (simp add: word_le_nat_alt unat_vpage)
  have Bm: "B \<le> MAXVA ?E" using Bu usys_max by order
  have B0: "B \<noteq> 0"
  proof
    assume "B = 0"
    then have "unat B = 0" by simp
    with B(2) N_def show False by simp
  qed
  have f: "2 * npages B + 2 \<le> fuel" using fuel N(1) B(1) by simp
  have un: "pte ?E (mem v) T va = 0" if "va < MAXVA ?E" "npages sz \<le> pg va" "pg va < npages B" for va
    using that user_below [OF Bu] by (intro S(8)) auto
  from uvmalloc_spec [OF S(1) szB Bm f un, of xperm, unfolded alloc_perm_eq, OF _ _ _ perm_cases(1) [OF xp] perm_cases(2) [OF xp]] obtain r v' T' where
    r: "uvmalloc fuel ?E (root T) sz B xperm v = Ret (r, v')"
    and d: "r = B \<and> ugrown ?E free ram v T {..<npages sz} v' T' {..<npages B} \<or> r = 0 \<and> ugrown ?E free ram v T {..<npages sz} v' T' {..<npages sz}"
    by blast
  have "\<not> ugrown ?E free ram v T {..<npages sz} v' T' {..<npages B}"
  proof
    assume g: "ugrown ?E free ram v T {..<npages sz} v' T' {..<npages B}"
    let ?D = "{..<npages B} - {..<npages sz}"
    have "inj_on (fr ?E v' T') ?D" using uspaceD(5) [OF ugrownD(1) [OF g]] by (rule inj_on_subset) auto
    then have "card ?D \<le> card (free v)" using card_mono [OF finite_free ugrownD(5) [OF g]] by (simp add: card_image)
    moreover have "?D = {npages sz..<npages B}" by auto
    ultimately show False by (simp add: B(1) N_def)
  qed
  with d have g: "r = 0" "ugrown ?E free ram v T {..<npages sz} v' T' {..<npages sz}" by auto
  have "\<not> B < sz" "\<not> new < sz" using szB Bnew by auto
  then have "uvmalloc fuel ?E (root T) sz new xperm v = Ret (0, v')"
    using r g(1) uvmalloc_loop_more [OF _ B0 Bnew] by (simp add: uvmalloc_def)
  moreover note h = image_grown [OF im g(2) S(4)]
  have "new_image X free ram K p v0 (T', t, u) v' sz img"
    by (rule new_image_cong [OF h(1)]) (simp_all add: grow_image_def)
  ultimately show ?thesis using h(2,3) by (intro exI [of _ v'] exI [of _ T']) auto
qed

lemma image_alloc:
  assumes im: "new_image X free ram K p v0 (T, t, u) v sz img" and card: "card (free v0) + 1 < v_usys"
    and fuel: "2 * card (free v0) + 4 \<le> fuel" and xp: "xperm \<in> {0, 4, 8, 12}" and m: "m = max sz new"
  shows "\<exists>r v' T'. uvmalloc fuel (VE X) (root T) sz new xperm v = Ret (r, v') \<and> root T' = root T \<and>
     (r \<noteq> 0 \<and> r = m \<and> new_image X free ram K p v0 (T', t, u) v' m (grow_image sz img) \<and> card (free v) \<le> card (free v') + 3 * (npages m - npages sz) \<and>
        (\<forall>w < npages m. (w < npages sz \<longrightarrow> uacc (VE X) (mem v) T w) \<longrightarrow> uacc (VE X) (mem v') T' w) \<and>
        (\<forall>w. npages sz \<le> w \<longrightarrow> w < npages m \<longrightarrow> pte (VE X) (mem v') T' (adr w 0) AND 2 \<noteq> 0) \<or>
      r = 0 \<and> new_image X free ram K p v0 (T', t, u) v' sz img \<and> (m = 0 \<or> card (free v) < 3 * (npages m - npages sz)))"
proof (cases "Suc (npages sz + card (free v)) < npages new")
  case True
  have "sz \<le> new"
  proof (rule ccontr)
    assume "\<not> sz \<le> new"
    then have "npages new \<le> npages sz" using npages_mono [of new sz] by simp
    with True show False by simp
  qed
  then have "m = new" using m by (simp add: max_def)
  moreover have "card (free v) < 3 * (npages new - npages sz)" using True by simp
  moreover obtain v' T' where "uvmalloc fuel (VE X) (root T) sz new xperm v = Ret (0, v')" "root T' = root T"
    "new_image X free ram K p v0 (T', t, u) v' sz img" using image_no_memory [OF im card True fuel xp] by blast
  ultimately show ?thesis by (intro exI [of _ 0] exI [of _ v'] exI [of _ T']) simp
next
  case False
  note I = new_imageD [OF im] and P = image_pages [OF im]
  note S = proc_spaceD [OF I(8)]
  let ?E = "VE X"
  show ?thesis
  proof (cases "new < sz")
    case True
    then have "m = sz" "sz \<noteq> 0" "uvmalloc fuel ?E (root T) sz new xperm v = Ret (sz, v)" using m by (auto simp: uvmalloc_def max_def)
    moreover have "new_image X free ram K p v0 (T, t, u) v sz (grow_image sz img)"
      by (rule new_image_cong [OF im]) (simp add: grow_image_def)
    ultimately show ?thesis by (intro exI [of _ sz] exI [of _ v] exI [of _ T]) auto
  next
    case le: False
    then have mm: "m = new" "sz \<le> new" using m by (auto simp: max_def)
    have np: "npages new \<le> Suc (card (free v0))" using False P(8) by simp
    have newu: "new \<le> USYSCALL X"
      using np npages_bound(1) [of new] card v_bounds unfolding layout by (simp add: word_le_nat_alt unat_vpage)
    have nm: "new \<le> MAXVA ?E" using newu usys_max by order
    have f: "2 * npages new + 2 \<le> fuel" using fuel np by simp
    have un: "pte ?E (mem v) T va = 0" if "va < MAXVA ?E" "npages sz \<le> pg va" "pg va < npages new" for va
      using that user_below [OF newu] by (intro S(8)) auto
    from uvmalloc_spec [OF S(1) mm(2) nm f un, of xperm, unfolded alloc_perm_eq, OF _ _ _ perm_cases(1) [OF xp] perm_cases(2) [OF xp]] obtain r v' T' where
      r: "uvmalloc fuel ?E (root T) sz new xperm v = Ret (r, v')" "3 * (npages new - npages sz) \<le> card (free v) \<longrightarrow> r = new"
      and d: "r = new \<and> card (free v) \<le> card (free v') + 3 * (npages new - npages sz) \<and>
          ugrown ?E free ram v T {..<npages sz} v' T' {..<npages new} \<and>
          (\<forall>w. npages sz \<le> w \<longrightarrow> w < npages new \<longrightarrow> zero_page ?E v' T' w \<and>
             PTE_FLAGS ?E (pte ?E (mem v') T' (adr w 0)) = (18 OR scast xperm) OR 1) \<or>
        r = 0 \<and> ugrown ?E free ram v T {..<npages sz} v' T' {..<npages sz}" by blast
    from d consider (good) "r = new" "card (free v) \<le> card (free v') + 3 * (npages new - npages sz)"
          "ugrown ?E free ram v T {..<npages sz} v' T' {..<npages new}"
          "\<And>w. npages sz \<le> w \<Longrightarrow> w < npages new \<Longrightarrow> zero_page ?E v' T' w"
          "\<And>w. npages sz \<le> w \<Longrightarrow> w < npages new \<Longrightarrow> PTE_FLAGS ?E (pte ?E (mem v') T' (adr w 0)) = (18 OR scast xperm) OR 1"
      | (bad) "r = 0" "ugrown ?E free ram v T {..<npages sz} v' T' {..<npages sz}" by blast
    then show ?thesis
    proof cases
      case good
      note h = image_grown [OF im good(3) newu good(4)]
      have acc: "uacc ?E (mem v') T' w" if "w < npages new" "w < npages sz \<longrightarrow> uacc ?E (mem v) T w" for w
      proof (cases "w < npages sz")
        case True
        then show ?thesis using that h(3) by simp
      next
        case False
        then show ?thesis using that npages_le [OF nm] good(5) [of w] perm_cases(3,4) [OF xp] by (intro uacc_flags) auto
      qed
      have rd: "pte ?E (mem v') T' (adr w 0) AND 2 \<noteq> 0" if "npages sz \<le> w" "w < npages new" for w
        using good(5) [OF that] perm_cases(5) [OF xp] flags_bits(2) by metis
      show ?thesis
      proof (cases "new = 0")
        case True
        then have z: "sz = 0" using mm(2) by simp
        have "new_image X free ram K p v0 (T', t, u) v' sz img"
          using new_image_cong [OF h(1), of img] True z by (simp add: npages_def)
        with r(1) good(1) True mm h(2) show ?thesis by auto
      next
        case ne: False
        with r(1) good(1,2) h(1,2) acc rd mm show ?thesis
          by (intro exI [of _ r] exI [of _ v'] exI [of _ T'] conjI disjI1) auto
      qed
    next
      case bad
      note h = image_grown [OF im bad(2) S(4)]
      have "new_image X free ram K p v0 (T', t, u) v' sz img"
        by (rule new_image_cong [OF h(1)]) (simp_all add: grow_image_def)
      moreover have "m = 0 \<or> card (free v) < 3 * (npages m - npages sz)" using r(2) bad(1) mm by auto
      ultimately show ?thesis using r(1) bad(1) h(2) by (intro exI [of _ r] exI [of _ v'] exI [of _ T']) auto
    qed
  qed
qed

end

end
