(* ===== verification/Rv_Load.thy ===== *)
theory Rv_Load
  imports Rv_Image
begin

text \<open>
  Loading a program: \<open>loadseg\<close> and the loop of \<open>exec\<close> over the program headers compute the image that the file
  describes. The locale \<open>exec_env\<close> has what is relied on of the inode layer and \<open>strlen\<close>.
\<close>

section \<open>Files and strings\<close>

text \<open>What \<open>readi\<close> reads of a file: nothing if the range wraps around, else what there is of it.\<close>

definition file_read :: "u8 list \<Rightarrow> u32 \<Rightarrow> u32 \<Rightarrow> u8 list" where
  "file_read d off n = (if unat off + unat n < 2 ^ 32 then take (unat n) (drop (unat off) d) else [])"

definition c_string :: "bytes \<Rightarrow> addr64 \<Rightarrow> u8 list \<Rightarrow> bool" where
  "c_string m a bs \<longleftrightarrow> 0 \<notin> set bs \<and> (\<forall>i \<le> length bs. m (a + of_nat i) = (bs @ [0]) ! i)"

locale exec_env = rv_os X free ram
  for X :: "('x, 'f, 'w) rv_ext" and free :: "'w vm \<Rightarrow> nat set" and ram :: "nat set" +
  fixes Y :: "'f exec_ext" and disk :: "'f \<Rightarrow> addr64 \<Rightarrow> u8 list"
  assumes readi_law: "\<exists>w'. readi Y ip off n w = (file_read (disk w ip) off n, w') \<and> disk w' ip = disk w ip"
    and iunlockput_law: "\<exists>w'. iunlockput Y ip w = Ret w'"
    and strlen_law: "c_string m a bs \<Longrightarrow> strlen Y a m = of_nat (length bs)"
    and MAXARG_law: "MAXARG Y \<le> 64"

lemma file_read_split:
  assumes "unat a + unat b < 2 ^ 32" and "0 < unat a"
  shows "length (file_read d off (a + b)) = unat a + unat b \<longleftrightarrow> length (file_read d off a) = unat a \<and> length (file_read d (off + a) b) = unat b"
    and "length (file_read d off (a + b)) = unat a + unat b \<Longrightarrow> file_read d off (a + b) = file_read d off a @ file_read d (off + a) b"
proof -
  have ab: "unat (a + b) = unat a + unat b" using assms(1) by (simp add: unat_word_ariths)
  show "length (file_read d off (a + b)) = unat a + unat b \<longleftrightarrow> length (file_read d off a) = unat a \<and> length (file_read d (off + a) b) = unat b"
  proof (cases "unat off + unat a < 2 ^ 32")
    case True
    then have "unat (off + a) = unat off + unat a" by (simp add: unat_word_ariths)
    with True show ?thesis using assms by (auto simp: file_read_def ab)
  next
    case False
    with assms(2) show ?thesis by (simp add: file_read_def ab)
  qed
  assume l: "length (file_read d off (a + b)) = unat a + unat b"
  then have s: "unat off + unat a + unat b < 2 ^ 32" using assms(2) by (auto simp: file_read_def ab add.assoc split: if_splits)
  then have "unat (off + a) = unat off + unat a" by (simp add: unat_word_ariths)
  with s show "file_read d off (a + b) = file_read d off a @ file_read d (off + a) b"
    by (simp add: file_read_def ab add.assoc take_add) (simp add: add.commute)
qed

section \<open>Segments\<close>

context exec_env
begin

lemma image_user:
  assumes "new_image X free ram K p v0 (T, t, u) v sz img"
  shows "user_space (VE X) free ram v T"
    and "fr (VE X) v T ` Collect (uacc (VE X) (mem v) T) \<subseteq> free v0 \<union> {u}"
proof -
  note I = new_imageD [OF assms] and P = image_pages [OF assms]
  have nz: "r_pagetable (p\<lparr>r_pagetable := root T, r_sz := sz\<rparr>) \<noteq> 0" "r_usyscall (p\<lparr>r_pagetable := root T, r_sz := sz\<rparr>) \<noteq> 0"
    using I(2,6,7) adr_nonzero [of u 0] free_frame by auto
  note U = proc_user_space [OF P(7) nz]
  show "user_space (VE X) free ram v T" by (rule U(1))
  show "fr (VE X) v T ` Collect (uacc (VE X) (mem v) T) \<subseteq> free v0 \<union> {u}" using U(2) I(9) by auto
qed

text \<open>A chunk of a segment is written to one page.\<close>

lemma store_chunk:
  assumes im: "new_image X free ram K p v0 (T, t, u) v sz img" and D: "D mod 4096 = 0" "D + length bs \<le> 4096 * npages sz" "D < 4096 * npages sz"
    and bs: "length bs \<le> 4096" and m: "m = store_list (adr (fr (VE X) v T (D div 4096)) 0) bs (mem v)"
  shows "new_image X free ram K p v0 (T, t, u) (v\<lparr>mem := m\<rparr>) sz (put_bytes D bs img)"
    and "\<And>va. pte (VE X) m T va = pte (VE X) (mem v) T va" and "free (v\<lparr>mem := m\<rparr>) = free v"
proof -
  note P = image_pages [OF im]
  define k where "k = fr (VE X) v T (D div 4096)"
  have "D div 4096 < npages sz" using D(3) by (simp add: div_less_iff_less_mult mult.commute)
  then have fk: "frame k" using uspaceD(4) [OF P(1), of "D div 4096"] free_frame by (auto simp: k_def)
  have ua: "ua (VE X) (mem v) T (D + i) = adr k i" if "i < 4096" for i
  proof -
    obtain q where "D = 4096 * q" using D(1) by (auto simp: mod_eq_0_iff_dvd)
    then have "(D + i) div 4096 = D div 4096" "(D + i) mod 4096 = i" using that by simp_all
    then show ?thesis by (simp add: ua_def k_def)
  qed
  have 1: "m (ua (VE X) (mem v) T (D + i)) = bs ! i" if "i < length bs" for i
    using that bs ua [of i] adr_diff [OF fk, of 0 i] by (simp add: m store_list_def k_def [symmetric])
  have 2: "m x = mem v x" if "x \<notin> (\<lambda>i. ua (VE X) (mem v) T (D + i)) ` {..<length bs}" for x
  proof -
    have "\<not> unat (x - adr k 0) < length bs"
    proof
      assume l: "unat (x - adr k 0) < length bs"
      then have "x = adr k (unat (x - adr k 0))" using in_run(2) [OF fk, of 0 "length bs" x] bs by simp
      then have "x = ua (VE X) (mem v) T (D + unat (x - adr k 0))" using ua [of "unat (x - adr k 0)"] l bs by simp
      with that l show False by blast
    qed
    then show ?thesis by (simp add: m store_list_def k_def [symmetric])
  qed
  from image_write [OF im D(2) 1 2] show "new_image X free ram K p v0 (T, t, u) (v\<lparr>mem := m\<rparr>) sz (put_bytes D bs img)"
    "\<And>va. pte (VE X) m T va = pte (VE X) (mem v) T va" "free (v\<lparr>mem := m\<rparr>) = free v" by simp_all
qed

lemma image_walkaddr:
  assumes im: "new_image X free ram K p v0 (T, t, u) v sz img" and D: "D mod 4096 = 0" "D < 4096 * npages sz"
    and acc: "\<And>w. w < npages sz \<Longrightarrow> uacc (VE X) (mem v) T w"
  shows "walkaddr (VE X) (root T) (of_nat D) v = Ret (adr (fr (VE X) v T (D div 4096)) 0)" and "adr (fr (VE X) v T (D div 4096)) 0 \<noteq> 0"
proof -
  note P = image_pages [OF im]
  have w: "D div 4096 < npages sz" using D(2) by (simp add: div_less_iff_less_mult mult.commute)
  then have fk: "frame (fr (VE X) v T (D div 4096))" using uspaceD(4) [OF P(1), of "D div 4096"] free_frame by auto
  then show "adr (fr (VE X) v T (D div 4096)) 0 \<noteq> 0" by (rule adr_nonzero) simp
  have "D < 2 ^ 64" using D(2) P(4) v_bounds by simp
  moreover have "(of_nat D :: u64) = adr (D div 4096) 0"
  proof -
    obtain q where "D = 4096 * q" using D(1) by (auto simp: mod_eq_0_iff_dvd)
    then show ?thesis by (simp add: adr_def)
  qed
  ultimately show "walkaddr (VE X) (root T) (of_nat D) v = Ret (adr (fr (VE X) v T (D div 4096)) 0)"
    using walkaddr_user [OF image_user(1) [OF im], of D] acc [OF w] by simp
qed

end

lemma unat_up: "unat (ucast (w :: u32) :: u64) = unat w"
proof -
  have "unat w < 2 ^ 32" using unsigned_less [of w] by simp
  then have "unat w < 2 ^ 64" by simp
  then show ?thesis by (simp add: unsigned_ucast_eq take_bit_nat_eq_self)
qed

lemma pages_left: "(x + 4095) div 4096 < Suc fuel \<Longrightarrow> 0 < x \<Longrightarrow> (x - 4096 + 4095) div 4096 < (fuel :: nat)"
proof (cases "4096 \<le> x")
  case True
  then obtain y where "x = y + 4096" by (metis le_add_diff_inverse2)
  moreover assume "(x + 4095) div 4096 < Suc fuel"
  moreover have "(y + 4096 + 4095) div 4096 = Suc ((y + 4095) div 4096)" by simp
  ultimately show ?thesis by simp
next
  case False
  assume "(x + 4095) div 4096 < Suc fuel" "0 < x"
  moreover from this have "0 < (x + 4095) div 4096" by (simp add: div_greater_zero_iff)
  ultimately show ?thesis using False by simp
qed

text \<open>What is left of a segment when \<open>i\<close> of its bytes are loaded.\<close>

definition seg_rest :: "u8 list \<Rightarrow> u32 \<Rightarrow> u32 \<Rightarrow> u32 \<Rightarrow> u8 list" where
  "seg_rest d off i sz = (if i < sz then file_read d (off + i) (sz - i) else [])"

lemma seg_rest_step:
  assumes i: "i < sz" and n: "n = (if sz - i < 4096 then sz - i else 4096)" and sz: "unat sz < 2 ^ 31"
  shows "length (seg_rest d off i sz) = unat sz - unat i \<longleftrightarrow>
       length (file_read d (off + i) n) = unat n \<and> length (seg_rest d off (i + 4096) sz) = unat sz - unat (i + 4096)"
    and "length (seg_rest d off i sz) = unat sz - unat i \<Longrightarrow> seg_rest d off i sz = file_read d (off + i) n @ seg_rest d off (i + 4096) sz"
    and "unat n = min (unat sz - unat i) 4096" and "unat (i + 4096) = unat i + 4096"
proof -
  have lt: "unat i < unat sz" using i by (simp add: word_less_nat_alt)
  then have d: "unat (sz - i) = unat sz - unat i" by (simp add: unat_sub word_le_nat_alt)
  show i4: "unat (i + 4096) = unat i + 4096" using lt sz by (simp add: unat_word_ariths)
  show un: "unat n = min (unat sz - unat i) 4096" using d by (auto simp: n word_less_nat_alt)
  have n0: "0 < unat n" using un lt by simp
  have "(length (seg_rest d off i sz) = unat sz - unat i \<longleftrightarrow>
       length (file_read d (off + i) n) = unat n \<and> length (seg_rest d off (i + 4096) sz) = unat sz - unat (i + 4096)) \<and>
     (length (seg_rest d off i sz) = unat sz - unat i \<longrightarrow> seg_rest d off i sz = file_read d (off + i) n @ seg_rest d off (i + 4096) sz)"
  proof (cases "i + 4096 < sz")
    case False
    then have "n = sz - i" using un d i4 lt by (auto simp: word_unat_eq_iff word_less_nat_alt)
    then show ?thesis using False i d i4 by (simp add: seg_rest_def word_less_nat_alt)
  next
    case True
    then have l: "unat i + 4096 < unat sz" using i4 by (simp add: word_less_nat_alt)
    then have n4: "n = 4096" using un by (simp add: word_unat_eq_iff)
    have d4: "unat (sz - (i + 4096)) = unat sz - unat i - 4096" using l i4 by (simp add: unat_sub word_le_nat_alt)
    have "sz - i = 4096 + (sz - (i + 4096))" by simp
    moreover have "unat (4096 :: u32) + unat (sz - (i + 4096)) = unat sz - unat i" using l d4 by simp
    moreover from this have "unat (4096 :: u32) + unat (sz - (i + 4096)) < 2 ^ 32" using sz by simp
    moreover have "off + i + 4096 = off + (i + 4096)" by simp
    ultimately show ?thesis
      using file_read_split [of 4096 "sz - (i + 4096)" d "off + i"] True i d4 i4 unfolding seg_rest_def n4 by (simp add: add.assoc)
  qed
  then show "length (seg_rest d off i sz) = unat sz - unat i \<longleftrightarrow>
       length (file_read d (off + i) n) = unat n \<and> length (seg_rest d off (i + 4096) sz) = unat sz - unat (i + 4096)"
    and "length (seg_rest d off i sz) = unat sz - unat i \<Longrightarrow> seg_rest d off i sz = file_read d (off + i) n @ seg_rest d off (i + 4096) sz"
    by blast+
qed

context exec_env
begin

lemma loadseg_spec:
  assumes "new_image X free ram K p v0 (T, t, u) (rvm s) sz img" and "\<And>w. w < npages sz \<Longrightarrow> uacc (VE X) (mem (rvm s)) T w"
    and "(unat va + unat i) mod 4096 = 0" and "unat va + unat fsz \<le> 4096 * npages sz" and "unat fsz < 2 ^ 31"
    and "(unat fsz - unat i + 4095) div 4096 < fuel"
  shows "\<exists>r w v img'. loadseg fuel X Y (root T) va ip off i fsz s = Ret (r, s\<lparr>files := w, rvm := v\<rparr>) \<and> disk w ip = disk (files s) ip \<and>
     new_image X free ram K p v0 (T, t, u) v sz img' \<and> (\<forall>a. pte (VE X) (mem v) T a = pte (VE X) (mem (rvm s)) T a) \<and> free v = free (rvm s) \<and>
     (length (seg_rest (disk (files s) ip) off i fsz) = unat fsz - unat i \<and> r = 0 \<and>
        img' = put_bytes (unat va + unat i) (seg_rest (disk (files s) ip) off i fsz) img \<or>
      length (seg_rest (disk (files s) ip) off i fsz) \<noteq> unat fsz - unat i \<and> r = - 1)"
  using assms
proof (induction fuel arbitrary: s i img)
  case 0
  then show ?case by simp
next
  case (Suc fuel)
  let ?d = "disk (files s) ip" and ?E = "VE X"
  show ?case
  proof (cases "i < fsz")
    case False
    then have "unat fsz - unat i = 0" by (simp add: word_less_nat_alt)
    with False Suc.prems(1) show ?thesis
      by (intro exI [of _ 0] exI [of _ "files s"] exI [of _ "rvm s"] exI [of _ img]) (simp add: seg_rest_def)
  next
    case True
    note im = Suc.prems(1) and acc = Suc.prems(2)
    define n where "n = (if fsz - i < 4096 then fsz - i else (4096 :: u32))"
    note st = seg_rest_step(1,2) [OF True n_def Suc.prems(5), of ?d off] seg_rest_step(3,4) [OF True n_def Suc.prems(5)]
    have lt: "unat i < unat fsz" using True by (simp add: word_less_nat_alt)
    define D where "D = unat va + unat i"
    have D: "D mod 4096 = 0" "D < 4096 * npages sz" using Suc.prems(3,4) lt by (simp_all add: D_def)
    have vD: "va + ucast i = of_nat D" by (simp add: D_def)
    have nn: "(if ucast (fsz - i) < PGSIZE ?E then fsz - i else ucast (PGSIZE ?E)) = n"
    proof -
      have "(ucast (fsz - i) :: u64) < 4096 \<longleftrightarrow> fsz - i < 4096" by (simp add: word_less_nat_alt unat_up)
      then show ?thesis by (simp add: n_def PGSIZE_eq)
    qed
    note wa = image_walkaddr [OF im D acc]
    obtain w1 where w1: "readi Y ip (off + i) n (files s) = (file_read ?d (off + i) n, w1)" "disk w1 ip = ?d" using readi_law by blast
    define bs where "bs = file_read ?d (off + i) n"
    have lbs: "length bs \<le> unat n" by (simp add: bs_def file_read_def)
    then have lb: "length bs \<le> 4096" "D + length bs \<le> 4096 * npages sz"
      using st(3) lt Suc.prems(4) by (auto simp: D_def)
    define m where "m = store_list (adr (fr ?E (rvm s) T (D div 4096)) 0) bs (mem (rvm s))"
    note ch = store_chunk [OF im D(1) lb(2) D(2) lb(1) m_def]
    define s1 where "s1 = s\<lparr>files := w1, rvm := (rvm s)\<lparr>mem := m\<rparr>\<rparr>"
    have run: "loadseg (Suc fuel) X Y (root T) va ip off i fsz s =
        (if length bs \<noteq> unat n then Ret (- 1, s1) else loadseg fuel X Y (root T) va ip off (i + 4096) fsz s1)"
      using True wa w1(1) nn by (simp add: vD inode_read_def Let_def s1_def m_def bs_def PGSIZE_eq)
    have acc1: "uacc ?E (mem (rvm s1)) T w" if "w < npages sz" for w using acc [OF that] ch(2) by (simp add: s1_def uacc_def)
    have D1: "(unat va + unat (i + 4096)) mod 4096 = 0" using Suc.prems(3) unfolding st(4) by (simp add: add.assoc [symmetric])
    have f1: "(unat fsz - unat (i + 4096) + 4095) div 4096 < fuel"
      using pages_left [of "unat fsz - unat i" fuel] Suc.prems(6) lt unfolding st(4) by simp
    have im1: "new_image X free ram K p v0 (T, t, u) (rvm s1) sz (put_bytes D bs img)" using ch(1) by (simp add: s1_def)
    show ?thesis
    proof (cases "length bs = unat n")
      case False
      then have "length (seg_rest ?d off i fsz) \<noteq> unat fsz - unat i" using st(1) by (simp add: bs_def)
      with False run ch w1(2) show ?thesis
        by (intro exI [of _ "- 1"] exI [of _ w1] exI [of _ "(rvm s)\<lparr>mem := m\<rparr>"] exI [of _ "put_bytes D bs img"]) (simp add: s1_def)
    next
      case good: True
      from Suc.IH [OF im1 acc1 D1 Suc.prems(4,5) f1] obtain r w v img' where
        r: "loadseg fuel X Y (root T) va ip off (i + 4096) fsz s1 = Ret (r, s1\<lparr>files := w, rvm := v\<rparr>)" "disk w ip = disk (files s1) ip"
          "new_image X free ram K p v0 (T, t, u) v sz img'" "\<forall>a. pte ?E (mem v) T a = pte ?E (mem (rvm s1)) T a" "free v = free (rvm s1)"
        and e: "length (seg_rest (disk (files s1) ip) off (i + 4096) fsz) = unat fsz - unat (i + 4096) \<and> r = 0 \<and>
            img' = put_bytes (unat va + unat (i + 4096)) (seg_rest (disk (files s1) ip) off (i + 4096) fsz) (put_bytes D bs img) \<or>
          length (seg_rest (disk (files s1) ip) off (i + 4096) fsz) \<noteq> unat fsz - unat (i + 4096) \<and> r = - 1" by blast
      have d1: "disk (files s1) ip = ?d" using w1(2) by (simp add: s1_def)
      have "length (seg_rest ?d off i fsz) = unat fsz - unat i \<and> r = 0 \<and> img' = put_bytes D (seg_rest ?d off i fsz) img \<or>
          length (seg_rest ?d off i fsz) \<noteq> unat fsz - unat i \<and> r = - 1"
      proof (cases "length (seg_rest ?d off (i + 4096) fsz) = unat fsz - unat (i + 4096)")
        case True
        with good st(1) have l: "length (seg_rest ?d off i fsz) = unat fsz - unat i" by (simp add: bs_def)
        have "img' = put_bytes (D + 4096) (seg_rest ?d off (i + 4096) fsz) (put_bytes D bs img)"
          using e True by (simp add: d1 st(4) D_def add.assoc)
        also have "\<dots> = put_bytes D (bs @ seg_rest ?d off (i + 4096) fsz) img"
        proof (cases "seg_rest ?d off (i + 4096) fsz = []")
          case False
          then have "unat i + 4096 < unat fsz" using st(4) by (auto simp: seg_rest_def word_less_nat_alt split: if_splits)
          then have "length bs = 4096" using good st(3) by simp
          then show ?thesis using put_bytes_append [of D bs "seg_rest ?d off (i + 4096) fsz" img] by simp
        qed simp
        finally show ?thesis using st(2) [OF l] l e True by (simp add: d1 bs_def)
      next
        case False
        then show ?thesis using e st(1) by (simp add: d1)
      qed
      with r run good ch d1 show ?thesis
        by (intro exI [of _ r] exI [of _ w] exI [of _ v] exI [of _ img']) (auto simp: s1_def D_def)
    qed
  qed
qed

end

section \<open>The program headers\<close>

text \<open>
  The image that a file describes: the reference for the loop over the program headers. It is defined if the loop
  would come to its end with any amount of memory.
\<close>

fun load_image :: "'f exec_ext \<Rightarrow> u8 list \<Rightarrow> nat \<Rightarrow> u32 \<Rightarrow> u64 \<times> uimage \<Rightarrow> (u64 \<times> uimage) option" where
  "load_image Y d 0 off (sz, img) = Some (sz, img)"
| "load_image Y d (Suc k) off (sz, img) =
     (let bs = file_read d off (sizeof_proghdr Y); ph = ph_of Y bs;
          new = max sz (ph_vaddr ph + ph_memsz ph);
          seg = file_read d (ucast (ph_off ph)) (ucast (ph_filesz ph))
      in if length bs \<noteq> unat (sizeof_proghdr Y) then None
         else if ph_type ph \<noteq> ELF_PROG_LOAD Y then load_image Y d k (off + sizeof_proghdr Y) (sz, img)
         else if ph_memsz ph < ph_filesz ph \<or> ph_vaddr ph + ph_memsz ph < ph_vaddr ph \<or> ph_vaddr ph mod 4096 \<noteq> 0 then None
         else if new = 0 \<or> length seg \<noteq> unat (ucast (ph_filesz ph) :: u32) then None
         else load_image Y d k (off + sizeof_proghdr Y) (new, put_bytes (unat (ph_vaddr ph)) seg (grow_image sz img)))"

lemma load_image_mono: "load_image Y d k off (sz, img) = Some (sz', img') \<Longrightarrow> sz \<le> sz'"
proof (induction k arbitrary: off sz img)
  case (Suc k)
  then show ?case by (fastforce simp: Let_def split: if_splits)
qed simp

lemma flags2perm_cases: "flags2perm E f \<in> {0, perm_int (PTE_X E), perm_int (PTE_W E), perm_int (PTE_X E) OR perm_int (PTE_W E)}"
  by (auto simp: flags2perm_def Let_def)

lemma small_ucast:
  assumes "unat (w :: u64) < 2 ^ 31"
  shows "unat (ucast w :: u32) = unat w"
  using assms by (simp add: unsigned_ucast_eq take_bit_nat_eq_self)

context exec_env
begin

lemma flags2perm_perm: "flags2perm (VE X) f \<in> {0, 4, 8, 12}"
  using flags2perm_cases [of "VE X" f] by (auto simp: PTE_W_eq PTE_X_eq)

text \<open>The segment fits the pages that were added for it, so its size is not cut off.\<close>

lemma segment_fits:
  assumes "\<not> ph_memsz ph < ph_filesz ph" and "\<not> ph_vaddr ph + ph_memsz ph < ph_vaddr ph" and "npages (max sz (ph_vaddr ph + ph_memsz ph)) < 2 ^ 19"
    and "m = max sz (ph_vaddr ph + ph_memsz ph)"
  shows "unat (ph_vaddr ph) + unat (ph_filesz ph) \<le> 4096 * npages m" and "unat (ph_filesz ph) < 2 ^ 31"
proof -
  have "unat (ph_vaddr ph + ph_memsz ph) = unat (ph_vaddr ph) + unat (ph_memsz ph)"
    using assms(2) unat_plus_simple [of "ph_vaddr ph" "ph_memsz ph"] by (simp add: not_less)
  moreover have "unat (ph_filesz ph) \<le> unat (ph_memsz ph)" using assms(1) by (simp add: word_le_nat_alt not_less)
  moreover have "unat (ph_vaddr ph + ph_memsz ph) \<le> unat m" using assms(4) by (simp add: max_def word_le_nat_alt)
  moreover note npages_bound(1) [of m]
  ultimately show 1: "unat (ph_vaddr ph) + unat (ph_filesz ph) \<le> 4096 * npages m" by linarith
  then show "unat (ph_filesz ph) < 2 ^ 31" using assms(3,4) by simp
qed

lemma exec_load_spec:
  assumes "new_image X free ram K p v0 (T, t, u) (rvm s) sz img" and "\<And>w. w < npages sz \<Longrightarrow> uacc (VE X) (mem (rvm s)) T w"
    and card: "card (free v0) < 2 ^ 19" and fuel: "2 * card (free v0) + 4 \<le> fuel"
  shows "\<exists>good sz' w v T' img'. exec_load fuel X Y ip (root T) k off sz s = Ret (good, sz', s\<lparr>files := w, rvm := v\<rparr>) \<and>
     root T' = root T \<and> new_image X free ram K p v0 (T', t, u) v sz' img' \<and>
     (good \<and> load_image Y (disk (files s) ip) k off (sz, img) = Some (sz', img') \<and> (\<forall>w < npages sz'. uacc (VE X) (mem v) T' w) \<and>
        card (free (rvm s)) \<le> card (free v) + 3 * (npages sz' - npages sz) \<or>
      \<not> good \<and> (\<forall>sz1 img1. load_image Y (disk (files s) ip) k off (sz, img) = Some (sz1, img1) \<longrightarrow>
         card (free (rvm s)) < 3 * (npages sz1 - npages sz)))"
  using assms(1,2)
proof (induction k arbitrary: off sz s T img)
  case 0
  then show ?case
    by (intro exI [of _ True] exI [of _ sz] exI [of _ "files s"] exI [of _ "rvm s"] exI [of _ T] exI [of _ img]) simp
next
  case (Suc k)
  note im = Suc.prems(1) and acc = Suc.prems(2)
  let ?E = "VE X" and ?d = "disk (files s) ip"
  obtain w1 where w1: "readi Y ip off (sizeof_proghdr Y) (files s) = (file_read ?d off (sizeof_proghdr Y), w1)" "disk w1 ip = ?d"
    using readi_law by blast
  define bs where "bs = file_read ?d off (sizeof_proghdr Y)"
  define ph where "ph = ph_of Y bs"
  define s1 where "s1 = s\<lparr>files := w1\<rparr>"
  define m where "m = max sz (ph_vaddr ph + ph_memsz ph)"
  define seg where "seg = file_read ?d (ucast (ph_off ph)) (ucast (ph_filesz ph))"
  have rd: "inode_read Y ip off (sizeof_proghdr Y) s = (bs, s1)" using w1(1) by (simp add: inode_read_def bs_def s1_def)
  have fail: ?case if "exec_load fuel X Y ip (root T) (Suc k) off sz s = Ret (False, z, s\<lparr>files := w, rvm := v\<rparr>)"
    "root T' = root T" "new_image X free ram K p v0 (T', t, u) v z img'"
    "\<And>sz1 img1. load_image Y ?d (Suc k) off (sz, img) = Some (sz1, img1) \<Longrightarrow> card (free (rvm s)) < 3 * (npages sz1 - npages sz)"
    for z w v T' img'
    using that by (intro exI [of _ False] exI [of _ z] exI [of _ w] exI [of _ v] exI [of _ T'] exI [of _ img']) simp
  consider (bad) "length bs \<noteq> unat (sizeof_proghdr Y) \<or> ph_type ph = ELF_PROG_LOAD Y \<and>
      (ph_memsz ph < ph_filesz ph \<or> ph_vaddr ph + ph_memsz ph < ph_vaddr ph \<or> ph_vaddr ph mod 4096 \<noteq> 0)"
    | (skip) "length bs = unat (sizeof_proghdr Y)" "ph_type ph \<noteq> ELF_PROG_LOAD Y"
    | (load) "length bs = unat (sizeof_proghdr Y)" "ph_type ph = ELF_PROG_LOAD Y" "\<not> ph_memsz ph < ph_filesz ph"
        "\<not> ph_vaddr ph + ph_memsz ph < ph_vaddr ph" "ph_vaddr ph mod 4096 = 0" by argo
  then show ?case
  proof cases
    case bad
    then have "exec_load fuel X Y ip (root T) (Suc k) off sz s = Ret (False, sz, s\<lparr>files := w1, rvm := rvm s\<rparr>)"
      using rd by (elim disjE conjE) (simp_all add: Let_def ph_def s1_def PGSIZE_eq)
    moreover have "load_image Y ?d (Suc k) off (sz, img) = None" using bad by (auto simp: Let_def bs_def ph_def)
    ultimately show ?thesis using im by (intro fail [of sz "rvm s" w1 T img]) simp_all
  next
    case skip
    then have "exec_load fuel X Y ip (root T) (Suc k) off sz s = exec_load fuel X Y ip (root T) k (off + sizeof_proghdr Y) sz s1"
      "load_image Y ?d (Suc k) off (sz, img) = load_image Y ?d k (off + sizeof_proghdr Y) (sz, img)"
      using rd by (simp_all add: Let_def ph_def bs_def)
    with Suc.IH [of T s1 sz img "off + sizeof_proghdr Y"] im acc w1(2) show ?thesis by (simp add: s1_def)
  next
    case load
    have c1: "card (free v0) + 1 < v_usys" using card by (simp add: v_usys_def)
    from image_alloc [OF im c1 fuel flags2perm_perm m_def, of "ph_flags ph"] obtain r v1 T1 where
      r: "uvmalloc fuel ?E (root T) sz (ph_vaddr ph + ph_memsz ph) (flags2perm ?E (ph_flags ph)) (rvm s) = Ret (r, v1)" "root T1 = root T"
      and rd': "r \<noteq> 0 \<and> r = m \<and> new_image X free ram K p v0 (T1, t, u) v1 m (grow_image sz img) \<and>
          card (free (rvm s)) \<le> card (free v1) + 3 * (npages m - npages sz) \<and>
          (\<forall>w < npages m. (w < npages sz \<longrightarrow> uacc ?E (mem (rvm s)) T w) \<longrightarrow> uacc ?E (mem v1) T1 w) \<or>
        r = 0 \<and> new_image X free ram K p v0 (T1, t, u) v1 sz img \<and> (m = 0 \<or> card (free (rvm s)) < 3 * (npages m - npages sz))" by blast
    define s2 where "s2 = s\<lparr>files := w1, rvm := v1\<rparr>"
    have call: "call_vm (uvmalloc fuel ?E (root T) sz (ph_vaddr ph + ph_memsz ph) (flags2perm ?E (ph_flags ph))) s1 = Ret (r, s2)"
      using r(1) by (simp add: call_vm_def s1_def s2_def)
    have ref: "load_image Y ?d (Suc k) off (sz, img) = (if m = 0 \<or> length seg \<noteq> unat (ucast (ph_filesz ph) :: u32) then None
        else load_image Y ?d k (off + sizeof_proghdr Y) (m, put_bytes (unat (ph_vaddr ph)) seg (grow_image sz img)))"
      using load by (simp add: Let_def bs_def [symmetric] ph_def [symmetric] m_def seg_def)
    show ?thesis
    proof (cases "r = 0")
      case True
      have "exec_load fuel X Y ip (root T) (Suc k) off sz s = Ret (False, sz, s\<lparr>files := w1, rvm := v1\<rparr>)"
        using load rd call True by (simp add: Let_def ph_def [symmetric] PGSIZE_eq s2_def)
      moreover have "card (free (rvm s)) < 3 * (npages sz1 - npages sz)" if "load_image Y ?d (Suc k) off (sz, img) = Some (sz1, img1)" for sz1 img1
      proof -
        have "m \<noteq> 0" "m \<le> sz1" using that load_image_mono unfolding ref by (auto split: if_splits)
        then show ?thesis using rd' True npages_mono [of m sz1] by auto
      qed
      ultimately show ?thesis using rd' True r(2) by (intro fail [of sz v1 w1 T1 img]) auto
    next
      case False
      with rd' have im1: "new_image X free ram K p v0 (T1, t, u) (rvm s2) m (grow_image sz img)" and rm: "r = m" "m \<noteq> 0"
        and cm: "card (free (rvm s)) \<le> card (free v1) + 3 * (npages m - npages sz)"
        and acc1: "\<And>w. w < npages m \<Longrightarrow> uacc ?E (mem (rvm s2)) T1 w" using acc by (auto simp: s2_def)
      have np: "npages m < 2 ^ 19" using image_pages(3) [OF im1] card by simp
      note fit = segment_fits [OF load(3,4) np [unfolded m_def] m_def]
      have fs: "unat (ucast (ph_filesz ph) :: u32) = unat (ph_filesz ph)" by (rule small_ucast [OF fit(2)])
      have va: "(unat (ph_vaddr ph) + unat (0 :: u32)) mod 4096 = 0"
      proof -
        have "unat (ph_vaddr ph mod 4096) = 0" using load(5) by simp
        then show ?thesis by (simp add: unat_mod)
      qed
      have fl: "(unat (ucast (ph_filesz ph) :: u32) - unat (0 :: u32) + 4095) div 4096 < fuel"
      proof -
        have "unat (ph_filesz ph) \<le> 4096 * npages m" using fit(1) by simp
        then have "(unat (ph_filesz ph) + 4095) div 4096 \<le> npages m" by linarith
        then show ?thesis using fuel image_pages(3) [OF im1] fs by simp
      qed
      have fit': "unat (ph_vaddr ph) + unat (ucast (ph_filesz ph) :: u32) \<le> 4096 * npages m" "unat (ucast (ph_filesz ph) :: u32) < 2 ^ 31"
        using fit fs by simp_all
      have rest: "seg_rest ?d (ucast (ph_off ph)) 0 (ucast (ph_filesz ph)) = seg"
        by (auto simp: seg_rest_def seg_def file_read_def word_gt_0)
      from loadseg_spec [OF im1 acc1 va fit'(1) fit'(2) fl, of ip "ucast (ph_off ph)"] w1(2) obtain q w2 v2 img2 where
        q: "loadseg fuel X Y (root T1) (ph_vaddr ph) ip (ucast (ph_off ph)) 0 (ucast (ph_filesz ph)) s2 = Ret (q, s2\<lparr>files := w2, rvm := v2\<rparr>)"
          "disk w2 ip = ?d" "new_image X free ram K p v0 (T1, t, u) v2 m img2" "\<forall>a. pte ?E (mem v2) T1 a = pte ?E (mem (rvm s2)) T1 a"
          "free v2 = free (rvm s2)"
          "length seg = unat (ucast (ph_filesz ph) :: u32) \<and> q = 0 \<and> img2 = put_bytes (unat (ph_vaddr ph)) seg (grow_image sz img) \<or>
           length seg \<noteq> unat (ucast (ph_filesz ph) :: u32) \<and> q = - 1"
        by (auto simp: s2_def rest)
      define s3 where "s3 = s\<lparr>files := w2, rvm := v2\<rparr>"
      have s3: "s2\<lparr>files := w2, rvm := v2\<rparr> = s3" by (simp add: s2_def s3_def)
      have run: "exec_load fuel X Y ip (root T) (Suc k) off sz s =
          (if slt q 0 then Ret (False, m, s3) else exec_load fuel X Y ip (root T1) k (off + sizeof_proghdr Y) m s3)"
        using load rd call rm q(1) r(2) by (simp add: Let_def ph_def [symmetric] PGSIZE_eq s3)
      show ?thesis
      proof (cases "length seg = unat (ucast (ph_filesz ph) :: u32)")
        case short: False
        then have "exec_load fuel X Y ip (root T) (Suc k) off sz s = Ret (False, m, s\<lparr>files := w2, rvm := v2\<rparr>)"
          using q(6) run by (simp add: s3_def)
        moreover have "load_image Y ?d (Suc k) off (sz, img) = None" unfolding ref using short by simp
        ultimately show ?thesis using q(3) r(2) by (intro fail [of m v2 w2 T1 img2]) simp_all
      next
        case True
        then have q0: "q = 0" "img2 = put_bytes (unat (ph_vaddr ph)) seg (grow_image sz img)" using q(6) by auto
        have run: "exec_load fuel X Y ip (root T) (Suc k) off sz s = exec_load fuel X Y ip (root T1) k (off + sizeof_proghdr Y) m s3"
          using run q0(1) by simp
        have ref: "load_image Y ?d (Suc k) off (sz, img) = load_image Y ?d k (off + sizeof_proghdr Y) (m, img2)"
          unfolding ref using True rm(2) q0(2) by simp
        have im3: "new_image X free ram K p v0 (T1, t, u) (rvm s3) m img2" using q(3) by (simp add: s3_def)
        have acc3: "uacc ?E (mem (rvm s3)) T1 w" if "w < npages m" for w using acc1 [OF that] q(4) by (simp add: s3_def uacc_def)
        from Suc.IH [OF im3 acc3, of "off + sizeof_proghdr Y"] obtain good sz' w v T' img' where
          g: "exec_load fuel X Y ip (root T1) k (off + sizeof_proghdr Y) m s3 = Ret (good, sz', s3\<lparr>files := w, rvm := v\<rparr>)"
            "root T' = root T1" "new_image X free ram K p v0 (T', t, u) v sz' img'"
          and gd: "good \<and> load_image Y (disk (files s3) ip) k (off + sizeof_proghdr Y) (m, img2) = Some (sz', img') \<and>
              (\<forall>w < npages sz'. uacc ?E (mem v) T' w) \<and> card (free (rvm s3)) \<le> card (free v) + 3 * (npages sz' - npages m) \<or>
            \<not> good \<and> (\<forall>sz1 img1. load_image Y (disk (files s3) ip) k (off + sizeof_proghdr Y) (m, img2) = Some (sz1, img1) \<longrightarrow>
               card (free (rvm s3)) < 3 * (npages sz1 - npages m))" by blast
        have d3: "disk (files s3) ip = ?d" "free (rvm s3) = free v1" using q(2,5) by (simp_all add: s3_def s2_def)
        have le: "npages sz \<le> npages m" using npages_mono [of sz m] by (simp add: m_def)
        have le': "npages m \<le> npages z" if "load_image Y ?d k (off + sizeof_proghdr Y) (m, img2) = Some (z, i)" for z i
          using npages_mono [OF load_image_mono [OF that]] .
        have "good \<and> load_image Y ?d (Suc k) off (sz, img) = Some (sz', img') \<and> (\<forall>w < npages sz'. uacc ?E (mem v) T' w) \<and>
            card (free (rvm s)) \<le> card (free v) + 3 * (npages sz' - npages sz) \<or>
          \<not> good \<and> (\<forall>sz1 img1. load_image Y ?d (Suc k) off (sz, img) = Some (sz1, img1) \<longrightarrow> card (free (rvm s)) < 3 * (npages sz1 - npages sz))"
          using gd le le' cm unfolding ref d3 by fastforce
        then show ?thesis using g run r(2)
          by (intro exI [of _ good] exI [of _ sz'] exI [of _ w] exI [of _ v] exI [of _ T'] exI [of _ img']) (simp add: s3_def)
      qed
    qed
  qed
qed

end

end
