(* ===== verification/Rv_Stack.thy ===== *)
theory Rv_Stack
  imports Rv_Load
begin

text \<open>
  The user stack that \<open>exec\<close> makes: two pages above the program, the lower one without access for the user, and in the upper
  one the argument strings and the vector of pointers to them.
\<close>

section \<open>The guard page\<close>

context exec_env
begin

lemma no_user_entry:
  assumes "leaf_entry (VE X) e" and "e AND 2 \<noteq> 0"
  shows "leaf_entry (VE X) (e AND NOT 16)" and "frame_of (VE X) (e AND NOT 16) = frame_of (VE X) e" and "(e AND NOT 16) AND 16 = 0"
proof -
  obtain k f where e: "e = mkpte (VE X) k f" "frame k" "take_bit 10 f = f" using assms(1) by (auto simp: leaf_entry_def)
  note b = bit_mkpte [OF e(2)]
  have "bit e 1" using and_exp_eq_0_iff_not_bit [of e 1] assms(2) by simp
  then have f1: "bit f 1" using b [of f 1] by (simp add: e(1))
  have n16: "bit (- 17 :: u64) n \<longleftrightarrow> n < 64 \<and> n \<noteq> 4" for n
  proof -
    have "(- 17 :: u64) = NOT (2 ^ 4)" by simp
    then have "bit (- 17 :: u64) n \<longleftrightarrow> bit (NOT (2 ^ 4) :: u64) n" by (simp only:)
    also have "\<dots> \<longleftrightarrow> n < 64 \<and> n \<noteq> 4" by (simp only: bit_not_iff bit_exp_iff) auto
    finally show ?thesis .
  qed
  have m: "e AND NOT 16 = mkpte (VE X) k (f AND NOT 16)"
  proof (rule bit_eqI)
    fix n assume "possible_bit TYPE(u64) n"
    then show "bit (e AND NOT 16) n = bit (mkpte (VE X) k (f AND NOT 16)) n"
      using n16 [of n] by (auto simp: b e(1) bit_and_iff)
  qed
  have t: "take_bit 10 (f AND NOT 16) = f AND NOT 16" using e(3) by (metis and.assoc and.commute take_bit_eq_mask)
  define g where "g = f AND NOT 16"
  have "bit ((f AND NOT 16) OR 1) 1" using f1 by (simp add: bit_or_iff bit_and_iff n16)
  then have nz: "g OR 1 \<noteq> 1" unfolding g_def [symmetric] by (auto simp: bit_1_iff)
  note m = m [folded g_def] and t = t [folded g_def]
  show "leaf_entry (VE X) (e AND NOT 16)" unfolding m leaf_entry_def using t e(2) nz by blast
  show "frame_of (VE X) (e AND NOT 16) = frame_of (VE X) e" unfolding m using t e by simp
  show "(e AND NOT 16) AND 16 = 0" by (simp add: and.assoc)
qed

lemma image_clear:
  assumes im: "new_image X free ram K p v0 (T, t, u) v sz img" and w: "w < npages sz" and rd: "pte (VE X) (mem v) T (adr w 0) AND 2 \<noteq> 0"
  shows "\<exists>v'. uvmclear (VE X) (root T) (adr w 0) v = Ret v' \<and> new_image X free ram K p v0 (T, t, u) v' sz img \<and> free v' = free v \<and>
     (\<forall>x. pg x \<notin> free v0 \<longrightarrow> mem v' x = mem v x) \<and>
     (\<forall>a < MAXVA (VE X). pg a \<noteq> w \<longrightarrow> pte (VE X) (mem v') T a = pte (VE X) (mem v) T a) \<and> \<not> uacc (VE X) (mem v') T w"
proof -
  note I = new_imageD [OF im] and P = image_pages [OF im]
  note S = proc_spaceD [OF I(8)] and U = uspaceD [OF P(1)]
  let ?E = "VE X"
  have wV: "w \<in> {..<npages sz}" using w by simp
  note w26 = U(2) [OF wV] and le = U(3) [OF wV]
  from entry_leaf [OF U(1) w26 le] obtain k where k: "leaf ?E T (adr w 0) = Some k"
    "walk ?E (root T) (adr w 0) False v = Ret (entry k (px ?E 0 (adr w 0)), v)" "entry k (px ?E 0 (adr w 0)) \<noteq> 0"
    "read64 (mem v) (entry k (px ?E 0 (adr w 0))) = pte ?E (mem v) T (adr w 0)" by blast
  let ?e = "pte ?E (mem v) T (adr w 0) AND NOT 16"
  define v' where "v' = on_mem (write64 (entry k (px ?E 0 (adr w 0))) ?e) v"
  note va = vpage_less [OF w26]
  note sl = set_leaf [OF U(1) k(1) va, where v = ?e, folded v'_def]
  have run: "uvmclear ?E (root T) (adr w 0) v = Ret v'" using k by (simp add: uvmclear_def v'_def PTE_U_eq)
  have pte: "pte ?E (mem v') T a = (if pg a = w then ?e else pte ?E (mem v) T a)" if "a < MAXVA ?E" for a
    using sl(2) [OF that] pg_vpage [OF w26] by simp
  note e = no_user_entry [OF le rd]
  have ptw: "pte ?E (mem v') T (adr x 0) = (if x = w then ?e else pte ?E (mem v) T (adr x 0))" if "x < 2 ^ 26" for x
    using pte [OF vpage_less [OF that]] pg_vpage [OF that] by simp
  have fr: "fr ?E v' T x = fr ?E v T x" if "x < 2 ^ 26" for x using ptw [OF that] e(2) by simp
  have ow: "owns ?E free v' T" using owns_extends [OF sl(1)] .
  have np26: "x < 2 ^ 26" if "x < npages sz" for x using U(2) that by simp
  have img: "fr ?E v' T ` {..<npages sz} = fr ?E v T ` {..<npages sz}" using fr np26 by (intro image_cong) auto
  have us: "uspace ?E free ram v' T {..<npages sz}"
    using P(1) ow ptw fr np26 e(1) sl(3) unfolding uspace_def inj_on_def img by auto
  have low: "npages sz \<le> v_usys" by (rule P(4))
  have top: "pte ?E (mem v') T (adr x 0) = pte ?E (mem v) T (adr x 0)" if "x \<in> {v_tramp, v_trapf, v_usys}" for x
    using that ptw [of x] w low v_bounds by (auto simp: v_defs)
  have "proc_space X free ram v' T sz t u"
    unfolding proc_space_def
  proof (intro conjI allI impI)
    fix a assume a: "a < USYSCALL X" "npages sz \<le> pg a"
    then have "a < MAXVA ?E" using usys_max by order
    then show "pte ?E (mem v') T a = 0" using pte [of a] a w S(8) [of a] by auto
  qed (use us S(3-7) top in \<open>simp_all add: top_pages_def\<close>)
  moreover have keep: "mem v' x = mem v x" if "pg x \<notin> ran T \<union> free v" for x using that sl(1) by (simp add: extends_def)
  have ua: "ua ?E (mem v') T n = ua ?E (mem v) T n" if "n < 4096 * npages sz" for n
    using fr [of "n div 4096"] np26 [of "n div 4096"] that by (simp add: ua_def div_less_iff_less_mult mult.commute)
  have "mem v' (ua ?E (mem v') T n) = img n" if n: "n < 4096 * npages sz" for n
  proof -
    have "n div 4096 < npages sz" using n by (simp add: div_less_iff_less_mult mult.commute)
    then have "pg (ua ?E (mem v) T n) \<notin> ran T \<union> free v" using P(5) [OF n] U(4) [of "n div 4096"] by simp
    then show ?thesis using keep I(11) [OF n] ua [OF n] by simp
  qed
  moreover have out: "mem v' x = mem v x" if "pg x \<notin> free v0" for x using that I(9) by (intro keep) auto
  ultimately have "new_image X free ram K p v0 (T, t, u) v' sz img"
    using I(1-7,9,10) img sl(3) by (simp add: new_image_def)
  moreover have "\<not> uacc ?E (mem v') T w" using ptw [OF w26] e(3) by (simp add: uacc_def)
  ultimately show ?thesis using run sl(3) out pte by (intro exI [of _ v']) auto
qed

end

section \<open>The arguments\<close>

text \<open>A block of \<open>n\<close> bytes below \<open>sp\<close>, aligned to 16; the strings from the top down, then the vector.\<close>

definition arg_place :: "nat \<Rightarrow> nat \<Rightarrow> nat" where
  "arg_place sp n = (sp - n) div 16 * 16"

fun arg_addrs :: "nat \<Rightarrow> u8 list list \<Rightarrow> nat list" where
  "arg_addrs sp [] = []"
| "arg_addrs sp (b # bs) = (let a = arg_place sp (length b + 1) in a # arg_addrs a bs)"

fun put_args :: "nat list \<Rightarrow> u8 list list \<Rightarrow> uimage \<Rightarrow> uimage" where
  "put_args (a # as) (b # bs) img = put_args as bs (put_bytes a (b @ [0]) img)"
| "put_args _ _ img = img"

definition argv_addr :: "nat \<Rightarrow> u8 list list \<Rightarrow> nat" where
  "argv_addr hi bs = arg_place (last (hi # arg_addrs hi bs)) (8 * (length bs + 1))"

definition word_bytes :: "u64 list \<Rightarrow> u8 list" where
  "word_bytes ws = map (\<lambda>j. ucast (drop_bit (8 * (j mod 8)) (ws ! (j div 8)))) [0..<8 * length ws]"

definition stack_image :: "nat \<Rightarrow> u8 list list \<Rightarrow> uimage \<Rightarrow> uimage" where
  "stack_image hi bs img = put_bytes (argv_addr hi bs) (word_bytes (map of_nat (arg_addrs hi bs) @ [0])) (put_args (arg_addrs hi bs) bs img)"

text \<open>Strings and vector fit in the page below \<open>hi\<close>.\<close>

definition args_fit :: "nat \<Rightarrow> u8 list list \<Rightarrow> bool" where
  "args_fit hi bs \<longleftrightarrow> (\<forall>a \<in> set (arg_addrs hi bs). hi - 4096 \<le> a) \<and> hi - 4096 \<le> argv_addr hi bs"

text \<open>The strings in kernel memory, apart from the pages \<open>B\<close>.\<close>

definition arg_strings :: "bytes \<Rightarrow> nat set \<Rightarrow> addr64 list \<Rightarrow> u8 list list \<Rightarrow> bool" where
  "arg_strings m B as bss \<longleftrightarrow>
     list_all2 (\<lambda>a bs. a \<noteq> 0 \<and> c_string m a bs \<and> length bs < 4096 \<and> (\<forall>i \<le> length bs. pg (a + of_nat i) \<notin> B)) as bss"

lemma arg_strings_cong:
  assumes "arg_strings m B as bss" and "\<And>x. pg x \<notin> B \<Longrightarrow> m' x = m x"
  shows "arg_strings m' B as bss"
  using assms(1) unfolding arg_strings_def by (rule list_all2_mono) (auto simp: c_string_def assms(2))

lemma length_arg_addrs [simp]: "length (arg_addrs sp bs) = length bs"
  by (induction bs arbitrary: sp) (simp_all add: Let_def)

text \<open>The array \<open>ustack\<close> of the kernel stack.\<close>

definition ustack_pages :: "'f exec_ext \<Rightarrow> nat set" where
  "ustack_pages Y = (\<lambda>j. pg (ustack_addr Y + of_nat j)) ` {..<8 * MAXARG Y}"

definition ustack_at :: "'f exec_ext \<Rightarrow> nat \<Rightarrow> addr64" where
  "ustack_at Y i = ustack_addr Y + 8 * of_nat i"

definition ustack_holds :: "'f exec_ext \<Rightarrow> bytes \<Rightarrow> u64 list \<Rightarrow> bool" where
  "ustack_holds Y m ws \<longleftrightarrow> (\<forall>i < length ws. read64 m (ustack_at Y i) = ws ! i)"

lemma ustack_byte: "ustack_at Y i + of_nat b = ustack_addr Y + of_nat (8 * i + b)"
  by (simp add: ustack_at_def)

lemma read64_byte:
  assumes "b < 8"
  shows "m (a + of_nat b) = ucast (drop_bit (8 * b) (read64 m a))"
proof (rule bit_eqI)
  fix n assume "possible_bit TYPE(u8) n"
  then have n: "n < 8" by simp
  have "(8 * b + n) div 8 = b" "(8 * b + n) mod 8 = n" "8 * b + n < 64" using n assms by simp_all
  with n show "bit (m (a + of_nat b)) n = bit (ucast (drop_bit (8 * b) (read64 m a)) :: u8) n"
    by (simp add: bit_simps bit_read64)
qed

lemma ustack_apart:
  assumes "i < 64" "j < 64" "i \<noteq> j"
  shows "read64 (write64 (ustack_at Y i) w m) (ustack_at Y j) = read64 m (ustack_at Y j)"
proof (rule read64_cong)
  fix b :: nat assume b: "b < 8"
  have "\<not> unat (ustack_at Y j + of_nat b - ustack_at Y i) < 8"
  proof
    define c where "c = unat (ustack_at Y j + of_nat b - ustack_at Y i)"
    assume "unat (ustack_at Y j + of_nat b - ustack_at Y i) < 8"
    then have c: "c < 8" by (simp add: c_def)
    have "ustack_at Y i + of_nat c = ustack_at Y j + of_nat b" by (simp add: c_def)
    then have "(of_nat (8 * i + c) :: u64) = of_nat (8 * j + b)" unfolding ustack_byte by (metis add_left_cancel)
    then have "unat (of_nat (8 * i + c) :: u64) = unat (of_nat (8 * j + b) :: u64)" by simp
    then have "8 * i + c = 8 * j + b" using assms(1,2) b c by (simp only: unat_of_nat) simp
    with assms(3) b c show False by presburger
  qed
  then show "write64 (ustack_at Y i) w m (ustack_at Y j + of_nat b) = m (ustack_at Y j + of_nat b)" by (simp add: write64_def)
qed

lemma ustack_push:
  assumes "ustack_holds Y m ws" and "length ws < 64"
  shows "ustack_holds Y (write64 (ustack_at Y (length ws)) w m) (ws @ [w])"
  using assms by (auto simp: ustack_holds_def nth_append less_Suc_eq read64_write64 ustack_apart)

lemma ustack_write_outside:
  assumes "i < MAXARG Y" and "pg x \<notin> ustack_pages Y"
  shows "write64 (ustack_at Y i) w m x = m x"
proof -
  have "\<not> unat (x - ustack_at Y i) < 8"
  proof
    define c where "c = unat (x - ustack_at Y i)"
    assume "unat (x - ustack_at Y i) < 8"
    then have c: "c < 8" by (simp add: c_def)
    have "x = ustack_at Y i + of_nat c" by (simp add: c_def)
    then have "x = ustack_addr Y + of_nat (8 * i + c)" by (simp only: ustack_byte)
    then have "pg x = pg (ustack_addr Y + of_nat (8 * i + c))" by (simp only:)
    moreover have "8 * i + c \<in> {..<8 * MAXARG Y}" using assms(1) c by simp
    ultimately have "pg x \<in> ustack_pages Y" unfolding ustack_pages_def by (rule image_eqI)
    with assms(2) show False by simp
  qed
  then show ?thesis by (simp add: write64_def)
qed

lemma ustack_bytes:
  assumes "ustack_holds Y m ws" and "j < 8 * length ws"
  shows "m (ustack_addr Y + of_nat j) = word_bytes ws ! j"
proof -
  have i: "j div 8 < length ws" using assms(2) by (simp add: div_less_iff_less_mult mult.commute)
  have "8 * (j div 8) + j mod 8 = j" by simp
  then have "ustack_addr Y + of_nat j = ustack_at Y (j div 8) + of_nat (j mod 8)" by (simp only: ustack_byte)
  then have "m (ustack_addr Y + of_nat j) = m (ustack_at Y (j div 8) + of_nat (j mod 8))" by simp
  also have "\<dots> = ucast (drop_bit (8 * (j mod 8)) (read64 m (ustack_at Y (j div 8))))" by (intro read64_byte) simp
  finally show ?thesis using assms i by (simp add: ustack_holds_def word_bytes_def)
qed

section \<open>Pushing\<close>

lemma arg_place_le: "arg_place sp n \<le> sp - n" "n \<le> sp \<Longrightarrow> arg_place sp n + n \<le> sp"
  unfolding arg_place_def using div_mult_mod_eq [of "sp - n" 16] by linarith+

lemma arg_place_word:
  assumes "n \<le> sp" and "sp < 2 ^ 64"
  shows "(of_nat sp :: u64) - of_nat n - (of_nat sp - of_nat n) mod 16 = of_nat (arg_place sp n)"
proof -
  have d: "(of_nat sp :: u64) - of_nat n = of_nat (sp - n)" using assms(1) by simp
  have "(of_nat (sp - n) :: u64) mod 16 = of_nat ((sp - n) mod 16)"
    using assms(2) by (simp add: word_unat_eq_iff unat_mod unat_of_nat del: of_nat_diff)
  moreover have "arg_place sp n = (sp - n) - (sp - n) mod 16"
    unfolding arg_place_def using minus_mod_eq_div_mult [of "sp - n" 16] by simp
  ultimately show ?thesis unfolding d using mod_less_eq_dividend [of "sp - n" 16] by (simp only: of_nat_diff)
qed

context exec_env
begin

text \<open>A copy into the accessible page of the stack.\<close>

lemma stack_copy:
  assumes im: "new_image X free ram K p v0 (T, t, u) v sz img" and acc: "uacc (VE X) (mem v) T w" and w: "Suc w = npages sz"
    and D: "4096 * w \<le> D" "D + L \<le> 4096 * Suc w" and bs: "length bs = L" "\<And>i. i < L \<Longrightarrow> mem v (src + of_nat i) = bs ! i"
    and src: "\<And>i. i < L \<Longrightarrow> pg (src + of_nat i) \<notin> free v0 \<union> {u}" and fuel: "3 \<le> fuel"
  shows "\<exists>v'. copyout fuel (VE X) (root T) (of_nat D) src (of_nat L) v = Ret (0, v') \<and>
     new_image X free ram K p v0 (T, t, u) v' sz (put_bytes D bs img) \<and> (\<forall>a. pte (VE X) (mem v') T a = pte (VE X) (mem v) T a) \<and>
     free v' = free v \<and> (\<forall>x. pg x \<notin> free v0 \<longrightarrow> mem v' x = mem v x)"
proof -
  note U = image_user [OF im] and P = image_pages [OF im]
  have w26: "Suc w \<le> 2 ^ 26" using w P(4) v_bounds by simp
  have DL: "D < 2 ^ 64" "L < 2 ^ 64" using D w26 by simp_all
  have "pages D L < fuel"
  proof (cases "L = 0")
    case True
    then show ?thesis using fuel by (simp add: pages_def)
  next
    case False
    have "D mod 4096 + L + 4095 \<le> 4095 + 4096 + 4095" using D by (intro add_mono) auto
    then have "(D mod 4096 + L + 4095) div 4096 \<le> 12286 div 4096" by (intro div_le_mono) simp
    then show ?thesis using False fuel by (simp add: pages_def)
  qed
  from copyout_spec [OF U(1) DL this, of src] src U(2) obtain c m where
    c: "copyout fuel (VE X) (root T) (of_nat D) src (of_nat L) v = Ret (if c = L then 0 else - 1, v\<lparr>mem := m\<rparr>)"
      "copy_extent (VE X) (mem v) T D L c" "\<forall>i < c. m (ua (VE X) (mem v) T (D + i)) = mem v (src + of_nat i)"
      "\<forall>x. x \<notin> (\<lambda>i. ua (VE X) (mem v) T (D + i)) ` {..<c} \<longrightarrow> m x = mem v x" by blast
  have page: "(D + i) div 4096 = w" if "i < L" for i using that D by (intro div_nat_eqI) simp_all
  have "c = L"
  proof (rule ccontr)
    assume "c \<noteq> L"
    then have "c < L" "\<not> uacc (VE X) (mem v) T ((D + c) div 4096)" using c(2) by (auto simp: copy_extent_def)
    with page [of c] acc show False by simp
  qed
  have N: "D + length bs \<le> 4096 * npages sz" using D bs(1) w by simp
  have 1: "m (ua (VE X) (mem v) T (D + i)) = bs ! i" if "i < length bs" for i using that c(3) \<open>c = L\<close> bs by simp
  have 2: "m x = mem v x" if "x \<notin> (\<lambda>i. ua (VE X) (mem v) T (D + i)) ` {..<length bs}" for x using that c(4) \<open>c = L\<close> bs(1) by simp
  note wr = image_write [OF im N 1 2]
  show ?thesis using c(1) wr \<open>c = L\<close> by (intro exI [of _ "v\<lparr>mem := m\<rparr>"]) simp
qed

end

context exec_env
begin

lemma exec_push_spec:
  assumes "new_image X free ram K p v0 (T, t, u) (rvm s) sz img" and "uacc (VE X) (mem (rvm s)) T w" and "Suc w = npages sz" and "0 < w"
    and "ustack_pages Y \<subseteq> K" and "arg_strings (mem (rvm s)) (free v0 \<union> K \<union> {u}) as bss" and "length ws + length bss \<le> MAXARG Y"
    and "4096 * w \<le> sp" and "sp \<le> 4096 * Suc w" and "ustack_holds Y (mem (rvm s)) ws" and "3 \<le> fuel"
  shows "\<exists>r v img'. exec_push fuel X Y (root T) (of_nat (4096 * w)) (length ws) (as @ 0 # junk) (of_nat sp) s = Ret (r, s\<lparr>rvm := v\<rparr>) \<and>
     new_image X free ram K p v0 (T, t, u) v sz img' \<and> (\<forall>a. pte (VE X) (mem v) T a = pte (VE X) (mem (rvm s)) T a) \<and> free v = free (rvm s) \<and>
     ((\<forall>a \<in> set (arg_addrs sp bss). 4096 * w \<le> a) \<and>
        r = Some (length ws + length bss, of_nat (last (sp # arg_addrs sp bss))) \<and> img' = put_args (arg_addrs sp bss) bss img \<and>
        ustack_holds Y (mem v) (ws @ map of_nat (arg_addrs sp bss)) \<and> 4096 * w \<le> last (sp # arg_addrs sp bss) \<and> last (sp # arg_addrs sp bss) \<le> 4096 * Suc w \<or>
      \<not> (\<forall>a \<in> set (arg_addrs sp bss). 4096 * w \<le> a) \<and> r = None)"
  using assms
proof (induction bss arbitrary: "as" ws sp s img)
  case Nil
  then have "as = []" by (simp add: arg_strings_def)
  with Nil show ?case
    by (intro exI [of _ "Some (length ws, of_nat sp)"] exI [of _ "rvm s"] exI [of _ img]) simp
next
  case (Cons b bss)
  note im = Cons.prems(1) and acc = Cons.prems(2) and w = Cons.prems(3)
  from Cons.prems(6) obtain a as' where as: "as = a # as'" and a: "a \<noteq> 0" "c_string (mem (rvm s)) a b" "length b < 4096"
    "\<And>i. i \<le> length b \<Longrightarrow> pg (a + of_nat i) \<notin> free v0 \<union> K \<union> {u}"
    and rest: "arg_strings (mem (rvm s)) (free v0 \<union> K \<union> {u}) as' bss"
    unfolding arg_strings_def by (cases "as") auto
  define L where "L = length b + 1"
  define q where "q = arg_place sp L"
  have Lsp: "L \<le> sp" using a(3) Cons.prems(4,8) by (simp add: L_def)
  have w26: "Suc w \<le> 2 ^ 26" using w image_pages(4) [OF im] v_bounds by simp
  have sp64: "sp < 2 ^ 64" using Cons.prems(9) w26 by simp
  have len: "strlen Y a (mem (rvm s)) + 1 = of_nat L" using strlen_law [OF a(2)] by (simp add: L_def)
  have qw: "(of_nat sp :: u64) - of_nat L - (of_nat sp - of_nat L) mod 16 = of_nat q" unfolding q_def by (rule arg_place_word [OF Lsp sp64])
  have q: "q + L \<le> sp" using arg_place_le(2) [OF Lsp] by (simp add: q_def)
  have base: "(of_nat q :: u64) < of_nat (4096 * w) \<longleftrightarrow> q < 4096 * w"
  proof -
    have "unat (of_nat q :: u64) = q" "unat (of_nat (4096 * w) :: u64) = 4096 * w"
      using q sp64 w26 by (simp_all only: unat_of_nat) (simp_all add: take_bit_nat_eq_self)
    then show ?thesis by (simp only: word_less_nat_alt)
  qed
  have nM: "\<not> MAXARG Y \<le> length ws" using Cons.prems(7) by simp
  have addrs: "arg_addrs sp (b # bss) = q # arg_addrs q bss" by (simp add: q_def L_def Let_def)
  show ?case
  proof (cases "q < 4096 * w")
    case True
    then have "exec_push fuel X Y (root T) (of_nat (4096 * w)) (length ws) (as @ 0 # junk) (of_nat sp) s = Ret (None, s\<lparr>rvm := rvm s\<rparr>)"
      using a(1) nM len qw base by (simp add: as Let_def)
    with True im show ?thesis unfolding addrs
      by (intro exI [of _ None] exI [of _ "rvm s"] exI [of _ img]) auto
  next
    case False
    have bytes: "mem (rvm s) (a + of_nat i) = (b @ [0]) ! i" if "i < L" for i using that a(2) by (simp add: c_string_def L_def)
    have Lw: "4096 * w \<le> q" "q + L \<le> 4096 * Suc w" using False q Cons.prems(9) by auto
    have src: "pg (a + of_nat i) \<notin> free v0 \<union> {u}" if "i < L" for i using a(4) [of i] that by (simp add: L_def)
    from stack_copy [OF im acc w Lw _ bytes src Cons.prems(11)] obtain v1 where
      v1: "copyout fuel (VE X) (root T) (of_nat q) a (of_nat L) (rvm s) = Ret (0, v1)"
        "new_image X free ram K p v0 (T, t, u) v1 sz (put_bytes q (b @ [0]) img)" "\<forall>a. pte (VE X) (mem v1) T a = pte (VE X) (mem (rvm s)) T a"
        "free v1 = free (rvm s)" "\<forall>x. pg x \<notin> free v0 \<longrightarrow> mem v1 x = mem (rvm s) x" by (auto simp: L_def)
    define m where "m = write64 (ustack_at Y (length ws)) (of_nat q) (mem v1)"
    have mK: "m x = mem v1 x" if "pg x \<notin> K" for x
      unfolding m_def using that nM Cons.prems(5) by (intro ustack_write_outside) auto
    note kn = image_kernel [OF v1(2) mK]
    define s1 where "s1 = s\<lparr>rvm := v1\<lparr>mem := m\<rparr>\<rparr>"
    have run: "exec_push fuel X Y (root T) (of_nat (4096 * w)) (length ws) (as @ 0 # junk) (of_nat sp) s =
        exec_push fuel X Y (root T) (of_nat (4096 * w)) (length (ws @ [of_nat q])) (as' @ 0 # junk) (of_nat q) s1"
      using a(1) nM len qw base False v1(1)
      by (simp add: as Let_def call_vm_def wr64_def s1_def m_def ustack_at_def)
    have im1: "new_image X free ram K p v0 (T, t, u) (rvm s1) sz (put_bytes q (b @ [0]) img)" using kn(1) by (simp add: s1_def)
    have pte1: "pte (VE X) (mem (rvm s1)) T x = pte (VE X) (mem (rvm s)) T x" for x using kn(2) v1(3) by (simp add: s1_def)
    have acc1: "uacc (VE X) (mem (rvm s1)) T w" using acc pte1 by (simp add: uacc_def)
    have mem1: "mem (rvm s1) x = mem (rvm s) x" if "pg x \<notin> free v0 \<union> K" for x using that mK v1(5) by (simp add: s1_def)
    have rest1: "arg_strings (mem (rvm s1)) (free v0 \<union> K \<union> {u}) as' bss" by (rule arg_strings_cong [OF rest]) (simp add: mem1)
    have "read64 (mem v1) (ustack_at Y i) = read64 (mem (rvm s)) (ustack_at Y i)" if "i < length ws" for i
    proof (rule read64_cong)
      fix c :: nat assume c: "c < 8"
      have "8 * i + c < 8 * MAXARG Y" using that nM c by simp
      then have "pg (ustack_at Y i + of_nat c) \<in> K" using Cons.prems(5) unfolding ustack_byte ustack_pages_def by blast
      then show "mem v1 (ustack_at Y i + of_nat c) = mem (rvm s) (ustack_at Y i + of_nat c)"
        using v1(5) new_imageD(4) [OF im] by auto
    qed
    then have "ustack_holds Y (mem v1) ws" using Cons.prems(10) by (simp add: ustack_holds_def)
    then have u1: "ustack_holds Y (mem (rvm s1)) (ws @ [of_nat q])"
      using ustack_push [of Y "mem v1" ws "of_nat q"] nM MAXARG_law by (simp add: s1_def m_def)
    have l1: "length (ws @ [of_nat q]) + length bss \<le> MAXARG Y" using Cons.prems(7) by simp
    have q1: "q \<le> 4096 * Suc w" using Lw by simp
    from Cons.IH [OF im1 acc1 w Cons.prems(4,5) rest1 l1 Lw(1) q1 u1 Cons.prems(11)] obtain r v img' where
      r: "exec_push fuel X Y (root T) (of_nat (4096 * w)) (length (ws @ [of_nat q])) (as' @ 0 # junk) (of_nat q) s1 = Ret (r, s1\<lparr>rvm := v\<rparr>)"
        "new_image X free ram K p v0 (T, t, u) v sz img'" "\<forall>a. pte (VE X) (mem v) T a = pte (VE X) (mem (rvm s1)) T a" "free v = free (rvm s1)"
        "(\<forall>a \<in> set (arg_addrs q bss). 4096 * w \<le> a) \<and>
           r = Some (length (ws @ [of_nat q :: u64]) + length bss, of_nat (last (q # arg_addrs q bss))) \<and>
           img' = put_args (arg_addrs q bss) bss (put_bytes q (b @ [0]) img) \<and>
           ustack_holds Y (mem v) ((ws @ [of_nat q]) @ map of_nat (arg_addrs q bss)) \<and> 4096 * w \<le> last (q # arg_addrs q bss) \<and>
           last (q # arg_addrs q bss) \<le> 4096 * Suc w \<or>
         \<not> (\<forall>a \<in> set (arg_addrs q bss). 4096 * w \<le> a) \<and> r = None" by blast
    have "(\<forall>a \<in> set (q # arg_addrs q bss). 4096 * w \<le> a) \<and>
        r = Some (length ws + length (b # bss), of_nat (last (sp # q # arg_addrs q bss))) \<and>
        img' = put_args (q # arg_addrs q bss) (b # bss) img \<and> ustack_holds Y (mem v) (ws @ map of_nat (q # arg_addrs q bss)) \<and>
        4096 * w \<le> last (sp # q # arg_addrs q bss) \<and> last (sp # q # arg_addrs q bss) \<le> 4096 * Suc w \<or>
      \<not> (\<forall>a \<in> set (q # arg_addrs q bss). 4096 * w \<le> a) \<and> r = None"
      using r(5)
    proof (elim disjE conjE)
      assume "r = None" "\<not> (\<forall>a \<in> set (arg_addrs q bss). 4096 * w \<le> a)"
      then show ?thesis by auto
    qed (use Lw(1) in simp)
    with r(1-4) pte1 kn(3) v1(4) show ?thesis unfolding run addrs
      by (intro exI [of _ r] exI [of _ v] exI [of _ img'] conjI) (simp_all add: s1_def)
  qed
qed

end

context exec_env
begin

lemma image_size:
  assumes "new_image X free ram K p v0 (T, t, u) v sz img" and "npages sz' = npages sz" and "sz' \<le> USYSCALL X"
  shows "new_image X free ram K p v0 (T, t, u) v sz' img"
  using assms by (simp add: new_image_def proc_space_def)

lemma page_sizes:
  assumes "P + 2 \<le> v_usys"
  shows "npages (adr P 0) = P" and "npages (adr (P + 2) 0) = P + 2" and "adr P 0 \<le> USYSCALL X" and "adr (P + 2) 0 \<le> USYSCALL X"
    and "adr P 0 \<le> adr (P + 2) 0" and "adr (P + 2) 0 \<noteq> 0"
    and "(adr P 0 :: u64) + 2 * 4096 = adr (P + 2) 0" and "(adr (P + 2) 0 :: u64) - 2 * 4096 = adr P 0" and "(adr (P + 2) 0 :: u64) - 4096 = of_nat (4096 * (P + 1))"
    and "(adr (P + 2) 0 :: u64) = of_nat (4096 * (P + 2))"
proof -
  have P: "P \<le> 2 ^ 26" "P + 2 \<le> 2 ^ 26" "v_usys \<le> 2 ^ 26" using assms v_bounds by simp_all
  show "npages (adr P 0) = P" "npages (adr (P + 2) 0) = P + 2" by (rule npages_vpage [OF P(1)], rule npages_vpage [OF P(2)])
  note u = unat_vpage [OF P(1)] unat_vpage [OF P(2)] unat_vpage [OF P(3)]
  show "adr P 0 \<le> USYSCALL X" "adr (P + 2) 0 \<le> USYSCALL X" "adr P 0 \<le> adr (P + 2) 0"
    using assms unfolding layout by (simp_all only: word_le_nat_alt u) simp_all
  show "adr (P + 2) 0 \<noteq> 0"
  proof
    assume "adr (P + 2) 0 = 0"
    then have "unat (adr (P + 2) 0) = 0" by (simp only: unat_0)
    with u(2) show False by simp
  qed
  show "(adr P 0 :: u64) + 2 * 4096 = adr (P + 2) 0" "(adr (P + 2) 0 :: u64) - 2 * 4096 = adr P 0"
    "(adr (P + 2) 0 :: u64) - 4096 = of_nat (4096 * (P + 1))" "(adr (P + 2) 0 :: u64) = of_nat (4096 * (P + 2))"
    by (simp_all add: adr_def)
qed

text \<open>The new stack: mapped, the guard page closed to the user.\<close>

lemma stack_pages:
  assumes im: "new_image X free ram K p v0 (T, t, u) v (adr P 0) img" and acc: "\<And>w. w < P \<Longrightarrow> uacc (VE X) (mem v) T w"
    and card: "card (free v0) < 2 ^ 19" and fuel: "2 * card (free v0) + 4 \<le> fuel" and P: "P + 2 \<le> v_usys"
  shows "\<exists>r v1 T1. uvmalloc fuel (VE X) (root T) (adr P 0) (adr (P + 2) 0) (perm_int (PTE_W (VE X))) v = Ret (r, v1) \<and> root T1 = root T \<and>
     (r = adr (P + 2) 0 \<and> (\<exists>v2. uvmclear (VE X) (root T) (adr P 0) v1 = Ret v2 \<and>
          new_image X free ram K p v0 (T1, t, u) v2 (adr (P + 2) 0) (grow_image (adr P 0) img) \<and>
          (\<forall>w < P + 2. w \<noteq> P \<longrightarrow> uacc (VE X) (mem v2) T1 w) \<and> \<not> uacc (VE X) (mem v2) T1 P) \<or>
      r = 0 \<and> new_image X free ram K p v0 (T1, t, u) v1 (adr P 0) img \<and> card (free v) < 6)"
proof -
  note pp = page_sizes [OF P]
  have c1: "card (free v0) + 1 < v_usys" using card by (simp add: v_usys_def)
  have p4: "perm_int (PTE_W (VE X)) \<in> {0, 4, 8, 12}" by (simp add: PTE_W_eq)
  have m: "adr (P + 2) 0 = max (adr P 0) (adr (P + 2) 0)" using pp(5) by (simp add: max_def)
  from image_alloc [OF im c1 fuel p4 m] obtain r v1 T1 where
    r: "uvmalloc fuel (VE X) (root T) (adr P 0) (adr (P + 2) 0) (perm_int (PTE_W (VE X))) v = Ret (r, v1)" "root T1 = root T"
    and d: "r \<noteq> 0 \<and> r = adr (P + 2) 0 \<and> new_image X free ram K p v0 (T1, t, u) v1 (adr (P + 2) 0) (grow_image (adr P 0) img) \<and>
        (\<forall>w < P + 2. (w < P \<longrightarrow> uacc (VE X) (mem v) T w) \<longrightarrow> uacc (VE X) (mem v1) T1 w) \<and>
        (\<forall>w. P \<le> w \<longrightarrow> w < P + 2 \<longrightarrow> pte (VE X) (mem v1) T1 (adr w 0) AND 2 \<noteq> 0) \<or>
      r = 0 \<and> new_image X free ram K p v0 (T1, t, u) v1 (adr P 0) img \<and> (adr (P + 2) 0 = 0 \<or> card (free v) < 3 * (P + 2 - P))"
    unfolding pp(1,2) by blast
  from d show ?thesis
  proof (elim disjE conjE)
    assume g: "r = adr (P + 2) 0" "new_image X free ram K p v0 (T1, t, u) v1 (adr (P + 2) 0) (grow_image (adr P 0) img)"
      "\<forall>w < P + 2. (w < P \<longrightarrow> uacc (VE X) (mem v) T w) \<longrightarrow> uacc (VE X) (mem v1) T1 w"
      "\<forall>w. P \<le> w \<longrightarrow> w < P + 2 \<longrightarrow> pte (VE X) (mem v1) T1 (adr w 0) AND 2 \<noteq> 0"
    have "P < npages (adr (P + 2) 0)" "pte (VE X) (mem v1) T1 (adr P 0) AND 2 \<noteq> 0" using pp(2) g(4) by auto
    from image_clear [OF g(2) this] obtain v2 where v2: "uvmclear (VE X) (root T1) (adr P 0) v1 = Ret v2"
      "new_image X free ram K p v0 (T1, t, u) v2 (adr (P + 2) 0) (grow_image (adr P 0) img)"
      "\<forall>a < MAXVA (VE X). pg a \<noteq> P \<longrightarrow> pte (VE X) (mem v2) T1 a = pte (VE X) (mem v1) T1 a" "\<not> uacc (VE X) (mem v2) T1 P" by blast
    have "uacc (VE X) (mem v2) T1 w" if "w < P + 2" "w \<noteq> P" for w
    proof -
      have a: "uacc (VE X) (mem v1) T1 w" using g(3) acc that by simp
      then have "w < 2 ^ 26" by (simp add: uacc_def)
      then show ?thesis using a v2(3) that(2) by (simp add: uacc_def vpage_less pg_vpage)
    qed
    with v2 g(1) r show ?thesis by (intro exI [of _ r] exI [of _ v1] exI [of _ T1]) auto
  next
    assume "r = 0" "new_image X free ram K p v0 (T1, t, u) v1 (adr P 0) img" "card (free v) < 3 * (P + 2 - P)"
    with r show ?thesis by (intro exI [of _ r] exI [of _ v1] exI [of _ T1]) simp
  qed (use pp(6) in simp)
qed

lemma exec_stack_spec:
  assumes im: "new_image X free ram K p v0 (T, t, u) (rvm s) sz0 img" and acc: "\<And>w. w < npages sz0 \<Longrightarrow> uacc (VE X) (mem (rvm s)) T w"
    and card: "card (free v0) < 2 ^ 19" and fuel: "2 * card (free v0) + 4 \<le> fuel"
    and uK: "ustack_pages Y \<subseteq> K" and args: "arg_strings (mem v0) (free v0 \<union> K \<union> {u}) as bss" and max: "length bss < MAXARG Y"
    and P: "P = npages sz0" and hi: "hi = 4096 * (P + 2)"
  shows "\<exists>r sz' v T' img'. exec_stack fuel X Y (root T) (as @ 0 # junk) sz0 s = Ret (r, sz', s\<lparr>rvm := v\<rparr>) \<and> root T' = root T \<and>
     new_image X free ram K p v0 (T', t, u) v sz' img' \<and>
     (r = Some (length bss, of_nat (argv_addr hi bss)) \<and> sz' = adr (P + 2) 0 \<and> img' = stack_image hi bss (grow_image sz0 img) \<and> args_fit hi bss \<and>
        (\<forall>w < P + 2. w \<noteq> P \<longrightarrow> uacc (VE X) (mem v) T' w) \<and> \<not> uacc (VE X) (mem v) T' P \<or>
      r = None \<and> (args_fit hi bss \<longrightarrow> card (free (rvm s)) < 6))"
proof -
  note I = new_imageD [OF im]
  have P2: "P + 2 \<le> v_usys" using image_pages(3) [OF im] card by (simp add: P v_usys_def)
  note pp = page_sizes [OF P2]
  have "sz0 \<le> MAXVA (VE X)" using proc_spaceD(4) [OF I(8)] usys_max by order
  then have up: "PGROUNDUP (VE X) sz0 = adr P 0" using PGROUNDUP_adr by (simp add: P)
  have im0: "new_image X free ram K p v0 (T, t, u) (rvm s) (adr P 0) img" using image_size [OF im _ pp(3)] pp(1) P by simp
  from stack_pages [OF im0 _ card fuel P2] acc obtain r v1 T1 where
    r: "uvmalloc fuel (VE X) (root T) (adr P 0) (adr (P + 2) 0) (perm_int (PTE_W (VE X))) (rvm s) = Ret (r, v1)" "root T1 = root T"
    and d: "r = adr (P + 2) 0 \<and> (\<exists>v2. uvmclear (VE X) (root T) (adr P 0) v1 = Ret v2 \<and>
          new_image X free ram K p v0 (T1, t, u) v2 (adr (P + 2) 0) (grow_image (adr P 0) img) \<and>
          (\<forall>w < P + 2. w \<noteq> P \<longrightarrow> uacc (VE X) (mem v2) T1 w) \<and> \<not> uacc (VE X) (mem v2) T1 P) \<or>
      r = 0 \<and> new_image X free ram K p v0 (T1, t, u) v1 (adr P 0) img \<and> card (free (rvm s)) < 6" by (auto simp: P)
  have call: "call_vm (uvmalloc fuel (VE X) (root T) (adr P 0) (adr (P + 2) 0) (perm_int (PTE_W (VE X)))) s = Ret (r, s\<lparr>rvm := v1\<rparr>)"
    using r(1) by (simp add: call_vm_def)
  show ?thesis
  proof (cases "r = 0")
    case True
    then have "exec_stack fuel X Y (root T) (as @ 0 # junk) sz0 s = Ret (None, adr P 0, s\<lparr>rvm := v1\<rparr>)"
      using call by (simp add: exec_stack_def up PGSIZE_eq pp(7) [simplified] Let_def)
    with True d r(2) pp(6) show ?thesis
      by (intro exI [of _ None] exI [of _ "adr P 0"] exI [of _ v1] exI [of _ T1] exI [of _ img]) auto
  next
    case False
    with d obtain v2 where rr: "r = adr (P + 2) 0" and v2: "uvmclear (VE X) (root T) (adr P 0) v1 = Ret v2"
      "new_image X free ram K p v0 (T1, t, u) v2 (adr (P + 2) 0) (grow_image (adr P 0) img)"
      "\<forall>w < P + 2. w \<noteq> P \<longrightarrow> uacc (VE X) (mem v2) T1 w" "\<not> uacc (VE X) (mem v2) T1 P" by auto
    define s2 where "s2 = s\<lparr>rvm := v2\<rparr>"
    have clr: "on_vm (uvmclear (VE X) (root T) (adr P 0)) (s\<lparr>rvm := v1\<rparr>) = Ret s2" using v2(1) by (simp add: on_vm_def s2_def)
    have im2: "new_image X free ram K p v0 (T1, t, u) (rvm s2) (adr (P + 2) 0) (grow_image (adr P 0) img)" using v2(2) by (simp add: s2_def)
    have acc2: "uacc (VE X) (mem (rvm s2)) T1 (P + 1)" using v2(3) by (simp add: s2_def)
    have w: "Suc (P + 1) = npages (adr (P + 2) 0)" using pp(2) by simp
    have args2: "arg_strings (mem (rvm s2)) (free v0 \<union> K \<union> {u}) as bss"
      by (rule arg_strings_cong [OF args]) (use new_imageD(10) [OF im2] in simp)
    have max2: "length ([] :: u64 list) + length bss \<le> MAXARG Y" using max by simp
    have hi2: "4096 * (P + 1) \<le> hi" "hi \<le> 4096 * Suc (P + 1)" by (simp_all add: hi)
    have us2: "ustack_holds Y (mem (rvm s2)) []" by (simp add: ustack_holds_def)
    have f3: "3 \<le> fuel" using fuel by simp
    have w0: "0 < P + 1" by simp
    note push = exec_push_spec [OF im2 acc2 w w0 uK args2 max2 hi2 us2 f3, of junk, unfolded list.size(3) add_0 append_Nil r(2)]
    then obtain q v3 img3 where
      q: "exec_push fuel X Y (root T) (of_nat (4096 * (P + 1))) 0 (as @ 0 # junk) (of_nat hi) s2 = Ret (q, s2\<lparr>rvm := v3\<rparr>)"
        "new_image X free ram K p v0 (T1, t, u) v3 (adr (P + 2) 0) img3" "\<And>a. pte (VE X) (mem v3) T1 a = pte (VE X) (mem (rvm s2)) T1 a"
      and qd: "(\<forall>a \<in> set (arg_addrs hi bss). 4096 * (P + 1) \<le> a) \<and>
          q = Some (length bss, of_nat (last (hi # arg_addrs hi bss))) \<and> img3 = put_args (arg_addrs hi bss) bss (grow_image (adr P 0) img) \<and>
          ustack_holds Y (mem v3) (map of_nat (arg_addrs hi bss)) \<and> 4096 * (P + 1) \<le> last (hi # arg_addrs hi bss) \<and>
          last (hi # arg_addrs hi bss) \<le> 4096 * Suc (P + 1) \<or>
        \<not> (\<forall>a \<in> set (arg_addrs hi bss). 4096 * (P + 1) \<le> a) \<and> q = None"
      by blast
    have acc3: "uacc (VE X) (mem v3) T1 w \<longleftrightarrow> uacc (VE X) (mem v2) T1 w" for w using q(3) by (simp add: uacc_def s2_def)
    define base where "base = (adr (P + 2) 0 :: u64) - 4096"
    have base: "base = of_nat (4096 * (P + 1))" unfolding base_def by (rule pp(9))
    define F where "F = (\<lambda>(r, s :: ('x, 'f, 'w) rv_st). case r of None \<Rightarrow> Ret (None, adr (P + 2) 0, s) | Some (argc, sp) \<Rightarrow>
          if \<not> argc < MAXARG Y then Undef ''ustack''
          else
            let s = wr64 (ustack_addr Y + 8 * of_nat argc) 0 s;
                sp = sp - (of_nat argc + 1) * 8;
                sp = sp - sp mod 16
            in if sp < base then Ret (None, adr (P + 2) 0, s)
               else
                 obind (call_vm (copyout fuel (VE X) (root T) sp (ustack_addr Y) ((of_nat argc + 1) * 8)) s) (\<lambda>(r, s).
                 if slt r 0 then Ret (None, adr (P + 2) 0, s) else Ret (Some (argc, sp), adr (P + 2) 0, s)))"
    have q1: "exec_push fuel X Y (root T) base 0 (as @ 0 # junk) (adr (P + 2) 0) s2 = Ret (q, s2\<lparr>rvm := v3\<rparr>)"
      using q(1) unfolding base hi by (simp only: pp(10))
    have run: "exec_stack fuel X Y (root T) (as @ 0 # junk) sz0 s = F (q, s2\<lparr>rvm := v3\<rparr>)"
      unfolding exec_stack_def Let_def up PGSIZE_eq pp(7) call obind.simps prod.case rr if_not_P [OF pp(6)] pp(8) clr
        base_def [symmetric] q1 F_def by (rule refl)
    have hib: "hi - 4096 = 4096 * (P + 1)" by (simp add: hi)
    have none: ?thesis if "F (q, s2\<lparr>rvm := v3\<rparr>) = Ret (None, adr (P + 2) 0, s2\<lparr>rvm := v4\<rparr>)"
      "new_image X free ram K p v0 (T1, t, u) v4 (adr (P + 2) 0) img4" "\<not> args_fit hi bss" for v4 img4
      using that run r(2)
      by (intro exI [of _ None] exI [of _ "adr (P + 2) 0"] exI [of _ v4] exI [of _ T1] exI [of _ img4]) (simp add: s2_def)
    from qd show ?thesis
    proof (elim disjE conjE)
      assume "q = None" and nf: "\<not> (\<forall>a \<in> set (arg_addrs hi bss). 4096 * (P + 1) \<le> a)"
      then have "F (q, s2\<lparr>rvm := v3\<rparr>) = Ret (None, adr (P + 2) 0, s2\<lparr>rvm := v3\<rparr>)" by (simp add: F_def)
      moreover have "\<not> args_fit hi bss" using nf by (simp add: args_fit_def hib)
      ultimately show ?thesis using q(2) by (intro none)
    next
      let ?ps = "arg_addrs hi bss"
      define sp where "sp = last (hi # ?ps)"
      define ws where "ws = map of_nat ?ps @ [0 :: u64]"
      define L where "L = 8 * (length bss + 1)"
      define D where "D = arg_place sp L"
      assume qq: "q = Some (length bss, of_nat (last (hi # ?ps)))" and img3: "img3 = put_args ?ps bss (grow_image (adr P 0) img)"
        and us3: "ustack_holds Y (mem v3) (map of_nat ?ps)" and sp: "4096 * (P + 1) \<le> last (hi # ?ps)" "last (hi # ?ps) \<le> 4096 * Suc (P + 1)"
        and fit: "\<forall>a \<in> set ?ps. 4096 * (P + 1) \<le> a"
      define m where "m = write64 (ustack_at Y (length bss)) 0 (mem v3)"
      have mK: "m x = mem v3 x" if "pg x \<notin> K" for x
        unfolding m_def using that max uK by (intro ustack_write_outside) auto
      define v4 where "v4 = v3\<lparr>mem := m\<rparr>"
      note kn = image_kernel [OF q(2) mK, folded v4_def]
      have us4: "ustack_holds Y (mem v4) ws" "length ws = length bss + 1"
        using ustack_push [OF us3, of 0] max MAXARG_law by (simp_all add: v4_def m_def ws_def)
      have Lsp: "L \<le> sp" "sp < 2 ^ 64" using max MAXARG_law sp P2 v_bounds by (simp_all add: L_def sp_def)
      have Lw: "(of_nat (length bss) + 1) * 8 = (of_nat L :: u64)" by (simp add: L_def)
      note pw = arg_place_word [OF Lsp, folded D_def]
      have D: "D + L \<le> sp" using arg_place_le(2) [OF Lsp(1)] by (simp add: D_def)
      have DA: "argv_addr hi bss = D" by (simp add: argv_addr_def D_def sp_def L_def)
      have cmp: "(of_nat D :: u64) < base \<longleftrightarrow> D < 4096 * (P + 1)"
      proof -
        have "D < 2 ^ 64" "4096 * (P + 1) < 2 ^ 64" using D Lsp(2) P2 v_bounds by auto
        then have "unat (of_nat D :: u64) = D" "unat base = 4096 * (P + 1)"
          unfolding base by (simp_all only: unat_of_nat) (simp_all add: take_bit_nat_eq_self)
        then show ?thesis by (simp only: word_less_nat_alt)
      qed
      have wr: "wr64 (ustack_addr Y + 8 * of_nat (length bss)) 0 (s2\<lparr>rvm := v3\<rparr>) = s2\<lparr>rvm := v4\<rparr>"
        by (simp add: wr64_def v4_def m_def ustack_at_def)
      have F4: "F (q, s2\<lparr>rvm := v3\<rparr>) = (if of_nat D < base then Ret (None, adr (P + 2) 0, s2\<lparr>rvm := v4\<rparr>)
          else obind (call_vm (copyout fuel (VE X) (root T) (of_nat D) (ustack_addr Y) (of_nat L)) (s2\<lparr>rvm := v4\<rparr>)) (\<lambda>(r, s).
            if slt r 0 then Ret (None, adr (P + 2) 0, s) else Ret (Some (length bss, of_nat D), adr (P + 2) 0, s)))"
        unfolding F_def qq sp_def [symmetric] prod.case option.case Let_def wr Lw pw using max by simp
      show ?thesis
      proof (cases "D < 4096 * (P + 1)")
        case True
        then have "F (q, s2\<lparr>rvm := v3\<rparr>) = Ret (None, adr (P + 2) 0, s2\<lparr>rvm := v4\<rparr>)" unfolding F4 cmp by simp
        moreover have "\<not> args_fit hi bss" using True by (simp add: args_fit_def hib DA)
        ultimately show ?thesis using kn(1) by (intro none)
      next
        case False
        have "D + L \<le> 4096 * Suc (P + 1)" using D sp(2) by (simp add: sp_def)
        moreover have "length (word_bytes ws) = L" using us4(2) by (simp add: word_bytes_def L_def)
        moreover have "mem v4 (ustack_addr Y + of_nat i) = word_bytes ws ! i" if "i < L" for i
          using that us4 by (intro ustack_bytes) (simp_all add: L_def)
        moreover have "pg (ustack_addr Y + of_nat i) \<notin> free v0 \<union> {u}" if "i < L" for i
        proof -
          have "i < 8 * MAXARG Y" using that max by (simp add: L_def)
          then have "pg (ustack_addr Y + of_nat i) \<in> K" using uK by (auto simp: ustack_pages_def)
          then show ?thesis using I(2,4) by auto
        qed
        moreover have acc4: "uacc (VE X) (mem v4) T1 w \<longleftrightarrow> uacc (VE X) (mem v2) T1 w" for w
          using kn(2) acc3 [of w] by (simp add: uacc_def v4_def)
        moreover have "uacc (VE X) (mem v4) T1 (P + 1)" using v2(3) acc4 by simp
        ultimately obtain v5 where v5: "copyout fuel (VE X) (root T1) (of_nat D) (ustack_addr Y) (of_nat L) v4 = Ret (0, v5)"
          "new_image X free ram K p v0 (T1, t, u) v5 (adr (P + 2) 0) (put_bytes D (word_bytes ws) img3)"
          "\<forall>a. pte (VE X) (mem v5) T1 a = pte (VE X) (mem v4) T1 a"
          using stack_copy [OF kn(1) _ w, of D L "word_bytes ws" "ustack_addr Y" fuel] False f3 by (auto simp: not_less)
        have "F (q, s2\<lparr>rvm := v3\<rparr>) = Ret (Some (length bss, of_nat D), adr (P + 2) 0, s2\<lparr>rvm := v5\<rparr>)"
          unfolding F4 cmp using False v5(1) r(2) by (simp add: call_vm_def)
        moreover have "args_fit hi bss" using fit False by (simp add: args_fit_def hib DA)
        moreover have "grow_image (adr P 0) img = grow_image sz0 img" using pp(1) by (simp add: grow_image_def P)
        then have "put_bytes D (word_bytes ws) img3 = stack_image hi bss (grow_image sz0 img)"
          by (simp add: stack_image_def DA ws_def img3)
        moreover have "uacc (VE X) (mem v5) T1 w \<longleftrightarrow> uacc (VE X) (mem v2) T1 w" for w
          using v5(3) acc4 [of w] by (simp add: uacc_def)
        ultimately show ?thesis using run r(2) v5(2) v2(3,4) DA
          by (intro exI [of _ "Some (length bss, of_nat D)"] exI [of _ "adr (P + 2) 0"] exI [of _ v5] exI [of _ T1]
              exI [of _ "stack_image hi bss (grow_image sz0 img)"]) (simp add: s2_def)
      qed
    qed
  qed
qed

text \<open>As many strings as \<open>ustack\<close> has words leave no room for the null pointer after them.\<close>

lemma exec_stack_full:
  assumes im: "new_image X free ram K p v0 (T, t, u) (rvm s) sz0 img" and acc: "\<And>w. w < npages sz0 \<Longrightarrow> uacc (VE X) (mem (rvm s)) T w"
    and card: "card (free v0) < 2 ^ 19" and fuel: "2 * card (free v0) + 4 \<le> fuel"
    and uK: "ustack_pages Y \<subseteq> K" and args: "arg_strings (mem v0) (free v0 \<union> K \<union> {u}) as bss" and max: "length bss = MAXARG Y"
    and P: "P = npages sz0" and hi: "hi = 4096 * (P + 2)" and fit: "\<forall>a \<in> set (arg_addrs hi bss). hi - 4096 \<le> a" and six: "6 \<le> card (free (rvm s))"
  shows "exec_stack fuel X Y (root T) (as @ 0 # junk) sz0 s = Undef ''ustack''"
proof -
  note I = new_imageD [OF im]
  have P2: "P + 2 \<le> v_usys" using image_pages(3) [OF im] card by (simp add: P v_usys_def)
  note pp = page_sizes [OF P2]
  have "sz0 \<le> MAXVA (VE X)" using proc_spaceD(4) [OF I(8)] usys_max by order
  then have up: "PGROUNDUP (VE X) sz0 = adr P 0" using PGROUNDUP_adr by (simp add: P)
  have im0: "new_image X free ram K p v0 (T, t, u) (rvm s) (adr P 0) img" using image_size [OF im _ pp(3)] pp(1) P by simp
  from stack_pages [OF im0 _ card fuel P2] acc six obtain v1 T1 v2 where
    r: "uvmalloc fuel (VE X) (root T) (adr P 0) (adr (P + 2) 0) (perm_int (PTE_W (VE X))) (rvm s) = Ret (adr (P + 2) 0, v1)" "root T1 = root T"
      "uvmclear (VE X) (root T) (adr P 0) v1 = Ret v2" "new_image X free ram K p v0 (T1, t, u) v2 (adr (P + 2) 0) (grow_image (adr P 0) img)"
      "\<forall>w < P + 2. w \<noteq> P \<longrightarrow> uacc (VE X) (mem v2) T1 w" by (auto simp: P)
  define s2 where "s2 = s\<lparr>rvm := v2\<rparr>"
  have im2: "new_image X free ram K p v0 (T1, t, u) (rvm s2) (adr (P + 2) 0) (grow_image (adr P 0) img)" using r(4) by (simp add: s2_def)
  have acc2: "uacc (VE X) (mem (rvm s2)) T1 (P + 1)" using r(5) by (simp add: s2_def)
  have w: "Suc (P + 1) = npages (adr (P + 2) 0)" using pp(2) by simp
  have args2: "arg_strings (mem (rvm s2)) (free v0 \<union> K \<union> {u}) as bss"
    by (rule arg_strings_cong [OF args]) (use new_imageD(10) [OF im2] in simp)
  have max2: "length ([] :: u64 list) + length bss \<le> MAXARG Y" using max by simp
  have hi2: "4096 * (P + 1) \<le> hi" "hi \<le> 4096 * Suc (P + 1)" "hi - 4096 = 4096 * (P + 1)" by (simp_all add: hi)
  have us2: "ustack_holds Y (mem (rvm s2)) []" by (simp add: ustack_holds_def)
  have f3: "3 \<le> fuel" using fuel by simp
  have w0: "0 < P + 1" by simp
  from exec_push_spec [OF im2 acc2 w w0 uK args2 max2 hi2(1,2) us2 f3, of junk, unfolded list.size(3) add_0 append_Nil r(2)] fit obtain v3 where
    q: "exec_push fuel X Y (root T) (of_nat (4096 * (P + 1))) 0 (as @ 0 # junk) (of_nat hi) s2 =
        Ret (Some (MAXARG Y, of_nat (last (hi # arg_addrs hi bss))), s2\<lparr>rvm := v3\<rparr>)" unfolding hi2(3) max by blast
  have call: "call_vm (uvmalloc fuel (VE X) (root T) (adr P 0) (adr (P + 2) 0) (perm_int (PTE_W (VE X)))) s = Ret (adr (P + 2) 0, s\<lparr>rvm := v1\<rparr>)"
    using r(1) by (simp add: call_vm_def)
  have clr: "on_vm (uvmclear (VE X) (root T) (adr P 0)) (s\<lparr>rvm := v1\<rparr>) = Ret s2" using r(3) by (simp add: on_vm_def s2_def)
  have q1: "exec_push fuel X Y (root T) (adr (P + 2) 0 - 4096) 0 (as @ 0 # junk) (adr (P + 2) 0) s2 =
      Ret (Some (MAXARG Y, of_nat (last (hi # arg_addrs hi bss))), s2\<lparr>rvm := v3\<rparr>)"
    using q unfolding pp(9) by (simp only: hi pp(10))
  show ?thesis
    unfolding exec_stack_def Let_def up PGSIZE_eq pp(7) call obind.simps prod.case if_not_P [OF pp(6)] pp(8) clr q1 option.case by simp
qed

end

end
