(* ===== verification/Rv_Machine.thy ===== *)
theory Rv_Machine
  imports Rv_Wait
begin

text \<open>
  A reference machine for the parameters of the RISC-V kernel: harts with an interrupt flag, locks with
  an owner that follow the protocol of \<open>spinlock.c\<close>, the page allocator of \<open>Vm_Machine\<close>, and a file
  layer that counts references. It interprets the locales of the process layer.
\<close>

record ref_hart =
  sie :: bool
  tp :: nat
  lowner :: "rv_lock \<Rightarrow> nat option"

type_synonym ref_rm = "ref_hart rv_mach"

definition hart_set :: "(ref_hart \<Rightarrow> ref_hart) \<Rightarrow> ref_rm \<Rightarrow> ref_rm" where
  "hart_set f m = m\<lparr>hart := f (hart m)\<rparr>"

definition hart_push_off :: "ref_rm \<Rightarrow> ref_rm outcome" where
  "hart_push_off m =
     Ret (put_rcpu (tp (hart m)) (\<lambda>k. k\<lparr>rc_intena := (if rc_noff k = 0 then (if sie (hart m) then 1 else 0) else rc_intena k),
                                      rc_noff := rc_noff k + 1\<rparr>) (hart_set (\<lambda>h. h\<lparr>sie := False\<rparr>) m))"

definition hart_pop_off :: "ref_rm \<Rightarrow> ref_rm outcome" where
  "hart_pop_off m =
     (let k = rcpus m ! tp (hart m) in
      if sie (hart m) then Panic ''pop_off - interruptible''
      else if slt (rc_noff k) 1 then Panic ''pop_off''
      else
        let m' = put_rcpu (tp (hart m)) (\<lambda>k. k\<lparr>rc_noff := rc_noff k - 1\<rparr>) m in
        if rc_noff k - 1 = 0 \<and> rc_intena k \<noteq> 0 then Ret (hart_set (\<lambda>h. h\<lparr>sie := True\<rparr>) m') else Ret m')"

definition hart_holding :: "rv_lock \<Rightarrow> ref_rm \<Rightarrow> bool" where
  "hart_holding l m \<longleftrightarrow> lowner (hart m) l = Some (tp (hart m))"

definition hart_own :: "rv_lock \<Rightarrow> nat option \<Rightarrow> ref_rm \<Rightarrow> ref_rm" where
  "hart_own l x = hart_set (\<lambda>h. h\<lparr>lowner := (lowner h)(l := x)\<rparr>)"

definition hart_acquire :: "rv_lock \<Rightarrow> ref_rm \<Rightarrow> ref_rm outcome" where
  "hart_acquire l m =
     obind (hart_push_off m) (\<lambda>m.
     if hart_holding l m then Panic ''acquire'' else Ret (hart_own l (Some (tp (hart m))) m))"

definition hart_release :: "rv_lock \<Rightarrow> ref_rm \<Rightarrow> ref_rm outcome" where
  "hart_release l m =
     (if \<not> hart_holding l m then Panic ''release'' else hart_pop_off (hart_own l None m))"

definition ref_rext :: "(ref_hart, nat, nat list) rv_ext" where
  "ref_rext =
     \<lparr>VE = ref_vext, TRAPFRAME = 2 ^ 38 - 8192, USYSCALL = 2 ^ 38 - 12288, NOFILE = 16, ROOTDEV = 1,
      forkret_addr = 0x80001a00, initcode_addr = 0x80008500, xstate_addr = (\<lambda>i. 0x80009000 + 360 * of_nat i),
      r_tp = tp, push_off = hart_push_off, pop_off = hart_pop_off, initlock = (\<lambda>l. hart_own l None),
      acquire = hart_acquire, release = hart_release, holding = hart_holding, intr_get = sie,
      intr_on = hart_set (\<lambda>h. h\<lparr>sie := True\<rparr>),
      filedup = (\<lambda>f w. Ret (f, w + 1)), fileclose = (\<lambda>f w. Ret (w - 1)), idup = (\<lambda>i w. Ret (i, w + 1)),
      iput = (\<lambda>i w. Ret (w - 1)), namei = (\<lambda>_ w. Ret (0x80020000, w + 1)), begin_op = Ret, end_op = Ret,
      fsinit = (\<lambda>_. Ret), usertrapret = Ret, safestrcpy = (\<lambda>s n. take (n - 1) s)\<rparr>"

lemma ref_rext_simps [simp]:
  "VE ref_rext = ref_vext" "TRAPFRAME ref_rext = 2 ^ 38 - 8192" "USYSCALL ref_rext = 2 ^ 38 - 12288" "NOFILE ref_rext = 16"
  "r_tp ref_rext = tp" "push_off ref_rext = hart_push_off" "pop_off ref_rext = hart_pop_off"
  "acquire ref_rext = hart_acquire" "release ref_rext = hart_release" "holding ref_rext = hart_holding"
  "intr_get ref_rext = sie" "intr_on ref_rext = hart_set (\<lambda>h. h\<lparr>sie := True\<rparr>)"
  "filedup ref_rext f w = Ret (f, w + 1)" "fileclose ref_rext f w = Ret (w - 1)" "idup ref_rext f w = Ret (f, w + 1)"
  "iput ref_rext f w = Ret (w - 1)" "begin_op ref_rext = Ret" "end_op ref_rext = Ret" "namei ref_rext path w = Ret (0x80020000, w + 1)"
  by (simp_all add: ref_rext_def)

lemma hart_simps [simp]:
  "rcpus (hart_set f m) = rcpus m" "hart (hart_set f m) = f (hart m)"
  "rcpus (put_rcpu i g m) = upd_nth i g (rcpus m)" "hart (put_rcpu i g m) = hart m"
  "rcpus (hart_own l x m) = rcpus m" "sie (hart (hart_own l x m)) = sie (hart m)" "tp (hart (hart_own l x m)) = tp (hart m)"
  "lowner (hart (hart_own l x m)) = (lowner (hart m))(l := x)"
  by (simp_all add: hart_set_def put_rcpu_def hart_own_def)

lemma rv_view_ref:
  "rv_view ref_rext m c n H P \<longleftrightarrow>
     tp (hart m) = c \<and> c < length (rcpus m) \<and> rc_noff (rcpus m ! c) = of_nat n \<and> n \<le> max_noff \<and>
     H = {l. lowner (hart m) l = Some c} \<and> map rc_proc (rcpus m) = P \<and> (0 < n \<longrightarrow> \<not> sie (hart m))"
  by (auto simp: rv_view_def rv_cpuid_def hart_holding_def)

lemma hart_push_view:
  assumes "rv_view ref_rext m c n H P" and "n < max_noff"
  shows "\<exists>m'. hart_push_off m = Ret m' \<and> rv_view ref_rext m' c (Suc n) H P \<and> lowner (hart m') = lowner (hart m)"
  using assms by (auto simp: rv_view_ref hart_push_off_def map_upd_nth add.commute)

lemma sint_noff: "Suc n \<le> max_noff \<Longrightarrow> \<not> slt (of_nat (Suc n)) 1"
  using sint_eq_unat_if_small [of "of_nat (Suc n)"] by (simp add: max_noff_def unat_of_nat del: of_nat_Suc)

lemma hart_pop_view:
  assumes "rv_view ref_rext m c (Suc n) H P"
  shows "\<exists>m'. hart_pop_off m = Ret m' \<and> rv_view ref_rext m' c n H P"
proof -
  have n: "Suc n \<le> max_noff" using assms by (simp add: rv_view_ref)
  have z: "(of_nat n :: i32) = 0 \<longleftrightarrow> n = 0"
    using n by (simp add: word_of_nat_eq_0_iff max_noff_def) (auto dest: nat_dvd_not_less)
  show ?thesis
    using assms sint_noff [OF n] z by (auto simp: rv_view_ref hart_pop_off_def map_upd_nth Let_def)
qed

lemma hart_acquire_view:
  assumes "rv_view ref_rext m c n H P" and "l \<notin> H" and "n < max_noff"
  shows "\<exists>m'. hart_acquire l m = Ret m' \<and> rv_view ref_rext m' c (Suc n) (insert l H) P"
proof -
  from hart_push_view [OF assms(1,3)] obtain m1
    where m1: "hart_push_off m = Ret m1" "rv_view ref_rext m1 c (Suc n) H P" by blast
  then have "\<not> hart_holding l m1" using assms(2) by (auto simp: rv_view_ref hart_holding_def)
  with m1 show ?thesis by (auto simp: hart_acquire_def rv_view_ref)
qed

lemma hart_release_view:
  assumes "rv_view ref_rext m c (Suc n) H P" and "l \<in> H"
  shows "\<exists>m'. hart_release l m = Ret m' \<and> rv_view ref_rext m' c n (H - {l}) P"
proof -
  have "hart_holding l m" using assms by (auto simp: rv_view_ref hart_holding_def)
  moreover have "rv_view ref_rext (hart_own l None m) c (Suc n) (H - {l}) P"
    using assms by (auto simp: rv_view_ref)
  ultimately show ?thesis
    using hart_pop_view by (auto simp: hart_release_def)
qed

interpretation hart: rv_lock_laws ref_rext
proof unfold_locales
  show "\<exists>m'. push_off ref_rext m = Ret m' \<and> rv_view ref_rext m' c (Suc n) H P"
    if "rv_view ref_rext m c n H P" "n < max_noff" for m c n H P
    using hart_push_view [OF that] by auto
  show "\<exists>m'. pop_off ref_rext m = Ret m' \<and> rv_view ref_rext m' c n H P"
    if "rv_view ref_rext m c (Suc n) H P" for m c n H P
    using hart_pop_view [OF that] by simp
  show "\<exists>m'. acquire ref_rext l m = Ret m' \<and> rv_view ref_rext m' c (Suc n) (insert l H) P"
    if "rv_view ref_rext m c n H P" "l \<notin> H" "n < max_noff" for m c n H P l
    using hart_acquire_view [OF that] by simp
  show "\<exists>m'. release ref_rext l m = Ret m' \<and> rv_view ref_rext m' c n (H - {l}) P"
    if "rv_view ref_rext m c (Suc n) H P" "l \<in> H" for m c n H P l
    using hart_release_view [OF that] by simp
  show "rv_view ref_rext (intr_on ref_rext m) c 0 {} P" if "rv_view ref_rext m c 0 {} P" for m c P
    using that by (simp add: rv_view_ref)
qed (simp_all add: hart_holding_def)

interpretation refsp: proc_layout ref_rext ref_free ref_ram
proof -
  have t: "trampoline ref_vext = 0x80007000" by (simp add: ref_vext_def)
  have p: "pg (0x80007000 :: u64) = 524295" by (simp add: pg_def)
  have "proc_layout_axioms ref_rext"
    by unfold_locales (simp_all add: ref_vext_def p frame_def adr_def)
  then show "proc_layout ref_rext ref_free ref_ram"
    using refvm.page_alloc_axioms by (simp add: proc_layout_def)
qed

interpretation refk: rv_kernel ref_rext ref_free ref_ram
  by (rule rv_kernel.intro [OF hart.rv_lock_laws_axioms refsp.proc_layout_axioms])

interpretation refos: rv_os ref_rext ref_free ref_ram
  by unfold_locales simp_all

end
