(* ===== verification/Rv_Kernel.thy ===== *)
theory Rv_Kernel
  imports Rv_Machine Vm_Kernel
begin

text \<open>
  The contracts of the process layer of Lab3, for every machine with the lock protocol, the page tables
  and the memory layout of xv6, each run on the reference machine.
\<close>

section \<open>States of the reference machine\<close>

text \<open>A machine with two harts, the first running \<open>p\<close>, and no lock held.\<close>

definition rm0 :: "nat option \<Rightarrow> ref_rm" where
  "rm0 p =
     (let cpu = \<lparr>rc_proc = None, rc_context = \<lparr>ctx_ra = 0, ctx_sp = 0, ctx_s = []\<rparr>, rc_noff = 0, rc_intena = 0\<rparr>
      in \<lparr>rcpus = [cpu\<lparr>rc_proc := p\<rparr>, cpu], hart = \<lparr>sie = True, tp = 0, lowner = (\<lambda>_. None)\<rparr>\<rparr>)"

definition rp0 :: rv_proc where
  "rp0 = \<lparr>r_state = UNUSED, r_chan = NoChan, r_killed = 0, r_xstate = 0, r_pid = 0, r_parent = None, r_kstack = 0,
     r_sz = 0, r_pagetable = 0, r_trapframe = 0, r_usyscall = 0,
     r_context = \<lparr>ctx_ra = 0, ctx_sp = 0, ctx_s = []\<rparr>, r_ofile = replicate 16 0, r_cwd = 0, r_name = []\<rparr>"

text \<open>After the boot: four free slots, the pages from 3 on free.\<close>

definition rs0 :: "(ref_hart, nat, nat list) rv_st" where
  "rs0 = \<lparr>procs = replicate 4 rp0, rv_initproc = None, rv_nextpid = 1, rv_first = True, rmach = rm0 None, files = 0, rvm = vm0\<rparr>"

lemma view_rm0: "rv_view ref_rext (rm0 p) 0 0 {} [p, None]"
  by (simp add: rv_view_ref rm0_def Let_def)

lemma rs0_simps [simp]:
  "procs rs0 = replicate 4 rp0" "rmach rs0 = rm0 None" "rvm rs0 = vm0" "rv_nextpid rs0 = 1"
  by (simp_all add: rs0_def)

lemma mem_ok_rs0: "mem_ok ref_rext ref_free ref_ram vm0 (replicate 4 rp0) A"
proof -
  have sm: "slot_mem ref_rext ref_free ref_ram vm0 rp0 a" for a by (simp add: slot_mem_def rp0_def)
  then have "foot ref_rext vm0 rp0 a = {}" for a by (rule foot_unused) (simp add: rp0_def)
  with sm show ?thesis by (simp add: mem_ok_def)
qed

section \<open>Page tables of processes\<close>

text \<open>(C23) \<open>proc_pagetable\<close> always returns. With three free pages it returns a page table that maps the
  trampoline (executable), the trap frame (not for the user) and the page with the pid (readable by the user)
  at the top of the address space and nothing else. Otherwise it returns null and every page it had taken is
  free again. The clean-up code for the third mapping, which would unmap a page that is not mapped, is never
  reached, because the three pages share their leaf table. Memory that was not free is not written.\<close>

theorem proc_pagetable_correct:
  assumes "proc_layout X free ram" and "t \<in> ram - free s" and "u \<in> ram - free s" and "3 \<le> fuel"
  shows "\<exists>r s'. proc_pagetable fuel X (adr t 0) (adr u 0) s = Ret (r, s') \<and>
     (\<forall>x. pg x \<notin> free s \<longrightarrow> mem s' x = mem s x) \<and> (3 \<le> card (free s) \<longrightarrow> r \<noteq> 0) \<and>
     (r \<noteq> 0 \<longrightarrow> card (free s) \<le> card (free s') + 3) \<and>
     (r = 0 \<and> free s' = free s \<or>
      r \<noteq> 0 \<and> (\<exists>T. r = root T \<and> proc_space X free ram s' T 0 t u \<and> ran T \<subseteq> free s \<and> free s' = free s - ran T))"
  using proc_layout.proc_pagetable_spec [OF assms] .

theorem proc_pagetable_correct_witness:
  "\<exists>s' T. proc_pagetable 3 ref_rext (adr 1 0) (adr 2 0) vm0 = Ret (root T, s') \<and>
     proc_space ref_rext ref_free ref_ram s' T 0 1 2 \<and> ran T \<subseteq> {3..<200} \<and> ref_free s' = {3..<200} - ran T"
proof -
  have "1 \<in> ref_ram - ref_free vm0" "2 \<in> ref_ram - ref_free vm0" by (simp_all add: free_vm0 ref_ram_def)
  from proc_pagetable_correct [OF refsp.proc_layout_axioms this, of 3] show ?thesis
    by (auto simp: free_vm0)
qed

text \<open>Making a page table for a process and freeing it with the size 0 gives every page back, whatever
  the tables held before, and leaves the trap frame and the pid page to their owner.\<close>

theorem proc_pagetable_roundtrip:
  assumes "proc_layout X free ram" and "t \<in> ram - free s" and "u \<in> ram - free s" and "3 \<le> fuel"
    and "proc_pagetable fuel X (adr t 0) (adr u 0) s = Ret (pt, s1)" and "pt \<noteq> 0"
  shows "\<exists>s2. proc_freepagetable fuel X pt 0 s1 = Ret s2 \<and> free s2 = free s \<and>
     (\<forall>x. pg x \<notin> free s \<longrightarrow> mem s2 x = mem s x)"
proof -
  from proc_layout.proc_pagetable_spec [OF assms(1-4)] assms(5,6) obtain T where
    T: "pt = root T" "proc_space X free ram s1 T 0 t u" "ran T \<subseteq> free s" "free s1 = free s - ran T"
    and mem: "\<forall>x. pg x \<notin> free s \<longrightarrow> mem s1 x = mem s x" by auto
  have np: "npages 0 = 0" by (simp add: npages_def)
  from proc_layout.proc_freepagetable_spec [OF assms(1) T(2), of fuel] assms(4) obtain s2 where
    s2: "proc_freepagetable fuel X (root T) 0 s1 = Ret s2" "free s2 = free s1 \<union> ran T"
      "\<forall>x. pg x \<notin> free s1 \<union> ran T \<longrightarrow> mem s2 x = mem s1 x" by (auto simp: np)
  have "free s1 \<union> ran T = free s" using T(3,4) by auto
  with s2 mem T(1) show ?thesis by auto
qed

theorem proc_pagetable_roundtrip_witness:
  "\<exists>pt s1 s2. proc_pagetable 3 ref_rext (adr 1 0) (adr 2 0) vm0 = Ret (pt, s1) \<and>
     proc_freepagetable 3 ref_rext pt 0 s1 = Ret s2 \<and> ref_free s2 = {3..<200}"
proof -
  have tu: "1 \<in> ref_ram - ref_free vm0" "2 \<in> ref_ram - ref_free vm0" by (simp_all add: free_vm0 ref_ram_def)
  from refsp.proc_pagetable_spec [OF tu, of 3] obtain pt s1 where
    r: "proc_pagetable 3 ref_rext (adr 1 0) (adr 2 0) vm0 = Ret (pt, s1)" "pt \<noteq> 0" by (auto simp: free_vm0)
  from proc_pagetable_roundtrip [OF refsp.proc_layout_axioms tu _ r] r show ?thesis by (auto simp: free_vm0)
qed

section \<open>Allocating and freeing processes\<close>

text \<open>(C22) \<open>allocproc\<close> keeps the ownership of memory: afterwards every process again owns its pages alone,
  the other processes and their memory are untouched and no page is lost, whether it succeeds or runs out of
  memory. It returns null exactly if there is no unused slot or it ran out of memory, which cannot happen with five
  free pages, and then the slot is left cleared and no lock is held. Otherwise it returns the first unused slot with its
  lock held, with the next pid, and the page that user space reads holds this pid.\<close>

theorem allocproc_correct:
  assumes "rv_kernel X free ram" and "mem_ok X free ram (rvm s) (procs s) A" and "rv_view X (rmach s) c n H P"
    and "no_proc_lock H" and "PidLock \<notin> H" and "Suc n < max_noff" and "3 \<le> fuel"
  shows "\<exists>r s' A'. rv_allocproc fuel X s = Ret (r, s') \<and>
     (case find (\<lambda>i. r_state (rproc s i) = UNUSED) [0..<length (procs s)] of
        None \<Rightarrow> r = None \<and> procs s' = procs s \<and> rvm s' = rvm s \<and> rv_view X (rmach s') c n H P
      | Some i \<Rightarrow>
          mem_safe X free ram i (rvm s) (procs s) A (rvm s') (procs s') A' \<and> rv_nextpid s' = rv_nextpid s + 1 \<and>
          (r = None \<and> card (free (rvm s)) < 5 \<and> rproc s' i = cleared (rproc s i) \<and> rv_view X (rmach s') c n H P \<or>
           r = Some i \<and> rproc s' i = alloced X (rv_nextpid s) (A' i) (rproc s i) \<and>
             pid_page (mem (rvm s')) (snd (snd (A' i))) (rv_nextpid s) \<and>
             rv_view X (rmach s') c (Suc n) (insert (ProcLock i) H) P))"
proof (cases "find (\<lambda>i. r_state (rproc s i) = UNUSED) [0..<length (procs s)]")
  case None
  from rv_lock_laws.alloc_scan_spec [OF rv_kernel.axioms(1) [OF assms(1)] assms(3,4), of "[0..<length (procs s)]"] assms(6) None
  show ?thesis by (auto simp: rv_allocproc_def)
next
  case (Some i)
  have i: "i < length (procs s)" using Some by (auto simp: find_Some_iff)
  note sm = mem_okD(1) [OF assms(2) i]
  from rv_kernel.allocproc_spec [OF assms(1,3-6) Some sm assms(7)] obtain r p' a m v where
    r: "rv_allocproc fuel X s = Ret (r, alloc_st s i m p' v)" "mem_step X free ram (rvm s) (rproc s i) (A i) v p' a"
      "5 \<le> card (free (rvm s)) \<longrightarrow> r \<noteq> None"
      "r = None \<and> p' = cleared (rproc s i) \<and> rv_view X m c n H P \<or>
       r = Some i \<and> p' = alloced X (rv_nextpid s) a (rproc s i) \<and> pid_page (mem v) (snd (snd a)) (rv_nextpid s) \<and>
         rv_view X m c (Suc n) (insert (ProcLock i) H) P"
    by (auto simp: alloc_result_def)
  from proc_layout.mem_step_safe [OF rv_kernel.axioms(2) [OF assms(1)] assms(2) i r(2)] r(1,3,4) i Some
  show ?thesis by (intro exI [of _ r] exI [of _ "alloc_st s i m p' v"] exI [of _ "A(i := a)"]) (auto simp: alloc_st_def)
qed

theorem allocproc_correct_witness:
  "\<exists>s' A. rv_allocproc 3 ref_rext rs0 = Ret (Some 0, s') \<and> r_pid (rproc s' 0) = 1 \<and> r_state (rproc s' 0) = USED \<and>
     mem_ok ref_rext ref_free ref_ram (rvm s') (procs s') A \<and> rv_view ref_rext (rmach s') 0 1 {ProcLock 0} [None, None]"
proof -
  have f: "find (\<lambda>i. r_state (rproc rs0 i) = UNUSED) [0..<length (procs rs0)] = Some 0"
    by (simp add: upt_rec rp0_def)
  have "max_noff > Suc 0" by (simp add: max_noff_def)
  from allocproc_correct [OF refk.rv_kernel_axioms, of rs0 "\<lambda>_. undefined" 0 0 "{}" "[None, None]" 3] this
    mem_ok_rs0 view_rm0 [of None] f card_vm0 show ?thesis
    by (fastforce simp: no_proc_lock_def mem_safe_def alloced_def split: prod.splits)
qed

text \<open>(C25) \<open>freeproc\<close> on a process, at any size, frees its page table, its user pages, its trap frame and its pid page,
  clears the slot, and leaves every other process and its memory alone.\<close>

theorem freeproc_correct:
  assumes "proc_layout X free ram" and "mem_ok X free ram (rvm s) (procs s) A" and "i < length (procs s)"
    and "r_state (rproc s i) \<noteq> UNUSED" and "npages (r_sz (rproc s i)) + 3 \<le> fuel"
  shows "\<exists>v. freeproc fuel X i s = Ret ((rupd i cleared s)\<lparr>rvm := v\<rparr>) \<and>
     mem_safe X free ram i (rvm s) (procs s) A v (procs (rupd i cleared s)) A \<and>
     free v = free (rvm s) \<union> foot X (rvm s) (rproc s i) (A i)"
  using proc_layout.freeproc_safe [OF assms] .

text \<open>A state in which the first process has its memory and runs on the first hart.\<close>

definition rs1 :: "rv_proc \<Rightarrow> nat list vm \<Rightarrow> (ref_hart, nat, nat list) rv_st" where
  "rs1 p v = rs0\<lparr>procs := (replicate 4 rp0)[0 := p], rmach := rm0 (Some 0), rvm := v\<rparr>"

lemma rs1_simps [simp]:
  "procs (rs1 p v) = (replicate 4 rp0)[0 := p]" "rmach (rs1 p v) = rm0 (Some 0)" "rvm (rs1 p v) = v" "rv_nextpid (rs1 p v) = 1"
  by (simp_all add: rs1_def)

lemma first_unused0: "find (\<lambda>i. r_state (rproc rs0 i) = UNUSED) [0..<length (procs rs0)] = Some 0"
  by (simp add: upt_rec rp0_def)

lemma max_noff_pos: "Suc (Suc 0) < max_noff"
  by (simp add: max_noff_def)

lemma proc0:
  "\<exists>p v T t u. mem_ok ref_rext ref_free ref_ram v ((replicate 4 rp0)[0 := p]) ((\<lambda>_. undefined)(0 := (T, t, u))) \<and>
     p = alloced ref_rext 1 (T, t, u) rp0 \<and> r_state p = USED \<and> r_sz p = 0 \<and> 192 \<le> card (ref_free v) \<and>
     ref_free v \<subseteq> {3..<200}"
proof -
  have sm: "slot_mem ref_rext ref_free ref_ram vm0 (rproc rs0 0) undefined" by (simp add: slot_mem_def rp0_def)
  from refk.allocproc_spec [OF _ _ _ _ first_unused0, of 0 0 "{}" "[None, None]" undefined 3]
    view_rm0 [of None] sm max_noff_pos card_vm0 obtain p v a where
    p: "mem_step ref_rext ref_free ref_ram vm0 rp0 undefined v p a" "p = alloced ref_rext 1 a rp0" "192 \<le> card (ref_free v)"
    by (fastforce simp: alloc_result_def no_proc_lock_def)
  have "mem_safe ref_rext ref_free ref_ram 0 vm0 (replicate 4 rp0) (\<lambda>_. undefined) v ((replicate 4 rp0)[0 := p]) ((\<lambda>_. undefined)(0 := a))"
    using p(1) by (intro refsp.mem_step_safe mem_ok_rs0) auto
  moreover have "foot ref_rext vm0 rp0 undefined = {}" using foot_unused [OF sm] by (simp add: rp0_def)
  then have "ref_free v \<subseteq> {3..<200}" using p(1) by (auto simp: mem_step_def free_vm0)
  ultimately show ?thesis
    using p(2,3) by (cases a) (auto simp: mem_safe_def alloced_def rp0_def)
qed

theorem freeproc_correct_witness:
  "\<exists>p v v'. freeproc 3 ref_rext 0 (rs1 p v) = Ret ((rupd 0 cleared (rs1 p v))\<lparr>rvm := v'\<rparr>) \<and> r_state p = USED \<and> ref_free v \<subseteq> ref_free v'"
proof -
  from proc0 obtain p v T t u where "mem_ok ref_rext ref_free ref_ram v ((replicate 4 rp0)[0 := p]) ((\<lambda>_. undefined)(0 := (T, t, u)))"
    "r_state p = USED" "r_sz p = 0" by blast
  with freeproc_correct [OF refsp.proc_layout_axioms, of "rs1 p v" "(\<lambda>_. undefined)(0 := (T, t, u))" 0 3] show ?thesis
    by (fastforce simp: npages_def)
qed

text \<open>(C24) \<open>growproc\<close> by a positive amount that stays below the pid page makes the process larger by it, with new
  pages that are zeroed and for the user to read and write, or returns -1 and leaves the size (only when fewer than
  three free pages per new page are left); by a negative amount it shrinks the process, but an amount larger than the
  size wraps around and changes nothing. Pages that stay keep contents and permissions, the other processes are
  untouched, and no page is lost.\<close>

theorem growproc_correct:
  assumes "rv_kernel X free ram" and "mem_ok X free ram (rvm s) (procs s) A" and "rv_view X (rmach s) c n H P" and "n < max_noff"
    and "P ! c = Some i" and "i < length (procs s)" and "r_state (rproc s i) \<noteq> UNUSED"
    and "sz = r_sz (rproc s i)" and "new = sz + scast k" and "slt 0 k \<longrightarrow> sz \<le> new \<and> new \<le> USYSCALL X"
    and "slt 0 k \<longrightarrow> 2 * npages new + 2 \<le> fuel" and "npages sz < fuel"
  shows "\<exists>r z s' A'. rv_growproc fuel X k s = Ret (r, s') \<and> rv_view X (rmach s') c n H P \<and>
     mem_safe X free ram i (rvm s) (procs s) A (rvm s') (procs s') A' \<and> rproc s' i = (rproc s i)\<lparr>r_sz := z\<rparr> \<and>
     resized X (rvm s) (fst (A i)) sz (rvm s') (fst (A' i)) z \<and>
     (r = 0 \<and> z = (if slt k 0 then min sz new else new) \<or>
      r = - 1 \<and> slt 0 k \<and> z = sz \<and> card (free (rvm s)) < 3 * (npages new - npages sz))"
proof -
  obtain T t u where a: "A i = (T, t, u)" by (cases "A i")
  note sm = mem_okD(1) [OF assms(2,6), unfolded a]
  from rv_kernel.growproc_spec [OF assms(1,3-6) sm assms(7-9), of fuel] assms(10-12) obtain r z v m T' where
    r: "rv_growproc fuel X k s = Ret (r, s\<lparr>procs := (procs s)[i := (rproc s i)\<lparr>r_sz := z\<rparr>], rmach := m, rvm := v\<rparr>)"
      "rv_view X m c n H P" "mem_step X free ram (rvm s) (rproc s i) (A i) v ((rproc s i)\<lparr>r_sz := z\<rparr>) (T', t, u)"
      "resized X (rvm s) T sz v T' z"
      "r = 0 \<and> z = (if slt k 0 then min sz new else new) \<or> r = - 1 \<and> slt 0 k \<and> z = sz \<and> card (free (rvm s)) < 3 * (npages new - npages sz)"
    unfolding a by blast
  from proc_layout.mem_step_safe [OF rv_kernel.axioms(2) [OF assms(1)] assms(2,6) r(3)] r assms(6) a show ?thesis
    by (intro exI [of _ r] exI [of _ z] exI [of _ "s\<lparr>procs := (procs s)[i := (rproc s i)\<lparr>r_sz := z\<rparr>], rmach := m, rvm := v\<rparr>"]
          exI [of _ "A(i := (T', t, u))"]) simp
qed

theorem growproc_correct_witness:
  "\<exists>p v r z s' A. rv_growproc 4 ref_rext 4096 (rs1 p v) = Ret (r, s') \<and> mem_ok ref_rext ref_free ref_ram (rvm s') (procs s') A \<and>
     r_sz (rproc s' 0) = z \<and> (r = 0 \<and> z = 4096 \<or> r = - 1 \<and> z = 0)"
proof -
  from proc0 obtain p v T t u where ok: "mem_ok ref_rext ref_free ref_ram v ((replicate 4 rp0)[0 := p]) ((\<lambda>_. undefined)(0 := (T, t, u)))"
    "r_state p = USED" "r_sz p = 0" by blast
  have np: "npages 4096 = 1" "npages 0 = 0" by (simp_all add: npages_def)
  from growproc_correct [OF refk.rv_kernel_axioms, of "rs1 p v" "(\<lambda>_. undefined)(0 := (T, t, u))" 0 0 "{}" "[Some 0, None]" 0 0 4096 4096 4]
    ok view_rm0 [of "Some 0"] max_noff_pos show ?thesis by (fastforce simp: np mem_safe_def)
qed

section \<open>fork\<close>

text \<open>(C26) \<open>fork\<close> with an unused slot returns the next pid and a runnable child of the caller in the first unused slot, or
  -1 (then the slot is cleared, and there were fewer free pages than five and three per page of the caller). The child has
  the size, the directory and the open files of the caller and pages of its own, with the contents and permissions that the
  pages of the caller had; its trap frame is that of the caller with 0 as the result of the call, and the page it reads its
  pid from holds the pid that \<open>fork\<close> returned. In both cases every process owns its pages alone, the other processes and
  their memory are untouched, no page is lost, and no lock is left held.\<close>

theorem rv_fork_correct:
  assumes "rv_os X free ram" and "mem_ok X free ram (rvm s) (procs s) A" and "rv_view X (rmach s) c n H P" and "Suc n < max_noff"
    and "no_proc_lock H" and "PidLock \<notin> H" and "WaitLock \<notin> H" and "P ! c = Some p" and "p < length (procs s)"
    and "r_state (rproc s p) \<noteq> UNUSED"
    and "find (\<lambda>i. r_state (rproc s i) = UNUSED) [0..<length (procs s)] = Some np"
    and "3 \<le> fuel" and "2 * npages (r_sz (rproc s p)) + 2 \<le> fuel"
  shows "\<exists>r s' a'. rv_fork fuel X s = Ret (r, s') \<and> rv_view X (rmach s') c n H P \<and>
     mem_safe X free ram np (rvm s) (procs s) A (rvm s') (procs s') (A(np := a')) \<and> rv_nextpid s' = rv_nextpid s + 1 \<and>
     (r = - 1 \<and> (\<exists>q. rproc s' np = cleared q) \<and> card (free (rvm s)) < 5 + 3 * npages (r_sz (rproc s p)) \<or>
      r = rv_nextpid s \<and> forked X s p np (A p) s' a')"
  using rv_os.fork_spec [OF assms(1-13)] .

lemma first_unused1:
  "r_state p = USED \<Longrightarrow> find (\<lambda>i. r_state (rproc (rs1 p v) i) = UNUSED) [0..<length (procs (rs1 p v))] = Some 1"
  by (simp add: upt_rec rp0_def)

theorem rv_fork_correct_witness:
  "\<exists>p v r s' A. rv_fork 3 ref_rext (rs1 p v) = Ret (r, s') \<and> mem_ok ref_rext ref_free ref_ram (rvm s') (procs s') A \<and>
     (r = - 1 \<or> r = 1 \<and> r_state (rproc s' 1) = RUNNABLE \<and> r_parent (rproc s' 1) = Some 0)"
proof -
  from proc0 obtain p v T t u where ok: "mem_ok ref_rext ref_free ref_ram v ((replicate 4 rp0)[0 := p]) ((\<lambda>_. undefined)(0 := (T, t, u)))"
    "r_state p = USED" "r_sz p = 0" by blast
  have np: "npages 0 = 0" by (simp add: npages_def)
  from rv_fork_correct [OF refos.rv_os_axioms, of "rs1 p v" "(\<lambda>_. undefined)(0 := (T, t, u))" 0 0 "{}" "[Some 0, None]" 0 1 3]
    ok view_rm0 [of "Some 0"] max_noff_pos first_unused1 [OF ok(2), of v] obtain r s' a' where
    "rv_fork 3 ref_rext (rs1 p v) = Ret (r, s')"
    "mem_safe ref_rext ref_free ref_ram 1 v ((replicate 4 rp0)[0 := p]) ((\<lambda>_. undefined)(0 := (T, t, u))) (rvm s') (procs s')
       (((\<lambda>_. undefined)(0 := (T, t, u)))(1 := a'))"
    "r = - 1 \<or> r = 1 \<and> forked ref_rext (rs1 p v) 0 1 (T, t, u) s' a'"
    by (auto simp: np no_proc_lock_def)
  then show ?thesis by (cases a') (fastforce simp: mem_safe_def forked_def fork_child_def alloced_def)
qed

end
