(* ===== verification/Rv_Life.thy ===== *)
theory Rv_Life
  imports Rv_Kernel
begin

text \<open>
  The life of a process in Lab3 from \<open>exit\<close> to \<open>wait\<close>, and \<open>kill\<close>, for every machine with the laws of
  the locales, each run on the reference machine.
\<close>

section \<open>exit\<close>

text \<open>(C27) \<open>exit\<close> closes the open files once each and drops the current directory in one transaction, gives the children
  of the process to \<open>init\<close> and wakes \<open>init\<close> if there were any, wakes the parent, and switches away exactly once, as a zombie
  with its exit status, holding only its own lock, so that none of the checks of \<open>sched\<close> panics. All other slots
  and all memory are as before: the pages of the zombie stay with it. If the scheduler ever came back, \<open>exit\<close> would
  panic.\<close>

theorem rv_exit_correct:
  assumes "rv_os X free ram" and "rv_view X (rmach s) c 0 {} P" and "P ! c = Some p" and "p < length (procs s)"
    and "rv_initproc s \<noteq> Some p" and "r_parent (rproc s p) \<noteq> Some p" and "length (r_ofile (rproc s p)) = NOFILE X"
    and "r_state (rproc s p) \<noteq> UNUSED" and "mem_ok X free ram (rvm s) (procs s) A"
  shows "\<exists>m w s1. s1 = s\<lparr>procs := exit_table p (rv_initproc s) status (procs s), rmach := m, files := w\<rparr> \<and>
     exit_files X (rproc s p) (files s) = Ret w \<and> rv_view X m c 1 {ProcLock p} P \<and> mem_ok X free ram (rvm s1) (procs s1) A \<and>
     (\<forall>sw. rv_exit X sw status s = obind (sw s1) (\<lambda>s. obind (rv_mycpu X (rmach s)) (\<lambda>_. Panic ''zombie exit'')))"
  using rv_os.exit_spec [OF assms(1-7), of status] exit_table_mem(1) [OF assms(9,8), of "rv_initproc s" status] by fastforce

theorem rv_exit_correct_witness:
  "\<exists>p v (s1 :: (ref_hart, nat, nat list) rv_st). r_state (rproc s1 0) = ZOMBIE \<and> r_xstate (rproc s1 0) = 7 \<and> rv_view ref_rext (rmach s1) 0 1 {ProcLock 0} [Some 0, None] \<and>
     rv_exit ref_rext Ret 7 (rs1 p v) = obind (Ret s1) (\<lambda>s. obind (rv_mycpu ref_rext (rmach s)) (\<lambda>_. Panic ''zombie exit''))"
proof -
  from proc0 obtain p v T t u where ok: "mem_ok ref_rext ref_free ref_ram v ((replicate 4 rp0)[0 := p]) ((\<lambda>_. undefined)(0 := (T, t, u)))"
    "p = alloced ref_rext 1 (T, t, u) rp0" "r_state p = USED" by blast
  have "r_parent p = None" "r_ofile p = replicate 16 0" "rv_initproc (rs1 p v) = None"
    using ok(2) by (simp_all add: alloced_def rp0_def rs1_def rs0_def)
  then obtain m w s1 where s1: "s1 = (rs1 p v)\<lparr>procs := exit_table 0 None 7 (procs (rs1 p v)), rmach := m, files := w\<rparr>"
    "rv_view ref_rext m 0 1 {ProcLock 0} [Some 0, None]"
    "\<forall>sw. rv_exit ref_rext sw 7 (rs1 p v) = obind (sw s1) (\<lambda>s. obind (rv_mycpu ref_rext (rmach s)) (\<lambda>_. Panic ''zombie exit''))"
    using rv_exit_correct [OF refos.rv_os_axioms, of "rs1 p v" 0 "[Some 0, None]" 0 _ 7] ok(1,3) view_rm0 [of "Some 0"] by fastforce
  have z: "r_state (rproc s1 0) = ZOMBIE" "r_xstate (rproc s1 0) = 7" by (simp_all add: s1(1) exit_table_def exited_def)
  have view: "rv_view ref_rext (rmach s1) 0 1 {ProcLock 0} [Some 0, None]" using s1(2) by (simp add: s1(1))
  show ?thesis by (rule exI [of _ p], rule exI [of _ v], rule exI [of _ s1]) (use s1(3) view z in blast)
qed

section \<open>wait\<close>

text \<open>A parent in slot 0, running on the first hart, and its child in slot 1.\<close>

definition rs2 :: "rv_proc \<Rightarrow> rv_proc \<Rightarrow> nat list vm \<Rightarrow> (ref_hart, nat, nat list) rv_st" where
  "rs2 p q v = rs0\<lparr>procs := (replicate 4 rp0)[0 := p, 1 := q], rmach := rm0 (Some 0), rvm := v\<rparr>"

lemma rs2_simps [simp]:
  "procs (rs2 p q v) = (replicate 4 rp0)[0 := p, 1 := q]" "rmach (rs2 p q v) = rm0 (Some 0)" "rvm (rs2 p q v) = v"
  by (simp_all add: rs2_def)

lemma proc2:
  "\<exists>p q v A. mem_ok ref_rext ref_free ref_ram v ((replicate 4 rp0)[0 := p, 1 := q]) A \<and>
     r_state p = RUNNING \<and> r_killed p = 0 \<and> r_state q = st \<and> r_parent q = Some 0 \<and> r_pid q = 1 \<and> r_sz p = 0 \<and> r_sz q = 0 \<and>
     r_parent p = None"
  if "st \<noteq> UNUSED"
proof -
  from proc0 obtain p v T t u where p: "mem_ok ref_rext ref_free ref_ram v ((replicate 4 rp0)[0 := p]) ((\<lambda>_. undefined)(0 := (T, t, u)))"
    "p = alloced ref_rext 1 (T, t, u) rp0" "r_state p = USED" "192 \<le> card (ref_free v)" by blast
  let ?A = "(\<lambda>_ :: nat. undefined)(0 := (T, t, u))"
  have sm: "slot_mem ref_rext ref_free ref_ram v (rproc (rs1 p v) 1) (?A 1)" by (simp add: slot_mem_def rp0_def)
  from refk.allocproc_spec [OF _ _ _ _ first_unused1 [OF p(3), of v], of 0 0 "{}" "[Some 0, None]" "?A 1" 3]
    view_rm0 [of "Some 0"] sm max_noff_pos p(4) obtain q v' a where
    q: "mem_step ref_rext ref_free ref_ram v rp0 (?A 1) v' q a" "q = alloced ref_rext 1 a rp0"
    by (fastforce simp: alloc_result_def no_proc_lock_def)
  have "mem_safe ref_rext ref_free ref_ram 1 v ((replicate 4 rp0)[0 := p]) ?A v' ((replicate 4 rp0)[0 := p, 1 := q]) (?A(1 := a))"
    using refsp.mem_step_safe [OF p(1), of 1 v' q a] q(1) by (simp add: fun_upd_apply)
  then have ok: "mem_ok ref_rext ref_free ref_ram v' ((replicate 4 rp0)[0 := p, 1 := q]) (?A(1 := a))" by (simp add: mem_safe_def)
  let ?p = "p\<lparr>r_state := RUNNING\<rparr>" and ?q = "q\<lparr>r_state := st, r_parent := Some 0\<rparr>"
  have "r_state q = USED" using q(2) by (simp add: alloced_def split: prod.splits)
  with that p(3) have same: "same_mem ((replicate 4 rp0)[0 := p, 1 := q] ! i) ((replicate 4 rp0)[0 := ?p, 1 := ?q] ! i)" if "i < 4" for i
    using that by (auto simp: same_mem_def nth_list_update)
  have "mem_ok ref_rext ref_free ref_ram v' ((replicate 4 rp0)[0 := ?p, 1 := ?q]) (?A(1 := a))"
    using same by (intro same_mem_ok(1) [OF ok]) auto
  moreover have "r_killed p = 0" "r_sz p = 0" "r_sz q = 0" "r_pid q = 1" "r_parent p = None"
    using p(2) q(2) by (auto simp: alloced_def rp0_def split: prod.splits)
  ultimately show ?thesis by (intro exI [of _ ?p] exI [of _ ?q] exI [of _ v'] exI [of _ "?A(1 := a)"]) simp
qed

text \<open>(C28) \<open>wait\<close> with a zombie child reaps the first one in the table: it copies the exit status to the user address, if one is
  given, frees all pages of the child and clears its slot, and returns its pid; if the user may not access all four bytes of
  the address it returns -1 and leaves the child a zombie. Without children, or when the caller was killed and no child is a
  zombie, it returns -1 and changes nothing. In every case no lock is left held, every process owns its pages alone, no page is
  lost, and of the other processes nothing changes but the four bytes of the status in the memory of the caller.\<close>

theorem rv_wait_correct:
  assumes "rv_kernel X free ram" and "rv_view X (rmach s) c 0 {} P" and "P ! c = Some p" and "p < length (procs s)"
    and "r_state (rproc s p) = RUNNING" and "mem_ok X free ram (rvm s) (procs s) A"
    and "statuses_outside X ram (length (procs s))" and "\<And>i. i < length (procs s) \<Longrightarrow> npages (r_sz (rproc s i)) + 3 \<le> fuel"
  shows "case find (zombie_child s p) [0..<length (procs s)] of
     Some i \<Rightarrow> (\<exists>r m v ps. rv_wait (Suc fuel) X sw addr s = Ret (r, s\<lparr>procs := ps, rmach := m, rvm := v\<rparr>) \<and>
        rv_view X m c 0 {} P \<and> reaped X free ram A i p addr (rvm s) (procs s) r v ps)
   | None \<Rightarrow> has_kids s p \<and> r_killed (rproc s p) = 0 \<or>
        (\<exists>m. rv_wait (Suc fuel) X sw addr s = Ret (- 1, s\<lparr>rmach := m\<rparr>) \<and> rv_view X m c 0 {} P)"
proof -
  from rv_kernel.wait_enter [OF assms(1-3)] obtain m0 where m0:
    "rv_wait (Suc fuel) X sw addr s = rv_wait_loop (Suc fuel) X sw p addr (s\<lparr>rmach := m0\<rparr>)" "rv_view X m0 c 1 {WaitLock} P" by blast
  from rv_kernel.wait_loop_spec [OF assms(1), where s = "s\<lparr>rmach := m0\<rparr>" and P = P and c = c and p = p and A = A and fuel = fuel
      and addr = addr and sw = sw] m0(2) assms(3-8)
  show ?thesis unfolding m0(1)
    by (cases "find (zombie_child s p) [0..<length (procs s)]") (auto split: if_splits simp del: rv_wait_loop.simps)
qed

lemma statuses_ref: "statuses_outside ref_rext ref_ram 4"
proof -
  have "pg (0x80009000 + 360 * of_nat i + of_nat k :: u64) \<notin> ref_ram" if "i < 4" "k < 4" for i k :: nat
  proof -
    have "unat (0x80009000 + 360 * of_nat i + of_nat k :: u64) = 0x80009000 + 360 * i + k"
      using that by (simp add: unat_word_ariths unat_of_nat)
    then show ?thesis by (simp add: pg_def ref_ram_def div_less_iff_less_mult)
  qed
  then show ?thesis by (simp add: statuses_outside_def ref_rext_def)
qed

theorem rv_wait_correct_witness:
  "\<exists>p q v s' A. r_state q = ZOMBIE \<and> rv_wait 4 ref_rext Ret 0 (rs2 p q v) = Ret (1, s') \<and> r_state (rproc s' 1) = UNUSED \<and>
     mem_ok ref_rext ref_free ref_ram (rvm s') (procs s') A \<and> ref_free (rvm s') = ref_free v \<union> foot ref_rext v q (A 1)"
proof -
  from proc2 [of ZOMBIE] obtain p q v A where pq: "mem_ok ref_rext ref_free ref_ram v ((replicate 4 rp0)[0 := p, 1 := q]) A"
    "r_state p = RUNNING" "r_state q = ZOMBIE" "r_parent q = Some 0" "r_pid q = 1" "r_sz p = 0" "r_sz q = 0" "r_parent p = None" by auto
  have z: "find (zombie_child (rs2 p q v) 0) [0..<length (procs (rs2 p q v))] = Some 1"
    using pq by (simp add: upt_rec)
  have sz: "npages (r_sz (rproc (rs2 p q v) i)) + 3 \<le> 3" if "i < 4" for i
    using that pq(6,7) by (simp add: nth_list_update rp0_def npages_def)
  have four: "Suc 3 = 4" by simp
  from rv_wait_correct [OF refk.rv_kernel_axioms, of "rs2 p q v" 0 "[Some 0, None]" 0 A 3 Ret 0, unfolded z four] pq view_rm0 [of "Some 0"] statuses_ref sz
  obtain r m v' ps where r: "rv_wait 4 ref_rext Ret 0 (rs2 p q v) = Ret (r, (rs2 p q v)\<lparr>procs := ps, rmach := m, rvm := v'\<rparr>)"
    "reaped ref_rext ref_free ref_ram A 1 0 0 v ((replicate 4 rp0)[0 := p, 1 := q]) r v' ps" by auto
  then have "r = 1" "ps ! 1 = cleared q" "mem_ok ref_rext ref_free ref_ram v' ps A" "ref_free v' = ref_free v \<union> foot ref_rext v q (A 1)"
    using pq(5) by (auto simp: reaped_def)
  with r(1) pq(3) show ?thesis
    by (intro exI [of _ p] exI [of _ q] exI [of _ v] exI [of _ "(rs2 p q v)\<lparr>procs := ps, rmach := m, rvm := v'\<rparr>"] exI [of _ A])
      (simp add: cleared_def)
qed

text \<open>The state in which \<open>wait\<close> comes back from the scheduler: still the caller on some hart, holding its own lock, and a
  zombie child in slot \<open>i\<close>.\<close>

definition woken_by_exit ::
    "('x, 'f, 'w) rv_ext \<Rightarrow> ('w vm \<Rightarrow> nat set) \<Rightarrow> nat set \<Rightarrow> nat \<Rightarrow> nat \<Rightarrow> nat \<Rightarrow> (nat \<Rightarrow> pages_of) \<Rightarrow> nat \<Rightarrow> nat \<Rightarrow> nat option list \<Rightarrow>
     ('x, 'f, 'w) rv_st \<Rightarrow> bool" where
  "woken_by_exit X free ram N fuel p A i c P s \<longleftrightarrow>
     length (procs s) = N \<and> rv_view X (rmach s) c 1 {ProcLock p} P \<and> P ! c = Some p \<and> r_state (rproc s p) = RUNNING \<and>
     mem_ok X free ram (rvm s) (procs s) A \<and> (\<forall>i < N. npages (r_sz (rproc s i)) + 3 \<le> fuel) \<and>
     find (zombie_child s p) [0..<N] = Some i"

text \<open>(C29) A \<open>wait\<close> with children of which none is a zombie sleeps on its own slot: at the switch it is asleep and holds only its own
  lock, so that the exit of a child, which needs \<open>wait_lock\<close>, can run and finds it asleep. When it comes back, on whatever hart,
  and a child is a zombie by then, it reaps this child and returns, holding no lock, with two rounds of the loop.\<close>

theorem rv_wait_wakes:
  assumes "rv_kernel X free ram" and "rv_view X (rmach s) c 0 {} P" and "P ! c = Some p" and "p < length (procs s)"
    and "r_state (rproc s p) = RUNNING" and "mem_ok X free ram (rvm s) (procs s) A"
    and "statuses_outside X ram (length (procs s))" and "\<And>i. i < length (procs s) \<Longrightarrow> npages (r_sz (rproc s i)) + 3 \<le> Suc fuel"
    and "find (zombie_child s p) [0..<length (procs s)] = None" and "has_kids s p" and "r_killed (rproc s p) = 0"
  shows "\<exists>m. rv_view X m c 1 {ProcLock p} P \<and>
     (\<forall>sw s2 c2 P2 A2 i. sw (asleep p (ProcChan p) s m) = Ret s2 \<longrightarrow>
       woken_by_exit X free ram (length (procs s)) fuel p A2 i c2 P2 s2 \<longrightarrow>
       (\<exists>r s3. rv_wait (Suc (Suc fuel)) X sw addr s = Ret (r, s3) \<and> rv_view X (rmach s3) c2 0 {} P2 \<and>
          reaped X free ram A2 i p addr (rvm s2) (upd_nth p (\<lambda>q. q\<lparr>r_chan := NoChan\<rparr>) (procs s2)) r (rvm s3) (procs s3)))"
proof -
  from rv_kernel.wait_sleeps [OF assms, of addr] obtain m where m: "rv_view X m c 1 {ProcLock p} P"
    "\<And>sw s2 c2 P2. sw (asleep p (ProcChan p) s m) = Ret s2 \<Longrightarrow> rv_view X (rmach s2) c2 1 {ProcLock p} P2 \<Longrightarrow>
       \<exists>m2. rv_wait (Suc (Suc fuel)) X sw addr s = rv_wait_loop (Suc fuel) X sw p addr (awake p s2 m2) \<and> rv_view X m2 c2 1 {WaitLock} P2"
    by blast
  show ?thesis
  proof (rule exI [of _ m], intro conjI allI impI)
    fix sw c2 P2 A2 i and s2 :: "('a, 'b, 'c) rv_st"
    assume sw: "sw (asleep p (ProcChan p) s m) = Ret s2" and w: "woken_by_exit X free ram (length (procs s)) fuel p A2 i c2 P2 s2"
    from m(2) [of sw, OF sw] w obtain m2 where
      m2: "rv_wait (Suc (Suc fuel)) X sw addr s = rv_wait_loop (Suc fuel) X sw p addr (awake p s2 m2)" "rv_view X m2 c2 1 {WaitLock} P2"
      unfolding woken_by_exit_def by blast
    let ?ps = "upd_nth p (\<lambda>q. q\<lparr>r_chan := NoChan\<rparr>) (procs s2)"
    have len: "length (procs s2) = length (procs s)" and run: "P2 ! c2 = Some p" "r_state (rproc s2 p) = RUNNING"
      and ok2: "mem_ok X free ram (rvm s2) (procs s2) A2" and fl: "\<And>j. j < length (procs s) \<Longrightarrow> npages (r_sz (rproc s2 j)) + 3 \<le> fuel"
      and zom: "find (zombie_child s2 p) [0..<length (procs s)] = Some i"
      using w unfolding woken_by_exit_def by blast+
    have "same_mem (procs s2 ! j) (?ps ! j)" if "j < length (procs s2)" for j using that by (simp add: same_mem_def)
    then have ok: "mem_ok X free ram (rvm s2) ?ps A2" by (intro same_mem_ok(1) [OF ok2]) simp_all
    have aw: "procs (awake p s2 m2) = ?ps" "rmach (awake p s2 m2) = m2" "rvm (awake p s2 m2) = rvm s2" by (simp_all add: awake_def)
    have "find (zombie_child (awake p s2 m2) p) [0..<length (procs s)] = find (zombie_child s2 p) [0..<length (procs s)]"
      using len by (intro find_cong) (auto simp: aw)
    then have z: "find (zombie_child (awake p s2 m2) p) [0..<length (procs (awake p s2 m2))] = Some i"
      using zom len by (simp add: aw)
    have "P2 ! c2 = Some p" "r_state (rproc (awake p s2 m2) p) = RUNNING" "p < length (procs (awake p s2 m2))"
      "statuses_outside X ram (length (procs (awake p s2 m2)))"
      "\<And>j. j < length (procs (awake p s2 m2)) \<Longrightarrow> npages (r_sz (rproc (awake p s2 m2) j)) + 3 \<le> fuel"
      using run fl assms(4,7) len by (simp_all add: aw)
    from rv_kernel.wait_loop_spec [OF assms(1), where s = "awake p s2 m2" and P = P2 and c = c2 and A = A2, OF _ this(1,3,2) _ this(4,5),
        where sw = sw and addr = addr] m2(2) ok
    obtain r m3 v ps where "rv_wait_loop (Suc fuel) X sw p addr (awake p s2 m2) = Ret (r, (awake p s2 m2)\<lparr>procs := ps, rmach := m3, rvm := v\<rparr>)"
      "rv_view X m3 c2 0 {} P2" "reaped X free ram A2 i p addr (rvm s2) ?ps r v ps"
      unfolding z by (auto simp: aw simp del: rv_wait_loop.simps)
    then show "\<exists>r s3. rv_wait (Suc (Suc fuel)) X sw addr s = Ret (r, s3) \<and> rv_view X (rmach s3) c2 0 {} P2 \<and>
        reaped X free ram A2 i p addr (rvm s2) ?ps r (rvm s3) (procs s3)"
      unfolding m2(1)
      by (intro exI [of _ r] exI [of _ "(awake p s2 m2)\<lparr>procs := ps, rmach := m3, rvm := v\<rparr>"]) (simp del: rv_wait_loop.simps)
  qed (rule m(1))
qed

text \<open>Until the parent runs again, its child exits.\<close>

definition child_exits :: "(ref_hart, nat, nat list) rv_st \<Rightarrow> (ref_hart, nat, nat list) rv_st outcome" where
  "child_exits s = Ret (rupd 0 (\<lambda>p. p\<lparr>r_state := RUNNING\<rparr>) (rupd 1 (\<lambda>q. q\<lparr>r_state := ZOMBIE, r_xstate := 7\<rparr>) s))"

theorem rv_wait_wakes_witness:
  "\<exists>p q v s'. r_state q = RUNNABLE \<and> rv_wait 5 ref_rext child_exits 0 (rs2 p q v) = Ret (1, s') \<and> r_state (rproc s' 1) = UNUSED"
proof -
  from proc2 [of RUNNABLE] obtain p q v A where pq: "mem_ok ref_rext ref_free ref_ram v ((replicate 4 rp0)[0 := p, 1 := q]) A"
    "r_state p = RUNNING" "r_killed p = 0" "r_state q = RUNNABLE" "r_parent q = Some 0" "r_pid q = 1" "r_sz p = 0" "r_sz q = 0" "r_parent p = None"
    by auto
  have four: "[0..<4] = [0, 1, 2, 3 :: nat]" by (simp add: upt_rec)
  have z: "find (zombie_child (rs2 p q v) 0) [0..<length (procs (rs2 p q v))] = None"
    using pq by (simp add: four rp0_def)
  have kids: "has_kids (rs2 p q v) 0" using pq(5) by (auto simp: has_child_def intro!: bexI [of _ 1])
  have sz: "npages (r_sz (rproc (rs2 p q v) i)) + 3 \<le> 4" if "i < 4" for i
    using that pq(7,8) by (simp add: nth_list_update rp0_def npages_def)
  from rv_wait_wakes [OF refk.rv_kernel_axioms, of "rs2 p q v" 0 "[Some 0, None]" 0 A 3 0] pq(1-3) z kids view_rm0 [of "Some 0"] statuses_ref sz
  obtain m where m: "rv_view ref_rext m 0 1 {ProcLock 0} [Some 0, None]"
    "\<And>sw s2 c2 P2 A2 i. sw (asleep 0 (ProcChan 0) (rs2 p q v) m) = Ret s2 \<Longrightarrow> woken_by_exit ref_rext ref_free ref_ram 4 3 0 A2 i c2 P2 s2 \<Longrightarrow>
       (\<exists>r s3. rv_wait 5 ref_rext sw 0 (rs2 p q v) = Ret (r, s3) \<and> rv_view ref_rext (rmach s3) c2 0 {} P2 \<and>
          reaped ref_rext ref_free ref_ram A2 i 0 0 (rvm s2) (upd_nth 0 (\<lambda>q. q\<lparr>r_chan := NoChan\<rparr>) (procs s2)) r (rvm s3) (procs s3))"
    by (auto simp del: One_nat_def)
  let ?p = "p\<lparr>r_chan := ProcChan 0, r_state := RUNNING\<rparr>" and ?q = "q\<lparr>r_state := ZOMBIE, r_xstate := 7\<rparr>"
  define s2 where "s2 = (rs2 ?p ?q v)\<lparr>rmach := m\<rparr>"
  have sw: "child_exits (asleep 0 (ProcChan 0) (rs2 p q v) m) = Ret s2"
    by (simp add: child_exits_def asleep_def s2_def rupd_def rs2_def upd_nth_def numeral_eq_Suc)
  have "same_mem ((replicate 4 rp0)[0 := p, 1 := q] ! i) ((replicate 4 rp0)[0 := ?p, 1 := ?q] ! i)" if "i < 4" for i
    using that pq(2,4) by (auto simp: same_mem_def nth_list_update)
  then have "mem_ok ref_rext ref_free ref_ram v ((replicate 4 rp0)[0 := ?p, 1 := ?q]) A" by (intro same_mem_ok(1) [OF pq(1)]) auto
  moreover have "find (zombie_child s2 0) [0..<4] = Some 1" using pq(5,9) by (simp add: four s2_def)
  moreover have "npages (r_sz (rproc s2 i)) + 3 \<le> 3" if "i < 4" for i
    using that pq(7,8) by (simp add: s2_def nth_list_update rp0_def npages_def)
  ultimately have "woken_by_exit ref_rext ref_free ref_ram 4 3 0 A 1 0 [Some 0, None] s2"
    using m(1) unfolding woken_by_exit_def by (simp add: s2_def)
  from m(2) [of child_exits, OF sw this] obtain r s3 where r: "rv_wait 5 ref_rext child_exits 0 (rs2 p q v) = Ret (r, s3)"
    "reaped ref_rext ref_free ref_ram A 1 0 0 (rvm s2) (upd_nth 0 (\<lambda>q. q\<lparr>r_chan := NoChan\<rparr>) (procs s2)) r (rvm s3) (procs s3)" by blast
  then have "r = 1 \<and> rproc s3 1 = cleared ?q" using pq(6) by (auto simp: reaped_def s2_def)
  with r(1) pq(4) show ?thesis
    by (intro exI [of _ p] exI [of _ q] exI [of _ v] exI [of _ s3]) (simp add: cleared_def)
qed

section \<open>Two weaknesses\<close>

text \<open>
  An unused slot has the pid 0, so \<open>kill\<close> with pid 0 finds it, and as \<open>allocproc\<close> does not clear the mark, the next
  process in that slot is killed from birth.
\<close>

theorem kill_zero_marks_next_process:
  assumes "rv_kernel X free ram" and "mem_ok X free ram (rvm s) (procs s) A" and "rv_view X (rmach s) c n H P"
    and "no_proc_lock H" and "PidLock \<notin> H" and "Suc n < max_noff" and "3 \<le> fuel" and "5 \<le> card (free (rvm s))"
    and "find (\<lambda>i. r_pid (rproc s i) = 0) [0..<length (procs s)] = Some i"
    and "find (\<lambda>i. r_state (rproc s i) = UNUSED) [0..<length (procs s)] = Some i"
  shows "\<exists>s1 s2. rv_kill X 0 s = Ret (0, s1) \<and> rv_allocproc fuel X s1 = Ret (Some i, s2) \<and> r_killed (rproc s2 i) = 1"
proof -
  have "n < max_noff" using assms(6) by simp
  moreover have "set [0..<length (procs s)] \<subseteq> {..<length (procs s)}" by auto
  ultimately obtain m where
    m: "rv_kill X 0 s = Ret (0, (rupd i kill_mark s)\<lparr>rmach := m\<rparr>)" "rv_view X m c n H P"
    using rv_lock_laws.kill_loop_spec [OF rv_kernel.axioms(1) [OF assms(1)] assms(3,4), of "[0..<length (procs s)]" 0] assms(9)
    by (auto simp: rv_kill_def)
  have i: "i < length (procs s)" "r_state (rproc s i) = UNUSED" using assms(10) by (auto simp: find_Some_iff)
  define s1 where "s1 = (rupd i kill_mark s)\<lparr>rmach := m\<rparr>"
  have ps: "procs s1 = (procs s)[i := kill_mark (rproc s i)]" by (simp add: s1_def upd_nth_def)
  have st: "r_state (rproc s1 j) = UNUSED \<longleftrightarrow> r_state (rproc s j) = UNUSED" if "j < length (procs s)" for j
    using i that by (cases "j = i") (simp_all add: ps kill_mark_def)
  have first: "find (\<lambda>i. r_state (rproc s1 i) = UNUSED) [0..<length (procs s1)] = Some i"
    unfolding assms(10) [symmetric] by (rule find_cong) (use st in \<open>auto simp: s1_def\<close>)
  have "slot_mem X free ram (rvm s1) (rproc s1 i) (A i)"
    using mem_okD(1) [OF assms(2) i(1)] i by (simp add: slot_mem_def ps kill_mark_def)
  from rv_kernel.allocproc_spec [OF assms(1) _ assms(4-6) first this assms(7), of c P] m(2) assms(8) obtain r p' a m' v where
    "rv_allocproc fuel X s1 = Ret (r, alloc_st s1 i m' p' v)" "r = Some i" "p' = alloced X (rv_nextpid s1) a (rproc s1 i)"
    by (auto simp: alloc_result_def s1_def)
  moreover have "r_killed (rproc s1 i) = 1" using i by (simp add: ps kill_mark_def)
  ultimately show ?thesis
    using m(1) i(1) unfolding s1_def [symmetric]
    by (intro exI [of _ s1] exI [of _ "alloc_st s1 i m' p' v"]) (auto simp: alloced_def alloc_st_def ps split: prod.splits)
qed

context rv_kernel
begin

lemma pid_page_written:
  assumes hm: "has_mem X free ram v p (T, t, u)" and nz: "r_pagetable p \<noteq> 0" "r_usyscall p \<noteq> 0"
    and src: "\<And>i. i < 4 \<Longrightarrow> pg (src + of_nat i) \<notin> foot X v p (T, t, u)" and fuel: "2 \<le> fuel"
  shows "pte (VE X) (mem v) T (USYSCALL X) AND PTE_W (VE X) = 0 \<and>
    (\<exists>m. copyout fuel (VE X) (r_pagetable p) (USYSCALL X) src 4 v = Ret (0, v\<lparr>mem := m\<rparr>) \<and>
       (\<forall>i < 4. m (r_usyscall p + of_nat i) = mem v (src + of_nat i)))"
proof -
  note D = has_memD [OF hm]
  note S = proc_spaceD [OF D(4) [OF nz(1)]]
  note U = proc_user_space [OF hm nz]
  have us: "USYSCALL X = adr v_usys 0" by (rule layout(3))
  have u: "frame u" "r_usyscall p = adr u 0" using D(2) nz(2) S(6) by auto
  have "pte (VE X) (mem v) T (USYSCALL X) = mkpte (VE X) u 18" using S(7) by (simp add: top_pages_def us)
  moreover have "\<not> bit (mkpte (VE X) u 18) 2" by (simp add: bit_mkpte [OF u(1)])
  ultimately have ro: "pte (VE X) (mem v) T (USYSCALL X) AND PTE_W (VE X) = 0"
    using and_exp_eq_0_iff_not_bit [of "mkpte (VE X) u 18" 2] by (simp add: PTE_W_eq)
  define d where "d = 4096 * v_usys"
  have d: "(of_nat d :: u64) = USYSCALL X" "d < 2 ^ 64" "d mod 4096 = 0" "d div 4096 = v_usys"
    by (simp_all add: us d_def adr_def v_usys_def)
  have "pages d 4 < fuel" using fuel d(3) by (simp add: pages_def)
  moreover have "pg (src + of_nat i) \<notin> fr (VE X) v T ` Collect (uacc (VE X) (mem v) T)" if "i < 4" for i
    using src [OF that] U(2) nz by (auto simp: foot_eq pt_pages_def page_at_def)
  ultimately obtain k m where k: "copyout fuel (VE X) (root T) (of_nat d) src (of_nat 4) v = Ret (if k = 4 then 0 else - 1, v\<lparr>mem := m\<rparr>)"
    "copy_extent (VE X) (mem v) T d 4 k" "\<forall>i < k. m (ua (VE X) (mem v) T (d + i)) = mem v (src + of_nat i)"
    using copyout_spec [OF U(1) d(2), of 4 fuel src] by auto
  have page: "(d + i) div 4096 = v_usys" "(d + i) mod 4096 = i" if "i < 4" for i using that d_def by simp_all
  have "k = 4"
  proof (rule ccontr)
    assume "k \<noteq> 4"
    then have "k < 4" "\<not> uacc (VE X) (mem v) T ((d + k) div 4096)" using k(2) by (auto simp: copy_extent_def)
    with page(1) U(3) show False by simp
  qed
  moreover have "ua (VE X) (mem v) T (d + i) = r_usyscall p + of_nat i" if "i < 4" for i
    using page [OF that] U(4) by (simp add: ua_def u(2) adr_add)
  ultimately show ?thesis using k(1,3) ro d(1) D(3) nz(1) by (intro conjI exI [of _ m]) auto
qed

end

text \<open>
  The page with the pid is mapped without the permission to write, but \<open>copyout\<close> only asks whether the user may access a page,
  so a system call that stores its result at \<open>USYSCALL\<close> changes the pid that user space reads.
\<close>

theorem copyout_writes_pid_page:
  assumes "rv_kernel X free ram" and "has_mem X free ram v p (T, t, u)" and "r_pagetable p \<noteq> 0" and "r_usyscall p \<noteq> 0"
    and "\<And>i. i < 4 \<Longrightarrow> pg (src + of_nat i) \<notin> foot X v p (T, t, u)" and "2 \<le> fuel"
  shows "pte (VE X) (mem v) T (USYSCALL X) AND PTE_W (VE X) = 0 \<and>
    (\<exists>m. copyout fuel (VE X) (r_pagetable p) (USYSCALL X) src 4 v = Ret (0, v\<lparr>mem := m\<rparr>) \<and>
       (\<forall>i < 4. m (r_usyscall p + of_nat i) = mem v (src + of_nat i)))"
  using rv_kernel.pid_page_written [OF assms] .

end
