(* ===== verification/Rv_Run.thy ===== *)
theory Rv_Run
  imports Rv_Stack Rv_Life
begin

text \<open>
  \<open>exec\<close> as a whole: it builds the new address space and the stack, and then either replaces the one of the process or gives
  everything back.
\<close>

section \<open>States of exec\<close>

definition est :: "('x, 'f, 'w) rv_st \<Rightarrow> 'x rv_mach \<Rightarrow> 'f \<Rightarrow> 'w vm \<Rightarrow> ('x, 'f, 'w) rv_st" where
  "est s m w v = s\<lparr>rmach := m, files := w, rvm := v\<rparr>"

lemma est_simps [simp]:
  "procs (est s m w v) = procs s" "rmach (est s m w v) = m" "files (est s m w v) = w" "rvm (est s m w v) = v"
  "(est s m w v)\<lparr>rmach := m'\<rparr> = est s m' w v" "(est s m w v)\<lparr>files := w'\<rparr> = est s m w' v"
  "(est s m w v)\<lparr>rvm := v'\<rparr> = est s m w v'" "(est s m w v)\<lparr>files := w', rvm := v'\<rparr> = est s m w' v'"
  by (simp_all add: est_def)

lemma est_self: "s\<lparr>rmach := m\<rparr> = est s m (files s) (rvm s)"
  by (simp add: est_def)

lemma rupd_est: "rupd i f (est s m w v) = est (rupd i f s) m w v"
  by (simp add: rupd_def est_def)

lemma wr64_est: "wr64 a x (est s m w v) = est s m w (on_mem (write64 a x) v)"
  by (simp add: wr64_def est_def)

text \<open>The start of \<open>exec\<close>: the file that is found, locked.\<close>

definition exec_file :: "('x, 'f, 'w) rv_ext \<Rightarrow> 'f exec_ext \<Rightarrow> string \<Rightarrow> 'f \<Rightarrow> (addr64 \<times> 'f) outcome" where
  "exec_file X Y path w =
     obind (begin_op X w) (\<lambda>w. obind (namei X path w) (\<lambda>(ip, w).
     if ip = 0 then Ret (0, w) else obind (ilock Y ip w) (\<lambda>w. Ret (ip, w))))"

text \<open>The program in a file: its entry point, size and image.\<close>

definition exec_program :: "'f exec_ext \<Rightarrow> u8 list \<Rightarrow> (u64 \<times> u64 \<times> uimage) option" where
  "exec_program Y d =
     (let bs = file_read d 0 (sizeof_elfhdr Y); elf = elf_of Y bs in
      if length bs \<noteq> unat (sizeof_elfhdr Y) \<or> e_magic elf \<noteq> ELF_MAGIC Y then None
      else map_option (\<lambda>(sz, img). (e_entry elf, sz, img))
             (load_image Y d (unat (e_phnum elf)) (ucast (e_phoff elf)) (0, \<lambda>_. 0)))"

section \<open>Printing\<close>

lemma vmprint_returns:
  "1 \<le> level \<and> level \<le> 3 \<Longrightarrow> \<exists>ls. vmprint E pt level m = Ret ls"
  "1 \<le> level \<and> level \<le> 3 \<Longrightarrow> \<exists>ls. vmprint_entries E pt level is m = Ret ls"
proof (induction E pt level m and E pt level "is" m rule: vmprint_vmprint_entries.induct)
  case (1 E pt level m)
  then show ?case by auto
next
  case (3 E pt level i "is" m)
  define e where "e = read64 m (pt + 8 * of_nat i)"
  show ?case
  proof (cases "e AND PTE_V E = 0")
    case True
    with 3 show ?thesis by (simp add: Let_def flip: e_def)
  next
    case False
    obtain sub where sub: "(if level \<noteq> 3 then vmprint E (PTE2PA E e) (level + 1) m else Ret []) = Ret sub"
    proof (cases "level = 3")
      case lvl: False
      with 3(4) have l: "\<not> (level < 1 \<or> 3 < level)" "1 \<le> level + 1 \<and> level + 1 \<le> 3" by auto
      from 3(1) [OF e_def False refl l(1) lvl l(2)] lvl show ?thesis by (auto intro: that)
    qed (auto intro: that)
    obtain ls where ls: "vmprint_entries E pt level is m = Ret ls"
      using 3(2) [OF e_def False refl] 3(4) sub by auto
    from 3(4) have "\<not> (level < 1 \<or> 3 < level)" by simp
    with sub ls False show ?thesis by (simp add: Let_def flip: e_def del: vmprint.simps)
  qed
qed simp_all

section \<open>Both ends of exec\<close>

context exec_env
begin

lemma exec_bad_file:
  "ip \<noteq> 0 \<Longrightarrow> \<exists>w'. exec_bad fuel X Y 0 sz ip (est s m w v) = Ret (- 1, [], est s m w' v)"
proof -
  assume ip: "ip \<noteq> 0"
  obtain w1 where w1: "iunlockput Y ip w = Ret w1" using iunlockput_law by blast
  obtain w2 where w2: "end_op X w1 = Ret w2" using end_op_law by blast
  show ?thesis using ip w1 w2 by (intro exI [of _ w2]) (simp add: exec_bad_def on_files_def)
qed

lemma exec_bad_image:
  assumes im: "new_image X free ram K p v0 (T, t, u) v sz img" and fuel: "npages sz + 3 \<le> fuel"
  shows "\<exists>w' v'. exec_bad fuel X Y (root T) sz ip (est s m w v) = Ret (- 1, [], est s m w' v') \<and> free v' = free v0 \<and>
     (\<forall>x. pg x \<notin> free v0 \<union> K \<longrightarrow> mem v' x = mem v0 x)"
proof -
  note I = new_imageD [OF im]
  from image_free [OF im refl proc_spaceD(4) [OF I(8)] fuel] obtain v' where
    v': "proc_freepagetable fuel X (root T) sz v = Ret v'" "free v' = free v0" "\<forall>x. pg x \<notin> free v0 \<union> K \<longrightarrow> mem v' x = mem v0 x" by blast
  obtain w1 where w1: "iunlockput Y ip w = Ret w1" using iunlockput_law by blast
  obtain w2 where w2: "end_op X w1 = Ret w2" using end_op_law by blast
  have "exec_bad fuel X Y (root T) sz ip (est s m w v) = Ret (- 1, [], est s m (if ip \<noteq> 0 then w2 else w) v')"
    using v'(1) w1 w2 I(7) by (simp add: exec_bad_def on_vm_def on_files_def)
  with v'(2,3) show ?thesis by blast
qed

end

section \<open>What the other processes see\<close>

context proc_layout
begin

lemma mem_ok_apart:
  assumes ok: "mem_ok X free ram v ps A" and mem: "\<And>x. pg x \<in> owned X v ps A \<Longrightarrow> mem v' x = mem v x"
    and fr: "owned X v ps A \<inter> free v' = {}"
  shows "mem_ok X free ram v' ps A" and "owned X v' ps A = owned X v ps A"
    and "\<And>i. i < length ps \<Longrightarrow> foot X v' (ps ! i) (A i) = foot X v (ps ! i) (A i)"
proof -
  have sub: "foot X v (ps ! i) (A i) \<subseteq> owned X v ps A" if "i < length ps" for i using that by (auto simp: owned_def)
  have s: "slot_mem X free ram v' (ps ! i) (A i)" "foot X v' (ps ! i) (A i) = foot X v (ps ! i) (A i)" if "i < length ps" for i
    using sub [OF that] mem fr by (intro slot_mem_frame [OF mem_okD(1) [OF ok that]]; blast)+
  then show "\<And>i. i < length ps \<Longrightarrow> foot X v' (ps ! i) (A i) = foot X v (ps ! i) (A i)" by blast
  from s ok show "mem_ok X free ram v' ps A" "owned X v' ps A = owned X v ps A"
    by (simp_all add: mem_ok_def owned_def)
qed

text \<open>A step that also writes to pages that nobody owns.\<close>

lemma mem_safe_apart:
  assumes ok: "mem_ok X free ram v ps A" and i: "i < length ps" and K: "K \<inter> (free v \<union> owned X v ps A) = {}"
    and sm: "slot_mem X free ram v' p' a'" and fr: "free v' \<union> foot X v' p' a' = free v \<union> foot X v (ps ! i) (A i)"
    and out: "\<And>x. pg x \<notin> free v \<union> foot X v (ps ! i) (A i) \<union> K \<Longrightarrow> mem v' x = mem v x"
  shows "mem_safe X free ram i v ps A v' (ps[i := p']) (A(i := a'))"
proof -
  define v1 where "v1 = v\<lparr>mem := \<lambda>x. if pg x \<in> K then mem v' x else mem v x\<rparr>"
  have "mem v1 x = mem v x" if "pg x \<in> free v" for x using that K by (auto simp: v1_def)
  then have f1: "free v1 = free v" using free_other [of v "mem v1"] by (simp add: v1_def)
  have own: "owned X v ps A \<inter> free v = {}" using foot_owned [OF mem_okD(1) [OF ok]] by (fastforce simp: owned_def)
  have keep: "mem v1 x = mem v x" if "pg x \<in> owned X v ps A" for x using that K by (auto simp: v1_def)
  note ap = mem_ok_apart [OF ok keep own [folded f1]]
  have "mem_step X free ram v1 (ps ! i) (A i) v' p' a'"
    unfolding mem_step_def using sm fr ap(3) i f1 out by (auto simp: v1_def)
  note safe = mem_step_safe [OF ap(1) i this]
  have "others_kept X A i v1 ps v' (ps[i := p'])" using safe by (simp add: mem_safe_def)
  moreover have "mem v1 x = mem v x" if "j < length ps" "pg x \<in> foot X v (ps ! j) (A j)" for j x
    using that by (intro keep) (auto simp: owned_def)
  ultimately have "others_kept X A i v ps v' (ps[i := p'])" using ap(3) by (simp add: others_kept_def)
  with safe show ?thesis using ap(2) f1 by (simp add: mem_safe_def)
qed

end

section \<open>Commitment\<close>

text \<open>The trap frame that \<open>exec\<close> leaves: entry point, stack pointer and the address of the argument vector.\<close>

definition exec_frame :: "addr64 \<Rightarrow> u64 \<Rightarrow> u64 \<Rightarrow> bytes \<Rightarrow> bytes" where
  "exec_frame a sp e m = write64 (a + tf_sp) sp (write64 (a + tf_epc) e (write64 (a + tf_a1) sp m))"

definition exec_proc :: "('x, 'f, 'w) rv_ext \<Rightarrow> string \<Rightarrow> addr64 \<Rightarrow> u64 \<Rightarrow> rv_proc \<Rightarrow> rv_proc" where
  "exec_proc X path pt sz p = p\<lparr>r_name := safestrcpy X (last_component path path) 16, r_pagetable := pt, r_sz := sz\<rparr>"

lemma exec_frame_words:
  assumes t: "frame t"
  shows "read64 (exec_frame (adr t 0) sp e m) (adr t 0 + tf_sp) = sp" and "read64 (exec_frame (adr t 0) sp e m) (adr t 0 + tf_epc) = e"
    and "read64 (exec_frame (adr t 0) sp e m) (adr t 0 + tf_a1) = sp"
    and "\<And>j. j < 512 \<Longrightarrow> j \<notin> {3, 6, 15} \<Longrightarrow> read64 (exec_frame (adr t 0) sp e m) (adr t (8 * j)) = read64 m (adr t (8 * j))"
    and "\<And>x. pg x \<noteq> t \<Longrightarrow> exec_frame (adr t 0) sp e m x = m x"
proof -
  have a: "adr t 0 + tf_sp = adr t (8 * 6)" "adr t 0 + tf_epc = adr t (8 * 3)" "adr t 0 + tf_a1 = adr t (8 * 15)"
    by (simp_all add: tf_sp_def tf_epc_def tf_a1_def adr_def)
  note ot = read64_write64_other [OF t _ t]
  show "read64 (exec_frame (adr t 0) sp e m) (adr t 0 + tf_sp) = sp" "read64 (exec_frame (adr t 0) sp e m) (adr t 0 + tf_epc) = e"
    "read64 (exec_frame (adr t 0) sp e m) (adr t 0 + tf_a1) = sp"
    unfolding exec_frame_def a by (simp_all add: read64_write64 ot del: mult_numeral_1_right num_double semiring_norm)
  show "read64 (exec_frame (adr t 0) sp e m) (adr t (8 * j)) = read64 m (adr t (8 * j))" if "j < 512" "j \<notin> {3, 6, 15}" for j
  proof -
    have "read64 (write64 (adr t (8 * i)) v m') (adr t (8 * j)) = read64 m' (adr t (8 * j))" if "i \<in> {3, 6, 15}" for i v m'
      using that \<open>j < 512\<close> \<open>j \<notin> {3, 6, 15}\<close> by (intro ot) auto
    from this [of 3] this [of 6] this [of 15] show ?thesis by (simp add: exec_frame_def a)
  qed
  have w: "write64 (adr t (8 * i)) v m' x = m' x" if "pg x \<noteq> t" "i < 512" for x i v m'
    using in_run(1) [OF t, of "8 * i" 8 x] that by (auto simp: write64_def)
  show "exec_frame (adr t 0) sp e m x = m x" if "pg x \<noteq> t" for x
    using that w [of x 3] w [of x 6] w [of x 15] by (simp add: exec_frame_def a)
qed

context exec_env
begin

lemma exec_commit_spec:
  assumes old: "has_mem X free ram v0 p (T0, t, u)" "r_pagetable p \<noteq> 0" and im: "new_image X free ram K p v0 (T, t, u) v sz img"
    and K: "K \<inter> foot X v0 p (T0, t, u) = {}" and fuel: "npages (r_sz p) + 3 \<le> fuel" and i: "i < length (procs s)" "rproc s i = p"
    and p': "p' = exec_proc X path (root T) sz p"
  shows "\<exists>out v'. exec_commit fuel X path i (root T) sz (r_sz p) sp e argc (est s m w v) =
       Ret (of_nat argc, out, est (s\<lparr>procs := (procs s)[i := p']\<rparr>) m w v') \<and>
     has_mem X free ram v' p' (T, t, u) \<and> free v' \<union> foot X v' p' (T, t, u) = free v0 \<union> foot X v0 p (T0, t, u) \<and>
     (\<forall>x. pg x \<notin> free v0 \<union> foot X v0 p (T0, t, u) \<union> K \<longrightarrow> mem v' x = mem v0 x) \<and>
     (\<forall>va. pte (VE X) (mem v') T va = pte (VE X) (mem v) T va) \<and> (\<forall>n < 4096 * npages sz. mem v' (ua (VE X) (mem v') T n) = img n) \<and>
     (\<forall>x. pg x = t \<longrightarrow> mem v' x = exec_frame (adr t 0) sp e (mem v0) x) \<and> (\<forall>x. pg x = u \<longrightarrow> mem v' x = mem v0 x)"
proof -
  note I = new_imageD [OF im] and P = image_pages [OF im] and O = has_memD [OF old(1)]
  let ?E = "VE X"
  have nz: "r_trapframe p \<noteq> 0" "r_usyscall p \<noteq> 0"
    using I(1,2,5,6) adr_nonzero [of t 0] adr_nonzero [of u 0] free_frame by auto
  have ft: "frame t" using I(1) free_frame by auto
  define G0 where "G0 = ran T0 \<union> fr ?E v0 T0 ` {..<npages (r_sz p)}"
  define G where "G = ran T \<union> fr ?E v T ` {..<npages sz}"
  have foot0: "foot X v0 p (T0, t, u) = G0 \<union> {t, u}" using old(2) nz by (auto simp: foot_eq pt_pages_def page_at_def G0_def)
  have dis: "G0 \<inter> (free v0 \<union> K \<union> {t, u}) = {}"
    using O(5-7) K nz old(2) by (auto simp: foot0 page_at_def pt_pages_def G0_def)
  have G: "free v \<union> G = free v0" "G \<inter> free v = {}" using I(9) P(2) by (auto simp: G_def)
  note w = exec_frame_words [OF ft]
  define v1 where "v1 = v\<lparr>mem := exec_frame (adr t 0) sp e (mem v)\<rparr>"
  have m1: "mem v1 x = mem v x" if "pg x \<noteq> t" for x using w(5) [OF that] by (simp add: v1_def)
  have "mem v1 x = mem v x" if "pg x \<in> free v" for x using that G(1) I(1) by (intro m1) auto
  then have f1: "free v1 = free v" using free_other [of v "mem v1"] by (simp add: v1_def)
  have ps0: "proc_space X free ram v1 T0 (r_sz p) t u" "fr ?E v1 T0 ` {..<npages (r_sz p)} = fr ?E v0 T0 ` {..<npages (r_sz p)}"
  proof -
    have "mem v1 x = mem v0 x" if "pg x \<in> ran T0" for x
    proof -
      have "pg x \<in> G0" using that by (simp add: G0_def)
      then have "pg x \<noteq> t" "pg x \<notin> free v0 \<union> K" using dis by auto
      then show ?thesis using m1 I(10) by simp
    qed
    moreover have "(ran T0 \<union> fr ?E v0 T0 ` {..<npages (r_sz p)}) \<inter> free v1 = {}"
      using dis f1 G(1) by (auto simp: G0_def)
    ultimately have f: "proc_space X free ram v1 T0 (r_sz p) t u" "\<And>va. pte ?E (mem v1) T0 va = pte ?E (mem v0) T0 va"
      by (intro proc_space_frame [OF O(4) [OF old(2)]]; blast)+
    then show "proc_space X free ram v1 T0 (r_sz p) t u" by blast
    show "fr ?E v1 T0 ` {..<npages (r_sz p)} = fr ?E v0 T0 ` {..<npages (r_sz p)}" by (simp add: f(2))
  qed
  from proc_freepagetable_spec [OF ps0(1) fuel] obtain v2 where
    v2: "proc_freepagetable fuel X (root T0) (r_sz p) v1 = Ret v2" "free v2 = free v \<union> G0"
      "\<forall>x. pg x \<notin> free v \<union> G0 \<longrightarrow> mem v2 x = mem v1 x" unfolding ps0(2) f1 by (auto simp: G0_def Un_assoc)
  have keep: "mem v2 x = mem v x" if "pg x \<notin> free v \<union> G0 \<union> {t}" for x using that v2(3) m1 by simp
  have GT: "G \<inter> (free v \<union> G0 \<union> {t}) = {}" using G dis I(1) by auto
  have "mem v2 x = mem v x" if "pg x \<in> ran T" for x using that GT by (intro keep) (auto simp: G_def)
  moreover have "(ran T \<union> fr ?E v T ` {..<npages sz}) \<inter> free v2 = {}" using GT v2(2) by (auto simp: G_def)
  ultimately have ps: "proc_space X free ram v2 T sz t u" and pte: "\<And>va. pte ?E (mem v2) T va = pte ?E (mem v) T va"
    by (intro proc_space_frame [OF I(8)]; blast)+
  have nr: "r_pagetable p' = root T" "r_sz p' = sz" "r_trapframe p' = r_trapframe p" "r_usyscall p' = r_usyscall p" "r_pid p' = r_pid p"
    by (simp_all add: p' exec_proc_def)
  have foot: "foot X v2 p' (T, t, u) = G \<union> {t, u}"
    using I(7) nz by (auto simp: foot_eq pt_pages_def page_at_def G_def nr pte)
  have ua: "ua ?E (mem v2) T = ua ?E (mem v) T" using pte by (rule ua_same)
  have "mem v2 (ua ?E (mem v2) T n) = img n" if n: "n < 4096 * npages sz" for n
  proof -
    have "n div 4096 < npages sz" using n by (simp add: div_less_iff_less_mult mult.commute)
    then have "pg (ua ?E (mem v) T n) \<in> G" using P(5) [OF n] by (auto simp: G_def)
    then show ?thesis using keep [of "ua ?E (mem v) T n"] GT I(11) [OF n] by (auto simp: ua)
  qed
  moreover have "has_mem X free ram v2 p' (T, t, u)"
  proof -
    have "G \<union> {t, u} \<subseteq> ram - free v2" using I(1,2) P(7) GT v2(2) G dis unfolding has_mem_def by (auto simp: G_def foot_eq pt_pages_def I(7))
    moreover have "{t, u} \<inter> G = {}" using G I(1,2) by auto
    ultimately show ?thesis
      using I(3,5-7) nz ps foot unfolding has_mem_def by (auto simp: nr pt_pages_def page_at_def G_def pte)
  qed
  moreover have "free v2 \<union> foot X v2 p' (T, t, u) = free v0 \<union> foot X v0 p (T0, t, u)"
    using G(1) v2(2) by (auto simp: foot foot0)
  moreover have "mem v2 x = mem v0 x" if "pg x \<notin> free v0 \<union> foot X v0 p (T0, t, u) \<union> K" for x
    using that keep [of x] I(10) [of x] G(1) by (auto simp: foot0)
  moreover have "mem v2 x = exec_frame (adr t 0) sp e (mem v0) x" if "pg x = t" for x
  proof -
    have "mem v2 x = mem v1 x" using v2(3) that G(1) dis I(1) by auto
    moreover have "mem v y = mem v0 y" if "pg y = t" for y using that I(1) by (intro I(10)) auto
    ultimately show ?thesis using that by (simp add: v1_def exec_frame_def write64_def)
  qed
  moreover have "mem v2 x = mem v0 x" if "pg x = u" for x using that I(2,3,10) keep [of x] G(1) dis by auto
  moreover obtain out where out: "(if r_pid p = 1 then vmprint ?E (root T) 1 (mem v2) else Ret []) = Ret out"
    using vmprint_returns(1) [of 1 ?E "root T" "mem v2"] by (cases "r_pid p = 1") auto
  moreover have "exec_commit fuel X path i (root T) sz (r_sz p) sp e argc (est s m w v) =
      Ret (of_nat argc, out, est (s\<lparr>procs := (procs s)[i := p']\<rparr>) m w v2)"
  proof -
    define s1 where "s1 = rupd i (\<lambda>q. q\<lparr>r_name := safestrcpy X (last_component path path) 16\<rparr>) s"
    define s2 where "s2 = rupd i (\<lambda>q. q\<lparr>r_pagetable := root T, r_sz := sz\<rparr>) s1"
    have p1: "rproc s1 i = p\<lparr>r_name := safestrcpy X (last_component path path) 16\<rparr>" using i by (simp add: s1_def)
    then have p2: "rproc s2 i = p'" using i by (simp add: s2_def p' exec_proc_def) (simp add: s1_def)
    have s2: "s2 = s\<lparr>procs := (procs s)[i := p']\<rparr>"
      using i by (simp add: s2_def s1_def rupd_def upd_nth_def p' exec_proc_def)
    have mv: "v\<lparr>mem := write64 (adr t 0 + tf_sp) sp (write64 (adr t 0 + tf_epc) e (write64 (adr t 0 + tf_a1) sp (mem v)))\<rparr> = v1"
      by (simp add: v1_def exec_frame_def)
    have free: "on_vm (proc_freepagetable fuel X (root T0) (r_sz p)) (est s2 m w v1) = Ret (est s2 m w v2)"
      using v2(1) by (simp add: on_vm_def)
    have "r_pagetable p = root T0" using O(3) old(2) by blast
    then show ?thesis
      using free out I(5) by (cases "r_pid p = 1") (simp_all add: exec_commit_def Let_def wr64_est rupd_est i s1_def [symmetric] p1 s2_def [symmetric] p2 nr mv s2 [symmetric]
          del: rupd_simps(1) vmprint.simps)
  qed
  ultimately show ?thesis using pte by (intro exI [of _ out] exI [of _ v2]) simp
qed

end

section \<open>The arguments in the new memory\<close>

definition args_in :: "uimage \<Rightarrow> nat \<Rightarrow> u8 list list \<Rightarrow> bool" where
  "args_in img hi bss \<longleftrightarrow>
     (\<forall>i < length bss. \<forall>k \<le> length (bss ! i). img (arg_addrs hi bss ! i + k) = (bss ! i @ [0]) ! k) \<and>
     (\<forall>j < 8 * (length bss + 1). img (argv_addr hi bss + j) = word_bytes (map of_nat (arg_addrs hi bss) @ [0]) ! j)"

lemma arg_addrs_Cons:
  assumes "q = arg_place sp (length b + 1)"
  shows "arg_addrs sp (b # bs) = q # arg_addrs q bs" and "q \<le> sp" and "0 < q \<Longrightarrow> q + length b + 1 \<le> sp"
proof -
  show "arg_addrs sp (b # bs) = q # arg_addrs q bs" by (simp add: Let_def assms)
  show "q \<le> sp" using arg_place_le(1) [of sp "length b + 1"] by (simp add: assms)
  show "q + length b + 1 \<le> sp" if "0 < q"
  proof -
    have "length b + 1 \<le> sp" using that arg_place_le(1) [of sp "length b + 1"] by (simp add: assms)
    then show ?thesis using arg_place_le(2) [of "length b + 1" sp] by (simp add: assms)
  qed
qed

lemma last_arg_le: "a \<in> set (sp # arg_addrs sp bs) \<Longrightarrow> last (sp # arg_addrs sp bs) \<le> a"
proof (induction bs arbitrary: sp a)
  case (Cons b bs)
  define q where "q = arg_place sp (length b + 1)"
  note q = arg_addrs_Cons(1,2) [OF q_def]
  have "last (q # arg_addrs q bs) \<le> c" if "c \<in> set (q # arg_addrs q bs)" for c using Cons.IH [OF that] .
  moreover from this [of q] have "last (q # arg_addrs q bs) \<le> sp" using q(2) by simp
  ultimately show ?case using Cons.prems unfolding q(1) by auto
qed simp

lemma put_args_outside:
  assumes "\<forall>a \<in> set (arg_addrs sp bs). lo \<le> a" and "0 < lo" and "n < lo \<or> sp \<le> n"
  shows "put_args (arg_addrs sp bs) bs img n = img n"
  using assms(1,3)
proof (induction bs arbitrary: sp img)
  case (Cons b bs)
  define q where "q = arg_place sp (length b + 1)"
  note q = arg_addrs_Cons(1) [OF q_def, of bs] arg_addrs_Cons(2,3) [OF q_def]
  have lq: "lo \<le> q" using Cons.prems(1) by (simp add: q(1) del: arg_addrs.simps)
  then have out: "n < q \<or> q + length (b @ [0]) \<le> n" using q(3) Cons.prems(2) assms(2) by auto
  have "put_args (arg_addrs q bs) bs (put_bytes q (b @ [0]) img) n = put_bytes q (b @ [0]) img n"
    using Cons.prems lq q(2) by (intro Cons.IH) (auto simp: q(1) simp del: arg_addrs.simps)
  then show ?case using put_bytes_other [OF out] by (simp add: q(1) del: arg_addrs.simps)
qed simp

lemma put_args_string:
  assumes "\<forall>a \<in> set (arg_addrs sp bs). 0 < a" and "i < length bs" and "k \<le> length (bs ! i)"
  shows "put_args (arg_addrs sp bs) bs img (arg_addrs sp bs ! i + k) = (bs ! i @ [0]) ! k"
  using assms
proof (induction bs arbitrary: sp img i)
  case (Cons b bs)
  define q where "q = arg_place sp (length b + 1)"
  note q = arg_addrs_Cons(1) [OF q_def, of bs]
  show ?case
  proof (cases i)
    case 0
    have "put_args (arg_addrs q bs) bs (put_bytes q (b @ [0]) img) (q + k) = put_bytes q (b @ [0]) img (q + k)"
      using Cons.prems(1) by (intro put_args_outside [where lo = 1]) (auto simp: q Suc_le_eq simp del: arg_addrs.simps)
    then show ?thesis using 0 Cons.prems(3) put_bytes_at [of k "b @ [0]" q img] by (simp add: q del: arg_addrs.simps)
  next
    case (Suc j)
    with Cons.IH [of q j "put_bytes q (b @ [0]) img"] Cons.prems show ?thesis by (simp add: q del: arg_addrs.simps)
  qed
qed simp

lemma length_word_bytes [simp]: "length (word_bytes ws) = 8 * length ws"
  by (simp add: word_bytes_def)

lemma argv_below:
  assumes "args_fit hi bss" and "4096 < hi"
  shows "argv_addr hi bss + 8 * (length bss + 1) \<le> last (hi # arg_addrs hi bss)"
proof -
  define l where "l = last (hi # arg_addrs hi bss)"
  have "hi - 4096 \<le> arg_place l (8 * (length bss + 1))" using assms(1) by (simp add: args_fit_def argv_addr_def l_def)
  then have "8 * (length bss + 1) \<le> l" using assms(2) arg_place_le(1) [of l "8 * (length bss + 1)"] by simp
  from arg_place_le(2) [OF this] show ?thesis by (simp add: argv_addr_def l_def)
qed

lemma stack_image_spec:
  assumes "args_fit hi bss" and "4096 < hi"
  shows "args_in (stack_image hi bss img) hi bss" and "n < hi - 4096 \<Longrightarrow> stack_image hi bss img n = img n"
proof -
  define D V where "D = argv_addr hi bss" and "V = word_bytes (map of_nat (arg_addrs hi bss) @ [0 :: u64])"
  have fit: "\<forall>a \<in> set (arg_addrs hi bss). hi - 4096 \<le> a" "hi - 4096 \<le> D" using assms(1) by (auto simp: args_fit_def D_def)
  have V: "length V = 8 * (length bss + 1)" by (simp add: V_def)
  have img: "stack_image hi bss img = put_bytes D V (put_args (arg_addrs hi bss) bss img)" by (simp add: stack_image_def D_def V_def)
  have DL: "D + length V \<le> last (hi # arg_addrs hi bss)" using argv_below [OF assms] by (simp add: D_def V)
  show "args_in (stack_image hi bss img) hi bss"
    unfolding args_in_def
  proof (intro conjI allI impI)
    fix i k assume ik: "i < length bss" "k \<le> length (bss ! i)"
    have "last (hi # arg_addrs hi bss) \<le> arg_addrs hi bss ! i" using ik(1) by (intro last_arg_le) simp
    then have "stack_image hi bss img (arg_addrs hi bss ! i + k) = put_args (arg_addrs hi bss) bss img (arg_addrs hi bss ! i + k)"
      unfolding img using DL by (intro put_bytes_other) auto
    moreover have "\<forall>a \<in> set (arg_addrs hi bss). 0 < a" using fit(1) assms(2) by fastforce
    ultimately show "stack_image hi bss img (arg_addrs hi bss ! i + k) = (bss ! i @ [0]) ! k"
      using ik by (simp add: put_args_string)
  next
    fix j assume "j < 8 * (length bss + 1)"
    then show "stack_image hi bss img (argv_addr hi bss + j) = word_bytes (map of_nat (arg_addrs hi bss) @ [0]) ! j"
      using put_bytes_at [of j V] V by (simp add: img flip: D_def V_def)
  qed
  assume n: "n < hi - 4096"
  have "put_args (arg_addrs hi bss) bss img n = img n" using n assms(2) by (intro put_args_outside [OF fit(1)]) auto
  then show "stack_image hi bss img n = img n" using n fit(2) by (simp add: img put_bytes_other)
qed

end
