(* ===== verification/Rv_Program.thy ===== *)
theory Rv_Program
  imports Rv_Run
begin

text \<open>
  The theorem on \<open>exec\<close>: either the process runs the program of the file, with its arguments on the stack, or \<open>exec\<close> returns -1
  and has given everything back.
\<close>

section \<open>The outcomes of exec\<close>

text \<open>
  The process \<open>p\<close> with pages \<open>a\<close> has become \<open>p'\<close>: it has the program with entry point \<open>e\<close>, \<open>sz0\<close> bytes and image \<open>img0\<close>,
  above it an inaccessible page and a page with the arguments, whose vector \<open>sp\<close> and \<open>a1\<close> of its trap frame point to.
\<close>

definition exec_done ::
    "('x, 'f, 'w) rv_ext \<Rightarrow> string \<Rightarrow> u64 \<Rightarrow> u64 \<Rightarrow> uimage \<Rightarrow> u8 list list \<Rightarrow> 'w vm \<Rightarrow> rv_proc \<Rightarrow> pages_of \<Rightarrow> 'w vm \<Rightarrow> rv_proc \<Rightarrow> pages_of \<Rightarrow> bool" where
  "exec_done X path e sz0 img0 bss v p a v' p' a' \<longleftrightarrow> (case (a, a') of ((T0, t, u), (T, t', u')) \<Rightarrow>
     t' = t \<and> u' = u \<and>
     p' = p\<lparr>r_name := safestrcpy X (last_component path path) 16, r_pagetable := root T, r_sz := of_nat (4096 * (npages sz0 + 2))\<rparr> \<and>
     (\<forall>n < 4096 * npages sz0. mem v' (ua (VE X) (mem v') T n) = img0 n) \<and>
     args_in (\<lambda>n. mem v' (ua (VE X) (mem v') T n)) (4096 * (npages sz0 + 2)) bss \<and>
     (\<forall>w < npages sz0 + 2. uacc (VE X) (mem v') T w \<longleftrightarrow> w \<noteq> npages sz0) \<and>
     read64 (mem v') (r_trapframe p + tf_epc) = e \<and>
     read64 (mem v') (r_trapframe p + tf_sp) = of_nat (argv_addr (4096 * (npages sz0 + 2)) bss) \<and>
     read64 (mem v') (r_trapframe p + tf_a1) = of_nat (argv_addr (4096 * (npages sz0 + 2)) bss) \<and>
     (\<forall>j < 512. j \<notin> {3, 6, 15} \<longrightarrow> read64 (mem v') (adr t (8 * j)) = read64 (mem v) (adr t (8 * j))) \<and>
     (\<forall>x. pg x = u \<longrightarrow> mem v' x = mem v x))"

text \<open>All pages that were taken are free again, and no page of a process has changed.\<close>

definition given_back ::
    "('x, 'f, 'w) rv_ext \<Rightarrow> ('w vm \<Rightarrow> nat set) \<Rightarrow> nat set \<Rightarrow> 'w vm \<Rightarrow> rv_proc list \<Rightarrow> (nat \<Rightarrow> pages_of) \<Rightarrow> 'w vm \<Rightarrow> bool" where
  "given_back X free ram v ps A v' \<longleftrightarrow>
     free v' = free v \<and> mem_ok X free ram v' ps A \<and> (\<forall>x. pg x \<in> owned X v ps A \<longrightarrow> mem v' x = mem v x)"

definition exec_failed ::
    "('x, 'f, 'w) rv_ext \<Rightarrow> ('w vm \<Rightarrow> nat set) \<Rightarrow> nat set \<Rightarrow> (nat \<Rightarrow> pages_of) \<Rightarrow> 'x rv_mach \<Rightarrow> ('x, 'f, 'w) rv_st
       \<Rightarrow> (i32 \<times> vmline list \<times> ('x, 'f, 'w) rv_st) outcome \<Rightarrow> bool" where
  "exec_failed X free ram A m s z \<longleftrightarrow> (\<exists>out w v. z = Ret (- 1, out, est s m w v) \<and> given_back X free ram (rvm s) (procs s) A v)"

text \<open>Why \<open>exec\<close> may fail: no such file, no program in it, arguments that do not fit in a page, or too few free pages.\<close>

definition exec_fails :: "'f exec_ext \<Rightarrow> nat \<Rightarrow> addr64 \<Rightarrow> u8 list \<Rightarrow> u8 list list \<Rightarrow> bool" where
  "exec_fails Y k ip d bss \<longleftrightarrow> ip = 0 \<or>
     (case exec_program Y d of None \<Rightarrow> True
      | Some (e, sz0, img0) \<Rightarrow> \<not> args_fit (4096 * (npages sz0 + 2)) bss \<or> k < 3 * npages sz0 + 9)"

section \<open>The second half\<close>

lemma arg_end: "\<forall>a \<in> set (arg_addrs sp bs). 0 < a \<Longrightarrow> i < length bs \<Longrightarrow> arg_addrs sp bs ! i + length (bs ! i) + 1 \<le> sp"
proof (induction bs arbitrary: sp i)
  case (Cons b bs)
  define q where "q = arg_place sp (length b + 1)"
  note q = arg_addrs_Cons(1) [OF q_def, of bs] arg_addrs_Cons(2,3) [OF q_def]
  have 0: "0 < q" "\<forall>a \<in> set (arg_addrs q bs). 0 < a" using Cons.prems(1) by (simp_all add: q(1) del: arg_addrs.simps)
  show ?case
  proof (cases i)
    case (Suc j)
    with Cons.IH [OF 0(2), of j] Cons.prems(2) q(2) show ?thesis by (simp add: q(1) del: arg_addrs.simps)
  qed (use q(3) 0 in \<open>simp add: q(1) del: arg_addrs.simps\<close>)
qed simp

lemma args_in_cong:
  assumes "args_in img hi bss" and "args_fit hi bss" and "4096 < hi" and "\<And>n. n < hi \<Longrightarrow> img' n = img n"
  shows "args_in img' hi bss"
proof -
  have pos: "\<forall>a \<in> set (arg_addrs hi bss). 0 < a" using assms(2,3) by (fastforce simp: args_fit_def)
  have 1: "arg_addrs hi bss ! i + k < hi" if "i < length bss" "k \<le> length (bss ! i)" for i k
    using arg_end [OF pos that(1)] that(2) by simp
  have last: "last (hi # arg_addrs hi bss) \<le> hi" by (intro last_arg_le) simp
  then have 2: "argv_addr hi bss + 8 * (length bss + 1) \<le> hi" using argv_below [OF assms(2,3)] by simp
  show ?thesis using assms(1) 1 2 unfolding args_in_def by (simp add: assms(4))
qed

definition exec_tail ::
    "nat \<Rightarrow> ('x, 'f, 'w) rv_ext \<Rightarrow> 'f exec_ext \<Rightarrow> string \<Rightarrow> addr64 list \<Rightarrow> addr64 \<Rightarrow> addr64 \<Rightarrow> u64 \<Rightarrow> u64 \<Rightarrow> ('x, 'f, 'w) rv_st
       \<Rightarrow> (i32 \<times> vmline list \<times> ('x, 'f, 'w) rv_st) outcome" where
  "exec_tail fuel X Y path argv ip pt e sz s =
     obind (on_files (iunlockput Y ip) s) (\<lambda>s.
     obind (on_files (end_op X) s) (\<lambda>s.
     obind (rv_curproc X s) (\<lambda>(p, s).
     let oldsz = r_sz (rproc s p) in
     obind (exec_stack fuel X Y pt argv sz s) (\<lambda>(r, sz, s).
     case r of None \<Rightarrow> exec_bad fuel X Y pt sz 0 s
     | Some (argc, sp) \<Rightarrow> exec_commit fuel X path p pt sz oldsz sp e argc s))))"

context exec_env
begin

lemma arg_strings_mono: "arg_strings m B as bss \<Longrightarrow> B' \<subseteq> B \<Longrightarrow> arg_strings m B' as bss"
  unfolding arg_strings_def by (erule list_all2_mono) blast

lemma given_backI:
  assumes ok: "mem_ok X free ram v ps A" and K: "K \<inter> owned X v ps A = {}" and fr: "free v' = free v"
    and out: "\<And>x. pg x \<notin> free v \<union> K \<Longrightarrow> mem v' x = mem v x"
  shows "given_back X free ram v ps A v'"
proof -
  have own: "owned X v ps A \<inter> free v = {}" using foot_owned [OF mem_okD(1) [OF ok]] by (fastforce simp: owned_def)
  have keep: "mem v' x = mem v x" if "pg x \<in> owned X v ps A" for x using that own K by (intro out) auto
  with mem_ok_apart(1) [OF ok keep own [folded fr]] fr show ?thesis by (simp add: given_back_def)
qed

lemma exec_tail_spec:
  assumes im: "new_image X free ram (ustack_pages Y) p (rvm s) (T, t, u) v sz0 img0" and acc: "\<And>w. w < npages sz0 \<Longrightarrow> uacc (VE X) (mem v) T w"
    and view: "rv_view X m c n H C" "n < max_noff" "C ! c = Some i" and i: "i < length (procs s)" "rproc s i = p" "r_state p \<noteq> UNUSED"
    and ok: "mem_ok X free ram (rvm s) (procs s) A" and a: "A i = (T0, t, u)"
    and uK: "ustack_pages Y \<inter> (free (rvm s) \<union> owned X (rvm s) (procs s) A) = {}"
    and args: "arg_strings (mem (rvm s)) (free (rvm s) \<union> owned X (rvm s) (procs s) A \<union> ustack_pages Y) as bss" "length bss < MAXARG Y"
    and card: "card (free (rvm s)) < 2 ^ 19" and fuel: "2 * card (free (rvm s)) + 16 \<le> fuel" "npages (r_sz p) + 3 \<le> fuel"
  shows "\<exists>r out m' w' v'. rv_view X m' c n H C \<and>
     (r = - 1 \<and> exec_tail fuel X Y path (as @ 0 # junk) ip (root T) e sz0 (est s m w v) = Ret (r, out, est s m' w' v') \<and>
        given_back X free ram (rvm s) (procs s) A v' \<and> (args_fit (4096 * (npages sz0 + 2)) bss \<longrightarrow> card (free v) < 6) \<or>
      (\<exists>p' a'. r = of_nat (length bss) \<and>
        exec_tail fuel X Y path (as @ 0 # junk) ip (root T) e sz0 (est s m w v) = Ret (r, out, est (s\<lparr>procs := (procs s)[i := p']\<rparr>) m' w' v') \<and>
        args_fit (4096 * (npages sz0 + 2)) bss \<and>
        mem_safe X free ram i (rvm s) (procs s) A v' ((procs s)[i := p']) (A(i := a')) \<and>
        exec_done X path e sz0 img0 bss (rvm s) p (A i) v' p' a'))"
proof -
  let ?K = "ustack_pages Y" and ?v0 = "rvm s"
  define P where "P = npages sz0"
  define hi where "hi = 4096 * (P + 2)"
  note sm = mem_okD(1) [OF ok i(1), unfolded i(2) a]
  have nz: "r_pagetable p \<noteq> 0" "r_trapframe p \<noteq> 0" "r_usyscall p \<noteq> 0" and old: "has_mem X free ram ?v0 p (T0, t, u)"
    using sm i(3) by (simp_all add: slot_mem_def)
  have own: "foot X ?v0 p (T0, t, u) \<subseteq> owned X ?v0 (procs s) A" using i(1,2) a by (auto simp: owned_def)
  have u: "u \<in> owned X ?v0 (procs s) A" using own nz(3) by (auto simp: foot_eq page_at_def)
  have args': "arg_strings (mem ?v0) (free ?v0 \<union> ?K \<union> {u}) as bss" by (rule arg_strings_mono [OF args(1)]) (use u in auto)
  obtain w1 where w1: "iunlockput Y ip w = Ret w1" using iunlockput_law by blast
  obtain w2 where w2: "end_op X w1 = Ret w2" using end_op_law by blast
  from curproc_view [of "est s m w2 v", OF _ view(2,3)] view(1) obtain m1 where
    m1: "rv_curproc X (est s m w2 v) = Ret (i, est s m1 w2 v)" "rv_view X m1 c n H C" by auto
  define s1 where "s1 = est s m1 w2 v"
  have fuel1: "2 * card (free ?v0) + 4 \<le> fuel" using fuel(1) by simp
  have im1: "new_image X free ram ?K p ?v0 (T, t, u) (rvm s1) sz0 img0" and acc1: "\<And>w. w < npages sz0 \<Longrightarrow> uacc (VE X) (mem (rvm s1)) T w"
    using im acc by (simp_all add: s1_def)
  from exec_stack_spec [OF im1 acc1 card fuel1 subset_refl args' args(2) P_def hi_def, of junk] obtain r sz v1 T1 img1 where
    r: "exec_stack fuel X Y (root T) (as @ 0 # junk) sz0 s1 = Ret (r, sz, est s m1 w2 v1)" "root T1 = root T"
      "new_image X free ram ?K p ?v0 (T1, t, u) v1 sz img1"
    and rd: "r = Some (length bss, of_nat (argv_addr hi bss)) \<and> sz = adr (P + 2) 0 \<and> img1 = stack_image hi bss (grow_image sz0 img0) \<and>
        args_fit hi bss \<and> (\<forall>w < P + 2. w \<noteq> P \<longrightarrow> uacc (VE X) (mem v1) T1 w) \<and> \<not> uacc (VE X) (mem v1) T1 P \<or>
      r = None \<and> (args_fit hi bss \<longrightarrow> card (free v) < 6)" by (auto simp: s1_def)
  have run: "exec_tail fuel X Y path (as @ 0 # junk) ip (root T) e sz0 (est s m w v) =
      (case r of None \<Rightarrow> exec_bad fuel X Y (root T) sz 0 (est s m1 w2 v1)
       | Some (argc, sp) \<Rightarrow> exec_commit fuel X path i (root T) sz (r_sz p) sp e argc (est s m1 w2 v1))"
    using w1 w2 m1(1) r(1) i(2) by (cases r) (simp_all add: exec_tail_def on_files_def s1_def split: prod.split)
  from rd show ?thesis
  proof (elim disjE conjE)
    assume none: "r = None" "args_fit hi bss \<longrightarrow> card (free v) < 6"
    have "npages sz + 3 \<le> fuel" using image_pages(3) [OF r(3)] fuel(1) by simp
    from exec_bad_image [OF r(3) this, of 0 s m1 w2] obtain w' v2 where
      v2: "exec_bad fuel X Y (root T1) sz 0 (est s m1 w2 v1) = Ret (- 1, [], est s m1 w' v2)" "free v2 = free ?v0"
        "\<forall>x. pg x \<notin> free ?v0 \<union> ?K \<longrightarrow> mem v2 x = mem ?v0 x" by blast
    have "given_back X free ram ?v0 (procs s) A v2" using v2(2,3) uK by (intro given_backI [OF ok, of ?K]) auto
    with none run v2(1) r(2) m1(2) show ?thesis
      by (intro exI [of _ "- 1"] exI [of _ "[]"] exI [of _ m1] exI [of _ w'] exI [of _ v2]) (simp add: hi_def P_def)
  next
    assume some: "r = Some (length bss, of_nat (argv_addr hi bss))" "sz = adr (P + 2) 0" "img1 = stack_image hi bss (grow_image sz0 img0)"
      "args_fit hi bss" "\<forall>w < P + 2. w \<noteq> P \<longrightarrow> uacc (VE X) (mem v1) T1 w" "\<not> uacc (VE X) (mem v1) T1 P"
    have Kf: "?K \<inter> foot X ?v0 p (T0, t, u) = {}" using own uK by auto
    define p' where "p' = exec_proc X path (root T1) sz p"
    define q :: u64 where "q = of_nat (argv_addr hi bss)"
    from exec_commit_spec [OF old nz(1) r(3) Kf fuel(2) i(1,2) p'_def, where sp = q and e = e and argc = "length bss" and m = m1 and w = w2] obtain out v2 where
      c: "exec_commit fuel X path i (root T1) sz (r_sz p) q e (length bss) (est s m1 w2 v1) =
          Ret (of_nat (length bss), out, est (s\<lparr>procs := (procs s)[i := p']\<rparr>) m1 w2 v2)"
      and hm: "has_mem X free ram v2 p' (T1, t, u)" and fr: "free v2 \<union> foot X v2 p' (T1, t, u) = free ?v0 \<union> foot X ?v0 p (T0, t, u)"
      and out: "\<And>x. pg x \<notin> free ?v0 \<union> foot X ?v0 p (T0, t, u) \<union> ?K \<Longrightarrow> mem v2 x = mem ?v0 x"
      and pte: "\<And>va. pte (VE X) (mem v2) T1 va = pte (VE X) (mem v1) T1 va"
      and img: "\<And>n. n < 4096 * npages sz \<Longrightarrow> mem v2 (ua (VE X) (mem v2) T1 n) = img1 n"
      and frm: "\<And>x. pg x = t \<Longrightarrow> mem v2 x = exec_frame (adr t 0) q e (mem ?v0) x" and pid: "\<And>x. pg x = u \<Longrightarrow> mem v2 x = mem ?v0 x" by blast
    note I = new_imageD [OF r(3)]
    have pp: "r_state p' = r_state p" "r_trapframe p' = r_trapframe p" "r_usyscall p' = r_usyscall p" "r_pagetable p' = root T1"
      by (simp_all add: p'_def exec_proc_def)
    have "slot_mem X free ram v2 p' (T1, t, u)" using hm i(3) nz I(7) by (simp add: slot_mem_def pp)
    from mem_safe_apart [OF ok i(1) uK this] fr out a i(2) have safe:
      "mem_safe X free ram i ?v0 (procs s) A v2 ((procs s)[i := p']) (A(i := (T1, t, u)))" by simp
    have P2: "P + 2 \<le> v_usys"
      using image_pages(3) [OF im] card by (simp add: P_def v_usys_def)
    have np: "npages sz = P + 2" using page_sizes(2) [OF P2] some(2) by simp
    have st: "args_in img1 hi bss" "\<And>n. n < 4096 * P \<Longrightarrow> img1 n = img0 n"
      using stack_image_spec [OF some(4), where img = "grow_image sz0 img0"] by (simp_all add: some(3) hi_def grow_image_def P_def)
    have ai: "args_in (\<lambda>n. mem v2 (ua (VE X) (mem v2) T1 n)) hi bss"
      by (rule args_in_cong [OF st(1) some(4)]) (use img np in \<open>simp_all add: hi_def\<close>)
    have ft: "frame t" "r_trapframe p = adr t 0" using I(1,5) free_frame by auto
    note fw = exec_frame_words [OF ft(1)]
    have rd: "read64 (mem v2) (adr t (8 * j)) = read64 (exec_frame (adr t 0) q e (mem ?v0)) (adr t (8 * j))" if "j < 512" for j
      using that ft(1) frm by (intro read64_outside) auto
    have tf: "adr t 0 + tf_sp = adr t (8 * 6)" "adr t 0 + tf_epc = adr t (8 * 3)" "adr t 0 + tf_a1 = adr t (8 * 15)"
      by (simp_all add: tf_sp_def tf_epc_def tf_a1_def adr_def)
    have "exec_done X path e sz0 img0 bss ?v0 p (A i) v2 p' (T1, t, u)"
      unfolding exec_done_def a prod.case P_def [symmetric] hi_def [symmetric] q_def [symmetric] ft(2)
    proof (intro conjI allI impI)
      show "p' = p\<lparr>r_name := safestrcpy X (last_component path path) 16, r_pagetable := root T1, r_sz := of_nat hi\<rparr>"
        by (simp add: p'_def exec_proc_def some(2) hi_def adr_def)
      show "mem v2 (ua (VE X) (mem v2) T1 n) = img0 n" if "n < 4096 * P" for n using img [of n] st(2) [OF that] that np by simp
      show "uacc (VE X) (mem v2) T1 w \<longleftrightarrow> w \<noteq> P" if "w < P + 2" for w using some(5,6) that by (auto simp: uacc_def pte)
      show "read64 (mem v2) (adr t 0 + tf_epc) = e" "read64 (mem v2) (adr t 0 + tf_sp) = q" "read64 (mem v2) (adr t 0 + tf_a1) = q"
        using rd [of 3] rd [of 6] rd [of 15] fw(1-3) [of q e "mem ?v0"] by (simp_all add: tf)
      show "read64 (mem v2) (adr t (8 * j)) = read64 (mem ?v0) (adr t (8 * j))" if "j < 512" "j \<notin> {3, 6, 15}" for j
        using rd [OF that(1)] fw(4) [OF that] by simp
    qed (use ai pid in auto)
    with safe c run some(1,4) m1(2) r(2) a show ?thesis
      by (intro exI [of _ "of_nat (length bss)"] exI [of _ out] exI [of _ m1] exI [of _ w2] exI [of _ v2])
        (auto simp: q_def hi_def P_def intro!: exI [of _ p'] exI [of _ "(T1, t, u)"])
  qed
qed

end

section \<open>The whole of exec\<close>

lemma exec_fileD:
  assumes "exec_file X Y path w = Ret (ip, w1)"
  obtains wa wb where "begin_op X w = Ret wa" and "namei X path wa = Ret (ip, wb)" and "ip = 0 \<and> wb = w1 \<or> ip \<noteq> 0 \<and> ilock Y ip wb = Ret w1"
  using assms by (auto simp: exec_file_def obind_eq_Ret split: if_splits prod.splits)

context exec_env
begin

lemma exec_start:
  assumes cur: "rv_curproc X s = Ret (p, est s m0 (files s) (rvm s))" and fl: "exec_file X Y path (files s) = Ret (ip, w1)"
    and rd: "ip \<noteq> 0 \<Longrightarrow> readi Y ip 0 (sizeof_elfhdr Y) w1 = (bs, w2)" and elf: "elf = elf_of Y bs"
  shows "exec fuel X Y path argv s =
    (if ip = 0 then obind (on_files (end_op X) (est s m0 w1 (rvm s))) (\<lambda>s. Ret (- 1, [], s))
     else if length bs \<noteq> unat (sizeof_elfhdr Y) \<or> e_magic elf \<noteq> ELF_MAGIC Y then exec_bad fuel X Y 0 0 ip (est s m0 w2 (rvm s))
     else obind (call_vm (proc_pagetable fuel X (r_trapframe (rproc s p)) (r_usyscall (rproc s p))) (est s m0 w2 (rvm s))) (\<lambda>(pt, s).
          if pt = 0 then exec_bad fuel X Y 0 0 ip s
          else obind (exec_load fuel X Y ip pt (unat (e_phnum elf)) (ucast (e_phoff elf)) 0 s) (\<lambda>(good, sz, s).
               if \<not> good then exec_bad fuel X Y pt sz ip s else exec_tail fuel X Y path argv ip pt (e_entry elf) sz s)))"
proof -
  obtain wa wb where w: "begin_op X (files s) = Ret wa" "namei X path wa = Ret (ip, wb)" "ip = 0 \<and> wb = w1 \<or> ip \<noteq> 0 \<and> ilock Y ip wb = Ret w1"
    by (rule exec_fileD [OF fl])
  show ?thesis
  proof (cases "ip = 0")
    case True
    then show ?thesis using cur w by (simp add: exec_def on_files_def call_files_def)
  next
    case False
    with w(3) have l: "ilock Y ip wb = Ret w1" by simp
    show ?thesis unfolding exec_def cur exec_tail_def elf Let_def
      using w(1,2) l False rd [OF False]
      by (simp add: on_files_def [of "begin_op X"] on_files_def [of "ilock Y ip"] call_files_def inode_read_def)
  qed
qed

lemma exec_header:
  assumes view: "rv_view X (rmach s) c n H C" "n < max_noff" "C ! c = Some i" and i: "i < length (procs s)" "r_state (rproc s i) \<noteq> UNUSED"
    and ok: "mem_ok X free ram (rvm s) (procs s) A" and uK: "ustack_pages Y \<inter> (free (rvm s) \<union> owned X (rvm s) (procs s) A) = {}"
    and a: "A i = (T0, t, u)" and fuel: "3 \<le> fuel" and fl: "exec_file X Y path (files s) = Ret (ip, w1)"
  shows "\<exists>m. rv_view X m c n H C \<and>
     (exec_failed X free ram A m s (exec fuel X Y path argv s) \<and> (\<forall>bss. exec_fails Y (card (free (rvm s))) ip (disk w1 ip) bss) \<or>
      (\<exists>(elf :: elfhdr) T w v. ip \<noteq> 0 \<and> disk w ip = disk w1 ip \<and>
        exec_program Y (disk w1 ip) = map_option (\<lambda>(sz, img). (e_entry elf, sz, img))
          (load_image Y (disk w1 ip) (unat (e_phnum elf)) (ucast (e_phoff elf)) (0, \<lambda>_. 0)) \<and>
        exec fuel X Y path argv s =
          obind (exec_load fuel X Y ip (root T) (unat (e_phnum elf)) (ucast (e_phoff elf)) 0 (est s m w v)) (\<lambda>(good, sz, s).
          if \<not> good then exec_bad fuel X Y (root T) sz ip s else exec_tail fuel X Y path argv ip (root T) (e_entry elf) sz s) \<and>
        new_image X free ram (ustack_pages Y) (rproc s i) (rvm s) (T, t, u) v 0 (\<lambda>_. 0) \<and> card (free (rvm s)) \<le> card (free v) + 3))"
proof -
  let ?v0 = "rvm s" and ?K = "ustack_pages Y" and ?p = "rproc s i" and ?z = "exec fuel X Y path argv s"
  note sm = mem_okD(1) [OF ok i(1), unfolded a]
  have nz: "r_pagetable ?p \<noteq> 0" "r_trapframe ?p \<noteq> 0" "r_usyscall ?p \<noteq> 0" and old: "has_mem X free ram ?v0 ?p (T0, t, u)"
    using sm i(2) by (simp_all add: slot_mem_def)
  note O = has_memD [OF old]
  have own: "foot X ?v0 ?p (T0, t, u) \<subseteq> owned X ?v0 (procs s) A" using i(1) a by (auto simp: owned_def)
  have "t \<in> foot X ?v0 ?p (T0, t, u)" "u \<in> foot X ?v0 ?p (T0, t, u)" using nz by (auto simp: foot_eq page_at_def)
  then have tu: "t \<in> ram - free ?v0 - ?K" "u \<in> ram - free ?v0 - ?K" using O(5) own uK by auto
  from curproc_view [OF view] obtain m0 where m0: "rv_curproc X s = Ret (i, est s m0 (files s) ?v0)" "rv_view X m0 c n H C"
    by (auto simp: est_self)
  have fail: ?thesis if "?z = Ret (- 1, [], est s m0 w v)" "free v = free ?v0" "\<And>x. pg x \<notin> free ?v0 \<union> ?K \<Longrightarrow> mem v x = mem ?v0 x"
    "\<And>bss. exec_fails Y (card (free ?v0)) ip (disk w1 ip) bss" for w v
  proof -
    have "given_back X free ram ?v0 (procs s) A v" using that(2,3) uK by (intro given_backI [OF ok, of ?K]) auto
    with that(1,4) m0(2) show ?thesis by (auto simp: exec_failed_def)
  qed
  show ?thesis
  proof (cases "ip = 0")
    case True
    obtain w2 where "end_op X w1 = Ret w2" using end_op_law by blast
    then have "?z = Ret (- 1, [], est s m0 w2 ?v0)" using exec_start [OF m0(1) fl] True by (simp add: on_files_def)
    from fail [OF this] True show ?thesis by (simp add: exec_fails_def)
  next
    case ip: False
    define d where "d = disk w1 ip"
    define bs where "bs = file_read d 0 (sizeof_elfhdr Y)"
    define elf where "elf = elf_of Y bs"
    obtain w2 where w2: "readi Y ip 0 (sizeof_elfhdr Y) w1 = (bs, w2)" "disk w2 ip = d" using readi_law unfolding bs_def d_def by blast
    note start = exec_start [OF m0(1) fl w2(1) elf_def, of fuel argv, unfolded if_not_P [OF ip]]
    have bad: "\<exists>w'. exec_bad fuel X Y 0 0 ip (est s m0 w2 v) = Ret (- 1, [], est s m0 w' v)" for v by (rule exec_bad_file [OF ip])
    show ?thesis
    proof (cases "length bs \<noteq> unat (sizeof_elfhdr Y) \<or> e_magic elf \<noteq> ELF_MAGIC Y")
      case True
      moreover obtain w' where "exec_bad fuel X Y 0 0 ip (est s m0 w2 ?v0) = Ret (- 1, [], est s m0 w' ?v0)" using bad by blast
      ultimately have "?z = Ret (- 1, [], est s m0 w' ?v0)" using start by simp
      moreover have "exec_program Y d = None" using True by (simp add: exec_program_def Let_def bs_def elf_def)
      ultimately show ?thesis by (intro fail) (auto simp: exec_fails_def d_def)
    next
      case hdr: False
      have tus: "t \<in> ram - free ?v0" "u \<in> ram - free ?v0" using tu by auto
      from proc_pagetable_spec [OF tus fuel] O(1,2) nz obtain pt v1 where
        v1: "proc_pagetable fuel X (r_trapframe ?p) (r_usyscall ?p) ?v0 = Ret (pt, v1)" "\<And>x. pg x \<notin> free ?v0 \<Longrightarrow> mem v1 x = mem ?v0 x"
          "3 \<le> card (free ?v0) \<longrightarrow> pt \<noteq> 0" "pt \<noteq> 0 \<longrightarrow> card (free ?v0) \<le> card (free v1) + 3"
        and ptd: "pt = 0 \<and> free v1 = free ?v0 \<or>
          pt \<noteq> 0 \<and> (\<exists>T. pt = root T \<and> proc_space X free ram v1 T 0 t u \<and> ran T \<subseteq> free ?v0 \<and> free v1 = free ?v0 - ran T)" by auto
      note start = start [unfolded if_not_P [OF hdr] call_vm_def, simplified v1(1) est_simps obind.simps prod.case]
      show ?thesis
      proof (cases "pt = 0")
        case True
        obtain w' where "exec_bad fuel X Y 0 0 ip (est s m0 w2 v1) = Ret (- 1, [], est s m0 w' v1)" using bad by blast
        then have z: "?z = Ret (- 1, [], est s m0 w' v1)" using start True by simp
        have "card (free ?v0) < 3" using v1(3) True by auto
        then have "exec_fails Y (card (free ?v0)) ip d bss" for bss by (auto simp: exec_fails_def split: option.split)
        moreover have "free v1 = free ?v0" using ptd True by simp
        ultimately show ?thesis using v1(2) by (intro fail [OF z]) (auto simp: d_def)
      next
        case pt: False
        with ptd obtain T where T: "pt = root T" "proc_space X free ram v1 T 0 t u" "ran T \<subseteq> free ?v0" "free v1 = free ?v0 - ran T" by blast
        have "t \<noteq> u" using O(8) nz by (auto simp: page_at_def)
        from image_start [OF tu this _ O(1) O(2) _ T(2-4) v1(2)] uK nz pt T(1)
        have im: "new_image X free ram ?K ?p ?v0 (T, t, u) v1 0 (\<lambda>_. 0)" by auto
        have prog: "exec_program Y d = map_option (\<lambda>(sz, img). (e_entry elf, sz, img))
            (load_image Y d (unat (e_phnum elf)) (ucast (e_phoff elf)) (0, \<lambda>_. 0))"
          using hdr by (simp add: exec_program_def Let_def bs_def elf_def)
        have "card (free ?v0) \<le> card (free v1) + 3" using v1(4) pt by simp
        with start [unfolded if_not_P [OF pt], unfolded T(1)] show ?thesis
          by (intro exI [of _ m0] conjI disjI2 exI [of _ elf] exI [of _ T] exI [of _ w2] exI [of _ v1] m0(2) ip im w2(2) [unfolded d_def] prog [unfolded d_def])
      qed
    qed
  qed
qed

text \<open>The program is loaded, or \<open>exec\<close> fails whatever the arguments are.\<close>

lemma exec_loaded:
  assumes view: "rv_view X (rmach s) c n H C" "n < max_noff" "C ! c = Some i" and i: "i < length (procs s)" "r_state (rproc s i) \<noteq> UNUSED"
    and ok: "mem_ok X free ram (rvm s) (procs s) A" and uK: "ustack_pages Y \<inter> (free (rvm s) \<union> owned X (rvm s) (procs s) A) = {}"
    and a: "A i = (T0, t, u)" and card: "card (free (rvm s)) < 2 ^ 19" and fuel: "2 * card (free (rvm s)) + 16 \<le> fuel"
    and fl: "exec_file X Y path (files s) = Ret (ip, w1)"
  shows "\<exists>m. rv_view X m c n H C \<and>
     (exec_failed X free ram A m s (exec fuel X Y path argv s) \<and> (\<forall>bss. exec_fails Y (card (free (rvm s))) ip (disk w1 ip) bss) \<or>
      (\<exists>e sz img T w v. ip \<noteq> 0 \<and> exec_program Y (disk w1 ip) = Some (e, sz, img) \<and>
        exec fuel X Y path argv s = exec_tail fuel X Y path argv ip (root T) e sz (est s m w v) \<and>
        new_image X free ram (ustack_pages Y) (rproc s i) (rvm s) (T, t, u) v sz img \<and> (\<forall>w < npages sz. uacc (VE X) (mem v) T w) \<and>
        card (free (rvm s)) \<le> card (free v) + 3 * npages sz + 3))"
proof -
  let ?v0 = "rvm s" and ?K = "ustack_pages Y" and ?p = "rproc s i" and ?z = "exec fuel X Y path argv s" and ?d = "disk w1 ip"
  have "3 \<le> fuel" using fuel by simp
  from exec_header [OF view i ok uK a this fl, of argv] obtain m where m: "rv_view X m c n H C"
    and d: "exec_failed X free ram A m s ?z \<and> (\<forall>bss. exec_fails Y (card (free ?v0)) ip ?d bss) \<or>
      (\<exists>(elf :: elfhdr) T w v. ip \<noteq> 0 \<and> disk w ip = ?d \<and>
        exec_program Y ?d = map_option (\<lambda>(sz, img). (e_entry elf, sz, img))
          (load_image Y ?d (unat (e_phnum elf)) (ucast (e_phoff elf)) (0, \<lambda>_. 0)) \<and>
        ?z = obind (exec_load fuel X Y ip (root T) (unat (e_phnum elf)) (ucast (e_phoff elf)) 0 (est s m w v)) (\<lambda>(good, sz, s).
          if \<not> good then exec_bad fuel X Y (root T) sz ip s else exec_tail fuel X Y path argv ip (root T) (e_entry elf) sz s) \<and>
        new_image X free ram ?K ?p ?v0 (T, t, u) v 0 (\<lambda>_. 0) \<and> card (free ?v0) \<le> card (free v) + 3)" by blast
  from d show ?thesis
  proof (elim disjE conjE exE)
    fix elf :: elfhdr and T w v
    assume ip: "ip \<noteq> 0" "disk w ip = ?d" and prog: "exec_program Y ?d = map_option (\<lambda>(sz, img). (e_entry elf, sz, img))
          (load_image Y ?d (unat (e_phnum elf)) (ucast (e_phoff elf)) (0, \<lambda>_. 0))"
      and z: "?z = obind (exec_load fuel X Y ip (root T) (unat (e_phnum elf)) (ucast (e_phoff elf)) 0 (est s m w v)) (\<lambda>(good, sz, s).
          if \<not> good then exec_bad fuel X Y (root T) sz ip s else exec_tail fuel X Y path argv ip (root T) (e_entry elf) sz s)"
      and im: "new_image X free ram ?K ?p ?v0 (T, t, u) v 0 (\<lambda>_. 0)" and c1: "card (free ?v0) \<le> card (free v) + 3"
    have np0: "npages 0 = 0" by (simp add: npages_def)
    have im0: "new_image X free ram ?K ?p ?v0 (T, t, u) (rvm (est s m w v)) 0 (\<lambda>_. 0)" using im by simp
    have fuel1: "2 * card (free ?v0) + 4 \<le> fuel" using fuel by simp
    from exec_load_spec [OF im0 _ card fuel1, of ip "unat (e_phnum elf)" "ucast (e_phoff elf)"] obtain good sz w3 v3 T3 img where
      ld: "exec_load fuel X Y ip (root T) (unat (e_phnum elf)) (ucast (e_phoff elf)) 0 (est s m w v) = Ret (good, sz, est s m w3 v3)"
        "root T3 = root T" "new_image X free ram ?K ?p ?v0 (T3, t, u) v3 sz img"
      and gd: "good \<and> load_image Y ?d (unat (e_phnum elf)) (ucast (e_phoff elf)) (0, \<lambda>_. 0) = Some (sz, img) \<and>
          (\<forall>w < npages sz. uacc (VE X) (mem v3) T3 w) \<and> card (free v) \<le> card (free v3) + 3 * npages sz \<or>
        \<not> good \<and> (\<forall>sz1 img1. load_image Y ?d (unat (e_phnum elf)) (ucast (e_phoff elf)) (0, \<lambda>_. 0) = Some (sz1, img1) \<longrightarrow>
          card (free v) < 3 * npages sz1)"
      by (auto simp: np0 ip(2))
    note z = z [unfolded ld(1) obind.simps prod.case]
    from gd show ?thesis
    proof (elim disjE conjE)
      assume nogood: "\<not> good" and few: "\<forall>sz1 img1. load_image Y ?d (unat (e_phnum elf)) (ucast (e_phoff elf)) (0, \<lambda>_. 0) = Some (sz1, img1) \<longrightarrow>
          card (free v) < 3 * npages sz1"
      have "npages sz + 3 \<le> fuel" using image_pages(3) [OF ld(3)] fuel by simp
      from exec_bad_image [OF ld(3) this, of ip s m w3] obtain w' v2 where
        v2: "exec_bad fuel X Y (root T) sz ip (est s m w3 v3) = Ret (- 1, [], est s m w' v2)" "free v2 = free ?v0"
          "\<forall>x. pg x \<notin> free ?v0 \<union> ?K \<longrightarrow> mem v2 x = mem ?v0 x" unfolding ld(2) by blast
      have "given_back X free ram ?v0 (procs s) A v2" using v2(2,3) uK by (intro given_backI [OF ok, of ?K]) auto
      then have "exec_failed X free ram A m s ?z" using z nogood v2(1) by (auto simp: exec_failed_def)
      moreover have "exec_fails Y (card (free ?v0)) ip ?d bss" for bss using few c1 by (fastforce simp: exec_fails_def prog split: option.split)
      ultimately show ?thesis using m by blast
    next
      assume good: good "load_image Y ?d (unat (e_phnum elf)) (ucast (e_phoff elf)) (0, \<lambda>_. 0) = Some (sz, img)"
        "\<forall>w < npages sz. uacc (VE X) (mem v3) T3 w" "card (free v) \<le> card (free v3) + 3 * npages sz"
      have "?z = exec_tail fuel X Y path argv ip (root T3) (e_entry elf) sz (est s m w3 v3)" using z good(1) ld(2) by simp
      moreover have "exec_program Y ?d = Some (e_entry elf, sz, img)" by (simp add: prog good(2))
      moreover have "card (free ?v0) \<le> card (free v3) + 3 * npages sz + 3" using c1 good(4) by simp
      ultimately show ?thesis using m ip(1) ld(3) good(3) by blast
    qed
  qed (use m in blast)
qed

lemma exec_spec:
  assumes view: "rv_view X (rmach s) c n H C" "n < max_noff" "C ! c = Some i" and i: "i < length (procs s)" "r_state (rproc s i) \<noteq> UNUSED"
    and ok: "mem_ok X free ram (rvm s) (procs s) A" and uK: "ustack_pages Y \<inter> (free (rvm s) \<union> owned X (rvm s) (procs s) A) = {}"
    and args: "arg_strings (mem (rvm s)) (free (rvm s) \<union> owned X (rvm s) (procs s) A \<union> ustack_pages Y) as bss" "length bss < MAXARG Y"
    and card: "card (free (rvm s)) < 2 ^ 19" and fuel: "2 * card (free (rvm s)) + 16 \<le> fuel" "npages (r_sz (rproc s i)) + 3 \<le> fuel"
    and fl: "exec_file X Y path (files s) = Ret (ip, w1)"
  shows "\<exists>r out m w v. rv_view X m c n H C \<and>
     (r = - 1 \<and> exec fuel X Y path (as @ 0 # junk) s = Ret (r, out, est s m w v) \<and> given_back X free ram (rvm s) (procs s) A v \<and>
        exec_fails Y (card (free (rvm s))) ip (disk w1 ip) bss \<or>
      (\<exists>e sz0 img0 p' a'. r = of_nat (length bss) \<and>
        exec fuel X Y path (as @ 0 # junk) s = Ret (r, out, est (s\<lparr>procs := (procs s)[i := p']\<rparr>) m w v) \<and>
        ip \<noteq> 0 \<and> exec_program Y (disk w1 ip) = Some (e, sz0, img0) \<and> args_fit (4096 * (npages sz0 + 2)) bss \<and>
        mem_safe X free ram i (rvm s) (procs s) A v ((procs s)[i := p']) (A(i := a')) \<and>
        exec_done X path e sz0 img0 bss (rvm s) (rproc s i) (A i) v p' a'))"
proof -
  let ?v0 = "rvm s" and ?p = "rproc s i" and ?z = "exec fuel X Y path (as @ 0 # junk) s" and ?d = "disk w1 ip"
  obtain T0 t u where a: "A i = (T0, t, u)" by (cases "A i")
  from exec_loaded [OF view i ok uK a card fuel(1) fl, of "as @ 0 # junk"] obtain m where m: "rv_view X m c n H C"
    and d: "exec_failed X free ram A m s ?z \<and> (\<forall>bss. exec_fails Y (card (free ?v0)) ip ?d bss) \<or>
      (\<exists>e sz img T w v. ip \<noteq> 0 \<and> exec_program Y ?d = Some (e, sz, img) \<and>
        ?z = exec_tail fuel X Y path (as @ 0 # junk) ip (root T) e sz (est s m w v) \<and>
        new_image X free ram (ustack_pages Y) ?p ?v0 (T, t, u) v sz img \<and> (\<forall>w < npages sz. uacc (VE X) (mem v) T w) \<and>
        card (free ?v0) \<le> card (free v) + 3 * npages sz + 3)" by blast
  from d show ?thesis
  proof (elim disjE conjE exE)
    fix e sz img T w v
    assume ip: "ip \<noteq> 0" and p: "exec_program Y ?d = Some (e, sz, img)"
      and z: "?z = exec_tail fuel X Y path (as @ 0 # junk) ip (root T) e sz (est s m w v)"
      and im: "new_image X free ram (ustack_pages Y) ?p ?v0 (T, t, u) v sz img"
      and acc: "\<forall>w < npages sz. uacc (VE X) (mem v) T w" and c: "card (free ?v0) \<le> card (free v) + 3 * npages sz + 3"
    from acc have acc: "\<And>w. w < npages sz \<Longrightarrow> uacc (VE X) (mem v) T w" by blast
    from exec_tail_spec [OF im acc m view(2,3) i(1) refl i(2) ok a uK args card fuel, where path = path and junk = junk and ip = ip and
        e = e and w = w] obtain r out m' w' v' where
      v: "rv_view X m' c n H C" and
      e: "r = - 1 \<and> ?z = Ret (r, out, est s m' w' v') \<and>
          given_back X free ram (rvm s) (procs s) A v' \<and> (args_fit (4096 * (npages sz + 2)) bss \<longrightarrow> card (free v) < 6) \<or>
        (\<exists>p' a'. r = of_nat (length bss) \<and> ?z = Ret (r, out, est (s\<lparr>procs := (procs s)[i := p']\<rparr>) m' w' v') \<and>
          args_fit (4096 * (npages sz + 2)) bss \<and> mem_safe X free ram i (rvm s) (procs s) A v' ((procs s)[i := p']) (A(i := a')) \<and>
          exec_done X path e sz img bss (rvm s) ?p (A i) v' p' a')" unfolding z by blast
    from e show ?thesis
    proof (elim disjE)
      assume f: "r = - 1 \<and> ?z = Ret (r, out, est s m' w' v') \<and>
          given_back X free ram (rvm s) (procs s) A v' \<and> (args_fit (4096 * (npages sz + 2)) bss \<longrightarrow> card (free v) < 6)"
      then have "exec_fails Y (card (free ?v0)) ip ?d bss" using c by (auto simp: exec_fails_def p)
      with f v show ?thesis by blast
    qed (use v ip p in blast)
  qed (use m in \<open>unfold exec_failed_def, blast\<close>)
qed

text \<open>With exactly \<open>MAXARG\<close> arguments the null pointer is written past the end of \<open>ustack\<close>.\<close>

lemma exec_too_many:
  assumes view: "rv_view X (rmach s) c n H C" "n < max_noff" "C ! c = Some i" and i: "i < length (procs s)" "r_state (rproc s i) \<noteq> UNUSED"
    and ok: "mem_ok X free ram (rvm s) (procs s) A" and uK: "ustack_pages Y \<inter> (free (rvm s) \<union> owned X (rvm s) (procs s) A) = {}"
    and args: "arg_strings (mem (rvm s)) (free (rvm s) \<union> owned X (rvm s) (procs s) A \<union> ustack_pages Y) as bss" "length bss = MAXARG Y"
    and card: "card (free (rvm s)) < 2 ^ 19" and fuel: "2 * card (free (rvm s)) + 16 \<le> fuel"
    and fl: "exec_file X Y path (files s) = Ret (ip, w1)" and no: "\<not> exec_fails Y (card (free (rvm s))) ip (disk w1 ip) bss"
  shows "exec fuel X Y path (as @ 0 # junk) s = Undef ''ustack''"
proof -
  let ?v0 = "rvm s"
  obtain T0 t u where a: "A i = (T0, t, u)" by (cases "A i")
  from exec_loaded [OF view i ok uK a card fuel fl, of "as @ 0 # junk"] no obtain m e sz img T w v where m: "rv_view X m c n H C"
    and p: "exec_program Y (disk w1 ip) = Some (e, sz, img)"
    and z: "exec fuel X Y path (as @ 0 # junk) s = exec_tail fuel X Y path (as @ 0 # junk) ip (root T) e sz (est s m w v)"
    and im: "new_image X free ram (ustack_pages Y) (rproc s i) ?v0 (T, t, u) v sz img" and acc: "\<And>w. w < npages sz \<Longrightarrow> uacc (VE X) (mem v) T w"
    and c: "card (free ?v0) \<le> card (free v) + 3 * npages sz + 3" by blast
  have u: "u \<in> owned X ?v0 (procs s) A"
  proof -
    have "r_usyscall (rproc s i) \<noteq> 0" using mem_okD(1) [OF ok i(1)] i(2) by (simp add: slot_mem_def)
    then have "u \<in> foot X ?v0 (rproc s i) (A i)" by (simp add: a foot_eq page_at_def)
    then show ?thesis using i(1) by (auto simp: owned_def)
  qed
  have args': "arg_strings (mem ?v0) (free ?v0 \<union> ustack_pages Y \<union> {u}) as bss" by (rule arg_strings_mono [OF args(1)]) (use u in auto)
  obtain w1 where w1: "iunlockput Y ip w = Ret w1" using iunlockput_law by blast
  obtain w2 where w2: "end_op X w1 = Ret w2" using end_op_law by blast
  from curproc_view [of "est s m w2 v", OF _ view(2,3)] m obtain m1 where
    m1: "rv_curproc X (est s m w2 v) = Ret (i, est s m1 w2 v)" by auto
  have fuel1: "2 * card (free ?v0) + 4 \<le> fuel" using fuel by simp
  have fit: "\<forall>a \<in> set (arg_addrs (4096 * (npages sz + 2)) bss). 4096 * (npages sz + 2) - 4096 \<le> a" "6 \<le> card (free v)"
    using no c by (auto simp: exec_fails_def p args_fit_def)
  have "exec_stack fuel X Y (root T) (as @ 0 # junk) sz (est s m1 w2 v) = Undef ''ustack''"
    using im acc fit by (intro exec_stack_full [OF _ _ card fuel1 subset_refl args' args(2) refl refl]) simp_all
  then show ?thesis using w1 w2 m1 unfolding z by (simp add: exec_tail_def on_files_def)
qed

end

end
