(* ===== verification/Rv_Launch.thy ===== *)
theory Rv_Launch
  imports Rv_Program
begin

text \<open>
  \<open>exec\<close> on every machine and file layer with the laws of \<open>exec_env\<close>, and a run of it: a small ELF file on the reference machine.
\<close>

section \<open>A file layer with one ELF file\<close>

definition le :: "u8 list \<Rightarrow> nat \<Rightarrow> nat \<Rightarrow> nat" where
  "le bs off n = horner_sum unat 256 (take n (drop off bs))"

text \<open>The length of a string is counted up to the first zero, at most \<open>N\<close> bytes.\<close>

definition strlen_upto :: "nat \<Rightarrow> addr64 \<Rightarrow> bytes \<Rightarrow> u64" where
  "strlen_upto N a m = of_nat (length (takeWhile (\<lambda>i. m (a + of_nat i) \<noteq> 0) [0..<N]))"

text \<open>One segment of two bytes at address 0, the program starts at address 4.\<close>

definition ref_elf :: "u8 list" where
  "ref_elf = [0x7f, 0x45, 0x4c, 0x46, 0, 0, 0, 0, 0, 0, 0, 0, 0, 0, 0, 0, 0, 0, 0, 0, 0, 0, 0, 0, 4, 0, 0, 0, 0, 0, 0, 0, 64, 0, 0, 0, 0, 0, 0, 0, 0, 0, 0, 0, 0, 0, 0, 0, 0, 0, 0, 0, 0, 0, 0, 0, 1, 0, 0, 0, 0, 0, 0, 0]"

definition ref_ph :: "u8 list" where
  "ref_ph = [1, 0, 0, 0, 5, 0, 0, 0, 120, 0, 0, 0, 0, 0, 0, 0, 0, 0, 0, 0, 0, 0, 0, 0, 0, 0, 0, 0, 0, 0, 0, 0, 2, 0, 0, 0, 0, 0, 0, 0, 16, 0, 0, 0, 0, 0, 0, 0, 0, 0, 0, 0, 0, 0, 0, 0]"

definition ref_prog :: "u8 list" where
  "ref_prog = ref_elf @ ref_ph @ [0x13, 0x05]"

definition ref_exec :: "nat exec_ext" where
  "ref_exec =
     \<lparr>ELF_MAGIC = 0x464c457f, ELF_PROG_LOAD = 1, MAXARG = 32, sizeof_elfhdr = 64, sizeof_proghdr = 56,
      elf_of = (\<lambda>bs. \<lparr>e_magic = of_nat (le bs 0 4), e_entry = of_nat (le bs 24 8), e_phoff = of_nat (le bs 32 8), e_phnum = of_nat (le bs 56 2)\<rparr>),
      ph_of = (\<lambda>bs. \<lparr>ph_type = of_nat (le bs 0 4), ph_flags = of_nat (le bs 4 4), ph_off = of_nat (le bs 8 8), ph_vaddr = of_nat (le bs 16 8),
                    ph_filesz = of_nat (le bs 32 8), ph_memsz = of_nat (le bs 40 8)\<rparr>),
      readi = (\<lambda>ip off n w. (file_read ref_prog off n, w)), ilock = (\<lambda>ip w. Ret w), iunlockput = (\<lambda>ip w. Ret (w - 1)),
      strlen = strlen_upto (2 ^ 64), ustack_addr = adr 2001 0\<rparr>"

lemma strlen_upto_string:
  assumes "c_string m a bs" and "length bs < N"
  shows "strlen_upto N a m = of_nat (length bs)"
proof -
  have b: "m (a + of_nat i) = (bs @ [0]) ! i" if "i \<le> length bs" for i using assms(1) that by (simp add: c_string_def)
  have "takeWhile (\<lambda>i. m (a + of_nat i) \<noteq> 0) [0..<N] = take (length bs) [0..<N]"
  proof (rule takeWhile_eq_take_P_nth)
    fix i assume "i < length bs"
    moreover from this have "bs ! i \<noteq> 0" using assms(1) unfolding c_string_def by (metis nth_mem)
    ultimately show "m (a + of_nat ([0..<N] ! i)) \<noteq> 0" using b [of i] assms(2) by (simp add: nth_append)
  qed (use b [of "length bs"] assms(2) in simp)
  then show ?thesis using assms(2) by (simp add: strlen_upto_def)
qed

text \<open>No string is as long as the address space.\<close>

lemma c_string_short: "c_string m a bs \<Longrightarrow> length bs < 2 ^ 64"
proof (rule ccontr)
  assume c: "c_string m a bs" and "\<not> length bs < 2 ^ 64"
  then have l: "2 ^ 64 \<le> length bs" by simp
  define i where "i = length bs - 2 ^ 64"
  have i: "i < length bs" "length bs = i + 2 ^ 64" using l by (simp_all add: i_def)
  have "(of_nat (length bs) :: u64) = of_nat i" unfolding i(2) by simp
  moreover have "m (a + of_nat (length bs)) = 0" using c by (auto simp: c_string_def nth_append)
  moreover have "m (a + of_nat i) = bs ! i" using c i(1) by (auto simp: c_string_def nth_append)
  moreover have "bs ! i \<noteq> 0" using c i(1) nth_mem unfolding c_string_def by metis
  ultimately show False by simp
qed

interpretation refex: exec_env ref_rext ref_free ref_ram ref_exec "\<lambda>_ _. ref_prog"
proof unfold_locales
  show "strlen ref_exec a m = of_nat (length bs)" if "c_string m a bs" for m a bs
    using strlen_upto_string [OF that c_string_short [OF that]] by (simp only: ref_exec_def exec_ext.simps)
qed (simp_all add: ref_exec_def)

section \<open>exec\<close>

text \<open>(C30) \<open>exec\<close> always returns, and either the process runs the program or nothing has changed.

  With a return value equal to the number of arguments, the file is a program in the sense of the reference loader: below
  the first page boundary above its size, user memory holds exactly the image that the loader computes from the file; then comes a
  page without user access and a page that holds the argument strings, each with its terminating zero, and the vector
  of their addresses, ended by a null pointer. The trap frame has the entry point in \<open>epc\<close> and the vector in \<open>sp\<close> and \<open>a1\<close>, all its other
  words and the pid page are as before. The old address space is freed: every process owns its pages alone, no page is
  lost, and the other processes and their memory are untouched.

  With -1, the process table and all memory of processes are as before and all pages taken are free again; the reason is
  one of: no such file, no valid program, the arguments do not fit in a page, fewer than nine free pages and three per page of the
  program.\<close>

theorem rv_exec_correct:
  assumes "exec_env X free ram Y disk" and "rv_view X (rmach s) c n H P" and "n < max_noff" and "P ! c = Some i"
    and "i < length (procs s)" and "r_state (rproc s i) \<noteq> UNUSED" and "mem_ok X free ram (rvm s) (procs s) A"
    and "ustack_pages Y \<inter> (free (rvm s) \<union> owned X (rvm s) (procs s) A) = {}"
    and "arg_strings (mem (rvm s)) (free (rvm s) \<union> owned X (rvm s) (procs s) A \<union> ustack_pages Y) ptrs bss" and "length bss < MAXARG Y"
    and "card (free (rvm s)) < 2 ^ 19" and "2 * card (free (rvm s)) + 16 \<le> fuel" and "npages (r_sz (rproc s i)) + 3 \<le> fuel"
    and "exec_file X Y path (files s) = Ret (ip, fs)"
  shows "\<exists>r out m w v. rv_view X m c n H P \<and>
     (r = - 1 \<and> exec fuel X Y path (ptrs @ 0 # junk) s = Ret (r, out, s\<lparr>rmach := m, files := w, rvm := v\<rparr>) \<and>
        given_back X free ram (rvm s) (procs s) A v \<and> exec_fails Y (card (free (rvm s))) ip (disk fs ip) bss \<or>
      (\<exists>e sz0 img0 p' a'. r = of_nat (length bss) \<and>
        exec fuel X Y path (ptrs @ 0 # junk) s = Ret (r, out, s\<lparr>procs := (procs s)[i := p'], rmach := m, files := w, rvm := v\<rparr>) \<and>
        ip \<noteq> 0 \<and> exec_program Y (disk fs ip) = Some (e, sz0, img0) \<and> args_fit (4096 * (npages sz0 + 2)) bss \<and>
        mem_safe X free ram i (rvm s) (procs s) A v ((procs s)[i := p']) (A(i := a')) \<and>
        exec_done X path e sz0 img0 bss (rvm s) (rproc s i) (A i) v p' a'))"
  using exec_env.exec_spec [OF assms(1-14), of junk] unfolding est_def by simp

lemma ref_reads:
  "file_read ref_prog 0 64 = ref_elf" "file_read ref_prog 64 56 = ref_ph" "file_read ref_prog 120 2 = [0x13, 0x05]"
  "length ref_elf = 64" "length ref_ph = 56"
proof -
  show l: "length ref_elf = 64" "length ref_ph = 56" by (simp_all add: ref_elf_def ref_ph_def)
  show "file_read ref_prog 0 64 = ref_elf" "file_read ref_prog 64 56 = ref_ph" "file_read ref_prog 120 2 = [0x13, 0x05]"
    by (simp_all add: file_read_def ref_prog_def l)
qed

lemma ref_header: "le ref_elf 0 4 = 0x464c457f" "le ref_elf 24 8 = 4" "le ref_elf 32 8 = 64" "le ref_elf 56 2 = 1"
  by (simp_all add: le_def ref_elf_def)

lemma ref_segment:
  "le ref_ph 0 4 = 1" "le ref_ph 4 4 = 5" "le ref_ph 8 8 = 120" "le ref_ph 16 8 = 0" "le ref_ph 32 8 = 2" "le ref_ph 40 8 = 16"
  by (simp_all add: le_def ref_ph_def)

lemma ref_program: "\<exists>img. exec_program ref_exec ref_prog = Some (4, 16, img)"
  by (simp add: exec_program_def ref_exec_def Let_def ref_reads ref_header ref_segment max_def)

lemma ref_args: "args_fit 12288 [[115, 104]]" "argv_addr 12288 [[115, 104]] = 12256"
  by (simp_all add: args_fit_def argv_addr_def arg_place_def Let_def)

lemma page_2000: "pg (adr 2000 0 + of_nat k :: u64) = 2000" if "k < 4096"
  using pg_adr [of 2000 k] that by (simp add: adr_add frame_def)

lemma ref_ustack: "ustack_pages ref_exec \<subseteq> {2001}"
proof
  fix q assume "q \<in> ustack_pages ref_exec"
  then obtain j :: nat where "j < 256" "q = pg (adr 2001 0 + of_nat j :: u64)" by (auto simp: ustack_pages_def ref_exec_def)
  then show "q \<in> {2001}" using pg_adr [of 2001 j] by (simp add: adr_add frame_def)
qed

text \<open>The process of slot 0 with the argument \<open>sh\<close> in a page of the kernel.\<close>

lemma launch_state:
  "\<exists>p v A. mem_ok ref_rext ref_free ref_ram v ((replicate 4 rp0)[0 := p]) A \<and> r_state p = USED \<and> r_sz p = 0 \<and>
     12 \<le> card (ref_free v) \<and> card (ref_free v) \<le> 197 \<and>
     ustack_pages ref_exec \<inter> (ref_free v \<union> owned ref_rext v ((replicate 4 rp0)[0 := p]) A) = {} \<and>
     arg_strings (mem v) (ref_free v \<union> owned ref_rext v ((replicate 4 rp0)[0 := p]) A \<union> ustack_pages ref_exec) [adr 2000 0] [[115, 104]]"
proof -
  from proc0 obtain p v T t u where p: "mem_ok ref_rext ref_free ref_ram v ((replicate 4 rp0)[0 := p]) ((\<lambda>_. undefined)(0 := (T, t, u)))"
    "r_state p = USED" "r_sz p = 0" "192 \<le> card (ref_free v)" "ref_free v \<subseteq> {3..<200}" by blast
  let ?ps = "(replicate 4 rp0)[0 := p]" and ?A = "(\<lambda>_ :: nat. undefined)(0 := (T, t, u))"
  define m where "m = store_list (adr 2000 0) [115, 104, 0] (mem v)"
  have f: "frame 2000" by (simp add: frame_def)
  have "m x = mem v x" if "pg x \<noteq> 2000" for x
    using in_run(1) [OF f, of 0 3 x] that by (auto simp: m_def store_list_def)
  then have "m x = mem v x" if "pg x \<in> ref_ram" for x using that by (auto simp: ref_ram_def)
  note o = refsp.mem_ok_outside [OF p(1) this]
  have "card (ref_free v) \<le> 197" using card_mono [OF _ p(5)] by simp
  moreover have own: "ref_free v \<union> owned ref_rext v ?ps ?A \<subseteq> ref_ram"
    using foot_owned [OF mem_okD(1) [OF p(1)]] by (fastforce simp: owned_def ref_free_def)
  then have "ustack_pages ref_exec \<inter> (ref_free v \<union> owned ref_rext v ?ps ?A) = {}"
    using ref_ustack by (fastforce simp: ref_ram_def)
  moreover have "arg_strings m (ref_free v \<union> owned ref_rext v ?ps ?A \<union> ustack_pages ref_exec) [adr 2000 0] [[115, 104]]"
  proof -
    have "c_string m (adr 2000 0) [115, 104]"
      unfolding c_string_def
    proof (intro conjI allI impI)
      fix i :: nat assume "i \<le> length [115, 104 :: u8]"
      then have i: "i < 3" by simp
      then have "unat (of_nat i :: u64) = i" by (simp add: unat_of_nat)
      with i show "m (adr 2000 0 + of_nat i) = ([115, 104] @ [0]) ! i" by (simp add: m_def store_list_def)
    qed simp
    moreover have "pg (adr 2000 0 + of_nat i :: u64) \<notin> ref_free v \<union> owned ref_rext v ?ps ?A \<union> ustack_pages ref_exec" if "i \<le> 2" for i
      using page_2000 [of i] that own ref_ustack by (fastforce simp: ref_ram_def)
    moreover have "adr 2000 0 \<noteq> (0 :: u64)" by (rule adr_nonzero [OF f]) simp
    ultimately show ?thesis by (simp add: arg_strings_def)
  qed
  ultimately show ?thesis using p o
    by (intro exI [of _ p] exI [of _ "v\<lparr>mem := m\<rparr>"] exI [of _ ?A]) simp
qed

theorem rv_exec_correct_witness:
  "\<exists>p v out s' A. exec 500 ref_rext ref_exec ''/bin/sh'' [adr 2000 0, 0] (rs1 p v) = Ret (1, out, s') \<and>
     mem_ok ref_rext ref_free ref_ram (rvm s') (procs s') A \<and> r_sz (rproc s' 0) = 12288 \<and> r_name (rproc s' 0) = ''sh'' \<and>
     read64 (mem (rvm s')) (r_trapframe p + tf_epc) = 4 \<and> read64 (mem (rvm s')) (r_trapframe p + tf_sp) = 12256"
proof -
  from launch_state obtain p v A where p: "mem_ok ref_rext ref_free ref_ram v ((replicate 4 rp0)[0 := p]) A" "r_state p = USED" "r_sz p = 0"
    "12 \<le> card (ref_free v)" "card (ref_free v) \<le> 197"
    "ustack_pages ref_exec \<inter> (ref_free v \<union> owned ref_rext v ((replicate 4 rp0)[0 := p]) A) = {}"
    "arg_strings (mem v) (ref_free v \<union> owned ref_rext v ((replicate 4 rp0)[0 := p]) A \<union> ustack_pages ref_exec) [adr 2000 0] [[115, 104]]" by blast
  obtain img where img: "exec_program ref_exec ref_prog = Some (4, 16, img)" using ref_program by blast
  have np: "npages 0 = 0" "npages 16 = 1" by (simp_all add: npages_def)
  have fl: "exec_file ref_rext ref_exec ''/bin/sh'' (files (rs1 p v)) = Ret (0x80020000, 1)"
    by (simp add: exec_file_def ref_exec_def rs1_def rs0_def)
  have no: "\<not> exec_fails ref_exec (card (ref_free v)) 0x80020000 ref_prog [[115, 104]]"
    using p(4) by (simp add: exec_fails_def img np ref_args)
  have "length [[115 :: u8, 104]] < MAXARG ref_exec" by (simp add: ref_exec_def)
  from rv_exec_correct [OF refex.exec_env_axioms, where s = "rs1 p v" and c = 0 and n = 0 and H = "{}" and P = "[Some 0, None]" and i = 0 and A = A
      and ptrs = "[adr 2000 0]" and bss = "[[115, 104]]" and fuel = 500 and path = "''/bin/sh''" and ip = "0x80020000" and fs = 1 and junk = "[]"]
    this fl p view_rm0 [of "Some 0"] max_noff_pos no obtain out m w v' p' a' where
    r: "exec 500 ref_rext ref_exec ''/bin/sh'' [adr 2000 0, 0] (rs1 p v) =
        Ret (1, out, (rs1 p v)\<lparr>procs := (procs (rs1 p v))[0 := p'], rmach := m, files := w, rvm := v'\<rparr>)"
      "mem_safe ref_rext ref_free ref_ram 0 v ((replicate 4 rp0)[0 := p]) A v' ((replicate 4 rp0)[0 := p']) (A(0 := a'))"
      "exec_done ref_rext ''/bin/sh'' 4 16 img [[115, 104]] v p (A 0) v' p' a'"
    by (fastforce simp: np img)
  have "r_sz p' = 12288" "r_name p' = ''sh''" "read64 (mem v') (r_trapframe p + tf_epc) = 4" "read64 (mem v') (r_trapframe p + tf_sp) = 12256"
    using r(3) ref_args(2) by (auto simp: exec_done_def np ref_rext_def split: prod.splits)
  with r(1,2) show ?thesis
    by (intro exI [of _ p] exI [of _ v] exI [of _ out] exI [of _ "(rs1 p v)\<lparr>procs := (procs (rs1 p v))[0 := p'], rmach := m, files := w, rvm := v'\<rparr>"]
        exI [of _ "A(0 := a')"]) (simp add: mem_safe_def)
qed

text \<open>The limit that the theorem leaves out: with exactly \<open>MAXARG\<close> arguments of a program for which there would be room, the loop over
  the arguments ends and \<open>exec\<close> stores the null pointer past the end of the array \<open>ustack\<close>.\<close>

theorem exec_maxarg_overflow:
  assumes "exec_env X free ram Y disk" and "rv_view X (rmach s) c n H P" and "n < max_noff" and "P ! c = Some i"
    and "i < length (procs s)" and "r_state (rproc s i) \<noteq> UNUSED" and "mem_ok X free ram (rvm s) (procs s) A"
    and "ustack_pages Y \<inter> (free (rvm s) \<union> owned X (rvm s) (procs s) A) = {}"
    and "arg_strings (mem (rvm s)) (free (rvm s) \<union> owned X (rvm s) (procs s) A \<union> ustack_pages Y) ptrs bss" and "length bss = MAXARG Y"
    and "card (free (rvm s)) < 2 ^ 19" and "2 * card (free (rvm s)) + 16 \<le> fuel"
    and "exec_file X Y path (files s) = Ret (ip, fs)" and "\<not> exec_fails Y (card (free (rvm s))) ip (disk fs ip) bss"
  shows "exec fuel X Y path (ptrs @ 0 # junk) s = Undef ''ustack''"
  using exec_env.exec_too_many [OF assms] .

end
