(* ===== verification/Util_Primes.thy ===== *)
theory Util_Primes
  imports Prelude
begin

text \<open>
  The prime sieve of Lab1 \<open>primes.c\<close>: a chain of processes connected by pipes. The first writes
  the numbers from 2 to 35; every other one reads a first number, prints it as a prime, makes the
  next process of the chain, and passes on what the prime does not divide.

  The processes run concurrently: a run of the program is any interleaving of their steps, and a
  step is one system call with the computation around it. A pipe is a queue of bounded length and
  the number of open write ends; a read from an empty pipe returns 0 when no write end is open
  and blocks otherwise. A write end that is never closed would block the reader for ever, so the
  \<open>close\<close> calls on write ends are steps of the model; read ends play no part in blocking and are
  left out. \<open>pipe\<close> and \<open>fork\<close> are taken to succeed, as the code does.
\<close>

section \<open>Processes and pipes\<close>

record pipe =
  queue :: "nat list"
  writers :: nat

datatype stage =
    Gen nat            \<comment> \<open>the first process, about to write this number\<close>
  | Fresh              \<comment> \<open>just forked, write end of its left pipe still open\<close>
  | Head               \<comment> \<open>at the outer loop, about to read its prime\<close>
  | Filt nat           \<comment> \<open>at the inner loop with its prime\<close>
  | Pass nat nat       \<comment> \<open>about to write a number that the prime does not divide\<close>
  | Waiting            \<comment> \<open>pipes closed, waiting for its child\<close>
  | Exited

text \<open>A process with its right pipe and the rest of the chain, or the last process.\<close>

datatype chain =
    Last stage
  | Link stage pipe chain

fun first :: "chain \<Rightarrow> stage" where
  "first (Last p) = p"
| "first (Link p q c) = p"

section \<open>System calls on pipes\<close>

datatype read_result = Got nat pipe | Eof | Block

fun pipe_read :: "pipe \<Rightarrow> read_result" where
  "pipe_read q =
     (case queue q of x # xs \<Rightarrow> Got x (q\<lparr>queue := xs\<rparr>)
      | [] \<Rightarrow> if writers q = 0 then Eof else Block)"

definition pipe_write :: "nat \<Rightarrow> nat \<Rightarrow> pipe \<Rightarrow> pipe option" where
  "pipe_write cap x q = (if length (queue q) < cap then Some (q\<lparr>queue := queue q @ [x]\<rparr>) else None)"

definition close_write :: "pipe \<Rightarrow> pipe" where
  "close_write q = q\<lparr>writers := writers q - 1\<rparr>"

text \<open>\<open>pipe\<close> and \<open>fork\<close>: an empty pipe whose write end both parent and child hold.\<close>

definition new_pipe :: pipe where
  "new_pipe = \<lparr>queue = [], writers = 2\<rparr>"

section \<open>The program\<close>

text \<open>
  One step of the first process of a chain whose left pipe is \<open>L\<close>: the new left pipe, the new
  chain and what is printed; \<open>None\<close> where the process is blocked or has exited.
\<close>

fun own_step :: "nat \<Rightarrow> pipe \<Rightarrow> chain \<Rightarrow> (pipe \<times> chain \<times> nat list) option" where
  "own_step cap L (Last Fresh) = Some (close_write L, Last Head, [])"
| "own_step cap L (Last Head) =
     (case pipe_read L of
        Got p L' \<Rightarrow> Some (L', Link (Filt p) new_pipe (Last Fresh), [p])
      | Eof \<Rightarrow> Some (L, Last Exited, [])
      | Block \<Rightarrow> None)"
| "own_step cap L (Link (Gen i) q c) =
     (if i \<le> 35 then
        case pipe_write cap i q of
          Some q' \<Rightarrow> Some (L, Link (Gen (Suc i)) q' c, [])
        | None \<Rightarrow> None
      else Some (L, Link Waiting (close_write q) c, []))"
| "own_step cap L (Link (Filt p) q c) =
     (case pipe_read L of
        Got x L' \<Rightarrow> Some (L', Link (if x mod p \<noteq> 0 then Pass p x else Filt p) q c, [])
      | Eof \<Rightarrow> Some (L, Link Waiting (close_write q) c, [])
      | Block \<Rightarrow> None)"
| "own_step cap L (Link (Pass p x) q c) =
     (case pipe_write cap x q of
        Some q' \<Rightarrow> Some (L, Link (Filt p) q' c, [])
      | None \<Rightarrow> None)"
| "own_step cap L (Link Waiting q c) =
     (if first c = Exited then Some (L, Link Exited q c, []) else None)"
| "own_step cap L _ = None"

text \<open>A step of process number \<open>k\<close> of the chain.\<close>

fun chain_step :: "nat \<Rightarrow> pipe \<Rightarrow> chain \<Rightarrow> nat \<Rightarrow> (pipe \<times> chain \<times> nat list) option" where
  "chain_step cap L c 0 = own_step cap L c"
| "chain_step cap L (Link p q c) (Suc k) =
     (case chain_step cap q c k of
        Some (q', c', out) \<Rightarrow> Some (L, Link p q' c', out)
      | None \<Rightarrow> None)"
| "chain_step cap L (Last p) (Suc k) = None"

text \<open>
  \<open>main\<close> makes the first pipe and forks; the parent generates, the child is the first of the
  sieve. The parent has no left pipe.
\<close>

definition no_pipe :: pipe where
  "no_pipe = \<lparr>queue = [], writers = 0\<rparr>"

definition primes_start :: chain where
  "primes_start = Link (Gen 2) new_pipe (Last Fresh)"

text \<open>The interleavings: what has been printed, and the chain.\<close>

inductive primes_run :: "nat \<Rightarrow> nat list \<Rightarrow> chain \<Rightarrow> nat \<Rightarrow> bool" for cap where
  start: "primes_run cap [] primes_start 0"
| move: "primes_run cap out c n \<Longrightarrow> chain_step cap no_pipe c k = Some (L, c', o1) \<Longrightarrow>
    primes_run cap (out @ o1) c' (Suc n)"

section \<open>What a chain will print\<close>

text \<open>The sieve on lists: the reference for the program.\<close>

fun sieve :: "nat list \<Rightarrow> nat list" where
  "sieve [] = []"
| "sieve (p # xs) = p # sieve (filter (\<lambda>x. x mod p \<noteq> 0) xs)"

text \<open>What a process will still write when \<open>X\<close> is all it will still read.\<close>

fun future :: "nat list \<Rightarrow> stage \<Rightarrow> nat list" where
  "future X (Gen i) = [i..<36]"
| "future X (Filt p) = filter (\<lambda>x. x mod p \<noteq> 0) X"
| "future X (Pass p x) = x # filter (\<lambda>x. x mod p \<noteq> 0) X"
| "future X _ = []"

fun to_print :: "nat list \<Rightarrow> chain \<Rightarrow> nat list" where
  "to_print X (Last p) = (if p = Exited then [] else sieve X)"
| "to_print X (Link p q c) = to_print (queue q @ future X p) c"

text \<open>The steps that are left, and the shape of reachable chains.\<close>

function head_steps :: "nat list \<Rightarrow> nat" where
  "head_steps [] = 1"
| "head_steps (p # xs) =
     4 + length xs + length (filter (\<lambda>x. x mod p \<noteq> 0) xs) + head_steps (filter (\<lambda>x. x mod p \<noteq> 0) xs)"
  by pat_completeness auto

termination
  by (relation "measure length") (auto simp: le_imp_less_Suc)

fun own_left :: "nat list \<Rightarrow> stage \<Rightarrow> nat" where
  "own_left X (Gen i) = (36 - i) + 2"
| "own_left X (Filt p) = length X + length (filter (\<lambda>x. x mod p \<noteq> 0) X) + 2"
| "own_left X (Pass p x) = length X + length (filter (\<lambda>x. x mod p \<noteq> 0) X) + 3"
| "own_left X Waiting = 1"
| "own_left X Fresh = 1 + head_steps X"
| "own_left X Head = head_steps X"
| "own_left X Exited = 0"

fun steps_left :: "nat list \<Rightarrow> chain \<Rightarrow> nat" where
  "steps_left X (Last p) = own_left X p"
| "steps_left X (Link p q c) = own_left X p + steps_left (queue q @ future X p) c"

fun open_right :: "stage \<Rightarrow> bool" where
  "open_right (Gen i) = True"
| "open_right (Filt p) = True"
| "open_right (Pass p x) = True"
| "open_right _ = False"

fun chain_ok :: "chain \<Rightarrow> bool" where
  "chain_ok (Last p) = (p \<in> {Fresh, Head, Exited})"
| "chain_ok (Link p q c) =
     (p \<notin> {Fresh, Head} \<and> (\<forall>i. p = Gen i \<longrightarrow> i \<le> 36) \<and> (p = Exited \<longrightarrow> first c = Exited) \<and>
      writers q = of_bool (open_right p) + of_bool (first c = Fresh) \<and>
      (first c \<in> {Waiting, Exited} \<longrightarrow> writers q = 0 \<and> queue q = []) \<and> (\<forall>i. first c \<noteq> Gen i) \<and> chain_ok c)"

section \<open>The step keeps what will be printed\<close>

text \<open>
  \<open>U\<close> is what will still arrive in the left pipe; when its write end is closed, nothing will.
\<close>

lemma own_step_inv:
  assumes "own_step cap L c = Some (L', c', out)" and "chain_ok c"
    and "writers L = 0 \<Longrightarrow> U = []"
  shows "out @ to_print (queue L' @ U) c' = to_print (queue L @ U) c"
    and "steps_left (queue L @ U) c = Suc (steps_left (queue L' @ U) c')"
    and "chain_ok c'"
  using assms
  by (cases c; cases "first c"; cases "queue L";
      auto simp: pipe_write_def close_write_def new_pipe_def upt_conv_Cons split: if_splits)+

text \<open>What a step of the chain's first process does to the left pipe.\<close>

definition left_ok :: "pipe \<Rightarrow> chain \<Rightarrow> pipe \<Rightarrow> chain \<Rightarrow> bool" where
  "left_ok L c L' c' \<longleftrightarrow>
     writers L' + of_bool (first c = Fresh) = writers L + of_bool (first c' = Fresh) \<and>
     (first c' \<in> {Waiting, Exited} \<longrightarrow> L' = L \<and> (first c \<in> {Waiting, Exited} \<or> writers L = 0 \<and> queue L = [])) \<and>
     (first c = Exited \<longrightarrow> first c' = Exited) \<and> (\<forall>i. first c' \<noteq> Gen i)"

lemma own_step_left:
  assumes "own_step cap L c = Some (L', c', out)" and "chain_ok c" and "\<forall>i. first c \<noteq> Gen i"
    and "first c = Fresh \<Longrightarrow> 0 < writers L"
  shows "left_ok L c L' c'"
  using assms unfolding left_ok_def
  by (cases c; cases "first c"; cases "queue L")
    (auto simp: pipe_write_def close_write_def new_pipe_def split: if_splits)

lemma link_ok:
  assumes "chain_ok (Link p q c)" and "left_ok q c q' c'" and "chain_ok c'"
  shows "chain_ok (Link p q' c')"
  using assms unfolding left_ok_def by (auto split: if_splits)

lemma step_left:
  assumes "chain_step cap L c k = Some (L', c', out)" and "chain_ok c" and "\<forall>i. first c \<noteq> Gen i"
    and "first c = Fresh \<Longrightarrow> 0 < writers L"
  shows "left_ok L c L' c'"
proof (cases k)
  case 0
  with own_step_left assms show ?thesis by simp
next
  case (Suc j)
  with assms obtain p q d where c: "c = Link p q d" by (cases c) auto
  with assms Suc show ?thesis by (auto simp: left_ok_def split: option.splits prod.splits)
qed

lemma closed_future: "chain_ok (Link p q c) \<Longrightarrow> writers q = 0 \<Longrightarrow> future X p = []"
  by (cases p) auto

lemma fresh_writer: "chain_ok (Link p q c) \<Longrightarrow> first c = Fresh \<Longrightarrow> 0 < writers q"
  by auto

lemma step_inv:
  assumes "chain_step cap L c k = Some (L', c', out)" and "chain_ok c" and "writers L = 0 \<Longrightarrow> U = []"
  shows "out @ to_print (queue L' @ U) c' = to_print (queue L @ U) c \<and>
    steps_left (queue L @ U) c = Suc (steps_left (queue L' @ U) c') \<and> chain_ok c'"
  using assms
proof (induction k arbitrary: L c L' c' U)
  case 0
  then show ?case using own_step_inv [of cap L c L' c' out U] by simp
next
  case (Suc k)
  then obtain p q d where c: "c = Link p q d" by (cases c) auto
  with Suc.prems(1) obtain q' d' where s: "chain_step cap q d k = Some (q', d', out)" and c': "L' = L" "c' = Link p q' d'"
    by (auto split: option.splits)
  have ok: "chain_ok (Link p q d)" using Suc.prems(2) c by metis
  then have okd: "chain_ok d" "\<forall>i. first d \<noteq> Gen i" by simp_all
  have IH: "out @ to_print (queue q' @ future (queue L @ U) p) d' = to_print (queue q @ future (queue L @ U) p) d \<and>
      steps_left (queue q @ future (queue L @ U) p) d = Suc (steps_left (queue q' @ future (queue L @ U) p) d') \<and> chain_ok d'"
    by (rule Suc.IH [OF s okd(1)]) (rule closed_future [OF ok])
  moreover have "chain_ok (Link p q' d')"
    by (rule link_ok [OF ok step_left [OF s okd fresh_writer [OF ok]]]) (use IH in blast)+
  ultimately show ?case unfolding c c' to_print.simps steps_left.simps by (simp del: chain_ok.simps)
qed

section \<open>Runs\<close>

lemma start_ok: "chain_ok primes_start" "to_print [] primes_start = sieve [2..<36]"
  by (simp_all add: primes_start_def new_pipe_def)

lemma primes_run_inv:
  assumes "primes_run cap out c n"
  shows "chain_ok c \<and> out @ to_print [] c = sieve [2..<36] \<and> steps_left [] c + n = steps_left [] primes_start"
  using assms
proof induction
  case start
  then show ?case using start_ok by simp
next
  case (move out c n k L c' o1)
  have L: "L = no_pipe \<or> queue L = []"
    using move.hyps(2) by (cases k; cases c; cases "first c") (auto simp: no_pipe_def close_write_def split: if_splits option.splits)
  from step_inv [OF move.hyps(2), of "[]"] move.IH L show ?case by (auto simp: no_pipe_def)
qed

text \<open>
  A chain can take a step, or it has finished, or its first process waits for the left pipe.
\<close>

lemma progress:
  assumes "chain_ok c" and "0 < cap"
  shows "(\<exists>k r. chain_step cap L c k = Some r) \<or> first c = Exited \<or>
    (queue L = [] \<and> 0 < writers L \<and> (first c = Head \<or> (\<exists>p. first c = Filt p)))"
  using assms
proof (induction c arbitrary: L)
  case (Last p)
  then show ?case
    by (cases "queue L") (auto intro!: exI [of _ 0] split: if_splits)
next
  case (Link p q c)
  have okc: "chain_ok c" using Link.prems(1) by simp
  consider (deep) k r where "chain_step cap q c k = Some r" | (fin) "first c = Exited"
    | (wait) "queue q = []" "0 < writers q" "first c = Head \<or> (\<exists>p. first c = Filt p)"
    using Link.IH [OF okc Link.prems(2), of q] by fastforce
  then show ?case
  proof cases
    case deep
    then show ?thesis by (cases r) (auto intro!: exI [of _ "Suc k"])
  next
    case fin
    then have "p = Waiting \<or> p = Exited" using Link.prems(1) by (cases p) auto
    with fin show ?thesis by (auto intro!: exI [of _ 0])
  next
    case wait
    then have "open_right p" using Link.prems(1) by (auto split: if_splits)
    then show ?thesis
    proof (cases p)
      case (Gen i)
      with wait Link.prems(2) show ?thesis by (intro disjI1 exI [of _ 0]) (simp add: pipe_write_def)
    next
      case (Pass r x)
      with wait Link.prems(2) show ?thesis by (intro disjI1 exI [of _ 0]) (simp add: pipe_write_def)
    next
      case (Filt r)
      then show ?thesis by (cases "queue L"; cases "writers L = 0") (auto intro!: exI [of _ 0])
    qed auto
  qed
qed

lemma finished:
  assumes "chain_ok c" and "first c = Exited"
  shows "to_print X c = []" and "steps_left X c = 0"
  using assms by (induction c arbitrary: X) auto

section \<open>The sieve finds the primes\<close>

definition is_prime :: "nat \<Rightarrow> bool" where
  "is_prime n \<longleftrightarrow> 2 \<le> n \<and> (\<forall>d \<in> {2..<n}. \<not> d dvd n)"

text \<open>The numbers of a range that no smaller number than \<open>m\<close> divides.\<close>

definition survivors :: "nat \<Rightarrow> nat \<Rightarrow> nat list" where
  "survivors m n = filter (\<lambda>x. \<forall>d \<in> {2..<m}. \<not> d dvd x) [m..<n]"

lemma survivors_prime:
  assumes "m < n" and "2 \<le> m" and "is_prime m"
  shows "survivors m n = m # filter (\<lambda>x. \<forall>d \<in> {2..<m}. \<not> d dvd x) [Suc m..<n]"
  using assms by (auto simp: survivors_def upt_conv_Cons is_prime_def)

lemma survivors_step:
  assumes "2 \<le> m"
  shows "filter (\<lambda>x. x mod m \<noteq> 0) (filter (\<lambda>x. \<forall>d \<in> {2..<m}. \<not> d dvd x) [Suc m..<n]) = survivors (Suc m) n"
proof -
  have "(x mod m \<noteq> 0 \<and> (\<forall>d \<in> {2..<m}. \<not> d dvd x)) = (\<forall>d \<in> {2..<Suc m}. \<not> d dvd x)" for x
    using assms by (auto simp: dvd_eq_mod_eq_0 less_Suc_eq)
  then show ?thesis by (simp add: survivors_def conj_commute)
qed

lemma survivors_composite:
  assumes "m < n" and "2 \<le> m" and "\<not> is_prime m"
  shows "survivors m n = survivors (Suc m) n"
proof -
  from assms obtain e where e: "e \<in> {2..<m}" "e dvd m" by (auto simp: is_prime_def)
  have "(\<forall>d \<in> {2..<m}. \<not> d dvd x) = (\<forall>d \<in> {2..<Suc m}. \<not> d dvd x)" for x
  proof
    assume a: "\<forall>d \<in> {2..<m}. \<not> d dvd x"
    with e have "\<not> m dvd x" by (meson dvd_trans)
    with a show "\<forall>d \<in> {2..<Suc m}. \<not> d dvd x" by (auto simp: less_Suc_eq)
  qed auto
  moreover have "\<not> (\<forall>d \<in> {2..<m}. \<not> d dvd m)" using e by blast
  ultimately show ?thesis using assms(1) by (simp add: survivors_def upt_conv_Cons)
qed

lemma sieve_survivors: "2 \<le> m \<Longrightarrow> sieve (survivors m n) = filter is_prime [m..<n]"
proof (induction "n - m" arbitrary: m)
  case 0
  then show ?case by (simp add: survivors_def)
next
  case (Suc l)
  then have m: "m < n" by simp
  have IH: "sieve (survivors (Suc m) n) = filter is_prime [Suc m..<n]" using Suc by simp
  show ?case
  proof (cases "is_prime m")
    case True
    with m Suc.prems IH survivors_prime [OF m Suc.prems True] survivors_step [OF Suc.prems, of n] show ?thesis
      by (simp add: upt_conv_Cons)
  next
    case False
    with m IH survivors_composite [OF m Suc.prems False] show ?thesis by (simp add: upt_conv_Cons)
  qed
qed

lemma sieve_primes: "sieve [2..<n] = filter is_prime [2..<n]"
  using sieve_survivors [of 2 n] by (simp add: survivors_def)

section \<open>The program is correct\<close>

text \<open>(C31) In every interleaving of the processes of \<open>primes\<close>, what has been printed so far is an
  initial part of the primes up to 35 in order, and when the program has ended it is all of them.\<close>

theorem primes_output:
  assumes "primes_run cap out c n"
  shows "\<exists>rest. out @ rest = filter is_prime [2..<36] \<and> (first c = Exited \<longrightarrow> rest = [])"
  using primes_run_inv [OF assms] finished(1) [of c "[]"] sieve_primes [of 36] by metis

theorem primes_output_witness:
  "\<exists>rest. [2] @ rest = filter is_prime [2..<36]"
proof -
  have 1: "primes_run 1 ([] @ []) (Link (Gen 3) \<lparr>queue = [2], writers = 2\<rparr> (Last Fresh)) (Suc 0)"
    by (rule move [OF start, of _ 0 no_pipe]) (simp add: primes_start_def new_pipe_def pipe_write_def)
  have 2: "primes_run 1 (([] @ []) @ []) (Link (Gen 3) \<lparr>queue = [2], writers = 1\<rparr> (Last Head)) (Suc (Suc 0))"
    by (rule move [OF 1, of 1 no_pipe]) (simp add: close_write_def)
  have 3: "primes_run 1 ((([] @ []) @ []) @ [2])
      (Link (Gen 3) \<lparr>queue = [], writers = 1\<rparr> (Link (Filt 2) new_pipe (Last Fresh))) (Suc (Suc (Suc 0)))"
    by (rule move [OF 2, of 1 no_pipe]) simp
  show ?thesis using primes_output [OF 3] by auto
qed

text \<open>(C32) \<open>primes\<close> never gets stuck and always ends: with pipes that can hold at least one number, a
  process can take a step as long as the first one has not exited, and every run has ended after
  exactly the number of steps that \<open>steps_left\<close> gives for the start, whatever the interleaving.\<close>

theorem primes_terminates:
  assumes "primes_run cap out c n" and "0 < cap"
  shows "n \<le> steps_left [] primes_start \<and>
    (first c = Exited \<longleftrightarrow> n = steps_left [] primes_start) \<and>
    (first c \<noteq> Exited \<longrightarrow> (\<exists>k L c' o1. chain_step cap no_pipe c k = Some (L, c', o1)))"
proof -
  note inv = primes_run_inv [OF assms(1)]
  have go: "\<exists>k r. chain_step cap no_pipe c k = Some r" if "first c \<noteq> Exited"
    using progress [of c cap no_pipe] inv assms(2) that by (auto simp: no_pipe_def)
  have "0 < steps_left [] c" if "first c \<noteq> Exited"
  proof -
    from go [OF that] obtain k L c' o1 where s: "chain_step cap no_pipe c k = Some (L, c', o1)" by (metis surj_pair)
    from step_inv [OF s, of "[]"] inv show ?thesis by (simp add: no_pipe_def)
  qed
  with go inv finished(2) [of c "[]"] show ?thesis by (metis (no_types) add_0 le_add2 surj_pair less_not_refl add_cancel_right_left)
qed

theorem primes_terminates_witness:
  "0 < steps_left [] primes_start \<and> (\<exists>k L c' o1. chain_step 128 no_pipe primes_start k = Some (L, c', o1))"
  using primes_terminates [OF start, of 128] by (auto simp: primes_start_def)

end
