(* ===== verification/Util_Xargs.thy ===== *)
theory Util_Xargs
  imports Prelude
begin

text \<open>
  Lab1 \<open>xargs.c\<close>: the standard input is read line by line into a buffer, the line is cut in place
  into arguments, and the command is run with them. A \<open>char *\<close> of the argument vector points into
  the buffer or at an argument of \<open>xargs\<close> itself. Reading or writing outside an array is undefined.
  The size of the vector, \<open>MAXARG\<close>, is in \<open>param.h\<close>, which is not in this part of the
  repository: it is a parameter.
\<close>

section \<open>Reading a line\<close>

abbreviation NUL :: char where "NUL \<equiv> CHR 0x00"
abbreviation NL :: char where "NL \<equiv> CHR 0x0A"
abbreviation TAB :: char where "TAB \<equiv> CHR 0x09"
abbreviation SP :: char where "SP \<equiv> CHR 0x20"

text \<open>
  The loop: whether it returned 0 at the end of the input, the number of characters read, the
  buffer, and the rest of the input.
\<close>

fun read_line_loop :: "nat \<Rightarrow> nat \<Rightarrow> string \<Rightarrow> string \<Rightarrow> (bool \<times> nat \<times> string \<times> string) outcome" where
  "read_line_loop max_len i buf [] =
     (if i < max_len then Ret (i = 0, i, buf, []) else Ret (False, i, buf, []))"
| "read_line_loop max_len i buf (c # inp) =
     (if i < max_len then
        if \<not> i < length buf then Undef ''buf''
        else if c = NL then Ret (False, i, buf[i := c], inp)
        else read_line_loop max_len (Suc i) (buf[i := c]) inp
      else Ret (False, i, buf, c # inp))"

definition read_line :: "string \<Rightarrow> nat \<Rightarrow> string \<Rightarrow> (nat \<times> string \<times> string) outcome" where
  "read_line buf max_len inp =
     obind (read_line_loop max_len 0 buf inp) (\<lambda>(eof, i, buf, inp).
     if eof then Ret (0, buf, inp)
     else if \<not> i < length buf then Undef ''buf''
     else Ret (i, buf[i := NUL], inp))"

section \<open>Cutting it into arguments\<close>

datatype arg = Ptr nat | Word string | Null

text \<open>A pointer runs over characters that satisfy \<open>P\<close>.\<close>

function run_over :: "(char \<Rightarrow> bool) \<Rightarrow> string \<Rightarrow> nat \<Rightarrow> nat" where
  "run_over P line p = (if p < length line \<and> P (line ! p) then run_over P line (Suc p) else p)"
  by pat_completeness auto

termination
  by (relation "measure (\<lambda>(P, line, p). length line - p)") auto

declare run_over.simps [simp del]

definition blank :: "char \<Rightarrow> bool" where
  "blank c \<longleftrightarrow> c = SP \<or> c = TAB"

definition inword :: "char \<Rightarrow> bool" where
  "inword c \<longleftrightarrow> c \<noteq> NUL \<and> c \<noteq> SP \<and> c \<noteq> TAB"

lemma run_over_ge: "p \<le> run_over P line p"
proof (induction P line p rule: run_over.induct)
  case (1 P line p)
  then show ?case by (subst run_over.simps) auto
qed

lemma run_over_word: "p < length line \<Longrightarrow> P (line ! p) \<Longrightarrow> p < run_over P line p"
  using run_over_ge [of "Suc p" P line] by (subst run_over.simps) simp

lemma run_over_stop: "run_over P line p < length line \<Longrightarrow> \<not> P (line ! run_over P line p)"
proof (induction P line p rule: run_over.induct)
  case (1 P line p)
  then show ?case by (subst (asm) (2) run_over.simps, subst run_over.simps) (auto split: if_splits)
qed

lemma word_progress:
  assumes "run_over blank line p < length line" and "line ! run_over blank line p \<noteq> NUL"
  shows "p < run_over inword line (run_over blank line p)"
  using run_over_word [OF assms(1), of inword] run_over_stop [OF assms(1)] assms(2) run_over_ge [of p blank line]
  by (auto simp: blank_def inword_def)

function parse_loop ::
    "nat \<Rightarrow> string \<Rightarrow> nat \<Rightarrow> nat \<Rightarrow> arg list \<Rightarrow> (string \<times> nat \<times> arg list) outcome" where
  "parse_loop MAXARG line p i argv =
     (if \<not> p < length line then Undef ''line''
      else if line ! p = NUL \<or> \<not> i < MAXARG - 1 then Ret (line, i, argv)
      else
        let p1 = run_over blank line p in
        if \<not> p1 < length line then Undef ''line''
        else if line ! p1 = NUL then Ret (line, i, argv)
        else if \<not> i < length argv then Undef ''argv''
        else
          let argv = argv[i := Ptr p1];
              p2 = run_over inword line p1
          in if \<not> p2 < length line then Undef ''line''
             else if line ! p2 \<noteq> NUL then parse_loop MAXARG (line[p2 := NUL]) (Suc p2) (Suc i) argv
             else parse_loop MAXARG line p2 (Suc i) argv)"
  by pat_completeness auto

termination
proof (relation "measure (\<lambda>(MAXARG, line, p, i, argv). length line - p)", goal_cases)
  case (2 MAXARG line p i argv p1 argv1 p2)
  then show ?case using word_progress [of line p] by auto
next
  case (3 MAXARG line p i argv p1 argv1 p2)
  then show ?case using word_progress [of line p] by auto
qed simp

declare parse_loop.simps [simp del]

definition parse_args :: "nat \<Rightarrow> string \<Rightarrow> arg list \<Rightarrow> nat \<Rightarrow> (nat \<times> string \<times> arg list) outcome" where
  "parse_args MAXARG line argv argc =
     obind (parse_loop MAXARG line 0 argc argv) (\<lambda>(line, i, argv).
     if \<not> i < length argv then Undef ''argv'' else Ret (i, line, argv[i := Null]))"

section \<open>The program\<close>

text \<open>
  What \<open>exec\<close> is given: the C strings of the vector up to its null pointer. The command is a
  parameter, \<open>child\<close>: as it shares the standard input, it may take characters from it, and how
  many is its value. Whether the fork number \<open>k\<close> succeeds is the parameter \<open>fork_ok\<close>. A failing
  \<open>exec\<close> ends the child only. The result is the list of the vectors handed to \<open>exec\<close> and the
  exit status.
\<close>

definition cstr :: "string \<Rightarrow> nat \<Rightarrow> string" where
  "cstr buf p = takeWhile (\<lambda>c. c \<noteq> NUL) (drop p buf)"

fun arg_str :: "string \<Rightarrow> arg \<Rightarrow> string" where
  "arg_str buf (Ptr p) = cstr buf p"
| "arg_str buf (Word s) = s"
| "arg_str buf Null = []"

definition exec_args :: "string \<Rightarrow> arg list \<Rightarrow> string list" where
  "exec_args buf argv = map (arg_str buf) (takeWhile (\<lambda>a. a \<noteq> Null) argv)"

lemma read_line_loop_shorter:
  "read_line_loop max_len i buf inp = Ret (eof, n, buf', inp') \<Longrightarrow>
     length inp' \<le> length inp \<and> i \<le> n \<and> (i < n \<longrightarrow> length inp' < length inp)"
  by (induction max_len i buf inp rule: read_line_loop.induct) (fastforce split: if_splits)+

lemma read_line_shorter:
  "read_line buf max_len inp = Ret (n, buf', inp') \<Longrightarrow> 0 < n \<Longrightarrow> length inp' < length inp"
  by (auto simp: read_line_def obind_eq_Ret split: if_splits dest!: read_line_loop_shorter)

function xargs_loop ::
    "nat \<Rightarrow> nat \<Rightarrow> (nat \<Rightarrow> bool) \<Rightarrow> (string list \<Rightarrow> string \<Rightarrow> nat) \<Rightarrow> nat \<Rightarrow> string \<Rightarrow> arg list \<Rightarrow>
     string list list \<Rightarrow> string \<Rightarrow> (string list list \<times> nat) outcome" where
  "xargs_loop MAXARG argc fork_ok child k buf xargs_argv cmds inp =
     obind (read_line buf (length buf) inp) (\<lambda>(n, buf, inp').
     if \<not> 0 < n then Ret (cmds, 0)
     else
       obind (parse_args MAXARG buf xargs_argv (argc - 1)) (\<lambda>(xargs_argc, buf, xargs_argv).
       if \<not> fork_ok k then Ret (cmds, 1)
       else
         let v = exec_args buf xargs_argv
         in xargs_loop MAXARG argc fork_ok child (Suc k) buf xargs_argv (cmds @ [v]) (drop (child v inp') inp')))"
  by pat_completeness auto

termination
  by (relation "measure (\<lambda>(MAXARG, argc, fork_ok, child, k, buf, xargs_argv, cmds, inp). length inp)")
    (auto dest!: read_line_shorter)

declare xargs_loop.simps [simp del]

fun copy_args :: "string list \<Rightarrow> nat \<Rightarrow> arg list \<Rightarrow> arg list outcome" where
  "copy_args [] i xargs_argv = Ret xargs_argv"
| "copy_args (a # args) i xargs_argv =
     (if \<not> i < length xargs_argv then Undef ''xargs_argv''
      else copy_args args (Suc i) (xargs_argv[i := Word a]))"

text \<open>\<open>buf0\<close> and \<open>argv0\<close> are what the two local arrays hold on entry.\<close>

definition xargs_main ::
    "nat \<Rightarrow> (nat \<Rightarrow> bool) \<Rightarrow> (string list \<Rightarrow> string \<Rightarrow> nat) \<Rightarrow> string \<Rightarrow> arg list \<Rightarrow>
     string list \<Rightarrow> string \<Rightarrow> (string list list \<times> nat) outcome" where
  "xargs_main MAXARG fork_ok child buf0 argv0 argv inp =
     (if length argv < 2 then Ret ([], 1)
      else
        obind (copy_args (tl argv) 0 argv0) (\<lambda>xargs_argv.
        xargs_loop MAXARG (length argv) fork_ok child 0 buf0 xargs_argv [] inp))"

section \<open>What it should do\<close>

text \<open>The words of a line.\<close>

function tokens :: "string \<Rightarrow> string list" where
  "tokens s =
     (case dropWhile blank s of
        [] \<Rightarrow> []
      | c # s' \<Rightarrow> takeWhile (\<lambda>c. \<not> blank c) (c # s') # tokens (dropWhile (\<lambda>c. \<not> blank c) s'))"
  by pat_completeness auto

termination
proof (relation "measure length", goal_cases)
  case (2 s c s')
  then have "length s' < length s"
    by (metis length_Cons length_dropWhile_le less_eq_Suc_le)
  then show ?case using length_dropWhile_le [of "\<lambda>c. \<not> blank c" s'] by simp
qed simp

declare tokens.simps [simp del]

text \<open>
  The reference: one command per line up to the end of the input or the first empty line, with the
  words of the line, as many as there is room for, after the arguments of \<open>xargs\<close>; a line of 512
  characters or more overruns the buffer.
\<close>

function xargs_ref ::
    "nat \<Rightarrow> string list \<Rightarrow> (nat \<Rightarrow> bool) \<Rightarrow> (string list \<Rightarrow> string \<Rightarrow> nat) \<Rightarrow> nat \<Rightarrow>
     string list list \<Rightarrow> string \<Rightarrow> (string list list \<times> nat) outcome" where
  "xargs_ref room args fork_ok child k cmds inp =
     (let l = takeWhile (\<lambda>c. c \<noteq> NL) inp;
          rest = drop (Suc (length l)) inp;
          v = args @ take room (tokens (takeWhile (\<lambda>c. c \<noteq> NUL) l))
      in if l = [] then Ret (cmds, 0)
         else if 512 \<le> length l then Undef ''buf''
         else if \<not> fork_ok k then Ret (cmds, 1)
         else xargs_ref room args fork_ok child (Suc k) (cmds @ [v]) (drop (child v rest) rest))"
  by pat_completeness auto

termination
  by (relation "measure (\<lambda>(room, args, fork_ok, child, k, cmds, inp). length inp)") (auto, metis diff_less
      length_greater_0_conv takeWhile.simps(1) zero_less_Suc)

declare xargs_ref.simps [simp del]

section \<open>Reading gives the line\<close>

lemma read_line_loop_line:
  assumes "i + length l < length buf" and "NL \<notin> set l" and "inp = [] \<or> inp = NL # rest"
  shows "read_line_loop (length buf) i buf (l @ inp) =
    Ret (inp = [] \<and> i + length l = 0, i + length l,
         take i buf @ l @ (if inp = [] then drop (i + length l) buf
                           else NL # drop (Suc (i + length l)) buf),
         if inp = [] then [] else rest)"
  using assms
proof (induction l arbitrary: i buf)
  case Nil
  then show ?case by (auto simp: upd_conv_take_nth_drop)
next
  case (Cons c l)
  have "read_line_loop (length buf) (Suc i) (buf[i := c]) (l @ inp) =
     Ret (inp = [] \<and> Suc i + length l = 0, Suc i + length l,
         take (Suc i) (buf[i := c]) @ l @ (if inp = [] then drop (Suc i + length l) (buf[i := c])
                           else NL # drop (Suc (Suc i + length l)) (buf[i := c])),
         if inp = [] then [] else rest)"
    using Cons.IH [of "Suc i" "buf[i := c]"] Cons.prems by simp
  then show ?case using Cons.prems by (auto simp: take_Suc_conv_app_nth)
qed

lemma read_line_loop_long:
  assumes "i \<le> length buf" and "length buf \<le> i + length l" and "NL \<notin> set l"
  shows "\<exists>buf' inp'. read_line_loop (length buf) i buf (l @ inp) = Ret (False, length buf, buf', inp') \<and>
    length buf' = length buf"
  using assms
proof (induction l arbitrary: i buf)
  case Nil
  then have "i = length buf" by simp
  then show ?case by (cases inp) auto
next
  case (Cons c l)
  show ?case
  proof (cases "i < length buf")
    case True
    then show ?thesis using Cons.IH [of "Suc i" "buf[i := c]"] Cons.prems by auto
  next
    case False
    then have "i = length buf" using Cons.prems by simp
    then show ?thesis by simp
  qed
qed

text \<open>The input as its first line and what follows.\<close>

lemma first_line:
  obtains l t where "inp = l @ t" and "NL \<notin> set l" and "t = [] \<or> t = NL # drop (Suc (length l)) inp"
    and "takeWhile (\<lambda>c. c \<noteq> NL) inp = l"
proof
  let ?P = "\<lambda>c. c \<noteq> NL"
  show "inp = takeWhile ?P inp @ dropWhile ?P inp" by simp
  show "NL \<notin> set (takeWhile ?P inp)" using set_takeWhileD by fastforce
  show "dropWhile ?P inp = [] \<or> dropWhile ?P inp = NL # drop (Suc (length (takeWhile ?P inp))) inp"
  proof (cases "dropWhile ?P inp")
    case (Cons c t)
    then have "c = NL" using hd_dropWhile [of ?P inp] by simp
    moreover have "drop (length (takeWhile ?P inp)) inp = c # t"
      using Cons by (simp add: dropWhile_eq_drop)
    then have "drop (Suc (length (takeWhile ?P inp))) inp = t"
      by (simp add: drop_Suc flip: tl_drop)
    ultimately show ?thesis using Cons by simp
  qed simp
qed simp

lemma read_line_correct:
  assumes "length (takeWhile (\<lambda>c. c \<noteq> NL) inp) < length buf"
  defines "l \<equiv> takeWhile (\<lambda>c. c \<noteq> NL) inp"
  shows "\<exists>buf' inp'. read_line buf (length buf) inp = Ret (length l, buf', inp') \<and>
    length buf' = length buf \<and>
    (l \<noteq> [] \<longrightarrow> inp' = drop (Suc (length l)) inp \<and> (\<exists>r. buf' = l @ NUL # r))"
proof -
  obtain t where t: "inp = l @ t" "NL \<notin> set l" "t = [] \<or> t = NL # drop (Suc (length l)) inp"
    unfolding l_def by (metis first_line)
  have len: "length l < length buf" using assms by simp
  show ?thesis
  proof (cases "t = []")
    case True
    then have "read_line_loop (length buf) 0 buf inp = Ret (l = [], length l, l @ drop (length l) buf, [])"
      using read_line_loop_line [of 0 l buf t] t len by simp
    moreover have "l @ drop (length l) buf = l @ buf ! length l # drop (Suc (length l)) buf"
      using len by (simp add: Cons_nth_drop_Suc)
    ultimately show ?thesis using len t True by (auto simp: read_line_def)
  next
    case False
    then have "read_line_loop (length buf) 0 buf inp =
        Ret (False, length l, l @ NL # drop (Suc (length l)) buf, drop (Suc (length l)) inp)"
      using read_line_loop_line [of 0 l buf t "drop (Suc (length l)) inp"] t len by simp
    then show ?thesis using len by (auto simp: read_line_def)
  qed
qed

lemma read_line_too_long:
  assumes "length buf \<le> length (takeWhile (\<lambda>c. c \<noteq> NL) inp)" and "buf \<noteq> []"
  shows "read_line buf (length buf) inp = Undef ''buf''"
proof -
  obtain l t where t: "inp = l @ t" "NL \<notin> set l" "takeWhile (\<lambda>c. c \<noteq> NL) inp = l"
    by (metis first_line)
  then show ?thesis
    using read_line_loop_long [of 0 buf l t] assms by (auto simp: read_line_def)
qed

section \<open>Parsing gives its words\<close>

lemma run_over_eq: "run_over P line p = p + length (takeWhile P (drop p line))"
proof (induction P line p rule: run_over.induct)
  case (1 P line p)
  show ?case
  proof (cases "p < length line")
    case True
    then have "drop p line = line ! p # drop (Suc p) line" by (simp add: Cons_nth_drop_Suc)
    then show ?thesis using 1 True by (subst run_over.simps) simp
  qed (subst run_over.simps, simp)
qed

lemma run_over_drop: "drop (run_over P line p) line = dropWhile P (drop p line)"
  by (simp add: run_over_eq dropWhile_eq_drop add.commute)

lemma takeWhile_append_stop: "\<not> P c \<Longrightarrow> takeWhile P (s @ c # r) = takeWhile P s"
  by (induction s) auto

lemma dropWhile_append_stop: "\<not> P c \<Longrightarrow> dropWhile P (s @ c # r) = dropWhile P s @ c # r"
  by (induction s) auto

lemma drop_Cons_nth: "drop p xs = c # r \<Longrightarrow> p < length xs \<and> xs ! p = c \<and> drop (Suc p) xs = r"
  by (metis Cons_nth_drop_Suc drop_all list.distinct(1) list.inject not_le_imp_less)

text \<open>
  What parsing from \<open>p\<close> on may do to the line: characters from \<open>p\<close> on become null.
\<close>

definition keeps :: "nat \<Rightarrow> string \<Rightarrow> string \<Rightarrow> bool" where
  "keeps p line line' \<longleftrightarrow> length line' = length line \<and>
     (\<forall>j < length line. line' ! j = line ! j \<or> p \<le> j \<and> line' ! j = NUL)"

lemma keeps_refl [simp]: "keeps p line line"
  by (simp add: keeps_def)

lemma keeps_later: "keeps q line line' \<Longrightarrow> p \<le> q \<Longrightarrow> keeps p line line'"
  by (force simp: keeps_def)

lemma keepsD: "keeps p line line' \<Longrightarrow> j < length line \<Longrightarrow> line' ! j = line ! j \<or> p \<le> j \<and> line' ! j = NUL"
  by (simp add: keeps_def)

lemma keeps_cut:
  assumes "keeps q (line[q' := NUL]) line'" and "p \<le> q" and "p \<le> q'"
  shows "keeps p line line'"
proof -
  have "line' ! j = line ! j \<or> p \<le> j \<and> line' ! j = NUL" if "j < length line" for j
    using keepsD [OF assms(1), of j] that assms(2,3) by (cases "j = q'") auto
  then show ?thesis using assms(1) by (simp add: keeps_def)
qed

text \<open>A word that ends before \<open>q\<close> is left alone.\<close>

lemma cstr_keeps:
  assumes "keeps q line line'" and "drop p line = w @ NUL # r" and "NUL \<notin> set w" and "p + length w \<le> q"
  shows "cstr line' p = w"
proof -
  have len: "p + length w < length line" using assms(2)
    by (metis add.commute add_diff_cancel_left' drop_all length_append length_drop less_add_same_cancel1
        less_diff_conv list.size(4) not_less zero_less_Suc append_is_Nil_conv list.distinct(1) add_Suc_right)
  have line: "line ! (p + j) = (w @ NUL # r) ! j" for j
    using assms(2) by (metis add.commute drop_all list.distinct(1) append_is_Nil_conv nth_drop not_less less_imp_le)
  have "line' ! (p + j) = w ! j" if "j < length w" for j
    using keepsD [OF assms(1), of "p + j"] assms(4) len line [of j] that by (simp add: nth_append)
  moreover have "line' ! (p + length w) = NUL"
    using keepsD [OF assms(1), of "p + length w"] len line [of "length w"] by auto
  ultimately have "drop p line' = w @ NUL # drop (Suc (p + length w)) line'"
    using assms(1) len
    by (intro nth_equalityI) (auto simp: keeps_def nth_append nth_Cons' nth_drop le_less_Suc_eq
        not_less intro!: arg_cong [where f = "(!) line'"])
  then show ?thesis using assms(3) by (simp add: cstr_def takeWhile_append_stop) (metis takeWhile_eq_all_conv)
qed

lemma tokens_none: "dropWhile blank s = [] \<Longrightarrow> tokens s = []"
  by (subst tokens.simps) (simp del: dropWhile_eq_Nil_conv)

lemma tokens_some:
  assumes "dropWhile blank s = c # s'"
  shows "tokens s = takeWhile (\<lambda>c. \<not> blank c) (c # s') # tokens (dropWhile (\<lambda>c. \<not> blank c) (c # s'))"
proof -
  have "\<not> blank c" using hd_dropWhile [of blank s] assms by simp
  then show ?thesis using assms by (subst tokens.simps) simp
qed

lemma tokens_blank: "blank d \<Longrightarrow> tokens (d # s) = tokens s"
  by (subst (1 2) tokens.simps) simp

lemma blank_NUL [simp]: "\<not> blank NUL" and inword_NUL [simp]: "\<not> inword NUL"
  by (simp_all add: blank_def inword_def)

lemma inword_blank: "NUL \<notin> set s \<Longrightarrow> takeWhile inword s = takeWhile (\<lambda>c. \<not> blank c) s"
  by (induction s) (auto simp: inword_def blank_def)

lemma inword_blank_drop: "NUL \<notin> set s \<Longrightarrow> dropWhile inword s = dropWhile (\<lambda>c. \<not> blank c) s"
  by (induction s) (auto simp: inword_def blank_def)

text \<open>One round of the loop: the word and where the next round starts.\<close>

lemma parse_loop_word:
  assumes "drop p line = s @ NUL # rest" and "NUL \<notin> set s" and "i < MAXARG - 1" and "MAXARG \<le> length argv"
    and s': "dropWhile blank s = c # s'"
  obtains p1 p2 w s2 q where "tokens s = w # tokens s2" and "NUL \<notin> set w" and "NUL \<notin> set s2"
    and "length s2 < length s" and "p \<le> p1" and "p2 = p1 + length w" and "p2 \<le> q"
    and "drop p1 (line[p2 := NUL]) = w @ NUL # drop (Suc p2) (line[p2 := NUL])"
    and "drop q (line[p2 := NUL]) = s2 @ NUL # rest"
    and "parse_loop MAXARG line p i argv = parse_loop MAXARG (line[p2 := NUL]) q (Suc i) (argv[i := Ptr p1])"
proof -
  let ?nb = "\<lambda>c. \<not> blank c"
  define w t where "w = takeWhile ?nb (c # s')" and "t = dropWhile ?nb (c # s')"
  define p1 where "p1 = run_over blank line p"
  define p2 where "p2 = run_over inword line p1"
  define q where "q = (if t = [] then p2 else Suc p2)"
  have ns: "NUL \<notin> set (c # s')" using assms(2) s' set_dropWhileD [of NUL blank s] by auto
  have wt: "c # s' = w @ t" by (simp add: w_def t_def)
  have d1: "drop p1 line = w @ t @ NUL # rest"
    using s' wt by (simp add: p1_def run_over_drop assms(1) dropWhile_append_stop)
  have p2: "p2 = p1 + length w"
  proof -
    have "drop p1 line = (c # s') @ NUL # rest" using d1 wt by simp
    then show ?thesis
      using takeWhile_append_stop [of inword NUL "c # s'" rest] inword_blank [OF ns]
      by (simp only: p2_def run_over_eq inword_NUL w_def not_False_eq_True)
  qed
  have d2: "drop p2 line = t @ NUL # rest"
    using d1 p2 by (metis add.commute append_eq_conv_conj drop_drop)
  have "drop p1 line = c # (s' @ NUL # rest)" using d1 wt by simp
  moreover have "drop p2 line = hd (t @ [NUL]) # tl (t @ NUL # rest)" using d2 by (cases t) simp_all
  moreover have "drop p line = hd s # tl s @ NUL # rest" "hd s \<noteq> NUL" using assms(1,2) s' by (cases s; auto)+
  ultimately have L: "p < length line" "line ! p \<noteq> NUL" "p1 < length line" "line ! p1 = c" "p2 < length line"
    "line ! p2 = hd (t @ [NUL])"
    by (metis drop_Cons_nth)+
  have tb: "t = [] \<or> blank (hd t)" using hd_dropWhile [of ?nb "c # s'"] unfolding t_def by blast
  show ?thesis
  proof
    show "tokens s = w # tokens (tl t)"
      using tokens_some [OF s'] tb by (cases t) (auto simp: w_def t_def tokens_blank)
    show "NUL \<notin> set w" "NUL \<notin> set (tl t)" using ns wt by (cases t; auto)+
    show "length (tl t) < length s"
      using arg_cong [OF wt, of length] length_dropWhile_le [of blank s] unfolding s' by simp
    show "p \<le> p1" by (simp add: p1_def run_over_ge)
    show "p2 = p1 + length w" by (rule p2)
    show "p2 \<le> q" by (simp add: q_def)
    show "drop p1 (line[p2 := NUL]) = w @ NUL # drop (Suc p2) (line[p2 := NUL])"
    proof -
      have "drop (Suc p2) line = tl (t @ NUL # rest)" using d2 by (simp add: drop_Suc flip: tl_drop)
      then show ?thesis using d1 p2 by (cases t) (simp_all add: drop_update_swap list_update_append)
    qed
    show "drop q (line[p2 := NUL]) = tl t @ NUL # rest"
      using d2 L by (cases t) (auto simp: q_def drop_update_swap dest: drop_Cons_nth)
    show "parse_loop MAXARG line p i argv = parse_loop MAXARG (line[p2 := NUL]) q (Suc i) (argv[i := Ptr p1])"
    proof -
      have "run_over blank line p = p1" "run_over inword line p1 = p2" "i < length argv" "line ! p1 \<noteq> NUL"
        using assms(3,4) ns L by (auto simp: p1_def p2_def)
      moreover have "line ! p2 = NUL \<longleftrightarrow> t = []" using L(6) tb by (cases t) auto
      moreover have "line[p2 := NUL] = line" if "t = []" using that L(6) by (simp add: list_update_same_conv L(5))
      ultimately show ?thesis using L(1-5) assms(3) by (subst parse_loop.simps) (simp add: Let_def q_def)
    qed
  qed
qed

text \<open>The pointers hold the words, as many as fit.\<close>

lemma parse_loop_stop:
  assumes "drop p line = s @ NUL # rest" and "NUL \<notin> set s"
    and "dropWhile blank s = [] \<or> \<not> i < MAXARG - 1"
  shows "parse_loop MAXARG line p i argv = Ret (line, i, argv)"
proof -
  define p1 where "p1 = run_over blank line p"
  have "drop p line = hd (s @ [NUL]) # tl (s @ NUL # rest)" using assms(1) by (cases s) simp_all
  then have "p < length line" by (metis drop_Cons_nth)
  moreover have "p1 < length line \<and> line ! p1 = NUL" if "dropWhile blank s = []"
  proof -
    have "drop p1 line = NUL # rest"
      using that by (simp add: p1_def run_over_drop assms(1) dropWhile_append_stop del: dropWhile_eq_Nil_conv)
    then show ?thesis using drop_Cons_nth [of p1 line NUL rest] by simp
  qed
  ultimately show ?thesis using assms(3) by (subst parse_loop.simps) (auto simp: p1_def Let_def)
qed

lemma parse_loop_spec:
  assumes "drop p line = s @ NUL # rest" and "NUL \<notin> set s" and "MAXARG \<le> length argv"
  shows "\<exists>line' ptrs. parse_loop MAXARG line p i argv =
      Ret (line', i + length ptrs, take i argv @ map Ptr ptrs @ drop (i + length ptrs) argv) \<and>
    keeps p line line' \<and> map (cstr line') ptrs = take (MAXARG - 1 - i) (tokens s)"
  using assms
proof (induction s arbitrary: line p i argv rule: measure_induct_rule [where f = length])
  case (less s)
  show ?case
  proof (cases "dropWhile blank s = [] \<or> \<not> i < MAXARG - 1")
    case True
    then have "take (MAXARG - 1 - i) (tokens s) = []" using tokens_none by auto
    then show ?thesis using parse_loop_stop [OF less.prems(1,2) True]
      by (intro exI [of _ line] exI [of _ "[]"]) simp
  next
    case False
    then obtain c s' where s': "dropWhile blank s = c # s'" and i: "i < MAXARG - 1" by (cases "dropWhile blank s") auto
    obtain p1 p2 w s2 q where W: "tokens s = w # tokens s2" "NUL \<notin> set w" "NUL \<notin> set s2"
      "length s2 < length s" "p \<le> p1" "p2 = p1 + length w" "p2 \<le> q"
      "drop p1 (line[p2 := NUL]) = w @ NUL # drop (Suc p2) (line[p2 := NUL])"
      "drop q (line[p2 := NUL]) = s2 @ NUL # rest"
      and eq: "parse_loop MAXARG line p i argv = parse_loop MAXARG (line[p2 := NUL]) q (Suc i) (argv[i := Ptr p1])"
      using parse_loop_word [OF less.prems(1,2) i less.prems(3) s'] by metis
    obtain line' ptrs where R: "parse_loop MAXARG (line[p2 := NUL]) q (Suc i) (argv[i := Ptr p1]) =
        Ret (line', Suc i + length ptrs, take (Suc i) (argv[i := Ptr p1]) @ map Ptr ptrs @
             drop (Suc i + length ptrs) (argv[i := Ptr p1]))"
      and K: "keeps q (line[p2 := NUL]) line'"
      and T: "map (cstr line') ptrs = take (MAXARG - 1 - Suc i) (tokens s2)"
      using less.IH [OF W(4) W(9) W(3), of "argv[i := Ptr p1]" "Suc i"] less.prems(3) by auto
    have "take (Suc i) (argv[i := Ptr p1]) = take i argv @ [Ptr p1]"
      using i less.prems(3) by (simp add: take_Suc_conv_app_nth)
    then have "parse_loop MAXARG line p i argv = Ret (line', i + length (p1 # ptrs),
        take i argv @ map Ptr (p1 # ptrs) @ drop (i + length (p1 # ptrs)) argv)"
      using R eq by simp
    moreover have "cstr line' p1 = w" using cstr_keeps [OF K W(8) W(2)] W(6,7) by simp
    then have "map (cstr line') (p1 # ptrs) = take (MAXARG - 1 - i) (tokens s)"
      using T W(1) i by (simp add: take_Cons' Suc_diff_Suc)
    moreover have "keeps p line line'" using keeps_cut [OF K] W(5-7) by simp
    ultimately show ?thesis by (intro exI conjI)
  qed
qed

lemma parse_args_spec:
  assumes "line = s @ NUL # rest" and "NUL \<notin> set s" and "MAXARG = length argv" and "i < MAXARG"
  shows "\<exists>line' ptrs. parse_args MAXARG line argv i =
      Ret (i + length ptrs, line', take i argv @ map Ptr ptrs @ Null # drop (Suc (i + length ptrs)) argv) \<and>
    length line' = length line \<and> map (cstr line') ptrs = take (MAXARG - 1 - i) (tokens s)"
proof -
  obtain line' ptrs where R: "parse_loop MAXARG line 0 i argv =
      Ret (line', i + length ptrs, take i argv @ map Ptr ptrs @ drop (i + length ptrs) argv)"
    and K: "keeps 0 line line'" and T: "map (cstr line') ptrs = take (MAXARG - 1 - i) (tokens s)"
    using parse_loop_spec [of 0 line s rest MAXARG argv i] assms by auto
  have n: "i + length ptrs < length argv" using arg_cong [OF T, of length] assms(3,4) by auto
  then have "(take i argv @ map Ptr ptrs @ drop (i + length ptrs) argv)[i + length ptrs := Null] =
      take i argv @ map Ptr ptrs @ Null # drop (Suc (i + length ptrs)) argv"
    by (simp add: list_update_append flip: Cons_nth_drop_Suc)
  then show ?thesis using R K T n by (intro exI [of _ line'] exI [of _ ptrs]) (auto simp: parse_args_def keeps_def)
qed

section \<open>The whole program\<close>

lemma copy_args_spec:
  "i + length args \<le> length argv \<Longrightarrow>
     copy_args args i argv = Ret (take i argv @ map Word args @ drop (i + length args) argv)"
proof (induction args arbitrary: i argv)
  case (Cons a args)
  then show ?case by (simp add: take_Suc_conv_app_nth)
qed simp

lemma exec_args_vector:
  "exec_args buf (map Word args @ map Ptr ptrs @ Null # r) = args @ map (cstr buf) ptrs"
proof -
  have "takeWhile (\<lambda>a. a \<noteq> Null) (map Word args @ map Ptr ptrs @ Null # r) = map Word args @ map Ptr ptrs"
    using takeWhile_append_stop [of "\<lambda>a. a \<noteq> Null" Null "map Word args @ map Ptr ptrs" r]
    by (auto simp: takeWhile_eq_all_conv)
  then show ?thesis by (simp add: exec_args_def comp_def)
qed

lemma xargs_loop_ref:
  assumes "length buf = 512" and "length argv = MAXARG" and "length args < MAXARG"
    and "take (length args) argv = map Word args"
  shows "xargs_loop MAXARG (Suc (length args)) fork_ok child k buf argv cmds inp =
    xargs_ref (MAXARG - 1 - length args) args fork_ok child k cmds inp"
  using assms
proof (induction inp arbitrary: buf argv k cmds rule: measure_induct_rule [where f = length])
  case (less inp)
  define l where "l = takeWhile (\<lambda>c. c \<noteq> NL) inp"
  define s where "s = takeWhile (\<lambda>c. c \<noteq> NUL) l"
  define rest where "rest = drop (Suc (length l)) inp"
  define v where "v = args @ take (MAXARG - 1 - length args) (tokens s)"
  show ?case
  proof (cases "l = [] \<or> 512 \<le> length l")
    case True
    then show ?thesis
    proof
      assume "l = []"
      then show ?thesis using read_line_correct [of inp buf] less.prems(1)
        by (subst xargs_loop.simps, subst xargs_ref.simps) (auto simp: l_def Let_def)
    next
      assume "512 \<le> length l"
      moreover have "buf \<noteq> []" using less.prems(1) by auto
      ultimately show ?thesis using read_line_too_long [of buf inp] less.prems(1)
        by (subst xargs_loop.simps, subst xargs_ref.simps) (auto simp: l_def Let_def)
    qed
  next
    case False
    then obtain buf1 r where R: "read_line buf (length buf) inp = Ret (length l, buf1, rest)"
      "buf1 = l @ NUL # r" "length buf1 = 512"
      using read_line_correct [of inp buf] less.prems(1) by (auto simp: l_def rest_def)
    obtain r' where "buf1 = s @ NUL # r'" "NUL \<notin> set s"
    proof -
      have "\<exists>r'. buf1 = s @ NUL # r'"
        unfolding R(2) s_def by (induction l) auto
      then show ?thesis using that set_takeWhileD [of NUL "\<lambda>c. c \<noteq> NUL" l] by (auto simp: s_def)
    qed
    then obtain buf2 ptrs where A: "parse_args MAXARG buf1 argv (length args) =
        Ret (length args + length ptrs, buf2, map Word args @ map Ptr ptrs @ Null # drop (Suc (length args + length ptrs)) argv)"
      "length buf2 = 512" "map (cstr buf2) ptrs = take (MAXARG - 1 - length args) (tokens s)"
      using parse_args_spec [of buf1 s r' MAXARG argv "length args"] R(3) less.prems by auto
    define argv2 where "argv2 = map Word args @ map Ptr ptrs @ Null # drop (Suc (length args + length ptrs)) argv"
    have ex: "exec_args buf2 argv2 = v" by (simp add: argv2_def exec_args_vector A(3) v_def)
    have "length argv2 = MAXARG"
      using less.prems(2,3) arg_cong [OF A(3), of length] by (auto simp: argv2_def)
    then have "xargs_loop MAXARG (Suc (length args)) fork_ok child (Suc k) buf2 argv2 (cmds @ [v]) (drop (child v rest) rest) =
      xargs_ref (MAXARG - 1 - length args) args fork_ok child (Suc k) (cmds @ [v]) (drop (child v rest) rest)"
      using less.prems(3) False A(2) by (intro less.IH) (cases inp; auto simp: rest_def l_def argv2_def)+
    then show ?thesis using False R(1) A(1)
      by (subst xargs_loop.simps, subst xargs_ref.simps)
        (simp add: Let_def ex v_def [symmetric, simplified] flip: l_def s_def rest_def argv2_def)
  qed
qed

text \<open>
  (C33) \<open>xargs\<close> computes its reference: whatever the input, the command and the contents of the
  local arrays, as long as the arguments leave room for the final null pointer. It runs the
  command once per line with the words of the line appended, stops at the end of the input or at
  the first empty line, exits with 1 when a fork fails, and has undefined behaviour exactly when
  a line that it gets to does not fit the buffer.
\<close>

theorem xargs_correct:
  assumes "length buf0 = 512" and "length argv0 = MAXARG"
    and "args \<noteq> []" and "length args < MAXARG"
  shows "xargs_main MAXARG fork_ok child buf0 argv0 (prog # args) inp =
    xargs_ref (MAXARG - 1 - length args) args fork_ok child 0 [] inp"
proof -
  have "copy_args args 0 argv0 = Ret (map Word args @ drop (length args) argv0)"
    using copy_args_spec [of 0 args argv0] assms by simp
  moreover have "xargs_loop MAXARG (Suc (length args)) fork_ok child 0 buf0 (map Word args @ drop (length args) argv0) [] inp =
    xargs_ref (MAXARG - 1 - length args) args fork_ok child 0 [] inp"
    using assms by (intro xargs_loop_ref) auto
  ultimately show ?thesis using assms(3) by (cases args) (auto simp: xargs_main_def)
qed

definition sample_input :: string where
  "sample_input = ''one  two'' @ [NL] @ ''three four five'' @ [NL, NL] @ ''six''"

lemma sample_ref:
  "xargs_ref 2 [''echo'', ''x''] (\<lambda>_. True) (\<lambda>_ _. 0) 0 [] sample_input =
     Ret ([[''echo'', ''x'', ''one'', ''two''], [''echo'', ''x'', ''three'', ''four'']], 0)"
  by (simp add: sample_input_def xargs_ref.simps tokens.simps blank_def Let_def)

theorem xargs_correct_witness:
  "xargs_main 5 (\<lambda>_. True) (\<lambda>_ _. 0) (replicate 512 SP) (replicate 5 Null) [''xargs'', ''echo'', ''x''] sample_input =
     Ret ([[''echo'', ''x'', ''one'', ''two''], [''echo'', ''x'', ''three'', ''four'']], 0)"
  using xargs_correct [of "replicate 512 SP" "replicate 5 Null" 5 "[''echo'', ''x'']" "\<lambda>_. True" "\<lambda>_ _. 0" "''xargs''" sample_input]
  by (simp add: sample_ref)

end
