(* ===== verification/Util_Find.thy ===== *)
theory Util_Find
  imports Prelude
begin

text \<open>
  Lab1 \<open>find.c\<close>: a recursive search for files of a name. The file system is not part of the
  repository; what the program sees of it is a parameter, constant during the run: whether a path
  can be opened and what \<open>stat\<close> says of it, both of which also depend on how many descriptors the
  process holds, and the entries of a directory, an inode number and a name field of \<open>DIRSIZ\<close>
  bytes that need not contain a null byte. Paths and file names are C strings without their null
  byte. What the program writes, to either output, is a list of events.
\<close>

section \<open>The program\<close>

record fsys =
  DIRSIZ :: nat
  T_DIR :: nat
  T_FILE :: nat
  fs_open :: "nat \<Rightarrow> string \<Rightarrow> bool"
  fs_fstat :: "string \<Rightarrow> nat option"
  fs_stat :: "nat \<Rightarrow> string \<Rightarrow> nat option"
  fs_read :: "string \<Rightarrow> (nat \<times> string) list"

datatype event =
    Cannot_open string
  | Cannot_stat string
  | Not_dir string
  | Too_long
  | Found string
  | Usage

text \<open>
  \<open>fmtname\<close>: the last component of a path, in the static buffer padded with null bytes where it
  is short. \<open>after_slash\<close> is the index where the component starts.
\<close>

fun after_slash :: "string \<Rightarrow> nat \<Rightarrow> nat" where
  "after_slash path 0 = (if path \<noteq> [] \<and> path ! 0 = CHR ''/'' then 1 else 0)"
| "after_slash path (Suc p) =
     (if Suc p < length path \<and> path ! Suc p = CHR ''/'' then Suc (Suc p) else after_slash path p)"

definition fmtname :: "nat \<Rightarrow> string \<Rightarrow> string" where
  "fmtname dirsiz path =
     (let p = drop (after_slash path (length path)) path
      in if dirsiz \<le> length p then p else p @ replicate (dirsiz - length p + 1) (CHR 0x00))"

text \<open>
  Whether \<open>strcmp\<close> of a name field and a string gives 0; to read past the field is undefined.
\<close>

fun strcmp_eq :: "string \<Rightarrow> string \<Rightarrow> bool outcome" where
  "strcmp_eq [] t = Undef ''de.name''"
| "strcmp_eq (c # cs) [] = Ret (c = CHR 0x00)"
| "strcmp_eq (c # cs) (d # ds) = (if c = d then strcmp_eq cs ds else Ret False)"

definition cname :: "string \<Rightarrow> string" where
  "cname name = takeWhile (\<lambda>c. c \<noteq> CHR 0x00) name"

definition joined :: "string \<Rightarrow> string \<Rightarrow> string" where
  "joined path n = path @ CHR ''/'' # n"

lemma length_joined [simp]: "length (joined path n) = Suc (length path + length n)"
  by (simp add: joined_def)

text \<open>
  \<open>find\<close> and its loop over the directory. The first argument after the file system is the number of
  open descriptors. The writes to \<open>buf\<close>, an array of 512 bytes, are undefined outside it.
\<close>

function find :: "fsys \<Rightarrow> nat \<Rightarrow> string \<Rightarrow> string \<Rightarrow> event list outcome"
  and find_entries :: "fsys \<Rightarrow> nat \<Rightarrow> string \<Rightarrow> string \<Rightarrow> (nat \<times> string) list \<Rightarrow> event list outcome" where
  "find F k path filename =
     (if \<not> fs_open F k path then Ret [Cannot_open path]
      else case fs_fstat F path of
        None \<Rightarrow> Ret [Cannot_stat path]
      | Some ty \<Rightarrow>
          if ty \<noteq> T_DIR F then Ret [Not_dir path]
          else if length path + 1 + DIRSIZ F + 1 > 512 then Ret [Too_long]
          else if \<not> length path + 1 < 512 then Undef ''buf''
          else find_entries F (Suc k) path filename (fs_read F path))"
| "find_entries F k path filename [] = Ret []"
| "find_entries F k path filename ((inum, name) # es) =
     (if inum = 0 then find_entries F k path filename es
      else if \<not> length path + 1 + DIRSIZ F < 512 then Undef ''buf''
      else
        let buf = joined path (cname name) in
        obind (case fs_stat F k buf of
            None \<Rightarrow> Ret [Cannot_stat buf]
          | Some ty \<Rightarrow>
              obind (if ty = T_FILE F then strcmp_eq name filename else Ret False) (\<lambda>hit.
              if hit then Ret [Found buf]
              else
                obind (if ty = T_DIR F
                       then obind (strcmp_eq name ''.'') (\<lambda>dot.
                            if dot then Ret False
                            else obind (strcmp_eq name ''..'') (\<lambda>dotdot. Ret (\<not> dotdot)))
                       else Ret False) (\<lambda>sub.
                if sub then find F k buf filename else Ret [])))
          (\<lambda>out. obind (find_entries F k path filename es) (\<lambda>rest. Ret (out @ rest))))"
  by pat_completeness auto

termination
proof (relation "inv_image (less_than <*lex*> less_than)
    (case_sum (\<lambda>(F, k, path, filename). (512 - length path, Suc (length (fs_read F path))))
              (\<lambda>(F, k, path, filename, es). (512 - length path, length es)))", goal_cases)
qed auto

declare find.simps [simp del]

definition find_main :: "fsys \<Rightarrow> nat \<Rightarrow> string list \<Rightarrow> (event list \<times> nat) outcome" where
  "find_main F k argv =
     (if length argv \<noteq> 3 then Ret ([Usage], 1)
      else obind (find F k (argv ! 1) (argv ! 2)) (\<lambda>out. Ret (out, 0)))"

section \<open>The tree it searches\<close>

datatype node = File | Other | Dir dirents
  and dirents = Empty | Entry string node dirents

text \<open>The names a directory lists: those of its live entries but for the dots.\<close>

definition dots :: "string \<Rightarrow> bool" where
  "dots name \<longleftrightarrow> cname name = ''.'' \<or> cname name = ''..''"

definition live :: "(nat \<times> string) list \<Rightarrow> string list" where
  "live es = map (\<lambda>(inum, name). cname name) (filter (\<lambda>(inum, name). inum \<noteq> 0 \<and> \<not> dots name) es)"

definition raw_ok :: "fsys \<Rightarrow> nat \<Rightarrow> string \<Rightarrow> nat \<times> string \<Rightarrow> bool" where
  "raw_ok F lim p = (\<lambda>(inum, name). length name = DIRSIZ F \<and>
     (inum \<noteq> 0 \<and> dots name \<longrightarrow> (\<forall>k < lim. fs_stat F k (joined p (cname name)) = Some (T_DIR F))))"

text \<open>
  The file system shows the tree \<open>t\<close> at \<open>p\<close> to a process with fewer than \<open>lim\<close> open descriptors.
\<close>

fun shows_node :: "fsys \<Rightarrow> nat \<Rightarrow> string \<Rightarrow> node \<Rightarrow> bool"
  and shows_list :: "fsys \<Rightarrow> nat \<Rightarrow> string \<Rightarrow> string list \<Rightarrow> dirents \<Rightarrow> bool" where
  "shows_node F lim p File \<longleftrightarrow> (\<forall>k < lim. fs_stat F k p = Some (T_FILE F))"
| "shows_node F lim p Other \<longleftrightarrow>
     (\<exists>ty. ty \<noteq> T_FILE F \<and> ty \<noteq> T_DIR F \<and> (\<forall>k < lim. fs_stat F k p = Some ty))"
| "shows_node F lim p (Dir ds) \<longleftrightarrow>
     (\<forall>k < lim. fs_stat F k p = Some (T_DIR F) \<and> fs_open F k p) \<and> fs_fstat F p = Some (T_DIR F) \<and>
     list_all (raw_ok F lim p) (fs_read F p) \<and> shows_list F lim p (live (fs_read F p)) ds"
| "shows_list F lim p ns Empty \<longleftrightarrow> ns = []"
| "shows_list F lim p ns (Entry n t ds) \<longleftrightarrow>
     (\<exists>ns'. ns = n # ns' \<and> shows_node F lim (joined p n) t \<and> shows_list F lim p ns' ds)"

text \<open>How deep it is.\<close>

fun depth :: "node \<Rightarrow> nat" and depths :: "dirents \<Rightarrow> nat" where
  "depth (Dir ds) = Suc (depths ds)"
| "depth _ = 0"
| "depths Empty = 0"
| "depths (Entry n t ds) = max (depth t) (depths ds)"

text \<open>
  What there is to print: the paths of the files of that name, depth first, in the order of the
  entries; below a path that is too long nothing is searched.
\<close>

fun matches :: "nat \<Rightarrow> string \<Rightarrow> string \<Rightarrow> node \<Rightarrow> event list"
  and matches_list :: "nat \<Rightarrow> string \<Rightarrow> string \<Rightarrow> dirents \<Rightarrow> event list" where
  "matches dirsiz filename p (Dir ds) =
     (if 510 < length p + dirsiz then [Too_long] else matches_list dirsiz filename p ds)"
| "matches dirsiz filename p _ = []"
| "matches_list dirsiz filename p Empty = []"
| "matches_list dirsiz filename p (Entry n t ds) =
     (if t = File \<and> n = filename then [Found (joined p n)] else matches dirsiz filename (joined p n) t) @
     matches_list dirsiz filename p ds"

text \<open>
  Whether the searched part of the tree has a file whose name fills its field, without a null byte, and is what the
  search name begins with: there \<open>strcmp\<close> runs off the field.
\<close>

fun overreads :: "nat \<Rightarrow> string \<Rightarrow> string \<Rightarrow> node \<Rightarrow> bool"
  and overreads_list :: "nat \<Rightarrow> string \<Rightarrow> string \<Rightarrow> dirents \<Rightarrow> bool" where
  "overreads dirsiz filename p (Dir ds) \<longleftrightarrow>
     length p + dirsiz \<le> 510 \<and> overreads_list dirsiz filename p ds"
| "overreads dirsiz filename p _ \<longleftrightarrow> False"
| "overreads_list dirsiz filename p Empty \<longleftrightarrow> False"
| "overreads_list dirsiz filename p (Entry n t ds) \<longleftrightarrow>
     t = File \<and> length n = dirsiz \<and> take dirsiz filename = n \<or>
     overreads dirsiz filename (joined p n) t \<or> overreads_list dirsiz filename p ds"

definition searched :: "bool \<Rightarrow> 'a \<Rightarrow> 'a outcome" where
  "searched over out = (if over then Undef ''de.name'' else Ret out)"

section \<open>The search is right\<close>

lemma strcmp_eq_cname:
  "CHR 0x00 \<notin> set t \<Longrightarrow>
     strcmp_eq name t = searched (length (cname name) = length name \<and> take (length name) t = name) (cname name = t)"
  by (induction name t rule: strcmp_eq.induct) (auto simp: cname_def searched_def)

lemma strcmp_eq_short:
  "length t < length name \<Longrightarrow> CHR 0x00 \<notin> set t \<Longrightarrow> strcmp_eq name t = Ret (cname name = t)"
  by (auto simp: strcmp_eq_cname searched_def)

lemma cname_full: "length (cname name) = length name \<longleftrightarrow> cname name = name"
  unfolding cname_def by (induction name) auto

lemma skip_dead:
  assumes "list_all (raw_ok F lim p) es" and "live es = []" and "k < lim" and "3 \<le> DIRSIZ F"
    and "length p + 1 + DIRSIZ F < 512" and "T_FILE F \<noteq> T_DIR F"
  shows "find_entries F k p fn (es @ rest) = find_entries F k p fn rest"
  using assms(1,2)
proof (induction es)
  case (Cons e es)
  obtain inum name where e: "e = (inum, name)" by force
  have name: "length name = DIRSIZ F" using Cons.prems by (simp add: e raw_ok_def)
  have "inum = 0 \<or> dots name" "live es = []" using Cons.prems(2) by (auto simp: live_def e split: if_splits)
  then show ?case
    using Cons assms(3-6) name strcmp_eq_short [of "''.''" name] strcmp_eq_short [of "''..''" name]
    by (cases "inum = 0") (auto simp: e raw_ok_def dots_def Let_def)
qed simp

lemma live_Cons:
  assumes "live es = n # ns"
  obtains dead inum name rest where "es = dead @ (inum, name) # rest" and "live dead = []"
    and "inum \<noteq> 0" and "\<not> dots name" and "n = cname name" and "live rest = ns"
  using assms
  by (auto simp: live_def map_eq_Cons_conv filter_eq_Cons_iff)

lemma find_shows:
  assumes "3 \<le> DIRSIZ F" and "T_FILE F \<noteq> T_DIR F" and "CHR 0x00 \<notin> set fn"
  shows "shows_node F lim p t \<Longrightarrow> k + depth t < lim \<Longrightarrow> t = Dir ds' \<Longrightarrow>
      find F k p fn = searched (overreads (DIRSIZ F) fn p t) (matches (DIRSIZ F) fn p t)"
    and "shows_list F lim p (live es) ds \<Longrightarrow> list_all (raw_ok F lim p) es \<Longrightarrow> k + depths ds < lim \<Longrightarrow>
      length p + 1 + DIRSIZ F < 512 \<Longrightarrow> find_entries F k p fn es =
        searched (overreads_list (DIRSIZ F) fn p ds) (matches_list (DIRSIZ F) fn p ds)"
proof (induction t and ds arbitrary: k p ds' and k p es)
  case (Dir ds)
  then show ?case by (subst find.simps) (auto simp: searched_def)
next
  case Empty
  then show ?case using skip_dead [of F lim p es k fn "[]"] assms by (simp add: searched_def)
next
  case (Entry n t ds)
  then obtain ns where ns: "live es = n # ns" "shows_node F lim (joined p n) t" "shows_list F lim p ns ds" by auto
  from ns(1) obtain dead inum name rest where es: "es = dead @ (inum, name) # rest" "live dead = []"
    "inum \<noteq> 0" "\<not> dots name" "n = cname name" "live rest = ns" by (rule live_Cons)
  have k: "k < lim" "k + depth t < lim" "k + depths ds < lim" using Entry.prems(3) by auto
  have name: "length name = DIRSIZ F" using Entry.prems(2) es(1) by (simp add: raw_ok_def)
  have "find_entries F k p fn es = find_entries F k p fn ((inum, name) # rest)"
    using skip_dead [of F lim p dead k fn "(inum, name) # rest"] es Entry.prems k assms by simp
  moreover have "find_entries F k p fn rest =
      searched (overreads_list (DIRSIZ F) fn p ds) (matches_list (DIRSIZ F) fn p ds)"
    using Entry.IH(2) [of p rest k] es ns k Entry.prems by simp
  moreover have "strcmp_eq name fn = searched (length n = DIRSIZ F \<and> take (DIRSIZ F) fn = n) (n = fn)"
    using strcmp_eq_cname [OF assms(3), of name] cname_full [of name] es(5) name
    by (auto simp: searched_def)
  moreover have "strcmp_eq name ''.'' = Ret False" "strcmp_eq name ''..'' = Ret False"
    using strcmp_eq_short [of _ name] es(4,5) name assms by (simp_all add: dots_def)
  ultimately show ?case
    using ns(2) es(3,5) k Entry.prems(4) Entry.IH(1) [OF ns(2) k(2)] assms(2)
    by (cases t) (auto simp: Let_def searched_def)
qed auto

text \<open>
  (C34) For every search name, \<open>find\<close> on a file system that shows it a directory tree no deeper than the process has
  descriptors left ends, never writes outside its buffer, and reports a path that leaves no room in the buffer instead
  of searching there. If no file in the searched part has a name that fills its field and that the search name begins
  with, it reads within the name fields and prints exactly the paths of the files of that name, in the order of a
  depth-first walk. If there is such a file, the comparison reads past the end of the directory entry.
\<close>

theorem find_correct:
  assumes "shows_node F lim dir (Dir ds)" and "k + depth (Dir ds) < lim"
    and "3 \<le> DIRSIZ F" and "T_FILE F \<noteq> T_DIR F" and "CHR 0x00 \<notin> set fn"
  shows "find_main F k [prog, dir, fn] =
     (if overreads (DIRSIZ F) fn dir (Dir ds) then Undef ''de.name''
      else Ret (matches (DIRSIZ F) fn dir (Dir ds), 0))"
  using find_shows(1) [OF assms(3-5,1,2)] by (simp add: find_main_def searched_def)

text \<open>
  A directory with a file, a subdirectory and a removed entry; the subdirectory holds a file of the same name and one
  whose name fills the field.
\<close>

definition field :: "string \<Rightarrow> string" where
  "field n = n @ replicate (14 - length n) (CHR 0x00)"

definition demo_fs :: fsys where
  "demo_fs =
     \<lparr>DIRSIZ = 14, T_DIR = 1, T_FILE = 2,
      fs_open = (\<lambda>k p. k < 16),
      fs_fstat = (\<lambda>p. if p = ''a'' \<or> p = ''a/d'' then Some 1 else None),
      fs_stat = (\<lambda>k p. if p = ''a/b'' \<or> p = ''a/d/b'' \<or> p = ''a/d/fourteen_chars'' then Some 2 else Some 1),
      fs_read = (\<lambda>p. if p = ''a'' then [(1, field ''.''), (2, field ''b''), (0, field ''c''), (3, field ''d'')]
                     else [(3, field ''.''), (1, field ''..''), (4, field ''b''), (5, field ''fourteen_chars'')])\<rparr>"

definition demo_dir :: dirents where
  "demo_dir = Entry ''b'' File (Entry ''d'' (Dir (Entry ''b'' File (Entry ''fourteen_chars'' File Empty))) Empty)"

lemma demo_shows: "shows_node demo_fs 16 ''a'' (Dir demo_dir)"
  by (simp add: demo_fs_def demo_dir_def field_def live_def raw_ok_def dots_def cname_def joined_def)

theorem find_correct_witness:
  "find_main demo_fs 3 [''find'', ''a'', ''b''] = Ret ([Found ''a/b'', Found ''a/d/b''], 0) \<and>
   find_main demo_fs 3 [''find'', ''a'', ''fourteen_chars''] = Undef ''de.name''"
  using find_correct [OF demo_shows, of 3 "''b''" "''find''"]
    find_correct [OF demo_shows, of 3 "''fourteen_chars''" "''find''"]
  by (simp add: demo_dir_def demo_fs_def joined_def)

end
