(* ===== verification/Util_Ping.thy ===== *)
theory Util_Ping
  imports Prelude
begin

text \<open>
  Lab1 \<open>pingpong.c\<close> and \<open>sleep.c\<close>.

  \<open>pingpong\<close> is two processes that share one pipe; its runs are the interleavings of their system
  calls. Each message is written with length \<open>MSGSIZE\<close> from a string literal of five bytes, so
  eleven bytes after the literal go into the pipe too: what they are is a parameter. The buffers
  are not initialised; what they hold is a parameter as well. A read takes what is in the pipe, at
  most \<open>MSGSIZE\<close> bytes, and blocks on an empty pipe, as the reader itself holds a write end.

  A failing \<open>fork\<close> returns a negative number, and the code then takes the branch of the child in
  the only process there is: \<open>ping_alone\<close>.
\<close>

section \<open>Ping pong\<close>

definition MSGSIZE :: nat where "MSGSIZE = 16"

datatype parent = P_write | P_wait | P_read | P_print string | P_exit | P_none
datatype child = C_read | C_print string | C_write | C_exit
datatype who = Parent | Child

record pp =
  par :: parent
  chi :: child
  pipe_bytes :: string
  printed :: "(who \<times> string) list"

definition as_string :: "string \<Rightarrow> string" where
  "as_string buf = takeWhile (\<lambda>c. c \<noteq> CHR 0x00) buf"

definition literal :: "string \<Rightarrow> string \<Rightarrow> string" where
  "literal s after = take MSGSIZE (s @ CHR 0x00 # after)"

text \<open>The buffer after a read of the bytes of the pipe.\<close>

definition filled :: "string \<Rightarrow> string \<Rightarrow> string" where
  "filled buf q = take MSGSIZE q @ drop (length (take MSGSIZE q)) buf"

definition ping_start :: pp where
  "ping_start = \<lparr>par = P_write, chi = C_read, pipe_bytes = [], printed = []\<rparr>"

definition ping_alone :: pp where
  "ping_alone = \<lparr>par = P_none, chi = C_read, pipe_bytes = [], printed = []\<rparr>"

text \<open>One step of one of them: \<open>None\<close> when it is blocked or has exited.\<close>

fun parent_step :: "string \<Rightarrow> string \<Rightarrow> pp \<Rightarrow> pp option" where
  "parent_step after buf s =
     (case par s of
        P_write \<Rightarrow> Some (s\<lparr>pipe_bytes := pipe_bytes s @ literal ''ping'' after, par := P_wait\<rparr>)
      | P_wait \<Rightarrow> if chi s = C_exit then Some (s\<lparr>par := P_read\<rparr>) else None
      | P_read \<Rightarrow> if pipe_bytes s = [] then None
                  else Some (s\<lparr>par := P_print (filled buf (pipe_bytes s)), pipe_bytes := drop MSGSIZE (pipe_bytes s)\<rparr>)
      | P_print b \<Rightarrow> Some (s\<lparr>printed := printed s @ [(Parent, as_string b)], par := P_exit\<rparr>)
      | P_exit \<Rightarrow> None
      | P_none \<Rightarrow> None)"

fun child_step :: "string \<Rightarrow> string \<Rightarrow> pp \<Rightarrow> pp option" where
  "child_step after buf s =
     (case chi s of
        C_read \<Rightarrow> if pipe_bytes s = [] then None
                  else Some (s\<lparr>chi := C_print (filled buf (pipe_bytes s)), pipe_bytes := drop MSGSIZE (pipe_bytes s)\<rparr>)
      | C_print b \<Rightarrow> Some (s\<lparr>printed := printed s @ [(Child, as_string b)], chi := C_write\<rparr>)
      | C_write \<Rightarrow> Some (s\<lparr>pipe_bytes := pipe_bytes s @ literal ''pong'' after, chi := C_exit\<rparr>)
      | C_exit \<Rightarrow> None)"

inductive ping_run :: "string \<Rightarrow> string \<Rightarrow> string \<Rightarrow> string \<Rightarrow> pp \<Rightarrow> nat \<Rightarrow> bool" for a1 a2 b1 b2 where
  start: "ping_run a1 a2 b1 b2 ping_start 0"
| parent: "ping_run a1 a2 b1 b2 s n \<Longrightarrow> parent_step a1 b1 s = Some t \<Longrightarrow> ping_run a1 a2 b1 b2 t (Suc n)"
| child: "ping_run a1 a2 b1 b2 s n \<Longrightarrow> child_step a2 b2 s = Some t \<Longrightarrow> ping_run a1 a2 b1 b2 t (Suc n)"

text \<open>There is only one run: the stations it goes through.\<close>

definition ping_msg where "ping_msg a1 = literal ''ping'' a1"
definition pong_msg where "pong_msg a2 = literal ''pong'' a2"

definition stations :: "string \<Rightarrow> string \<Rightarrow> pp list" where
  "stations a1 a2 =
     [ping_start,
      \<lparr>par = P_wait, chi = C_read, pipe_bytes = ping_msg a1, printed = []\<rparr>,
      \<lparr>par = P_wait, chi = C_print (ping_msg a1), pipe_bytes = [], printed = []\<rparr>,
      \<lparr>par = P_wait, chi = C_write, pipe_bytes = [], printed = [(Child, ''ping'')]\<rparr>,
      \<lparr>par = P_wait, chi = C_exit, pipe_bytes = pong_msg a2, printed = [(Child, ''ping'')]\<rparr>,
      \<lparr>par = P_read, chi = C_exit, pipe_bytes = pong_msg a2, printed = [(Child, ''ping'')]\<rparr>,
      \<lparr>par = P_print (pong_msg a2), chi = C_exit, pipe_bytes = [], printed = [(Child, ''ping'')]\<rparr>,
      \<lparr>par = P_exit, chi = C_exit, pipe_bytes = [], printed = [(Child, ''ping''), (Parent, ''pong'')]\<rparr>]"

lemma messages:
  assumes "length a = 11" and "length b = 16" and "length s = 4" and "CHR 0x00 \<notin> set s"
  shows "filled b (literal s a) = literal s a" "as_string (literal s a) = s" "literal s a \<noteq> []"
    "drop MSGSIZE (literal s a) = []"
proof -
  have l: "literal s a = s @ CHR 0x00 # a" using assms by (simp add: literal_def MSGSIZE_def)
  show "as_string (literal s a) = s"
    using assms(4) unfolding as_string_def l by (induction s) auto
  show "filled b (literal s a) = literal s a" "literal s a \<noteq> []" "drop MSGSIZE (literal s a) = []"
    using assms by (simp_all add: filled_def l MSGSIZE_def)
qed

lemma ping_run_stations:
  assumes "length a1 = 11" and "length a2 = 11" and "length b1 = 16" and "length b2 = 16"
    and "ping_run a1 a2 b1 b2 s n"
  shows "n < 8 \<and> s = stations a1 a2 ! n"
  using assms(5)
proof induction
  case start
  then show ?case by (simp add: stations_def)
next
  case (parent s n t)
  then have "n \<in> {0, 1, 2, 3, 4, 5, 6, 7}" by auto
  then show ?case using parent messages [of a2 b1 "''pong''"] assms(1-4)
    by (auto simp: stations_def ping_start_def ping_msg_def pong_msg_def)
next
  case (child s n t)
  then have "n \<in> {0, 1, 2, 3, 4, 5, 6, 7}" by auto
  then show ?case using child messages [of a1 b2 "''ping''"] assms(1-4)
    by (auto simp: stations_def ping_start_def ping_msg_def pong_msg_def)
qed

text \<open>
  (C35) \<open>pingpong\<close>: however the two processes are scheduled and whatever follows the literals in memory,
  what has been printed is a beginning of the child's line with \<open>ping\<close> followed by the parent's line
  with \<open>pong\<close>; the run is never stuck before both have exited, and then, after seven steps, both lines
  have been printed. When \<open>fork\<close> fails, the single process is stuck in its read for ever.
\<close>

theorem pingpong_correct:
  assumes "length a1 = 11" and "length a2 = 11" and "length b1 = 16" and "length b2 = 16"
    and "ping_run a1 a2 b1 b2 s n"
  shows "(\<exists>rest. printed s @ rest = [(Child, ''ping''), (Parent, ''pong'')]) \<and> n \<le> 7 \<and>
    (par s = P_exit \<and> chi s = C_exit \<longleftrightarrow> n = 7) \<and>
    (n = 7 \<longrightarrow> printed s = [(Child, ''ping''), (Parent, ''pong'')]) \<and>
    (n < 7 \<longrightarrow> parent_step a1 b1 s \<noteq> None \<or> child_step a2 b2 s \<noteq> None) \<and>
    parent_step a1 b1 ping_alone = None \<and> child_step a2 b2 ping_alone = None"
proof -
  have n: "n < 8" "s = stations a1 a2 ! n" using ping_run_stations [OF assms] by auto
  then have "n \<in> {0, 1, 2, 3, 4, 5, 6, 7}" by auto
  then show ?thesis
    using n(2) messages [of a1 b2 "''ping''"] messages [of a2 b1 "''pong''"] assms(1-4)
    by (auto simp: stations_def ping_start_def ping_alone_def ping_msg_def pong_msg_def)
qed

theorem pingpong_correct_witness:
  "(\<exists>rest. printed ping_start @ rest = [(Child, ''ping''), (Parent, ''pong'')]) \<and>
   child_step (replicate 11 CHR ''x'') (replicate 16 CHR ''y'') ping_alone = None"
  using pingpong_correct [OF _ _ _ _ ping_run.start, of "replicate 11 CHR ''x''" "replicate 11 CHR ''x''"
      "replicate 16 CHR ''y''" "replicate 16 CHR ''y''"]
  by simp

section \<open>Sleep\<close>

text \<open>\<open>atoi\<close> and the sleep system call are not in this part of the repository. The result is the
  argument of the sleep call, if there is one, and the exit status.\<close>

definition sleep_main :: "(string \<Rightarrow> i32) \<Rightarrow> string list \<Rightarrow> i32 option \<times> nat" where
  "sleep_main atoi argv =
     (if length argv \<noteq> 2 then (None, 1)
      else
        let time = atoi (argv ! 1) in
        if sint time \<le> 0 then (None, 1) else (Some time, 0))"

lemma sleep_main_positive: "sleep_main atoi argv = (Some t, st) \<Longrightarrow> 0 < sint t \<and> st = 0 \<and> length argv = 2"
  by (auto simp: sleep_main_def Let_def split: if_splits)

end
