(* ===== verification/Spec2Isabelle.thy ===== *)
theory Spec2Isabelle
  imports Lottery_Wakeup Lottery_User Lottery_Mp Bio_Cache Bio_Conc Vm_Kernel
    Rv_Launch Util_Primes Util_Xargs Util_Find Util_Ping
begin

text \<open>
  A verification of the programs of an operating-systems course built on xv6. The repository has four
  parts that do not share code, and so has this library.

  \<^bold>\<open>Lab1-Util\<close>, five user programs. \<open>Util_Primes\<close> models \<open>primes.c\<close>, a chain of processes connected by
  pipes, as a step relation over all interleavings of their system calls: what is printed is always a
  beginning of the list of primes, no interleaving deadlocks, and every run ends. \<open>Util_Xargs\<close> models
  \<open>xargs.c\<close> on the character buffer and the vector of pointers into it that the code uses, and shows
  that it computes a reference defined on lists of words. \<open>Util_Find\<close> models \<open>find.c\<close> over a file
  system given by what its system calls return, and shows for every search name that on a file system
  that shows a tree it prints the paths of the tree, or where it reads past a directory entry. \<open>Util_Ping\<close> has \<open>pingpong.c\<close>, again over all interleavings, and
  \<open>sleep.c\<close>.

  \<^bold>\<open>Lab2\<close>, the lottery scheduler of the x86 kernel. \<open>Lottery_Rand\<close> is \<open>rand.c\<close>. \<open>Lottery_Proc\<close> has the
  data of \<open>proc.h\<close> and \<open>pstat.h\<close> and every function of \<open>proc.c\<close>, from \<open>pinit\<close> to \<open>getpinfo\<close>, on an
  explicit kernel state \<open>kst\<close> (the process table, the trap frames and contexts by address, the seed,
  the CPUs). \<open>Lottery_Locks\<close> states what the code relies on of the spin locks as the locale
  \<open>spinlock_laws\<close>; \<open>Lottery_Ops\<close> extends it to \<open>kernel_env\<close> and runs each operation under it;
  \<open>Lottery_Machine\<close> is a machine that satisfies the laws. \<open>Lottery_Sched\<close> shows what the lottery
  itself does: the winner is the owner of the drawn ticket, each process holds as many winning draws
  as tickets, and a draw always selects somebody while the sum of the tickets is an \<open>int\<close>.
  \<open>Lottery_Kernel\<close> has the contracts of the process operations, and shows how \<open>settickets\<close> can make that sum
  overflow. \<open>Lottery_Wakeup\<close> interleaves \<open>sleep\<close>, \<open>wakeup\<close> and \<open>kill\<close> on any number of processes and shows that
  no wakeup is lost. \<open>Lottery_Syscall\<close> models \<open>syscall.c\<close>,
  \<open>syscall.h\<close> and \<open>sysproc.c\<close>, with the accesses to user memory as the locale \<open>user_mem\<close>, and
  follows system calls from the trap frame to the process table and back to user memory.
  \<open>Lottery_Mp\<close> models \<open>mp.c\<close>, the search for the multiprocessor tables and the loop over their entries;
  where the fields lie in the bytes of memory is a parameter (\<open>mp.h\<close> is not in the repository). On a table of
  any number of known entries the loop records what the table says, and on an unknown entry it never ends.
  \<open>Lottery_User\<close> has the programs \<open>testProcInfo.c\<close> and \<open>testTicket.c\<close> on top of the system calls.

  \<^bold>\<open>Lab3\<close>, page tables of the RISC-V kernel. \<open>Vm\<close> has every function of \<open>vm.c\<close> on byte-addressed
  physical memory. \<open>Vm_Mem\<close> and \<open>Vm_Walk\<close> abstract the memory to a tree of page-table pages and the
  tree to a map from virtual pages to entries, under the locales \<open>sv39\<close> (the macros of \<open>riscv.h\<close>) and
  \<open>page_alloc\<close> (the allocator). \<open>Vm_Map\<close>, \<open>Vm_Space\<close>, \<open>Vm_Grow\<close>, \<open>Vm_Alloc\<close>, \<open>Vm_Copy\<close>, \<open>Vm_User\<close>,
  \<open>Vm_Str\<close> and \<open>Vm_Free\<close> say what the operations do to the abstraction, \<open>Vm_Machine\<close> interprets the
  locales, and \<open>Vm_Kernel\<close> has the properties.

  \<open>Rv_Proc\<close> has the processes of \<open>proc.c\<close> on top of \<open>Vm\<close>, and \<open>Rv_Exec\<close> the loading of a program,
  \<open>exec.c\<close>. \<open>Rv_Locks\<close> states what the code relies on of the spin locks as the locale \<open>rv_lock_laws\<close>,
  \<open>Rv_Space\<close> adds where \<open>memlayout.h\<close> puts the three pages above the user's (\<open>proc_layout\<close>), and both together are
  \<open>rv_kernel\<close>. \<open>Rv_Mem\<close> has the invariant \<open>mem_ok\<close> that each process of the table owns its pages alone: page
  table, user pages, trap frame and pid page; \<open>mem_safe\<close> is the contract of an operation on one slot, under which
  no page is lost and no other process notices. \<open>Rv_Alloc\<close>, \<open>Rv_Fork\<close>, \<open>Rv_Child\<close> (with the laws of the file
  layer, \<open>rv_os\<close>), \<open>Rv_Exit\<close> and \<open>Rv_Wait\<close> run the operations of the life of a process under these laws,
  \<open>Rv_Machine\<close> is a machine that satisfies them, and \<open>Rv_Kernel\<close> and \<open>Rv_Life\<close> have the properties.

  For \<open>exec\<close>, \<open>Rv_Image\<close> abstracts the address space under construction to a function from user addresses to bytes,
  \<open>Rv_Load\<close> shows that the loop over the program headers computes the image of a reference loader
  (under the locale \<open>exec_env\<close> of inode layer and \<open>strlen\<close>), \<open>Rv_Stack\<close> that the stack gets the argument strings and the
  vector of their addresses, \<open>Rv_Run\<close> treats the commitment and the way back, and \<open>Rv_Program\<close> puts it together;
  \<open>Rv_Launch\<close> has the property and runs an ELF file on the reference machine.

  \<^bold>\<open>Lab4\<close>, the buffer cache with a lock per bucket. \<open>Bio\<close> has every function of \<open>bio.c\<close> on a memory of
  buffers with their pointers. \<open>Bio_List\<close> abstracts the pointers to lists, \<open>Bio_Ops\<close> and \<open>Bio_Cache\<close>
  to a map from blocks to buffers, for one thread; \<open>Bio_Conc\<close> interleaves the critical sections of any
  number of threads and shows that no two hold the same block and the cache stays coherent.

  Conventions. A C function is a HOL function into \<open>outcome\<close> (\<open>Prelude\<close>): it returns, panics, or does
  something undefined. Machine integers are words of their width; signed comparisons read them as
  two's complement. Overflow of an \<open>int\<close> is undefined in C (the makefile does not set \<open>-fwrapv\<close>): it is the
  outcome \<open>Undef\<close> in the sums over tickets (\<open>sadd\<close>), which user programs control. The counters that need
  \<open>2 ^ 31\<close> events to get there (such as \<open>nextpid\<close>, the ticks of a process and the sum that \<open>testProcInfo\<close> prints of
  them) are words that wrap in the model, so the theorems speak of the code only up to that point.
  Code that is not in the repository is a record of functions that the definitions take as an
  argument; what is relied on is a locale assumption, and every locale is interpreted on a concrete
  machine, on which the witnesses run. The laws of the file and log routines (\<open>kernel_env\<close>, \<open>rv_os\<close>) are the
  contract of their legitimate calls, and ask that a call returns; the panics of those routines on misuse, such as a
  file without references, are outside of it. \<open>sys_getpinfo\<close> reads and writes the caller's structure as one block. A loop that may not end takes fuel: \<open>wait\<close>, \<open>sleep\<close> and the
  scheduler count their rounds, the loops over addresses of \<open>vm.c\<close> count pages, and the theorems on
  them say how much is enough: one unit per page or byte of the range and one more, three above the pages of a process
  to free it, twice the free pages and sixteen for \<open>exec\<close>. A function that
  switches to another process takes what the other processes do meanwhile as an argument.

  Not modelled: the header files that only declare (\<open>defs.h\<close>, \<open>user.h\<close>), the system-call stubs \<open>usys.S\<close>
  and the makefiles. The theorem on \<open>exec\<close> is for fewer than \<open>MAXARG\<close> arguments; with exactly \<open>MAXARG\<close> the code writes past an
  array (\<open>exec_maxarg_overflow\<close>).
\<close>

end
